(* ===== verification/Prelude.thy ===== *)
theory Prelude
  imports Main "HOL-Library.Word"
begin

text \<open>
  Shared vocabulary of the development. Bytes, slices and the machine integers of the sources
  get their names here; the generic facts on words, little-endian byte sequences, lists and
  options that several components use are collected as simplification rules or in the
  development's \<^theory_text>\<open>named_theorems\<close> collections. The interface of every wire format of the
  repository (something is appended by an encoder and taken off the front of a slice by a
  decoder) is the locale \<open>prefix_codec\<close>, its companion for decoders alone is \<open>slice_reader\<close>.
\<close>

unbundle bit_operations_syntax

named_theorems codec_defs \<open>definitions unfolded to reason about an encoder or a decoder\<close>
named_theorems codec_simps \<open>round trips of the primitive encodings, used to prove composite ones\<close>
named_theorems word_split \<open>decomposition of words into byte or 7-bit groups\<close>

section \<open>Types of the sources\<close>

type_synonym byte = "8 word"
type_synonym u16 = "16 word"
type_synonym u32 = "32 word"
type_synonym u64 = "64 word"
type_synonym slice = "byte list"

section \<open>Words\<close>

lemma push_bit_OR [word_split]: "push_bit n (a OR b) = push_bit n a OR push_bit n (b :: 'a::len word)"
  by (rule bit_word_eqI) (auto simp: bit_simps)

lemma ucast_mask8 [simp]: "(ucast (w AND 0xff :: 'a::len word) :: byte) = ucast w"
proof -
  have "(w AND 0xff) = take_bit 8 w" by (simp add: take_bit_eq_mask mask_numeral)
  then show ?thesis by (intro bit_word_eqI) (auto simp: bit_simps)
qed

lemma take_bit_split: "take_bit (m + n) (v :: 'a::len word) = take_bit m v OR push_bit m (take_bit n (drop_bit m v))"
  by (rule bit_word_eqI) (auto simp: bit_simps)

lemma word_split_low: "(v :: 'a::len word) = take_bit m v OR push_bit m (drop_bit m v)"
proof (rule bit_word_eqI)
  fix n assume "n < LENGTH('a)"
  then show "bit v n = bit (take_bit m v OR push_bit m (drop_bit m v)) n"
    by (cases "n < m") (auto simp: bit_simps)
qed

lemma ucast_ucast_byte: "8 \<le> LENGTH('a) \<Longrightarrow> (ucast (ucast v :: byte) :: 'a::len word) = take_bit 8 v"
  by (rule bit_word_eqI) (auto simp: bit_simps)

lemma unat_drop_bit_div: "unat (drop_bit n (v :: 'a::len word)) = unat v div 2 ^ n"
  by (simp only: unat_drop_bit_eq) (simp add: drop_bit_eq_div)

lemma unat_drop_bit_less: "(128 :: u64) \<le> v \<Longrightarrow> unat (drop_bit 7 v) < unat v"
  by (simp add: unat_drop_bit_div word_le_nat_alt del: drop_bit_eq_div)

lemma unat_less_not_bit:
  assumes "unat (v :: 'a::len word) < 2 ^ k" and "k \<le> n"
  shows "\<not> bit v n"
proof -
  have "bit v n \<longleftrightarrow> bit (unat v) n" by (auto simp: bit_simps dest: bit_imp_le_length)
  moreover have "unat v < 2 ^ n"
    using assms by (meson less_le_trans one_le_numeral power_increasing)
  ultimately show ?thesis by (simp add: bit_iff_odd)
qed

lemma div_pow_less: "(x::nat) < 2 ^ n \<Longrightarrow> a \<le> n \<Longrightarrow> x div 2 ^ a < 2 ^ (n - a)"
  by (rule less_mult_imp_div_less) (simp flip: power_add)

lemma unat_ucast_up: "LENGTH('a) \<le> LENGTH('b) \<Longrightarrow> unat (ucast (w :: 'a::len word) :: 'b::len word) = unat w"
  by (simp add: unsigned_ucast_eq take_bit_nat_eq_self_iff)
     (metis order.strict_trans2 one_le_numeral power_increasing unsigned_less)

lemma and127: "(x :: 'a::len word) AND 127 = take_bit 7 x"
  by (simp add: take_bit_eq_mask mask_numeral)

lemma bit_128: "bit (128 :: int) n \<longleftrightarrow> n = 7"
proof -
  have "(128 :: int) = push_bit 7 1" by simp
  then show ?thesis by (simp only: bit_simps) auto
qed

text \<open>
  One group of a varint: seven payload bits, and the eighth tells whether more groups follow.
\<close>

lemma vbyte_more:
  assumes "8 \<le> LENGTH('a)" and "8 \<le> LENGTH('b)"
  shows "((ucast (ucast ((x :: 'a::len word) OR 128) :: byte) :: 'b::len word) AND 128 \<noteq> 0)"
    and "(ucast (ucast (x OR 128) :: byte) :: 'b word) AND 127 = ucast (take_bit 7 x)"
proof -
  have "bit ((ucast (ucast (x OR 128) :: byte) :: 'b word) AND 128) 7"
    using assms by (auto simp: bit_simps bit_128 dest: bit_imp_le_length)
  then show "(ucast (ucast (x OR 128) :: byte) :: 'b word) AND 128 \<noteq> 0" by auto
  show "(ucast (ucast (x OR 128) :: byte) :: 'b word) AND 127 = ucast (take_bit 7 x)"
    unfolding and127 using assms by (intro bit_word_eqI) (auto simp: bit_simps bit_128 dest: bit_imp_le_length)
qed

lemma vbyte_last:
  assumes "8 \<le> LENGTH('a)" and "8 \<le> LENGTH('b)" and "unat (x :: 'a::len word) < 128"
  shows "(ucast (ucast x :: byte) :: 'b::len word) AND 128 = 0"
    and "(ucast (ucast x :: byte) :: 'b word) = ucast x"
proof -
  have hi: "n < 7" if "bit x n" for n
    using unat_less_not_bit [of x 7 n] assms(3) that by (cases "n < 7") auto
  show "(ucast (ucast x :: byte) :: 'b word) AND 128 = 0"
    by (intro bit_word_eqI) (auto simp: bit_simps bit_128 dest: hi)
  show "(ucast (ucast x :: byte) :: 'b word) = ucast x"
    by (intro bit_word_eqI) (auto simp: bit_simps dest: hi)
qed

lemma push_bit_group: "push_bit s (v :: 'a::len word) = push_bit s (take_bit k v) OR push_bit (s + k) (drop_bit k v)"
proof -
  have "push_bit s v = push_bit s (take_bit k v OR push_bit k (drop_bit k v))"
    by (simp flip: word_split_low)
  then show ?thesis by (simp add: push_bit_OR add.commute)
qed

section \<open>Little-endian byte sequences\<close>

text \<open>The reference for the fixed-width encodings: \<open>k\<close> bytes, least significant first.\<close>

fun le_bytes :: "nat \<Rightarrow> 'a::len word \<Rightarrow> byte list" where
  "le_bytes 0 v = []"
| "le_bytes (Suc k) v = ucast v # le_bytes k (drop_bit 8 v)"

fun le_word :: "byte list \<Rightarrow> 'a::len word" where
  "le_word [] = 0"
| "le_word (b # bs) = ucast b OR push_bit 8 (le_word bs)"

lemma length_le_bytes [simp]: "length (le_bytes k v) = k"
  by (induction k arbitrary: v) auto

lemma le_word_le_bytes:
  "8 \<le> LENGTH('a) \<Longrightarrow> le_word (le_bytes k (v :: 'a::len word)) = take_bit (8 * k) v"
proof (induction k arbitrary: v)
  case 0
  show ?case by simp
next
  case (Suc k)
  have "take_bit (8 * Suc k) v = take_bit (8 + 8 * k) v" by simp
  with Suc show ?case
    by (simp add: take_bit_split [of 8 "8 * k"] ucast_ucast_byte del: mult_Suc_right)
qed

lemma le_word_le_bytes_full:
  "8 * k = LENGTH('a) \<Longrightarrow> 0 < k \<Longrightarrow> le_word (le_bytes k (v :: 'a::len word)) = v"
  using le_word_le_bytes [of k v] by (cases k) (simp_all add: take_bit_word_eq_self)

lemma le_word_bit_less: "bit (le_word bs :: 'a::len word) n \<Longrightarrow> n < 8 * length bs"
proof (induction bs arbitrary: n)
  case Nil
  then show ?case by simp
next
  case (Cons c cs)
  then have "bit c n \<or> (8 \<le> n \<and> bit (le_word cs :: 'a word) (n - 8))"
    by (auto simp: bit_simps)
  then show ?case
    using Cons.IH [of "n - 8"] by (auto dest: bit_imp_le_length)
qed

lemma le_word_append:
  "le_word (xs @ ys) = (le_word xs OR push_bit (8 * length xs) (le_word ys) :: 'a::len word)"
  by (induction xs) (simp_all add: push_bit_OR or.assoc)

lemma ucast_le_word:
  "8 * length bs \<le> LENGTH('a) \<Longrightarrow> LENGTH('a) \<le> LENGTH('b) \<Longrightarrow>
   (ucast (le_word bs :: 'a::len word) :: 'b::len word) = le_word bs"
proof (induction bs)
  case Nil
  show ?case by simp
next
  case (Cons b bs)
  have bnd: "n < LENGTH('a) - 8" if "bit (le_word bs :: 'a word) n" for n
    using le_word_bit_less [OF that] Cons.prems by simp
  have "ucast (ucast b OR push_bit 8 (le_word bs) :: 'a word)
      = (ucast b OR push_bit 8 (ucast (le_word bs :: 'a word)) :: 'b word)"
    using Cons.prems
    by (intro bit_word_eqI) (auto simp: bit_simps dest: bnd bit_imp_le_length)
  with Cons show ?case by simp
qed

lemma le_bytes_le_word:
  "8 * length bs \<le> LENGTH('a) \<Longrightarrow> le_bytes (length bs) (le_word bs :: 'a::len word) = bs"
proof (induction bs)
  case Nil
  show ?case by simp
next
  case (Cons b bs)
  then have len: "8 \<le> LENGTH('a)" and len': "8 + 8 * length bs \<le> LENGTH('a)" by simp_all
  have bnd: "n < LENGTH('a) - 8" if "bit (le_word bs :: 'a word) n" for n
    using le_word_bit_less [OF that] len' by simp
  have "(ucast (ucast b OR push_bit 8 (le_word bs) :: 'a word) :: byte) = b"
    using len by (intro bit_word_eqI) (auto simp: bit_simps)
  moreover have "drop_bit 8 (ucast b OR push_bit 8 (le_word bs) :: 'a word) = le_word bs"
    by (intro bit_word_eqI) (auto simp: bit_simps dest: bit_imp_le_length bnd)
  ultimately show ?case using Cons by simp
qed

section \<open>Lists\<close>

lemma take_drop_Cons: "i < length xs \<Longrightarrow> drop i xs = xs ! i # drop (Suc i) xs"
  by (rule Cons_nth_drop_Suc [symmetric])

lemma length_four: "4 \<le> length p \<Longrightarrow> \<exists>a b c d r. p = a # b # c # d # r"
  by (metis (no_types, opaque_lifting) One_nat_def Suc_le_length_iff numeral_eq_Suc pred_numeral_simps(2,3) BitM.simps pred_numeral_simps(1) numeral_One)

section \<open>Readers and codecs\<close>

text \<open>
  A reader takes a value off the front of a slice, as the \<^verbatim>\<open>Get...(Slice*, ...)\<close> routines do;
  \<open>None\<close> is the routine's \<^verbatim>\<open>false\<close>. What a client relies on is that a successful call leaves a
  proper suffix of the input, so that a loop over a slice ends.
\<close>

type_synonym 'a reader = "slice \<Rightarrow> ('a \<times> slice) option"

locale slice_reader =
  fixes dec :: "'a reader"
  assumes dec_suffix: "dec i = Some (x, r) \<Longrightarrow> \<exists>p. p \<noteq> [] \<and> i = p @ r"
begin

lemma dec_shorter: "dec i = Some (x, r) \<Longrightarrow> length r < length i"
  by (drule dec_suffix) auto

lemma dec_Nil: "dec [] = None"
  using dec_suffix [of "[]"] by (cases "dec []") auto

end

text \<open>
  A codec adds the encoder: on the values of its domain (lengths that fit their field, for
  example) the reader gives back what was appended and leaves what followed it.
\<close>

locale prefix_codec =
  fixes enc :: "'a \<Rightarrow> slice" and dec :: "'a reader" and ok :: "'a \<Rightarrow> bool"
  assumes dec_enc: "ok x \<Longrightarrow> dec (enc x @ r) = Some (x, r)"
begin

lemma dec_enc_all: "ok x \<Longrightarrow> dec (enc x) = Some (x, [])"
  using dec_enc [of x "[]"] by simp

text \<open>The encodings form a prefix code: concatenated values can be told apart.\<close>

lemma enc_prefix_free: "ok x \<Longrightarrow> ok y \<Longrightarrow> enc x @ r = enc y @ s \<Longrightarrow> x = y \<and> r = s"
  by (metis dec_enc option.inject prod.inject)

lemma enc_inject: "ok x \<Longrightarrow> ok y \<Longrightarrow> enc x = enc y \<longleftrightarrow> x = y"
  using enc_prefix_free [of x y "[]" "[]"] by auto

end

text \<open>Reading up to \<open>n\<close> values in a row, stopping early when the reader fails.\<close>

fun read_upto :: "'a reader \<Rightarrow> nat \<Rightarrow> slice \<Rightarrow> 'a list" where
  "read_upto dec 0 i = []"
| "read_upto dec (Suc n) i =
     (case dec i of None \<Rightarrow> [] | Some (x, r) \<Rightarrow> x # read_upto dec n r)"

context prefix_codec
begin

lemma read_upto_enc:
  "list_all ok xs \<Longrightarrow> read_upto dec (length xs) (concat (map enc xs) @ r) = xs"
  by (induction xs) (auto simp: dec_enc)

lemma concat_enc_inject:
  assumes "list_all ok xs" "list_all ok ys" "length xs = length ys"
    and "concat (map enc xs) = concat (map enc ys)"
  shows "xs = ys"
  using read_upto_enc [of xs "[]"] read_upto_enc [of ys "[]"] assms by simp

end

lemma takeWhile_split: "\<forall>x \<in> set xs. P x \<Longrightarrow> \<forall>x \<in> set ys. \<not> P x \<Longrightarrow> takeWhile P (xs @ ys) = xs"
  by (cases ys) auto

section \<open>Numbers in messages and file names\<close>

text \<open>The digits of a number, as \<^verbatim>\<open>%llu\<close> prints it.\<close>

fun decimal :: "nat \<Rightarrow> string" where
  "decimal n = (if n < 10 then [char_of (48 + n)] else decimal (n div 10) @ [char_of (48 + n mod 10)])"

declare decimal.simps [simp del]

end
