(* ===== verification/Prng.thy ===== *)
theory Prng
  imports Prelude
begin

text \<open>
  \<^verbatim>\<open>pdlfs-common/random.h\<close>: the generator that gives the nodes of the skip list their heights. The seed
  is the state; the reference is the linear congruential generator of the comment in the source.
\<close>

definition mk_Random :: "u32 \<Rightarrow> u32" where
  "mk_Random s = (let seed = s AND 0x7fffffff in if seed = 0 \<or> seed = 2147483647 then 1 else seed)"

definition Random_Next :: "u32 \<Rightarrow> u32" where
  "Random_Next seed =
     (let M = (2147483647 :: u32); A = (16807 :: u64);
          product = ucast seed * A;
          seed = ucast (drop_bit 31 product + (product AND ucast M))
      in if M < seed then seed - M else seed)"

text \<open>\<^verbatim>\<open>Next()\<close> returns the new seed.\<close>

definition Uniform :: "u32 \<Rightarrow> u32 \<Rightarrow> u32 \<times> u32" where
  "Uniform seed n = (let seed = Random_Next seed in (seed mod n, seed))"

definition OneIn :: "u32 \<Rightarrow> u32 \<Rightarrow> bool \<times> u32" where
  "OneIn seed n = (let seed = Random_Next seed in (seed mod n = 0, seed))"

definition Skewed :: "u32 \<Rightarrow> nat \<Rightarrow> u32 \<times> u32" where
  "Skewed seed max_log =
     (case Uniform seed (word_of_nat (max_log + 1)) of (base, seed) \<Rightarrow>
        Uniform seed (push_bit (unat base) 1))"

definition seed_ok :: "u32 \<Rightarrow> bool" where
  "seed_ok s \<longleftrightarrow> 0 < unat s \<and> unat s < 2147483647"

lemma avoid_bad_seeds: "unat x < 2 ^ 31 \<Longrightarrow> seed_ok (if x = 0 \<or> x = 2147483647 then 1 else x)"
  by (simp add: seed_ok_def word_unat_eq_iff)

lemma mk_Random_ok: "seed_ok (mk_Random s)"
proof -
  have m: "s AND 0x7fffffff = take_bit 31 s" by (simp add: take_bit_eq_mask mask_numeral)
  have "unat (take_bit 31 s) < 2 ^ 31"
    by (simp only: unsigned_take_bit_eq take_bit_eq_mod [of 31 "unat s"]) simp
  then show ?thesis unfolding mk_Random_def m Let_def by (rule avoid_bad_seeds)
qed

lemma mod_once: "(q :: nat) < 2 * m \<Longrightarrow> q \<noteq> m \<Longrightarrow> (if m < q then q - m else q) = q mod m"
  by (simp add: le_mod_geq)

lemma mod_fold:
  fixes p :: nat
  assumes "p div 2 ^ 31 + p mod 2 ^ 31 < 2 * 2147483647" and "\<not> 2147483647 dvd p"
  shows "(let q = p div 2 ^ 31 + p mod 2 ^ 31 in if 2147483647 < q then q - 2147483647 else q) = p mod 2147483647"
proof -
  let ?M = "2147483647 :: nat" and ?q = "p div 2 ^ 31 + p mod 2 ^ 31"
  have "p = (?M + 1) * (p div 2 ^ 31) + p mod 2 ^ 31" by simp
  then have p: "p = ?M * (p div 2 ^ 31) + ?q" by (simp add: algebra_simps)
  then have q: "p mod ?M = ?q mod ?M" by (metis mod_mult_self4)
  have "?q \<noteq> ?M" using assms(2) p by (metis dvd_add dvd_triv_left dvd_refl)
  then have "(if ?M < ?q then ?q - ?M else ?q) = ?q mod ?M"
    using assms(1) by (intro mod_once) simp_all
  then show ?thesis by (simp only: q Let_def)
qed

lemma Random_Next_mod:
  assumes "seed_ok s"
  shows "unat (Random_Next s) = unat s * 16807 mod 2147483647"
proof -
  let ?M = "2147483647 :: nat" and ?p = "unat s * 16807"
  have s: "0 < unat s" "unat s < ?M" using assms by (simp_all add: seed_ok_def)
  have prod: "unat (ucast s * 16807 :: u64) = ?p"
    using s(2) by (subst unat_mult_lem [THEN iffD1]) (simp_all add: unat_ucast_up)
  have hi: "unat (drop_bit 31 (ucast s * 16807 :: u64)) = ?p div 2 ^ 31"
    by (simp only: unat_drop_bit_div prod)
  have lo: "unat ((ucast s * 16807 :: u64) AND ucast (2147483647 :: u32)) = ?p mod 2 ^ 31"
  proof -
    have "(ucast s * 16807 :: u64) AND ucast (2147483647 :: u32) = take_bit 31 (ucast s * 16807)"
      by (simp add: take_bit_eq_mask mask_numeral)
    then show ?thesis
      by (simp only: unsigned_take_bit_eq prod take_bit_eq_mod [of 31 "unat s * 16807"])
  qed
  have b: "?p div 2 ^ 31 < 16807" "?p mod 2 ^ 31 < 2 ^ 31"
    using s(2) by (auto intro!: less_mult_imp_div_less)
  have sum: "unat (ucast (drop_bit 31 (ucast s * 16807 :: u64) + ((ucast s * 16807) AND ucast (2147483647 :: u32))) :: u32)
      = ?p div 2 ^ 31 + ?p mod 2 ^ 31"
    using b
    by (subst unsigned_ucast_eq, subst unat_add_lem [THEN iffD1])
      (simp_all only: hi lo, simp_all add: take_bit_nat_eq_self)
  have nd: "\<not> ?M dvd ?p"
  proof
    assume "?M dvd ?p"
    moreover have "coprime ?M 16807" by (simp add: coprime_iff_gcd_eq_1 gcd_nat.simps)
    ultimately have "?M dvd unat s" by (simp add: coprime_dvd_mult_left_iff)
    then show False using s by (auto dest: dvd_imp_le)
  qed
  define q where "q = ?p div 2 ^ 31 + ?p mod 2 ^ 31"
  define w where "w = (ucast (drop_bit 31 (ucast s * 16807 :: u64) + ((ucast s * 16807) AND ucast (2147483647 :: u32))) :: u32)"
  have w: "unat w = q" by (simp only: w_def q_def sum)
  have "q < 2 * ?M" using b by (simp add: q_def)
  then have "(if ?M < q then q - ?M else q) = ?p mod ?M"
    using mod_fold [OF _ nd] by (simp only: q_def Let_def)
  moreover have "unat (if 2147483647 < w then w - 2147483647 else w) = (if ?M < q then q - ?M else q)"
    using w by (simp add: word_less_nat_alt unat_sub word_le_nat_alt)
  moreover have "Random_Next s = (if 2147483647 < w then w - 2147483647 else w)"
    by (simp only: Random_Next_def Let_def w_def)
  ultimately show ?thesis by simp
qed

text \<open>
  The generator's shift-and-add reduction computes \<open>seed * 16807 mod (2^31 - 1)\<close> exactly, and the seed
  never becomes 0 or the modulus, where the sequence would get stuck.
\<close>

theorem Random_Next_lcg:
  assumes "seed_ok s"
  shows "seed_ok (mk_Random t) \<and> seed_ok (Random_Next s) \<and> unat (Random_Next s) = unat s * 16807 mod 2147483647"
proof -
  have "\<not> (2147483647::nat) dvd unat s * 16807"
  proof
    assume "(2147483647::nat) dvd unat s * 16807"
    moreover have "coprime (2147483647::nat) 16807" by (simp add: coprime_iff_gcd_eq_1 gcd_nat.simps)
    ultimately have "(2147483647::nat) dvd unat s" by (simp add: coprime_dvd_mult_left_iff)
    then show False using assms by (auto dest: dvd_imp_le simp: seed_ok_def)
  qed
  then show ?thesis
    using Random_Next_mod [OF assms] mk_Random_ok [of t] by (simp add: seed_ok_def dvd_eq_mod_eq_0)
qed

lemma Random_Next_lcg_witness: "seed_ok (Random_Next 301) \<and> unat (Random_Next 301) = 5058907"
  using Random_Next_lcg [of 301] by (simp add: seed_ok_def)

end
