(* ===== verification/Coding.thy ===== *)
theory Coding
  imports Prelude
begin

text \<open>
  \<^verbatim>\<open>pdlfs-common/coding.h\<close> and \<^verbatim>\<open>coding.cc\<close>: fixed-width little-endian integers, base-128
  varints and length-prefixed slices. An \<^verbatim>\<open>Encode...(char* dst, v)\<close> routine is the list of bytes
  it writes at \<^verbatim>\<open>dst\<close>; a \<^verbatim>\<open>Put...(std::string* dst, v)\<close> routine returns the extended string; a
  \<^verbatim>\<open>Get...(Slice*, ...)\<close> routine is a reader. The fixed-width routines are translated from their
  byte-by-byte branch, which the \<^verbatim>\<open>memcpy\<close> branch equals on a little-endian machine. A
  \<^verbatim>\<open>DecodeFixed\<close> routine reads without a bounds check: its callers check the size first.
\<close>

section \<open>Fixed-width integers\<close>

definition EncodeFixed16 :: "u16 \<Rightarrow> slice" where
  "EncodeFixed16 value = [ucast (value AND 0xff), ucast (drop_bit 8 value AND 0xff)]"

definition EncodeFixed32 :: "u32 \<Rightarrow> slice" where
  "EncodeFixed32 value =
     [ucast (value AND 0xff), ucast (drop_bit 8 value AND 0xff),
      ucast (drop_bit 16 value AND 0xff), ucast (drop_bit 24 value AND 0xff)]"

definition EncodeFixed64 :: "u64 \<Rightarrow> slice" where
  "EncodeFixed64 value =
     [ucast (value AND 0xff), ucast (drop_bit 8 value AND 0xff),
      ucast (drop_bit 16 value AND 0xff), ucast (drop_bit 24 value AND 0xff),
      ucast (drop_bit 32 value AND 0xff), ucast (drop_bit 40 value AND 0xff),
      ucast (drop_bit 48 value AND 0xff), ucast (drop_bit 56 value AND 0xff)]"

definition DecodeFixed16 :: "slice \<Rightarrow> u16" where
  "DecodeFixed16 ptr = ucast (ptr ! 0) OR push_bit 8 (ucast (ptr ! 1))"

definition DecodeFixed32 :: "slice \<Rightarrow> u32" where
  "DecodeFixed32 ptr =
     ucast (ptr ! 0) OR push_bit 8 (ucast (ptr ! 1)) OR
     push_bit 16 (ucast (ptr ! 2)) OR push_bit 24 (ucast (ptr ! 3))"

definition DecodeFixed64 :: "slice \<Rightarrow> u64" where
  "DecodeFixed64 ptr =
     (let lo = ucast (DecodeFixed32 ptr); hi = ucast (DecodeFixed32 (drop 4 ptr))
      in push_bit 32 hi OR lo)"

definition PutFixed32 :: "slice \<Rightarrow> u32 \<Rightarrow> slice" where
  "PutFixed32 dst value = dst @ EncodeFixed32 value"

definition PutFixed64 :: "slice \<Rightarrow> u64 \<Rightarrow> slice" where
  "PutFixed64 dst value = dst @ EncodeFixed64 value"

section \<open>Varints\<close>

text \<open>The 32-bit encoder is unrolled; each \<^verbatim>\<open>*(ptr++) = e\<close> keeps the low byte of \<^verbatim>\<open>e\<close>.\<close>

definition EncodeVarint32 :: "u32 \<Rightarrow> slice" where
  "EncodeVarint32 v =
     (if v < push_bit 7 1 then [ucast v]
      else if v < push_bit 14 1 then [ucast (v OR 128), ucast (drop_bit 7 v)]
      else if v < push_bit 21 1 then
        [ucast (v OR 128), ucast (drop_bit 7 v OR 128), ucast (drop_bit 14 v)]
      else if v < push_bit 28 1 then
        [ucast (v OR 128), ucast (drop_bit 7 v OR 128), ucast (drop_bit 14 v OR 128),
         ucast (drop_bit 21 v)]
      else
        [ucast (v OR 128), ucast (drop_bit 7 v OR 128), ucast (drop_bit 14 v OR 128),
         ucast (drop_bit 21 v OR 128), ucast (drop_bit 28 v)])"

definition PutVarint32 :: "slice \<Rightarrow> u32 \<Rightarrow> slice" where
  "PutVarint32 dst v = dst @ EncodeVarint32 v"

function EncodeVarint64 :: "u64 \<Rightarrow> slice" where
  "EncodeVarint64 v =
     (if 128 \<le> v then ucast ((v AND (128 - 1)) OR 128) # EncodeVarint64 (drop_bit 7 v)
      else [ucast v])"
  by pat_completeness auto
termination
  by (relation "measure unat") (simp_all add: unat_drop_bit_less del: drop_bit_eq_div)

declare EncodeVarint64.simps [simp del]

definition PutVarint64 :: "slice \<Rightarrow> u64 \<Rightarrow> slice" where
  "PutVarint64 dst v = dst @ EncodeVarint64 v"

text \<open>The loop of \<open>VarintLength\<close>, with the running length as its accumulator.\<close>

function VarintLength_loop :: "u64 \<Rightarrow> nat \<Rightarrow> nat" where
  "VarintLength_loop v len = (if 128 \<le> v then VarintLength_loop (drop_bit 7 v) (len + 1) else len)"
  by pat_completeness auto
termination
  by (relation "measure (\<lambda>(v, len). unat v)") (simp_all add: unat_drop_bit_less del: drop_bit_eq_div)

declare VarintLength_loop.simps [simp del]

definition VarintLength :: "u64 \<Rightarrow> nat" where
  "VarintLength v = VarintLength_loop v 1"

text \<open>
  The decoding loops: \<open>shift\<close> and \<open>result\<close> are the loop variables, the list is \<^verbatim>\<open>[p..limit-1]\<close>.
\<close>

fun GetVarint32PtrFallback_loop :: "nat \<Rightarrow> u32 \<Rightarrow> slice \<Rightarrow> (u32 \<times> slice) option" where
  "GetVarint32PtrFallback_loop shift result p =
     (if shift \<le> 28 then
        (case p of [] \<Rightarrow> None
         | c # p' \<Rightarrow>
             (let byte = (ucast c :: u32) in
              if byte AND 128 \<noteq> 0
              then GetVarint32PtrFallback_loop (shift + 7) (result OR push_bit shift (byte AND 127)) p'
              else Some (result OR push_bit shift byte, p')))
      else None)"

declare GetVarint32PtrFallback_loop.simps [simp del]

definition GetVarint32PtrFallback :: "u32 reader" where
  "GetVarint32PtrFallback p = GetVarint32PtrFallback_loop 0 0 p"

definition GetVarint32Ptr :: "u32 reader" where
  "GetVarint32Ptr p =
     (case p of [] \<Rightarrow> GetVarint32PtrFallback p
      | c # p' \<Rightarrow> if (ucast c :: u32) AND 128 = 0 then Some (ucast c, p')
                  else GetVarint32PtrFallback p)"

definition GetVarint32 :: "u32 reader" where
  "GetVarint32 input = GetVarint32Ptr input"

fun GetVarint64Ptr_loop :: "nat \<Rightarrow> u64 \<Rightarrow> slice \<Rightarrow> (u64 \<times> slice) option" where
  "GetVarint64Ptr_loop shift result p =
     (if shift \<le> 63 then
        (case p of [] \<Rightarrow> None
         | c # p' \<Rightarrow>
             (let byte = (ucast c :: u64) in
              if byte AND 128 \<noteq> 0
              then GetVarint64Ptr_loop (shift + 7) (result OR push_bit shift (byte AND 127)) p'
              else Some (result OR push_bit shift byte, p')))
      else None)"

declare GetVarint64Ptr_loop.simps [simp del]

definition GetVarint64Ptr :: "u64 reader" where
  "GetVarint64Ptr p = GetVarint64Ptr_loop 0 0 p"

definition GetVarint64 :: "u64 reader" where
  "GetVarint64 input = GetVarint64Ptr input"

section \<open>Length-prefixed slices\<close>

text \<open>The \<^verbatim>\<open>size_t\<close> length is converted to the 32 bits of \<open>EncodeVarint32\<close>'s parameter.\<close>

definition EncodeLengthPrefixedSlice :: "slice \<Rightarrow> slice" where
  "EncodeLengthPrefixedSlice value = EncodeVarint32 (word_of_nat (length value)) @ value"

definition PutLengthPrefixedSlice :: "slice \<Rightarrow> slice \<Rightarrow> slice" where
  "PutLengthPrefixedSlice dst value = PutVarint32 dst (word_of_nat (length value)) @ value"

text \<open>The pointer variant (\<^verbatim>\<open>NULL\<close> is \<open>None\<close>) and the slice variant.\<close>

definition GetLengthPrefixedSlicePtr :: "slice reader" where
  "GetLengthPrefixedSlicePtr p =
     (case GetVarint32Ptr p of
        None \<Rightarrow> None
      | Some (len, p') \<Rightarrow>
          if length p' < unat len then None
          else Some (take (unat len) p', drop (unat len) p'))"

definition GetLengthPrefixedSlice :: "slice reader" where
  "GetLengthPrefixedSlice input =
     (case GetVarint32 input of
        None \<Rightarrow> None
      | Some (len, rest) \<Rightarrow>
          if unat len \<le> length rest then Some (take (unat len) rest, drop (unat len) rest)
          else None)"

section \<open>Fixed-width integers: facts\<close>

lemmas [codec_defs] = EncodeFixed16_def EncodeFixed32_def EncodeFixed64_def
  PutFixed32_def PutFixed64_def PutVarint32_def PutVarint64_def
  EncodeLengthPrefixedSlice_def PutLengthPrefixedSlice_def

lemma length_EncodeFixed [simp]:
  "length (EncodeFixed16 a) = 2" "length (EncodeFixed32 b) = 4" "length (EncodeFixed64 c) = 8"
  by (simp_all add: codec_defs)

lemma EncodeFixed_le_bytes:
  "EncodeFixed16 a = le_bytes 2 a" "EncodeFixed32 b = le_bytes 4 b" "EncodeFixed64 c = le_bytes 8 c"
  by (simp_all add: codec_defs numeral_eq_Suc)

lemma DecodeFixed16_le: "DecodeFixed16 (a # b # r) = le_word [a, b]"
  by (simp add: DecodeFixed16_def)

lemma DecodeFixed32_le: "DecodeFixed32 (a # b # c # d # r) = le_word [a, b, c, d]"
  by (simp add: DecodeFixed32_def push_bit_OR)

lemma DecodeFixed64_le:
  "DecodeFixed64 (a # b # c # d # e # f # g # h # r) = le_word [a, b, c, d, e, f, g, h]"
  using le_word_append [of "[a, b, c, d]" "[e, f, g, h]", where 'a = 64]
    ucast_le_word [of "[a, b, c, d]", where 'a = 32 and 'b = 64]
    ucast_le_word [of "[e, f, g, h]", where 'a = 32 and 'b = 64]
  by (simp only: DecodeFixed64_def DecodeFixed32_le drop_Suc_Cons drop0 numeral_nat Let_def)
     (simp add: or.commute)

lemma DecodeFixed16_EncodeFixed16 [codec_simps]: "DecodeFixed16 (EncodeFixed16 v @ r) = v"
  using le_word_le_bytes_full [of 2 v]
  by (simp add: EncodeFixed_le_bytes DecodeFixed16_le numeral_eq_Suc)

lemma DecodeFixed32_EncodeFixed32 [codec_simps]: "DecodeFixed32 (EncodeFixed32 v @ r) = v"
  using le_word_le_bytes_full [of 4 v]
  by (simp add: EncodeFixed_le_bytes DecodeFixed32_le numeral_eq_Suc)

lemma DecodeFixed64_EncodeFixed64 [codec_simps]: "DecodeFixed64 (EncodeFixed64 v @ r) = v"
  using le_word_le_bytes_full [of 8 v]
  by (simp add: EncodeFixed_le_bytes DecodeFixed64_le numeral_eq_Suc)

section \<open>Varints: facts\<close>

lemma GetVarint64Ptr_loop_enc:
  "unat v < 2 ^ (64 - shift) \<Longrightarrow> shift \<le> 63 \<Longrightarrow>
   GetVarint64Ptr_loop shift acc (EncodeVarint64 v @ r) = Some (acc OR push_bit shift v, r)"
proof (induction v arbitrary: shift acc rule: EncodeVarint64.induct)
  case (1 v)
  show ?case
  proof (cases "128 \<le> v")
    case False
    then have "unat v < 128" by (simp add: word_le_nat_alt)
    then show ?thesis using False "1.prems" vbyte_last [where 'a = 64 and 'b = 64, of v]
      by (simp add: EncodeVarint64.simps [of v] GetVarint64Ptr_loop.simps [of shift])
  next
    case True
    then have "2 ^ 7 \<le> unat v" by (simp add: word_le_nat_alt)
    with "1.prems" have lt: "(2::nat) ^ 7 < 2 ^ (64 - shift)" by linarith
    then have s: "shift + 7 \<le> 63" using power_less_imp_less_exp [of "2::nat" 7] by fastforce
    have "unat (drop_bit 7 v) < 2 ^ (64 - (shift + 7))"
      using div_pow_less [OF "1.prems"(1), of 7] s by (simp add: unat_drop_bit_div del: drop_bit_eq_div)
    note IH = "1.IH" [OF True this s]
    show ?thesis using True "1.prems"
      by (simp add: EncodeVarint64.simps [of v] GetVarint64Ptr_loop.simps [of shift] IH and127
          vbyte_more [where 'a = 64 and 'b = 64, unfolded and127] Let_def push_bit_group [of shift v 7] or.assoc del: drop_bit_eq_div)
  qed
qed

lemma GetVarint32PtrFallback_loop_enc:
  "unat (v :: u64) < 2 ^ (32 - shift) \<Longrightarrow> shift \<le> 28 \<Longrightarrow> 7 dvd shift \<Longrightarrow>
   GetVarint32PtrFallback_loop shift acc (EncodeVarint64 v @ r) = Some (acc OR push_bit shift (ucast v), r)"
proof (induction v arbitrary: shift acc rule: EncodeVarint64.induct)
  case (1 v)
  show ?case
  proof (cases "128 \<le> v")
    case False
    then have "unat v < 128" by (simp add: word_le_nat_alt)
    then show ?thesis using False "1.prems" vbyte_last [where 'a = 64 and 'b = 32, of v]
      by (simp add: EncodeVarint64.simps [of v] GetVarint32PtrFallback_loop.simps [of shift])
  next
    case True
    then have "2 ^ 7 \<le> unat v" by (simp add: word_le_nat_alt)
    with "1.prems" have lt: "(2::nat) ^ 7 < 2 ^ (32 - shift)" by linarith
    then have "7 < 32 - shift" using power_less_imp_less_exp [of "2::nat" 7] by fastforce
    with "1.prems"(3) have s: "shift + 7 \<le> 28" by presburger
    have "unat (drop_bit 7 v) < 2 ^ (32 - (shift + 7))"
      using div_pow_less [OF "1.prems"(1), of 7] s by (simp add: unat_drop_bit_div del: drop_bit_eq_div)
    note IH = "1.IH" [OF True this s]
    have g: "ucast v = (ucast (take_bit 7 v) OR push_bit 7 (ucast (drop_bit 7 v)) :: u32)"
      by (subst word_split_low [of v 7]) (intro bit_word_eqI, auto simp: bit_simps)
    show ?thesis using True "1.prems"
      by (simp add: EncodeVarint64.simps [of v] GetVarint32PtrFallback_loop.simps [of shift] IH and127
          vbyte_more [where 'a = 64 and 'b = 32, unfolded and127] Let_def g push_bit_OR or.assoc add.commute
          del: drop_bit_eq_div)
  qed
qed

lemma EncodeVarint32_64: "EncodeVarint32 v = EncodeVarint64 (ucast v)"
proof -
  let ?w = "ucast v :: u64"
  have le: "128 \<le> drop_bit n ?w \<longleftrightarrow> 128 * 2 ^ n \<le> unat v" for n
    by (simp add: word_le_nat_alt unat_drop_bit_div unat_ucast_up less_eq_div_iff_mult_less_eq del: drop_bit_eq_div)
  have more: "(ucast (drop_bit n v OR 128) :: byte) = ucast ((drop_bit n ?w AND 127) OR 128)" for n
    unfolding and127 by (intro bit_word_eqI) (auto simp: bit_simps bit_128 dest: bit_imp_le_length)
  have last: "(ucast (drop_bit n ?w) :: byte) = ucast (drop_bit n v)" for n
    by (intro bit_word_eqI) (auto simp: bit_simps dest: bit_imp_le_length)
  note E = EncodeVarint64.simps
  show ?thesis
    using le [of 0] le [of 7] le [of 14] le [of 21] more [of 0] more [of 7] more [of 14] more [of 21]
      last [of 0] last [of 7] last [of 14] last [of 21] last [of 28] le [of 28] unsigned_less [of v, where 'a = nat]
    by (simp add: EncodeVarint32_def word_less_nat_alt [of v] E [of ?w] E [of "drop_bit 7 ?w"] E [of "drop_bit 14 ?w"]
       E [of "drop_bit 21 ?w"] E [of "drop_bit 28 ?w"] del: drop_bit_eq_div)
qed

lemma GetVarint64_enc [codec_simps]: "GetVarint64 (EncodeVarint64 v @ r) = Some (v, r)"
  using GetVarint64Ptr_loop_enc [of v 0 0 r] unsigned_less [of v, where 'a = nat]
  by (simp add: GetVarint64_def GetVarint64Ptr_def)

text \<open>The inlined first step of \<open>GetVarint32Ptr\<close> is the first iteration of the loop it falls back to.\<close>

lemma GetVarint32Ptr_fast_path: "GetVarint32Ptr p = GetVarint32PtrFallback p"
  by (cases p) (simp_all add: GetVarint32Ptr_def GetVarint32PtrFallback_def
    GetVarint32PtrFallback_loop.simps [of 0])

lemma GetVarint32_enc [codec_simps]: "GetVarint32 (EncodeVarint32 v @ r) = Some (v, r)"
proof -
  have "unat (ucast v :: u64) < 2 ^ (32 - 0)"
    using unsigned_less [of v, where 'a = nat] by (simp add: unat_ucast_up)
  moreover have "(ucast (ucast v :: u64) :: u32) = v"
    by (intro bit_word_eqI) (simp add: bit_simps)
  ultimately show ?thesis
    using GetVarint32PtrFallback_loop_enc [of "ucast v" 0 0 r]
    by (simp add: GetVarint32_def GetVarint32Ptr_fast_path GetVarint32PtrFallback_def EncodeVarint32_64)
qed

lemma VarintLength_loop_length: "VarintLength_loop v len + 1 = len + length (EncodeVarint64 v)"
proof (induction v len rule: VarintLength_loop.induct)
  case (1 v len)
  then show ?case
    by (cases "128 \<le> v")
       (simp_all add: VarintLength_loop.simps [of v] EncodeVarint64.simps [of v] del: drop_bit_eq_div)
qed

lemma VarintLength_eq: "VarintLength v = length (EncodeVarint64 v)"
  using VarintLength_loop_length [of v 1] by (simp add: VarintLength_def)

lemma length_EncodeVarint64_le: "unat v < 2 ^ (7 * k) \<Longrightarrow> 0 < k \<Longrightarrow> length (EncodeVarint64 v) \<le> k"
proof (induction v arbitrary: k rule: EncodeVarint64.induct)
  case (1 v)
  show ?case
  proof (cases "128 \<le> v")
    case False
    then show ?thesis using "1.prems" by (simp add: EncodeVarint64.simps [of v])
  next
    case True
    then have "2 ^ 7 \<le> unat v" by (simp add: word_le_nat_alt)
    with "1.prems" have "(2::nat) ^ 7 < 2 ^ (7 * k)" by linarith
    then have "7 < 7 * k" using power_less_imp_less_exp [of "2::nat" 7 "7 * k"] by simp
    then obtain j where j: "k = Suc j" "0 < j" by (cases k) auto
    have "unat (drop_bit 7 v) < 2 ^ (7 * j)"
      using div_pow_less [OF "1.prems"(1), of 7] j by (simp add: unat_drop_bit_div del: drop_bit_eq_div)
    then have "length (EncodeVarint64 (drop_bit 7 v)) \<le> j" using "1.IH" [OF True] j by simp
    then show ?thesis using True j by (simp add: EncodeVarint64.simps [of v] del: drop_bit_eq_div)
  qed
qed

lemma length_EncodeVarint64: "length (EncodeVarint64 v) \<le> 10"
  using length_EncodeVarint64_le [of v 10] unsigned_less [of v, where 'a = nat] by simp

lemma length_EncodeVarint32: "length (EncodeVarint32 v) \<le> 5"
  by (simp add: EncodeVarint32_def)

lemma EncodeVarint_not_Nil [simp]: "EncodeVarint64 v \<noteq> []" "EncodeVarint32 w \<noteq> []"
  by (simp_all add: EncodeVarint64.simps [of v] EncodeVarint32_def)

text \<open>On any input, the decoders consume at least one and at most five (ten) bytes.\<close>

lemma GetVarint32PtrFallback_loop_consumes:
  "GetVarint32PtrFallback_loop shift acc i = Some (v, r) \<Longrightarrow>
   \<exists>p. i = p @ r \<and> p \<noteq> [] \<and> shift + 7 * length p \<le> 35"
proof (induction i arbitrary: shift acc)
  case Nil
  then show ?case by (simp add: GetVarint32PtrFallback_loop.simps [of shift] split: if_splits)
next
  case (Cons c i)
  show ?case
  proof (cases "(ucast c :: u32) AND 128 = 0")
    case True
    with Cons.prems show ?thesis
      by (intro exI [of _ "[c]"]) (auto simp: GetVarint32PtrFallback_loop.simps [of shift] Let_def split: if_splits)
  next
    case False
    with Cons.prems have
      "GetVarint32PtrFallback_loop (shift + 7) (acc OR push_bit shift (ucast c AND 127)) i = Some (v, r)"
      by (simp add: GetVarint32PtrFallback_loop.simps [of shift] Let_def split: if_splits)
    from Cons.IH [OF this] obtain p where "i = p @ r" "p \<noteq> []" "shift + 7 + 7 * length p \<le> 35" by blast
    then show ?thesis by (intro exI [of _ "c # p"]) simp
  qed
qed

lemma GetVarint64Ptr_loop_consumes:
  "GetVarint64Ptr_loop shift acc i = Some (v, r) \<Longrightarrow>
   \<exists>p. i = p @ r \<and> p \<noteq> [] \<and> shift + 7 * length p \<le> 70"
proof (induction i arbitrary: shift acc)
  case Nil
  then show ?case by (simp add: GetVarint64Ptr_loop.simps [of shift] split: if_splits)
next
  case (Cons c i)
  show ?case
  proof (cases "(ucast c :: u64) AND 128 = 0")
    case True
    with Cons.prems show ?thesis
      by (intro exI [of _ "[c]"]) (auto simp: GetVarint64Ptr_loop.simps [of shift] Let_def split: if_splits)
  next
    case False
    with Cons.prems have
      "GetVarint64Ptr_loop (shift + 7) (acc OR push_bit shift (ucast c AND 127)) i = Some (v, r)"
      by (simp add: GetVarint64Ptr_loop.simps [of shift] Let_def split: if_splits)
    from Cons.IH [OF this] obtain p where "i = p @ r" "p \<noteq> []" "shift + 7 + 7 * length p \<le> 70" by blast
    then show ?thesis by (intro exI [of _ "c # p"]) simp
  qed
qed

lemma GetVarint32_consumes:
  "GetVarint32 i = Some (v, r) \<Longrightarrow> \<exists>p. i = p @ r \<and> p \<noteq> [] \<and> length p \<le> 5"
  by (fastforce simp: GetVarint32_def GetVarint32Ptr_fast_path GetVarint32PtrFallback_def
    dest: GetVarint32PtrFallback_loop_consumes)

lemma GetVarint64_consumes:
  "GetVarint64 i = Some (v, r) \<Longrightarrow> \<exists>p. i = p @ r \<and> p \<noteq> [] \<and> length p \<le> 10"
  by (fastforce simp: GetVarint64_def GetVarint64Ptr_def dest: GetVarint64Ptr_loop_consumes)

section \<open>Length-prefixed slices: facts\<close>

lemma PutLengthPrefixedSlice_eq: "PutLengthPrefixedSlice dst v = dst @ EncodeLengthPrefixedSlice v"
  by (simp add: codec_defs)

lemma GetLengthPrefixedSlice_enc [codec_simps]:
  "length v < 2 ^ 32 \<Longrightarrow> GetLengthPrefixedSlice (EncodeLengthPrefixedSlice v @ r) = Some (v, r)"
  by (simp add: GetLengthPrefixedSlice_def EncodeLengthPrefixedSlice_def codec_simps
    unat_of_nat take_bit_nat_eq_self)

lemma GetLengthPrefixedSlicePtr_eq: "GetLengthPrefixedSlicePtr i = GetLengthPrefixedSlice i"
  by (auto simp: GetLengthPrefixedSlicePtr_def GetLengthPrefixedSlice_def GetVarint32_def
    split: option.splits prod.splits)

lemma GetLengthPrefixedSlice_consumes:
  assumes "GetLengthPrefixedSlice i = Some (v, r)"
  shows "\<exists>p. i = p @ v @ r \<and> p \<noteq> [] \<and> length p \<le> 5"
proof -
  from assms obtain len rest where g: "GetVarint32 i = Some (len, rest)"
    and v: "v = take (unat len) rest" "r = drop (unat len) rest"
    by (auto simp: GetLengthPrefixedSlice_def split: option.splits if_splits)
  from GetVarint32_consumes [OF g] v show ?thesis by auto
qed

section \<open>The routines as codecs\<close>

interpretation varint64: prefix_codec EncodeVarint64 GetVarint64 "\<lambda>_. True"
  by unfold_locales (rule GetVarint64_enc)

interpretation varint32: prefix_codec EncodeVarint32 GetVarint32 "\<lambda>_. True"
  by unfold_locales (rule GetVarint32_enc)

interpretation lpslice: prefix_codec EncodeLengthPrefixedSlice GetLengthPrefixedSlice
    "\<lambda>v. length v < 2 ^ 32"
  by unfold_locales (rule GetLengthPrefixedSlice_enc)

interpretation varint64_reader: slice_reader GetVarint64
  by unfold_locales (auto dest: GetVarint64_consumes)

interpretation varint32_reader: slice_reader GetVarint32
  by unfold_locales (auto dest: GetVarint32_consumes)

interpretation lpslice_reader: slice_reader GetLengthPrefixedSlice
  by unfold_locales (metis GetLengthPrefixedSlice_consumes append.assoc append_is_Nil_conv)

section \<open>The contract of the varint routines\<close>

text \<open>
  C39. Varints are read back exactly, whatever follows them in the input. One of 64 bits takes the number of bytes
  \<^verbatim>\<open>VarintLength\<close> announces, between 1 and 10. The unrolled encoder of 32 bits writes the bytes the loop of
  \<^verbatim>\<open>EncodeVarint64\<close> writes for the same number, at most 5 of them, and \<^verbatim>\<open>GetVarint32\<close>, with its inlined fast path,
  reads them back.
\<close>

theorem varints_roundtrip:
  "GetVarint64 (EncodeVarint64 v @ rest) = Some (v, rest) \<and>
   length (EncodeVarint64 v) = VarintLength v \<and> 1 \<le> VarintLength v \<and> VarintLength v \<le> 10 \<and>
   EncodeVarint32 u = EncodeVarint64 (ucast u) \<and> length (EncodeVarint32 u) \<le> 5 \<and>
   GetVarint32 (EncodeVarint32 u @ rest) = Some (u, rest)"
proof (intro conjI)
  show "GetVarint64 (EncodeVarint64 v @ rest) = Some (v, rest)" by (rule GetVarint64_enc)
  show "length (EncodeVarint64 v) = VarintLength v" "1 \<le> VarintLength v" "VarintLength v \<le> 10"
    using VarintLength_eq [of v] length_EncodeVarint64 [of v] EncodeVarint_not_Nil(1) [of v] by (simp_all add: Suc_le_eq)
  show "EncodeVarint32 u = EncodeVarint64 (ucast u)" by (simp only: EncodeVarint32_64)
qed (simp_all only: length_EncodeVarint32 GetVarint32_enc)

text \<open>
  On arbitrary bytes, the decoders of the wire format either fail or consume a non-empty prefix of
  the input of bounded length: 5 and 10 bytes for varints, a varint and the announced bytes for
  length-prefixed slices. None of them reads past the end of its input.
\<close>

theorem decoders_bounded:
  "(case GetVarint32 input of None \<Rightarrow> True | Some (v, rest) \<Rightarrow>
      \<exists>p. input = p @ rest \<and> p \<noteq> [] \<and> length p \<le> 5) \<and>
   (case GetVarint64 input of None \<Rightarrow> True | Some (v, rest) \<Rightarrow>
      \<exists>p. input = p @ rest \<and> p \<noteq> [] \<and> length p \<le> 10) \<and>
   (case GetLengthPrefixedSlice input of None \<Rightarrow> True | Some (v, rest) \<Rightarrow>
      \<exists>p. input = p @ v @ rest \<and> p \<noteq> [] \<and> length p \<le> 5)"
  by (intro conjI; split option.split; intro conjI allI impI;
      clarsimp dest!: GetVarint32_consumes GetVarint64_consumes GetLengthPrefixedSlice_consumes split: prod.splits)

end
