(* ===== verification/Fstypes.thy ===== *)
theory Fstypes
  imports Coding "HOL-Library.Monad_Syntax"
begin

text \<open>
  \<^verbatim>\<open>pdlfs-common/fstypes.h\<close> and \<^verbatim>\<open>fstypes.cc\<close> as configured for this repository
  (\<^verbatim>\<open>DELTAFS_PROTO\<close>): the inode record \<open>Stat\<close> stored in the metadata db, the record
  \<open>LookupStat\<close> a directory lookup returns, and their varint encodings. A setter is a record
  update; the debug-only \<^verbatim>\<open>is_..._set_\<close> flags behind \<^verbatim>\<open>AssertAllSet\<close> are not part of the records.
  \<open>DecodeFrom\<close> fills its object field by field; the model returns the object it has filled.
\<close>

record Stat =
  DnodeNo :: u64
  InodeNo :: u64
  FileSize :: u64
  ModifyTime :: u64
  ChangeTime :: u64
  FileMode :: u32
  ZerothServer :: u32
  UserId :: u32
  GroupId :: u32

record LookupStat =
  lDnodeNo :: u64
  lInodeNo :: u64
  LeaseDue :: u64
  DirMode :: u32
  lZerothServer :: u32
  lUserId :: u32
  lGroupId :: u32

definition Stat_EncodeTo :: "Stat \<Rightarrow> slice" where
  "Stat_EncodeTo s =
     EncodeVarint64 (DnodeNo s) @ EncodeVarint64 (InodeNo s) @ EncodeVarint64 (FileSize s) @
     EncodeVarint32 (FileMode s) @ EncodeVarint32 (ZerothServer s) @
     EncodeVarint32 (UserId s) @ EncodeVarint32 (GroupId s) @
     EncodeVarint64 (ModifyTime s) @ EncodeVarint64 (ChangeTime s)"

definition Stat_DecodeFrom :: "Stat reader" where
  "Stat_DecodeFrom input = do {
     (dno, input) \<leftarrow> GetVarint64 input;
     (ino, input) \<leftarrow> GetVarint64 input;
     (sz, input) \<leftarrow> GetVarint64 input;
     (mode, input) \<leftarrow> GetVarint32 input;
     (zeroth_server, input) \<leftarrow> GetVarint32 input;
     (uid, input) \<leftarrow> GetVarint32 input;
     (gid, input) \<leftarrow> GetVarint32 input;
     (mtime, input) \<leftarrow> GetVarint64 input;
     (ctime, input) \<leftarrow> GetVarint64 input;
     Some (\<lparr>DnodeNo = dno, InodeNo = ino, FileSize = sz, ModifyTime = mtime, ChangeTime = ctime,
            FileMode = mode, ZerothServer = zeroth_server, UserId = uid, GroupId = gid\<rparr>, input)
   }"

definition LookupStat_EncodeTo :: "LookupStat \<Rightarrow> slice" where
  "LookupStat_EncodeTo s =
     EncodeVarint64 (lDnodeNo s) @ EncodeVarint64 (lInodeNo s) @
     EncodeVarint32 (lZerothServer s) @ EncodeVarint32 (DirMode s) @
     EncodeVarint32 (lUserId s) @ EncodeVarint32 (lGroupId s) @ EncodeVarint64 (LeaseDue s)"

definition LookupStat_DecodeFrom :: "LookupStat reader" where
  "LookupStat_DecodeFrom input = do {
     (dno, input) \<leftarrow> GetVarint64 input;
     (ino, input) \<leftarrow> GetVarint64 input;
     (zeroth_server, input) \<leftarrow> GetVarint32 input;
     (mode, input) \<leftarrow> GetVarint32 input;
     (uid, input) \<leftarrow> GetVarint32 input;
     (gid, input) \<leftarrow> GetVarint32 input;
     (lease_due, input) \<leftarrow> GetVarint64 input;
     Some (\<lparr>lDnodeNo = dno, lInodeNo = ino, LeaseDue = lease_due, DirMode = mode,
            lZerothServer = zeroth_server, lUserId = uid, lGroupId = gid\<rparr>, input)
   }"

text \<open>\<open>CopyFrom\<close> sets every field but the lease due date, which stays what it was.\<close>

definition CopyFrom :: "LookupStat \<Rightarrow> Stat \<Rightarrow> LookupStat" where
  "CopyFrom l stat = l\<lparr>lDnodeNo := DnodeNo stat, lInodeNo := InodeNo stat,
     DirMode := FileMode stat, lZerothServer := ZerothServer stat,
     lUserId := UserId stat, lGroupId := GroupId stat\<rparr>"

definition Stat_kMaxEncodedLength :: nat where "Stat_kMaxEncodedLength = 80"
definition LookupStat_kMaxEncodedLength :: nat where "LookupStat_kMaxEncodedLength = 60"

section \<open>File types and permission bits\<close>

text \<open>The constants of \<^verbatim>\<open>sys/stat.h\<close> the sources use.\<close>

definition S_IFMT :: u32 where "S_IFMT = 0xF000"
definition S_IFDIR :: u32 where "S_IFDIR = 0x4000"
definition S_IFREG :: u32 where "S_IFREG = 0x8000"
definition ACCESSPERMS :: u32 where "ACCESSPERMS = 0x1FF"
definition S_IWUSR :: u32 where "S_IWUSR = 0x80"
definition S_IWGRP :: u32 where "S_IWGRP = 0x10"
definition S_IWOTH :: u32 where "S_IWOTH = 0x2"
definition S_IXUSR :: u32 where "S_IXUSR = 0x40"
definition S_IXGRP :: u32 where "S_IXGRP = 0x8"
definition S_IXOTH :: u32 where "S_IXOTH = 0x1"

definition S_ISDIR :: "u32 \<Rightarrow> bool" where
  "S_ISDIR m \<longleftrightarrow> m AND S_IFMT = S_IFDIR"

lemmas mode_defs = S_IFMT_def S_IFDIR_def S_IFREG_def ACCESSPERMS_def S_IWUSR_def S_IWGRP_def
  S_IWOTH_def S_IXUSR_def S_IXGRP_def S_IXOTH_def

section \<open>Properties of the encodings\<close>

lemma Stat_DecodeFrom_EncodeTo [codec_simps]:
  "Stat_DecodeFrom (Stat_EncodeTo s @ r) = Some (s, r)"
  by (simp add: Stat_DecodeFrom_def Stat_EncodeTo_def codec_simps)

lemma LookupStat_DecodeFrom_EncodeTo [codec_simps]:
  "LookupStat_DecodeFrom (LookupStat_EncodeTo s @ r) = Some (s, r)"
  by (simp add: LookupStat_DecodeFrom_def LookupStat_EncodeTo_def codec_simps)

lemma length_Stat_EncodeTo: "length (Stat_EncodeTo s) \<le> 70"
  using length_EncodeVarint64 [of "DnodeNo s"] length_EncodeVarint64 [of "InodeNo s"]
    length_EncodeVarint64 [of "FileSize s"] length_EncodeVarint64 [of "ModifyTime s"]
    length_EncodeVarint64 [of "ChangeTime s"] length_EncodeVarint32 [of "FileMode s"]
    length_EncodeVarint32 [of "ZerothServer s"] length_EncodeVarint32 [of "UserId s"]
    length_EncodeVarint32 [of "GroupId s"]
  by (simp add: Stat_EncodeTo_def)

lemma length_LookupStat_EncodeTo: "length (LookupStat_EncodeTo s) \<le> 50"
  using length_EncodeVarint64 [of "lDnodeNo s"] length_EncodeVarint64 [of "lInodeNo s"]
    length_EncodeVarint64 [of "LeaseDue s"] length_EncodeVarint32 [of "DirMode s"]
    length_EncodeVarint32 [of "lZerothServer s"] length_EncodeVarint32 [of "lUserId s"]
    length_EncodeVarint32 [of "lGroupId s"]
  by (simp add: LookupStat_EncodeTo_def)

interpretation stat_codec: prefix_codec Stat_EncodeTo Stat_DecodeFrom "\<lambda>_. True"
  by unfold_locales (rule Stat_DecodeFrom_EncodeTo)

interpretation lookupstat_codec: prefix_codec LookupStat_EncodeTo LookupStat_DecodeFrom "\<lambda>_. True"
  by unfold_locales (rule LookupStat_DecodeFrom_EncodeTo)

section \<open>Properties of the mode bits\<close>

text \<open>The type bits and the permission bits the server puts in a new inode do not overlap.\<close>

lemma type_bits_new_inode: "(t OR (mode AND ACCESSPERMS)) AND S_IFMT = t AND S_IFMT"
proof -
  have "(mode AND ACCESSPERMS) AND S_IFMT = 0" by (simp add: mode_defs and.assoc)
  then show ?thesis by (simp add: bit.conj_disj_distrib2)
qed

lemma S_ISDIR_new_dir: "S_ISDIR (S_IFDIR OR (mode AND ACCESSPERMS))"
  by (simp only: S_ISDIR_def type_bits_new_inode) (simp add: mode_defs)

lemma not_S_ISDIR_new_file: "\<not> S_ISDIR (S_IFREG OR (mode AND ACCESSPERMS))"
  by (simp only: S_ISDIR_def type_bits_new_inode) (simp add: mode_defs)

section \<open>The contract of the encodings\<close>

text \<open>
  C38. The inode records travel unchanged: decoding what \<^verbatim>\<open>EncodeTo\<close> wrote gives back every field of a
  \<^verbatim>\<open>Stat\<close> and of a \<^verbatim>\<open>LookupStat\<close> and leaves what follows, and either encoding fits the scratch buffer
  of \<^verbatim>\<open>kMaxEncodedLength\<close> bytes its callers provide.
\<close>

theorem inode_records_roundtrip:
  "Stat_DecodeFrom (Stat_EncodeTo s @ rest) = Some (s, rest) \<and>
   length (Stat_EncodeTo s) \<le> Stat_kMaxEncodedLength \<and>
   LookupStat_DecodeFrom (LookupStat_EncodeTo l @ rest) = Some (l, rest) \<and>
   length (LookupStat_EncodeTo l) \<le> LookupStat_kMaxEncodedLength"
  using length_Stat_EncodeTo [of s] length_LookupStat_EncodeTo [of l]
  by (simp add: codec_simps Stat_kMaxEncodedLength_def LookupStat_kMaxEncodedLength_def)

end
