(* ===== verification/Slice.thy ===== *)
theory Slice
  imports Prelude
begin

text \<open>
  \<^verbatim>\<open>pdlfs-common/slice.h\<close>: a slice is the list of bytes it refers to. The three-way comparison
  is \<^verbatim>\<open>memcmp\<close> on the common length, then the lengths; it is the order of the keys of the
  metadata db. \<^verbatim>\<open>memcmp\<close> is modelled by the sign of the first difference.
\<close>

fun memcmp :: "slice \<Rightarrow> slice \<Rightarrow> nat \<Rightarrow> int" where
  "memcmp (a # as) (b # bs) (Suc n) = (if a < b then -1 else if b < a then 1 else memcmp as bs n)"
| "memcmp as bs n = 0"

definition compare :: "slice \<Rightarrow> slice \<Rightarrow> int" where
  "compare a b =
     (let min_len = (if length a < length b then length a else length b);
          r = memcmp a b min_len
      in if r = 0 then (if length a < length b then -1 else if length b < length a then 1 else r)
         else r)"

definition starts_with :: "slice \<Rightarrow> slice \<Rightarrow> bool" where
  "starts_with s x \<longleftrightarrow> length x \<le> length s \<and> memcmp s x (length x) = 0"

definition remove_prefix :: "nat \<Rightarrow> slice \<Rightarrow> slice" where
  "remove_prefix n s = drop n s"

section \<open>Properties\<close>

text \<open>The reference order: lexicographic, a proper prefix first.\<close>

fun bytes_less :: "slice \<Rightarrow> slice \<Rightarrow> bool" where
  "bytes_less as [] = False"
| "bytes_less [] (b # bs) = True"
| "bytes_less (a # as) (b # bs) = (a < b \<or> a = b \<and> bytes_less as bs)"

lemma compare_Nil [simp]:
  "compare [] [] = 0" "compare [] (b # bs) = -1" "compare (a # as) [] = 1"
  by (simp_all add: compare_def)

lemma compare_Cons [simp]:
  "compare (a # as) (b # bs) = (if a < b then -1 else if b < a then 1 else compare as bs)"
  by (simp add: compare_def Let_def)

lemma compare_cases:
  "compare a b = (if bytes_less a b then -1 else if a = b then 0 else 1)"
proof (induction a b rule: bytes_less.induct)
  case (1 as)
  then show ?case by (cases as) auto
next
  case (2 b bs)
  then show ?case by simp
next
  case (3 a as b bs)
  then show ?case by (cases "a = b") auto
qed

lemma bytes_less_linear: "bytes_less a b \<or> a = b \<or> bytes_less b a"
proof (induction a arbitrary: b)
  case Nil
  then show ?case by (cases b) auto
next
  case (Cons x a)
  then show ?case by (cases b) auto
qed

lemma bytes_less_irrefl [simp]: "\<not> bytes_less a a"
  by (induction a) auto

lemma bytes_less_trans: "bytes_less a b \<Longrightarrow> bytes_less b c \<Longrightarrow> bytes_less a c"
proof (induction a c arbitrary: b rule: bytes_less.induct)
  case (1 as)
  then show ?case by simp
next
  case (2 c cs)
  then show ?case by simp
next
  case (3 a as c cs)
  from "3.prems" obtain b' bs where b: "b = b' # bs" by (cases b) auto
  with "3.prems" "3.IH" [of bs] show ?case by auto
qed

lemma bytes_less_asym: "bytes_less a b \<Longrightarrow> \<not> bytes_less b a"
  using bytes_less_trans bytes_less_irrefl by blast

lemma bytes_less_append_same [simp]: "bytes_less (p @ a) (p @ b) \<longleftrightarrow> bytes_less a b"
  by (induction p) auto

lemma bytes_less_append:
  "length a = length b \<Longrightarrow> bytes_less (a @ c) (b @ d) \<longleftrightarrow> bytes_less a b \<or> a = b \<and> bytes_less c d"
  by (induction a b rule: list_induct2) auto

lemma memcmp_0: "n \<le> length a \<Longrightarrow> n \<le> length b \<Longrightarrow> memcmp a b n = 0 \<longleftrightarrow> take n a = take n b"
  by (induction a b n rule: memcmp.induct) auto

lemma starts_with_iff: "starts_with s x \<longleftrightarrow> (\<exists>r. s = x @ r)"
proof -
  have "starts_with s x \<longleftrightarrow> length x \<le> length s \<and> take (length x) s = x"
    by (auto simp: starts_with_def memcmp_0)
  also have "\<dots> \<longleftrightarrow> (\<exists>r. s = x @ r)"
    by (metis append_eq_conv_conj append_take_drop_id length_append le_add1)
  finally show ?thesis .
qed

lemma starts_with_append [simp]: "starts_with (x @ r) x"
  by (auto simp: starts_with_iff)

lemma remove_prefix_append [simp]: "remove_prefix (length x) (x @ r) = r"
  by (simp add: remove_prefix_def)

end
