(* ===== verification/Fsdbbase.thy ===== *)
theory Fsdbbase
  imports Fstypes Slice
begin

text \<open>
  \<^verbatim>\<open>pdlfs-common/fsdbbase.h\<close> and \<^verbatim>\<open>fsdbbase.cc\<close> as configured for this repository
  (\<^verbatim>\<open>DELTAFS_PROTO\<close>, prefix of 16 bytes, intact file names as suffixes): the keys under which
  directory entries are stored, and directory ids. A \<open>Key\<close> is its \<^verbatim>\<open>rep_\<close> string. The accessors
  read inside the 16-byte prefix without a check, as in the source; every constructor makes it.
\<close>

datatype KeyType = kDirEntType | kDirIdxType | kDirMetaType | kSuperBlockType | kDataDesType
  | kDataBlockType | kInoType

fun KeyType_value :: "KeyType \<Rightarrow> u64" where
  "KeyType_value kDirEntType = 1"
| "KeyType_value kDirIdxType = 2"
| "KeyType_value kDirMetaType = 3"
| "KeyType_value kSuperBlockType = 4"
| "KeyType_value kDataDesType = 5"
| "KeyType_value kDataBlockType = 6"
| "KeyType_value kInoType = 7"

definition FS_KEY_PREFIX_LENGTH :: nat where "FS_KEY_PREFIX_LENGTH = 16"

type_synonym Key = slice

text \<open>\<^verbatim>\<open>htobe64\<close> followed by \<^verbatim>\<open>memcpy\<close>, and \<^verbatim>\<open>memcpy\<close> followed by \<^verbatim>\<open>be64toh\<close>.\<close>

definition put_be64 :: "u64 \<Rightarrow> slice" where
  "put_be64 v = rev (EncodeFixed64 v)"

definition get_be64 :: "slice \<Rightarrow> u64" where
  "get_be64 p = DecodeFixed64 (rev (take 8 p))"

definition PackPrefix :: "u64 \<Rightarrow> u64 \<Rightarrow> KeyType \<Rightarrow> slice" where
  "PackPrefix dno ino t = put_be64 dno @ put_be64 (push_bit 8 ino OR (KeyType_value t AND 0xff))"

definition mk_Key :: "u64 \<Rightarrow> u64 \<Rightarrow> KeyType \<Rightarrow> Key" where
  "mk_Key dno ino type = PackPrefix dno ino type"

definition mk_Key_ino :: "u64 \<Rightarrow> KeyType \<Rightarrow> Key" where
  "mk_Key_ino ino type = PackPrefix 0 ino type"

definition mk_Key_LookupStat :: "LookupStat \<Rightarrow> KeyType \<Rightarrow> Key" where
  "mk_Key_LookupStat stat type = PackPrefix (lDnodeNo stat) (lInodeNo stat) type"

definition mk_Key_Stat :: "Stat \<Rightarrow> KeyType \<Rightarrow> Key" where
  "mk_Key_Stat stat type = PackPrefix (DnodeNo stat) (InodeNo stat) type"

text \<open>The constructor from a prefix asserts its length; \<open>None\<close> is the failed assertion.\<close>

definition mk_Key_prefix :: "slice \<Rightarrow> Key option" where
  "mk_Key_prefix p = (if length p = FS_KEY_PREFIX_LENGTH then Some p else None)"

definition SetName :: "Key \<Rightarrow> slice \<Rightarrow> Key" where
  "SetName k name = take FS_KEY_PREFIX_LENGTH k @ name"

definition SetOffset :: "Key \<Rightarrow> u64 \<Rightarrow> Key" where
  "SetOffset k off = take FS_KEY_PREFIX_LENGTH k @ put_be64 off"

definition SetSuffix :: "Key \<Rightarrow> slice \<Rightarrow> Key" where
  "SetSuffix k suff = SetName k suff"

definition SetType :: "Key \<Rightarrow> KeyType \<Rightarrow> Key" where
  "SetType k t = k[FS_KEY_PREFIX_LENGTH - 1 := ucast (KeyType_value t)]"

definition Key_dnode :: "Key \<Rightarrow> u64" where
  "Key_dnode k = get_be64 k"

definition Key_inode :: "Key \<Rightarrow> u64" where
  "Key_inode k = drop_bit 8 (get_be64 (drop (FS_KEY_PREFIX_LENGTH - 8) k))"

text \<open>The type is the value of the byte, whatever it is.\<close>

definition Key_type :: "Key \<Rightarrow> byte" where
  "Key_type k = k ! (FS_KEY_PREFIX_LENGTH - 1)"

definition Key_prefix :: "Key \<Rightarrow> slice" where
  "Key_prefix k = take FS_KEY_PREFIX_LENGTH k"

definition Key_suffix :: "Key \<Rightarrow> slice" where
  "Key_suffix k = drop FS_KEY_PREFIX_LENGTH k"

text \<open>Asserts eight bytes of suffix; additional bytes are ignored.\<close>

definition Key_offset :: "Key \<Rightarrow> u64 option" where
  "Key_offset k = (if 8 \<le> length (Key_suffix k) then Some (get_be64 (Key_suffix k)) else None)"

record DirId =
  dno :: u64
  ino :: u64

definition mk_DirId_ino :: "u64 \<Rightarrow> DirId" where
  "mk_DirId_ino i = \<lparr>dno = 0, ino = i\<rparr>"

definition DirId_LookupStat :: "LookupStat \<Rightarrow> DirId" where
  "DirId_LookupStat stat = \<lparr>dno = lDnodeNo stat, ino = lInodeNo stat\<rparr>"

definition DirId_Stat :: "Stat \<Rightarrow> DirId" where
  "DirId_Stat stat = \<lparr>dno = DnodeNo stat, ino = InodeNo stat\<rparr>"

definition compare64 :: "u64 \<Rightarrow> u64 \<Rightarrow> int" where
  "compare64 a b = (if a < b then -1 else if b < a then 1 else 0)"

definition DirId_compare :: "DirId \<Rightarrow> DirId \<Rightarrow> int" where
  "DirId_compare x other =
     (let r = compare64 (dno x) (dno other)
      in if r \<noteq> 0 then r else compare64 (ino x) (ino other))"

definition DirId_eq :: "DirId \<Rightarrow> DirId \<Rightarrow> bool" where
  "DirId_eq x y = (if dno x \<noteq> dno y then False else ino x = ino y)"

text \<open>The key of a directory entry, as \<^verbatim>\<open>MXDB\<close> builds it.\<close>

definition dirent_key :: "DirId \<Rightarrow> slice \<Rightarrow> Key" where
  "dirent_key d suf = SetSuffix (mk_Key (dno d) (ino d) kDirEntType) suf"

section \<open>Properties\<close>

lemma length_put_be64 [simp]: "length (put_be64 v) = 8"
  by (simp add: put_be64_def)

lemma get_put_be64 [simp]: "get_be64 (put_be64 v @ r) = v"
  using DecodeFixed64_EncodeFixed64 [of v "[]"] by (simp add: get_be64_def put_be64_def)

lemma get_put_be64_Nil [simp]: "get_be64 (put_be64 v) = v"
  using get_put_be64 [of v "[]"] by (simp del: get_put_be64)

lemma put_be64_inject [simp]: "put_be64 v = put_be64 w \<longleftrightarrow> v = w"
  by (metis get_put_be64_Nil)

lemma length_PackPrefix [simp]: "length (PackPrefix d i t) = 16"
  by (simp add: PackPrefix_def)

text \<open>Big-endian bytes are ordered as the numbers are.\<close>

lemma bytes_less_snoc:
  "length a = length b \<Longrightarrow> bytes_less (a @ [x]) (b @ [y]) \<longleftrightarrow> bytes_less a b \<or> a = b \<and> x < y"
  by (induction a b rule: list_induct2) auto

lemma nat_less_div_mod:
  "(a :: nat) < b \<longleftrightarrow> a div k < b div k \<or> a div k = b div k \<and> a mod k < b mod k"
proof (cases "a div k = b div k")
  case True
  then have "a = k * (b div k) + a mod k" by (metis div_mult_mod_eq mult.commute)
  moreover have "b = k * (b div k) + b mod k" by simp
  ultimately show ?thesis using True by (metis add_less_cancel_left less_irrefl)
next
  case False
  then show ?thesis using div_le_mono [of a b k] div_le_mono [of b a k] by linarith
qed

lemma word_less_high_low:
  fixes v w :: u64
  shows "v < w \<longleftrightarrow> drop_bit 8 v < drop_bit 8 w \<or>
    drop_bit 8 v = drop_bit 8 w \<and> (ucast v :: byte) < ucast w"
proof -
  have low: "unat (ucast x :: byte) = unat x mod 256" for x :: u64
    by (simp add: unsigned_ucast_eq take_bit_eq_mod)
  have high: "unat (drop_bit 8 x) = unat x div 256" for x :: u64
    by (simp add: unat_drop_bit_div del: drop_bit_eq_div)
  show ?thesis
    using nat_less_div_mod [of "unat v" "unat w" 256]
    by (simp only: word_less_nat_alt low high word_unat_eq_iff)
qed

lemma bytes_less_rev_le_bytes:
  "unat (v :: u64) < 2 ^ (8 * k) \<Longrightarrow> unat w < 2 ^ (8 * k) \<Longrightarrow>
   bytes_less (rev (le_bytes k v)) (rev (le_bytes k w)) \<longleftrightarrow> v < w"
proof (induction k arbitrary: v w)
  case 0
  then show ?case by (simp add: unat_eq_0)
next
  case (Suc k)
  have sh: "unat (drop_bit 8 x) < 2 ^ (8 * k)" if "unat x < 2 ^ (8 * Suc k)" for x :: u64
    using div_pow_less [OF that, of 8] by (simp add: unat_drop_bit_div del: drop_bit_eq_div)
  have inj: "rev (le_bytes k (drop_bit 8 v)) = rev (le_bytes k (drop_bit 8 w)) \<longleftrightarrow> drop_bit 8 v = drop_bit 8 w"
    using Suc.IH [of "drop_bit 8 v" "drop_bit 8 w"] Suc.IH [of "drop_bit 8 w" "drop_bit 8 v"]
      sh [OF Suc.prems(1)] sh [OF Suc.prems(2)] bytes_less_irrefl by (metis linorder_less_linear)
  show ?case
    using Suc.IH [OF sh [OF Suc.prems(1)] sh [OF Suc.prems(2)]]
    by (simp add: bytes_less_snoc inj [simplified] word_less_high_low [of v w] del: drop_bit_eq_div)
qed

lemma bytes_less_put_be64: "bytes_less (put_be64 v) (put_be64 w) \<longleftrightarrow> v < w"
  using bytes_less_rev_le_bytes [of v 8 w] unsigned_less [of v, where 'a = nat]
    unsigned_less [of w, where 'a = nat]
  by (simp add: put_be64_def EncodeFixed_le_bytes)

text \<open>The composite of inode number and key type loses the inode number's top byte.\<close>

lemma composite_drop: "drop_bit 8 (push_bit 8 i OR (KeyType_value t AND 0xff)) = take_bit 56 i"
proof -
  have "unat (KeyType_value t AND 0xff) < 2 ^ 8" by (cases t) simp_all
  then have "\<not> bit (KeyType_value t AND 0xff) n" if "8 \<le> n" for n
    using that by (rule unat_less_not_bit)
  then show ?thesis by (intro bit_word_eqI) (auto simp: bit_simps)
qed

lemma Key_inode_PackPrefix: "Key_inode (PackPrefix d i t @ s) = take_bit 56 i"
proof -
  have "drop (FS_KEY_PREFIX_LENGTH - 8) (PackPrefix d i t @ s)
      = put_be64 (push_bit 8 i OR (KeyType_value t AND 0xff)) @ s"
    by (simp add: PackPrefix_def FS_KEY_PREFIX_LENGTH_def)
  then show ?thesis by (simp only: Key_inode_def get_put_be64 composite_drop)
qed

lemma Key_parts:
  "Key_dnode (PackPrefix d i t @ s) = d"
  "Key_prefix (PackPrefix d i t @ s) = PackPrefix d i t"
  "Key_suffix (PackPrefix d i t @ s) = s"
  by (simp_all add: Key_dnode_def Key_prefix_def Key_suffix_def PackPrefix_def FS_KEY_PREFIX_LENGTH_def)

lemma Key_type_PackPrefix: "Key_type (PackPrefix d i t @ s) = ucast (KeyType_value t)"
proof -
  have "PackPrefix d i t @ s = put_be64 d @ put_be64 (push_bit 8 i OR (KeyType_value t AND 0xff)) @ s"
    by (simp add: PackPrefix_def)
  moreover have "put_be64 c ! 7 = ucast c" for c
    by (simp add: put_be64_def EncodeFixed64_def)
  moreover have "(ucast (push_bit 8 i OR (KeyType_value t AND 0xff)) :: byte) = ucast (KeyType_value t)"
  proof -
    have "KeyType_value t AND 0xff = take_bit 8 (KeyType_value t)"
      by (simp add: take_bit_eq_mask mask_numeral)
    then show ?thesis by (intro bit_word_eqI) (auto simp: bit_simps)
  qed
  ultimately show ?thesis
    by (simp only: Key_type_def FS_KEY_PREFIX_LENGTH_def) (simp add: nth_append)
qed

lemma take_bit_56:
  assumes "unat (i :: u64) < 2 ^ 56"
  shows "take_bit 56 i = i"
proof -
  have "n < 56" if "bit i n" for n
    using unat_less_not_bit [OF assms, of n] that by (cases "n < 56") auto
  then show ?thesis by (intro bit_word_eqI) (auto simp: bit_simps)
qed

lemma composite_less:
  assumes "unat i < 2 ^ 56" and "unat j < 2 ^ 56"
  shows "push_bit 8 i OR (KeyType_value t AND 0xff) < push_bit 8 j OR (KeyType_value t AND 0xff) \<longleftrightarrow> i < j"
proof -
  have "(ucast (push_bit 8 i OR (KeyType_value t AND 0xff)) :: byte)
      = ucast (push_bit 8 j OR (KeyType_value t AND 0xff))"
    by (intro bit_word_eqI) (auto simp: bit_simps)
  then show ?thesis
    using assms by (subst word_less_high_low) (simp only: composite_drop take_bit_56, simp)
qed

lemma dirent_key_eq: "dirent_key d s = PackPrefix (dno d) (ino d) kDirEntType @ s"
  by (simp add: dirent_key_def SetSuffix_def SetName_def mk_Key_def FS_KEY_PREFIX_LENGTH_def)

lemma bytes_less_PackPrefix:
  assumes "unat i < 2 ^ 56" and "unat j < 2 ^ 56"
  shows "bytes_less (PackPrefix d i t) (PackPrefix e j t) \<longleftrightarrow> d < e \<or> d = e \<and> i < j"
  using composite_less [OF assms, of t]
  by (simp add: PackPrefix_def bytes_less_append bytes_less_put_be64)

lemma PackPrefix_inject:
  assumes "unat i < 2 ^ 56" and "unat j < 2 ^ 56"
  shows "PackPrefix d i t = PackPrefix e j t \<longleftrightarrow> d = e \<and> i = j"
  using Key_inode_PackPrefix [of d i t "[]"] Key_inode_PackPrefix [of e j t "[]"]
    Key_parts(1) [of d i t "[]"] Key_parts(1) [of e j t "[]"] assms
  by (auto simp: take_bit_56)

lemma dirent_key_inject:
  assumes "unat (ino d) < 2 ^ 56" and "unat (ino e) < 2 ^ 56"
  shows "dirent_key d s = dirent_key e t \<longleftrightarrow> d = e \<and> s = t"
  using PackPrefix_inject [OF assms, of "dno d" kDirEntType "dno e"]
  by (auto simp: dirent_key_eq)

lemma DirId_compare_cases:
  "DirId_compare d e = (if dno d < dno e \<or> dno d = dno e \<and> ino d < ino e then -1
     else if d = e then 0 else 1)"
  by (auto simp: DirId_compare_def compare64_def Let_def)

text \<open>
  C37. The order of the entries in the database: comparing two keys byte by byte, as the store does,
  compares the parent directories by directory node and inode number and then the names, for inode
  numbers below \<open>2 ^ 56\<close>. So the entries of a directory are contiguous and in name order, and no two
  entries share a key.
\<close>

theorem compare_dirent_key:
  assumes "unat (ino d) < 2 ^ 56" and "unat (ino e) < 2 ^ 56"
  shows "compare (dirent_key d s) (dirent_key e t) =
    (if DirId_compare d e \<noteq> 0 then DirId_compare d e else compare s t)"
proof -
  have l: "bytes_less (dirent_key d s) (dirent_key e t) \<longleftrightarrow>
      dno d < dno e \<or> dno d = dno e \<and> ino d < ino e \<or> d = e \<and> bytes_less s t"
    using bytes_less_PackPrefix [OF assms] PackPrefix_inject [OF assms]
    by (auto simp: dirent_key_eq bytes_less_append)
  show ?thesis
    by (auto simp: compare_cases [of "dirent_key d s"] compare_cases [of s] l DirId_compare_cases
      dirent_key_inject [OF assms])
qed

lemma compare_dirent_key_witness:
  "compare (dirent_key \<lparr>dno = 1, ino = 7\<rparr> [97]) (dirent_key \<lparr>dno = 1, ino = 7\<rparr> [98]) = -1"
proof -
  have "compare [97] [98] = -1" and "DirId_compare \<lparr>dno = 1, ino = 7\<rparr> \<lparr>dno = 1, ino = 7\<rparr> = 0" by code_simp+
  then show ?thesis
    using compare_dirent_key [of "\<lparr>dno = 1, ino = 7\<rparr>" "\<lparr>dno = 1, ino = 7\<rparr>" "[97]" "[98]"] by simp
qed

end
