(* ===== verification/Comparator.thy ===== *)
theory Comparator
  imports Fsdbbase
begin

text \<open>
  The orders of the store (\<^verbatim>\<open>leveldb/comparator.cc\<close>, \<^verbatim>\<open>leveldb/db/internal_types.cc\<close>): the bytewise
  comparator with its key-shortening routines, the internal keys (a user key followed by eight bytes
  of sequence number and type) and their comparator. \<open>None\<close> is a failed assertion.
\<close>

section \<open>The bytewise comparator\<close>

fun common_prefix :: "slice \<Rightarrow> slice \<Rightarrow> nat" where
  "common_prefix (a # as) (b # bs) = (if a = b then Suc (common_prefix as bs) else 0)"
| "common_prefix as bs = 0"

definition FindShortestSeparator :: "slice \<Rightarrow> slice \<Rightarrow> slice option" where
  "FindShortestSeparator start limit =
     (let min_length = min (length start) (length limit);
          diff_index = common_prefix start limit
      in if min_length \<le> diff_index then Some start
         else
           let diff_byte = start ! diff_index
           in if diff_byte < 0xff \<and> unat diff_byte + 1 < unat (limit ! diff_index)
              then (let start = take (diff_index + 1) (start[diff_index := diff_byte + 1])
                    in if compare start limit < 0 then Some start else None)
              else Some start)"

fun FindShortSuccessor :: "slice \<Rightarrow> slice" where
  "FindShortSuccessor [] = []"
| "FindShortSuccessor (b # bs) = (if b \<noteq> 0xff then [b + 1] else b # FindShortSuccessor bs)"

section \<open>Internal keys\<close>

datatype ValueType = kTypeDeletion | kTypeValue

fun ValueType_value :: "ValueType \<Rightarrow> u64" where
  "ValueType_value kTypeDeletion = 0"
| "ValueType_value kTypeValue = 1"

definition kValueTypeForSeek :: ValueType where
  "kValueTypeForSeek = kTypeValue"

definition kMaxSequenceNumber :: u64 where
  "kMaxSequenceNumber = push_bit 56 1 - 1"

text \<open>The type byte is kept as a byte: the sources cast what they read without looking at it.\<close>

record ParsedInternalKey =
  user_key :: slice
  seqno :: u64
  vtype :: byte

definition InternalKeyEncodingLength :: "ParsedInternalKey \<Rightarrow> nat" where
  "InternalKeyEncodingLength key = length (user_key key) + 8"

definition PackSequenceAndType :: "u64 \<Rightarrow> byte \<Rightarrow> u64 option" where
  "PackSequenceAndType s t =
     (if s \<le> kMaxSequenceNumber \<and> t \<le> ucast (ValueType_value kValueTypeForSeek)
      then Some (push_bit 8 s OR ucast t) else None)"

definition AppendInternalKey :: "slice \<Rightarrow> ParsedInternalKey \<Rightarrow> slice option" where
  "AppendInternalKey result key =
     map_option (\<lambda>p. PutFixed64 (result @ user_key key) p) (PackSequenceAndType (seqno key) (vtype key))"

definition AppendInternalKeyPtr :: "ParsedInternalKey \<Rightarrow> slice option" where
  "AppendInternalKeyPtr key =
     map_option (\<lambda>p. user_key key @ EncodeFixed64 p) (PackSequenceAndType (seqno key) (vtype key))"

definition ParseInternalKey :: "slice \<Rightarrow> ParsedInternalKey option" where
  "ParseInternalKey internal_key =
     (let n = length internal_key
      in if n < 8 then None
         else
           let num = DecodeFixed64 (drop (n - 8) internal_key); c = (ucast (num AND 0xff) :: byte)
           in if c \<le> ucast (ValueType_value kTypeValue)
              then Some \<lparr>user_key = take (n - 8) internal_key, seqno = drop_bit 8 num, vtype = c\<rparr>
              else None)"

text \<open>
  \<^verbatim>\<open>ExtractUserKey\<close> asserts that there are eight bytes to cut off: \<open>internal_key_ok\<close>, which every key
  the store compares satisfies.
\<close>

definition internal_key_ok :: "slice \<Rightarrow> bool" where
  "internal_key_ok k \<longleftrightarrow> 8 \<le> length k"

definition ExtractUserKey :: "slice \<Rightarrow> slice" where
  "ExtractUserKey internal_key = take (length internal_key - 8) internal_key"

definition key_num :: "slice \<Rightarrow> u64" where
  "key_num k = DecodeFixed64 (drop (length k - 8) k)"

definition ExtractValueType :: "slice \<Rightarrow> byte" where
  "ExtractValueType internal_key = ucast (key_num internal_key AND 0xff)"

definition InternalKey_Compare :: "slice \<Rightarrow> slice \<Rightarrow> int" where
  "InternalKey_Compare akey bkey =
     (let r = compare (ExtractUserKey akey) (ExtractUserKey bkey)
      in if r = 0 then
           (let anum = key_num akey; bnum = key_num bkey
            in if anum > bnum then -1 else if anum < bnum then 1 else r)
         else r)"

definition InternalKey_FindShortestSeparator :: "slice \<Rightarrow> slice \<Rightarrow> slice option" where
  "InternalKey_FindShortestSeparator start limit =
     (let user_start = ExtractUserKey start; user_limit = ExtractUserKey limit
      in case FindShortestSeparator user_start user_limit of
           None \<Rightarrow> None
         | Some tmp \<Rightarrow>
             if length tmp < length user_start \<and> compare user_start tmp < 0 then
               (case PackSequenceAndType kMaxSequenceNumber (ucast (ValueType_value kValueTypeForSeek)) of
                  None \<Rightarrow> None
                | Some p \<Rightarrow>
                    let tmp = PutFixed64 tmp p
                    in if InternalKey_Compare start tmp < 0 \<and> InternalKey_Compare tmp limit < 0
                       then Some tmp else None)
             else Some start)"

definition InternalKey_FindShortSuccessor :: "slice \<Rightarrow> slice option" where
  "InternalKey_FindShortSuccessor key =
     (let user_key = ExtractUserKey key; tmp = FindShortSuccessor user_key
      in if length tmp < length user_key \<and> compare user_key tmp < 0 then
           (case PackSequenceAndType kMaxSequenceNumber (ucast (ValueType_value kValueTypeForSeek)) of
              None \<Rightarrow> None
            | Some p \<Rightarrow> let tmp = PutFixed64 tmp p in if InternalKey_Compare key tmp < 0 then Some tmp else None)
         else Some key)"

text \<open>\<^verbatim>\<open>LookupKey\<close>: length-prefixed for the memtable, the suffix is an internal key.\<close>

record LookupKey =
  lk_prefix :: slice
  lk_internal_key :: slice

definition mk_LookupKey :: "slice \<Rightarrow> u64 \<Rightarrow> LookupKey option" where
  "mk_LookupKey ukey s =
     map_option (\<lambda>p. \<lparr>lk_prefix = EncodeVarint32 (word_of_nat (length ukey + 8)),
                      lk_internal_key = ukey @ EncodeFixed64 p\<rparr>)
       (PackSequenceAndType s (ucast (ValueType_value kValueTypeForSeek)))"

definition lk_memtable_key :: "LookupKey \<Rightarrow> slice" where
  "lk_memtable_key k = lk_prefix k @ lk_internal_key k"

definition lk_user_key :: "LookupKey \<Rightarrow> slice" where
  "lk_user_key k = take (length (lk_internal_key k) - 8) (lk_internal_key k)"

section \<open>Properties of the bytewise comparator\<close>

lemma compare_simps: "compare a b < 0 \<longleftrightarrow> bytes_less a b" "0 < compare a b \<longleftrightarrow> bytes_less b a"
  "compare a b = 0 \<longleftrightarrow> a = b" "0 \<le> compare a b \<longleftrightarrow> \<not> bytes_less a b"
  using bytes_less_linear [of a b] bytes_less_asym [of a b] by (auto simp: compare_cases)

lemma compare_le: "compare a b \<le> 0 \<longleftrightarrow> \<not> bytes_less b a"
  using compare_simps(2) [of a b] by auto

lemma unat_Suc_byte: "unat (b :: byte) < 255 \<Longrightarrow> unat (b + 1) = unat b + 1"
  using unat_add_lem [of b 1] by simp

lemma byte_less_Suc: "(b :: byte) \<noteq> 255 \<Longrightarrow> b < b + 1"
proof -
  assume "b \<noteq> 255"
  then have "unat b \<noteq> 255" by (simp add: word_unat_eq_iff)
  moreover have "unat b < 256" using unsigned_less [of b] by simp
  ultimately show ?thesis by (simp add: word_less_nat_alt unat_Suc_byte)
qed

lemma FindShortestSeparator_ok:
  assumes "bytes_less start limit"
  shows "\<exists>r. FindShortestSeparator start limit = Some r \<and> \<not> bytes_less r start \<and> bytes_less r limit \<and>
    length r \<le> length start"
  using assms
proof (induction start limit rule: common_prefix.induct)
  case (1 a as b bs)
  show ?case
  proof (cases "a = b")
    case True
    then obtain r where r: "FindShortestSeparator as bs = Some r" "\<not> bytes_less r as" "bytes_less r bs"
      "length r \<le> length as"
      using 1 by auto
    have "FindShortestSeparator (a # as) (b # bs) = Some (b # r)"
      using r(1) True by (auto simp: FindShortestSeparator_def Let_def min_def split: if_splits)
    then show ?thesis using r True by simp
  next
    case False
    with 1 have "a < b" by simp
    then show ?thesis using False unat_Suc_byte [of a]
      by (auto simp: FindShortestSeparator_def Let_def min_def word_less_nat_alt)
  qed
qed (auto simp: FindShortestSeparator_def Let_def)

lemma FindShortSuccessor_ok: "\<not> bytes_less (FindShortSuccessor k) k \<and> length (FindShortSuccessor k) \<le> length k"
  by (induction k) (auto dest: byte_less_Suc)

section \<open>Properties of the internal keys\<close>

definition ikey :: "slice \<Rightarrow> u64 \<Rightarrow> ValueType \<Rightarrow> slice" where
  "ikey k s t = k @ EncodeFixed64 (push_bit 8 s OR ValueType_value t)"

lemma ExtractUserKey_append [simp]: "ExtractUserKey (k @ EncodeFixed64 p) = k"
  by (simp add: ExtractUserKey_def)

lemma key_num_append [simp]: "key_num (k @ EncodeFixed64 p) = p"
  using DecodeFixed64_EncodeFixed64 [of p "[]"] by (simp add: key_num_def)

lemma ExtractUserKey_ikey [simp]: "ExtractUserKey (ikey k s t) = k"
  by (simp add: ikey_def)

lemma length_ikey [simp]: "length (ikey k s t) = length k + 8"
  by (simp add: ikey_def)

lemma kMaxSequenceNumber_unat: "s \<le> kMaxSequenceNumber \<longleftrightarrow> unat s < 2 ^ 56"
  by (simp add: kMaxSequenceNumber_def word_le_nat_alt less_Suc_eq_le [symmetric])

lemma tag_parts:
  assumes "s \<le> kMaxSequenceNumber"
  shows "drop_bit 8 (push_bit 8 s OR ValueType_value t) = s"
    and "(ucast (push_bit 8 s OR ValueType_value t) :: byte) = ucast (ValueType_value t)"
    and "(ucast ((push_bit 8 s OR ValueType_value t) AND 0xff) :: byte) = ucast (ValueType_value t)"
proof -
  have v: "\<not> bit (ValueType_value t) n" if "8 \<le> n" for n
    by (rule unat_less_not_bit [OF _ that]) (cases t; simp)
  have s: "n < 56" if "bit s n" for n
    using unat_less_not_bit [of s 56 n] assms that by (cases "n < 56") (auto simp: kMaxSequenceNumber_unat)
  show "drop_bit 8 (push_bit 8 s OR ValueType_value t) = s"
    by (rule bit_word_eqI) (auto simp: bit_simps v dest: s)
  show "(ucast (push_bit 8 s OR ValueType_value t) :: byte) = ucast (ValueType_value t)"
    by (rule bit_word_eqI) (auto simp: bit_simps)
  then show "(ucast ((push_bit 8 s OR ValueType_value t) AND 0xff) :: byte) = ucast (ValueType_value t)"
    by simp
qed

lemma tag_less:
  assumes "s \<le> kMaxSequenceNumber" "s' \<le> kMaxSequenceNumber"
  shows "push_bit 8 s OR ValueType_value t < push_bit 8 s' OR ValueType_value t' \<longleftrightarrow>
    s < s' \<or> s = s' \<and> t = kTypeDeletion \<and> t' = kTypeValue"
  by (subst word_less_high_low) (cases t; cases t'; simp only: tag_parts [OF assms(1)] tag_parts [OF assms(2)]; simp)

lemma PackSequenceAndType_eq:
  "s \<le> kMaxSequenceNumber \<Longrightarrow>
   PackSequenceAndType s (ucast (ValueType_value t)) = Some (push_bit 8 s OR ValueType_value t)"
  by (cases t) (simp_all add: PackSequenceAndType_def kValueTypeForSeek_def)

text \<open>The order of the internal keys: by user key, the newest first.\<close>

lemma InternalKey_Compare_ikey:
  assumes "s \<le> kMaxSequenceNumber" "s' \<le> kMaxSequenceNumber"
  shows "InternalKey_Compare (ikey k s t) (ikey k' s' t') < 0 \<longleftrightarrow>
    bytes_less k k' \<or> k = k' \<and> (s' < s \<or> s = s' \<and> t' = kTypeDeletion \<and> t = kTypeValue)"
  using tag_less [OF assms, of t t'] tag_less [OF assms(2,1), of t' t] bytes_less_asym [of k k']
  by (auto simp: InternalKey_Compare_def Let_def ikey_def compare_simps)

definition ikey_less :: "slice \<Rightarrow> slice \<Rightarrow> bool" where
  "ikey_less a b \<longleftrightarrow> bytes_less (ExtractUserKey a) (ExtractUserKey b) \<or>
     ExtractUserKey a = ExtractUserKey b \<and> key_num b < key_num a"

lemma InternalKey_Compare_simps:
  "InternalKey_Compare a b < 0 \<longleftrightarrow> ikey_less a b" "0 < InternalKey_Compare a b \<longleftrightarrow> ikey_less b a"
  "InternalKey_Compare a b = 0 \<longleftrightarrow> ExtractUserKey a = ExtractUserKey b \<and> key_num a = key_num b"
  using bytes_less_asym [of "ExtractUserKey a" "ExtractUserKey b"]
    bytes_less_linear [of "ExtractUserKey a" "ExtractUserKey b"]
  by (auto simp: InternalKey_Compare_def Let_def ikey_less_def compare_simps)

lemma DecodeFixed64_le_word: "length xs = 8 \<Longrightarrow> DecodeFixed64 xs = le_word xs"
  using DecodeFixed64_le [where r = "[]"] by (auto simp: length_Suc_conv eval_nat_numeral)

lemma key_parts_eq:
  assumes "8 \<le> length k"
  shows "ExtractUserKey k @ EncodeFixed64 (key_num k) = k"
proof -
  have l: "length (drop (length k - 8) k) = 8" using assms by simp
  have "EncodeFixed64 (key_num k) = le_bytes 8 (le_word (drop (length k - 8) k) :: u64)"
    by (simp only: key_num_def EncodeFixed_le_bytes DecodeFixed64_le_word [OF l])
  also have "\<dots> = drop (length k - 8) k"
    using le_bytes_le_word [of "drop (length k - 8) k", where 'a = 64] by (simp only: l) simp
  finally show ?thesis by (simp add: ExtractUserKey_def)
qed

lemma InternalKey_Compare_0:
  "8 \<le> length a \<Longrightarrow> 8 \<le> length b \<Longrightarrow> InternalKey_Compare a b = 0 \<longleftrightarrow> a = b"
  by (metis InternalKey_Compare_simps(3) key_parts_eq)

lemma ikey_less_trans: "ikey_less a b \<Longrightarrow> ikey_less b c \<Longrightarrow> ikey_less a c"
  unfolding ikey_less_def using bytes_less_trans by (metis order_less_trans)

lemma ikey_less_irrefl [simp]: "\<not> ikey_less a a"
  by (simp add: ikey_less_def)

lemma ParseInternalKey_ikey:
  "s \<le> kMaxSequenceNumber \<Longrightarrow>
   ParseInternalKey (ikey k s t) = Some \<lparr>user_key = k, seqno = s, vtype = ucast (ValueType_value t)\<rparr>"
  using tag_parts [of s t] key_num_append [of k "push_bit 8 s OR ValueType_value t"]
  by (cases t) (simp_all add: ParseInternalKey_def Let_def ikey_def key_num_def)

lemma AppendInternalKey_ikey:
  "s \<le> kMaxSequenceNumber \<Longrightarrow>
   AppendInternalKey r \<lparr>user_key = k, seqno = s, vtype = ucast (ValueType_value t)\<rparr> = Some (r @ ikey k s t)"
  by (simp add: AppendInternalKey_def PackSequenceAndType_eq ikey_def PutFixed64_def)

lemma bytes_less_shorter: "\<not> bytes_less r start \<Longrightarrow> length r < length start \<Longrightarrow> bytes_less start r"
  using bytes_less_linear [of start r] by auto

text \<open>
  C35. Internal keys decode to what was encoded, and their comparator orders them by user key and then
  from the newest to the oldest: so a search for a user key at a sequence number finds the newest entry
  that is not newer.
\<close>

theorem internal_key_roundtrip_and_order:
  assumes "s \<le> kMaxSequenceNumber" and "s' \<le> kMaxSequenceNumber"
  shows "\<exists>a b. AppendInternalKey [] \<lparr>user_key = k, seqno = s, vtype = ucast (ValueType_value t)\<rparr> = Some a \<and>
    AppendInternalKeyPtr \<lparr>user_key = k', seqno = s', vtype = ucast (ValueType_value t')\<rparr> = Some b \<and>
    ParseInternalKey a = Some \<lparr>user_key = k, seqno = s, vtype = ucast (ValueType_value t)\<rparr> \<and>
    ExtractUserKey a = k \<and> ExtractValueType a = ucast (ValueType_value t) \<and> length a = length k + 8 \<and>
    (InternalKey_Compare a b < 0 \<longleftrightarrow>
       bytes_less k k' \<or> k = k' \<and> (s' < s \<or> s = s' \<and> t' = kTypeDeletion \<and> t = kTypeValue))"
proof -
  have "AppendInternalKeyPtr \<lparr>user_key = k', seqno = s', vtype = ucast (ValueType_value t')\<rparr> = Some (ikey k' s' t')"
    using assms by (simp add: AppendInternalKeyPtr_def PackSequenceAndType_eq ikey_def)
  then show ?thesis
    using AppendInternalKey_ikey [OF assms(1), of "[]" k t] ParseInternalKey_ikey [OF assms(1), of k t]
      InternalKey_Compare_ikey [OF assms, of k t k' t'] tag_parts(3) [OF assms(1), of t]
    by (simp add: ExtractValueType_def) (simp add: ikey_def)
qed

lemma internal_key_roundtrip_and_order_witness:
  "\<exists>a b. AppendInternalKey [] \<lparr>user_key = [97], seqno = 5, vtype = 1\<rparr> = Some a \<and>
    AppendInternalKeyPtr \<lparr>user_key = [97], seqno = 3, vtype = 0\<rparr> = Some b \<and> InternalKey_Compare a b < 0"
  using internal_key_roundtrip_and_order [of 5 3 "[97]" kTypeValue "[97]" kTypeDeletion]
  by (auto simp: kMaxSequenceNumber_unat)

lemma common_prefix_same [simp]: "common_prefix k k = length k"
  by (induction k) auto

lemma FindShortestSeparator_same [simp]: "FindShortestSeparator k k = Some k"
  by (simp add: FindShortestSeparator_def)

lemma pack_seek:
  "PackSequenceAndType kMaxSequenceNumber (ucast (ValueType_value kValueTypeForSeek)) =
   Some (push_bit 8 kMaxSequenceNumber OR 1)"
  using PackSequenceAndType_eq [of kMaxSequenceNumber kTypeValue] by (simp add: kValueTypeForSeek_def)

lemma ikey_less_user: "bytes_less (ExtractUserKey a) (ExtractUserKey b) \<Longrightarrow> ikey_less a b"
  by (simp add: ikey_less_def)

lemma Compare_le: "InternalKey_Compare a b \<le> 0 \<longleftrightarrow> \<not> ikey_less b a"
  using InternalKey_Compare_simps(2) [of a b] by auto

lemma ikey_less_asym: "ikey_less a b \<Longrightarrow> \<not> ikey_less b a"
  using ikey_less_trans ikey_less_irrefl by blast

lemma Separator_ok:
  assumes lt: "ikey_less start limit" and ok: "8 \<le> length start"
  shows "\<exists>r. InternalKey_FindShortestSeparator start limit = Some r \<and> \<not> ikey_less r start \<and> ikey_less r limit \<and>
    length r \<le> length start"
proof -
  let ?u = "ExtractUserKey start" and ?l = "ExtractUserKey limit"
  obtain r where r: "FindShortestSeparator ?u ?l = Some r" "length r \<le> length ?u"
    "bytes_less ?u ?l \<Longrightarrow> bytes_less r ?l" "?u = ?l \<Longrightarrow> r = ?u"
    using lt FindShortestSeparator_ok [of ?u ?l] by (cases "?u = ?l") (auto simp: ikey_less_def)
  show ?thesis
  proof (cases "length r < length ?u \<and> bytes_less ?u r")
    case True
    then have u: "bytes_less ?u ?l" using lt r(4) by (auto simp: ikey_less_def)
    define tmp where "tmp = r @ EncodeFixed64 (push_bit 8 kMaxSequenceNumber OR 1)"
    have "ikey_less start tmp" "ikey_less tmp limit"
      using True r(3) [OF u] by (auto intro!: ikey_less_user simp: tmp_def)
    moreover have "length tmp \<le> length start" using True ok by (auto simp: tmp_def ExtractUserKey_def)
    ultimately show ?thesis
      using True r(1) ikey_less_asym [of start tmp]
      by (simp add: InternalKey_FindShortestSeparator_def pack_seek compare_simps InternalKey_Compare_simps
          PutFixed64_def Let_def flip: tmp_def)
  next
    case False
    then have "InternalKey_FindShortestSeparator start limit = Some start"
      using r(1) by (auto simp: InternalKey_FindShortestSeparator_def compare_simps Let_def)
    then show ?thesis using lt by simp
  qed
qed

lemma Successor_ok:
  assumes ok: "8 \<le> length key"
  shows "\<exists>u. InternalKey_FindShortSuccessor key = Some u \<and> \<not> ikey_less u key \<and> length u \<le> length key"
proof (cases "length (FindShortSuccessor (ExtractUserKey key)) < length (ExtractUserKey key) \<and>
    bytes_less (ExtractUserKey key) (FindShortSuccessor (ExtractUserKey key))")
  case True
  define tmp where "tmp = FindShortSuccessor (ExtractUserKey key) @
    EncodeFixed64 (push_bit 8 kMaxSequenceNumber OR 1)"
  have "ikey_less key tmp" using True by (auto intro!: ikey_less_user simp: tmp_def)
  moreover have "length tmp \<le> length key" using True ok by (auto simp: tmp_def ExtractUserKey_def)
  ultimately show ?thesis
    using True ikey_less_asym [of key tmp]
    by (simp add: InternalKey_FindShortSuccessor_def pack_seek compare_simps InternalKey_Compare_simps
        PutFixed64_def Let_def flip: tmp_def)
next
  case False
  then have "InternalKey_FindShortSuccessor key = Some key"
    by (auto simp: InternalKey_FindShortSuccessor_def compare_simps Let_def)
  then show ?thesis by simp
qed

text \<open>
  C36. Key shortening, bytewise and for internal keys: the assertions in the code hold, the separator lies
  between its two keys, the successor is not below its key, and neither is longer than the key.
\<close>

theorem key_shortening:
  assumes "InternalKey_Compare start limit < 0" and "internal_key_ok start" and "internal_key_ok limit"
    and "internal_key_ok key"
  shows "\<exists>r u. InternalKey_FindShortestSeparator start limit = Some r \<and>
    InternalKey_Compare start r \<le> 0 \<and> InternalKey_Compare r limit < 0 \<and> length r \<le> length start \<and>
    InternalKey_FindShortSuccessor key = Some u \<and> InternalKey_Compare key u \<le> 0 \<and> length u \<le> length key"
  using assms Separator_ok [of start limit] Successor_ok [of key]
  by (auto simp: InternalKey_Compare_simps Compare_le internal_key_ok_def)

lemma key_shortening_witness:
  "\<exists>r u. InternalKey_FindShortestSeparator (ikey [97, 98, 99] 7 kTypeValue) (ikey [97, 101] 3 kTypeValue) = Some r \<and>
    InternalKey_FindShortSuccessor (ikey [255, 98, 99] 7 kTypeValue) = Some u \<and> length r \<le> 11 \<and> length u \<le> 11"
  using key_shortening [of "ikey [97, 98, 99] 7 kTypeValue" "ikey [97, 101] 3 kTypeValue" "ikey [255, 98, 99] 7 kTypeValue"]
  by (auto simp: internal_key_ok_def InternalKey_Compare_ikey kMaxSequenceNumber_unat)

end
