(* ===== verification/Skiplist.thy ===== *)
theory Skiplist
  imports Prng Comparator
begin

text \<open>
  \<^verbatim>\<open>leveldb/skiplist.h\<close>: the sorted list with express lanes under the memtable. Nodes are never freed: a
  node pointer is its index in the arena \<open>sl_nodes\<close>, the head is node 0, \<open>None\<close> as a link is \<^verbatim>\<open>NULL\<close>.
  A node has a link for each of its levels. The searches are unbounded loops, modelled as partial
  functions: no value means a failed assertion, a read of a link that does not exist or a search that does
  not end. The abstraction is the sorted list of the keys.
\<close>

record 'k Node =
  n_key :: 'k
  n_next :: "nat option list"

record 'k SkipList =
  sl_nodes :: "'k Node list"
  max_height :: nat
  sl_rnd :: u32

definition kMaxHeight :: nat where
  "kMaxHeight = 12"

definition new_SkipList :: "'k \<Rightarrow> 'k SkipList" where
  "new_SkipList any_key =
     \<lparr>sl_nodes = [\<lparr>n_key = any_key, n_next = replicate kMaxHeight None\<rparr>], max_height = 1, sl_rnd = mk_Random 0xdeadbeef\<rparr>"

section \<open>Searches\<close>

definition node_key :: "'k SkipList \<Rightarrow> nat \<Rightarrow> 'k" where
  "node_key l x = n_key (sl_nodes l ! x)"

definition Node_Next :: "'k SkipList \<Rightarrow> nat \<Rightarrow> nat \<Rightarrow> nat option option" where
  "Node_Next l x level =
     (if x < length (sl_nodes l) \<and> level < length (n_next (sl_nodes l ! x))
      then Some (n_next (sl_nodes l ! x) ! level) else None)"

definition KeyIsAfterNode :: "('k \<Rightarrow> 'k \<Rightarrow> int) \<Rightarrow> 'k SkipList \<Rightarrow> 'k \<Rightarrow> nat option \<Rightarrow> bool" where
  "KeyIsAfterNode cmp l key n = (case n of None \<Rightarrow> False | Some x \<Rightarrow> cmp (node_key l x) key < 0)"

text \<open>\<open>prev\<close> is the array that \<^verbatim>\<open>Insert\<close> passes; \<open>None\<close> in it is an entry not yet written.\<close>

partial_function (option) find_greater_or_equal ::
  "('k \<Rightarrow> 'k \<Rightarrow> int) \<Rightarrow> 'k SkipList \<Rightarrow> 'k \<Rightarrow> nat \<Rightarrow> nat \<Rightarrow> nat option list \<Rightarrow> (nat option \<times> nat option list) option" where
  "find_greater_or_equal cmp l key x level prev =
     (case Node_Next l x level of
        None \<Rightarrow> None
      | Some nxt \<Rightarrow>
          if KeyIsAfterNode cmp l key nxt then find_greater_or_equal cmp l key (the nxt) level prev
          else if level = 0 then Some (nxt, prev[level := Some x])
          else find_greater_or_equal cmp l key x (level - 1) (prev[level := Some x]))"

definition FindGreaterOrEqual ::
  "('k \<Rightarrow> 'k \<Rightarrow> int) \<Rightarrow> 'k SkipList \<Rightarrow> 'k \<Rightarrow> (nat option \<times> nat option list) option" where
  "FindGreaterOrEqual cmp l key = find_greater_or_equal cmp l key 0 (max_height l - 1) (replicate kMaxHeight None)"

partial_function (option) find_less_than ::
  "('k \<Rightarrow> 'k \<Rightarrow> int) \<Rightarrow> 'k SkipList \<Rightarrow> 'k \<Rightarrow> nat \<Rightarrow> nat \<Rightarrow> nat option" where
  "find_less_than cmp l key x level =
     (if x \<noteq> 0 \<and> \<not> cmp (node_key l x) key < 0 then None
      else case Node_Next l x level of
        None \<Rightarrow> None
      | Some nxt \<Rightarrow>
          if nxt = None \<or> 0 \<le> cmp (node_key l (the nxt)) key
          then if level = 0 then Some x else find_less_than cmp l key x (level - 1)
          else find_less_than cmp l key (the nxt) level)"

definition FindLessThan :: "('k \<Rightarrow> 'k \<Rightarrow> int) \<Rightarrow> 'k SkipList \<Rightarrow> 'k \<Rightarrow> nat option" where
  "FindLessThan cmp l key = find_less_than cmp l key 0 (max_height l - 1)"

partial_function (option) find_last :: "'k SkipList \<Rightarrow> nat \<Rightarrow> nat \<Rightarrow> nat option" where
  "find_last l x level =
     (case Node_Next l x level of
        None \<Rightarrow> None
      | Some nxt \<Rightarrow>
          if nxt = None then if level = 0 then Some x else find_last l x (level - 1)
          else find_last l (the nxt) level)"

definition FindLast :: "'k SkipList \<Rightarrow> nat option" where
  "FindLast l = find_last l 0 (max_height l - 1)"

section \<open>Insertion\<close>

fun random_height :: "nat \<Rightarrow> u32 \<Rightarrow> nat \<Rightarrow> nat \<times> u32" where
  "random_height 0 rnd height = (height, rnd)"
| "random_height (Suc fuel) rnd height =
     (let rnd = Random_Next rnd in if rnd mod 4 = 0 then random_height fuel rnd (height + 1) else (height, rnd))"

text \<open>The loop runs while the height is below the maximum: at most eleven times.\<close>

definition RandomHeight :: "u32 \<Rightarrow> nat \<times> u32" where
  "RandomHeight rnd = random_height (kMaxHeight - 1) rnd 1"

definition set_next :: "'k Node list \<Rightarrow> nat \<Rightarrow> nat \<Rightarrow> nat option \<Rightarrow> 'k Node list" where
  "set_next ns x level v = ns[x := (ns ! x)\<lparr>n_next := (n_next (ns ! x))[level := v]\<rparr>]"

fun link_levels :: "nat list \<Rightarrow> nat option list \<Rightarrow> nat \<Rightarrow> 'k Node list \<Rightarrow> 'k Node list option" where
  "link_levels [] prev x ns = Some ns"
| "link_levels (i # is) prev x ns =
     (case prev ! i of
        None \<Rightarrow> None
      | Some p \<Rightarrow>
          (let ns = set_next ns x i (n_next (ns ! p) ! i); ns = set_next ns p i (Some x)
           in link_levels is prev x ns))"

definition fill_head :: "nat option list \<Rightarrow> nat \<Rightarrow> nat \<Rightarrow> nat option list" where
  "fill_head prev lo hi = map (\<lambda>i. if lo \<le> i \<and> i < hi then Some 0 else prev ! i) [0..<length prev]"

definition SkipList_Insert :: "('k \<Rightarrow> 'k \<Rightarrow> int) \<Rightarrow> 'k SkipList \<Rightarrow> 'k \<Rightarrow> 'k SkipList option" where
  "SkipList_Insert cmp l key =
     (case FindGreaterOrEqual cmp l key of
        None \<Rightarrow> None
      | Some (x, prev) \<Rightarrow>
          if x \<noteq> None \<and> cmp key (node_key l (the x)) = 0 then None
          else
            case RandomHeight (sl_rnd l) of (height, rnd) \<Rightarrow>
              let prev = (if max_height l < height then fill_head prev (max_height l) height else prev);
                  h = (if max_height l < height then height else max_height l);
                  x = length (sl_nodes l);
                  ns = sl_nodes l @ [\<lparr>n_key = key, n_next = replicate height None\<rparr>]
              in map_option (\<lambda>ns. \<lparr>sl_nodes = ns, max_height = h, sl_rnd = rnd\<rparr>) (link_levels [0..<height] prev x ns))"

definition SkipList_Contains :: "('k \<Rightarrow> 'k \<Rightarrow> int) \<Rightarrow> 'k SkipList \<Rightarrow> 'k \<Rightarrow> bool option" where
  "SkipList_Contains cmp l key =
     (case FindGreaterOrEqual cmp l key of
        None \<Rightarrow> None
      | Some (x, _) \<Rightarrow> Some (x \<noteq> None \<and> cmp key (node_key l (the x)) = 0))"

section \<open>Iterators\<close>

text \<open>An iterator is its node, \<open>None\<close> when it is not valid.\<close>

definition SL_Valid :: "nat option \<Rightarrow> bool" where
  "SL_Valid node \<longleftrightarrow> node \<noteq> None"

definition SL_key :: "'k SkipList \<Rightarrow> nat option \<Rightarrow> 'k option" where
  "SL_key l node = map_option (node_key l) node"

definition SL_Next :: "'k SkipList \<Rightarrow> nat option \<Rightarrow> nat option option" where
  "SL_Next l node = (case node of None \<Rightarrow> None | Some x \<Rightarrow> Node_Next l x 0)"

definition SL_Prev :: "('k \<Rightarrow> 'k \<Rightarrow> int) \<Rightarrow> 'k SkipList \<Rightarrow> nat option \<Rightarrow> nat option option" where
  "SL_Prev cmp l node =
     (case node of
        None \<Rightarrow> None
      | Some x \<Rightarrow> map_option (\<lambda>p. if p = 0 then None else Some p) (FindLessThan cmp l (node_key l x)))"

definition SL_Seek :: "('k \<Rightarrow> 'k \<Rightarrow> int) \<Rightarrow> 'k SkipList \<Rightarrow> 'k \<Rightarrow> nat option option" where
  "SL_Seek cmp l target = map_option fst (FindGreaterOrEqual cmp l target)"

definition SL_SeekToFirst :: "'k SkipList \<Rightarrow> nat option option" where
  "SL_SeekToFirst l = Node_Next l 0 0"

definition SL_SeekToLast :: "'k SkipList \<Rightarrow> nat option option" where
  "SL_SeekToLast l = map_option (\<lambda>p. if p = 0 then None else Some p) (FindLast l)"

section \<open>The invariant\<close>

definition tall :: "'k SkipList \<Rightarrow> nat \<Rightarrow> nat" where
  "tall l x = length (n_next (sl_nodes l ! x))"

text \<open>
  The nodes of level 0 are \<open>ns\<close>, in the order of their keys; at every level a node links to the next one
  that is tall enough.
\<close>

definition sl_inv :: "('k \<Rightarrow> 'k \<Rightarrow> int) \<Rightarrow> 'k SkipList \<Rightarrow> nat list \<Rightarrow> bool" where
  "sl_inv cmp l ns \<longleftrightarrow>
     0 < length (sl_nodes l) \<and> tall l 0 = kMaxHeight \<and> 1 \<le> max_height l \<and> max_height l \<le> kMaxHeight \<and>
     distinct (0 # ns) \<and> (\<forall>x \<in> set ns. x < length (sl_nodes l) \<and> 1 \<le> tall l x \<and> tall l x \<le> max_height l) \<and>
     sorted_wrt (\<lambda>x y. cmp (node_key l x) (node_key l y) < 0) ns \<and>
     (\<forall>P x R. 0 # ns = P @ x # R \<longrightarrow>
        (\<forall>level < tall l x. Node_Next l x level = Some (find (\<lambda>y. level < tall l y) R)))"

definition represents :: "('k \<Rightarrow> 'k \<Rightarrow> int) \<Rightarrow> 'k SkipList \<Rightarrow> 'k list \<Rightarrow> bool" where
  "represents cmp l ks \<longleftrightarrow> (\<exists>ns. sl_inv cmp l ns \<and> ks = map (node_key l) ns)"

text \<open>A strictly sorted list falls apart at any key.\<close>

definition before :: "('k \<Rightarrow> 'k \<Rightarrow> int) \<Rightarrow> 'k SkipList \<Rightarrow> 'k \<Rightarrow> nat list \<Rightarrow> nat list" where
  "before cmp l k ns = takeWhile (\<lambda>x. cmp (node_key l x) k < 0) ns"

definition from_on :: "('k \<Rightarrow> 'k \<Rightarrow> int) \<Rightarrow> 'k SkipList \<Rightarrow> 'k \<Rightarrow> nat list \<Rightarrow> nat list" where
  "from_on cmp l k ns = dropWhile (\<lambda>x. cmp (node_key l x) k < 0) ns"

text \<open>The last node before the key that reaches a level.\<close>

definition pred_at :: "'k SkipList \<Rightarrow> nat list \<Rightarrow> nat \<Rightarrow> nat" where
  "pred_at l lo level = last (filter (\<lambda>y. level < tall l y) (0 # lo))"

definition note_prev :: "'k SkipList \<Rightarrow> nat list \<Rightarrow> nat \<Rightarrow> nat option list \<Rightarrow> nat option list" where
  "note_prev l lo level prev = map (\<lambda>j. if j \<le> level then Some (pred_at l lo j) else prev ! j) [0..<length prev]"

lemma find_append: "find Q (xs @ ys) = (case find Q xs of None \<Rightarrow> find Q ys | Some x \<Rightarrow> Some x)"
  by (induction xs) auto

lemma find_SomeE:
  assumes "find Q xs = Some y"
  obtains us vs where "xs = us @ y # vs" "Q y" "\<forall>u \<in> set us. \<not> Q u"
proof -
  have "\<exists>us vs. xs = us @ y # vs \<and> Q y \<and> (\<forall>u \<in> set us. \<not> Q u)"
    using assms
  proof (induction xs)
    case (Cons x xs)
    show ?case
    proof (cases "Q x")
      case True
      then show ?thesis using Cons.prems by - (rule exI [of _ "[]"], rule exI [of _ xs], simp)
    next
      case False
      then obtain us vs where "xs = us @ y # vs" "Q y" "\<forall>u \<in> set us. \<not> Q u" using Cons by auto
      then show ?thesis using False by - (rule exI [of _ "x # us"], rule exI [of _ vs], simp)
    qed
  qed simp
  then show ?thesis using that by blast
qed

lemma pred_at_eq:
  assumes "0 # lo = P @ x # R" and "level < tall l x" and "find (\<lambda>y. level < tall l y) R = None"
  shows "pred_at l lo level = x"
proof -
  have "filter (\<lambda>y. level < tall l y) R = []" using assms(3) by (simp add: find_None_iff filter_empty_conv)
  then show ?thesis using assms by (simp add: pred_at_def)
qed

lemma inv_link:
  "sl_inv cmp l ns \<Longrightarrow> 0 # ns = P @ x # R \<Longrightarrow> level < tall l x \<Longrightarrow>
   Node_Next l x level = Some (find (\<lambda>y. level < tall l y) R)"
  unfolding sl_inv_def by blast

lemma note_prev_step:
  "level < length prev \<Longrightarrow> note_prev l lo level prev =
     (if level = 0 then prev[level := Some (pred_at l lo level)]
      else note_prev l lo (level - 1) (prev[level := Some (pred_at l lo level)]))"
  by (cases "level = 0"; intro nth_equalityI; simp add: note_prev_def)
    (auto simp: nth_list_update le_Suc_eq split: nat.splits)

text \<open>What the list asks of a comparator.\<close>

locale key_order =
  fixes cmp :: "'k \<Rightarrow> 'k \<Rightarrow> int"
  assumes cmp_trans: "cmp a b < 0 \<Longrightarrow> cmp b c < 0 \<Longrightarrow> cmp a c < 0"
    and cmp_flip: "0 < cmp a b \<longleftrightarrow> cmp b a < 0"
    and cmp_0: "cmp a b = 0 \<Longrightarrow> (cmp a c < 0 \<longleftrightarrow> cmp b c < 0) \<and> (cmp c a < 0 \<longleftrightarrow> cmp c b < 0)"
begin

lemma cmp_same [simp]: "cmp a a = 0"
  using cmp_flip [of a a] by linarith

lemma cmp_sym0: "cmp a b = 0 \<longleftrightarrow> cmp b a = 0"
  using cmp_flip [of a b] cmp_flip [of b a] by linarith

lemma cmp_le_trans: "cmp a b < 0 \<Longrightarrow> \<not> cmp c b < 0 \<Longrightarrow> cmp a c < 0"
proof (cases "cmp c b = 0")
  case True
  then show "cmp a b < 0 \<Longrightarrow> cmp a c < 0" using cmp_0 [of c b a] by simp
next
  case False
  then show "cmp a b < 0 \<Longrightarrow> \<not> cmp c b < 0 \<Longrightarrow> cmp a c < 0" using cmp_flip [of c b] cmp_trans [of a b c] by simp
qed

lemma before_from: "before cmp l k ns @ from_on cmp l k ns = ns"
  by (simp add: before_def from_on_def)

lemma in_before: "x \<in> set (before cmp l k ns) \<Longrightarrow> cmp (node_key l x) k < 0"
  by (auto simp: before_def dest: set_takeWhileD)

lemma in_from_on:
  "sorted_wrt (\<lambda>x y. cmp (node_key l x) (node_key l y) < 0) ns \<Longrightarrow> x \<in> set (from_on cmp l k ns) \<Longrightarrow>
   \<not> cmp (node_key l x) k < 0"
proof (induction ns)
  case (Cons y ns)
  show ?case
  proof (cases "cmp (node_key l y) k < 0")
    case True
    then show ?thesis using Cons by (simp add: from_on_def)
  next
    case False
    then have "x = y \<or> x \<in> set ns" using Cons.prems(2) by (simp add: from_on_def)
    moreover have "cmp (node_key l y) (node_key l x) < 0" if "x \<in> set ns" using Cons.prems(1) that by simp
    ultimately show ?thesis using False cmp_trans by blast
  qed
qed (simp add: from_on_def)

lemma find_ge_ok:
  assumes inv: "sl_inv cmp l ns"
  shows "0 # before cmp l key ns = P @ x # R \<Longrightarrow> level < tall l x \<Longrightarrow> level < length prev \<Longrightarrow>
    find_greater_or_equal cmp l key x level prev =
      Some (find (\<lambda>y. 0 < tall l y) (from_on cmp l key ns), note_prev l (before cmp l key ns) level prev)"
proof (induction "length R + level" arbitrary: P x R level prev rule: less_induct)
  case less
  let ?lo = "before cmp l key ns" and ?hi = "from_on cmp l key ns"
  have sorted: "sorted_wrt (\<lambda>x y. cmp (node_key l x) (node_key l y) < 0) ns" using inv by (simp add: sl_inv_def)
  have split: "0 # ns = P @ x # R @ ?hi" using less.prems(1) before_from [of l key ns] by (metis append_Cons append_assoc)
  have nxt: "Node_Next l x level = Some (find (\<lambda>y. level < tall l y) (R @ ?hi))"
    using inv_link [OF inv split less.prems(2)] .
  show ?case
  proof (cases "find (\<lambda>y. level < tall l y) R")
    case (Some y)
    then obtain us vs where R: "R = us @ y # vs" and y: "level < tall l y" by (rule find_SomeE)
    have "y \<in> set ?lo" using less.prems(1) R by (cases P) auto
    then have "KeyIsAfterNode cmp l key (Some y)" by (simp add: KeyIsAfterNode_def in_before)
    moreover have "find_greater_or_equal cmp l key y level prev =
        Some (find (\<lambda>y. 0 < tall l y) ?hi, note_prev l ?lo level prev)"
      by (rule less.hyps [of vs level "P @ x # us" y]) (use less.prems R y in auto)
    ultimately show ?thesis
      by (subst find_greater_or_equal.simps) (simp add: nxt find_append Some)
  next
    case None
    have pred: "pred_at l ?lo level = x" using pred_at_eq less.prems(1,2) None by blast
    have "\<not> KeyIsAfterNode cmp l key (find (\<lambda>y. level < tall l y) ?hi)"
    proof (cases "find (\<lambda>y. level < tall l y) ?hi")
      case (Some z)
      then have "z \<in> set ?hi" by (auto elim: find_SomeE)
      then show ?thesis using in_from_on [OF sorted] Some by (simp add: KeyIsAfterNode_def)
    qed (simp add: KeyIsAfterNode_def)
    then have step: "find_greater_or_equal cmp l key x level prev =
        (if level = 0 then Some (find (\<lambda>y. level < tall l y) ?hi, prev[level := Some x])
         else find_greater_or_equal cmp l key x (level - 1) (prev[level := Some x]))"
      by (subst find_greater_or_equal.simps) (simp add: nxt find_append None)
    show ?thesis
    proof (cases level)
      case 0
      then show ?thesis using step note_prev_step [OF less.prems(3), of l ?lo] pred by simp
    next
      case (Suc n)
      have "find_greater_or_equal cmp l key x n (prev[level := Some x]) =
          Some (find (\<lambda>y. 0 < tall l y) ?hi, note_prev l ?lo n (prev[level := Some x]))"
        by (rule less.hyps [of R n P x]) (use less.prems Suc in auto)
      then show ?thesis using step Suc note_prev_step [OF less.prems(3), of l ?lo] pred by simp
    qed
  qed
qed

lemma inv_heights: "sl_inv cmp l ns \<Longrightarrow> x \<in> set ns \<Longrightarrow> 0 < tall l x"
  by (auto simp: sl_inv_def)

lemma FindGreaterOrEqual_ok:
  assumes inv: "sl_inv cmp l ns"
  shows "\<exists>prev. FindGreaterOrEqual cmp l key =
      Some (case from_on cmp l key ns of [] \<Rightarrow> None | y # _ \<Rightarrow> Some y, prev) \<and>
    length prev = kMaxHeight \<and>
    (\<forall>j < max_height l. prev ! j = Some (pred_at l (before cmp l key ns) j))"
proof -
  have h: "max_height l - 1 < tall l 0" "1 \<le> max_height l" "tall l 0 = kMaxHeight"
    using inv by (auto simp: sl_inv_def kMaxHeight_def)
  have f: "find (\<lambda>y. 0 < tall l y) (from_on cmp l key ns) =
      (case from_on cmp l key ns of [] \<Rightarrow> None | y # _ \<Rightarrow> Some y)"
  proof (cases "from_on cmp l key ns")
    case (Cons y ys)
    then have "y \<in> set ns" using before_from [of l key ns] by (metis in_set_conv_decomp)
    then show ?thesis using inv_heights [OF inv] Cons by simp
  qed simp
  have "find_greater_or_equal cmp l key 0 (max_height l - 1) (replicate kMaxHeight None) =
      Some (find (\<lambda>y. 0 < tall l y) (from_on cmp l key ns),
        note_prev l (before cmp l key ns) (max_height l - 1) (replicate kMaxHeight None))"
    using find_ge_ok [OF inv, where key = key and P = "[]" and x = 0 and R = "before cmp l key ns"] h by simp
  then show ?thesis using h unfolding FindGreaterOrEqual_def f by (auto simp: note_prev_def)
qed

lemma find_lt_ok:
  assumes inv: "sl_inv cmp l ns"
  shows "0 # before cmp l key ns = P @ x # R \<Longrightarrow> level < tall l x \<Longrightarrow>
    find_less_than cmp l key x level = Some (last (0 # before cmp l key ns))"
proof (induction "length R + level" arbitrary: P x R level rule: less_induct)
  case less
  let ?lo = "before cmp l key ns" and ?hi = "from_on cmp l key ns"
  have sorted: "sorted_wrt (\<lambda>x y. cmp (node_key l x) (node_key l y) < 0) ns" using inv by (simp add: sl_inv_def)
  have split: "0 # ns = P @ x # R @ ?hi" using less.prems(1) before_from [of l key ns] by (metis append_Cons append_assoc)
  have nxt: "Node_Next l x level = Some (find (\<lambda>y. level < tall l y) (R @ ?hi))"
    using inv_link [OF inv split less.prems(2)] .
  have ass: "x = 0 \<or> cmp (node_key l x) key < 0"
    using less.prems(1) in_before [of x l key ns] by (cases P) auto
  show ?case
  proof (cases "find (\<lambda>y. level < tall l y) R")
    case (Some y)
    then obtain us vs where R: "R = us @ y # vs" and y: "level < tall l y" by (rule find_SomeE)
    have "y \<in> set ?lo" using less.prems(1) R by (cases P) auto
    then have "\<not> 0 \<le> cmp (node_key l y) key" using in_before [of y l key ns] by simp
    moreover have "find_less_than cmp l key y level = Some (last (0 # ?lo))"
      by (rule less.hyps [of vs level "P @ x # us" y]) (use less.prems R y in auto)
    ultimately show ?thesis
      using ass by (subst find_less_than.simps) (auto simp: nxt find_append Some)
  next
    case None
    have "find (\<lambda>y. level < tall l y) ?hi = None \<or> 0 \<le> cmp (node_key l (the (find (\<lambda>y. level < tall l y) ?hi))) key"
    proof (cases "find (\<lambda>y. level < tall l y) ?hi")
      case (Some z)
      then have "z \<in> set ?hi" by (auto elim: find_SomeE)
      then show ?thesis using in_from_on [OF sorted, of z key] Some by simp
    qed simp
    then have step: "find_less_than cmp l key x level =
        (if level = 0 then Some x else find_less_than cmp l key x (level - 1))"
      using ass nxt None by (subst find_less_than.simps) (cases "level = 0"; auto simp: find_append)
    show ?thesis
    proof (cases level)
      case 0
      have "R = []"
      proof (rule ccontr)
        assume "R \<noteq> []"
        then obtain y where "y \<in> set R" by (cases R) auto
        moreover from this have "y \<in> set ?lo" using less.prems(1) by (cases P) auto
        then have "y \<in> set ns" by (auto simp: before_def dest: set_takeWhileD)
        ultimately show False using None 0 inv_heights [OF inv, of y] by (auto simp: find_None_iff)
      qed
      then show ?thesis using step 0 less.prems(1) by simp
    next
      case (Suc n)
      have "find_less_than cmp l key x n = Some (last (0 # ?lo))"
        by (rule less.hyps [of R n P x]) (use less.prems Suc in auto)
      then show ?thesis using step Suc by simp
    qed
  qed
qed

lemma find_last_ok:
  assumes inv: "sl_inv cmp l ns"
  shows "0 # ns = P @ x # R \<Longrightarrow> level < tall l x \<Longrightarrow> find_last l x level = Some (last (0 # ns))"
proof (induction "length R + level" arbitrary: P x R level rule: less_induct)
  case less
  note nxt = inv_link [OF inv less.prems]
  show ?case
  proof (cases "find (\<lambda>y. level < tall l y) R")
    case (Some y)
    then obtain us vs where R: "R = us @ y # vs" and y: "level < tall l y" by (rule find_SomeE)
    have "find_last l y level = Some (last (0 # ns))"
      by (rule less.hyps [of vs level "P @ x # us" y]) (use less.prems R y in auto)
    then show ?thesis by (subst find_last.simps) (simp add: nxt Some)
  next
    case None
    show ?thesis
    proof (cases level)
      case 0
      have "R = []"
      proof (rule ccontr)
        assume "R \<noteq> []"
        then obtain y where "y \<in> set R" by (cases R) auto
        moreover have "y \<in> set ns" using less.prems(1) \<open>y \<in> set R\<close> by (cases P) auto
        ultimately show False using None 0 inv_heights [OF inv, of y] by (auto simp: find_None_iff)
      qed
      then show ?thesis using 0 less.prems(1) nxt by (subst find_last.simps) simp
    next
      case (Suc n)
      have "find_last l x n = Some (last (0 # ns))"
        by (rule less.hyps [of R n P x]) (use less.prems Suc in auto)
      then show ?thesis using Suc nxt None by (subst find_last.simps) simp
    qed
  qed
qed

lemma length_set_next [simp]: "length (set_next ns p i v) = length ns"
  by (simp add: set_next_def)

lemma tall_set_next [simp]:
  "x < length ns \<Longrightarrow> length (n_next (set_next ns p i v ! x)) = length (n_next (ns ! x))"
  "x < length ns \<Longrightarrow> n_key (set_next ns p i v ! x) = n_key (ns ! x)"
  by (cases "p = x"; simp add: set_next_def)+

text \<open>Linking the new node at the levels below its height.\<close>

lemma link_levels_ok:
  assumes "distinct is" and "x < length ns"
    and "\<forall>i \<in> set is. \<exists>p. prev ! i = Some p \<and> p \<noteq> x \<and> p < length ns \<and> i < length (n_next (ns ! p)) \<and>
      i < length (n_next (ns ! x))"
  shows "\<exists>ms. link_levels is prev x ns = Some ms \<and> length ms = length ns \<and>
    (\<forall>y < length ns. n_key (ms ! y) = n_key (ns ! y) \<and> length (n_next (ms ! y)) = length (n_next (ns ! y))) \<and>
    (\<forall>y j. y < length ns \<longrightarrow> j < length (n_next (ns ! y)) \<longrightarrow> n_next (ms ! y) ! j =
      (if j \<in> set is then
         if y = x then n_next (ns ! the (prev ! j)) ! j else if prev ! j = Some y then Some x else n_next (ns ! y) ! j
       else n_next (ns ! y) ! j))"
  using assms
proof (induction "is" arbitrary: ns)
  case Nil
  then show ?case by simp
next
  case (Cons i js)
  obtain p where p: "prev ! i = Some p" "p \<noteq> x" "p < length ns" "i < length (n_next (ns ! p))" "i < length (n_next (ns ! x))"
    using Cons.prems(3) by auto
  define os where "os = set_next (set_next ns x i (n_next (ns ! p) ! i)) p i (Some x)"
  have len: "length os = length ns" "y < length ns \<Longrightarrow> n_key (os ! y) = n_key (ns ! y)"
    "y < length ns \<Longrightarrow> length (n_next (os ! y)) = length (n_next (ns ! y))" for y
    by (simp_all add: os_def)
  have at: "n_next (os ! y) ! j = (if j = i then if y = x then n_next (ns ! p) ! i else if y = p then Some x else n_next (ns ! y) ! j
      else n_next (ns ! y) ! j)" if "y < length ns" "j < length (n_next (ns ! y))" for y j
    using that p(2,3) Cons.prems(2) by (auto simp: os_def set_next_def nth_list_update)
  have "\<exists>ms. link_levels js prev x os = Some ms \<and> length ms = length os \<and>
    (\<forall>y < length os. n_key (ms ! y) = n_key (os ! y) \<and> length (n_next (ms ! y)) = length (n_next (os ! y))) \<and>
    (\<forall>y j. y < length os \<longrightarrow> j < length (n_next (os ! y)) \<longrightarrow> n_next (ms ! y) ! j =
      (if j \<in> set js then
         if y = x then n_next (os ! the (prev ! j)) ! j else if prev ! j = Some y then Some x else n_next (os ! y) ! j
       else n_next (os ! y) ! j))"
    by (rule Cons.IH) (use Cons.prems len in auto)
  then obtain ms where ms: "link_levels js prev x os = Some ms" "length ms = length ns"
    "\<forall>y < length ns. n_key (ms ! y) = n_key (ns ! y) \<and> length (n_next (ms ! y)) = length (n_next (ns ! y))"
    "\<And>y j. y < length ns \<Longrightarrow> j < length (n_next (ns ! y)) \<Longrightarrow> n_next (ms ! y) ! j =
      (if j \<in> set js then
         if y = x then n_next (os ! the (prev ! j)) ! j else if prev ! j = Some y then Some x else n_next (os ! y) ! j
       else n_next (os ! y) ! j)"
    by (auto simp: len)
  have "link_levels (i # js) prev x ns = Some ms" using ms(1) p(1) by (simp add: os_def Let_def)
  moreover have "n_next (ms ! y) ! j =
      (if j \<in> set (i # js) then
         if y = x then n_next (ns ! the (prev ! j)) ! j else if prev ! j = Some y then Some x else n_next (ns ! y) ! j
       else n_next (ns ! y) ! j)" if y: "y < length ns" "j < length (n_next (ns ! y))" for y j
  proof (cases "j = i")
    case True
    then have "j \<notin> set js" using Cons.prems(1) by auto
    then show ?thesis using ms(4) [OF y] at [OF y] True p(1) by auto
  next
    case False
    have "n_next (os ! the (prev ! j)) ! j = n_next (ns ! the (prev ! j)) ! j" if js: "j \<in> set js"
    proof -
      obtain q where "prev ! j = Some q" "q < length ns" "j < length (n_next (ns ! q))" using bspec [OF Cons.prems(3), of j] js by auto
      then show ?thesis using at [of q j] False by simp
    qed
    then show ?thesis using ms(4) [OF y] at [OF y] False by auto
  qed
  ultimately show ?case using ms(2,3) by blast
qed

lemma random_height_bounds: "random_height f r h = (h', r') \<Longrightarrow> h \<le> h' \<and> h' \<le> h + f"
  by (induction f arbitrary: r h) (fastforce simp: Let_def split: if_splits)+

lemma RandomHeight_bounds: "RandomHeight r = (h, r') \<Longrightarrow> 1 \<le> h \<and> h \<le> kMaxHeight"
  unfolding RandomHeight_def by (drule random_height_bounds) (simp add: kMaxHeight_def)

lemma pred_at_props:
  assumes inv: "sl_inv cmp l ns" and lo: "ns = lo @ hi" and j: "j < kMaxHeight"
  shows "pred_at l lo j \<in> set (0 # lo)" "j < tall l (pred_at l lo j)"
    "max_height l \<le> j \<Longrightarrow> pred_at l lo j = 0" "pred_at l lo j < length (sl_nodes l)"
proof -
  let ?f = "filter (\<lambda>y. j < tall l y) (0 # lo)"
  have "?f \<noteq> []" using inv j by (simp add: sl_inv_def)
  then have m: "pred_at l lo j \<in> set ?f" unfolding pred_at_def by (rule last_in_set)
  then show "pred_at l lo j \<in> set (0 # lo)" and t: "j < tall l (pred_at l lo j)"
    by (auto split: if_splits)
  have "\<forall>x \<in> set lo. tall l x \<le> max_height l" using inv lo by (simp add: sl_inv_def)
  then show "max_height l \<le> j \<Longrightarrow> pred_at l lo j = 0"
    using t \<open>pred_at l lo j \<in> set (0 # lo)\<close> by fastforce
  show "pred_at l lo j < length (sl_nodes l)" using m inv lo by (auto simp: sl_inv_def split: if_splits)
qed

text \<open>The list after the links are set.\<close>

lemma insert_links:
  assumes inv: "sl_inv cmp l ns" and lo: "ns = lo @ hi"
    and h: "1 \<le> h" "h \<le> kMaxHeight"
    and prev: "length prev = kMaxHeight" "\<forall>j < h. prev ! j = Some (pred_at l lo j)"
  shows "\<exists>ms. link_levels [0..<h] prev (length (sl_nodes l)) (sl_nodes l @ [\<lparr>n_key = key, n_next = replicate h None\<rparr>]) = Some ms \<and>
    (let m = \<lparr>sl_nodes = ms, max_height = max h (max_height l), sl_rnd = r\<rparr> in
      length ms = Suc (length (sl_nodes l)) \<and>
      (\<forall>y < length (sl_nodes l). node_key m y = node_key l y \<and> tall m y = tall l y) \<and>
      node_key m (length (sl_nodes l)) = key \<and> tall m (length (sl_nodes l)) = h \<and>
      (\<forall>y < length (sl_nodes l). \<forall>j < tall l y. Node_Next m y j =
         (if j < h \<and> y = pred_at l lo j then Some (Some (length (sl_nodes l))) else Node_Next l y j)) \<and>
      (\<forall>j < h. Node_Next m (length (sl_nodes l)) j = Node_Next l (pred_at l lo j) j))"
proof -
  let ?n = "length (sl_nodes l)"
  let ?os = "sl_nodes l @ [\<lparr>n_key = key, n_next = replicate h None\<rparr>]"
  have p: "pred_at l lo j < ?n" "j < length (n_next (sl_nodes l ! pred_at l lo j))" if "j < h" for j
    using pred_at_props [OF inv lo, of j] that h by (auto simp: tall_def)
  have "\<forall>i \<in> set [0..<h]. \<exists>p. prev ! i = Some p \<and> p \<noteq> ?n \<and> p < length ?os \<and> i < length (n_next (?os ! p)) \<and>
      i < length (n_next (?os ! ?n))"
    using prev p by (fastforce simp: nth_append)
  from link_levels_ok [OF _ _ this]
  obtain ms where ms: "link_levels [0..<h] prev ?n ?os = Some ms" "length ms = Suc ?n"
    "\<forall>y < Suc ?n. n_key (ms ! y) = n_key (?os ! y) \<and> length (n_next (ms ! y)) = length (n_next (?os ! y))"
    "\<forall>y j. y < Suc ?n \<longrightarrow> j < length (n_next (?os ! y)) \<longrightarrow> n_next (ms ! y) ! j =
      (if j \<in> set [0..<h] then
         if y = ?n then n_next (?os ! the (prev ! j)) ! j else if prev ! j = Some y then Some ?n else n_next (?os ! y) ! j
       else n_next (?os ! y) ! j)"
    by auto
  define m where "m = \<lparr>sl_nodes = ms, max_height = max h (max_height l), sl_rnd = r\<rparr>"
  have old: "node_key m y = node_key l y \<and> tall m y = tall l y" if "y < ?n" for y
    using that ms(3) by (auto simp: node_key_def tall_def m_def nth_append)
  have new: "node_key m ?n = key" "tall m ?n = h"
    using ms(3) by (auto simp: node_key_def tall_def m_def)
  have nx: "Node_Next m y j = (if j < h \<and> y = pred_at l lo j then Some (Some ?n) else Node_Next l y j)"
    if "y < ?n" "j < tall l y" for y j
    using that ms(2) ms(3) ms(4) [rule_format, of y j] prev
    by (auto simp: Node_Next_def tall_def m_def nth_append)
  have nn: "Node_Next m ?n j = Node_Next l (pred_at l lo j) j" if "j < h" for j
    using that ms(2) ms(3) ms(4) [rule_format, of ?n j] prev p [OF that]
    by (auto simp: Node_Next_def m_def nth_append)
  show ?thesis using ms(1,2) old new nx nn by (auto simp: Let_def m_def)
qed

lemma find_cong_tall: "\<forall>y \<in> set R. tall m y = tall l y \<Longrightarrow> find (\<lambda>y. j < tall m y) R = find (\<lambda>y. j < tall l y) R"
  by (induction R) auto

lemma split_insert:
  assumes "0 # lo @ n # hi = P @ x # R"
  shows "(\<exists>R1. 0 # lo = P @ x # R1 \<and> R = R1 @ n # hi) \<or> (x = n \<and> P = 0 # lo \<and> R = hi) \<or>
    (\<exists>P2. hi = P2 @ x # R \<and> P = 0 # lo @ n # P2)"
proof -
  have "(0 # lo) @ n # hi = P @ x # R" using assms by simp
  then consider us where "0 # lo = P @ us" "us @ n # hi = x # R" | us where "(0 # lo) @ us = P" "n # hi = us @ x # R"
    unfolding append_eq_append_conv2 by blast
  then show ?thesis
  proof cases
    case 1
    then show ?thesis by (cases us) auto
  next
    case 2
    then show ?thesis by (cases us) auto
  qed
qed

lemma insert_inv:
  assumes inv: "sl_inv cmp l ns" and lo: "ns = lo @ hi"
    and below: "\<forall>x \<in> set lo. cmp (node_key l x) key < 0" and above: "\<forall>x \<in> set hi. cmp key (node_key l x) < 0"
    and h: "1 \<le> h" "h \<le> kMaxHeight" and hm: "max_height m = max h (max_height l)"
    and len: "length (sl_nodes m) = Suc (length (sl_nodes l))" and n: "n = length (sl_nodes l)"
    and old: "\<forall>y < n. node_key m y = node_key l y \<and> tall m y = tall l y"
    and new: "node_key m n = key" "tall m n = h"
    and nx: "\<forall>y < n. \<forall>j < tall l y. Node_Next m y j =
         (if j < h \<and> y = pred_at l lo j then Some (Some n) else Node_Next l y j)"
    and nn: "\<forall>j < h. Node_Next m n j = Node_Next l (pred_at l lo j) j"
  shows "sl_inv cmp m (lo @ n # hi)"
proof -
  have bnd: "\<forall>x \<in> set (0 # ns). x < n" and dist: "distinct (0 # ns)"
    using inv n by (auto simp: sl_inv_def)
  have links: "Node_Next m x j = Some (find (\<lambda>y. j < tall m y) R)"
    if split: "0 # lo @ n # hi = P @ x # R" and j: "j < tall m x" for P x R j
    using split_insert [OF split]
  proof (elim disjE exE conjE)
    fix R1
    assume R1: "0 # lo = P @ x # R1" and R: "R = R1 @ n # hi"
    have s: "0 # ns = P @ x # R1 @ hi" using R1 lo by simp
    have x: "x < n" and R1n: "\<forall>y \<in> set R1. y < n" and hin: "\<forall>y \<in> set hi. y < n" using bnd unfolding s by auto
    have jl: "j < tall l x" using j x old by simp
    have t1: "find (\<lambda>y. j < tall m y) R1 = find (\<lambda>y. j < tall l y) R1"
      and t2: "find (\<lambda>y. j < tall m y) hi = find (\<lambda>y. j < tall l y) hi"
      using R1n hin old by (auto intro!: find_cong_tall)
    note lk = inv_link [OF inv s jl]
    show ?thesis
    proof (cases "find (\<lambda>y. j < tall l y) R1")
      case None
      have "pred_at l lo j = x" using pred_at_eq [OF R1 jl None] .
      then show ?thesis using nx x jl lk None new(2) t1 t2 by (auto simp: R find_append)
    next
      case (Some z)
      then obtain us vs where "R1 = us @ z # vs" "j < tall l z" by (rule find_SomeE)
      then have "filter (\<lambda>y. j < tall l y) R1 \<noteq> []" by simp
      then have "pred_at l lo j = last (filter (\<lambda>y. j < tall l y) R1)"
        using R1 by (simp add: pred_at_def)
      then have "pred_at l lo j \<in> set R1"
        using \<open>filter (\<lambda>y. j < tall l y) R1 \<noteq> []\<close> last_in_set by fastforce
      then have "pred_at l lo j \<noteq> x" using dist unfolding s by auto
      then show ?thesis using nx x jl lk Some t1 by (auto simp: R find_append)
    qed
  next
    assume x: "x = n" and "P = 0 # lo" and R: "R = hi"
    then have jh: "j < h" using j new by simp
    define p where "p = pred_at l lo j"
    have "p \<in> set (0 # lo)" "j < tall l p" using pred_at_props [OF inv lo, of j] jh h by (auto simp: p_def)
    then obtain Q R1 where Q: "0 # lo = Q @ p # R1" "p \<notin> set R1" by (meson split_list_last)
    have s: "0 # ns = Q @ p # R1 @ hi" using Q lo by simp
    have "find (\<lambda>y. j < tall l y) R1 = None"
    proof (rule ccontr)
      assume "find (\<lambda>y. j < tall l y) R1 \<noteq> None"
      then obtain z where "find (\<lambda>y. j < tall l y) R1 = Some z" by auto
      then have "filter (\<lambda>y. j < tall l y) R1 \<noteq> []" by (auto elim!: find_SomeE)
      moreover have "p = last (filter (\<lambda>y. j < tall l y) (0 # lo))" by (simp only: p_def pred_at_def)
      ultimately have "p = last (filter (\<lambda>y. j < tall l y) R1)" unfolding Q(1) by (simp split: if_splits)
      then show False
        using Q(2) last_in_set [OF \<open>filter (\<lambda>y. j < tall l y) R1 \<noteq> []\<close>] by (metis filter_is_subset subsetD)
    qed
    moreover have "Node_Next l p j = Some (find (\<lambda>y. j < tall l y) (R1 @ hi))"
      using inv_link [OF inv s \<open>j < tall l p\<close>] .
    moreover have "find (\<lambda>y. j < tall m y) hi = find (\<lambda>y. j < tall l y) hi"
      using bnd lo old by (intro find_cong_tall) auto
    ultimately show ?thesis using nn jh x R by (simp add: find_append p_def)
  next
    fix P2
    assume hi: "hi = P2 @ x # R"
    have s: "0 # ns = (0 # lo @ P2) @ x # R" using lo hi by simp
    have x: "x < n" and Rn: "\<forall>y \<in> set R. y < n" using bnd unfolding s by auto
    have jl: "j < tall l x" using j x old by simp
    have "pred_at l lo j \<noteq> x" if "j < h"
      using pred_at_props(1) [OF inv lo, of j] that h dist unfolding s by auto
    moreover have "find (\<lambda>y. j < tall m y) R = find (\<lambda>y. j < tall l y) R"
      using Rn old by (auto intro!: find_cong_tall)
    ultimately show ?thesis using nx x jl inv_link [OF inv s jl] by auto
  qed
  have sorted: "sorted_wrt (\<lambda>x y. cmp (node_key m x) (node_key m y) < 0) (lo @ n # hi)"
  proof -
    have "sorted_wrt (\<lambda>x y. cmp (node_key l x) (node_key l y) < 0) (lo @ hi)" using inv lo by (simp add: sl_inv_def)
    then have "sorted_wrt (\<lambda>x y. cmp (node_key m x) (node_key m y) < 0) (lo @ hi)"
      by (rule sorted_wrt_mono_rel [rotated]) (use bnd lo old in auto)
    then show ?thesis using below above bnd lo old new by (auto simp: sorted_wrt_append)
  qed
  have inv': "0 < length (sl_nodes l)" "tall l 0 = kMaxHeight" "1 \<le> max_height l" "max_height l \<le> kMaxHeight"
    "\<forall>x \<in> set ns. x < n \<and> 1 \<le> tall l x \<and> tall l x \<le> max_height l"
    using inv n by (simp_all add: sl_inv_def)
  have "tall m 0 = kMaxHeight" "1 \<le> max_height m" "max_height m \<le> kMaxHeight" "0 < length (sl_nodes m)"
    using inv' old hm h n len by auto
  moreover have "distinct (0 # lo @ n # hi)" using dist bnd lo inv'(1) n by auto
  moreover have "\<forall>x \<in> set (lo @ n # hi). x < length (sl_nodes m) \<and> 1 \<le> tall m x \<and> tall m x \<le> max_height m"
  proof
    fix x assume "x \<in> set (lo @ n # hi)"
    then consider "x = n" | "x \<in> set ns" using lo by auto
    then show "x < length (sl_nodes m) \<and> 1 \<le> tall m x \<and> tall m x \<le> max_height m"
    proof cases
      case 1
      then show ?thesis using new h hm len n by simp
    next
      case 2
      then have "x < n \<and> 1 \<le> tall l x \<and> tall l x \<le> max_height l" using inv'(5) by blast
      then show ?thesis using old hm len n by auto
    qed
  qed
  ultimately show ?thesis
    unfolding sl_inv_def using links sorted by blast
qed

lemma fill_head_nth:
  "length (fill_head prev a b) = length prev"
  "j < length prev \<Longrightarrow> fill_head prev a b ! j = (if a \<le> j \<and> j < b then Some 0 else prev ! j)"
  by (simp_all add: fill_head_def)

text \<open>Insertion puts the key at its place.\<close>

lemma SkipList_Insert_ok:
  assumes inv: "sl_inv cmp l ns" and fresh: "\<forall>x \<in> set ns. cmp key (node_key l x) \<noteq> 0"
  shows "\<exists>m. SkipList_Insert cmp l key = Some m \<and>
    sl_inv cmp m (before cmp l key ns @ length (sl_nodes l) # from_on cmp l key ns) \<and>
    length (sl_nodes m) = Suc (length (sl_nodes l)) \<and> node_key m (length (sl_nodes l)) = key \<and>
    (\<forall>x < length (sl_nodes l). node_key m x = node_key l x)"
proof -
  let ?lo = "before cmp l key ns" and ?hi = "from_on cmp l key ns" and ?n = "length (sl_nodes l)"
  have lo: "ns = ?lo @ ?hi" by (simp add: before_from)
  have below: "\<forall>x \<in> set ?lo. cmp (node_key l x) key < 0" using in_before by blast
  have above: "\<forall>x \<in> set ?hi. cmp key (node_key l x) < 0"
  proof
    fix x assume x: "x \<in> set ?hi"
    have "\<not> cmp (node_key l x) key < 0" using in_from_on [OF _ x] inv by (simp add: sl_inv_def)
    moreover have "x \<in> set ns" using x by (subst lo) simp
    then have "cmp key (node_key l x) \<noteq> 0" using fresh by blast
    ultimately show "cmp key (node_key l x) < 0" using cmp_flip [of key "node_key l x"] by linarith
  qed
  obtain prev where fge: "FindGreaterOrEqual cmp l key = Some (case ?hi of [] \<Rightarrow> None | y # _ \<Rightarrow> Some y, prev)"
    and prev: "length prev = kMaxHeight" "\<forall>j < max_height l. prev ! j = Some (pred_at l ?lo j)"
    using FindGreaterOrEqual_ok [OF inv, of key] by blast
  obtain h r where hr: "RandomHeight (sl_rnd l) = (h, r)" by fastforce
  note hb = RandomHeight_bounds [OF hr]
  let ?prev = "if max_height l < h then fill_head prev (max_height l) h else prev"
  have prev': "length ?prev = kMaxHeight" "\<forall>j < h. ?prev ! j = Some (pred_at l ?lo j)"
    using prev hb pred_at_props(3) [OF inv lo] by (auto simp: fill_head_nth)
  from insert_links [OF inv lo _ _ prev', of key r] hb
  obtain ms where ms: "link_levels [0..<h] ?prev ?n (sl_nodes l @ [\<lparr>n_key = key, n_next = replicate h None\<rparr>]) = Some ms"
    and post: "let m = \<lparr>sl_nodes = ms, max_height = max h (max_height l), sl_rnd = r\<rparr> in
      length ms = Suc ?n \<and>
      (\<forall>y < ?n. node_key m y = node_key l y \<and> tall m y = tall l y) \<and>
      node_key m ?n = key \<and> tall m ?n = h \<and>
      (\<forall>y < ?n. \<forall>j < tall l y. Node_Next m y j =
         (if j < h \<and> y = pred_at l ?lo j then Some (Some ?n) else Node_Next l y j)) \<and>
      (\<forall>j < h. Node_Next m ?n j = Node_Next l (pred_at l ?lo j) j)"
    by blast
  define m where "m = \<lparr>sl_nodes = ms, max_height = max h (max_height l), sl_rnd = r\<rparr>"
  note post = post [unfolded Let_def, folded m_def]
  have "\<not> ((case ?hi of [] \<Rightarrow> None | y # _ \<Rightarrow> Some y) \<noteq> None \<and>
      cmp key (node_key l (the (case ?hi of [] \<Rightarrow> None | y # _ \<Rightarrow> Some y))) = 0)"
    using above by (auto split: list.splits)
  then have "SkipList_Insert cmp l key = Some m"
    using fge hr ms by (simp add: SkipList_Insert_def Let_def m_def max_def)
  moreover have "sl_inv cmp m (?lo @ ?n # ?hi)"
    by (rule insert_inv [OF inv lo below above _ _ _ _ refl]) (use post hb in \<open>auto simp: m_def\<close>)
  ultimately show ?thesis using post by (simp add: m_def)
qed

lemma sl_key_before:
  "map (node_key l) (before cmp l k ns) = takeWhile (\<lambda>x. cmp x k < 0) (map (node_key l) ns)"
  "map (node_key l) (from_on cmp l k ns) = dropWhile (\<lambda>x. cmp x k < 0) (map (node_key l) ns)"
  by (simp_all add: before_def from_on_def takeWhile_map dropWhile_map comp_def)

text \<open>A node of the list, and the nodes around it.\<close>

lemma inv_Next:
  assumes inv: "sl_inv cmp l ns" and i: "i < length ns"
  shows "SL_Next l (Some (ns ! i)) = Some (if Suc i < length ns then Some (ns ! Suc i) else None)"
proof -
  have s: "0 # ns = (0 # take i ns) @ ns ! i # drop (Suc i) ns" using id_take_nth_drop [OF i] by simp
  have t: "0 < tall l (ns ! i)" using inv_heights [OF inv] i by simp
  have "find (\<lambda>y. 0 < tall l y) (drop (Suc i) ns) = (if Suc i < length ns then Some (ns ! Suc i) else None)"
  proof (cases "Suc i < length ns")
    case True
    then show ?thesis using inv_heights [OF inv, of "ns ! Suc i"] by (simp flip: Cons_nth_drop_Suc)
  qed simp
  then show ?thesis using inv_link [OF inv s t] by (simp add: SL_Next_def)
qed

lemma inv_SeekToFirst:
  assumes inv: "sl_inv cmp l ns"
  shows "SL_SeekToFirst l = Some (case ns of [] \<Rightarrow> None | x # _ \<Rightarrow> Some x)"
proof -
  have "0 < tall l 0" using inv by (simp add: sl_inv_def kMaxHeight_def)
  then have "Node_Next l 0 0 = Some (find (\<lambda>y. 0 < tall l y) ns)"
    using inv_link [OF inv, of "[]" 0 ns 0] by simp
  moreover have "find (\<lambda>y. 0 < tall l y) ns = (case ns of [] \<Rightarrow> None | x # _ \<Rightarrow> Some x)"
    using inv_heights [OF inv] by (cases ns) auto
  ultimately show ?thesis by (simp add: SL_SeekToFirst_def)
qed

lemma inv_SeekToLast:
  assumes inv: "sl_inv cmp l ns"
  shows "SL_SeekToLast l = Some (if ns = [] then None else Some (last ns))"
proof -
  have "FindLast l = Some (last (0 # ns))"
    unfolding FindLast_def
    by (rule find_last_ok [OF inv, of "[]" 0 ns]) (use inv in \<open>auto simp: sl_inv_def\<close>)
  moreover have "0 \<notin> set ns" using inv by (simp add: sl_inv_def)
  then have "ns \<noteq> [] \<Longrightarrow> last ns \<noteq> 0" using last_in_set [of ns] by metis
  ultimately show ?thesis by (cases "ns = []") (simp_all add: SL_SeekToLast_def)
qed

lemma inv_Prev:
  assumes inv: "sl_inv cmp l ns" and i: "i < length ns"
  shows "SL_Prev cmp l (Some (ns ! i)) = Some (if i = 0 then None else Some (ns ! (i - 1)))"
proof -
  have sorted: "sorted_wrt (\<lambda>x y. cmp (node_key l x) (node_key l y) < 0) ns" using inv by (simp add: sl_inv_def)
  have s: "ns = take i ns @ ns ! i # drop (Suc i) ns" using id_take_nth_drop [OF i] .
  have "before cmp l (node_key l (ns ! i)) ns = take i ns"
  proof -
    have "\<forall>x \<in> set (take i ns). cmp (node_key l x) (node_key l (ns ! i)) < 0"
      using sorted i by (subst (asm) s) (simp add: sorted_wrt_append)
    then show ?thesis unfolding before_def by (subst s) (simp add: takeWhile_append2)
  qed
  moreover have "FindLessThan cmp l (node_key l (ns ! i)) = Some (last (0 # before cmp l (node_key l (ns ! i)) ns))"
    unfolding FindLessThan_def
    by (rule find_lt_ok [OF inv, where P = "[]"]) (use inv in \<open>auto simp: sl_inv_def\<close>)
  moreover have "last (take i ns) = ns ! (i - 1)" if "i \<noteq> 0"
    using i that by (subst last_conv_nth) auto
  moreover have "0 \<notin> set ns" using inv by (simp add: sl_inv_def)
  then have "ns ! (i - 1) \<noteq> 0" using i by (metis less_imp_diff_less nth_mem)
  moreover have "ns \<noteq> []" using i by auto
  ultimately show ?thesis using i by (cases "i = 0") (simp_all add: SL_Prev_def)
qed

lemma inv_Seek:
  assumes inv: "sl_inv cmp l ns"
  shows "SL_Seek cmp l k = Some (case from_on cmp l k ns of [] \<Rightarrow> None | y # _ \<Rightarrow> Some y)"
  using FindGreaterOrEqual_ok [OF inv, of k] by (auto simp: SL_Seek_def)

end

lemma represents_new: "represents cmp (new_SkipList k) []"
  unfolding represents_def
  by (rule exI [of _ "[]"])
    (auto simp: sl_inv_def new_SkipList_def tall_def kMaxHeight_def Node_Next_def Cons_eq_append_conv)

lemma represents_Insert:
  assumes "key_order cmp" and "represents cmp l ks" and "\<forall>k \<in> set ks. cmp key k \<noteq> 0"
  shows "\<exists>m. SkipList_Insert cmp l key = Some m \<and>
    represents cmp m (takeWhile (\<lambda>k. cmp k key < 0) ks @ key # dropWhile (\<lambda>k. cmp k key < 0) ks)"
proof -
  obtain ns where inv: "sl_inv cmp l ns" and ks: "ks = map (node_key l) ns"
    using assms(2) by (auto simp: represents_def)
  let ?lo = "before cmp l key ns" and ?hi = "from_on cmp l key ns" and ?n = "length (sl_nodes l)"
  have "\<forall>x \<in> set ns. cmp key (node_key l x) \<noteq> 0" using assms(3) ks by simp
  from key_order.SkipList_Insert_ok [OF assms(1) inv this]
  obtain m where m: "SkipList_Insert cmp l key = Some m" "sl_inv cmp m (?lo @ ?n # ?hi)" "node_key m ?n = key"
    "\<forall>x < ?n. node_key m x = node_key l x"
    by blast
  have "set ?lo \<subseteq> set ns" "set ?hi \<subseteq> set ns"
    using key_order.before_from [OF assms(1), of l key ns] by (metis Un_upper1 Un_upper2 set_append)+
  then have "\<forall>x \<in> set ?lo \<union> set ?hi. node_key m x = node_key l x" using m(4) inv by (auto simp: sl_inv_def)
  then have "map (node_key m) (?lo @ ?n # ?hi) = map (node_key l) ?lo @ key # map (node_key l) ?hi"
    using m(3) by simp
  then show ?thesis
    using m(1,2) key_order.sl_key_before [OF assms(1), of l key ns] unfolding represents_def ks by metis
qed

lemma represents_iterator:
  assumes "key_order cmp" and "represents cmp l ks"
  shows "\<exists>it. (\<forall>i. it i = None \<longleftrightarrow> length ks \<le> i) \<and>
    (\<forall>i \<in> {..<length ks}. SL_key l (it i) = Some (ks ! i) \<and> SL_Next l (it i) = Some (it (Suc i)) \<and>
       SL_Prev cmp l (it i) = Some (if i = 0 then None else it (i - 1))) \<and>
    SL_SeekToFirst l = Some (it 0) \<and> SL_SeekToLast l = Some (if ks = [] then None else it (length ks - 1)) \<and>
    (\<forall>k. SL_Seek cmp l k = Some (it (length (takeWhile (\<lambda>x. cmp x k < 0) ks))))"
proof -
  obtain ns where inv: "sl_inv cmp l ns" and ks: "ks = map (node_key l) ns"
    using assms(2) by (auto simp: represents_def)
  define it where "it i = (if i < length ns then Some (ns ! i) else None)" for i
  have "SL_Seek cmp l k = Some (it (length (takeWhile (\<lambda>x. cmp x k < 0) ks)))" for k
  proof -
    let ?lo = "before cmp l k ns" and ?hi = "from_on cmp l k ns"
    have s: "ns = ?lo @ ?hi" using key_order.before_from [OF assms(1), of l k ns] by simp
    have "it (length ?lo) = (case ?hi of [] \<Rightarrow> None | y # _ \<Rightarrow> Some y)"
      unfolding it_def by (subst (1 3) s) (cases ?hi; simp add: nth_append)
    moreover have "length (takeWhile (\<lambda>x. cmp x k < 0) ks) = length ?lo"
      using key_order.sl_key_before(1) [OF assms(1), of l k ns] ks by (metis length_map)
    ultimately show ?thesis using key_order.inv_Seek [OF assms(1) inv, of k] by simp
  qed
  moreover have "\<forall>i \<in> {..<length ks}. SL_key l (it i) = Some (ks ! i) \<and> SL_Next l (it i) = Some (it (Suc i)) \<and>
       SL_Prev cmp l (it i) = Some (if i = 0 then None else it (i - 1))"
    using key_order.inv_Next [OF assms(1) inv] key_order.inv_Prev [OF assms(1) inv]
    by (auto simp: it_def ks SL_key_def)
  moreover have "SL_SeekToFirst l = Some (it 0)"
    using key_order.inv_SeekToFirst [OF assms(1) inv] by (cases ns) (auto simp: it_def)
  moreover have "SL_SeekToLast l = Some (if ks = [] then None else it (length ks - 1))"
    using key_order.inv_SeekToLast [OF assms(1) inv] by (auto simp: it_def ks last_conv_nth)
  moreover have "\<forall>i. it i = None \<longleftrightarrow> length ks \<le> i" by (auto simp: it_def ks)
  ultimately show ?thesis by blast
qed

text \<open>
  C31. Insertion of a key that is not yet there returns, with none of its assertions failing and whatever
  height the generator draws, and puts the key at its place in the sorted list.
\<close>

theorem skiplist_Insert_sorted:
  assumes "key_order cmp" and "represents cmp l ks" and "\<forall>k \<in> set ks. cmp key k \<noteq> 0"
  shows "\<exists>m. SkipList_Insert cmp l key = Some m \<and>
    represents cmp m (takeWhile (\<lambda>k. cmp k key < 0) ks @ key # dropWhile (\<lambda>k. cmp k key < 0) ks)"
  using assms by (rule represents_Insert)

text \<open>
  C32. Iterators walk the sorted list: every position of the list is a position of an iterator, and the
  searches return (none of the unbounded loops runs forever) the positions that the interface promises.
\<close>

theorem skiplist_iterator:
  assumes "key_order cmp" and "represents cmp l ks"
  shows "\<exists>it. (\<forall>i. it i = None \<longleftrightarrow> length ks \<le> i) \<and>
    (\<forall>i \<in> {..<length ks}. SL_key l (it i) = Some (ks ! i) \<and> SL_Next l (it i) = Some (it (Suc i)) \<and>
       SL_Prev cmp l (it i) = Some (if i = 0 then None else it (i - 1))) \<and>
    SL_SeekToFirst l = Some (it 0) \<and> SL_SeekToLast l = Some (if ks = [] then None else it (length ks - 1)) \<and>
    (\<forall>k. SL_Seek cmp l k = Some (it (length (takeWhile (\<lambda>x. cmp x k < 0) ks))))"
  using assms by (rule represents_iterator)

section \<open>The orders of the store\<close>

interpretation bytes_order: key_order compare
  by unfold_locales (auto simp: compare_simps intro: bytes_less_trans)

interpretation ikey_order: key_order InternalKey_Compare
  by unfold_locales (auto simp: InternalKey_Compare_simps ikey_less_def intro: ikey_less_trans bytes_less_trans)

lemma skiplist_Insert_sorted_witness:
  "\<exists>m. SkipList_Insert compare (new_SkipList []) [7] = Some m \<and> represents compare m [[7]]"
  using skiplist_Insert_sorted [OF bytes_order.key_order_axioms represents_new [of compare "[]"], of "[7]"] by simp

lemma skiplist_iterator_witness:
  "\<exists>it. SL_SeekToFirst (new_SkipList ([] :: slice)) = Some (it 0) \<and> it (0 :: nat) = None"
proof -
  obtain it where "SL_SeekToFirst (new_SkipList ([] :: slice)) = Some (it 0)" "\<forall>i. it i = None \<longleftrightarrow> length ([] :: slice list) \<le> i"
    using skiplist_iterator [OF bytes_order.key_order_axioms represents_new [of compare "[]"]] by blast
  then show ?thesis by (intro exI [of _ it]) simp
qed

end
