(* ===== verification/Status.thy ===== *)
theory Status
  imports Prelude
begin

text \<open>
  \<^verbatim>\<open>pdlfs-common/status.h\<close> and \<^verbatim>\<open>status.cc\<close>. A status is either OK or an error code with a
  message; \<open>err_code\<close> and \<open>FromCode\<close> are how a status crosses the wire in an rpc reply, and
  \<open>kCodeString\<close> is the table \<open>ToString\<close> indexes. Messages are the concatenation the constructor
  builds from its two parts.
\<close>

datatype code =
    kOk | kNotFound | kAlreadyExists | kCorruption | kNotSupported | kInvalidArgument
  | kIOError | kBufferFull | kReadOnly | kWriteOnly | kDeadLocked | kOptimisticLockFailed
  | kTryAgain | kDisconnected | kAssertionFailed | kAccessDenied | kDirExpected
  | kFileExpected | kDirNotEmpty | kDirNotAllocated | kDirDisabled | kDirMarkedDeleted
  | kInvalidFileDescriptor | kTooManyOpens | kRange | kUnknownError

text \<open>The numeric values of the enumeration.\<close>

fun code_value :: "code \<Rightarrow> nat" where
  "code_value kOk = 0"
| "code_value kNotFound = 1"
| "code_value kAlreadyExists = 2"
| "code_value kCorruption = 3"
| "code_value kNotSupported = 4"
| "code_value kInvalidArgument = 5"
| "code_value kIOError = 6"
| "code_value kBufferFull = 7"
| "code_value kReadOnly = 8"
| "code_value kWriteOnly = 9"
| "code_value kDeadLocked = 10"
| "code_value kOptimisticLockFailed = 11"
| "code_value kTryAgain = 12"
| "code_value kDisconnected = 13"
| "code_value kAssertionFailed = 14"
| "code_value kAccessDenied = 15"
| "code_value kDirExpected = 16"
| "code_value kFileExpected = 17"
| "code_value kDirNotEmpty = 18"
| "code_value kDirNotAllocated = 19"
| "code_value kDirDisabled = 20"
| "code_value kDirMarkedDeleted = 21"
| "code_value kInvalidFileDescriptor = 22"
| "code_value kTooManyOpens = 23"
| "code_value kRange = 24"
| "code_value kUnknownError = 25"

definition kMaxCode :: nat where
  "kMaxCode = code_value kUnknownError - 1"

definition all_codes :: "code list" where
  "all_codes = [kOk, kNotFound, kAlreadyExists, kCorruption, kNotSupported, kInvalidArgument,
    kIOError, kBufferFull, kReadOnly, kWriteOnly, kDeadLocked, kOptimisticLockFailed,
    kTryAgain, kDisconnected, kAssertionFailed, kAccessDenied, kDirExpected, kFileExpected,
    kDirNotEmpty, kDirNotAllocated, kDirDisabled, kDirMarkedDeleted, kInvalidFileDescriptor,
    kTooManyOpens, kRange, kUnknownError]"

text \<open>
  \<^verbatim>\<open>state_ == NULL\<close> is \<open>Okay\<close>; otherwise the state holds a code other than \<open>kOk\<close> and the message.
\<close>

datatype status = Okay | Err code string

fun ok :: "status \<Rightarrow> bool" where
  "ok Okay = True"
| "ok (Err c m) = False"

fun status_code :: "status \<Rightarrow> code" where
  "status_code Okay = kOk"
| "status_code (Err c m) = c"

text \<open>The constructor joins a non-empty second message with a colon and a blank.\<close>

definition mk_status :: "code \<Rightarrow> string \<Rightarrow> string \<Rightarrow> status" where
  "mk_status c msg msg2 = Err c (msg @ (if msg2 = [] then [] else '': '' @ msg2))"

definition err_code :: "status \<Rightarrow> nat" where
  "err_code s = code_value (status_code s)"

text \<open>\<open>FromCode\<close> asserts that the code is a proper error code; \<open>None\<close> is the failed assertion.\<close>

definition FromCode :: "nat \<Rightarrow> status option" where
  "FromCode n = (if 0 < n \<and> n \<le> kMaxCode then Some (mk_status (all_codes ! n) [] []) else None)"

abbreviation IsNotFound :: "status \<Rightarrow> bool" where
  "IsNotFound s \<equiv> status_code s = kNotFound"

abbreviation IsDirExpected :: "status \<Rightarrow> bool" where
  "IsDirExpected s \<equiv> status_code s = kDirExpected"

abbreviation NotFound :: "string \<Rightarrow> status" where "NotFound m \<equiv> Err kNotFound m"
abbreviation AlreadyExists :: "string \<Rightarrow> status" where "AlreadyExists m \<equiv> Err kAlreadyExists m"
abbreviation Corruption :: "string \<Rightarrow> status" where "Corruption m \<equiv> Err kCorruption m"
abbreviation NotSupported :: "string \<Rightarrow> status" where "NotSupported m \<equiv> Err kNotSupported m"
abbreviation InvalidArgument :: "string \<Rightarrow> status" where "InvalidArgument m \<equiv> Err kInvalidArgument m"
abbreviation IOError :: "string \<Rightarrow> status" where "IOError m \<equiv> Err kIOError m"
abbreviation AssertionFailed :: "string \<Rightarrow> status" where "AssertionFailed m \<equiv> Err kAssertionFailed m"
abbreviation AccessDenied :: "string \<Rightarrow> status" where "AccessDenied m \<equiv> Err kAccessDenied m"
abbreviation DirExpected :: "string \<Rightarrow> status" where "DirExpected m \<equiv> Err kDirExpected m"
abbreviation FileExpected :: "string \<Rightarrow> status" where "FileExpected m \<equiv> Err kFileExpected m"

text \<open>
  The message table, as the compiler reads it: the entry of \<open>kTooManyOpens\<close> is not followed by a
  comma, so the two last literals are one.
\<close>

definition kCodeString :: "string list" where
  "kCodeString = [''OK'', ''Not found'', ''Already exists'', ''Corruption'', ''Not implemented'',
    ''Invalid argument'', ''IO error'', ''Buffer full'', ''Read only'', ''Write only'',
    ''Dead locked'', ''Optimistic lock failed'', ''Try again'', ''Disconnected'',
    ''Assertion failed'', ''Permission denied'', ''Dir expected'', ''File expected'',
    ''Dir not empty'', ''Dir not allocated'', ''Dir disabled'', ''Dir marked deleted'',
    ''Invalid file descriptor'', ''Too many open files'' @ ''Out of range'']"

text \<open>\<open>None\<close> is the read past the end of the table.\<close>

definition ToString :: "status \<Rightarrow> string option" where
  "ToString s = (case s of Okay \<Rightarrow> Some ''OK''
    | Err c m \<Rightarrow>
        if err_code s < length kCodeString
        then Some (if m = [] then kCodeString ! err_code s else kCodeString ! err_code s @ '': '' @ m)
        else None)"

section \<open>Properties\<close>

lemma ok_iff: "ok s \<longleftrightarrow> s = Okay"
  by (cases s) auto

lemma all_codes_nth [simp]: "all_codes ! code_value c = c"
  by (cases c) (simp_all add: all_codes_def)

lemma code_value_inject [simp]: "code_value c = code_value d \<longleftrightarrow> c = d"
  by (metis all_codes_nth)

lemma code_value_bound: "code_value c \<le> 25"
  by (cases c) simp_all

lemma code_value_0 [simp]: "code_value c = 0 \<longleftrightarrow> c = kOk"
  using code_value_inject [of c kOk] by (simp del: code_value_inject)

lemma err_code_simps [simp]: "err_code Okay = 0" "err_code (Err c m) = code_value c"
  by (simp_all add: err_code_def)

text \<open>The statuses the class can build: the constructor asserts that the code is not \<open>kOk\<close>.\<close>

definition valid_status :: "status \<Rightarrow> bool" where
  "valid_status s \<longleftrightarrow> (case s of Okay \<Rightarrow> True | Err c m \<Rightarrow> c \<noteq> kOk \<and> c \<noteq> kUnknownError)"

lemma err_code_0_iff: "valid_status s \<Longrightarrow> err_code s = 0 \<longleftrightarrow> ok s"
  by (cases s) (auto simp: valid_status_def)

text \<open>
  A proper error code is turned into the same code by \<open>err_code\<close> and \<open>FromCode\<close>: only the message is lost.
\<close>

lemma FromCode_err_code:
  assumes "c \<noteq> kOk" and "c \<noteq> kUnknownError"
  shows "FromCode (err_code (Err c m)) = Some (Err c [])"
  using assms by (cases c) (simp_all add: FromCode_def kMaxCode_def mk_status_def all_codes_def)

lemma err_code_less: "valid_status s \<Longrightarrow> err_code s < 25"
  by (cases s; cases "status_code s") (auto simp: valid_status_def)

text \<open>
  What \<^verbatim>\<open>ToString\<close> prints for the last two codes: the table of messages has lost a comma, so
  \<^verbatim>\<open>kTooManyOpens\<close> prints the message of both codes, and \<^verbatim>\<open>kRange\<close> reads past the end of the table.
  Every other code that a status can carry is inside the table.
\<close>

theorem ToString_lost_comma:
  "ToString (Err kTooManyOpens []) = Some ''Too many open filesOut of range'' \<and>
   (\<forall>m. ToString (Err kRange m) = None) \<and>
   (\<forall>s. valid_status s \<longrightarrow> (ToString s = None \<longleftrightarrow> (\<exists>m. s = Err kRange m)))"
proof (intro conjI allI impI)
  show "ToString (Err kTooManyOpens []) = Some ''Too many open filesOut of range''"
    by (simp add: ToString_def kCodeString_def)
  have none: "ToString (Err kRange m) = None" for m by (simp add: ToString_def kCodeString_def)
  show "ToString (Err kRange m) = None" for m by (rule none)
  have "code_value c < length kCodeString \<or> c = kRange \<or> c = kUnknownError" for c
    by (cases c) (simp_all add: kCodeString_def)
  then show "ToString s = None \<longleftrightarrow> (\<exists>m. s = Err kRange m)" if "valid_status s" for s
    using that none by (cases s) (auto simp: ToString_def valid_status_def split: if_splits)
qed

lemma ToString_lost_comma_witness:
  "valid_status (Err kNotFound ''x'') \<and> (ToString (Err kNotFound ''x'') = None \<longleftrightarrow> (\<exists>m. Err kNotFound ''x'' = Err kRange m))"
proof -
  have v: "valid_status (Err kNotFound ''x'')" by (simp add: valid_status_def)
  with ToString_lost_comma show ?thesis by blast
qed

end
