(* ===== verification/Write_Batch.thy ===== *)
theory Write_Batch
  imports Comparator Status
begin

text \<open>
  \<^verbatim>\<open>leveldb/db/write_batch.cc\<close>: a group of updates in one string, \<^verbatim>\<open>rep_\<close>: eight bytes of sequence
  number, four of count and the records. A handler (\<^verbatim>\<open>WriteBatch::Handler\<close>) is the pair of its two
  methods on its state; \<open>Iterate\<close> returns the state the handler ends in, also when it fails.
\<close>

type_synonym WriteBatch = slice

record 'h Handler =
  h_Put :: "slice \<Rightarrow> slice \<Rightarrow> 'h \<Rightarrow> 'h"
  h_Delete :: "slice \<Rightarrow> 'h \<Rightarrow> 'h"

definition kHeader :: nat where
  "kHeader = 12"

definition WB_Clear :: "WriteBatch" where
  "WB_Clear = replicate kHeader 0"

text \<open>\<^verbatim>\<open>Count\<close> is the signed reading of the field.\<close>

definition WB_Count :: "WriteBatch \<Rightarrow> int" where
  "WB_Count b = sint (DecodeFixed32 (drop 8 b))"

definition overwrite :: "slice \<Rightarrow> nat \<Rightarrow> slice \<Rightarrow> slice" where
  "overwrite b off x = take off b @ x @ drop (off + length x) b"

definition WB_SetCount :: "WriteBatch \<Rightarrow> int \<Rightarrow> WriteBatch" where
  "WB_SetCount b n = overwrite b 8 (EncodeFixed32 (word_of_int n))"

definition WB_Sequence :: "WriteBatch \<Rightarrow> u64" where
  "WB_Sequence b = DecodeFixed64 b"

definition WB_SetSequence :: "WriteBatch \<Rightarrow> u64 \<Rightarrow> WriteBatch" where
  "WB_SetSequence b s = overwrite b 0 (EncodeFixed64 s)"

definition WB_Put :: "WriteBatch \<Rightarrow> slice \<Rightarrow> slice \<Rightarrow> WriteBatch" where
  "WB_Put b key value =
     (let b = WB_SetCount b (WB_Count b + 1); b = b @ [ucast (ValueType_value kTypeValue)];
          b = PutLengthPrefixedSlice b key
      in PutLengthPrefixedSlice b value)"

definition WB_Delete :: "WriteBatch \<Rightarrow> slice \<Rightarrow> WriteBatch" where
  "WB_Delete b key =
     (let b = WB_SetCount b (WB_Count b + 1); b = b @ [ucast (ValueType_value kTypeDeletion)]
      in PutLengthPrefixedSlice b key)"

definition WB_Append :: "WriteBatch \<Rightarrow> WriteBatch \<Rightarrow> WriteBatch option" where
  "WB_Append dst src =
     (let dst = WB_SetCount dst (WB_Count dst + WB_Count src)
      in if kHeader \<le> length src then Some (dst @ drop kHeader src) else None)"

definition WB_SetContents :: "slice \<Rightarrow> WriteBatch option" where
  "WB_SetContents contents = (if kHeader \<le> length contents then Some contents else None)"

text \<open>The loop of \<^verbatim>\<open>Iterate\<close>: every record takes at least its tag off the input.\<close>

function Iterate_loop :: "'h Handler \<Rightarrow> slice \<Rightarrow> int \<Rightarrow> 'h \<Rightarrow> status \<times> int \<times> 'h" where
  "Iterate_loop handler [] found h = (Okay, found, h)"
| "Iterate_loop handler (tag # input) found h =
     (if tag = ucast (ValueType_value kTypeValue) then
        (case GetLengthPrefixedSlice input of
           None \<Rightarrow> (Corruption ''bad WriteBatch Put'', found + 1, h)
         | Some (key, input') \<Rightarrow>
             (case GetLengthPrefixedSlice input' of
                None \<Rightarrow> (Corruption ''bad WriteBatch Put'', found + 1, h)
              | Some (val, input'') \<Rightarrow> Iterate_loop handler input'' (found + 1) (h_Put handler key val h)))
      else if tag = ucast (ValueType_value kTypeDeletion) then
        (case GetLengthPrefixedSlice input of
           None \<Rightarrow> (Corruption ''bad WriteBatch Delete'', found + 1, h)
         | Some (key, input') \<Rightarrow> Iterate_loop handler input' (found + 1) (h_Delete handler key h))
      else (Corruption ''unknown WriteBatch tag'', found + 1, h))"
  by pat_completeness auto
termination
  by (relation "measure (\<lambda>(_, input, _). length input)")
    (auto dest!: lpslice_reader.dec_shorter)

declare Iterate_loop.simps(2) [simp del]

definition WB_Iterate :: "'h Handler \<Rightarrow> WriteBatch \<Rightarrow> 'h \<Rightarrow> status \<times> 'h" where
  "WB_Iterate handler b h =
     (if length b < kHeader then (Corruption ''malformed WriteBatch (too small)'', h)
      else
        case Iterate_loop handler (remove_prefix kHeader b) 0 h of (s, found, h) \<Rightarrow>
          if \<not> ok s then (s, h)
          else if found \<noteq> WB_Count b then (Corruption ''WriteBatch has wrong count'', h)
          else (Okay, h))"

section \<open>What a batch holds\<close>

datatype update = UPut slice slice | UDelete slice

fun update_ok :: "update \<Rightarrow> bool" where
  "update_ok (UPut k v) \<longleftrightarrow> length k < 2 ^ 32 \<and> length v < 2 ^ 32"
| "update_ok (UDelete k) \<longleftrightarrow> length k < 2 ^ 32"

fun update_bytes :: "update \<Rightarrow> slice" where
  "update_bytes (UPut k v) = 1 # EncodeLengthPrefixedSlice k @ EncodeLengthPrefixedSlice v"
| "update_bytes (UDelete k) = 0 # EncodeLengthPrefixedSlice k"

fun handle :: "'h Handler \<Rightarrow> 'h \<Rightarrow> update \<Rightarrow> 'h" where
  "handle handler h (UPut k v) = h_Put handler k v h"
| "handle handler h (UDelete k) = h_Delete handler k h"

fun WB_apply :: "WriteBatch \<Rightarrow> update \<Rightarrow> WriteBatch" where
  "WB_apply b (UPut k v) = WB_Put b k v"
| "WB_apply b (UDelete k) = WB_Delete b k"

text \<open>The batch that holds the updates \<open>us\<close> and has the sequence number \<open>s\<close>.\<close>

definition batch_of :: "u64 \<Rightarrow> update list \<Rightarrow> WriteBatch" where
  "batch_of s us = EncodeFixed64 s @ EncodeFixed32 (word_of_nat (length us)) @ concat (map update_bytes us)"

lemma sint_of_nat_small: "n < 2 ^ 31 \<Longrightarrow> sint (word_of_nat n :: u32) = int n"
  using signed_take_bit_int_eq_self [of 31 "int n"] 
  by (simp add: signed_of_nat)

lemma WB_Count_batch_of:
  "length us < 2 ^ 31 \<Longrightarrow> WB_Count (batch_of s us) = int (length us)"
  by (simp add: WB_Count_def batch_of_def codec_simps sint_of_nat_small)

lemma WB_SetCount_batch:
  "WB_SetCount (EncodeFixed64 s @ EncodeFixed32 c @ r) n = EncodeFixed64 s @ EncodeFixed32 (word_of_int n) @ r"
  by (simp add: WB_SetCount_def overwrite_def)

lemma WB_apply_batch_of:
  assumes "length us < 2 ^ 31"
  shows "WB_apply (batch_of s us) u = batch_of s (us @ [u])"
  using WB_Count_batch_of [OF assms, of s]
  by (cases u) (simp_all add: WB_Put_def WB_Delete_def Let_def PutLengthPrefixedSlice_eq batch_of_def WB_SetCount_batch
      add.commute)

lemma WB_Clear_batch_of: "WB_Clear = batch_of 0 []"
  by (simp add: WB_Clear_def kHeader_def batch_of_def EncodeFixed64_def EncodeFixed32_def eval_nat_numeral)

lemma WB_SetSequence_batch_of: "WB_SetSequence (batch_of s us) t = batch_of t us"
  by (simp add: WB_SetSequence_def overwrite_def batch_of_def)

lemma WB_Sequence_batch_of: "WB_Sequence (batch_of s us) = s"
  by (simp add: WB_Sequence_def batch_of_def codec_simps)

lemma Iterate_loop_updates:
  "list_all update_ok us \<Longrightarrow>
   Iterate_loop handler (concat (map update_bytes us)) found h =
     (Okay, found + int (length us), foldl (handle handler) h us)"
proof (induction us arbitrary: found h)
  case Nil
  show ?case by simp
next
  case (Cons u us)
  then show ?case by (cases u) (simp_all add: Iterate_loop.simps(2) codec_simps)
qed

lemma WB_Iterate_batch_of:
  assumes "list_all update_ok us" and "length us < 2 ^ 31"
  shows "WB_Iterate handler (batch_of s us) h = (Okay, foldl (handle handler) h us)"
proof -
  have "remove_prefix kHeader (batch_of s us) = concat (map update_bytes us)"
    by (simp add: remove_prefix_def kHeader_def batch_of_def)
  moreover have "\<not> length (batch_of s us) < kHeader" by (simp add: batch_of_def kHeader_def)
  ultimately show ?thesis
    using Iterate_loop_updates [OF assms(1), of handler 0 h] WB_Count_batch_of [OF assms(2), of s]
    by (simp add: WB_Iterate_def)
qed

lemma foldl_WB_apply:
  "length us + length vs < 2 ^ 31 \<Longrightarrow> foldl WB_apply (batch_of s us) vs = batch_of s (us @ vs)"
  by (induction vs arbitrary: us) (simp_all add: WB_apply_batch_of)

lemma WB_Append_batch_of:
  assumes "length us + length vs < 2 ^ 31"
  shows "WB_Append (batch_of s us) (batch_of t vs) = Some (batch_of s (us @ vs))"
proof -
  have l: "length us < 2 ^ 31" "length vs < 2 ^ 31" using assms by linarith+
  have "drop kHeader (batch_of t vs) = concat (map update_bytes vs)" "kHeader \<le> length (batch_of t vs)"
    by (simp_all add: kHeader_def batch_of_def)
  then show ?thesis
    using WB_Count_batch_of [OF l(1), of s] WB_Count_batch_of [OF l(2), of t]
    by (simp add: WB_Append_def Let_def) (simp add: batch_of_def WB_SetCount_batch)
qed

text \<open>
  C34. A batch built from any updates whose keys and values fit their 32-bit length fields replays exactly
  these updates, in their order, and succeeds; appending another batch replays both, one after the other;
  the sequence number is the one that was set.
\<close>

theorem write_batch_replays:
  assumes "list_all update_ok us" and "list_all update_ok vs" and "length us + length vs < 2 ^ 31"
  shows "\<exists>b. WB_Append (WB_SetSequence (foldl WB_apply WB_Clear us) s) (foldl WB_apply WB_Clear vs) = Some b \<and>
    WB_Iterate handler b h = (Okay, foldl (handle handler) h (us @ vs)) \<and>
    WB_Sequence b = s \<and> WB_Count b = int (length us + length vs)"
proof -
  have "foldl WB_apply WB_Clear us = batch_of 0 us" "foldl WB_apply WB_Clear vs = batch_of 0 vs"
    using assms(3) foldl_WB_apply [of "[]"] by (simp_all add: WB_Clear_batch_of)
  then show ?thesis
    using WB_Append_batch_of [OF assms(3), of s 0] WB_Iterate_batch_of [of "us @ vs" handler s h]
      WB_Count_batch_of [of "us @ vs" s] assms
    by (simp add: WB_SetSequence_batch_of WB_Sequence_batch_of)
qed

lemma write_batch_replays_witness:
  "\<exists>b. WB_Append (WB_SetSequence (WB_Delete (WB_Put WB_Clear [1] [2, 3]) [1]) 9) (WB_Put WB_Clear [7] []) = Some b \<and>
    WB_Sequence b = 9 \<and> WB_Count b = 3"
  using write_batch_replays [where us = "[UPut [1] [2, 3], UDelete [1]]" and vs = "[UPut [7] []]" and s = 9
      and handler = "\<lparr>h_Put = \<lambda>k v h. h, h_Delete = \<lambda>k h. h\<rparr>" and h = "()"]
  by auto

text \<open>A batch with a wrong count is reported, but only after its updates were handled.\<close>

lemma WB_Iterate_wrong_count:
  assumes "list_all update_ok us" and "sint (n :: u32) \<noteq> int (length us)"
  shows "WB_Iterate handler (EncodeFixed64 s @ EncodeFixed32 n @ concat (map update_bytes us)) h =
    (Corruption ''WriteBatch has wrong count'', foldl (handle handler) h us)"
  using Iterate_loop_updates [OF assms(1), of handler 0 h] assms(2)
  by (simp add: WB_Iterate_def kHeader_def remove_prefix_def WB_Count_def codec_simps)

end
