(* ===== verification/Memtable.thy ===== *)
theory Memtable
  imports Skiplist Write_Batch
begin

text \<open>
  \<^verbatim>\<open>leveldb/db/memtable.cc\<close>: the table of the newest writes, a skip list of encoded entries (length-prefixed
  internal key, length-prefixed value) in the order of their internal keys. A pointer to an entry is the
  entry's bytes. \<open>None\<close> is a failed assertion, a read past an entry or a search that does not end. The arena
  and the reference count only manage memory.
\<close>

type_synonym MemTable = "slice SkipList"

text \<open>The pointer variant of the routine: the length, then that many bytes.\<close>

definition Mem_GetLengthPrefixedSlice :: "slice \<Rightarrow> (slice \<times> slice) option" where
  "Mem_GetLengthPrefixedSlice data =
     (case GetVarint32Ptr data of
        None \<Rightarrow> None
      | Some (len, p) \<Rightarrow> if unat len \<le> length p then Some (take (unat len) p, drop (unat len) p) else None)"

definition mem_key :: "slice \<Rightarrow> slice" where
  "mem_key data = fst (the (Mem_GetLengthPrefixedSlice data))"

definition Mem_KeyComparator :: "slice \<Rightarrow> slice \<Rightarrow> int" where
  "Mem_KeyComparator aptr bptr = InternalKey_Compare (mem_key aptr) (mem_key bptr)"

definition Mem_EncodeKey :: "slice \<Rightarrow> slice" where
  "Mem_EncodeKey target = PutVarint32 [] (word_of_nat (length target)) @ target"

definition new_MemTable :: MemTable where
  "new_MemTable = new_SkipList []"

definition MemTable_Add :: "MemTable \<Rightarrow> u64 \<Rightarrow> ValueType \<Rightarrow> slice \<Rightarrow> slice \<Rightarrow> MemTable option" where
  "MemTable_Add mem s type key val =
     (let key_size = length key; val_size = length val; internal_key_size = key_size + 8;
          encoded_len = VarintLength (word_of_nat internal_key_size) + internal_key_size +
                        VarintLength (word_of_nat val_size) + val_size;
          buf = EncodeVarint32 (word_of_nat internal_key_size) @ key @
                EncodeFixed64 (push_bit 8 s OR ValueType_value type) @ EncodeVarint32 (word_of_nat val_size) @ val
      in if length buf = encoded_len then SkipList_Insert Mem_KeyComparator mem buf else None)"

text \<open>
  \<^verbatim>\<open>Get\<close>: whether the table knows the key, what is put into the buffer (at most \<open>limit\<close> bytes) and the
  status, which is set only for a deletion.
\<close>

definition MemTable_Get :: "MemTable \<Rightarrow> LookupKey \<Rightarrow> nat \<Rightarrow> (bool \<times> slice option \<times> status) option" where
  "MemTable_Get mem key limit =
     (let memkey = lk_memtable_key key
      in case SL_Seek Mem_KeyComparator mem memkey of
           None \<Rightarrow> None
         | Some None \<Rightarrow> Some (False, None, Okay)
         | Some (Some x) \<Rightarrow>
             (let entry = node_key mem x
              in case GetVarint32Ptr entry of
                   None \<Rightarrow> None
                 | Some (key_length, key_ptr) \<Rightarrow>
                     if compare (take (unat key_length - 8) key_ptr) (lk_user_key key) = 0 then
                       (let tag = DecodeFixed64 (drop (unat key_length - 8) key_ptr);
                            ty = (ucast (tag AND 0xff) :: byte)
                        in if ty = ucast (ValueType_value kTypeValue) then
                             map_option (\<lambda>(v, _). (True, Some (take (min (length v) limit) v), Okay))
                               (Mem_GetLengthPrefixedSlice (drop (unat key_length) key_ptr))
                           else if ty = ucast (ValueType_value kTypeDeletion) then Some (True, None, NotFound '''')
                           else Some (False, None, Okay))
                     else Some (False, None, Okay)))"

text \<open>The iterator of the table: the key and the value of the entry it is at.\<close>

definition MemTableIterator_key :: "MemTable \<Rightarrow> nat \<Rightarrow> slice" where
  "MemTableIterator_key mem x = mem_key (node_key mem x)"

definition MemTableIterator_value :: "MemTable \<Rightarrow> nat \<Rightarrow> slice" where
  "MemTableIterator_value mem x = mem_key (snd (the (Mem_GetLengthPrefixedSlice (node_key mem x))))"

definition MemTableIterator_Seek :: "MemTable \<Rightarrow> slice \<Rightarrow> nat option option" where
  "MemTableIterator_Seek mem k = SL_Seek Mem_KeyComparator mem (Mem_EncodeKey k)"

text \<open>\<^verbatim>\<open>MemTableInserter\<close>, the handler that replays a batch into the table.\<close>

record MemTableInserter =
  mi_sequence :: u64
  mi_mem :: "MemTable option"

definition inserter_add :: "ValueType \<Rightarrow> slice \<Rightarrow> slice \<Rightarrow> MemTableInserter \<Rightarrow> MemTableInserter" where
  "inserter_add type key val i =
     i\<lparr>mi_mem := Option.bind (mi_mem i) (\<lambda>m. MemTable_Add m (mi_sequence i) type key val), mi_sequence := mi_sequence i + 1\<rparr>"

definition inserter :: "MemTableInserter Handler" where
  "inserter = \<lparr>h_Put = inserter_add kTypeValue, h_Delete = (\<lambda>key. inserter_add kTypeDeletion key [])\<rparr>"

definition InsertInto :: "WriteBatch \<Rightarrow> MemTable \<Rightarrow> status \<times> MemTable option" where
  "InsertInto b memtable =
     (case WB_Iterate inserter b \<lparr>mi_sequence = WB_Sequence b, mi_mem = Some memtable\<rparr> of (s, i) \<Rightarrow> (s, mi_mem i))"

section \<open>The entries of a table\<close>

record entry =
  en_key :: slice
  en_seq :: u64
  en_type :: ValueType
  en_val :: slice

definition entry_ikey :: "entry \<Rightarrow> slice" where
  "entry_ikey e = ikey (en_key e) (en_seq e) (en_type e)"

definition entry_bytes :: "entry \<Rightarrow> slice" where
  "entry_bytes e = EncodeLengthPrefixedSlice (entry_ikey e) @ EncodeLengthPrefixedSlice (en_val e)"

definition entry_ok :: "entry \<Rightarrow> bool" where
  "entry_ok e \<longleftrightarrow> length (en_key e) + 8 < 2 ^ 32 \<and> length (en_val e) < 2 ^ 32 \<and> en_seq e \<le> kMaxSequenceNumber"

definition entry_less :: "entry \<Rightarrow> entry \<Rightarrow> bool" where
  "entry_less a b \<longleftrightarrow> ikey_less (entry_ikey a) (entry_ikey b)"

definition mem_rep :: "MemTable \<Rightarrow> entry list \<Rightarrow> bool" where
  "mem_rep mem es \<longleftrightarrow> represents Mem_KeyComparator mem (map entry_bytes es) \<and> list_all entry_ok es \<and>
     sorted_wrt entry_less es"

lemma key_order_comap: "key_order cmp \<Longrightarrow> key_order (\<lambda>a b. cmp (f a) (f b))"
  by (auto simp: key_order_def)

interpretation mem_order: key_order Mem_KeyComparator
  using key_order_comap [OF ikey_order.key_order_axioms, of mem_key]
  by (simp add: Mem_KeyComparator_def [abs_def])

lemma Mem_GetLengthPrefixedSlice_eq: "Mem_GetLengthPrefixedSlice = GetLengthPrefixedSlice"
  by (rule ext) (simp add: Mem_GetLengthPrefixedSlice_def GetLengthPrefixedSlice_def GetVarint32_def)

lemma entry_bytes_read:
  assumes "entry_ok e"
  shows "Mem_GetLengthPrefixedSlice (entry_bytes e) = Some (entry_ikey e, EncodeLengthPrefixedSlice (en_val e))"
    and "mem_key (entry_bytes e) = entry_ikey e"
    and "GetVarint32Ptr (entry_bytes e) =
      Some (word_of_nat (length (en_key e) + 8), entry_ikey e @ EncodeLengthPrefixedSlice (en_val e))"
    and "mem_key (EncodeLengthPrefixedSlice (en_val e)) = en_val e"
proof -
  show r: "Mem_GetLengthPrefixedSlice (entry_bytes e) = Some (entry_ikey e, EncodeLengthPrefixedSlice (en_val e))"
    using assms lpslice.dec_enc [of "entry_ikey e" "EncodeLengthPrefixedSlice (en_val e)"]
    by (simp add: Mem_GetLengthPrefixedSlice_eq entry_bytes_def entry_ok_def entry_ikey_def)
  then show "mem_key (entry_bytes e) = entry_ikey e" by (simp add: mem_key_def)
  show "GetVarint32Ptr (entry_bytes e) =
      Some (word_of_nat (length (en_key e) + 8), entry_ikey e @ EncodeLengthPrefixedSlice (en_val e))"
    using varint32.dec_enc [of "word_of_nat (length (en_key e) + 8)" "entry_ikey e @ EncodeLengthPrefixedSlice (en_val e)"]
    by (simp add: GetVarint32_def entry_bytes_def EncodeLengthPrefixedSlice_def entry_ikey_def)
  show "mem_key (EncodeLengthPrefixedSlice (en_val e)) = en_val e"
    using assms lpslice.dec_enc_all [of "en_val e"] by (simp add: mem_key_def Mem_GetLengthPrefixedSlice_eq entry_ok_def)
qed

lemma Mem_cmp_entries:
  "entry_ok a \<Longrightarrow> entry_ok b \<Longrightarrow> Mem_KeyComparator (entry_bytes a) (entry_bytes b) < 0 \<longleftrightarrow> entry_less a b"
  by (simp add: Mem_KeyComparator_def entry_bytes_read entry_less_def InternalKey_Compare_simps)

lemma entry_less_iff:
  assumes "en_seq a \<le> kMaxSequenceNumber" "en_seq b \<le> kMaxSequenceNumber"
  shows "entry_less a b \<longleftrightarrow> bytes_less (en_key a) (en_key b) \<or> en_key a = en_key b \<and>
    (en_seq b < en_seq a \<or> en_seq a = en_seq b \<and> en_type b = kTypeDeletion \<and> en_type a = kTypeValue)"
  using InternalKey_Compare_ikey [OF assms] by (simp add: entry_less_def entry_ikey_def InternalKey_Compare_simps)

lemma MemTable_Add_buf:
  assumes "length key + 8 < 2 ^ 32" "length val < 2 ^ 32"
  shows "MemTable_Add mem s type key val =
    SkipList_Insert Mem_KeyComparator mem (entry_bytes \<lparr>en_key = key, en_seq = s, en_type = type, en_val = val\<rparr>)"
proof -
  have vl: "VarintLength (word_of_nat n) = length (EncodeVarint32 (word_of_nat n))" if "n < 2 ^ 32" for n
  proof -
    have "(ucast (word_of_nat n :: u32) :: u64) = word_of_nat n"
      using that by (simp add: word_unat_eq_iff unat_ucast_up unat_of_nat take_bit_nat_eq_self)
    then show ?thesis by (simp add: VarintLength_eq EncodeVarint32_64)
  qed
  show ?thesis
    using assms vl [of "length key + 8"] vl [of "length val"]
    by (simp add: MemTable_Add_def Let_def entry_bytes_def entry_ikey_def ikey_def EncodeLengthPrefixedSlice_def)
qed

section \<open>Adding\<close>

definition insert_entry :: "entry \<Rightarrow> entry list \<Rightarrow> entry list" where
  "insert_entry e es = takeWhile (\<lambda>x. entry_less x e) es @ e # dropWhile (\<lambda>x. entry_less x e) es"

lemma entry_less_trans: "entry_less a b \<Longrightarrow> entry_less b c \<Longrightarrow> entry_less a c"
  unfolding entry_less_def by (rule ikey_less_trans)

lemma set_insert_entry [simp]: "set (insert_entry e es) = insert e (set es)"
proof -
  have "set es = set (takeWhile (\<lambda>x. entry_less x e) es) \<union> set (dropWhile (\<lambda>x. entry_less x e) es)"
    by (metis set_append takeWhile_dropWhile_id)
  then show ?thesis by (simp add: insert_entry_def)
qed

lemma sorted_insert_entry:
  assumes "sorted_wrt entry_less es" and "\<forall>x \<in> set es. entry_less x e \<or> entry_less e x"
  shows "sorted_wrt entry_less (insert_entry e es)"
proof -
  have "sorted_wrt entry_less (takeWhile P es @ dropWhile P es)" for P using assms(1) by simp
  then have s: "sorted_wrt entry_less (takeWhile P es)" "sorted_wrt entry_less (dropWhile P es)"
    "\<forall>x \<in> set (takeWhile P es). \<forall>y \<in> set (dropWhile P es). entry_less x y" for P
    unfolding sorted_wrt_append by blast+
  have hi: "entry_less e y" if y: "y \<in> set (dropWhile (\<lambda>x. entry_less x e) es)" for y
  proof -
    obtain z zs where z: "dropWhile (\<lambda>x. entry_less x e) es = z # zs" "\<not> entry_less z e"
      using y hd_dropWhile [of "\<lambda>x. entry_less x e" es] by (cases "dropWhile (\<lambda>x. entry_less x e) es") auto
    have "z \<in> set es" using z(1) by (metis list.set_intros(1) set_dropWhileD)
    then have "entry_less e z" using assms(2) z(2) by blast
    moreover have "y = z \<or> entry_less z y" using y s(2) [of "\<lambda>x. entry_less x e"] z(1) by auto
    ultimately show ?thesis using entry_less_trans by blast
  qed
  show ?thesis
    unfolding insert_entry_def sorted_wrt_append
    using s [of "\<lambda>x. entry_less x e"] hi by (auto dest: set_takeWhileD)
qed

lemma map_takeWhile_cong:
  "(\<And>x. x \<in> set xs \<Longrightarrow> P (f x) \<longleftrightarrow> Q x) \<Longrightarrow> takeWhile P (map f xs) = map f (takeWhile Q xs)"
  "(\<And>x. x \<in> set xs \<Longrightarrow> P (f x) \<longleftrightarrow> Q x) \<Longrightarrow> dropWhile P (map f xs) = map f (dropWhile Q xs)"
  by (induction xs) auto

text \<open>A sequence number is used once for a key.\<close>

definition fresh_seq :: "u64 \<Rightarrow> entry list \<Rightarrow> bool" where
  "fresh_seq s es \<longleftrightarrow> (\<forall>e \<in> set es. en_seq e < s)"

lemma MemTable_Add_ok:
  assumes rep: "mem_rep mem es" and ok: "entry_ok e" and fresh: "fresh_seq (en_seq e) es"
  shows "\<exists>m. MemTable_Add mem (en_seq e) (en_type e) (en_key e) (en_val e) = Some m \<and> mem_rep m (insert_entry e es)"
proof -
  have oks: "\<forall>x \<in> set es. entry_ok x" using rep by (simp add: mem_rep_def list_all_iff)
  have tot: "\<forall>x \<in> set es. entry_less x e \<or> entry_less e x"
  proof
    fix x assume x: "x \<in> set es"
    then have "en_seq x < en_seq e" "en_seq x \<le> kMaxSequenceNumber" "en_seq e \<le> kMaxSequenceNumber"
      using fresh oks ok by (auto simp: fresh_seq_def entry_ok_def)
    then show "entry_less x e \<or> entry_less e x"
      using bytes_less_linear [of "en_key x" "en_key e"] by (auto simp: entry_less_iff)
  qed
  have ne: "Mem_KeyComparator (entry_bytes e) k \<noteq> 0" if k: "k \<in> set (map entry_bytes es)" for k
  proof -
    obtain x where x: "x \<in> set es" "k = entry_bytes x" using k by auto
    then have "Mem_KeyComparator k (entry_bytes e) < 0 \<or> Mem_KeyComparator (entry_bytes e) k < 0"
      using tot oks ok Mem_cmp_entries by blast
    then show ?thesis using mem_order.cmp_sym0 [of "entry_bytes e" k] by auto
  qed
  have "\<exists>m. SkipList_Insert Mem_KeyComparator mem (entry_bytes e) = Some m \<and>
      represents Mem_KeyComparator m (takeWhile (\<lambda>k. Mem_KeyComparator k (entry_bytes e) < 0) (map entry_bytes es) @
        entry_bytes e # dropWhile (\<lambda>k. Mem_KeyComparator k (entry_bytes e) < 0) (map entry_bytes es))"
    by (rule represents_Insert [OF mem_order.key_order_axioms]) (use rep ne in \<open>auto simp: mem_rep_def\<close>)
  moreover have "takeWhile (\<lambda>k. Mem_KeyComparator k (entry_bytes e) < 0) (map entry_bytes es) =
      map entry_bytes (takeWhile (\<lambda>x. entry_less x e) es)"
    "dropWhile (\<lambda>k. Mem_KeyComparator k (entry_bytes e) < 0) (map entry_bytes es) =
      map entry_bytes (dropWhile (\<lambda>x. entry_less x e) es)"
    using oks ok Mem_cmp_entries by (auto intro!: map_takeWhile_cong)
  ultimately obtain m where m: "SkipList_Insert Mem_KeyComparator mem (entry_bytes e) = Some m"
    "represents Mem_KeyComparator m (map entry_bytes (insert_entry e es))"
    by (auto simp: insert_entry_def)
  have "mem_rep m (insert_entry e es)"
    using m(2) oks ok sorted_insert_entry [OF _ tot] rep by (auto simp: mem_rep_def list_all_iff)
  moreover have "MemTable_Add mem (en_seq e) (en_type e) (en_key e) (en_val e) = Some m"
    using m(1) ok MemTable_Add_buf [of "en_key e" "en_val e" mem "en_seq e" "en_type e"] by (cases e) (simp add: entry_ok_def)
  ultimately show ?thesis by blast
qed

section \<open>Reading\<close>

text \<open>The entry a reader with sequence number \<open>s\<close> sees for a key: the newest that is not newer than \<open>s\<close>.\<close>

definition newest :: "entry list \<Rightarrow> slice \<Rightarrow> u64 \<Rightarrow> entry option" where
  "newest es k s = find (\<lambda>e. en_key e = k \<and> en_seq e \<le> s) es"

lemma newest_Some:
  assumes sorted: "sorted_wrt entry_less es" and ok: "list_all entry_ok es" and n: "newest es k s = Some e"
  shows "e \<in> set es \<and> en_key e = k \<and> en_seq e \<le> s \<and>
    (\<forall>f \<in> set es. en_key f = k \<longrightarrow> en_seq f \<le> s \<longrightarrow> en_seq f \<le> en_seq e)"
proof -
  obtain us vs where es: "es = us @ e # vs" and e: "en_key e = k" "en_seq e \<le> s"
    and us: "\<forall>u \<in> set us. \<not> (en_key u = k \<and> en_seq u \<le> s)"
    using n unfolding newest_def by (auto elim!: find_SomeE)
  have "en_seq f \<le> en_seq e" if f: "f \<in> set es" "en_key f = k" "en_seq f \<le> s" for f
  proof -
    have "f = e \<or> f \<in> set vs" using f us es by auto
    moreover have "en_seq f \<le> en_seq e" if "f \<in> set vs"
    proof -
      have "entry_less e f" using sorted that unfolding es by (simp add: sorted_wrt_append)
      moreover have "en_seq e \<le> kMaxSequenceNumber" "en_seq f \<le> kMaxSequenceNumber"
        using ok that unfolding es by (auto simp: list_all_iff entry_ok_def)
      ultimately show ?thesis using e f by (auto simp: entry_less_iff)
    qed
    ultimately show ?thesis by auto
  qed
  then show ?thesis using es e by auto
qed

lemma newest_dropWhile:
  assumes "sorted_wrt entry_less es" and "\<forall>e \<in> set es. en_seq e \<le> kMaxSequenceNumber" and "s \<le> kMaxSequenceNumber"
  shows "(dropWhile (\<lambda>e. ikey_less (entry_ikey e) (ikey k s kTypeValue)) es = [] \<longrightarrow> newest es k s = None) \<and>
    (\<forall>e r. dropWhile (\<lambda>e. ikey_less (entry_ikey e) (ikey k s kTypeValue)) es = e # r \<longrightarrow>
       newest es k s = (if en_key e = k then Some e else None))"
  using assms(1,2)
proof (induction es)
  case Nil
  then show ?case by (simp add: newest_def)
next
  case (Cons e es)
  have lt: "ikey_less (entry_ikey x) (ikey k s kTypeValue) \<longleftrightarrow> bytes_less (en_key x) k \<or> en_key x = k \<and> s < en_seq x"
    if "x \<in> set (e # es)" for x
  proof -
    have "en_seq x \<le> kMaxSequenceNumber" using Cons.prems(2) that by auto
    then show ?thesis
      using InternalKey_Compare_ikey [of "en_seq x" s "en_key x" "en_type x" k kTypeValue] assms(3)
      by (simp add: entry_ikey_def InternalKey_Compare_simps)
  qed
  show ?case
  proof (cases "ikey_less (entry_ikey e) (ikey k s kTypeValue)")
    case True
    then have "\<not> (en_key e = k \<and> en_seq e \<le> s)" using lt [of e] by auto
    then have "newest (e # es) k s = newest es k s" by (auto simp: newest_def)
    then show ?thesis using Cons True by simp
  next
    case False
    have "newest es k s = None" if ne: "en_key e \<noteq> k"
    proof -
      have "bytes_less k (en_key e)" using False lt [of e] bytes_less_linear [of k "en_key e"] ne by auto
      moreover have "en_key e = en_key x \<or> bytes_less (en_key e) (en_key x)" if "x \<in> set es" for x
        using Cons.prems that entry_less_iff [of e x] by auto
      ultimately show ?thesis
        using bytes_less_trans [of k "en_key e"] bytes_less_asym [of k] ne by (auto simp: newest_def find_None_iff)
    qed
    then show ?thesis using False lt [of e] by (auto simp: newest_def)
  qed
qed

text \<open>What a search with a lookup key finds.\<close>

lemma mem_Seek:
  assumes rep: "mem_rep mem es" and t: "mem_key target = ikey k s kTypeValue"
  shows "\<exists>it. SL_Seek Mem_KeyComparator mem target = Some it \<and>
    (dropWhile (\<lambda>e. ikey_less (entry_ikey e) (ikey k s kTypeValue)) es = [] \<longrightarrow> it = None) \<and>
    (\<forall>e r. dropWhile (\<lambda>e. ikey_less (entry_ikey e) (ikey k s kTypeValue)) es = e # r \<longrightarrow>
       (\<exists>x. it = Some x \<and> node_key mem x = entry_bytes e))"
proof -
  let ?ks = "map entry_bytes es" and ?P = "\<lambda>e. ikey_less (entry_ikey e) (ikey k s kTypeValue)"
  have R: "represents Mem_KeyComparator mem ?ks" and ok: "\<forall>e \<in> set es. entry_ok e"
    using rep by (auto simp: mem_rep_def list_all_iff)
  let ?n = "length (takeWhile (\<lambda>x. Mem_KeyComparator x target < 0) ?ks)"
  obtain it where it: "\<forall>i. it i = None \<longleftrightarrow> length ?ks \<le> i" "\<forall>i \<in> {..<length ?ks}. SL_key mem (it i) = Some (?ks ! i)"
    "SL_Seek Mem_KeyComparator mem target = Some (it ?n)"
    using represents_iterator [OF mem_order.key_order_axioms R] by blast
  have tw: "takeWhile (\<lambda>x. Mem_KeyComparator x target < 0) ?ks = map entry_bytes (takeWhile ?P es)"
    using ok t by (intro map_takeWhile_cong)
      (simp add: Mem_KeyComparator_def entry_bytes_read InternalKey_Compare_simps)
  show ?thesis
  proof (cases "dropWhile ?P es")
    case Nil
    then have "takeWhile ?P es = es" by (metis append_Nil2 takeWhile_dropWhile_id)
    then have "?n = length es" unfolding tw by (metis length_map)
    then have "it ?n = None" using it(1) by simp
    then show ?thesis unfolding Nil using it(3) by simp
  next
    case (Cons e r)
    then have es: "es = takeWhile ?P es @ e # r" by (metis takeWhile_dropWhile_id)
    then have n: "?n < length ?ks" unfolding tw by (metis length_append length_map length_Cons less_add_Suc1 add_Suc_right)
    have "?ks ! ?n = entry_bytes e" unfolding tw using n tw
      by (subst es) (simp add: nth_append)
    then have "SL_key mem (it ?n) = Some (entry_bytes e)" using it(2) n by simp
    then show ?thesis using it(3) Cons by (auto simp: SL_key_def)
  qed
qed

lemma LookupKey_parts:
  assumes "mk_LookupKey k s = Some key" and "length k + 8 < 2 ^ 32" and "s \<le> kMaxSequenceNumber"
  shows "lk_user_key key = k" "lk_internal_key key = ikey k s kTypeValue" "mem_key (lk_memtable_key key) = ikey k s kTypeValue"
proof -
  have key: "key = \<lparr>lk_prefix = EncodeVarint32 (word_of_nat (length k + 8)), lk_internal_key = ikey k s kTypeValue\<rparr>"
    using assms(1) PackSequenceAndType_eq [OF assms(3), of kTypeValue]
    by (simp add: mk_LookupKey_def kValueTypeForSeek_def ikey_def)
  then show "lk_user_key key = k" "lk_internal_key key = ikey k s kTypeValue"
    by (simp_all add: lk_user_key_def) (simp add: ikey_def)
  have "lk_memtable_key key = EncodeLengthPrefixedSlice (ikey k s kTypeValue)"
    by (simp add: key lk_memtable_key_def EncodeLengthPrefixedSlice_def)
  then show "mem_key (lk_memtable_key key) = ikey k s kTypeValue"
    using lpslice.dec_enc_all [of "ikey k s kTypeValue"] assms(2)
    by (simp add: mem_key_def Mem_GetLengthPrefixedSlice_eq)
qed

lemma MemTable_Get_at:
  assumes "SL_Seek Mem_KeyComparator mem (lk_memtable_key key) = Some (Some x)"
    and "GetVarint32Ptr (node_key mem x) = Some (n, body)" and "take (unat n - 8) body = K"
    and "DecodeFixed64 (drop (unat n - 8) body) = t"
    and "Mem_GetLengthPrefixedSlice (drop (unat n) body) = Some (v, r)" and "lk_user_key key = k"
  shows "MemTable_Get mem key limit =
    Some (if K = k then
            if (ucast (t AND 0xff) :: byte) = 1 then (True, Some (take limit v), Okay)
            else if (ucast (t AND 0xff) :: byte) = 0 then (True, None, NotFound '''') else (False, None, Okay)
          else (False, None, Okay))"
  using assms by (simp add: MemTable_Get_def Let_def compare_simps min_def)

lemma MemTable_Get_ok:
  assumes rep: "mem_rep mem es" and k: "length k + 8 < 2 ^ 32" and s: "s \<le> kMaxSequenceNumber"
    and lk: "mk_LookupKey k s = Some key"
  shows "MemTable_Get mem key limit =
    Some (case newest es k s of
        None \<Rightarrow> (False, None, Okay)
      | Some e \<Rightarrow> (case en_type e of
            kTypeValue \<Rightarrow> (True, Some (take limit (en_val e)), Okay)
          | kTypeDeletion \<Rightarrow> (True, None, NotFound '''')))"
proof -
  note LK = LookupKey_parts [OF lk k s]
  obtain it where it: "SL_Seek Mem_KeyComparator mem (lk_memtable_key key) = Some it"
    "dropWhile (\<lambda>e. ikey_less (entry_ikey e) (ikey k s kTypeValue)) es = [] \<longrightarrow> it = None"
    "\<forall>e r. dropWhile (\<lambda>e. ikey_less (entry_ikey e) (ikey k s kTypeValue)) es = e # r \<longrightarrow>
       (\<exists>x. it = Some x \<and> node_key mem x = entry_bytes e)"
    using mem_Seek [OF rep LK(3)] by (elim exE conjE) (rule that)
  have ok: "\<forall>e \<in> set es. entry_ok e" and sorted: "sorted_wrt entry_less es"
    using rep by (auto simp: mem_rep_def list_all_iff)
  note nw = newest_dropWhile [OF sorted _ s, of k]
  show ?thesis
  proof (cases "dropWhile (\<lambda>e. ikey_less (entry_ikey e) (ikey k s kTypeValue)) es")
    case Nil
    then have "it = None" "newest es k s = None" using it(2) nw ok by (auto simp: entry_ok_def)
    then show ?thesis using it(1) by (simp add: MemTable_Get_def)
  next
    case (Cons e r)
    then have e: "e \<in> set es" by (metis list.set_intros(1) set_dropWhileD)
    then have eok: "entry_ok e" using ok by blast
    obtain x where x: "it = Some x" "node_key mem x = entry_bytes e" using it(3) Cons by auto
    have new: "newest es k s = (if en_key e = k then Some e else None)" using nw Cons ok by (simp add: entry_ok_def)
    have len: "unat (word_of_nat (length (en_key e) + 8) :: u32) = length (en_key e) + 8"
      using eok by (simp only: unat_of_nat) (simp add: entry_ok_def)
    have parts: "take (length (en_key e)) (entry_ikey e @ w) = en_key e"
      "drop (length (en_key e)) (entry_ikey e @ w) = EncodeFixed64 (push_bit 8 (en_seq e) OR ValueType_value (en_type e)) @ w"
      "drop (length (en_key e) + 8) (entry_ikey e @ w) = w" for w
      by (simp_all add: entry_ikey_def ikey_def)
    have val: "Mem_GetLengthPrefixedSlice (EncodeLengthPrefixedSlice (en_val e)) = Some (en_val e, [])"
      using lpslice.dec_enc_all [of "en_val e"] eok by (simp add: Mem_GetLengthPrefixedSlice_eq entry_ok_def)
    have ty: "(ucast ((push_bit 8 (en_seq e) OR ValueType_value (en_type e)) AND 0xff) :: byte) = ucast (ValueType_value (en_type e))"
      using tag_parts(3) eok by (simp only: entry_ok_def)
    have "MemTable_Get mem key limit =
        Some (if en_key e = k then
            if (ucast ((push_bit 8 (en_seq e) OR ValueType_value (en_type e)) AND 0xff) :: byte) = 1
            then (True, Some (take limit (en_val e)), Okay)
            else if (ucast ((push_bit 8 (en_seq e) OR ValueType_value (en_type e)) AND 0xff) :: byte) = 0
            then (True, None, NotFound '''') else (False, None, Okay)
          else (False, None, Okay))"
    proof (rule MemTable_Get_at)
      show "SL_Seek Mem_KeyComparator mem (lk_memtable_key key) = Some (Some x)" using it(1) x by simp
      show "GetVarint32Ptr (node_key mem x) =
          Some (word_of_nat (length (en_key e) + 8), entry_ikey e @ EncodeLengthPrefixedSlice (en_val e))"
        using x entry_bytes_read(3) [OF eok] by simp
    qed (simp_all only: len parts add_diff_cancel_right' val DecodeFixed64_EncodeFixed64 LK(1))
    then show ?thesis unfolding ty new by (cases "en_type e") simp_all
  qed
qed

lemma new_MemTable_rep: "mem_rep new_MemTable []"
  by (simp add: mem_rep_def new_MemTable_def represents_new)

section \<open>Replaying a batch\<close>

text \<open>The value of a key for a reader with sequence number \<open>s\<close>.\<close>

definition mem_view :: "entry list \<Rightarrow> u64 \<Rightarrow> slice \<Rightarrow> slice option" where
  "mem_view es s k = (case newest es k s of None \<Rightarrow> None
     | Some e \<Rightarrow> (case en_type e of kTypeValue \<Rightarrow> Some (en_val e) | kTypeDeletion \<Rightarrow> None))"

fun update_entry :: "u64 \<Rightarrow> update \<Rightarrow> entry" where
  "update_entry s (UPut k v) = \<lparr>en_key = k, en_seq = s, en_type = kTypeValue, en_val = v\<rparr>"
| "update_entry s (UDelete k) = \<lparr>en_key = k, en_seq = s, en_type = kTypeDeletion, en_val = []\<rparr>"

fun map_update :: "(slice \<Rightarrow> slice option) \<Rightarrow> update \<Rightarrow> slice \<Rightarrow> slice option" where
  "map_update m (UPut k v) = m(k := Some v)"
| "map_update m (UDelete k) = m(k := None)"

fun update_fits :: "update \<Rightarrow> bool" where
  "update_fits (UPut k v) \<longleftrightarrow> length k + 8 < 2 ^ 32 \<and> length v < 2 ^ 32"
| "update_fits (UDelete k) \<longleftrightarrow> length k + 8 < 2 ^ 32"

lemma update_fits_ok: "update_fits u \<Longrightarrow> update_ok u"
  by (cases u) auto

lemma newest_insert:
  assumes ok: "\<forall>x \<in> set es. en_seq x \<le> kMaxSequenceNumber" "en_seq e \<le> kMaxSequenceNumber"
    and fresh: "fresh_seq (en_seq e) es"
  shows "newest (insert_entry e es) k t = (if k = en_key e \<and> en_seq e \<le> t then Some e else newest es k t)"
proof -
  let ?P = "\<lambda>x. entry_less x e"
  let ?Q = "\<lambda>e. en_key e = k \<and> en_seq e \<le> t"
  have es: "find ?Q es = (case find ?Q (takeWhile ?P es) of None \<Rightarrow> find ?Q (dropWhile ?P es) | Some x \<Rightarrow> Some x)"
    by (metis find_append takeWhile_dropWhile_id)
  have tw: "en_key x \<noteq> en_key e" if "x \<in> set (takeWhile ?P es)" for x
  proof -
    have x: "x \<in> set es" "entry_less x e" using that by (auto dest: set_takeWhileD)
    moreover have "en_seq x < en_seq e" using fresh x by (simp add: fresh_seq_def)
    ultimately show ?thesis using entry_less_iff [of x e] ok by auto
  qed
  show ?thesis
  proof (cases "k = en_key e \<and> en_seq e \<le> t")
    case True
    then have "find (\<lambda>e. en_key e = k \<and> en_seq e \<le> t) (takeWhile ?P es) = None"
      using tw by (auto simp: find_None_iff)
    then show ?thesis using True by (simp add: newest_def insert_entry_def find_append)
  next
    case False
    then show ?thesis by (auto simp: newest_def insert_entry_def find_append es split: option.splits)
  qed
qed

lemma mem_view_insert:
  assumes "\<forall>x \<in> set es. en_seq x \<le> kMaxSequenceNumber" "s \<le> kMaxSequenceNumber" and "fresh_seq s es"
  shows "mem_view (insert_entry (update_entry s u) es) t =
    (if s \<le> t then map_update (mem_view es t) u else mem_view es t)"
  using newest_insert [of es "update_entry s u" _ t] assms
  by (cases u) (auto simp: mem_view_def)

text \<open>The entries after the updates \<open>us\<close>, numbered from \<open>s\<close>.\<close>

fun add_updates :: "u64 \<Rightarrow> update list \<Rightarrow> entry list \<Rightarrow> entry list" where
  "add_updates s [] es = es"
| "add_updates s (u # us) es = add_updates (s + 1) us (insert_entry (update_entry s u) es)"

lemma seq_plus: "unat (s :: u64) + n < 2 ^ 56 \<Longrightarrow> unat (s + word_of_nat n) = unat s + n"
  by (subst unat_add_lem [THEN iffD1]) (simp_all add: unat_of_nat take_bit_nat_eq_self)

lemma update_entry_simps [simp]: "en_seq (update_entry s u) = s"
  by (cases u) simp_all

lemma handle_inserter:
  "handle inserter i u = \<lparr>mi_sequence = mi_sequence i + 1,
     mi_mem = Option.bind (mi_mem i) (\<lambda>m. MemTable_Add m (mi_sequence i) (en_type (update_entry (mi_sequence i) u))
       (en_key (update_entry (mi_sequence i) u)) (en_val (update_entry (mi_sequence i) u)))\<rparr>"
  by (cases u) (simp_all add: inserter_def inserter_add_def)

text \<open>All sequence numbers are below \<open>n\<close>, as a number.\<close>

definition below_seq :: "nat \<Rightarrow> entry list \<Rightarrow> bool" where
  "below_seq n es \<longleftrightarrow> (\<forall>e \<in> set es. unat (en_seq e) < n)"

lemma fresh_below: "fresh_seq s es \<longleftrightarrow> below_seq (unat s) es"
  by (simp add: fresh_seq_def below_seq_def word_less_nat_alt)

lemma inserter_run:
  assumes "mem_rep mem es" "below_seq (unat s) es" "list_all update_fits us" "unat s + length us \<le> 2 ^ 56"
  shows "\<exists>m q. foldl (handle inserter) \<lparr>mi_sequence = s, mi_mem = Some mem\<rparr> us = \<lparr>mi_sequence = q, mi_mem = Some m\<rparr> \<and>
     mem_rep m (add_updates s us es) \<and> below_seq (unat s + length us) (add_updates s us es)"
  using assms
proof (induction us arbitrary: mem es s)
  case Nil
  then show ?case by simp
next
  case (Cons u us)
  let ?e = "update_entry s u"
  have s: "unat s < 2 ^ 56" using Cons.prems(4) by simp
  then have s1: "unat (s + 1) = unat s + 1" by (subst unat_add_lem [THEN iffD1]) simp_all
  have "entry_ok ?e" using Cons.prems(3) s by (cases u) (auto simp: entry_ok_def kMaxSequenceNumber_unat)
  then obtain m where m: "MemTable_Add mem s (en_type ?e) (en_key ?e) (en_val ?e) = Some m" "mem_rep m (insert_entry ?e es)"
    using MemTable_Add_ok [of mem es ?e] Cons.prems(1,2) by (auto simp: fresh_below)
  have "below_seq (unat (s + 1)) (insert_entry ?e es)"
    using Cons.prems(2) by (auto simp: below_seq_def s1)
  moreover have "list_all update_fits us" "unat (s + 1) + length us \<le> 2 ^ 56" using Cons.prems(3,4) s1 by auto
  moreover have "handle inserter \<lparr>mi_sequence = s, mi_mem = Some mem\<rparr> u = \<lparr>mi_sequence = s + 1, mi_mem = Some m\<rparr>"
    by (simp add: handle_inserter m(1))
  ultimately show ?case
    using Cons.IH [OF m(2), of "s + 1"] s1 by simp
qed

lemma mem_view_add_updates:
  assumes "\<forall>x \<in> set es. en_seq x \<le> kMaxSequenceNumber" "below_seq (unat s) es" "unat s + length us \<le> 2 ^ 56"
  shows "(unat s + length us \<le> unat t + 1 \<longrightarrow> mem_view (add_updates s us es) t = foldl map_update (mem_view es t) us) \<and>
    (unat t < unat s \<longrightarrow> mem_view (add_updates s us es) t = mem_view es t)"
  using assms
proof (induction us arbitrary: s es)
  case Nil
  then show ?case by simp
next
  case (Cons u us)
  let ?es = "insert_entry (update_entry s u) es"
  have s: "unat s < 2 ^ 56" using Cons.prems(3) by simp
  then have s1: "unat (s + 1) = unat s + 1" by (subst unat_add_lem [THEN iffD1]) simp_all
  have sm: "s \<le> kMaxSequenceNumber" using s by (simp add: kMaxSequenceNumber_unat)
  have v: "mem_view ?es t = (if s \<le> t then map_update (mem_view es t) u else mem_view es t)"
    using mem_view_insert [of es s u t] Cons.prems sm by (auto simp: fresh_below)
  have "\<forall>x \<in> set ?es. en_seq x \<le> kMaxSequenceNumber" "below_seq (unat (s + 1)) ?es" "unat (s + 1) + length us \<le> 2 ^ 56"
    using Cons.prems s1 sm by (auto simp: below_seq_def)
  from Cons.IH [OF this] show ?case
    using s1 v by (auto simp: word_le_nat_alt)
qed

lemma mem_view_mono:
  assumes "below_seq n es" and "n \<le> unat s + 1" and "n \<le> unat t + 1"
  shows "mem_view es s = mem_view es t"
proof -
  have "\<forall>e \<in> set es. en_seq e \<le> s \<and> en_seq e \<le> t"
    using assms by (fastforce simp: below_seq_def word_le_nat_alt)
  then have "newest es k s = newest es k t" for k unfolding newest_def by (induction es) auto
  then show ?thesis by (simp add: mem_view_def fun_eq_iff)
qed

lemma InsertInto_ok:
  assumes "mem_rep mem es" "below_seq (unat s) es" "list_all update_fits us" "unat s + length us \<le> 2 ^ 56" "length us < 2 ^ 31"
  shows "\<exists>m. InsertInto (batch_of s us) mem = (Okay, Some m) \<and> mem_rep m (add_updates s us es) \<and>
    below_seq (unat s + length us) (add_updates s us es)"
proof -
  have "list_all update_ok us" using assms(3) update_fits_ok by (auto simp: list_all_iff)
  then have "WB_Iterate inserter (batch_of s us) \<lparr>mi_sequence = s, mi_mem = Some mem\<rparr> =
      (Okay, foldl (handle inserter) \<lparr>mi_sequence = s, mi_mem = Some mem\<rparr> us)"
    by (rule WB_Iterate_batch_of) (rule assms(5))
  then show ?thesis
    using inserter_run [OF assms(1-4)] by (auto simp: InsertInto_def WB_Sequence_batch_of)
qed

lemma MemTable_Get_view:
  assumes "mem_rep mem es" and "length k + 8 < 2 ^ 32" and "s \<le> kMaxSequenceNumber" and "mk_LookupKey k s = Some key"
  shows "\<exists>found v st. MemTable_Get mem key limit = Some (found, v, st) \<and> v = map_option (take limit) (mem_view es s k) \<and>
    (st = Okay \<or> st = NotFound [])"
  using MemTable_Get_ok [OF assms, of limit] by (auto simp: mem_view_def split: option.splits ValueType.splits)

text \<open>
  C33. Replaying a batch into a memtable succeeds, whatever the heights of the skip list, and afterwards a
  reader at the new sequence number gets for every key what the last update of the batch to that key says,
  or else what the table said before; a reader at an older sequence number still gets what it got.
\<close>

theorem memtable_batch_read:
  assumes "mem_rep mem es" and "below_seq (unat s) es" and "list_all update_fits us"
    and "unat s + length us \<le> 2 ^ 56" and "length us < 2 ^ 31" and "length k + 8 < 2 ^ 32"
    and "mk_LookupKey k t = Some key" and "t \<le> kMaxSequenceNumber"
    and "unat s + length us \<le> unat t + 1 \<or> unat t < unat s"
  shows "\<exists>m r. InsertInto (batch_of s us) mem = (Okay, Some m) \<and> MemTable_Get m key limit = Some r \<and>
    (case r of (found, v, st) \<Rightarrow> v) =
      map_option (take limit) (if unat t < unat s then mem_view es t k else foldl map_update (mem_view es t) us k)"
proof -
  obtain m where m: "InsertInto (batch_of s us) mem = (Okay, Some m)" "mem_rep m (add_updates s us es)"
    using InsertInto_ok [OF assms(1-5)] by blast
  have "\<forall>x \<in> set es. en_seq x \<le> kMaxSequenceNumber"
    using assms(1) by (auto simp: mem_rep_def list_all_iff entry_ok_def)
  from mem_view_add_updates [OF this assms(2,4), of t] assms(9)
  have "mem_view (add_updates s us es) t k =
      (if unat t < unat s then mem_view es t k else foldl map_update (mem_view es t) us k)"
    by auto
  then show ?thesis
    using m MemTable_Get_view [OF m(2) assms(6,8,7), of limit] by auto
qed

lemma memtable_batch_read_witness:
  "\<exists>key m r. mk_LookupKey [97] 7 = Some key \<and> InsertInto (batch_of 5 [UPut [97] [1, 2], UPut [98] [3]]) new_MemTable = (Okay, Some m) \<and>
    MemTable_Get m key 100 = Some r \<and> (case r of (found, v, st) \<Rightarrow> v) = Some [1, 2]"
proof -
  obtain key where key: "mk_LookupKey [97] 7 = Some key"
    by (simp add: mk_LookupKey_def PackSequenceAndType_def kValueTypeForSeek_def kMaxSequenceNumber_unat)
  show ?thesis
    using memtable_batch_read [OF new_MemTable_rep, where s = 5 and us = "[UPut [97] [1, 2], UPut [98] [3]]" and k = "[97]"
        and t = 7 and key = key and limit = 100] key
    by (auto simp: below_seq_def kMaxSequenceNumber_unat)
qed

end
