(* ===== verification/Db_Iter.thy ===== *)
theory Db_Iter
  imports Memtable
begin

text \<open>
  Iterators of the store: the interface (\<^verbatim>\<open>leveldb/iterator.h\<close>), the iterator of a memtable, and \<^verbatim>\<open>DBIter\<close>
  (\<^verbatim>\<open>leveldb/db/db_iter.cc\<close>), which turns the internal entries (all versions and tombstones of all keys)
  into the user's entries at one sequence number, in both directions. \<open>None\<close> is a failed assertion or a loop
  that does not end. Sampling reads for compaction and the capacity of the saved value are not modelled.
\<close>

section \<open>The interface\<close>

record 'i Iter =
  i_Valid :: "'i \<Rightarrow> bool"
  i_key :: "'i \<Rightarrow> slice"
  i_value :: "'i \<Rightarrow> slice"
  i_status :: "'i \<Rightarrow> status"
  i_Next :: "'i \<Rightarrow> 'i option"
  i_Prev :: "'i \<Rightarrow> 'i option"
  i_Seek :: "slice \<Rightarrow> 'i \<Rightarrow> 'i option"
  i_SeekToFirst :: "'i \<Rightarrow> 'i option"
  i_SeekToLast :: "'i \<Rightarrow> 'i option"

text \<open>
  \<open>at x es i\<close>: the iterator \<open>x\<close> is over the sorted entries \<open>es\<close> and at number \<open>i\<close>, where the length stands
  for every position outside.
\<close>

locale iterator =
  fixes I :: "'i Iter" and at :: "'i \<Rightarrow> (slice \<times> slice) list \<Rightarrow> nat \<Rightarrow> bool" and cmp :: "slice \<Rightarrow> slice \<Rightarrow> int"
    and seek_ok :: "slice \<Rightarrow> bool"
  assumes at_le: "at x es i \<Longrightarrow> i \<le> length es"
    and Valid: "at x es i \<Longrightarrow> i_Valid I x \<longleftrightarrow> i < length es"
    and entry: "at x es i \<Longrightarrow> i < length es \<Longrightarrow> i_key I x = fst (es ! i) \<and> i_value I x = snd (es ! i)"
    and status: "at x es i \<Longrightarrow> i_status I x = Okay"
    and Next: "at x es i \<Longrightarrow> i < length es \<Longrightarrow> \<exists>y. i_Next I x = Some y \<and> at y es (Suc i)"
    and Prev: "at x es i \<Longrightarrow> i < length es \<Longrightarrow>
      \<exists>y. i_Prev I x = Some y \<and> at y es (if i = 0 then length es else i - 1)"
    and Seek: "at x es i \<Longrightarrow> seek_ok k \<Longrightarrow>
      \<exists>y. i_Seek I k x = Some y \<and> at y es (length (takeWhile (\<lambda>e. cmp (fst e) k < 0) es))"
    and SeekToFirst: "at x es i \<Longrightarrow> \<exists>y. i_SeekToFirst I x = Some y \<and> at y es 0"
    and SeekToLast: "at x es i \<Longrightarrow> \<exists>y. i_SeekToLast I x = Some y \<and> at y es (length es - 1)"

text \<open>What a client reads that goes forward, or backward, until the iterator is not valid.\<close>

fun walk :: "'i Iter \<Rightarrow> ('i \<Rightarrow> 'i option) \<Rightarrow> nat \<Rightarrow> 'i \<Rightarrow> (slice \<times> slice) list option" where
  "walk I step 0 x = None"
| "walk I step (Suc n) x =
     (if i_Valid I x then
        (case step x of None \<Rightarrow> None | Some y \<Rightarrow> map_option ((#) (i_key I x, i_value I x)) (walk I step n y))
      else if ok (i_status I x) then Some [] else None)"

context iterator
begin

lemma walk_forward: "at x es i \<Longrightarrow> length es - i < n \<Longrightarrow> walk I (i_Next I) n x = Some (drop i es)"
proof (induction n arbitrary: x i)
  case (Suc n)
  show ?case
  proof (cases "i < length es")
    case True
    obtain y where y: "i_Next I x = Some y" "at y es (Suc i)" using Next [OF Suc.prems(1) True] by blast
    have "walk I (i_Next I) n y = Some (drop (Suc i) es)" using Suc.IH [OF y(2)] Suc.prems(2) True by simp
    then show ?thesis
      using y True Valid [OF Suc.prems(1)] entry [OF Suc.prems(1) True] by (simp add: Cons_nth_drop_Suc)
  next
    case False
    then show ?thesis using at_le [OF Suc.prems(1)] Valid [OF Suc.prems(1)] status [OF Suc.prems(1)] by simp
  qed
qed simp

lemma walk_backward: "at x es i \<Longrightarrow> i < length es \<Longrightarrow> Suc i < n \<Longrightarrow> walk I (i_Prev I) n x = Some (rev (take (Suc i) es))"
proof (induction n arbitrary: x i)
  case (Suc n)
  obtain y where y: "i_Prev I x = Some y" "at y es (if i = 0 then length es else i - 1)"
    using Prev [OF Suc.prems(1,2)] by blast
  have "walk I (i_Prev I) n y = Some (rev (take i es))"
  proof (cases i)
    case 0
    then show ?thesis using y(2) Valid [OF y(2)] status [OF y(2)] Suc.prems(3) by (cases n) simp_all
  next
    case (Suc j)
    then show ?thesis using y(2) Suc.IH [of y j] Suc.prems by simp
  qed
  then show ?case
    using y(1) Suc.prems(2) Valid [OF Suc.prems(1)] entry [OF Suc.prems(1,2)] by (simp add: take_Suc_conv_app_nth)
qed simp

lemma walk_all:
  assumes "at x es i"
  shows "\<exists>y. i_SeekToFirst I x = Some y \<and> walk I (i_Next I) (Suc (length es)) y = Some es"
    and "\<exists>y. i_SeekToLast I x = Some y \<and> walk I (i_Prev I) (Suc (length es)) y = Some (rev es)"
    and "seek_ok k \<Longrightarrow> \<exists>y. i_Seek I k x = Some y \<and>
      walk I (i_Next I) (Suc (length es)) y = Some (dropWhile (\<lambda>e. cmp (fst e) k < 0) es)"
proof -
  show "\<exists>y. i_SeekToFirst I x = Some y \<and> walk I (i_Next I) (Suc (length es)) y = Some es"
    using SeekToFirst [OF assms] walk_forward [where i = 0] by fastforce
  obtain y where y: "i_SeekToLast I x = Some y" "at y es (length es - 1)" using SeekToLast [OF assms] by blast
  have "walk I (i_Prev I) (Suc (length es)) y = Some (rev es)"
  proof (cases "es = []")
    case True
    then show ?thesis using Valid [OF y(2)] status [OF y(2)] by simp
  next
    case False
    then show ?thesis using walk_backward [OF y(2), of "Suc (length es)"] by (simp del: walk.simps)
  qed
  then show "\<exists>y. i_SeekToLast I x = Some y \<and> walk I (i_Prev I) (Suc (length es)) y = Some (rev es)" using y(1) by blast
  show "\<exists>y. i_Seek I k x = Some y \<and> walk I (i_Next I) (Suc (length es)) y = Some (dropWhile (\<lambda>e. cmp (fst e) k < 0) es)"
    if sk: "seek_ok k"
  proof -
    obtain y where y: "i_Seek I k x = Some y" "at y es (length (takeWhile (\<lambda>e. cmp (fst e) k < 0) es))"
      using Seek [OF assms sk] by blast
    show ?thesis using y(1) walk_forward [OF y(2), of "Suc (length es)"] by (simp add: dropWhile_eq_drop)
  qed
qed

end

section \<open>The iterator of a memtable\<close>

definition mem_Iter :: "(MemTable \<times> nat option) Iter" where
  "mem_Iter =
     \<lparr>i_Valid = (\<lambda>(mem, node). SL_Valid node),
      i_key = (\<lambda>(mem, node). MemTableIterator_key mem (the node)),
      i_value = (\<lambda>(mem, node). MemTableIterator_value mem (the node)),
      i_status = (\<lambda>_. Okay),
      i_Next = (\<lambda>(mem, node). map_option (Pair mem) (SL_Next mem node)),
      i_Prev = (\<lambda>(mem, node). map_option (Pair mem) (SL_Prev Mem_KeyComparator mem node)),
      i_Seek = (\<lambda>k (mem, node). map_option (Pair mem) (MemTableIterator_Seek mem k)),
      i_SeekToFirst = (\<lambda>(mem, node). map_option (Pair mem) (SL_SeekToFirst mem)),
      i_SeekToLast = (\<lambda>(mem, node). map_option (Pair mem) (SL_SeekToLast mem))\<rparr>"

definition NewMemTableIterator :: "MemTable \<Rightarrow> MemTable \<times> nat option" where
  "NewMemTableIterator mem = (mem, None)"

definition internal_entries :: "entry list \<Rightarrow> (slice \<times> slice) list" where
  "internal_entries es = map (\<lambda>e. (entry_ikey e, en_val e)) es"

text \<open>The positions of the skip list's iterators are those of the list it represents.\<close>

definition sl_positions :: "MemTable \<Rightarrow> slice list \<Rightarrow> (nat \<Rightarrow> nat option) \<Rightarrow> bool" where
  "sl_positions l ks it \<longleftrightarrow> (\<forall>i. it i = None \<longleftrightarrow> length ks \<le> i) \<and>
    (\<forall>i \<in> {..<length ks}. SL_key l (it i) = Some (ks ! i) \<and> SL_Next l (it i) = Some (it (Suc i)) \<and>
       SL_Prev Mem_KeyComparator l (it i) = Some (if i = 0 then None else it (i - 1))) \<and>
    SL_SeekToFirst l = Some (it 0) \<and> SL_SeekToLast l = Some (if ks = [] then None else it (length ks - 1)) \<and>
    (\<forall>k. SL_Seek Mem_KeyComparator l k = Some (it (length (takeWhile (\<lambda>x. Mem_KeyComparator x k < 0) ks))))"

definition mem_at :: "MemTable \<times> nat option \<Rightarrow> (slice \<times> slice) list \<Rightarrow> nat \<Rightarrow> bool" where
  "mem_at x ents i \<longleftrightarrow> i \<le> length ents \<and>
     (\<exists>es it. ents = internal_entries es \<and> list_all entry_ok es \<and> sl_positions (fst x) (map entry_bytes es) it \<and> snd x = it i)"

definition mem_seek_ok :: "slice \<Rightarrow> bool" where
  "mem_seek_ok k \<longleftrightarrow> length k < 2 ^ 32"

lemma mem_atE:
  assumes "mem_at x ents i"
  obtains mem es it where "x = (mem, it i)" "ents = internal_entries es" "\<forall>e \<in> set es. entry_ok e"
    "sl_positions mem (map entry_bytes es) it" "i \<le> length es"
  using assms by (cases x) (auto simp: mem_at_def list_all_iff internal_entries_def)

lemma mem_atI:
  "ents = internal_entries es \<Longrightarrow> \<forall>e \<in> set es. entry_ok e \<Longrightarrow> sl_positions mem (map entry_bytes es) it \<Longrightarrow> i \<le> length es \<Longrightarrow>
   node = it i \<Longrightarrow> mem_at (mem, node) ents i"
  by (auto simp: mem_at_def list_all_iff internal_entries_def)

lemma internal_entries_simps [simp]: "length (internal_entries es) = length es"
  "i < length es \<Longrightarrow> internal_entries es ! i = (entry_ikey (es ! i), en_val (es ! i))"
  by (simp_all add: internal_entries_def)

lemma mem_entry_at:
  assumes "sl_positions mem (map entry_bytes es) it" and "\<forall>e \<in> set es. entry_ok e" and "i < length es"
  shows "\<exists>x. it i = Some x \<and> node_key mem x = entry_bytes (es ! i) \<and> MemTableIterator_key mem x = entry_ikey (es ! i) \<and>
    MemTableIterator_value mem x = en_val (es ! i)"
proof -
  have k: "SL_key mem (it i) = Some (entry_bytes (es ! i))" using assms by (auto simp: sl_positions_def)
  then obtain x where x: "it i = Some x" "node_key mem x = entry_bytes (es ! i)" by (cases "it i") (auto simp: SL_key_def)
  have "entry_ok (es ! i)" using assms by simp
  from entry_bytes_read [OF this] show ?thesis
    using x by (simp add: MemTableIterator_key_def MemTableIterator_value_def)
qed

lemma mem_Seek_takeWhile:
  assumes "\<forall>e \<in> set es. entry_ok e" and "length k < 2 ^ 32"
  shows "length (takeWhile (\<lambda>x. Mem_KeyComparator x (Mem_EncodeKey k) < 0) (map entry_bytes es)) =
    length (takeWhile (\<lambda>e. InternalKey_Compare (fst e) k < 0) (internal_entries es))"
proof -
  have "mem_key (Mem_EncodeKey k) = k"
    using lpslice.dec_enc_all [of k] assms(2)
    by (simp add: mem_key_def Mem_GetLengthPrefixedSlice_eq Mem_EncodeKey_def EncodeLengthPrefixedSlice_def PutVarint32_def)
  then have "takeWhile (\<lambda>x. Mem_KeyComparator x (Mem_EncodeKey k) < 0) (map entry_bytes es) =
      map entry_bytes (takeWhile (\<lambda>e. InternalKey_Compare (entry_ikey e) k < 0) es)"
    using assms(1) by (intro map_takeWhile_cong) (simp add: Mem_KeyComparator_def entry_bytes_read)
  moreover have "takeWhile (\<lambda>e. InternalKey_Compare (fst e) k < 0) (internal_entries es) =
      map (\<lambda>e. (entry_ikey e, en_val e)) (takeWhile (\<lambda>e. InternalKey_Compare (entry_ikey e) k < 0) es)"
    unfolding internal_entries_def by (intro map_takeWhile_cong) simp
  ultimately show ?thesis by simp
qed

interpretation mem_iter: iterator mem_Iter mem_at InternalKey_Compare mem_seek_ok
proof unfold_locales
  fix x ents i
  assume a: "mem_at x ents i"
  then obtain mem es it where x: "x = (mem, it i)" "ents = internal_entries es" and ok: "\<forall>e \<in> set es. entry_ok e"
    and p: "sl_positions mem (map entry_bytes es) it" and i: "i \<le> length es"
    by (rule mem_atE)
  show "i \<le> length ents" using x i by simp
  show "i_Valid mem_Iter x \<longleftrightarrow> i < length ents"
  proof -
    have "it i = None \<longleftrightarrow> length es \<le> i" using p by (simp add: sl_positions_def)
    then show ?thesis using x by (cases "it i") (auto simp: mem_Iter_def SL_Valid_def)
  qed
  show "i_status mem_Iter x = Okay" by (simp add: mem_Iter_def)
  show "\<exists>y. i_SeekToFirst mem_Iter x = Some y \<and> mem_at y ents 0"
    using x p ok by (auto simp: mem_Iter_def sl_positions_def intro!: mem_atI)
  show "\<exists>y. i_SeekToLast mem_Iter x = Some y \<and> mem_at y ents (length ents - 1)"
    using x p ok by (auto simp: mem_Iter_def sl_positions_def intro!: mem_atI)
  show "\<exists>y. i_Seek mem_Iter k x = Some y \<and> mem_at y ents (length (takeWhile (\<lambda>e. InternalKey_Compare (fst e) k < 0) ents))"
    if "mem_seek_ok k" for k
    using x p ok mem_Seek_takeWhile [OF ok, of k] that length_takeWhile_le [of _ ents]
    by (auto simp: mem_Iter_def sl_positions_def MemTableIterator_Seek_def mem_seek_ok_def intro!: mem_atI)
  assume il: "i < length ents"
  then obtain n where n: "it i = Some n" "MemTableIterator_key mem n = entry_ikey (es ! i)"
    "MemTableIterator_value mem n = en_val (es ! i)"
    using mem_entry_at [OF p ok, of i] x by auto
  show "i_key mem_Iter x = fst (ents ! i) \<and> i_value mem_Iter x = snd (ents ! i)"
    using x n il by (simp add: mem_Iter_def)
  show "\<exists>y. i_Next mem_Iter x = Some y \<and> mem_at y ents (Suc i)"
    using x p ok il by (auto simp: mem_Iter_def sl_positions_def intro!: mem_atI)
  have nn: "it (length es) = None" using p by (simp add: sl_positions_def)
  have "SL_Prev Mem_KeyComparator mem (it i) = Some (if i = 0 then None else it (i - 1))"
    using p x il by (auto simp: sl_positions_def)
  then have "i_Prev mem_Iter x = Some (mem, it (if i = 0 then length es else i - 1))"
    by (simp add: x mem_Iter_def nn)
  moreover have "mem_at (mem, it (if i = 0 then length es else i - 1)) ents (if i = 0 then length ents else i - 1)"
    using x p ok il by (auto intro!: mem_atI)
  ultimately show "\<exists>y. i_Prev mem_Iter x = Some y \<and> mem_at y ents (if i = 0 then length ents else i - 1)" by blast
qed

lemma mem_iter_new:
  assumes "mem_rep mem es"
  shows "mem_at (NewMemTableIterator mem) (internal_entries es) (length es)"
proof -
  have "represents Mem_KeyComparator mem (map entry_bytes es)" using assms by (simp add: mem_rep_def)
  from represents_iterator [OF mem_order.key_order_axioms this]
  obtain it where it: "sl_positions mem (map entry_bytes es) it" unfolding sl_positions_def by blast
  then have "it (length es) = None" by (simp add: sl_positions_def)
  then show ?thesis
    using it assms by (auto simp: NewMemTableIterator_def mem_rep_def list_all_iff intro!: mem_atI)
qed

section \<open>DBIter\<close>

datatype Direction = kForward | kReverse

record 'i DBIter =
  db_iter :: 'i
  db_sequence :: u64
  db_status :: status
  db_saved_key :: slice
  db_saved_value :: slice
  db_direction :: Direction
  db_valid :: bool

definition NewDBIterator :: "'i \<Rightarrow> u64 \<Rightarrow> 'i DBIter" where
  "NewDBIterator internal_iter s =
     \<lparr>db_iter = internal_iter, db_sequence = s, db_status = Okay, db_saved_key = [], db_saved_value = [],
      db_direction = kForward, db_valid = False\<rparr>"

definition DBIter_ParseKey :: "'i Iter \<Rightarrow> 'i DBIter \<Rightarrow> 'i DBIter \<times> ParsedInternalKey option" where
  "DBIter_ParseKey I d =
     (case ParseInternalKey (i_key I (db_iter d)) of
        None \<Rightarrow> (d\<lparr>db_status := Corruption ''corrupted internal key in DBIter''\<rparr>, None)
      | Some k \<Rightarrow> (d, Some k))"

text \<open>
  What the loop of \<^verbatim>\<open>FindNextUserEntry\<close> does with one entry. Its callers pass \<^verbatim>\<open>&saved_key_\<close> as \<open>skip\<close>. The
  result says whether the entry is acceptable, and the new \<open>skipping\<close> and \<open>skip\<close>.
\<close>

definition next_user_entry_step :: "u64 \<Rightarrow> ParsedInternalKey option \<Rightarrow> bool \<Rightarrow> slice \<Rightarrow> bool \<times> bool \<times> slice" where
  "next_user_entry_step sq pk skipping skip =
     (case pk of
        None \<Rightarrow> (False, skipping, skip)
      | Some k \<Rightarrow>
          if seqno k \<le> sq then
            if vtype k = ucast (ValueType_value kTypeDeletion) then (False, True, user_key k)
            else if skipping \<and> compare (user_key k) skip \<le> 0 then (False, skipping, skip)
            else (True, skipping, skip)
          else (False, skipping, skip))"

partial_function (option) find_next_user_entry :: "'i Iter \<Rightarrow> 'i DBIter \<Rightarrow> bool \<Rightarrow> 'i DBIter option" where
  "find_next_user_entry I d skipping =
     (case DBIter_ParseKey I d of (d, pk) \<Rightarrow>
      case next_user_entry_step (db_sequence d) pk skipping (db_saved_key d) of (found, skipping, skip) \<Rightarrow>
        if found then Some (d\<lparr>db_valid := True, db_saved_key := []\<rparr>)
        else
          case i_Next I (db_iter d) of
            None \<Rightarrow> None
          | Some it \<Rightarrow>
              if i_Valid I it then find_next_user_entry I (d\<lparr>db_iter := it, db_saved_key := skip\<rparr>) skipping
              else Some (d\<lparr>db_iter := it, db_saved_key := [], db_valid := False\<rparr>))"

definition FindNextUserEntry :: "'i Iter \<Rightarrow> 'i DBIter \<Rightarrow> bool \<Rightarrow> 'i DBIter option" where
  "FindNextUserEntry I d skipping =
     (if i_Valid I (db_iter d) \<and> db_direction d = kForward then find_next_user_entry I d skipping else None)"

definition DBIter_Next :: "'i Iter \<Rightarrow> 'i DBIter \<Rightarrow> 'i DBIter option" where
  "DBIter_Next I d =
     (if \<not> db_valid d then None
      else if db_direction d = kReverse then
        let d = d\<lparr>db_direction := kForward\<rparr>
        in case (if \<not> i_Valid I (db_iter d) then i_SeekToFirst I (db_iter d) else i_Next I (db_iter d)) of
             None \<Rightarrow> None
           | Some it \<Rightarrow>
               let d = d\<lparr>db_iter := it\<rparr>
               in if \<not> i_Valid I it then Some (d\<lparr>db_valid := False, db_saved_key := []\<rparr>)
                  else FindNextUserEntry I d True
      else FindNextUserEntry I (d\<lparr>db_saved_key := ExtractUserKey (i_key I (db_iter d))\<rparr>) True)"

text \<open>
  The loop of \<^verbatim>\<open>FindPrevUserEntry\<close>, first what it does with one entry: whether it stops there, and the new
  \<open>value_type\<close> (a deletion at the start), saved key and saved value.
\<close>

definition prev_user_entry_step ::
  "u64 \<Rightarrow> ParsedInternalKey option \<Rightarrow> slice \<Rightarrow> byte \<Rightarrow> slice \<Rightarrow> slice \<Rightarrow> bool \<times> byte \<times> slice \<times> slice" where
  "prev_user_entry_step sq pk raw_value value_type saved_key saved_value =
     (case pk of
        None \<Rightarrow> (False, value_type, saved_key, saved_value)
      | Some k \<Rightarrow>
          if seqno k \<le> sq then
            if value_type \<noteq> ucast (ValueType_value kTypeDeletion) \<and> compare (user_key k) saved_key < 0
            then (True, value_type, saved_key, saved_value)
            else if vtype k = ucast (ValueType_value kTypeDeletion) then (False, vtype k, [], [])
            else (False, vtype k, user_key k, raw_value)
          else (False, value_type, saved_key, saved_value))"

partial_function (option) find_prev_user_entry :: "'i Iter \<Rightarrow> 'i DBIter \<Rightarrow> byte \<Rightarrow> ('i DBIter \<times> byte) option" where
  "find_prev_user_entry I d value_type =
     (case DBIter_ParseKey I d of (d, pk) \<Rightarrow>
      case prev_user_entry_step (db_sequence d) pk (i_value I (db_iter d)) value_type (db_saved_key d) (db_saved_value d) of
        (stop, value_type, sk, sv) \<Rightarrow>
        if stop then Some (d, value_type)
        else
          case i_Prev I (db_iter d) of
            None \<Rightarrow> None
          | Some it \<Rightarrow>
              let d = d\<lparr>db_iter := it, db_saved_key := sk, db_saved_value := sv\<rparr>
              in if i_Valid I it then find_prev_user_entry I d value_type else Some (d, value_type))"

definition FindPrevUserEntry :: "'i Iter \<Rightarrow> 'i DBIter \<Rightarrow> 'i DBIter option" where
  "FindPrevUserEntry I d =
     (if db_direction d \<noteq> kReverse then None
      else
        case (if i_Valid I (db_iter d) then find_prev_user_entry I d (ucast (ValueType_value kTypeDeletion))
              else Some (d, ucast (ValueType_value kTypeDeletion))) of
          None \<Rightarrow> None
        | Some (d, value_type) \<Rightarrow>
            if value_type = ucast (ValueType_value kTypeDeletion)
            then Some (d\<lparr>db_valid := False, db_saved_key := [], db_saved_value := [], db_direction := kForward\<rparr>)
            else Some (d\<lparr>db_valid := True\<rparr>))"

text \<open>The loop of \<^verbatim>\<open>Prev\<close> that leaves the entries of the current key; \<open>False\<close> when nothing is before them.\<close>

partial_function (option) leave_key_backwards :: "'i Iter \<Rightarrow> 'i DBIter \<Rightarrow> ('i DBIter \<times> bool) option" where
  "leave_key_backwards I d =
     (case i_Prev I (db_iter d) of
        None \<Rightarrow> None
      | Some it \<Rightarrow>
          let d = d\<lparr>db_iter := it\<rparr>
          in if \<not> i_Valid I it then Some (d\<lparr>db_valid := False, db_saved_key := [], db_saved_value := []\<rparr>, False)
             else if compare (ExtractUserKey (i_key I it)) (db_saved_key d) < 0 then Some (d, True)
             else leave_key_backwards I d)"

definition DBIter_Prev :: "'i Iter \<Rightarrow> 'i DBIter \<Rightarrow> 'i DBIter option" where
  "DBIter_Prev I d =
     (if \<not> db_valid d then None
      else if db_direction d = kForward then
        if \<not> i_Valid I (db_iter d) then None
        else
          case leave_key_backwards I (d\<lparr>db_saved_key := ExtractUserKey (i_key I (db_iter d))\<rparr>) of
            None \<Rightarrow> None
          | Some (d, found) \<Rightarrow> if found then FindPrevUserEntry I (d\<lparr>db_direction := kReverse\<rparr>) else Some d
      else FindPrevUserEntry I d)"

definition DBIter_Seek :: "'i Iter \<Rightarrow> slice \<Rightarrow> 'i DBIter \<Rightarrow> 'i DBIter option" where
  "DBIter_Seek I target d =
     (case AppendInternalKey [] \<lparr>user_key = target, seqno = db_sequence d, vtype = ucast (ValueType_value kValueTypeForSeek)\<rparr> of
        None \<Rightarrow> None
      | Some k \<Rightarrow>
          case i_Seek I k (db_iter d) of
            None \<Rightarrow> None
          | Some it \<Rightarrow>
              let d = d\<lparr>db_direction := kForward, db_saved_value := [], db_saved_key := k, db_iter := it\<rparr>
              in if i_Valid I it then FindNextUserEntry I d False else Some (d\<lparr>db_valid := False\<rparr>))"

definition DBIter_SeekToFirst :: "'i Iter \<Rightarrow> 'i DBIter \<Rightarrow> 'i DBIter option" where
  "DBIter_SeekToFirst I d =
     (case i_SeekToFirst I (db_iter d) of
        None \<Rightarrow> None
      | Some it \<Rightarrow>
          let d = d\<lparr>db_direction := kForward, db_saved_value := [], db_iter := it\<rparr>
          in if i_Valid I it then FindNextUserEntry I d False else Some (d\<lparr>db_valid := False\<rparr>))"

definition DBIter_SeekToLast :: "'i Iter \<Rightarrow> 'i DBIter \<Rightarrow> 'i DBIter option" where
  "DBIter_SeekToLast I d =
     (case i_SeekToLast I (db_iter d) of
        None \<Rightarrow> None
      | Some it \<Rightarrow> FindPrevUserEntry I (d\<lparr>db_direction := kReverse, db_saved_value := [], db_iter := it\<rparr>))"

definition DBIter_key :: "'i Iter \<Rightarrow> 'i DBIter \<Rightarrow> slice" where
  "DBIter_key I d = (if db_direction d = kForward then ExtractUserKey (i_key I (db_iter d)) else db_saved_key d)"

definition DBIter_value :: "'i Iter \<Rightarrow> 'i DBIter \<Rightarrow> slice" where
  "DBIter_value I d = (if db_direction d = kForward then i_value I (db_iter d) else db_saved_value d)"

definition DBIter_status :: "'i Iter \<Rightarrow> 'i DBIter \<Rightarrow> status" where
  "DBIter_status I d = (if ok (db_status d) then i_status I (db_iter d) else db_status d)"

definition DBIter_Iter :: "'i Iter \<Rightarrow> 'i DBIter Iter" where
  "DBIter_Iter I =
     \<lparr>i_Valid = db_valid, i_key = DBIter_key I, i_value = DBIter_value I, i_status = DBIter_status I,
      i_Next = DBIter_Next I, i_Prev = DBIter_Prev I, i_Seek = DBIter_Seek I,
      i_SeekToFirst = DBIter_SeekToFirst I, i_SeekToLast = DBIter_SeekToLast I\<rparr>"

section \<open>What a reader sees\<close>

text \<open>The entries that the reader at sequence number \<open>s\<close> sees: the newest of their key, and not a tombstone.\<close>

definition visible :: "u64 \<Rightarrow> entry list \<Rightarrow> entry \<Rightarrow> bool" where
  "visible s es e \<longleftrightarrow> newest es (en_key e) s = Some e \<and> en_type e = kTypeValue"

definition user_entries :: "u64 \<Rightarrow> entry list \<Rightarrow> (slice \<times> slice) list" where
  "user_entries s es = map (\<lambda>e. (en_key e, en_val e)) (filter (visible s es) es)"

definition entries_ok :: "entry list \<Rightarrow> bool" where
  "entries_ok es \<longleftrightarrow> list_all entry_ok es \<and> sorted_wrt entry_less es"

lemma newestD: "newest es k s = Some e \<Longrightarrow> e \<in> set es \<and> en_key e = k \<and> en_seq e \<le> s"
  unfolding newest_def by (erule find_SomeE) auto

lemma visibleD: "visible s es e \<Longrightarrow> e \<in> set es \<and> en_seq e \<le> s \<and> en_type e = kTypeValue"
  unfolding visible_def using newestD by blast

text \<open>Keys never go down along the list.\<close>

lemma entries_keys:
  assumes "entries_ok (xs @ ys)" and "x \<in> set xs" and "y \<in> set ys"
  shows "\<not> bytes_less (en_key y) (en_key x)"
proof -
  have "entry_less x y" using assms by (auto simp: entries_ok_def sorted_wrt_append)
  then show ?thesis
    using bytes_less_asym [of "en_key x" "en_key y"] by (auto simp: entry_less_def ikey_less_def entry_ikey_def)
qed

lemma newest_first:
  assumes ok: "entries_ok (xs @ e # ys)" and e: "en_seq e \<le> s" and no: "\<forall>x \<in> set xs. en_key x = en_key e \<longrightarrow> s < en_seq x"
  shows "newest (xs @ e # ys) (en_key e) s = Some e"
proof -
  have "find (\<lambda>x. en_key x = en_key e \<and> en_seq x \<le> s) xs = None" using no by (auto simp: find_None_iff not_le)
  then show ?thesis using e by (simp add: newest_def find_append)
qed

lemma newest_not_later:
  assumes ok: "entries_ok (xs @ e # ys)" and y: "y \<in> set xs" "en_key y = en_key e" "en_seq y \<le> s"
  shows "newest (xs @ e # ys) (en_key e) s \<noteq> Some e"
proof
  assume "newest (xs @ e # ys) (en_key e) s = Some e"
  then have n: "find (\<lambda>x. en_key x = en_key e \<and> en_seq x \<le> s) (xs @ e # ys) = Some e" by (simp add: newest_def)
  obtain z where z: "find (\<lambda>x. en_key x = en_key e \<and> en_seq x \<le> s) xs = Some z"
    using y by (cases "find (\<lambda>x. en_key x = en_key e \<and> en_seq x \<le> s) xs") (auto simp: find_None_iff)
  then have "z = e" using n by (simp add: find_append)
  moreover have "z \<in> set xs" using z by (auto elim!: find_SomeE)
  ultimately have "entry_less e e" using ok by (auto simp: entries_ok_def sorted_wrt_append)
  then show False by (simp add: entry_less_def)
qed

section \<open>The forward scan\<close>

fun scan :: "u64 \<Rightarrow> bool \<Rightarrow> slice \<Rightarrow> entry list \<Rightarrow> entry list" where
  "scan s sk skip [] = []"
| "scan s sk skip (e # es) =
     (if en_seq e \<le> s then
        (case en_type e of
           kTypeDeletion \<Rightarrow> scan s True (en_key e) es
         | kTypeValue \<Rightarrow> if sk \<and> \<not> bytes_less skip (en_key e) then scan s sk skip es else e # es)
      else scan s sk skip es)"

text \<open>What \<open>skipping\<close> and \<open>skip\<close> know: which of the entries ahead are hidden by one already passed.\<close>

definition scan_knows :: "u64 \<Rightarrow> bool \<Rightarrow> slice \<Rightarrow> entry list \<Rightarrow> entry list \<Rightarrow> bool" where
  "scan_knows s sk skip pre suf \<longleftrightarrow>
     (\<forall>x \<in> set suf. en_seq x \<le> s \<longrightarrow>
        ((\<exists>y \<in> set pre. en_key y = en_key x \<and> en_seq y \<le> s) \<longleftrightarrow> sk \<and> \<not> bytes_less skip (en_key x)))"

lemma scan_finds:
  assumes "entries_ok (pre @ suf)" and "scan_knows s sk skip pre suf"
  shows "scan s sk skip suf = dropWhile (\<lambda>e. \<not> visible s (pre @ suf) e) suf"
  using assms
proof (induction suf arbitrary: pre sk skip)
  case Nil
  then show ?case by simp
next
  case (Cons e suf)
  have ok: "entries_ok ((pre @ [e]) @ suf)" using Cons.prems(1) by simp
  have IH: "scan s sk skip suf = dropWhile (\<lambda>x. \<not> visible s (pre @ e # suf) x) suf"
    if "scan_knows s sk skip (pre @ [e]) suf" for sk skip
    using Cons.IH [OF ok that] by simp
  have le: "\<not> bytes_less (en_key x) (en_key e)" if "x \<in> set suf" for x
    using entries_keys [OF ok, of e x] that by simp
  have pe: "\<not> bytes_less (en_key e) (en_key y)" if "y \<in> set pre" for y
    using entries_keys [OF Cons.prems(1), of y e] that by simp
  have k0: "(\<exists>y \<in> set pre. en_key y = en_key x \<and> en_seq y \<le> s) \<longleftrightarrow> sk \<and> \<not> bytes_less skip (en_key x)"
    if "x \<in> set (e # suf)" "en_seq x \<le> s" for x
    using Cons.prems(2) that unfolding scan_knows_def by blast
  have sandwich: "en_key y = en_key x \<Longrightarrow> en_key e = en_key x" if "y \<in> set pre" "x \<in> set suf" for x y
    using le [OF that(2)] pe [OF that(1)] bytes_less_linear [of "en_key e" "en_key x"] by auto
  show ?case
  proof (cases "en_seq e \<le> s")
    case False
    then have "scan_knows s sk skip (pre @ [e]) suf" using k0 by (auto simp: scan_knows_def)
    moreover have "\<not> visible s (pre @ e # suf) e"
      using False visibleD by blast
    ultimately show ?thesis using IH False by simp
  next
    case seq: True
    show ?thesis
    proof (cases "en_type e")
      case kTypeDeletion
      have "scan_knows s True (en_key e) (pre @ [e]) suf"
        unfolding scan_knows_def
      proof (intro ballI impI)
        fix x assume x: "x \<in> set suf" "en_seq x \<le> s"
        have "\<not> bytes_less (en_key e) (en_key x) \<longleftrightarrow> en_key e = en_key x"
          using le [OF x(1)] bytes_less_linear by auto
        then show "(\<exists>y \<in> set (pre @ [e]). en_key y = en_key x \<and> en_seq y \<le> s) \<longleftrightarrow> True \<and> \<not> bytes_less (en_key e) (en_key x)"
          using seq sandwich x(1) by auto
      qed
      moreover have "\<not> visible s (pre @ e # suf) e" using kTypeDeletion by (simp add: visible_def)
      ultimately show ?thesis using IH seq kTypeDeletion by simp
    next
      case kTypeValue
      show ?thesis
      proof (cases "sk \<and> \<not> bytes_less skip (en_key e)")
        case True
        then obtain y where y: "y \<in> set pre" "en_key y = en_key e" "en_seq y \<le> s" using k0 [of e] seq by auto
        have "\<not> visible s (pre @ e # suf) e" using newest_not_later [OF Cons.prems(1) y] by (simp add: visible_def)
        moreover have "scan_knows s sk skip (pre @ [e]) suf"
          using k0 True y by (auto simp: scan_knows_def)
        ultimately show ?thesis using IH seq kTypeValue True by simp
      next
        case False
        then have "\<forall>x \<in> set pre. en_key x = en_key e \<longrightarrow> s < en_seq x" using k0 [of e] seq by (auto simp: not_le)
        then have "visible s (pre @ e # suf) e"
          using newest_first [OF Cons.prems(1) seq] kTypeValue by (simp add: visible_def)
        then show ?thesis using seq kTypeValue False by auto
      qed
    qed
  qed
qed

text \<open>Behind the entries of a key.\<close>

lemma scan_past_key:
  "\<forall>x \<in> set A. s < en_seq x \<or> \<not> bytes_less k (en_key x) \<and> (en_type x = kTypeDeletion \<longrightarrow> en_key x = k) \<Longrightarrow>
   scan s True k (A @ B) = scan s True k B"
  by (induction A) (auto simp: not_le split: ValueType.splits)

text \<open>\<^verbatim>\<open>FindNextUserEntry\<close> is the scan. The state of the iterator after it: over \<open>es\<close>, at the entry \<open>r\<close> begins with.\<close>

definition moved :: "'i DBIter \<Rightarrow> 'i DBIter \<Rightarrow> bool" where
  "moved d d' \<longleftrightarrow> db_sequence d' = db_sequence d \<and> db_status d' = db_status d"

lemma moved_simps [simp]: "moved d d" "moved d d' \<Longrightarrow> moved d' d'' \<Longrightarrow> moved d d''"
  by (simp_all add: moved_def)

context iterator
begin

lemma parse_entry:
  assumes at: "at (db_iter d) (internal_entries (pre @ e # suf)) (length pre)" and ok: "entry_ok e"
  shows "DBIter_ParseKey I d = (d, Some \<lparr>user_key = en_key e, seqno = en_seq e, vtype = ucast (ValueType_value (en_type e))\<rparr>)"
    "i_key I (db_iter d) = entry_ikey e" "i_value I (db_iter d) = en_val e"
proof -
  have "i_key I (db_iter d) = entry_ikey e \<and> i_value I (db_iter d) = en_val e"
    using entry [OF at] by simp
  then show "i_key I (db_iter d) = entry_ikey e" "i_value I (db_iter d) = en_val e"
    and "DBIter_ParseKey I d = (d, Some \<lparr>user_key = en_key e, seqno = en_seq e, vtype = ucast (ValueType_value (en_type e))\<rparr>)"
    using ParseInternalKey_ikey [of "en_seq e" "en_key e" "en_type e"] ok
    by (simp_all add: DBIter_ParseKey_def entry_ikey_def entry_ok_def)
qed

lemma find_next_scan:
  assumes "at (db_iter d) (internal_entries (pre @ suf)) (length pre)" and "suf \<noteq> []" and "list_all entry_ok suf"
  shows "\<exists>d'. find_next_user_entry I d sk = Some d' \<and> moved d d' \<and> db_direction d' = db_direction d \<and>
    (\<exists>mid r. suf = mid @ r \<and> scan (db_sequence d) sk (db_saved_key d) suf = r \<and>
       at (db_iter d') (internal_entries (pre @ suf)) (length (pre @ mid)) \<and> (db_valid d' \<longleftrightarrow> r \<noteq> []))"
  using assms
proof (induction suf arbitrary: d sk pre)
  case Nil
  then show ?case by simp
next
  case (Cons e suf)
  have ok: "entry_ok e" "list_all entry_ok suf" using Cons.prems(3) by simp_all
  note pe = parse_entry [OF Cons.prems(1) ok(1)]
  let ?s = "db_sequence d"
  let ?pk = "\<lparr>user_key = en_key e, seqno = en_seq e, vtype = ucast (ValueType_value (en_type e))\<rparr>"
  obtain found sk' skip' where st: "next_user_entry_step ?s (Some ?pk) sk (db_saved_key d) = (found, sk', skip')"
    by (cases "next_user_entry_step ?s (Some ?pk) sk (db_saved_key d)") auto
  have sc: "scan ?s sk (db_saved_key d) (e # suf) = (if found then e # suf else scan ?s sk' skip' suf)"
    using st by (cases "en_type e") (auto simp: next_user_entry_step_def compare_le split: if_splits)
  show ?case
  proof (cases found)
    case True
    have "find_next_user_entry I d sk = Some (d\<lparr>db_valid := True, db_saved_key := []\<rparr>)"
      by (subst find_next_user_entry.simps) (simp add: pe st True)
    moreover have "\<exists>mid r. e # suf = mid @ r \<and> scan ?s sk (db_saved_key d) (e # suf) = r \<and>
        at (db_iter d) (internal_entries (pre @ e # suf)) (length (pre @ mid)) \<and> r \<noteq> []"
      by (rule exI [of _ "[]"]) (use sc True Cons.prems(1) in simp)
    ultimately show ?thesis by (simp add: moved_def)
  next
    case False
    obtain y where y: "i_Next I (db_iter d) = Some y" "at y (internal_entries (pre @ e # suf)) (Suc (length pre))"
      using Next [OF Cons.prems(1)] by auto
    have v: "i_Valid I y \<longleftrightarrow> suf \<noteq> []" using Valid [OF y(2)] by auto
    show ?thesis
    proof (cases "suf = []")
      case True
      have "find_next_user_entry I d sk = Some (d\<lparr>db_iter := y, db_saved_key := [], db_valid := False\<rparr>)"
        by (subst find_next_user_entry.simps) (simp add: pe st False y v True)
      moreover have "\<exists>mid r. e # suf = mid @ r \<and> scan ?s sk (db_saved_key d) (e # suf) = r \<and>
          at y (internal_entries (pre @ e # suf)) (length (pre @ mid)) \<and> r = []"
        by (rule exI [of _ "[e]"]) (use sc False True y(2) in simp)
      ultimately show ?thesis by (simp add: moved_def)
    next
      case ne: False
      let ?d = "d\<lparr>db_iter := y, db_saved_key := skip'\<rparr>"
      have "at (db_iter ?d) (internal_entries ((pre @ [e]) @ suf)) (length (pre @ [e]))" using y(2) by simp
      from Cons.IH [OF this ne ok(2), of sk'] obtain d' mid r where d': "find_next_user_entry I ?d sk' = Some d'" "moved ?d d'"
        "db_direction d' = db_direction ?d" "suf = mid @ r" "scan (db_sequence ?d) sk' (db_saved_key ?d) suf = r"
        "at (db_iter d') (internal_entries ((pre @ [e]) @ suf)) (length ((pre @ [e]) @ mid))" "db_valid d' \<longleftrightarrow> r \<noteq> []"
        by blast
      have "find_next_user_entry I d sk = Some d'"
        using d'(1) by (subst find_next_user_entry.simps) (simp add: pe st False y v ne)
      moreover have "\<exists>mid r. e # suf = mid @ r \<and> scan ?s sk (db_saved_key d) (e # suf) = r \<and>
          at (db_iter d') (internal_entries (pre @ e # suf)) (length (pre @ mid)) \<and> (db_valid d' \<longleftrightarrow> r \<noteq> [])"
        by (rule exI [of _ "e # mid"]) (use sc False d'(4-7) in simp)
      ultimately show ?thesis using d'(2,3) by (simp add: moved_def)
    qed
  qed
qed

end

section \<open>The backward scan\<close>

fun bscan :: "u64 \<Rightarrow> (slice \<times> slice) option \<Rightarrow> entry list \<Rightarrow> entry list \<times> (slice \<times> slice) option" where
  "bscan s st [] = ([], st)"
| "bscan s st (e # ps) =
     (if en_seq e \<le> s then
        if st \<noteq> None \<and> bytes_less (en_key e) (fst (the st)) then (e # ps, st)
        else bscan s (case en_type e of kTypeDeletion \<Rightarrow> None | kTypeValue \<Rightarrow> Some (en_key e, en_val e)) ps
      else bscan s st ps)"

text \<open>
  What the scan has found in the part \<open>mid\<close> it has passed: nothing visible, or a value that is visible
  unless an entry of the same key comes before it.
\<close>

definition bscan_knows :: "u64 \<Rightarrow> entry list \<Rightarrow> entry list \<Rightarrow> (slice \<times> slice) option \<Rightarrow> bool" where
  "bscan_knows s es mid st \<longleftrightarrow>
     (case st of
        None \<Rightarrow> \<forall>x \<in> set mid. \<not> visible s es x
      | Some (k, v) \<Rightarrow> \<exists>q f post. mid = q @ f # post \<and> (\<forall>x \<in> set q. s < en_seq x) \<and> en_seq f \<le> s \<and> en_type f = kTypeValue \<and>
          k = en_key f \<and> v = en_val f \<and> (\<forall>x \<in> set post. \<not> visible s es x))"

definition bscan_found :: "u64 \<Rightarrow> entry list \<Rightarrow> entry list \<Rightarrow> entry list \<times> (slice \<times> slice) option \<Rightarrow> bool" where
  "bscan_found s es P res \<longleftrightarrow>
     (case res of
        (ps, None) \<Rightarrow> ps = [] \<and> (\<forall>x \<in> set P. \<not> visible s es x)
      | (ps, Some (k, v)) \<Rightarrow> \<exists>q f post. P = rev ps @ q @ f # post \<and> (\<forall>x \<in> set q. s < en_seq x) \<and> visible s es f \<and>
          k = en_key f \<and> v = en_val f \<and> (\<forall>x \<in> set post. \<not> visible s es x))"

lemma bscan_finds:
  assumes "entries_ok ((rev ps @ mid) @ out)" and "bscan_knows s ((rev ps @ mid) @ out) mid st"
  shows "bscan_found s ((rev ps @ mid) @ out) (rev ps @ mid) (bscan s st ps)"
  using assms
proof (induction ps arbitrary: mid st)
  case Nil
  show ?case
  proof (cases st)
    case None
    then show ?thesis using Nil by (simp add: bscan_knows_def bscan_found_def)
  next
    case (Some kv)
    obtain k v where kv: "kv = (k, v)" by (cases kv)
    then obtain q f post where f: "mid = q @ f # post" "\<forall>x \<in> set q. s < en_seq x" "en_seq f \<le> s" "en_type f = kTypeValue"
      "k = en_key f" "v = en_val f" "\<forall>x \<in> set post. \<not> visible s (mid @ out) x"
      using Nil.prems(2) Some by (auto simp: bscan_knows_def)
    have "entries_ok (q @ f # (post @ out))" using Nil.prems(1) f(1) by simp
    from newest_first [OF this f(3)] f(2,4) have "visible s (mid @ out) f" using f(1) by (auto simp: visible_def)
    then show ?thesis using f Some kv by (auto simp: bscan_found_def)
  qed
next
  case (Cons e ps)
  define es where "es = rev ps @ [e] @ mid @ out"
  have es: "(rev (e # ps) @ mid) @ out = es" "(rev ps @ (e # mid)) @ out = es" by (simp_all add: es_def)
  have ok: "entries_ok es" using Cons.prems(1) by (simp only: es)
  note kn = Cons.prems(2) [unfolded es]
  have IH: "bscan_found s es (rev ps @ e # mid) (bscan s st' ps)" if "bscan_knows s es (e # mid) st'" for st'
    using Cons.IH [of "e # mid" st'] ok that by (simp only: es)
  show ?case
  proof (cases "en_seq e \<le> s")
    case False
    then have "\<not> visible s es e" using visibleD by blast
    then have "bscan_knows s es (e # mid) st"
      using kn False by (auto simp: bscan_knows_def not_le split: option.splits intro: exI [of _ "e # _"]) (metis append_Cons set_ConsD)
    from IH [OF this] show ?thesis using False by (simp only: es) simp
  next
    case seq: True
    show ?thesis
    proof (cases "st \<noteq> None \<and> bytes_less (en_key e) (fst (the st))")
      case True
      then obtain k v where st: "st = Some (k, v)" "bytes_less (en_key e) k" by auto
      then obtain q f post where f: "mid = q @ f # post" "\<forall>x \<in> set q. s < en_seq x" "en_seq f \<le> s" "en_type f = kTypeValue"
        "k = en_key f" "v = en_val f" "\<forall>x \<in> set post. \<not> visible s es x"
        using kn by (auto simp: bscan_knows_def)
      have e2: "es = (rev ps @ [e] @ q) @ f # (post @ out)" by (simp add: es_def f(1))
      have "s < en_seq x" if x: "x \<in> set (rev ps @ [e] @ q)" "en_key x = en_key f" for x
      proof (cases "x \<in> set q")
        case False
        then have "x = e \<or> x \<in> set (rev ps)" using x(1) by auto
        then have "\<not> bytes_less (en_key e) (en_key x)"
          using entries_keys [of "rev ps" "[e] @ mid @ out" x e] ok by (auto simp: es_def)
        then show ?thesis using st f(5) x(2) by simp
      qed (use f(2) in simp)
      then have "newest es (en_key f) s = Some f"
        using newest_first [of "rev ps @ [e] @ q" f "post @ out" s] ok f(3) unfolding e2 by blast
      then have "visible s es f" using f(4) by (simp add: visible_def)
      then have "bscan_found s es (rev (e # ps) @ mid) (e # ps, st)"
        using f st(1) by (auto simp: bscan_found_def)
      then show ?thesis using seq True by (simp only: es) simp
    next
      case False
      have mid: "\<not> visible s es x" if x: "x \<in> set mid" for x
      proof (cases st)
        case None
        then show ?thesis using kn x by (simp add: bscan_knows_def)
      next
        case (Some kv)
        then obtain k v where st: "st = Some (k, v)" by (cases kv) auto
        then obtain q f post where f: "mid = q @ f # post" "\<forall>x \<in> set q. s < en_seq x" "en_seq f \<le> s" "k = en_key f"
          "\<forall>x \<in> set post. \<not> visible s es x"
          using kn by (auto simp: bscan_knows_def)
        have "\<not> bytes_less (en_key f) (en_key e)"
          using entries_keys [of "rev ps @ [e]" "mid @ out" e f] ok f(1) by (simp add: es_def)
        then have ef: "en_key e = en_key f" using False st f(4) bytes_less_linear [of "en_key e" "en_key f"] by auto
        have e2: "es = (rev ps @ [e] @ q) @ f # (post @ out)" by (simp add: es_def f(1))
        have "newest es (en_key f) s \<noteq> Some f"
          using newest_not_later [of "rev ps @ [e] @ q" f "post @ out" e s] ok ef seq unfolding e2 by simp
        then have "\<not> visible s es f" by (simp add: visible_def)
        moreover have "\<not> visible s es x" if "x \<in> set q" using f(2) that visibleD by (metis not_le)
        ultimately show ?thesis using f x by auto
      qed
      let ?st = "case en_type e of kTypeDeletion \<Rightarrow> None | kTypeValue \<Rightarrow> Some (en_key e, en_val e)"
      have "bscan_knows s es (e # mid) ?st"
      proof (cases "en_type e")
        case kTypeDeletion
        then have "\<not> visible s es e" using visibleD by fastforce
        then show ?thesis using kTypeDeletion mid by (simp add: bscan_knows_def)
      next
        case kTypeValue
        have "e # mid = [] @ e # mid" by simp
        then show ?thesis using kTypeValue mid seq unfolding bscan_knows_def
          by (simp only: ValueType.case option.case prod.case) (metis empty_iff list.set(1))
      qed
      from IH [OF this] show ?thesis using seq False by (simp only: es) auto
    qed
  qed
qed

definition saved_is :: "'i DBIter \<Rightarrow> byte \<Rightarrow> (slice \<times> slice) option \<Rightarrow> bool" where
  "saved_is d vt st \<longleftrightarrow> (case st of None \<Rightarrow> vt = 0 | Some (k, v) \<Rightarrow> vt = 1 \<and> db_saved_key d = k \<and> db_saved_value d = v)"

text \<open>The position just behind the entries \<open>rev ps\<close>: at the last of them, or outside when there is none.\<close>

definition last_pos :: "entry list \<Rightarrow> entry list \<Rightarrow> nat" where
  "last_pos ps es = (if ps = [] then length es else length ps - 1)"

context iterator
begin

lemma find_prev_bscan:
  assumes "at (db_iter d) (internal_entries es) (last_pos ps es)" and "es = rev ps @ out" and "ps \<noteq> []"
    and "list_all entry_ok es" and "saved_is d vt st"
  shows "\<exists>d' vt' ps' st'. find_prev_user_entry I d vt = Some (d', vt') \<and> bscan (db_sequence d) st ps = (ps', st') \<and>
    moved d d' \<and> db_direction d' = db_direction d \<and> saved_is d' vt' st' \<and>
    at (db_iter d') (internal_entries es) (last_pos ps' es)"
  using assms
proof (induction ps arbitrary: d vt st out)
  case Nil
  then show ?case by simp
next
  case (Cons e ps)
  have es: "es = rev ps @ e # out" using Cons.prems(2) by simp
  have ok: "entry_ok e" using Cons.prems(4) es by simp
  have pos: "at (db_iter d) (internal_entries (rev ps @ e # out)) (length (rev ps))"
    using Cons.prems(1) es by (simp add: last_pos_def)
  note pe = parse_entry [OF pos ok]
  let ?s = "db_sequence d"
  let ?pk = "\<lparr>user_key = en_key e, seqno = en_seq e, vtype = ucast (ValueType_value (en_type e))\<rparr>"
  let ?stop = "en_seq e \<le> ?s \<and> st \<noteq> None \<and> bytes_less (en_key e) (fst (the st))"
  let ?st = "if en_seq e \<le> ?s then (case en_type e of kTypeDeletion \<Rightarrow> None | kTypeValue \<Rightarrow> Some (en_key e, en_val e)) else st"
  obtain stop vt' k' v' where st: "prev_user_entry_step ?s (Some ?pk) (en_val e) vt (db_saved_key d) (db_saved_value d) = (stop, vt', k', v')"
    by (cases "prev_user_entry_step ?s (Some ?pk) (en_val e) vt (db_saved_key d) (db_saved_value d)") auto
  have stop: "stop \<longleftrightarrow> ?stop" "stop \<Longrightarrow> vt' = vt"
    "\<not> stop \<Longrightarrow> saved_is (d\<lparr>db_iter := y, db_saved_key := k', db_saved_value := v'\<rparr>) vt' ?st" for y
    using st Cons.prems(5)
    by (cases st; cases "en_type e"; auto simp: prev_user_entry_step_def saved_is_def compare_simps split: if_splits prod.splits)+
  show ?case
  proof (cases stop)
    case True
    have "find_prev_user_entry I d vt = Some (d, vt)"
      using True stop(2) by (subst find_prev_user_entry.simps) (simp add: pe st)
    moreover have "bscan ?s st (e # ps) = (e # ps, st)" using True stop(1) by simp
    ultimately show ?thesis using Cons.prems(1,5) by auto
  next
    case False
    have il: "length (rev ps) < length (internal_entries (rev ps @ e # out))" by simp
    obtain y where y: "i_Prev I (db_iter d) = Some y"
      "at y (internal_entries (rev ps @ e # out)) (if length (rev ps) = 0 then length (internal_entries (rev ps @ e # out)) else length (rev ps) - 1)"
      using Prev [OF pos il] by blast
    then have y': "at y (internal_entries es) (last_pos ps es)" using es by (auto simp: last_pos_def)
    have v: "i_Valid I y \<longleftrightarrow> ps \<noteq> []" using Valid [OF y'] es by (auto simp: last_pos_def)
    have b: "bscan ?s st (e # ps) = bscan ?s ?st ps" using False stop(1) by auto
    let ?d = "d\<lparr>db_iter := y, db_saved_key := k', db_saved_value := v'\<rparr>"
    have step: "find_prev_user_entry I d vt = (if ps \<noteq> [] then find_prev_user_entry I ?d vt' else Some (?d, vt'))"
      using False by (subst find_prev_user_entry.simps) (simp add: pe st y v Let_def)
    show ?thesis
    proof (cases "ps = []")
      case True
      then have "find_prev_user_entry I d vt = Some (?d, vt')" "bscan ?s st (e # ps) = ([], ?st)" using step b by simp_all
      then show ?thesis using stop(3) [OF False, of y] y' True by (auto simp: moved_def)
    next
      case ne: False
      have "at (db_iter ?d) (internal_entries es) (last_pos ps es)" using y' by simp
      from Cons.IH [OF this es ne Cons.prems(4) stop(3) [OF False]] step b ne
      show ?thesis by (simp add: moved_def)
    qed
  qed
qed

end

section \<open>DBIter is an iterator over what the reader sees\<close>

text \<open>
  The two states the comment in the source describes: forward, the internal iterator is at the entry of the
  current key; reverse, the key and value are saved and the internal iterator is before all entries that the
  reader sees of this key.
\<close>

definition db_here :: "('i \<Rightarrow> (slice \<times> slice) list \<Rightarrow> nat \<Rightarrow> bool) \<Rightarrow> 'i DBIter \<Rightarrow> entry list \<Rightarrow> entry list \<Rightarrow> entry \<Rightarrow> entry list \<Rightarrow> bool" where
  "db_here at d es pre e post \<longleftrightarrow>
     es = pre @ e # post \<and> visible (db_sequence d) es e \<and> db_valid d \<and>
     (case db_direction d of
        kForward \<Rightarrow> at (db_iter d) (internal_entries es) (length pre)
      | kReverse \<Rightarrow> db_saved_key d = en_key e \<and> db_saved_value d = en_val e \<and>
          (\<exists>p q. pre = p @ q \<and> (\<forall>x \<in> set q. db_sequence d < en_seq x) \<and> at (db_iter d) (internal_entries es) (last_pos p es)))"

definition db_at :: "('i \<Rightarrow> (slice \<times> slice) list \<Rightarrow> nat \<Rightarrow> bool) \<Rightarrow> 'i DBIter \<Rightarrow> (slice \<times> slice) list \<Rightarrow> nat \<Rightarrow> bool" where
  "db_at at d U j \<longleftrightarrow>
     (\<exists>es. U = user_entries (db_sequence d) es \<and> entries_ok es \<and> db_status d = Okay \<and> db_sequence d \<le> kMaxSequenceNumber \<and>
        (\<exists>i. at (db_iter d) (internal_entries es) i) \<and>
        (if j < length U
         then \<exists>pre e post. db_here at d es pre e post \<and> j = length (filter (visible (db_sequence d) es) pre)
         else j = length U \<and> \<not> db_valid d))"

definition db_seek_ok :: "(slice \<Rightarrow> bool) \<Rightarrow> slice \<Rightarrow> bool" where
  "db_seek_ok seek_ok target \<longleftrightarrow> (\<forall>s. seek_ok (ikey target s kTypeValue))"

lemma visible_len: "length (user_entries s es) = length (filter (visible s es) es)"
  by (simp add: user_entries_def)

lemma user_entry_at:
  "es = pre @ e # post \<Longrightarrow> visible s es e \<Longrightarrow>
   length (filter (visible s es) pre) < length (user_entries s es) \<and>
   user_entries s es ! length (filter (visible s es) pre) = (en_key e, en_val e)"
  by (simp add: user_entries_def nth_append)

lemma db_at_here:
  assumes "db_here at d es pre e post" and "entries_ok es" and "db_status d = Okay" and "db_sequence d \<le> kMaxSequenceNumber"
    and "at (db_iter d) (internal_entries es) i"
  shows "db_at at d (user_entries (db_sequence d) es) (length (filter (visible (db_sequence d) es) pre))"
proof -
  have "length (filter (visible (db_sequence d) es) pre) < length (user_entries (db_sequence d) es)"
    using user_entry_at [of es pre e post "db_sequence d"] assms(1) unfolding db_here_def by blast
  then show ?thesis unfolding db_at_def using assms by (intro exI [of _ es]) auto
qed

lemma high_not_visible: "\<forall>x \<in> set q. s < en_seq x \<Longrightarrow> filter (visible s es) q = []"
  unfolding filter_empty_conv using visibleD by (metis not_le)

lemma none_visible: "\<forall>x \<in> set q. \<not> visible s es x \<Longrightarrow> filter (visible s es) q = []"
  by (simp add: filter_empty_conv)

text \<open>Behind a visible entry its key is known to be hidden.\<close>

lemma knows_after:
  assumes ok: "entries_ok (pre @ e # post)" and v: "visible s (pre @ e # post) e"
  shows "scan_knows s True (en_key e) (pre @ [e]) post"
  unfolding scan_knows_def
proof (intro ballI impI)
  fix x assume x: "x \<in> set post" "en_seq x \<le> s"
  have ex: "\<not> bytes_less (en_key x) (en_key e)" using entries_keys [of "pre @ [e]" post e x] ok x by simp
  have pe: "\<not> bytes_less (en_key e) (en_key y)" if "y \<in> set pre" for y
    using entries_keys [OF ok that, of e] by simp
  have "en_key e = en_key x" if "y \<in> set pre" "en_key y = en_key x" for y
    using pe [OF that(1)] ex that(2) bytes_less_linear [of "en_key e" "en_key x"] by auto
  moreover have "\<not> bytes_less (en_key e) (en_key x) \<longleftrightarrow> en_key e = en_key x"
    using ex bytes_less_linear [of "en_key e" "en_key x"] by auto
  ultimately show "(\<exists>y \<in> set (pre @ [e]). en_key y = en_key x \<and> en_seq y \<le> s) \<longleftrightarrow> True \<and> \<not> bytes_less (en_key e) (en_key x)"
    using visibleD [OF v] by auto
qed

lemma visible_unique:
  assumes ok: "entries_ok (pre @ e # post)" and v: "visible s (pre @ e # post) e" and x: "x \<in> set pre" "en_key x = en_key e"
  shows "s < en_seq x"
proof (rule ccontr)
  assume "\<not> s < en_seq x"
  then have "newest (pre @ e # post) (en_key e) s \<noteq> Some e" using newest_not_later [OF ok x] by (simp add: not_less)
  then show False using v by (simp add: visible_def)
qed

locale internal_iterator = iterator I at InternalKey_Compare seek_ok
  for I :: "'i Iter" and at :: "'i \<Rightarrow> (slice \<times> slice) list \<Rightarrow> nat \<Rightarrow> bool" and seek_ok :: "slice \<Rightarrow> bool"
begin

text \<open>The forward moves end at the first visible entry ahead.\<close>

lemma forward_ok0:
  assumes at: "at (db_iter d) (internal_entries es) (length pre)" and es: "es = pre @ suf" "suf \<noteq> []" and ok: "entries_ok es"
    and sc: "suf = hid @ rest" "scan (db_sequence d) sk (db_saved_key d) suf = dropWhile (\<lambda>x. \<not> visible (db_sequence d) es x) rest"
    and d: "db_direction d = kForward" "db_status d = Okay" "db_sequence d \<le> kMaxSequenceNumber"
  shows "\<exists>d'. FindNextUserEntry I d sk = Some d' \<and> db_sequence d' = db_sequence d \<and>
    db_at at d' (user_entries (db_sequence d) es) (length (filter (visible (db_sequence d) es) (pre @ hid)))"
proof -
  let ?s = "db_sequence d"
  let ?v = "visible ?s es"
  have v: "i_Valid I (db_iter d)" using Valid [OF at] es by simp
  have "list_all entry_ok suf" using ok es by (simp add: entries_ok_def)
  from find_next_scan [OF at [unfolded es(1)] es(2) this, of sk]
  obtain d' mid r where d'0: "find_next_user_entry I d sk = Some d'" "moved d d'" "db_direction d' = db_direction d" "suf = mid @ r"
    "scan ?s sk (db_saved_key d) suf = r" "at (db_iter d') (internal_entries (pre @ suf)) (length (pre @ mid))"
    "db_valid d' \<longleftrightarrow> r \<noteq> []"
    by blast
  note d' = d'0(1,2) d'0(3) [unfolded d(1)] d'0(4) d'0(5) [unfolded sc(2)] d'0(6) [folded es(1)] d'0(7)
  have s: "db_sequence d' = ?s" "db_status d' = Okay" using d'(2) d(2) by (simp_all add: moved_def)
  have "(hid @ takeWhile (\<lambda>x. \<not> ?v x) rest) @ r = mid @ r"
    using d'(4,5) sc(1) by (metis append_assoc takeWhile_dropWhile_id)
  then have "mid = hid @ takeWhile (\<lambda>x. \<not> ?v x) rest" by simp
  then have mid: "filter ?v mid = filter ?v hid" by (auto simp: filter_empty_conv dest: set_takeWhileD)
  have "db_at at d' (user_entries ?s es) (length (filter ?v (pre @ hid)))"
  proof (cases r)
    case Nil
    then have "length (user_entries ?s es) = length (filter ?v (pre @ hid))" using es d'(4) mid by (simp add: visible_len)
    then show ?thesis using Nil d' s ok d(3) by (auto simp: db_at_def)
  next
    case (Cons e post)
    then have ve: "?v e" using d'(5) hd_dropWhile [of "\<lambda>x. \<not> ?v x" rest] by auto
    have e: "es = (pre @ mid) @ e # post" using es d'(4) Cons by simp
    have "db_here at d' es (pre @ mid) e post" using e ve d' s Cons by (simp add: db_here_def)
    moreover have "length (filter ?v (pre @ hid)) = length (filter ?v (pre @ mid))" using mid by simp
    ultimately show ?thesis using db_at_here [of at d' es "pre @ mid" e post] s ok d(3) d'(6) by simp
  qed
  then show ?thesis using d'(1) v d(1) s by (simp add: FindNextUserEntry_def)
qed

lemma forward_ok:
  assumes at: "at (db_iter d) (internal_entries es) (length pre)" and es: "es = pre @ suf" "suf \<noteq> []" and ok: "entries_ok es"
    and sc: "suf = hid @ rest" "scan s sk (db_saved_key d) suf = dropWhile (\<lambda>x. \<not> visible s es x) rest"
    and d: "db_direction d = kForward" "db_status d = Okay" "s \<le> kMaxSequenceNumber" and sq: "db_sequence d = s"
  shows "\<exists>d'. FindNextUserEntry I d sk = Some d' \<and> db_sequence d' = s \<and>
    db_at at d' (user_entries s es) (length (filter (visible s es) (pre @ hid)))"
  using forward_ok0 [OF at es ok sc(1) sc(2) [folded sq] d(1,2) d(3) [folded sq]] by (simp only: sq)

text \<open>The backward moves end at the last visible entry of what is before.\<close>

lemma backward_ok0:
  assumes at: "at (db_iter d) (internal_entries es) (last_pos p es)" and es: "es = p @ out" and ok: "entries_ok es"
    and d: "db_direction d = kReverse" "db_status d = Okay" "db_sequence d \<le> kMaxSequenceNumber"
  shows "\<exists>d'. FindPrevUserEntry I d = Some d' \<and> db_sequence d' = db_sequence d \<and>
    db_at at d' (user_entries (db_sequence d) es)
      (let n = length (filter (visible (db_sequence d) es) p) in if n = 0 then length (user_entries (db_sequence d) es) else n - 1)"
proof -
  let ?s = "db_sequence d"
  let ?v = "visible ?s es"
  have v: "i_Valid I (db_iter d) \<longleftrightarrow> p \<noteq> []" using Valid [OF at] es by (auto simp: last_pos_def)
  have lok: "list_all entry_ok es" using ok by (simp add: entries_ok_def)
  have pos: "last_pos (rev p) es = last_pos p es" by (simp add: last_pos_def)
  have "\<exists>d' vt' ps' st'. (if p \<noteq> [] then find_prev_user_entry I d 0 else Some (d, 0)) = Some (d', vt') \<and>
      bscan ?s None (rev p) = (ps', st') \<and> moved d d' \<and> db_direction d' = kReverse \<and> saved_is d' vt' st' \<and>
      at (db_iter d') (internal_entries es) (last_pos ps' es)"
  proof (cases "p = []")
    case True
    then show ?thesis using at d(1) by (simp add: saved_is_def)
  next
    case False
    then show ?thesis
      using find_prev_bscan [of d es "rev p" out 0 None] at es lok d(1) pos by (simp add: saved_is_def)
  qed
  then obtain d' vt' ps' st' where d': "(if p \<noteq> [] then find_prev_user_entry I d 0 else Some (d, 0)) = Some (d', vt')"
    "bscan ?s None (rev p) = (ps', st')" "moved d d'" "db_direction d' = kReverse" "saved_is d' vt' st'"
    "at (db_iter d') (internal_entries es) (last_pos ps' es)"
    by blast
  have s: "db_sequence d' = ?s" "db_status d' = Okay" using d'(3) d(2) by (simp_all add: moved_def)
  have found: "bscan_found ?s es p (ps', st')"
    using bscan_finds [of "rev p" "[]" out ?s None] ok es d'(2) by (simp add: bscan_knows_def)
  have run: "FindPrevUserEntry I d =
      (if vt' = 0 then Some (d'\<lparr>db_valid := False, db_saved_key := [], db_saved_value := [], db_direction := kForward\<rparr>)
       else Some (d'\<lparr>db_valid := True\<rparr>))"
    using d'(1) d(1) v by (cases "p = []") (simp_all add: FindPrevUserEntry_def)
  show ?thesis
  proof (cases st')
    case None
    then have "filter ?v p = []" "vt' = 0" using found d'(5) by (auto simp: bscan_found_def saved_is_def intro: none_visible)
    then show ?thesis using run s ok d(3) d'(6) by (auto simp: db_at_def)
  next
    case (Some kv)
    then obtain k v where kv: "st' = Some (k, v)" by (cases kv) auto
    then obtain q f post where f: "p = rev ps' @ q @ f # post" "\<forall>x \<in> set q. ?s < en_seq x" "?v f" "k = en_key f" "v = en_val f"
      "\<forall>x \<in> set post. \<not> ?v x"
      using found by (auto simp: bscan_found_def)
    let ?d = "d'\<lparr>db_valid := True\<rparr>"
    have e: "es = (rev ps' @ q) @ f # (post @ out)" using es f(1) by simp
    have "\<exists>p qa. rev ps' @ q = p @ qa \<and> (\<forall>x \<in> set qa. ?s < en_seq x) \<and> at (db_iter d') (internal_entries es) (last_pos p es)"
      by (rule exI [of _ "rev ps'"], rule exI [of _ q]) (use f(2) d'(6) in \<open>auto simp: last_pos_def\<close>)
    then have "db_here at ?d es (rev ps' @ q) f (post @ out)"
      using e f(3-5) d'(4,5) s kv unfolding db_here_def by (simp add: saved_is_def)
    moreover have n: "length (filter ?v p) = Suc (length (filter ?v (rev ps' @ q)))"
      using f(3) none_visible [OF f(6)] by (simp add: f(1))
    ultimately have "db_at at ?d (user_entries ?s es) (length (filter ?v p) - 1)"
      using db_at_here [of at ?d es "rev ps' @ q" f "post @ out"] s ok d(3) d'(6) by simp
    moreover have "vt' \<noteq> 0" using d'(5) kv by (simp add: saved_is_def)
    ultimately show ?thesis using run s n by (simp add: Let_def)
  qed
qed

lemma backward_ok:
  assumes at: "at (db_iter d) (internal_entries es) (last_pos p es)" and es: "es = p @ out" and ok: "entries_ok es"
    and d: "db_direction d = kReverse" "db_status d = Okay" "s \<le> kMaxSequenceNumber" and sq: "db_sequence d = s"
  shows "\<exists>d'. FindPrevUserEntry I d = Some d' \<and> db_sequence d' = s \<and>
    db_at at d' (user_entries s es)
      (let n = length (filter (visible s es) p) in if n = 0 then length (user_entries s es) else n - 1)"
  using backward_ok0 [OF at es ok d(1,2) d(3) [folded sq]] by (simp only: sq)

lemma leave_key_ok:
  assumes "at (db_iter d) (internal_entries es) (length pre)" and "es = pre @ suf" and "suf \<noteq> []" and "list_all entry_ok es"
  shows "\<exists>d' found A B. leave_key_backwards I d = Some (d', found) \<and> pre = A @ B \<and>
    (\<forall>x \<in> set B. \<not> bytes_less (en_key x) (db_saved_key d)) \<and> (found \<longleftrightarrow> A \<noteq> []) \<and>
    at (db_iter d') (internal_entries es) (last_pos A es) \<and> moved d d' \<and> db_direction d' = db_direction d \<and>
    (\<not> found \<longrightarrow> \<not> db_valid d')"
  using assms
proof (induction pre arbitrary: d suf rule: rev_induct)
  case Nil
  have "0 < length (internal_entries es)" using Nil.prems(2,3) by simp
  then obtain y where y: "i_Prev I (db_iter d) = Some y" "at y (internal_entries es) (length es)"
    using Prev [OF Nil.prems(1)] by auto
  have "\<not> i_Valid I y" using Valid [OF y(2)] by simp
  then have "leave_key_backwards I d = Some (d\<lparr>db_iter := y, db_valid := False, db_saved_key := [], db_saved_value := []\<rparr>, False)"
    by (subst leave_key_backwards.simps) (simp add: y)
  then show ?case using y(2) by (auto simp: last_pos_def moved_def)
next
  case (snoc e pre)
  have es: "es = pre @ e # suf" using snoc.prems(2) by simp
  have "length (pre @ [e]) < length (internal_entries es)" using snoc.prems(3) es by (cases suf) auto
  then obtain y where y: "i_Prev I (db_iter d) = Some y" "at y (internal_entries es) (length pre)"
    using Prev [OF snoc.prems(1)] by auto
  have v: "i_Valid I y" using Valid [OF y(2)] es by simp
  have k: "i_key I y = entry_ikey e" using entry [OF y(2)] es by (simp add: nth_append)
  show ?case
  proof (cases "bytes_less (en_key e) (db_saved_key d)")
    case True
    have "leave_key_backwards I d = Some (d\<lparr>db_iter := y\<rparr>, True)"
      by (subst leave_key_backwards.simps) (simp add: y v k True compare_simps entry_ikey_def Let_def)
    then show ?thesis
      using y(2) by (intro exI [of _ "d\<lparr>db_iter := y\<rparr>"] exI [of _ True] exI [of _ "pre @ [e]"] exI [of _ "[]"])
        (simp add: last_pos_def moved_def)
  next
    case False
    let ?d = "d\<lparr>db_iter := y\<rparr>"
    have step: "leave_key_backwards I d = leave_key_backwards I ?d"
      by (subst leave_key_backwards.simps) (simp add: y v k False compare_simps entry_ikey_def Let_def)
    have a: "at (db_iter ?d) (internal_entries es) (length pre)" using y(2) by simp
    obtain d' found A B where d': "leave_key_backwards I ?d = Some (d', found)" "pre = A @ B"
      "\<forall>x \<in> set B. \<not> bytes_less (en_key x) (db_saved_key ?d)" "found \<longleftrightarrow> A \<noteq> []"
      "at (db_iter d') (internal_entries es) (last_pos A es)" "moved ?d d'" "db_direction d' = db_direction ?d"
      "\<not> found \<longrightarrow> \<not> db_valid d'"
      using snoc.IH [OF a es list.simps(3) snoc.prems(4)] by blast
    show ?thesis
      by (rule exI [of _ d'], rule exI [of _ found], rule exI [of _ A], rule exI [of _ "B @ [e]"])
        (use d' step False in \<open>auto simp: moved_def\<close>)
  qed
qed

text \<open>The moves of an iterator that is at an entry.\<close>

lemma db_Next_ok:
  assumes at: "db_at at d U j" and j: "j < length U"
  shows "\<exists>d'. DBIter_Next I d = Some d' \<and> db_at at d' U (Suc j)"
proof -
  let ?s = "db_sequence d"
  obtain es pre e post i where U: "U = user_entries ?s es" and ok: "entries_ok es" and st: "db_status d = Okay" "?s \<le> kMaxSequenceNumber"
    and here: "db_here at d es pre e post" and jl: "j = length (filter (visible ?s es) pre)"
    using at j by (auto simp: db_at_def)
  have es: "es = pre @ e # post" and v: "visible ?s es e" and dv: "db_valid d" using here unfolding db_here_def by blast+
  have kn: "scan_knows ?s True (en_key e) (pre @ [e]) post" using knows_after ok v es by blast
  have sf: "scan ?s True (en_key e) post = dropWhile (\<lambda>x. \<not> visible ?s es x) post"
    using scan_finds [OF _ kn] ok es by simp
  have self: "scan ?s True (en_key e) (e # post) = scan ?s True (en_key e) post" using visibleD [OF v] by simp
  have js: "Suc j = length (filter (visible ?s es) (pre @ [e]))" using jl v by simp
  show ?thesis
  proof (cases "db_direction d")
    case kForward
    have pos: "at (db_iter d) (internal_entries es) (length pre)"
      using here unfolding db_here_def kForward Direction.case by blast
    have k: "i_key I (db_iter d) = entry_ikey e" using entry [OF pos] es by (simp add: nth_append)
    let ?d = "d\<lparr>db_saved_key := en_key e\<rparr>"
    have "\<exists>d'. FindNextUserEntry I ?d True = Some d' \<and> db_sequence d' = ?s \<and>
        db_at at d' (user_entries ?s es) (length (filter (visible ?s es) (pre @ [e])))"
      by (rule forward_ok [where suf = "e # post" and rest = post]) (use pos es ok self sf kForward st in simp_all)
    then show ?thesis
      using dv kForward k unfolding U js by (auto simp only: DBIter_Next_def entry_ikey_def ExtractUserKey_ikey Direction.distinct if_False not_True_eq_False)
  next
    case kReverse
    obtain p q where pq: "pre = p @ q" "\<forall>x \<in> set q. ?s < en_seq x" "at (db_iter d) (internal_entries es) (last_pos p es)"
      and k: "db_saved_key d = en_key e"
      using here unfolding db_here_def kReverse Direction.case by blast
    have es2: "es = p @ (q @ [e] @ post)" using es pq(1) by simp
    obtain y where y: "(if \<not> i_Valid I (db_iter d) then i_SeekToFirst I (db_iter d) else i_Next I (db_iter d)) = Some y"
      "at y (internal_entries es) (length p)"
    proof (cases "p = []")
      case True
      then have "\<not> i_Valid I (db_iter d)" using Valid [OF pq(3)] by (simp add: last_pos_def)
      then show ?thesis using SeekToFirst [OF pq(3)] True that by auto
    next
      case False
      then have pos: "at (db_iter d) (internal_entries es) (length p - 1)" using pq(3) by (simp add: last_pos_def)
      have "length p - 1 < length (internal_entries es)" using es2 by simp
      then show ?thesis using Next [OF pos] Valid [OF pos] False that by auto
    qed
    have vy: "i_Valid I y" using Valid [OF y(2)] es2 by simp
    let ?d = "d\<lparr>db_direction := kForward, db_iter := y\<rparr>"
    have "scan ?s True (en_key e) (q @ [e] @ post) = scan ?s True (en_key e) ([e] @ post)"
      by (rule scan_past_key) (use pq(2) in auto)
    then have "scan ?s True (en_key e) (q @ [e] @ post) = dropWhile (\<lambda>x. \<not> visible ?s es x) post"
      using self sf by simp
    then have "\<exists>d'. FindNextUserEntry I ?d True = Some d' \<and> db_sequence d' = ?s \<and>
        db_at at d' (user_entries ?s es) (length (filter (visible ?s es) (p @ q @ [e])))"
      by (intro forward_ok [where suf = "q @ [e] @ post" and rest = post]) (use y(2) es2 ok k st in simp_all)
    then obtain d' where d': "FindNextUserEntry I ?d True = Some d'"
      "db_at at d' (user_entries ?s es) (length (filter (visible ?s es) (p @ q @ [e])))" by blast
    have "DBIter_Next I d = FindNextUserEntry I ?d True"
      using dv kReverse y(1) vy by (cases "i_Valid I (db_iter d)") (simp_all add: DBIter_Next_def)
    then show ?thesis using d' unfolding U js pq(1) by simp
  qed
qed

lemma db_Prev_ok:
  assumes at: "db_at at d U j" and j: "j < length U"
  shows "\<exists>d'. DBIter_Prev I d = Some d' \<and> db_at at d' U (if j = 0 then length U else j - 1)"
proof -
  let ?s = "db_sequence d"
  obtain es pre e post i where U: "U = user_entries ?s es" and ok: "entries_ok es" and st: "db_status d = Okay" "?s \<le> kMaxSequenceNumber"
    and here: "db_here at d es pre e post" and jl: "j = length (filter (visible ?s es) pre)"
    using at j by (auto simp: db_at_def)
  have es: "es = pre @ e # post" and v: "visible ?s es e" and dv: "db_valid d" using here unfolding db_here_def by blast+
  show ?thesis
  proof (cases "db_direction d")
    case kReverse
    obtain p q where pq: "pre = p @ q" "\<forall>x \<in> set q. ?s < en_seq x" "at (db_iter d) (internal_entries es) (last_pos p es)"
      using here unfolding db_here_def kReverse Direction.case by blast
    have "filter (visible ?s es) pre = filter (visible ?s es) p" using high_not_visible [OF pq(2)] by (simp add: pq(1))
    moreover have "\<exists>d'. FindPrevUserEntry I d = Some d' \<and> db_sequence d' = ?s \<and>
        db_at at d' (user_entries ?s es)
          (let n = length (filter (visible ?s es) p) in if n = 0 then length (user_entries ?s es) else n - 1)"
      by (rule backward_ok [OF pq(3)]) (use es pq(1) ok st kReverse in auto)
    moreover have "DBIter_Prev I d = FindPrevUserEntry I d" using dv kReverse by (simp add: DBIter_Prev_def)
    ultimately show ?thesis unfolding U jl by (auto simp: Let_def)
  next
    case kForward
    have pos: "at (db_iter d) (internal_entries es) (length pre)"
      using here unfolding db_here_def kForward Direction.case by blast
    have k: "i_key I (db_iter d) = entry_ikey e" and vl: "i_Valid I (db_iter d)"
      using entry [OF pos] Valid [OF pos] es by (simp_all add: nth_append)
    let ?d = "d\<lparr>db_saved_key := en_key e\<rparr>"
    have a: "at (db_iter ?d) (internal_entries es) (length pre)" using pos by simp
    have lok: "list_all entry_ok es" using ok by (simp add: entries_ok_def)
    obtain d' found A B where d': "leave_key_backwards I ?d = Some (d', found)" "pre = A @ B"
      "\<forall>x \<in> set B. \<not> bytes_less (en_key x) (db_saved_key ?d)" "found \<longleftrightarrow> A \<noteq> []"
      "at (db_iter d') (internal_entries es) (last_pos A es)" "moved ?d d'" "\<not> found \<longrightarrow> \<not> db_valid d'"
      using leave_key_ok [OF a es list.simps(3) lok] by blast
    have s: "db_sequence d' = ?s" "db_status d' = Okay" using d'(6) st by (simp_all add: moved_def)
    have "?s < en_seq x" if "x \<in> set B" for x
    proof -
      have x: "x \<in> set pre" using that d'(2) by simp
      have "\<not> bytes_less (en_key e) (en_key x)" using entries_keys [of pre "e # post" x e] ok es x by simp
      moreover have "\<not> bytes_less (en_key x) (en_key e)" using d'(3) that by simp
      ultimately have "en_key x = en_key e" using bytes_less_linear by auto
      then show ?thesis using visible_unique [of pre e post ?s x] ok v es x by simp
    qed
    then have fB: "filter (visible ?s es) pre = filter (visible ?s es) A" using high_not_visible [of B] by (simp add: d'(2))
    have run: "DBIter_Prev I d = (if found then FindPrevUserEntry I (d'\<lparr>db_direction := kReverse\<rparr>) else Some d')"
      using dv kForward k vl d'(1) by (simp add: DBIter_Prev_def entry_ikey_def)
    show ?thesis
    proof (cases found)
      case True
      have "\<exists>d''. FindPrevUserEntry I (d'\<lparr>db_direction := kReverse\<rparr>) = Some d'' \<and> db_sequence d'' = ?s \<and>
          db_at at d'' (user_entries ?s es)
            (let n = length (filter (visible ?s es) A) in if n = 0 then length (user_entries ?s es) else n - 1)"
        by (rule backward_ok [where p = A and out = "B @ e # post"]) (use d'(2,5) es ok st s in auto)
      then show ?thesis using run True fB unfolding U jl by (auto simp: Let_def)
    next
      case False
      then have "j = 0" using d'(4) fB jl by simp
      moreover have "db_at at d' U (length U)" using d'(5,7) False s st ok U by (auto simp: db_at_def)
      ultimately show ?thesis using run False by simp
    qed
  qed
qed

text \<open>Positioning.\<close>

lemma db_at_states:
  assumes "db_at at d U j"
  obtains es i where "U = user_entries (db_sequence d) es" "entries_ok es" "db_status d = Okay"
    "db_sequence d \<le> kMaxSequenceNumber" "at (db_iter d) (internal_entries es) i"
  using assms by (auto simp: db_at_def)

lemma db_SeekToFirst_ok:
  assumes "db_at at d U j"
  shows "\<exists>d'. DBIter_SeekToFirst I d = Some d' \<and> db_at at d' U 0"
proof -
  let ?s = "db_sequence d"
  obtain es i where U: "U = user_entries ?s es" and ok: "entries_ok es" and st: "db_status d = Okay" "?s \<le> kMaxSequenceNumber"
    and i: "at (db_iter d) (internal_entries es) i"
    using assms by (rule db_at_states)
  obtain y where y: "i_SeekToFirst I (db_iter d) = Some y" "at y (internal_entries es) 0" using SeekToFirst [OF i] by blast
  have v: "i_Valid I y \<longleftrightarrow> es \<noteq> []" using Valid [OF y(2)] by simp
  let ?d = "d\<lparr>db_direction := kForward, db_saved_value := [], db_iter := y\<rparr>"
  show ?thesis
  proof (cases "es = []")
    case True
    have "U = []" using U True by (simp add: user_entries_def)
    then have "db_at at (?d\<lparr>db_valid := False\<rparr>) U 0"
      unfolding db_at_def using U st ok y(2) by (intro exI [of _ es]) auto
    then show ?thesis using y(1) v True by (simp add: DBIter_SeekToFirst_def Let_def)
  next
    case False
    have "scan ?s False (db_saved_key ?d) es = dropWhile (\<lambda>x. \<not> visible ?s es x) es"
      using scan_finds [of "[]" es ?s False] ok by (simp add: scan_knows_def)
    then have "\<exists>d'. FindNextUserEntry I ?d False = Some d' \<and> db_sequence d' = ?s \<and>
        db_at at d' (user_entries ?s es) (length (filter (visible ?s es) ([] @ [])))"
      by (intro forward_ok [where pre = "[]" and suf = es and rest = es]) (use y(2) ok st False in simp_all)
    moreover have "DBIter_SeekToFirst I d = FindNextUserEntry I ?d False"
      using y(1) v False by (simp add: DBIter_SeekToFirst_def Let_def)
    ultimately show ?thesis unfolding U by auto
  qed
qed

lemma db_SeekToLast_ok:
  assumes "db_at at d U j"
  shows "\<exists>d'. DBIter_SeekToLast I d = Some d' \<and> db_at at d' U (length U - 1)"
proof -
  let ?s = "db_sequence d"
  obtain es i where U: "U = user_entries ?s es" and ok: "entries_ok es" and st: "db_status d = Okay" "?s \<le> kMaxSequenceNumber"
    and i: "at (db_iter d) (internal_entries es) i"
    using assms by (rule db_at_states)
  obtain y where y: "i_SeekToLast I (db_iter d) = Some y" "at y (internal_entries es) (length es - 1)"
    using SeekToLast [OF i] by auto
  let ?d = "d\<lparr>db_direction := kReverse, db_saved_value := [], db_iter := y\<rparr>"
  have "\<exists>d'. FindPrevUserEntry I ?d = Some d' \<and> db_sequence d' = ?s \<and>
      db_at at d' (user_entries ?s es)
        (let n = length (filter (visible ?s es) es) in if n = 0 then length (user_entries ?s es) else n - 1)"
    by (rule backward_ok [where p = es and out = "[]"]) (use y(2) ok st in \<open>auto simp: last_pos_def\<close>)
  moreover have "DBIter_SeekToLast I d = FindPrevUserEntry I ?d" using y(1) by (simp add: DBIter_SeekToLast_def)
  moreover have "(let n = length (filter (visible ?s es) es) in if n = 0 then length (user_entries ?s es) else n - 1) = length U - 1"
    by (simp add: U Let_def visible_len)
  ultimately show ?thesis unfolding U by auto
qed

lemma db_Seek_ok:
  assumes at: "db_at at d U j" and sk: "db_seek_ok seek_ok k"
  shows "\<exists>d'. DBIter_Seek I k d = Some d' \<and> db_at at d' U (length (takeWhile (\<lambda>e. compare (fst e) k < 0) U))"
proof -
  let ?s = "db_sequence d"
  obtain es i where U: "U = user_entries ?s es" and ok: "entries_ok es" and st: "db_status d = Okay" "?s \<le> kMaxSequenceNumber"
    and i: "at (db_iter d) (internal_entries es) i"
    using at by (rule db_at_states)
  let ?k = "ikey k ?s kTypeValue" and ?v = "visible ?s es"
  let ?P = "\<lambda>e. ikey_less (entry_ikey e) ?k"
  let ?pre = "takeWhile ?P es" and ?suf = "dropWhile ?P es"
  have app: "AppendInternalKey [] \<lparr>user_key = k, seqno = ?s, vtype = ucast (ValueType_value kValueTypeForSeek)\<rparr> = Some ?k"
    using AppendInternalKey_ikey [OF st(2), of "[]" k kTypeValue] by (simp add: kValueTypeForSeek_def)
  obtain y where y0: "i_Seek I ?k (db_iter d) = Some y"
    "at y (internal_entries es) (length (takeWhile (\<lambda>e. InternalKey_Compare (fst e) ?k < 0) (internal_entries es)))"
    using Seek [OF i, of ?k] sk by (auto simp: db_seek_ok_def)
  have "takeWhile (\<lambda>e. InternalKey_Compare (fst e) ?k < 0) (internal_entries es) = map (\<lambda>e. (entry_ikey e, en_val e)) ?pre"
    unfolding internal_entries_def by (intro map_takeWhile_cong) (simp add: InternalKey_Compare_simps)
  then have y: "i_Seek I ?k (db_iter d) = Some y" "at y (internal_entries es) (length ?pre)" using y0 by simp_all
  have lt: "?P x \<longleftrightarrow> bytes_less (en_key x) k \<or> en_key x = k \<and> ?s < en_seq x" if "x \<in> set es" for x
    using InternalKey_Compare_ikey [of "en_seq x" ?s "en_key x" "en_type x" k kTypeValue] ok that st(2)
    by (simp add: entry_ikey_def InternalKey_Compare_simps entries_ok_def list_all_iff entry_ok_def)
  have pre: "bytes_less (en_key x) k" if "x \<in> set ?pre" "en_seq x \<le> ?s" for x
    using set_takeWhileD [OF that(1)] lt [of x] that(2) by auto
  have suf: "\<not> bytes_less (en_key x) k" if xs: "x \<in> set ?suf" for x
  proof -
    have es: "es = ?pre @ ?suf" by simp
    obtain z zs where z: "?suf = z # zs" "\<not> ?P z" using xs hd_dropWhile [of ?P es] by (cases ?suf) auto
    have zin: "z \<in> set es" using z(1) by (metis list.set_intros(1) set_dropWhileD)
    then have "\<not> bytes_less (en_key z) k" using z(2) lt by blast
    moreover have "x = z \<or> \<not> bytes_less (en_key x) (en_key z)"
      using entries_keys [of "?pre @ [z]" zs z x] ok es z(1) xs by (metis append.assoc append_Cons append_Nil in_set_conv_decomp set_ConsD)
    ultimately show ?thesis using bytes_less_linear bytes_less_trans by metis
  qed
  have tw: "length (takeWhile (\<lambda>e. compare (fst e) k < 0) U) = length (filter ?v ?pre)"
  proof -
    have "filter ?v es = filter ?v ?pre @ filter ?v ?suf" by (metis filter_append takeWhile_dropWhile_id)
    moreover have "\<forall>x \<in> set (filter ?v ?pre). bytes_less (en_key x) k" using pre visibleD by fastforce
    moreover have "\<forall>x \<in> set (filter ?v ?suf). \<not> bytes_less (en_key x) k" using suf by simp
    ultimately have "takeWhile (\<lambda>x. bytes_less (en_key x) k) (filter ?v es) = filter ?v ?pre"
      using takeWhile_split [of "filter ?v ?pre" "\<lambda>x. bytes_less (en_key x) k" "filter ?v ?suf"] by simp
    moreover have "takeWhile (\<lambda>e. compare (fst e) k < 0) U = map (\<lambda>e. (en_key e, en_val e)) (takeWhile (\<lambda>x. bytes_less (en_key x) k) (filter ?v es))"
      unfolding U user_entries_def by (intro map_takeWhile_cong) (simp add: compare_simps)
    ultimately show ?thesis by simp
  qed
  let ?d = "d\<lparr>db_direction := kForward, db_saved_value := [], db_saved_key := ?k, db_iter := y\<rparr>"
  have v: "i_Valid I y \<longleftrightarrow> ?suf \<noteq> []"
  proof -
    have "length ?pre < length es \<longleftrightarrow> ?suf \<noteq> []" by (metis append_self_conv length_append length_greater_0_conv less_add_same_cancel1 takeWhile_dropWhile_id)
    then show ?thesis using Valid [OF y(2)] by simp
  qed
  show ?thesis
  proof (cases "?suf = []")
    case True
    then have "?pre = es" by (metis append_Nil2 takeWhile_dropWhile_id)
    then have "length (takeWhile (\<lambda>e. compare (fst e) k < 0) U) = length U" using tw unfolding U visible_len by (simp only:)
    moreover have "db_at at (?d\<lparr>db_valid := False\<rparr>) U (length U)" using U st ok y(2) by (auto simp: db_at_def)
    moreover have "DBIter_Seek I k d = Some (?d\<lparr>db_valid := False\<rparr>)"
      using y(1) v True app by (simp add: DBIter_Seek_def Let_def)
    ultimately show ?thesis by auto
  next
    case False
    have "scan_knows ?s False (db_saved_key ?d) ?pre ?suf" using pre suf unfolding scan_knows_def by metis
    then have "scan ?s False (db_saved_key ?d) ?suf = dropWhile (\<lambda>x. \<not> visible ?s es x) ?suf"
      using scan_finds [of ?pre ?suf ?s False "db_saved_key ?d"] ok by simp
    then have "\<exists>d'. FindNextUserEntry I ?d False = Some d' \<and> db_sequence d' = ?s \<and>
        db_at at d' (user_entries ?s es) (length (filter (visible ?s es) (?pre @ [])))"
      by (intro forward_ok [where suf = ?suf and rest = ?suf]) (use y(2) ok st False in simp_all)
    moreover have "DBIter_Seek I k d = FindNextUserEntry I ?d False"
      using y(1) v False app by (simp add: DBIter_Seek_def Let_def)
    ultimately show ?thesis using tw unfolding U by auto
  qed
qed

end

context internal_iterator
begin

lemma db_entry:
  assumes "db_at at d U j" and "j < length U"
  shows "DBIter_key I d = fst (U ! j) \<and> DBIter_value I d = snd (U ! j)"
proof -
  obtain es pre e post where U: "U = user_entries (db_sequence d) es" and h: "db_here at d es pre e post" and ok: "entries_ok es"
    and j: "j = length (filter (visible (db_sequence d) es) pre)"
    using assms by (auto simp: db_at_def)
  have es: "es = pre @ e # post" and v: "visible (db_sequence d) es e" using h by (auto simp: db_here_def)
  have "U ! j = (en_key e, en_val e)" using user_entry_at [OF es v] U j by simp
  then show ?thesis
  proof (cases "db_direction d")
    case kForward
    then have "at (db_iter d) (internal_entries es) (length pre)" using h unfolding db_here_def kForward Direction.case by blast
    from entry [OF this] show ?thesis
      using \<open>U ! j = _\<close> kForward es
      by (simp add: DBIter_key_def DBIter_value_def nth_append entry_ikey_def ExtractUserKey_ikey)
  next
    case kReverse
    then show ?thesis using h \<open>U ! j = _\<close> by (simp add: db_here_def DBIter_key_def DBIter_value_def)
  qed
qed

lemma db_iterator: "iterator (DBIter_Iter I) (db_at at) compare (db_seek_ok seek_ok)"
proof unfold_locales
  fix d U j
  assume a: "db_at at d U j"
  then show "j \<le> length U" and "i_Valid (DBIter_Iter I) d \<longleftrightarrow> j < length U"
    by (auto simp: db_at_def DBIter_Iter_def db_here_def split: if_splits)
  show "i_status (DBIter_Iter I) d = Okay"
    using a status by (auto simp: db_at_def DBIter_Iter_def DBIter_status_def)
  show "\<exists>y. i_SeekToFirst (DBIter_Iter I) d = Some y \<and> db_at at y U 0"
    using db_SeekToFirst_ok [OF a] by (simp add: DBIter_Iter_def)
  show "\<exists>y. i_SeekToLast (DBIter_Iter I) d = Some y \<and> db_at at y U (length U - 1)"
    using db_SeekToLast_ok [OF a] by (simp add: DBIter_Iter_def)
  show "\<exists>y. i_Seek (DBIter_Iter I) k d = Some y \<and> db_at at y U (length (takeWhile (\<lambda>e. compare (fst e) k < 0) U))"
    if "db_seek_ok seek_ok k" for k
    using db_Seek_ok [OF a that] by (simp add: DBIter_Iter_def)
  assume j: "j < length U"
  show "\<exists>y. i_Next (DBIter_Iter I) d = Some y \<and> db_at at y U (Suc j)"
    using db_Next_ok [OF a j] by (simp add: DBIter_Iter_def)
  show "\<exists>y. i_Prev (DBIter_Iter I) d = Some y \<and> db_at at y U (if j = 0 then length U else j - 1)"
    using db_Prev_ok [OF a j] by (simp add: DBIter_Iter_def)
  show "i_key (DBIter_Iter I) d = fst (U ! j) \<and> i_value (DBIter_Iter I) d = snd (U ! j)"
    using db_entry [OF a j] by (simp add: DBIter_Iter_def)
qed

end

sublocale internal_iterator \<subseteq> db: iterator "DBIter_Iter I" "db_at at" compare "db_seek_ok seek_ok"
  by (rule db_iterator)

interpretation mem_internal: internal_iterator mem_Iter mem_at mem_seek_ok
  by unfold_locales

text \<open>The user's entries are the view of the reader as a sorted table.\<close>

lemma user_entries_sorted:
  assumes "entries_ok es"
  shows "sorted_wrt bytes_less (map fst (user_entries s es))"
proof -
  have "sorted_wrt (\<lambda>x y. bytes_less (en_key x) (en_key y)) (filter (visible s es) ys)" if "es = xs @ ys" for xs ys
    using that
  proof (induction ys arbitrary: xs)
    case (Cons y ys)
    have "bytes_less (en_key y) (en_key z)" if v: "visible s es y" and z: "z \<in> set ys" "visible s es z" for z
    proof -
      have "\<not> bytes_less (en_key z) (en_key y)"
        using entries_keys [of "xs @ [y]" ys y z] assms Cons.prems z(1) by simp
      moreover have "en_key z \<noteq> en_key y"
      proof
        assume k: "en_key z = en_key y"
        then have "z = y" using v z(2) by (simp add: visible_def)
        then have "entry_less y y" using assms Cons.prems z(1) by (auto simp: entries_ok_def sorted_wrt_append)
        then show False by (simp add: entry_less_def ikey_less_def bytes_less_irrefl)
      qed
      ultimately show ?thesis using bytes_less_linear by metis
    qed
    then show ?case using Cons.IH [of "xs @ [y]"] Cons.prems by auto
  qed simp
  from this [of "[]"] show ?thesis by (simp add: user_entries_def sorted_wrt_map)
qed

lemma user_entries_view: "(k, v) \<in> set (user_entries s es) \<longleftrightarrow> mem_view es s k = Some v"
proof -
  have "mem_view es s k = Some v \<longleftrightarrow> (\<exists>e. newest es k s = Some e \<and> en_type e = kTypeValue \<and> en_val e = v)"
    by (auto simp: mem_view_def split: option.splits ValueType.splits)
  also have "\<dots> \<longleftrightarrow> (\<exists>e. visible s es e \<and> en_key e = k \<and> en_val e = v)" using newestD by (fastforce simp: visible_def)
  also have "\<dots> \<longleftrightarrow> (k, v) \<in> set (user_entries s es)"
    using visibleD by (fastforce simp: user_entries_def)
  finally show ?thesis by simp
qed

lemma new_db_at:
  assumes "mem_rep mem es" and "s \<le> kMaxSequenceNumber"
  shows "db_at mem_at (NewDBIterator (NewMemTableIterator mem) s) (user_entries s es) (length (user_entries s es))"
proof -
  have "entries_ok es" using assms(1) by (simp add: mem_rep_def entries_ok_def)
  then show ?thesis
    using mem_iter_new [OF assms(1)] assms(2) unfolding db_at_def
    by (intro exI [of _ es]) (auto simp: NewDBIterator_def)
qed

text \<open>
  C22. The iterator of the store over a memtable shows exactly what a reader at its sequence number gets: the
  walk from the first entry forward, from the last entry backward, and from a sought key forward all end, and
  give the live keys with their values, each once and in the order of the keys.
\<close>

theorem DBIter_walks:
  assumes "mem_rep mem es" and "s \<le> kMaxSequenceNumber" and "length target + 8 < 2 ^ 32"
  shows "\<exists>U first last at. sorted_wrt bytes_less (map fst U) \<and> (\<forall>k v. (k, v) \<in> set U \<longleftrightarrow> mem_view es s k = Some v) \<and>
    DBIter_SeekToFirst mem_Iter (NewDBIterator (NewMemTableIterator mem) s) = Some first \<and>
    walk (DBIter_Iter mem_Iter) (DBIter_Next mem_Iter) (Suc (length U)) first = Some U \<and>
    DBIter_SeekToLast mem_Iter (NewDBIterator (NewMemTableIterator mem) s) = Some last \<and>
    walk (DBIter_Iter mem_Iter) (DBIter_Prev mem_Iter) (Suc (length U)) last = Some (rev U) \<and>
    DBIter_Seek mem_Iter target (NewDBIterator (NewMemTableIterator mem) s) = Some at \<and>
    walk (DBIter_Iter mem_Iter) (DBIter_Next mem_Iter) (Suc (length U)) at = Some (dropWhile (\<lambda>e. compare (fst e) target < 0) U)"
proof -
  have ok: "entries_ok es" using assms(1) by (simp add: mem_rep_def entries_ok_def)
  have sk: "db_seek_ok mem_seek_ok target" using assms(3) by (simp add: db_seek_ok_def mem_seek_ok_def ikey_def)
  note at = new_db_at [OF assms(1,2)]
  show ?thesis
    using mem_internal.db.walk_all(1) [OF at] mem_internal.db.walk_all(2) [OF at] mem_internal.db.walk_all(3) [OF at sk]
      user_entries_sorted [OF ok, of s] user_entries_view [of _ _ s es]
    unfolding DBIter_Iter_def Iter.simps by blast
qed

lemma DBIter_walks_witness:
  "\<exists>m U first. InsertInto (batch_of 5 [UPut [97] [1], UPut [98] [3], UDelete [98]]) new_MemTable = (Okay, Some m) \<and>
    DBIter_SeekToFirst mem_Iter (NewDBIterator (NewMemTableIterator m) 9) = Some first \<and>
    walk (DBIter_Iter mem_Iter) (DBIter_Next mem_Iter) (Suc (length U)) first = Some U \<and> ([97], [1]) \<in> set U \<and> ([98], [3]) \<notin> set U"
proof -
  let ?us = "[UPut [97] [1], UPut [98] [3], UDelete [98]]"
  obtain m where m: "InsertInto (batch_of 5 ?us) new_MemTable = (Okay, Some m)" "mem_rep m (add_updates 5 ?us [])"
    using InsertInto_ok [OF new_MemTable_rep, where s = 5 and us = ?us] by (auto simp: below_seq_def)
  have v: "mem_view (add_updates 5 ?us []) 9 k = foldl map_update (mem_view [] 9) ?us k" for k
    using mem_view_add_updates [where es = "[]" and s = 5 and us = ?us and t = 9] by (simp add: below_seq_def)
  have v1: "mem_view (add_updates 5 ?us []) 9 [97] = Some [1]" "mem_view (add_updates 5 ?us []) 9 [98] = None"
    unfolding v by (simp_all add: mem_view_def newest_def)
  have "(9 :: u64) \<le> kMaxSequenceNumber" by (simp add: kMaxSequenceNumber_def)
  from DBIter_walks [OF m(2) this, of "[]"] obtain U first where
    "\<forall>k v. (k, v) \<in> set U \<longleftrightarrow> mem_view (add_updates 5 ?us []) 9 k = Some v"
    "DBIter_SeekToFirst mem_Iter (NewDBIterator (NewMemTableIterator m) 9) = Some first"
    "walk (DBIter_Iter mem_Iter) (DBIter_Next mem_Iter) (Suc (length U)) first = Some U"
    by auto
  moreover from this(1) v1 have "([97], [1]) \<in> set U" "([98], [3]) \<notin> set U" by simp_all
  ultimately show ?thesis using m(1) by blast
qed

end
