(* ===== verification/Kvstore.thy ===== *)
theory Kvstore
  imports Db_Iter
begin

text \<open>
  What \<^verbatim>\<open>MXDB\<close> (\<^verbatim>\<open>fsdb0.h\<close>) needs of the store it is a template over: its operations as a record, and the laws they
  promise. A law speaks of the map that the store represents (and of the maps of its snapshots), with room for \<open>n\<close>
  more updates.
\<close>

record ('db, 'i) DX =
  dx_Put :: "slice \<Rightarrow> slice \<Rightarrow> 'db \<Rightarrow> (status \<times> 'db) option"
  dx_Delete :: "slice \<Rightarrow> 'db \<Rightarrow> (status \<times> 'db) option"
  dx_Write :: "WriteBatch \<Rightarrow> 'db \<Rightarrow> (status \<times> 'db) option"
  dx_Get :: "u64 option \<Rightarrow> slice \<Rightarrow> 'db \<Rightarrow> (status \<times> slice option) option"
  dx_GetSnapshot :: "'db \<Rightarrow> u64 \<times> 'db"
  dx_ReleaseSnapshot :: "u64 \<Rightarrow> 'db \<Rightarrow> 'db"
  dx_NewIterator :: "u64 option \<Rightarrow> 'db \<Rightarrow> 'i option"
  dx_Iter :: "'i Iter"

type_synonym kv_map = "slice \<Rightarrow> slice option"

definition kMaxValue :: nat where
  "kMaxValue = 2 ^ 30"

fun kv_update_ok :: "update \<Rightarrow> bool" where
  "kv_update_ok (UPut k v) \<longleftrightarrow> length k + 8 < 2 ^ 32 \<and> length v \<le> kMaxValue"
| "kv_update_ok (UDelete k) \<longleftrightarrow> length k + 8 < 2 ^ 32"

definition kv_key_ok :: "slice \<Rightarrow> bool" where
  "kv_key_ok k \<longleftrightarrow> length k + 8 < 2 ^ 32"

definition kv_found :: "slice option \<Rightarrow> status \<times> slice option" where
  "kv_found r = (case r of None \<Rightarrow> (NotFound [], None) | Some v \<Rightarrow> (Okay, Some v))"

text \<open>The sorted table of a map.\<close>

definition kv_table :: "(slice \<times> slice) list \<Rightarrow> kv_map \<Rightarrow> bool" where
  "kv_table U m \<longleftrightarrow> sorted_wrt bytes_less (map fst U) \<and> (\<forall>k v. (k, v) \<in> set U \<longleftrightarrow> m k = Some v)"

locale kv_store = iterator "dx_Iter D" it_at compare kv_key_ok
  for D :: "('db, 'i) DX" and it_at :: "'i \<Rightarrow> (slice \<times> slice) list \<Rightarrow> nat \<Rightarrow> bool" +
  fixes rep :: "nat \<Rightarrow> 'db \<Rightarrow> kv_map \<Rightarrow> (u64 \<Rightarrow> kv_map option) \<Rightarrow> bool"
  assumes Put: "rep (Suc n) db m S \<Longrightarrow> kv_update_ok (UPut k v) \<Longrightarrow>
      \<exists>db'. dx_Put D k v db = Some (Okay, db') \<and> rep n db' (m(k \<mapsto> v)) S"
    and Delete: "rep (Suc n) db m S \<Longrightarrow> kv_key_ok k \<Longrightarrow>
      \<exists>db'. dx_Delete D k db = Some (Okay, db') \<and> rep n db' (m(k := None)) S"
    and Write: "rep (n + length us) db m S \<Longrightarrow> list_all kv_update_ok us \<Longrightarrow> length us < 2 ^ 31 \<Longrightarrow>
      \<exists>db'. dx_Write D (batch_of s us) db = Some (Okay, db') \<and> rep n db' (foldl map_update m us) S"
    and Get: "rep n db m S \<Longrightarrow> kv_key_ok k \<Longrightarrow> dx_Get D None k db = Some (kv_found (m k))"
    and Get_snapshot: "rep n db m S \<Longrightarrow> S s = Some m' \<Longrightarrow> kv_key_ok k \<Longrightarrow> dx_Get D (Some s) k db = Some (kv_found (m' k))"
    and GetSnapshot: "rep n db m S \<Longrightarrow> \<exists>s db'. dx_GetSnapshot D db = (s, db') \<and> rep n db' m (S(s \<mapsto> m))"
    and ReleaseSnapshot: "rep n db m S \<Longrightarrow> rep n (dx_ReleaseSnapshot D s db) m (S(s := None))"
    and NewIterator: "rep n db m S \<Longrightarrow> \<exists>it U j. dx_NewIterator D None db = Some it \<and> it_at it U j \<and> kv_table U m"
    and NewIterator_snapshot: "rep n db m S \<Longrightarrow> S s = Some m' \<Longrightarrow>
      \<exists>it U j. dx_NewIterator D (Some s) db = Some it \<and> it_at it U j \<and> kv_table U m'"

lemma kv_update_ok_fits: "kv_update_ok u \<Longrightarrow> update_fits u"
  by (cases u) (auto simp: kMaxValue_def)

lemma kv_map_values:
  assumes "\<forall>k v. m k = Some v \<longrightarrow> length v \<le> kMaxValue" and "list_all kv_update_ok us"
  shows "\<forall>k v. foldl map_update m us k = Some v \<longrightarrow> length v \<le> kMaxValue"
  using assms
proof (induction us arbitrary: m)
  case (Cons u us)
  have "\<forall>k v. map_update m u k = Some v \<longrightarrow> length v \<le> kMaxValue" using Cons.prems by (cases u) auto
  then show ?case using Cons.IH Cons.prems by simp
qed simp

end
