(* ===== verification/Mxdb.thy ===== *)
theory Mxdb
  imports Kvstore Fsdbbase
begin

text \<open>
  \<^verbatim>\<open>pdlfs-common/fsdb0.h\<close>: \<^verbatim>\<open>MXDB\<close>, the directory entries of a file system as pairs in a key-value store, over any
  store (the template parameter \<^verbatim>\<open>DX\<close>, here a \<open>DX\<close> record) and in both formats. The foreign slice and status types
  are the library's own. \<open>None\<close> is a store operation that does not return, or a null iterator that is used.
\<close>

section \<open>Operations\<close>

datatype MXDBFormat = kNameInValue | kNameInKey

record FilesystemDbStats =
  putkeybytes :: u64
  putbytes :: u64
  puts :: u64
  getkeybytes :: u64
  getbytes :: u64
  gets :: u64

record Tx =
  tx_snap :: "u64 option"
  tx_bat :: WriteBatch

definition XSTATUS :: "status \<Rightarrow> status option" where
  "XSTATUS x = (if IsNotFound x then Some (NotFound []) else map_option (\<lambda>m. IOError m) (ToString x))"

definition port_status :: "status \<Rightarrow> status option" where
  "port_status st = (if \<not> ok st then XSTATUS st else Some Okay)"

definition STARTTX :: "('db, 'i) DX \<Rightarrow> bool \<Rightarrow> 'db \<Rightarrow> Tx \<times> 'db" where
  "STARTTX D with_snapshot db =
     (if with_snapshot
      then (case dx_GetSnapshot D db of (s, db) \<Rightarrow> (\<lparr>tx_snap = Some s, tx_bat = WB_Clear\<rparr>, db))
      else (\<lparr>tx_snap = None, tx_bat = WB_Clear\<rparr>, db))"

text \<open>The snapshot a read uses: that of the transaction if there is one, else that of the options.\<close>

definition read_snapshot :: "u64 option \<Rightarrow> Tx option \<Rightarrow> u64 option" where
  "read_snapshot opt tx = (case tx of None \<Rightarrow> opt | Some t \<Rightarrow> tx_snap t)"

text \<open>The value of an entry; the two last cases are the same bytes in different buffers.\<close>

definition mxdb_value :: "MXDBFormat \<Rightarrow> Stat \<Rightarrow> slice \<Rightarrow> slice" where
  "mxdb_value fmt stat name =
     (let stat_encoding = Stat_EncodeTo stat
      in if fmt = kNameInKey then stat_encoding
         else if 5 + length name < 200 - length stat_encoding then stat_encoding @ EncodeLengthPrefixedSlice name
         else PutLengthPrefixedSlice stat_encoding name)"

definition put_stats :: "slice \<Rightarrow> slice \<Rightarrow> FilesystemDbStats \<Rightarrow> FilesystemDbStats" where
  "put_stats key value p =
     p\<lparr>putkeybytes := putkeybytes p + word_of_nat (length key), putbytes := putbytes p + word_of_nat (length value),
       puts := puts p + 1\<rparr>"

definition get_stats :: "slice \<Rightarrow> slice \<Rightarrow> FilesystemDbStats \<Rightarrow> FilesystemDbStats" where
  "get_stats key value p =
     p\<lparr>getkeybytes := getkeybytes p + word_of_nat (length key), getbytes := getbytes p + word_of_nat (length value),
       gets := gets p + 1\<rparr>"

definition MXDB_PUT :: "('db, 'i) DX \<Rightarrow> MXDBFormat \<Rightarrow> DirId \<Rightarrow> slice \<Rightarrow> Stat \<Rightarrow> slice \<Rightarrow> Tx option \<Rightarrow> FilesystemDbStats option \<Rightarrow> 'db \<Rightarrow>
    (status \<times> Tx option \<times> FilesystemDbStats option \<times> 'db) option" where
  "MXDB_PUT D fmt di suf stat name tx perf db =
     (let key = dirent_key di suf; value = mxdb_value fmt stat name; perf = map_option (put_stats key value) perf
      in case tx of
           None \<Rightarrow>
             (case dx_Put D key value db of
                None \<Rightarrow> None
              | Some (st, db) \<Rightarrow> map_option (\<lambda>s. (s, None, perf, db)) (port_status st))
         | Some t \<Rightarrow> Some (Okay, Some (t\<lparr>tx_bat := WB_Put (tx_bat t) key value\<rparr>), perf, db))"

text \<open>What a value decodes to: the status, the inode and, when asked for, the name.\<close>

definition read_value :: "MXDBFormat \<Rightarrow> slice \<Rightarrow> bool \<Rightarrow> slice \<Rightarrow> status \<times> Stat option \<times> slice option" where
  "read_value fmt suf want_name input =
     (case Stat_DecodeFrom input of
        None \<Rightarrow> (Corruption [], None, None)
      | Some (stat, input) \<Rightarrow>
          if \<not> want_name then (Okay, Some stat, None)
          else if fmt = kNameInKey then (Okay, Some stat, Some suf)
          else
            case GetLengthPrefixedSlice input of
              None \<Rightarrow> (Corruption [], Some stat, None)
            | Some (filename, _) \<Rightarrow> (Okay, Some stat, Some filename))"

definition MXDB_GET :: "('db, 'i) DX \<Rightarrow> MXDBFormat \<Rightarrow> DirId \<Rightarrow> slice \<Rightarrow> bool \<Rightarrow> u64 option \<Rightarrow> Tx option \<Rightarrow> FilesystemDbStats option \<Rightarrow> 'db \<Rightarrow>
    ((status \<times> Stat option \<times> slice option) \<times> FilesystemDbStats option) option" where
  "MXDB_GET D fmt di suf want_name opt tx perf db =
     (let key = dirent_key di suf
      in case dx_Get D (read_snapshot opt tx) key db of
           None \<Rightarrow> None
         | Some (st, v) \<Rightarrow>
             (let tmp = (case v of None \<Rightarrow> [] | Some v \<Rightarrow> v); perf = map_option (get_stats key tmp) perf
              in if ok st then Some (read_value fmt suf want_name tmp, perf)
                 else map_option (\<lambda>s. ((s, None, None), perf)) (XSTATUS st)))"

definition MXDB_DELETE :: "('db, 'i) DX \<Rightarrow> DirId \<Rightarrow> slice \<Rightarrow> Tx option \<Rightarrow> 'db \<Rightarrow> (status \<times> Tx option \<times> 'db) option" where
  "MXDB_DELETE D di suf tx db =
     (let key = dirent_key di suf
      in case tx of
           None \<Rightarrow>
             (case dx_Delete D key db of
                None \<Rightarrow> None
              | Some (st, db) \<Rightarrow> map_option (\<lambda>s. (s, None, db)) (port_status st))
         | Some t \<Rightarrow> Some (Okay, Some (t\<lparr>tx_bat := WB_Delete (tx_bat t) key\<rparr>), db))"

definition MXDB_EXISTS :: "('db, 'i) DX \<Rightarrow> DirId \<Rightarrow> slice \<Rightarrow> u64 option \<Rightarrow> Tx option \<Rightarrow> 'db \<Rightarrow> status option" where
  "MXDB_EXISTS D di suf opt tx db =
     (case dx_Get D (read_snapshot opt tx) (dirent_key di suf) db of
        None \<Rightarrow> None
      | Some (st, _) \<Rightarrow> port_status st)"

definition MXDB_COMMIT :: "('db, 'i) DX \<Rightarrow> Tx option \<Rightarrow> 'db \<Rightarrow> (status \<times> 'db) option" where
  "MXDB_COMMIT D tx db = (case tx of None \<Rightarrow> Some (Okay, db) | Some t \<Rightarrow> dx_Write D (tx_bat t) db)"

definition MXDB_RELEASE :: "('db, 'i) DX \<Rightarrow> Tx option \<Rightarrow> 'db \<Rightarrow> 'db" where
  "MXDB_RELEASE D tx db =
     (case tx of
        None \<Rightarrow> db
      | Some t \<Rightarrow> (case tx_snap t of None \<Rightarrow> db | Some s \<Rightarrow> dx_ReleaseSnapshot D s db))"

record 'i Dir =
  dir_n :: nat
  dir_key_prefix :: slice
  dir_iter :: 'i

definition MXDB_OPENDIR :: "('db, 'i) DX \<Rightarrow> DirId \<Rightarrow> u64 option \<Rightarrow> Tx option \<Rightarrow> 'db \<Rightarrow> 'i Dir option option" where
  "MXDB_OPENDIR D di opt tx db =
     (let prefix = mk_Key (dno di) (ino di) kDirEntType
      in case dx_NewIterator D (read_snapshot opt tx) db of
           None \<Rightarrow> Some None
         | Some it \<Rightarrow>
             map_option (\<lambda>it. Some \<lparr>dir_n = 0, dir_key_prefix = prefix, dir_iter = it\<rparr>) (i_Seek (dx_Iter D) prefix it))"

text \<open>The entry at the iterator, or why there is none: \<open>Inl\<close> a status.\<close>

definition entry_name :: "MXDBFormat \<Rightarrow> slice \<Rightarrow> slice \<Rightarrow> slice \<Rightarrow> slice option" where
  "entry_name fmt prefix key input =
     (if fmt = kNameInKey then Some (remove_prefix (length prefix) key)
      else map_option fst (GetLengthPrefixedSlice input))"

definition MXDB_READDIR :: "('db, 'i) DX \<Rightarrow> MXDBFormat \<Rightarrow> 'i Dir option \<Rightarrow> (status \<times> (Stat \<times> slice) option \<times> 'i Dir option) option" where
  "MXDB_READDIR D fmt dir =
     (case dir of
        None \<Rightarrow> Some (NotFound [], None, None)
      | Some d \<Rightarrow>
          (let I = dx_Iter D; it = dir_iter d
           in if \<not> i_Valid I it then
                (let st = i_status I it
                 in if ok st then Some (NotFound [], None, dir) else map_option (\<lambda>s. (s, None, dir)) (XSTATUS st))
              else if \<not> starts_with (i_key I it) (dir_key_prefix d) then Some (NotFound [], None, dir)
              else
                case Stat_DecodeFrom (i_value I it) of
                  None \<Rightarrow> Some (Corruption ''Cannot parse Stat'', None, dir)
                | Some (stat, input) \<Rightarrow>
                    (case entry_name fmt (dir_key_prefix d) (i_key I it) input of
                       None \<Rightarrow> Some (Corruption ''Cannot parse filename'', None, dir)
                     | Some name \<Rightarrow>
                         map_option (\<lambda>it. (Okay, Some (stat, name), Some (d\<lparr>dir_n := dir_n d + 1, dir_iter := it\<rparr>)))
                           (i_Next I it))))"

text \<open>The loop of \<^verbatim>\<open>LIST\<close>: the entries in order, at most \<open>limit\<close>; an entry that does not decode ends it.\<close>

fun list_loop :: "'i Iter \<Rightarrow> MXDBFormat \<Rightarrow> slice \<Rightarrow> nat \<Rightarrow> 'i \<Rightarrow> (Stat \<times> slice) list option" where
  "list_loop I fmt prefix 0 it = Some []"
| "list_loop I fmt prefix (Suc limit) it =
     (if \<not> i_Valid I it then Some []
      else if \<not> starts_with (i_key I it) prefix then Some []
      else
        case Stat_DecodeFrom (i_value I it) of
          None \<Rightarrow> Some []
        | Some (stat, input) \<Rightarrow>
            (case entry_name fmt prefix (i_key I it) input of
               None \<Rightarrow> Some []
             | Some name \<Rightarrow>
                 (case i_Next I it of
                    None \<Rightarrow> None
                  | Some it \<Rightarrow> map_option ((#) (stat, name)) (list_loop I fmt prefix limit it))))"

definition MXDB_LIST :: "('db, 'i) DX \<Rightarrow> MXDBFormat \<Rightarrow> DirId \<Rightarrow> u64 option \<Rightarrow> Tx option \<Rightarrow> nat \<Rightarrow> 'db \<Rightarrow>
    (nat \<times> Stat list \<times> slice list) option" where
  "MXDB_LIST D fmt di opt tx limit db =
     (let prefix = Key_prefix (mk_Key (dno di) (ino di) kDirEntType)
      in case dx_NewIterator D (read_snapshot opt tx) db of
           None \<Rightarrow> None
         | Some it \<Rightarrow>
             (case i_Seek (dx_Iter D) prefix it of
                None \<Rightarrow> None
              | Some it \<Rightarrow>
                  map_option (\<lambda>es. (length es, map fst es, map snd es)) (list_loop (dx_Iter D) fmt prefix limit it)))"

section \<open>The directories that a store represents\<close>

type_synonym dirents = "DirId \<Rightarrow> slice \<Rightarrow> (Stat \<times> slice) option"

text \<open>Inode numbers above 56 bits share keys; names of half a gigabyte do not fit a value.\<close>

definition dir_ok :: "DirId \<Rightarrow> bool" where
  "dir_ok d \<longleftrightarrow> unat (ino d) < 2 ^ 56"

definition name_ok :: "slice \<Rightarrow> bool" where
  "name_ok nm \<longleftrightarrow> length nm < 2 ^ 29"

definition suffix_ok :: "slice \<Rightarrow> bool" where
  "suffix_ok s \<longleftrightarrow> length s + 24 < 2 ^ 32"

definition entry_fits :: "MXDBFormat \<Rightarrow> slice \<Rightarrow> slice \<Rightarrow> bool" where
  "entry_fits fmt s nm \<longleftrightarrow> name_ok nm \<and> (fmt = kNameInKey \<longrightarrow> nm = s)"

definition dents_rep :: "MXDBFormat \<Rightarrow> kv_map \<Rightarrow> dirents \<Rightarrow> bool" where
  "dents_rep fmt m f \<longleftrightarrow>
     (\<forall>d s. dir_ok d \<longrightarrow> m (dirent_key d s) = map_option (\<lambda>(st, nm). mxdb_value fmt st nm) (f d s)) \<and>
     (\<forall>d s st nm. f d s = Some (st, nm) \<longrightarrow> entry_fits fmt s nm)"

definition dents_put :: "dirents \<Rightarrow> DirId \<Rightarrow> slice \<Rightarrow> (Stat \<times> slice) option \<Rightarrow> dirents" where
  "dents_put f d s e = f(d := (f d)(s := e))"

lemma mxdb_value_eq: "mxdb_value fmt st nm = Stat_EncodeTo st @ (if fmt = kNameInKey then [] else EncodeLengthPrefixedSlice nm)"
  by (simp add: mxdb_value_def Let_def PutLengthPrefixedSlice_eq)

lemma name_ok_fits: "name_ok nm \<Longrightarrow> length nm < 2 ^ 32"
  by (simp add: name_ok_def)

lemma length_mxdb_value: "name_ok nm \<Longrightarrow> length (mxdb_value fmt st nm) \<le> kMaxValue"
  using length_Stat_EncodeTo [of st] length_EncodeVarint32 [of "word_of_nat (length nm)"]
  by (simp add: mxdb_value_eq EncodeLengthPrefixedSlice_def name_ok_def kMaxValue_def)

lemma decode_all:
  "Stat_DecodeFrom (Stat_EncodeTo st) = Some (st, [])"
  "length nm < 2 ^ 32 \<Longrightarrow> GetLengthPrefixedSlice (EncodeLengthPrefixedSlice nm) = Some (nm, [])"
  using Stat_DecodeFrom_EncodeTo [of st "[]"] lpslice.dec_enc_all [of nm] by simp_all

lemma read_value_mxdb_value:
  "entry_fits fmt s nm \<Longrightarrow> read_value fmt s want (mxdb_value fmt st nm) = (Okay, Some st, if want then Some nm else None)"
  using name_ok_fits [of nm] by (cases fmt) (simp_all add: read_value_def mxdb_value_eq codec_simps decode_all entry_fits_def)

lemma entry_name_mxdb_value:
  assumes "entry_fits fmt s nm"
  shows "\<exists>input. Stat_DecodeFrom (mxdb_value fmt st nm) = Some (st, input) \<and> entry_name fmt (dirent_key d []) (dirent_key d s) input = Some nm"
  using assms name_ok_fits [of nm]
  by (cases fmt) (simp_all add: mxdb_value_eq codec_simps decode_all entry_fits_def entry_name_def dirent_key_eq remove_prefix_def)

lemma dents_rep_put:
  assumes "dents_rep fmt m f" and "dir_ok d" and "entry_fits fmt s nm"
  shows "dents_rep fmt (m(dirent_key d s \<mapsto> mxdb_value fmt st nm)) (dents_put f d s (Some (st, nm)))"
  using assms dirent_key_inject [of _ d] by (auto simp: dents_rep_def dents_put_def dir_ok_def)

lemma dents_rep_delete:
  assumes "dents_rep fmt m f" and "dir_ok d"
  shows "dents_rep fmt (m(dirent_key d s := None)) (dents_put f d s None)"
  using assms dirent_key_inject [of _ d] by (auto simp: dents_rep_def dents_put_def dir_ok_def)

lemma dirent_key_ok: "suffix_ok s \<Longrightarrow> kv_key_ok (dirent_key d s)"
  by (simp add: suffix_ok_def kv_key_ok_def dirent_key_eq)

text \<open>The entries of a directory are one run of the sorted table.\<close>

lemma bytes_less_prefix: "\<not> bytes_less y p \<Longrightarrow> \<not> starts_with y p \<Longrightarrow> bytes_less (p @ r) y"
proof (induction p arbitrary: y)
  case (Cons b p)
  then show ?case by (cases y) (auto simp: starts_with_iff)
qed (simp add: starts_with_iff)

lemma not_less_prefix: "starts_with y p \<Longrightarrow> \<not> bytes_less y p"
proof (induction p arbitrary: y)
  case (Cons b p)
  then show ?case by (cases y) (auto simp: starts_with_iff)
qed simp

lemma prefix_run:
  assumes "sorted_wrt bytes_less (map fst U)"
  shows "takeWhile (\<lambda>e. starts_with (fst e) p) (dropWhile (\<lambda>e. bytes_less (fst e) p) U) = filter (\<lambda>e. starts_with (fst e) p) U"
  using assms
proof (induction U)
  case (Cons e U)
  have IH: "takeWhile (\<lambda>e. starts_with (fst e) p) (dropWhile (\<lambda>e. bytes_less (fst e) p) U) = filter (\<lambda>e. starts_with (fst e) p) U"
    using Cons by simp
  show ?case
  proof (cases "bytes_less (fst e) p")
    case True
    then show ?thesis using IH not_less_prefix [of "fst e" p] by auto
  next
    case nl: False
    have later: "\<not> bytes_less (fst x) p" if "x \<in> set U" for x
      using that Cons.prems nl bytes_less_trans by fastforce
    then have dU: "dropWhile (\<lambda>e. bytes_less (fst e) p) U = U" by (cases U) auto
    show ?thesis
    proof (cases "starts_with (fst e) p")
      case True
      then show ?thesis using IH nl dU by simp
    next
      case False
      have "\<not> starts_with (fst x) p" if x: "x \<in> set U" for x
      proof
        assume "starts_with (fst x) p"
        then obtain r where "fst x = p @ r" by (auto simp: starts_with_iff)
        then have "bytes_less (fst x) (fst e)" using bytes_less_prefix [OF nl False, of r] by simp
        moreover have "bytes_less (fst e) (fst x)" using Cons.prems x by auto
        ultimately show False using bytes_less_asym by blast
      qed
      then show ?thesis using nl False by (simp add: filter_empty_conv)
    qed
  qed
qed simp

section \<open>What the operations do, over any store\<close>

lemma list_loop_run:
  assumes it: "iterator I at cmp sk"
  shows "at x U j \<Longrightarrow>
    (\<And>e. e \<in> set U \<Longrightarrow> starts_with (fst e) p \<Longrightarrow> \<exists>st input nm. Stat_DecodeFrom (snd e) = Some (st, input) \<and>
        entry_name fmt p (fst e) input = Some nm \<and> dec e = (st, nm)) \<Longrightarrow>
    list_loop I fmt p limit x = Some (map dec (take limit (takeWhile (\<lambda>e. starts_with (fst e) p) (drop j U))))"
proof (induction limit arbitrary: x j)
  case (Suc limit)
  show ?case
  proof (cases "j < length U")
    case False
    then show ?thesis using iterator.Valid [OF it Suc.prems(1)] by simp
  next
    case True
    note at = iterator.Valid [OF it Suc.prems(1)] iterator.entry [OF it Suc.prems(1) True]
    have d: "drop j U = U ! j # drop (Suc j) U" using True by (simp add: Cons_nth_drop_Suc)
    show ?thesis
    proof (cases "starts_with (fst (U ! j)) p")
      case False
      then show ?thesis using at True by (simp add: d)
    next
      case sw: True
      obtain st input nm where e: "Stat_DecodeFrom (snd (U ! j)) = Some (st, input)" "entry_name fmt p (fst (U ! j)) input = Some nm"
        "dec (U ! j) = (st, nm)"
        using Suc.prems(2) [OF nth_mem [OF True] sw] by blast
      obtain y where y: "i_Next I x = Some y" "at y U (Suc j)" using iterator.Next [OF it Suc.prems(1) True] by blast
      show ?thesis using Suc.IH [OF y(2) Suc.prems(2)] at True sw e y(1) by (simp add: d)
    qed
  qed
qed simp

text \<open>The names (suffixes) of a directory, sorted.\<close>

definition dir_names :: "dirents \<Rightarrow> DirId \<Rightarrow> slice list \<Rightarrow> bool" where
  "dir_names f d ns \<longleftrightarrow> sorted_wrt bytes_less ns \<and> (\<forall>s. s \<in> set ns \<longleftrightarrow> f d s \<noteq> None)"

lemma table_dir_names:
  assumes rep: "dents_rep fmt m f" and U: "kv_table U m" and d: "dir_ok d"
  shows "\<exists>ns. dir_names f d ns \<and>
    filter (\<lambda>e. starts_with (fst e) (dirent_key d [])) U =
      map (\<lambda>s. (dirent_key d s, case the (f d s) of (st, nm) \<Rightarrow> mxdb_value fmt st nm)) ns"
proof -
  define P where "P = PackPrefix (dno d) (ino d) kDirEntType"
  have p: "dirent_key d s = P @ s" "length P = 16" for s by (simp_all add: dirent_key_eq P_def)
  let ?F = "filter (\<lambda>e. starts_with (fst e) P) U" and ?v = "\<lambda>s. case the (f d s) of (st, nm) \<Rightarrow> mxdb_value fmt st nm"
  let ?ns = "map (\<lambda>e. drop 16 (fst e)) ?F"
  have m: "m (P @ s) = map_option (\<lambda>(st, nm). mxdb_value fmt st nm) (f d s)" for s
    using rep d unfolding p(1) [symmetric] dents_rep_def by blast
  have key: "P @ drop 16 (fst e) = fst e" if "e \<in> set ?F" for e
    using that p(2) by (auto simp: starts_with_iff)
  have F: "e \<in> set ?F \<longleftrightarrow> (\<exists>s. fst e = P @ s) \<and> m (fst e) = Some (snd e)" for e
    using U by (cases e) (auto simp: kv_table_def starts_with_iff)
  have "map (\<lambda>s. (P @ s, ?v s)) ?ns = ?F"
    unfolding map_map
  proof (rule map_idI)
    fix e
    assume e: "e \<in> set ?F"
    have "m (P @ drop 16 (fst e)) = Some (snd e)" using F e key [OF e] by simp
    then have "?v (drop 16 (fst e)) = snd e" using m [of "drop 16 (fst e)"] by (auto split: prod.splits)
    then show "((\<lambda>s. (P @ s, ?v s)) \<circ> (\<lambda>e. drop 16 (fst e))) e = e" using key [OF e] by simp
  qed
  moreover have "dir_names f d ?ns"
    unfolding dir_names_def
  proof
    have "sorted_wrt bytes_less (map fst ?F)" using U sorted_wrt_filter [of "\<lambda>x y. bytes_less (fst x) (fst y)" U]
      by (simp add: kv_table_def sorted_wrt_map)
    moreover have "map fst ?F = map (\<lambda>e. P @ drop 16 (fst e)) ?F" using key by (intro map_cong) simp_all
    ultimately have "sorted_wrt bytes_less (map (\<lambda>e. P @ drop 16 (fst e)) ?F)" by (simp only:)
    then show "sorted_wrt bytes_less ?ns" by (simp add: sorted_wrt_map)
    show "\<forall>s. s \<in> set ?ns \<longleftrightarrow> f d s \<noteq> None"
    proof
      fix s
      have "s \<in> set ?ns \<longleftrightarrow> (\<exists>v. (P @ s, v) \<in> set ?F)"
      proof
        assume "s \<in> set ?ns"
        then obtain e where e: "e \<in> set ?F" "s = drop 16 (fst e)" by (metis (no_types, lifting) image_iff set_map)
        then have "(P @ s, snd e) \<in> set ?F" using key [OF e(1)] by (simp only: prod.collapse)
        then show "\<exists>v. (P @ s, v) \<in> set ?F" by blast
      next
        assume "\<exists>v. (P @ s, v) \<in> set ?F"
        then obtain v where "(P @ s, v) \<in> set ?F" ..
        then have "(\<lambda>e. drop 16 (fst e)) (P @ s, v) \<in> set ?ns" unfolding set_map by (rule imageI)
        then show "s \<in> set ?ns" using p(2) by simp
      qed
      also have "\<dots> \<longleftrightarrow> m (P @ s) \<noteq> None" using F by auto
      finally show "s \<in> set ?ns \<longleftrightarrow> f d s \<noteq> None" using m by simp
    qed
  qed
  ultimately show ?thesis unfolding p(1) append_Nil2 by (intro exI [of _ ?ns] conjI) (simp_all only:)
qed

fun readdir_all :: "('db, 'i) DX \<Rightarrow> MXDBFormat \<Rightarrow> nat \<Rightarrow> 'i Dir \<Rightarrow> (Stat \<times> slice) list option" where
  "readdir_all D fmt 0 dir = None"
| "readdir_all D fmt (Suc k) dir =
     (case MXDB_READDIR D fmt (Some dir) of
        Some (Okay, Some e, Some dir') \<Rightarrow> map_option ((#) e) (readdir_all D fmt k dir')
      | Some (s, None, _) \<Rightarrow> if IsNotFound s then Some [] else None
      | _ \<Rightarrow> None)"

text \<open>
  Transactions. An edit sets or removes an entry; within a transaction it goes into the batch, which \<^verbatim>\<open>COMMIT\<close>
  writes as one.
\<close>

fun edit_update :: "MXDBFormat \<Rightarrow> DirId \<times> slice \<times> (Stat \<times> slice) option \<Rightarrow> update" where
  "edit_update fmt (d, s, None) = UDelete (dirent_key d s)"
| "edit_update fmt (d, s, Some (st, nm)) = UPut (dirent_key d s) (mxdb_value fmt st nm)"

fun edit_ok :: "MXDBFormat \<Rightarrow> DirId \<times> slice \<times> (Stat \<times> slice) option \<Rightarrow> bool" where
  "edit_ok fmt (d, s, e) \<longleftrightarrow> dir_ok d \<and> suffix_ok s \<and> (case e of None \<Rightarrow> True | Some (st, nm) \<Rightarrow> entry_fits fmt s nm)"

definition edit_dents :: "dirents \<Rightarrow> DirId \<times> slice \<times> (Stat \<times> slice) option \<Rightarrow> dirents" where
  "edit_dents f x = (case x of (d, s, e) \<Rightarrow> dents_put f d s e)"

text \<open>What a read at a snapshot is about.\<close>

definition seen :: "dirents \<Rightarrow> (u64 \<Rightarrow> dirents option) \<Rightarrow> u64 option \<Rightarrow> dirents option" where
  "seen f F snap = (case snap of None \<Rightarrow> Some f | Some s \<Rightarrow> F s)"

context kv_store
begin

text \<open>The store represents the directories \<open>f\<close>, and those of the snapshots.\<close>

definition drep :: "MXDBFormat \<Rightarrow> nat \<Rightarrow> 'db \<Rightarrow> dirents \<Rightarrow> (u64 \<Rightarrow> dirents option) \<Rightarrow> bool" where
  "drep fmt n db f F \<longleftrightarrow> (\<exists>m S. rep n db m S \<and> dents_rep fmt m f \<and>
     (\<forall>s g. F s = Some g \<longrightarrow> (\<exists>m'. S s = Some m' \<and> dents_rep fmt m' g)))"

lemma drepE:
  assumes "drep fmt n db f F"
  obtains m S where "rep n db m S" "dents_rep fmt m f" "\<forall>s g. F s = Some g \<longrightarrow> (\<exists>m'. S s = Some m' \<and> dents_rep fmt m' g)"
  using assms by (auto simp: drep_def)

lemma drepI:
  "rep n db m S \<Longrightarrow> dents_rep fmt m f \<Longrightarrow> \<forall>s g. F s = Some g \<longrightarrow> (\<exists>m'. S s = Some m' \<and> dents_rep fmt m' g) \<Longrightarrow> drep fmt n db f F"
  by (auto simp: drep_def)

lemma PUT_ok:
  assumes r: "drep fmt (Suc n) db f F" and d: "dir_ok d" and s: "suffix_ok s" and nm: "entry_fits fmt s nm"
  shows "\<exists>db'. MXDB_PUT D fmt d s st nm None perf db =
      Some (Okay, None, map_option (put_stats (dirent_key d s) (mxdb_value fmt st nm)) perf, db') \<and>
    drep fmt n db' (dents_put f d s (Some (st, nm))) F"
proof -
  obtain m S where m: "rep (Suc n) db m S" "dents_rep fmt m f" "\<forall>s g. F s = Some g \<longrightarrow> (\<exists>m'. S s = Some m' \<and> dents_rep fmt m' g)"
    using r by (rule drepE)
  have "kv_update_ok (UPut (dirent_key d s) (mxdb_value fmt st nm))"
    using dirent_key_ok [OF s, of d] length_mxdb_value [of nm fmt st] nm by (simp add: kv_key_ok_def entry_fits_def)
  then obtain db' where "dx_Put D (dirent_key d s) (mxdb_value fmt st nm) db = Some (Okay, db')"
    "rep n db' (m(dirent_key d s \<mapsto> mxdb_value fmt st nm)) S"
    using Put [OF m(1)] by blast
  then show ?thesis
    using drepI [OF _ dents_rep_put [OF m(2) d nm] m(3)] by (simp add: MXDB_PUT_def Let_def port_status_def)
qed

lemma DELETE_ok:
  assumes r: "drep fmt (Suc n) db f F" and d: "dir_ok d" and s: "suffix_ok s"
  shows "\<exists>db'. MXDB_DELETE D d s None db = Some (Okay, None, db') \<and> drep fmt n db' (dents_put f d s None) F"
proof -
  obtain m S where m: "rep (Suc n) db m S" "dents_rep fmt m f" "\<forall>s g. F s = Some g \<longrightarrow> (\<exists>m'. S s = Some m' \<and> dents_rep fmt m' g)"
    using r by (rule drepE)
  obtain db' where "dx_Delete D (dirent_key d s) db = Some (Okay, db')" "rep n db' (m(dirent_key d s := None)) S"
    using Delete [OF m(1) dirent_key_ok [OF s]] by blast
  then show ?thesis
    using drepI [OF _ dents_rep_delete [OF m(2) d] m(3)] by (simp add: MXDB_DELETE_def Let_def port_status_def)
qed

lemma seen_map:
  assumes r: "drep fmt n db f F" and g: "seen f F snap = Some g"
  obtains m where "dents_rep fmt m g" "\<And>k. kv_key_ok k \<Longrightarrow> dx_Get D snap k db = Some (kv_found (m k))"
    "\<exists>it U j. dx_NewIterator D snap db = Some it \<and> it_at it U j \<and> kv_table U m"
proof -
  obtain m S where m: "rep n db m S" "dents_rep fmt m f" "\<forall>s g. F s = Some g \<longrightarrow> (\<exists>m'. S s = Some m' \<and> dents_rep fmt m' g)"
    using r by (rule drepE)
  show ?thesis
  proof (cases snap)
    case None
    then show ?thesis using that [of m] g m(1,2) Get NewIterator by (auto simp: seen_def)
  next
    case (Some s)
    then obtain m' where "S s = Some m'" "dents_rep fmt m' g" using g m(3) by (auto simp: seen_def)
    then show ?thesis using that [of m'] Some Get_snapshot [OF m(1)] NewIterator_snapshot [OF m(1)] by auto
  qed
qed

lemma GET_ok:
  assumes r: "drep fmt n db f F" and g: "seen f F (read_snapshot opt tx) = Some g" and d: "dir_ok d" and s: "suffix_ok s"
  shows "MXDB_GET D fmt d s want opt tx perf db =
    Some (case g d s of
        None \<Rightarrow> ((NotFound [], None, None), map_option (get_stats (dirent_key d s) []) perf)
      | Some (st, nm) \<Rightarrow> ((Okay, Some st, if want then Some nm else None),
          map_option (get_stats (dirent_key d s) (mxdb_value fmt st nm)) perf))"
proof -
  obtain m where m: "dents_rep fmt m g" "\<And>k. kv_key_ok k \<Longrightarrow> dx_Get D (read_snapshot opt tx) k db = Some (kv_found (m k))"
    using seen_map [OF r g] by metis
  have "m (dirent_key d s) = map_option (\<lambda>(st, nm). mxdb_value fmt st nm) (g d s)" using m(1) d by (simp add: dents_rep_def)
  moreover have "entry_fits fmt s nm" if "g d s = Some (st, nm)" for st nm using m(1) that by (auto simp: dents_rep_def)
  ultimately show ?thesis
    using m(2) [OF dirent_key_ok [OF s, of d]]
    by (auto simp: MXDB_GET_def Let_def kv_found_def read_value_mxdb_value XSTATUS_def split: option.splits)
qed

lemma EXISTS_ok:
  assumes r: "drep fmt n db f F" and g: "seen f F (read_snapshot opt tx) = Some g" and d: "dir_ok d" and s: "suffix_ok s"
  shows "MXDB_EXISTS D d s opt tx db = Some (if g d s = None then NotFound [] else Okay)"
proof -
  obtain m where m: "dents_rep fmt m g" "\<And>k. kv_key_ok k \<Longrightarrow> dx_Get D (read_snapshot opt tx) k db = Some (kv_found (m k))"
    using seen_map [OF r g] by metis
  have "m (dirent_key d s) = map_option (\<lambda>(st, nm). mxdb_value fmt st nm) (g d s)" using m(1) d by (simp add: dents_rep_def)
  then show ?thesis
    using m(2) [OF dirent_key_ok [OF s, of d]]
    by (auto simp: MXDB_EXISTS_def kv_found_def port_status_def XSTATUS_def split: option.splits)
qed

text \<open>Where a reader of a directory starts, and what it will find.\<close>

definition decode_entry :: "MXDBFormat \<Rightarrow> slice \<Rightarrow> slice \<times> slice \<Rightarrow> Stat \<times> slice" where
  "decode_entry fmt p e =
     (let st = fst (the (Stat_DecodeFrom (snd e))); r = snd (the (Stat_DecodeFrom (snd e))) in (st, the (entry_name fmt p (fst e) r)))"

lemma dir_start:
  assumes r: "drep fmt n db f F" and g: "seen f F snap = Some g" and d: "dir_ok d"
  obtains it y U j ns where "dx_NewIterator D snap db = Some it" "i_Seek (dx_Iter D) (dirent_key d []) it = Some y" "it_at y U j"
    "dir_names g d ns"
    "map (decode_entry fmt (dirent_key d [])) (takeWhile (\<lambda>e. starts_with (fst e) (dirent_key d [])) (drop j U)) = map (\<lambda>s. the (g d s)) ns"
    "\<And>e. e \<in> set U \<Longrightarrow> starts_with (fst e) (dirent_key d []) \<Longrightarrow>
      \<exists>st input nm. Stat_DecodeFrom (snd e) = Some (st, input) \<and> entry_name fmt (dirent_key d []) (fst e) input = Some nm \<and>
        decode_entry fmt (dirent_key d []) e = (st, nm)"
proof -
  obtain m it U j where m: "dents_rep fmt m g" and it: "dx_NewIterator D snap db = Some it" "it_at it U j" "kv_table U m"
    using seen_map [OF r g] by metis
  let ?p = "dirent_key d []" and ?dec = "decode_entry fmt (dirent_key d [])"
  obtain ns where ns: "dir_names g d ns"
    "filter (\<lambda>e. starts_with (fst e) ?p) U = map (\<lambda>s. (dirent_key d s, case the (g d s) of (st, nm) \<Rightarrow> mxdb_value fmt st nm)) ns"
    using table_dir_names [OF m it(3) d] by blast
  have fits: "entry_fits fmt s (snd (the (g d s)))" if "s \<in> set ns" for s
    using m ns(1) that by (auto simp: dents_rep_def dir_names_def)
  have decoded: "\<exists>st input nm. Stat_DecodeFrom (snd e) = Some (st, input) \<and> entry_name fmt ?p (fst e) input = Some nm \<and> ?dec e = (st, nm) \<and>
      (st, nm) = the (g d s)"
    if "s \<in> set ns" "e = (dirent_key d s, case the (g d s) of (st, nm) \<Rightarrow> mxdb_value fmt st nm)" for s e
  proof -
    obtain st nm where sn: "the (g d s) = (st, nm)" by (cases "the (g d s)") auto
    then show ?thesis
      using entry_name_mxdb_value [of fmt s nm st d] fits [OF that(1)] that(2) by (auto simp: decode_entry_def Let_def)
  qed
  have ok: "\<exists>st input nm. Stat_DecodeFrom (snd e) = Some (st, input) \<and> entry_name fmt ?p (fst e) input = Some nm \<and> ?dec e = (st, nm)"
    if "e \<in> set U" "starts_with (fst e) ?p" for e
  proof -
    have "e \<in> set (filter (\<lambda>e. starts_with (fst e) ?p) U)" using that by simp
    then show ?thesis using decoded unfolding ns(2) by fastforce
  qed
  have "kv_key_ok ?p" by (simp add: kv_key_ok_def dirent_key_eq)
  then obtain y where y: "i_Seek (dx_Iter D) ?p it = Some y" "it_at y U (length (takeWhile (\<lambda>e. compare (fst e) ?p < 0) U))"
    using Seek [OF it(2)] by blast
  have dw: "drop (length (takeWhile (\<lambda>e. compare (fst e) ?p < 0) U)) U = dropWhile (\<lambda>e. bytes_less (fst e) ?p) U"
    by (simp add: dropWhile_eq_drop compare_simps)
  have run: "takeWhile (\<lambda>e. starts_with (fst e) ?p) (dropWhile (\<lambda>e. bytes_less (fst e) ?p) U) = filter (\<lambda>e. starts_with (fst e) ?p) U"
    using prefix_run [of U ?p] it(3) by (simp add: kv_table_def)
  have "map ?dec (filter (\<lambda>e. starts_with (fst e) ?p) U) = map (\<lambda>s. the (g d s)) ns"
    unfolding ns(2) map_map using decoded by fastforce
  then show ?thesis by (intro that [OF it(1) y ns(1)]) (simp_all only: dw run ok)
qed

lemma LIST_ok:
  assumes r: "drep fmt n db f F" and g: "seen f F (read_snapshot opt tx) = Some g" and d: "dir_ok d"
  shows "\<exists>ns. dir_names g d ns \<and>
    MXDB_LIST D fmt d opt tx limit db =
      Some (min limit (length ns), map (\<lambda>s. fst (the (g d s))) (take limit ns), map (\<lambda>s. snd (the (g d s))) (take limit ns))"
proof -
  obtain it y U j ns where s: "dx_NewIterator D (read_snapshot opt tx) db = Some it" "i_Seek (dx_Iter D) (dirent_key d []) it = Some y"
    "it_at y U j" "dir_names g d ns"
    "map (decode_entry fmt (dirent_key d [])) (takeWhile (\<lambda>e. starts_with (fst e) (dirent_key d [])) (drop j U)) = map (\<lambda>s. the (g d s)) ns"
    "\<And>e. e \<in> set U \<Longrightarrow> starts_with (fst e) (dirent_key d []) \<Longrightarrow>
      \<exists>st input nm. Stat_DecodeFrom (snd e) = Some (st, input) \<and> entry_name fmt (dirent_key d []) (fst e) input = Some nm \<and>
        decode_entry fmt (dirent_key d []) e = (st, nm)"
    using dir_start [OF r g d] by blast
  have "list_loop (dx_Iter D) fmt (dirent_key d []) limit y = Some (map (\<lambda>s. the (g d s)) (take limit ns))"
    using list_loop_run [OF iterator_axioms s(3,6), of limit] s(5) by (simp add: take_map [symmetric])
  moreover have "Key_prefix (mk_Key (dno d) (ino d) kDirEntType) = dirent_key d []"
    by (simp add: Key_prefix_def mk_Key_def FS_KEY_PREFIX_LENGTH_def dirent_key_eq)
  ultimately show ?thesis using s(1,2,4) by (auto simp: MXDB_LIST_def Let_def comp_def min_def)
qed

text \<open>A reader that calls \<^verbatim>\<open>READDIR\<close> until it is told that there is no more.\<close>

lemma readdir_run:
  "it_at x U j \<Longrightarrow>
    (\<And>e. e \<in> set U \<Longrightarrow> starts_with (fst e) p \<Longrightarrow> \<exists>st input nm. Stat_DecodeFrom (snd e) = Some (st, input) \<and>
        entry_name fmt p (fst e) input = Some nm \<and> dec e = (st, nm)) \<Longrightarrow>
    length (takeWhile (\<lambda>e. starts_with (fst e) p) (drop j U)) < k \<Longrightarrow>
    readdir_all D fmt k \<lparr>dir_n = c, dir_key_prefix = p, dir_iter = x\<rparr> =
      Some (map dec (takeWhile (\<lambda>e. starts_with (fst e) p) (drop j U)))"
proof (induction k arbitrary: x j c)
  case (Suc k)
  show ?case
  proof (cases "j < length U")
    case False
    then show ?thesis using Valid [OF Suc.prems(1)] status [OF Suc.prems(1)] by (simp add: MXDB_READDIR_def Let_def)
  next
    case True
    note at = Valid [OF Suc.prems(1)] entry [OF Suc.prems(1) True]
    have d: "drop j U = U ! j # drop (Suc j) U" using True by (simp add: Cons_nth_drop_Suc)
    show ?thesis
    proof (cases "starts_with (fst (U ! j)) p")
      case False
      then show ?thesis using at True by (simp add: d MXDB_READDIR_def Let_def)
    next
      case sw: True
      obtain st input nm where e: "Stat_DecodeFrom (snd (U ! j)) = Some (st, input)" "entry_name fmt p (fst (U ! j)) input = Some nm"
        "dec (U ! j) = (st, nm)"
        using Suc.prems(2) [OF nth_mem [OF True] sw] by blast
      obtain y where y: "i_Next (dx_Iter D) x = Some y" "it_at y U (Suc j)" using Next [OF Suc.prems(1) True] by blast
      have "length (takeWhile (\<lambda>e. starts_with (fst e) p) (drop (Suc j) U)) < k" using Suc.prems(3) sw by (simp add: d)
      then show ?thesis using Suc.IH [OF y(2) Suc.prems(2), of "c + 1"] at True sw e y(1) by (simp add: d MXDB_READDIR_def Let_def)
    qed
  qed
qed simp

lemma OPENDIR_READDIR_ok:
  assumes r: "drep fmt n db f F" and g: "seen f F (read_snapshot opt tx) = Some g" and d: "dir_ok d"
  shows "\<exists>dir ns. MXDB_OPENDIR D d opt tx db = Some (Some dir) \<and> dir_names g d ns \<and>
    readdir_all D fmt (Suc (length ns)) dir = Some (map (\<lambda>s. the (g d s)) ns)"
proof -
  obtain it y U j ns where s: "dx_NewIterator D (read_snapshot opt tx) db = Some it" "i_Seek (dx_Iter D) (dirent_key d []) it = Some y"
    "it_at y U j" "dir_names g d ns"
    "map (decode_entry fmt (dirent_key d [])) (takeWhile (\<lambda>e. starts_with (fst e) (dirent_key d [])) (drop j U)) = map (\<lambda>s. the (g d s)) ns"
    "\<And>e. e \<in> set U \<Longrightarrow> starts_with (fst e) (dirent_key d []) \<Longrightarrow>
      \<exists>st input nm. Stat_DecodeFrom (snd e) = Some (st, input) \<and> entry_name fmt (dirent_key d []) (fst e) input = Some nm \<and>
        decode_entry fmt (dirent_key d []) e = (st, nm)"
    using dir_start [OF r g d] by blast
  have "length ns = length (takeWhile (\<lambda>e. starts_with (fst e) (dirent_key d [])) (drop j U))"
    using arg_cong [OF s(5), of length] by simp
  then have "readdir_all D fmt (Suc (length ns)) \<lparr>dir_n = 0, dir_key_prefix = dirent_key d [], dir_iter = y\<rparr> = Some (map (\<lambda>s. the (g d s)) ns)"
    using readdir_run [OF s(3,6), of "Suc (length ns)" 0] s(5) by simp
  moreover have "mk_Key (dno d) (ino d) kDirEntType = dirent_key d []" by (simp add: mk_Key_def dirent_key_eq)
  ultimately show ?thesis using s(1,2,4) by (intro exI conjI) (simp_all add: MXDB_OPENDIR_def Let_def del: readdir_all.simps)
qed

lemma tx_PUT: "MXDB_PUT D fmt d s st nm (Some t) perf db =
    Some (Okay, Some (t\<lparr>tx_bat := WB_apply (tx_bat t) (edit_update fmt (d, s, Some (st, nm)))\<rparr>),
      map_option (put_stats (dirent_key d s) (mxdb_value fmt st nm)) perf, db)"
  by (simp add: MXDB_PUT_def Let_def)

lemma tx_DELETE: "MXDB_DELETE D d s (Some t) db =
    Some (Okay, Some (t\<lparr>tx_bat := WB_apply (tx_bat t) (edit_update fmt (d, s, None))\<rparr>), db)"
  by (simp add: MXDB_DELETE_def Let_def)

lemma dents_rep_edits:
  "dents_rep fmt m f \<Longrightarrow> list_all (edit_ok fmt) es \<Longrightarrow>
   dents_rep fmt (foldl map_update m (map (edit_update fmt) es)) (foldl edit_dents f es)"
proof (induction es arbitrary: m f)
  case (Cons e es)
  obtain d s x where e: "e = (d, s, x)" by (cases e) auto
  have "dents_rep fmt (map_update m (edit_update fmt e)) (edit_dents f e)"
    using Cons.prems dents_rep_put [of fmt m f d s] dents_rep_delete [of fmt m f d s] by (cases x) (auto simp: e edit_dents_def)
  then show ?case using Cons.IH Cons.prems by simp
qed simp

lemma edit_ok_update: "edit_ok fmt e \<Longrightarrow> kv_update_ok (edit_update fmt e)"
  by (cases "(fmt, e)" rule: edit_update.cases)
    (auto simp: suffix_ok_def dirent_key_eq entry_fits_def length_mxdb_value)

lemma COMMIT_ok:
  assumes r: "drep fmt (n + length es) db f F" and es: "list_all (edit_ok fmt) es" "length es < 2 ^ 31"
    and t: "tx_bat t = foldl WB_apply WB_Clear (map (edit_update fmt) es)"
  shows "\<exists>db'. MXDB_COMMIT D (Some t) db = Some (Okay, db') \<and> drep fmt n db' (foldl edit_dents f es) F"
proof -
  obtain m S where m: "rep (n + length es) db m S" "dents_rep fmt m f" "\<forall>s g. F s = Some g \<longrightarrow> (\<exists>m'. S s = Some m' \<and> dents_rep fmt m' g)"
    using r by (rule drepE)
  let ?us = "map (edit_update fmt) es"
  have "tx_bat t = batch_of 0 ?us" using t foldl_WB_apply [of "[]" ?us 0] es(2) by (simp add: WB_Clear_batch_of)
  moreover have "list_all kv_update_ok ?us" using es(1) edit_ok_update by (auto simp: list_all_iff)
  ultimately obtain db' where "dx_Write D (tx_bat t) db = Some (Okay, db')" "rep n db' (foldl map_update m ?us) S"
    using Write [of n ?us db m S 0] m(1) es(2) by auto
  then show ?thesis
    using drepI [OF _ dents_rep_edits [OF m(2) es(1)] m(3)] by (auto simp: MXDB_COMMIT_def)
qed

lemma STARTTX_ok:
  assumes r: "drep fmt n db f F"
  shows "\<exists>s db'. STARTTX D True db = (\<lparr>tx_snap = Some s, tx_bat = WB_Clear\<rparr>, db') \<and> drep fmt n db' f (F(s \<mapsto> f))"
proof -
  obtain m S where m: "rep n db m S" "dents_rep fmt m f" "\<forall>s g. F s = Some g \<longrightarrow> (\<exists>m'. S s = Some m' \<and> dents_rep fmt m' g)"
    using r by (rule drepE)
  obtain s db' where s: "dx_GetSnapshot D db = (s, db')" "rep n db' m (S(s \<mapsto> m))" using GetSnapshot [OF m(1)] by blast
  then have "drep fmt n db' f (F(s \<mapsto> f))" by (intro drepI [OF s(2) m(2)]) (use m(2,3) in auto)
  then show ?thesis using s(1) by (auto simp: STARTTX_def)
qed

lemma RELEASE_ok:
  assumes r: "drep fmt n db f F" and t: "tx_snap t = Some s"
  shows "drep fmt n (MXDB_RELEASE D (Some t) db) f (F(s := None))"
proof -
  obtain m S where m: "rep n db m S" "dents_rep fmt m f" "\<forall>s g. F s = Some g \<longrightarrow> (\<exists>m'. S s = Some m' \<and> dents_rep fmt m' g)"
    using r by (rule drepE)
  have "drep fmt n (dx_ReleaseSnapshot D s db) f (F(s := None))"
    by (intro drepI [OF ReleaseSnapshot [OF m(1), of s] m(2)]) (use m(3) in auto)
  then show ?thesis using t by (simp add: MXDB_RELEASE_def)
qed

end

end
