(* ===== verification/Merger.thy ===== *)
theory Merger
  imports Db_Iter
begin

text \<open>
  \<^verbatim>\<open>leveldb/merger.cc\<close>: one iterator over the entries of several. The children are kept in a list and the current
  one by its number; \<^verbatim>\<open>IteratorWrapper\<close> only caches the key and the validity of a child. \<open>None\<close> is a failed
  assertion.
\<close>

record 'i MergingIterator =
  m_children :: "'i list"
  m_current :: "nat option"
  m_direction :: Direction

definition new_MergingIterator :: "'i list \<Rightarrow> 'i MergingIterator" where
  "new_MergingIterator cs = \<lparr>m_children = cs, m_current = None, m_direction = kForward\<rparr>"

text \<open>The loops of \<^verbatim>\<open>FindSmallest\<close>, up from child \<open>i\<close>, and of \<^verbatim>\<open>FindLargest\<close>, down from the last.\<close>

fun find_smallest :: "'i Iter \<Rightarrow> (slice \<Rightarrow> slice \<Rightarrow> int) \<Rightarrow> nat \<Rightarrow> 'i list \<Rightarrow> (nat \<times> 'i) option \<Rightarrow> nat option" where
  "find_smallest I cmp i [] smallest = map_option fst smallest"
| "find_smallest I cmp i (child # cs) smallest =
     find_smallest I cmp (Suc i) cs
       (if i_Valid I child then
          (case smallest of
             None \<Rightarrow> Some (i, child)
           | Some (j, s) \<Rightarrow> if cmp (i_key I child) (i_key I s) < 0 then Some (i, child) else Some (j, s))
        else smallest)"

fun find_largest :: "'i Iter \<Rightarrow> (slice \<Rightarrow> slice \<Rightarrow> int) \<Rightarrow> 'i list \<Rightarrow> (nat \<times> 'i) option \<Rightarrow> nat option" where
  "find_largest I cmp [] largest = map_option fst largest"
| "find_largest I cmp (child # rcs) largest =
     find_largest I cmp rcs
       (if i_Valid I child then
          (case largest of
             None \<Rightarrow> Some (length rcs, child)
           | Some (j, l) \<Rightarrow> if cmp (i_key I child) (i_key I l) > 0 then Some (length rcs, child) else Some (j, l))
        else largest)"

definition FindSmallest :: "'i Iter \<Rightarrow> (slice \<Rightarrow> slice \<Rightarrow> int) \<Rightarrow> 'i MergingIterator \<Rightarrow> 'i MergingIterator" where
  "FindSmallest I cmp m = m\<lparr>m_current := find_smallest I cmp 0 (m_children m) None\<rparr>"

definition FindLargest :: "'i Iter \<Rightarrow> (slice \<Rightarrow> slice \<Rightarrow> int) \<Rightarrow> 'i MergingIterator \<Rightarrow> 'i MergingIterator" where
  "FindLargest I cmp m = m\<lparr>m_current := find_largest I cmp (rev (m_children m)) None\<rparr>"

text \<open>A step of all the children, in their order; \<open>those\<close> fails as soon as one of them does.\<close>

definition Merging_SeekToFirst where
  "Merging_SeekToFirst I cmp m =
     map_option (\<lambda>cs. FindSmallest I cmp (m\<lparr>m_children := cs\<rparr>)\<lparr>m_direction := kForward\<rparr>)
       (those (map (i_SeekToFirst I) (m_children m)))"

definition Merging_SeekToLast where
  "Merging_SeekToLast I cmp m =
     map_option (\<lambda>cs. FindLargest I cmp (m\<lparr>m_children := cs\<rparr>)\<lparr>m_direction := kReverse\<rparr>)
       (those (map (i_SeekToLast I) (m_children m)))"

definition Merging_Seek where
  "Merging_Seek I cmp target m =
     map_option (\<lambda>cs. FindSmallest I cmp (m\<lparr>m_children := cs\<rparr>)\<lparr>m_direction := kForward\<rparr>)
       (those (map (i_Seek I target) (m_children m)))"

definition Merging_key where
  "Merging_key I m = i_key I (m_children m ! the (m_current m))"

definition Merging_value where
  "Merging_value I m = i_value I (m_children m ! the (m_current m))"

text \<open>Turning around: every child but the current is put after, or before, the current key.\<close>

definition turn_forward :: "'i Iter \<Rightarrow> (slice \<Rightarrow> slice \<Rightarrow> int) \<Rightarrow> slice \<Rightarrow> 'i \<Rightarrow> 'i option" where
  "turn_forward I cmp key child =
     (case i_Seek I key child of
        None \<Rightarrow> None
      | Some child \<Rightarrow> if i_Valid I child \<and> cmp key (i_key I child) = 0 then i_Next I child else Some child)"

definition turn_backward :: "'i Iter \<Rightarrow> slice \<Rightarrow> 'i \<Rightarrow> 'i option" where
  "turn_backward I key child =
     (case i_Seek I key child of
        None \<Rightarrow> None
      | Some child \<Rightarrow> if i_Valid I child then i_Prev I child else i_SeekToLast I child)"

definition others :: "('i \<Rightarrow> 'i option) \<Rightarrow> nat \<Rightarrow> 'i list \<Rightarrow> 'i list option" where
  "others f cur cs = those (map (\<lambda>(i, c). if i = cur then Some c else f c) (enumerate 0 cs))"

definition Merging_Next where
  "Merging_Next I cmp m =
     (case m_current m of
        None \<Rightarrow> None
      | Some cur \<Rightarrow>
          (case (if m_direction m \<noteq> kForward then others (turn_forward I cmp (Merging_key I m)) cur (m_children m)
                 else Some (m_children m)) of
             None \<Rightarrow> None
           | Some cs \<Rightarrow>
               (case i_Next I (cs ! cur) of
                  None \<Rightarrow> None
                | Some c \<Rightarrow> Some (FindSmallest I cmp (m\<lparr>m_children := cs[cur := c], m_direction := kForward\<rparr>)))))"

definition Merging_Prev where
  "Merging_Prev I cmp m =
     (case m_current m of
        None \<Rightarrow> None
      | Some cur \<Rightarrow>
          (case (if m_direction m \<noteq> kReverse then others (turn_backward I (Merging_key I m)) cur (m_children m)
                 else Some (m_children m)) of
             None \<Rightarrow> None
           | Some cs \<Rightarrow>
               (case i_Prev I (cs ! cur) of
                  None \<Rightarrow> None
                | Some c \<Rightarrow> Some (FindLargest I cmp (m\<lparr>m_children := cs[cur := c], m_direction := kReverse\<rparr>)))))"

text \<open>The status of the first child that has a bad one.\<close>

fun merging_status :: "'i Iter \<Rightarrow> 'i list \<Rightarrow> status" where
  "merging_status I [] = Okay"
| "merging_status I (c # cs) = (if ok (i_status I c) then merging_status I cs else i_status I c)"

definition Merging_Iter :: "'i Iter \<Rightarrow> (slice \<Rightarrow> slice \<Rightarrow> int) \<Rightarrow> 'i MergingIterator Iter" where
  "Merging_Iter I cmp =
     \<lparr>i_Valid = (\<lambda>m. m_current m \<noteq> None), i_key = Merging_key I, i_value = Merging_value I,
      i_status = (\<lambda>m. merging_status I (m_children m)), i_Next = Merging_Next I cmp, i_Prev = Merging_Prev I cmp,
      i_Seek = Merging_Seek I cmp, i_SeekToFirst = Merging_SeekToFirst I cmp, i_SeekToLast = Merging_SeekToLast I cmp\<rparr>"

text \<open>
  \<^verbatim>\<open>NewMergingIterator\<close>: no child, one child or several; \<^verbatim>\<open>EmptyIterator\<close> is in \<^verbatim>\<open>iterator.cc\<close>. The virtual calls go
  to whichever it is.
\<close>

datatype 'i AnyIterator = EmptyIterator | OneIterator 'i | ManyIterator "'i MergingIterator"

definition NewMergingIterator :: "'i list \<Rightarrow> 'i AnyIterator" where
  "NewMergingIterator cs =
     (case cs of [] \<Rightarrow> EmptyIterator | [c] \<Rightarrow> OneIterator c | _ \<Rightarrow> ManyIterator (new_MergingIterator cs))"

definition any_step :: "('i \<Rightarrow> 'i option) \<Rightarrow> ('i MergingIterator \<Rightarrow> 'i MergingIterator option) \<Rightarrow> 'i AnyIterator option \<Rightarrow>
    'i AnyIterator \<Rightarrow> 'i AnyIterator option" where
  "any_step one many e x =
     (case x of EmptyIterator \<Rightarrow> e | OneIterator c \<Rightarrow> map_option OneIterator (one c) | ManyIterator m \<Rightarrow> map_option ManyIterator (many m))"

definition any_get :: "('i \<Rightarrow> 'a) \<Rightarrow> ('i MergingIterator \<Rightarrow> 'a) \<Rightarrow> 'a \<Rightarrow> 'i AnyIterator \<Rightarrow> 'a" where
  "any_get one many e x = (case x of EmptyIterator \<Rightarrow> e | OneIterator c \<Rightarrow> one c | ManyIterator m \<Rightarrow> many m)"

definition Any_Iter :: "'i Iter \<Rightarrow> (slice \<Rightarrow> slice \<Rightarrow> int) \<Rightarrow> 'i AnyIterator Iter" where
  "Any_Iter I cmp =
     (let M = Merging_Iter I cmp
      in \<lparr>i_Valid = any_get (i_Valid I) (i_Valid M) False, i_key = any_get (i_key I) (i_key M) [],
          i_value = any_get (i_value I) (i_value M) [], i_status = any_get (i_status I) (i_status M) Okay,
          i_Next = any_step (i_Next I) (i_Next M) None, i_Prev = any_step (i_Prev I) (i_Prev M) None,
          i_Seek = (\<lambda>k. any_step (i_Seek I k) (i_Seek M k) (Some EmptyIterator)),
          i_SeekToFirst = any_step (i_SeekToFirst I) (i_SeekToFirst M) (Some EmptyIterator),
          i_SeekToLast = any_step (i_SeekToLast I) (i_SeekToLast M) (Some EmptyIterator)\<rparr>)"

section \<open>The merged entries\<close>

locale merging = iterator I at cmp seek_ok + key_order cmp
  for I :: "'i Iter" and at :: "'i \<Rightarrow> (slice \<times> slice) list \<Rightarrow> nat \<Rightarrow> bool" and cmp :: "slice \<Rightarrow> slice \<Rightarrow> int" and seek_ok :: "slice \<Rightarrow> bool"
begin

definition less :: "slice \<times> slice \<Rightarrow> slice \<times> slice \<Rightarrow> bool" where
  "less e f \<longleftrightarrow> cmp (fst e) (fst f) < 0"

text \<open>\<open>M\<close> is the sorted list of the entries of all the lists, no two of which share a key.\<close>

definition merges :: "(slice \<times> slice) list list \<Rightarrow> (slice \<times> slice) list \<Rightarrow> bool" where
  "merges Ls M \<longleftrightarrow> (\<forall>L \<in> set Ls. sorted_wrt less L) \<and> sorted_wrt less M \<and> set M = \<Union> (set ` set Ls) \<and>
     (\<forall>i j. i < length Ls \<longrightarrow> j < length Ls \<longrightarrow> i \<noteq> j \<longrightarrow> set (Ls ! i) \<inter> set (Ls ! j) = {}) \<and> (\<forall>e \<in> set M. seek_ok (fst e))"

text \<open>How many entries of \<open>L\<close> are among the first \<open>p\<close> of \<open>M\<close>.\<close>

definition pre :: "(slice \<times> slice) list \<Rightarrow> nat \<Rightarrow> (slice \<times> slice) list \<Rightarrow> nat" where
  "pre M p L = length (takeWhile (\<lambda>e. e \<in> set (take p M)) L)"

definition kids :: "(slice \<times> slice) list list \<Rightarrow> 'i list \<Rightarrow> (nat \<Rightarrow> nat) \<Rightarrow> bool" where
  "kids Ls cs pos \<longleftrightarrow> length cs = length Ls \<and> (\<forall>i < length Ls. at (cs ! i) (Ls ! i) (pos i))"

definition lastp :: "nat \<Rightarrow> (slice \<times> slice) list \<Rightarrow> nat" where
  "lastp n L = (if n = 0 then length L else n - 1)"

lemma less_irrefl [simp]: "\<not> less e e"
  by (simp add: less_def)

lemma less_asym: "less e f \<Longrightarrow> \<not> less f e"
  using cmp_trans [of "fst e" "fst f" "fst e"] by (auto simp: less_def)

lemma less_trans: "less a b \<Longrightarrow> less b c \<Longrightarrow> less a c"
  using cmp_trans by (auto simp: less_def)

lemma sorted_nth_less: "sorted_wrt less L \<Longrightarrow> i < length L \<Longrightarrow> j < length L \<Longrightarrow> less (L ! i) (L ! j) \<longleftrightarrow> i < j"
  by (metis less_asym less_irrefl linorder_neqE_nat sorted_wrt_iff_nth_less)

lemma sorted_distinct: "sorted_wrt less L \<Longrightarrow> distinct L"
  unfolding distinct_conv_nth by (metis less_irrefl linorder_neqE_nat sorted_wrt_iff_nth_less)

lemma in_take: "sorted_wrt less M \<Longrightarrow> q < length M \<Longrightarrow> M ! q \<in> set (take p M) \<longleftrightarrow> q < p"
  using sorted_distinct [of M] by (auto simp: in_set_conv_nth nth_eq_iff_index_eq)

text \<open>A list of the merge, at a cut of \<open>M\<close>.\<close>

definition part :: "(slice \<times> slice) list \<Rightarrow> (slice \<times> slice) list \<Rightarrow> bool" where
  "part M L \<longleftrightarrow> sorted_wrt less M \<and> sorted_wrt less L \<and> set L \<subseteq> set M"

lemma pre_le: "pre M p L \<le> length L"
  by (simp add: pre_def length_takeWhile_le)

lemma pre_0 [simp]: "pre M 0 L = 0"
  by (cases L) (simp_all add: pre_def)

lemma pre_all: "part M L \<Longrightarrow> pre M (length M) L = length L"
proof -
  assume "part M L"
  then have "\<forall>e \<in> set L. e \<in> set M" by (auto simp: part_def)
  then have "takeWhile (\<lambda>e. e \<in> set M) L = L" by (metis takeWhile_eq_all_conv)
  then show "pre M (length M) L = length L" unfolding pre_def take_all [OF order_refl] by (rule arg_cong)
qed

lemma pre_iff:
  assumes "part M L" and j: "j < length L"
  shows "L ! j \<in> set (take p M) \<longleftrightarrow> j < pre M p L"
proof
  assume "j < pre M p L"
  then show "L ! j \<in> set (take p M)"
    unfolding pre_def by (metis (no_types, lifting) nth_mem set_takeWhileD takeWhile_nth)
next
  have M: "sorted_wrt less M" and L: "sorted_wrt less L" and sub: "set L \<subseteq> set M" using assms(1) by (simp_all add: part_def)
  assume a: "L ! j \<in> set (take p M)"
  then obtain q where q: "q < p" "q < length M" "L ! j = M ! q" by (auto simp: in_set_conv_nth)
  have "L ! i \<in> set (take p M)" if i: "i \<le> j" for i
  proof (cases "i = j")
    case False
    then have "less (L ! i) (M ! q)" using sorted_nth_less [OF L, of i j] i j q(3) by simp
    moreover have "L ! i \<in> set M" using i j sub by (metis le_less_trans nth_mem subsetD)
    ultimately obtain r where "r < length M" "L ! i = M ! r" "r < q"
      using sorted_nth_less [OF M] q(2) by (metis in_set_conv_nth)
    then show ?thesis using q(1) in_take [OF M, of r p] by simp
  qed (use a in simp)
  then show "j < pre M p L"
    unfolding pre_def using j by (metis (no_types, lifting) leI nth_length_takeWhile order_le_less_trans)
qed

lemma pre_Suc:
  assumes "part M L" and p: "p < length M"
  shows "pre M (Suc p) L = (if M ! p \<in> set L then Suc (pre M p L) else pre M p L)"
    and "M ! p \<in> set L \<Longrightarrow> pre M p L < length L \<and> L ! pre M p L = M ! p"
proof -
  have M: "sorted_wrt less M" and L: "sorted_wrt less L" using assms(1) by (simp_all add: part_def)
  have at_p: "L ! pre M p L = M ! p \<and> pre M p L < length L" if in_L: "M ! p \<in> set L"
  proof -
    obtain j where j: "j < length L" "L ! j = M ! p" using in_L by (metis in_set_conv_nth)
    then have "\<not> j < pre M p L" using pre_iff [OF assms(1) j(1), of p] in_take [OF M p, of p] by simp
    moreover have "\<not> pre M p L < j"
    proof
      assume lt: "pre M p L < j"
      then have "L ! pre M p L \<notin> set (take p M)" using pre_iff [OF assms(1), of "pre M p L" p] j(1) by simp
      moreover have "less (L ! pre M p L) (M ! p)" using sorted_nth_less [OF L, of "pre M p L" j] lt j by simp
      moreover obtain r where r: "r < length M" "M ! r = L ! pre M p L"
      proof -
        have "L ! pre M p L \<in> set M" using lt j(1) assms(1) unfolding part_def by (meson order.strict_trans nth_mem subsetD)
        then show ?thesis using that by (auto simp: in_set_conv_nth)
      qed
      ultimately show False
        using sorted_nth_less [OF M r(1) p] in_take [OF M r(1), of p] by simp
    qed
    ultimately have "pre M p L = j" by linarith
    then show ?thesis using j by simp
  qed
  then show "M ! p \<in> set L \<Longrightarrow> pre M p L < length L \<and> L ! pre M p L = M ! p" by blast
  have j: "j < pre M (Suc p) L \<longleftrightarrow> j < pre M p L \<or> L ! j = M ! p" if "j < length L" for j
    using pre_iff [OF assms(1) that, of "Suc p"] pre_iff [OF assms(1) that, of p] unfolding take_Suc_conv_app_nth [OF p] by auto
  have d: "distinct L" using sorted_distinct [OF L] .
  show "pre M (Suc p) L = (if M ! p \<in> set L then Suc (pre M p L) else pre M p L)"
  proof (cases "M ! p \<in> set L")
    case True
    have "j < pre M (Suc p) L \<longleftrightarrow> j < Suc (pre M p L)" for j
    proof (cases "j < length L")
      case jl: True
      have "L ! j = M ! p \<longleftrightarrow> j = pre M p L" using at_p [OF True] nth_eq_iff_index_eq [OF d jl, of "pre M p L"] by auto
      then show ?thesis using j [OF jl] by auto
    next
      case False
      then show ?thesis using pre_le [of M "Suc p" L] at_p [OF True] by linarith
    qed
    from this [of "pre M (Suc p) L"] this [of "Suc (pre M p L)"] this [of "pre M p L"]
    have "pre M (Suc p) L = Suc (pre M p L)" by linarith
    then show ?thesis using True by simp
  next
    case False
    have "j < pre M (Suc p) L \<longleftrightarrow> j < pre M p L" for j
    proof (cases "j < length L")
      case jl: True
      then have "L ! j \<noteq> M ! p" using False by (metis nth_mem)
      then show ?thesis using j [OF jl] by simp
    next
      case False
      then show ?thesis using pre_le [of M "Suc p" L] pre_le [of M p L] by linarith
    qed
    from this [of "pre M (Suc p) L"] this [of "pre M p L"]
    have "pre M (Suc p) L = pre M p L" by linarith
    then show ?thesis using False by simp
  qed
qed

lemma pre_seek:
  assumes "part M L"
  shows "length (takeWhile (\<lambda>e. cmp (fst e) k < 0) L) = pre M (length (takeWhile (\<lambda>e. cmp (fst e) k < 0) M)) L"
proof -
  have M: "sorted_wrt less M" and sub: "set L \<subseteq> set M" using assms(1) by (simp_all add: part_def)
  let ?P = "\<lambda>e. cmp (fst e) k < 0"
  have "e \<in> set (take (length (takeWhile ?P M)) M) \<longleftrightarrow> ?P e" if e: "e \<in> set M" for e
  proof -
    have t: "take (length (takeWhile ?P M)) M = takeWhile ?P M" by (metis takeWhile_eq_take)
    have "e \<in> set (takeWhile ?P M)" if pe: "?P e"
    proof -
      obtain q where q: "q < length M" "M ! q = e" using e by (metis in_set_conv_nth)
      have "?P (M ! i)" if "i \<le> q" for i
        using sorted_nth_less [OF M, of i q] that q pe cmp_trans [of "fst (M ! i)" "fst e" k] by (cases "i = q") (auto simp: less_def)
      then have "q < length (takeWhile ?P M)"
        using q(1) by (metis (no_types, lifting) leI nth_length_takeWhile order_le_less_trans)
      then show ?thesis using q(2) by (metis nth_mem takeWhile_nth)
    qed
    then show ?thesis unfolding t using set_takeWhileD by metis
  qed
  then have "takeWhile ?P L = takeWhile (\<lambda>e. e \<in> set (take (length (takeWhile ?P M)) M)) L"
    using sub by (intro takeWhile_cong) auto
  then show ?thesis by (simp add: pre_def)
qed

text \<open>What the two searches find, when \<open>K\<close> says which children are valid and with which key.\<close>

lemma find_smallest_best:
  assumes "\<And>i. i < length cs \<Longrightarrow> (i_Valid I (cs ! i) \<longleftrightarrow> K (n + i) \<noteq> None) \<and> (K (n + i) \<noteq> None \<longrightarrow> K (n + i) = Some (i_key I (cs ! i)))"
    and "case best of None \<Rightarrow> \<forall>i < n. K i = None
      | Some (j, s) \<Rightarrow> j < n \<and> K j = Some (i_key I s) \<and> (\<forall>i < n. \<forall>k. K i = Some k \<longrightarrow> \<not> cmp k (i_key I s) < 0)"
  shows "case find_smallest I cmp n cs best of None \<Rightarrow> \<forall>i < n + length cs. K i = None
      | Some j \<Rightarrow> j < n + length cs \<and> (\<exists>s. K j = Some s \<and> (\<forall>i < n + length cs. \<forall>k. K i = Some k \<longrightarrow> \<not> cmp k s < 0))"
  using assms
proof (induction cs arbitrary: n best)
  case Nil
  then show ?case by (auto split: option.splits)
next
  case (Cons c cs)
  let ?b = "if i_Valid I c then
          (case best of None \<Rightarrow> Some (n, c) | Some (j, s) \<Rightarrow> if cmp (i_key I c) (i_key I s) < 0 then Some (n, c) else Some (j, s))
        else best"
  have c: "i_Valid I c \<longleftrightarrow> K n \<noteq> None" "K n \<noteq> None \<longrightarrow> K n = Some (i_key I c)" using Cons.prems(1) [of 0] by simp_all
  have b: "case ?b of None \<Rightarrow> \<forall>i < Suc n. K i = None
      | Some (j, s) \<Rightarrow> j < Suc n \<and> K j = Some (i_key I s) \<and> (\<forall>i < Suc n. \<forall>k. K i = Some k \<longrightarrow> \<not> cmp k (i_key I s) < 0)"
    using Cons.prems(2) c cmp_trans cmp_flip by (auto simp: less_Suc_eq split: option.splits)
  have k: "(i_Valid I (cs ! i) \<longleftrightarrow> K (Suc n + i) \<noteq> None) \<and> (K (Suc n + i) \<noteq> None \<longrightarrow> K (Suc n + i) = Some (i_key I (cs ! i)))"
    if "i < length cs" for i
    using Cons.prems(1) [of "Suc i"] that by simp
  have e: "find_smallest I cmp n (c # cs) best = find_smallest I cmp (Suc n) cs ?b" "n + length (c # cs) = Suc n + length cs"
    by simp_all
  show ?case unfolding e by (rule Cons.IH [OF k b])
qed

lemma cmp_gt_trans: "0 < cmp a b \<Longrightarrow> 0 < cmp b c \<Longrightarrow> 0 < cmp a c"
  using cmp_trans [of c b a] by (simp add: cmp_flip)

lemma find_largest_best:
  assumes "\<And>i. i < length rcs \<Longrightarrow> (i_Valid I (rcs ! (length rcs - 1 - i)) \<longleftrightarrow> K i \<noteq> None) \<and>
        (K i \<noteq> None \<longrightarrow> K i = Some (i_key I (rcs ! (length rcs - 1 - i))))"
    and "\<And>i. K i \<noteq> None \<Longrightarrow> i < N" and "length rcs \<le> N"
    and "case best of None \<Rightarrow> \<forall>i \<ge> length rcs. K i = None
      | Some (j, s) \<Rightarrow> length rcs \<le> j \<and> K j = Some (i_key I s) \<and> (\<forall>i \<ge> length rcs. \<forall>k. K i = Some k \<longrightarrow> \<not> 0 < cmp k (i_key I s))"
  shows "case find_largest I cmp rcs best of None \<Rightarrow> \<forall>i. K i = None
      | Some j \<Rightarrow> (\<exists>s. K j = Some s \<and> (\<forall>i k. K i = Some k \<longrightarrow> \<not> 0 < cmp k s))"
  using assms
proof (induction rcs arbitrary: best)
  case Nil
  then show ?case by (auto split: option.splits)
next
  case (Cons c rcs)
  let ?n = "length rcs"
  let ?b = "if i_Valid I c then
          (case best of None \<Rightarrow> Some (?n, c) | Some (j, s) \<Rightarrow> if cmp (i_key I c) (i_key I s) > 0 then Some (?n, c) else Some (j, s))
        else best"
  have c: "i_Valid I c \<longleftrightarrow> K ?n \<noteq> None" "K ?n \<noteq> None \<longrightarrow> K ?n = Some (i_key I c)" using Cons.prems(1) [of ?n] by simp_all
  have ge: "?n \<le> i \<longleftrightarrow> i = ?n \<or> Suc ?n \<le> i" for i by auto
  have b: "case ?b of None \<Rightarrow> \<forall>i \<ge> ?n. K i = None
      | Some (j, s) \<Rightarrow> ?n \<le> j \<and> K j = Some (i_key I s) \<and> (\<forall>i \<ge> ?n. \<forall>k. K i = Some k \<longrightarrow> \<not> 0 < cmp k (i_key I s))"
  proof (cases "i_Valid I c")
    case False
    then show ?thesis using Cons.prems(4) c ge by (auto split: option.splits)
  next
    case v: True
    show ?thesis
    proof (cases best)
      case None
      then show ?thesis using Cons.prems(4) c ge v by auto
    next
      case (Some b)
      obtain j s where b: "best = Some (j, s)" using Some by (cases b) auto
      have old: "Suc ?n \<le> j" "K j = Some (i_key I s)" "\<not> 0 < cmp k (i_key I s)" if "Suc ?n \<le> i" "K i = Some k" for i k
        using Cons.prems(4) b that by auto
      have oldj: "Suc ?n \<le> j" "K j = Some (i_key I s)" using Cons.prems(4) b by auto
      show ?thesis
      proof (cases "0 < cmp (i_key I c) (i_key I s)")
        case True
        have "\<not> 0 < cmp k (i_key I c)" if "?n \<le> i" "K i = Some k" for i k
          using that ge [of i] old(3) [of i k] cmp_gt_trans [OF _ True, of k] v c by auto
        then show ?thesis using v b True c by simp
      next
        case False
        have "\<not> 0 < cmp k (i_key I s)" if "?n \<le> i" "K i = Some k" for i k
          using that ge [of i] old(3) [of i k] False v c by auto
        then show ?thesis using v b False oldj by simp
      qed
    qed
  qed
  have k: "(i_Valid I (rcs ! (length rcs - 1 - i)) \<longleftrightarrow> K i \<noteq> None) \<and> (K i \<noteq> None \<longrightarrow> K i = Some (i_key I (rcs ! (length rcs - 1 - i))))"
    if "i < length rcs" for i
  proof -
    have "(c # rcs) ! (length (c # rcs) - 1 - i) = rcs ! (length rcs - 1 - i)" using that by (simp add: nth_Cons')
    then show ?thesis using Cons.prems(1) [of i] that by simp
  qed
  show ?case
    using Cons.IH [OF k Cons.prems(2) _ b] Cons.prems(3) by simp
qed

text \<open>
  The merging iterator at number \<open>p\<close>: the current child is the one that has this entry. Going forward, every child
  is at its first entry from there on; going backward, at its last entry up to there.
\<close>

definition current_is :: "'i MergingIterator \<Rightarrow> (slice \<times> slice) list list \<Rightarrow> (slice \<times> slice) list \<Rightarrow> nat \<Rightarrow> bool" where
  "current_is m Ls M p \<longleftrightarrow>
     (if p < length M then \<exists>cur < length Ls. m_current m = Some cur \<and> M ! p \<in> set (Ls ! cur) else m_current m = None)"

definition merge_at :: "'i MergingIterator \<Rightarrow> (slice \<times> slice) list \<Rightarrow> nat \<Rightarrow> bool" where
  "merge_at m M p \<longleftrightarrow> p \<le> length M \<and>
     (\<exists>Ls. merges Ls M \<and> current_is m Ls M p \<and>
        (if p < length M
         then (case m_direction m of
                 kForward \<Rightarrow> kids Ls (m_children m) (\<lambda>i. pre M p (Ls ! i))
               | kReverse \<Rightarrow> kids Ls (m_children m) (\<lambda>i. lastp (pre M (Suc p) (Ls ! i)) (Ls ! i)))
         else \<exists>pos. kids Ls (m_children m) pos))"

lemma merges_part: "merges Ls M \<Longrightarrow> i < length Ls \<Longrightarrow> part M (Ls ! i)"
  unfolding merges_def part_def by (metis UN_upper nth_mem)

lemma merges_owner:
  assumes "merges Ls M" and "p < length M"
  obtains c where "c < length Ls" "M ! p \<in> set (Ls ! c)"
proof -
  have "M ! p \<in> \<Union> (set ` set Ls)" using assms unfolding merges_def by (metis nth_mem)
  then obtain L where L: "L \<in> set Ls" "M ! p \<in> set L" by blast
  then obtain c where "c < length Ls" "Ls ! c = L" by (metis in_set_conv_nth)
  then show ?thesis using that L(2) by simp
qed

lemma part_index: "part M L \<Longrightarrow> j < length L \<Longrightarrow> \<exists>q < length M. L ! j = M ! q"
proof -
  assume "part M L" "j < length L"
  then have "L ! j \<in> set M" unfolding part_def by (meson nth_mem subsetD)
  then show "\<exists>q < length M. L ! j = M ! q" by (metis in_set_conv_nth)
qed

lemma merges_other: "merges Ls M \<Longrightarrow> i < length Ls \<Longrightarrow> j < length Ls \<Longrightarrow> x \<in> set (Ls ! i) \<Longrightarrow> x \<in> set (Ls ! j) \<Longrightarrow> i = j"
  unfolding merges_def by blast

lemma kids_valid:
  assumes "kids Ls cs pos" and "i < length cs"
  shows "i_Valid I (cs ! i) \<longleftrightarrow> pos i < length (Ls ! i)"
    and "pos i < length (Ls ! i) \<Longrightarrow> i_key I (cs ! i) = fst (Ls ! i ! pos i) \<and> i_value I (cs ! i) = snd (Ls ! i ! pos i)"
  using assms Valid entry by (auto simp: kids_def)

lemma FindSmallest_at:
  assumes mg: "merges Ls M" and kids: "kids Ls (m_children m) (\<lambda>i. pre M p (Ls ! i))" and p: "p \<le> length M"
  shows "current_is (FindSmallest I cmp m) Ls M p"
proof -
  have M: "sorted_wrt less M" using mg by (simp add: merges_def)
  let ?pos = "\<lambda>i. pre M p (Ls ! i)"
  define K where "K i = (if i < length Ls \<and> ?pos i < length (Ls ! i) then Some (fst (Ls ! i ! ?pos i)) else None)" for i
  have len: "length (m_children m) = length Ls" using kids by (simp add: kids_def)
  have k: "(i_Valid I (m_children m ! i) \<longleftrightarrow> K (0 + i) \<noteq> None) \<and> (K (0 + i) \<noteq> None \<longrightarrow> K (0 + i) = Some (i_key I (m_children m ! i)))"
    if "i < length (m_children m)" for i
    using kids_valid [OF kids that] that len by (auto simp: K_def)
  have best: "case find_smallest I cmp 0 (m_children m) None of None \<Rightarrow> \<forall>i < 0 + length (m_children m). K i = None
      | Some j \<Rightarrow> j < 0 + length (m_children m) \<and> (\<exists>s. K j = Some s \<and> (\<forall>i < 0 + length (m_children m). \<forall>k. K i = Some k \<longrightarrow> \<not> cmp k s < 0))"
    by (rule find_smallest_best [OF k]) simp_all
  have rest: "\<exists>q. p \<le> q \<and> q < length M \<and> Ls ! i ! ?pos i = M ! q" if i: "i < length Ls" and v: "?pos i < length (Ls ! i)" for i
  proof -
    have "Ls ! i ! ?pos i \<notin> set (take p M)" using pre_iff [OF merges_part [OF mg i] v, of p] by simp
    moreover obtain q where "q < length M" "Ls ! i ! ?pos i = M ! q"
      using part_index [OF merges_part [OF mg i] v] by blast
    ultimately show ?thesis using in_take [OF M, of q p] by (metis not_less)
  qed
  show ?thesis
  proof (cases "p < length M")
    case True
    obtain c where c: "c < length Ls" "M ! p \<in> set (Ls ! c)" using merges_owner [OF mg True] .
    note cp = pre_Suc(2) [OF merges_part [OF mg c(1)] True c(2)]
    have Kc: "K c = Some (fst (M ! p))" using c(1) cp by (simp add: K_def)
    then obtain j s where j: "find_smallest I cmp 0 (m_children m) None = Some j" "j < length Ls" "K j = Some s"
      "\<not> cmp (fst (M ! p)) s < 0"
      using best c(1) len by (auto split: option.splits)
    then have v: "?pos j < length (Ls ! j)" "s = fst (Ls ! j ! ?pos j)" by (auto simp: K_def split: if_splits)
    obtain q where q: "p \<le> q" "q < length M" "Ls ! j ! ?pos j = M ! q" using rest [OF j(2) v(1)] by blast
    have "\<not> less (M ! p) (M ! q)" using j(4) v(2) q(3) by (simp add: less_def)
    then have "q = p" using sorted_nth_less [OF M True q(2)] q(1) by simp
    then have "M ! p \<in> set (Ls ! j)" using q(3) v(1) by (metis nth_mem)
    then show ?thesis using True j(1,2) by (simp add: current_is_def FindSmallest_def)
  next
    case False
    then have "K i = None" for i using rest p by (fastforce simp: K_def)
    then have "find_smallest I cmp 0 (m_children m) None = None" using best by (auto split: option.splits)
    then show ?thesis using False by (simp add: current_is_def FindSmallest_def)
  qed
qed

lemma FindLargest_at:
  assumes mg: "merges Ls M" and kids: "kids Ls (m_children m) (\<lambda>i. lastp (pre M q (Ls ! i)) (Ls ! i))" and q: "q \<le> length M"
  shows "current_is (FindLargest I cmp m) Ls M (if q = 0 then length M else q - 1)"
proof -
  have M: "sorted_wrt less M" using mg by (simp add: merges_def)
  let ?pos = "\<lambda>i. lastp (pre M q (Ls ! i)) (Ls ! i)"
  define K where "K i = (if i < length Ls \<and> ?pos i < length (Ls ! i) then Some (fst (Ls ! i ! ?pos i)) else None)" for i
  have len: "length (m_children m) = length Ls" using kids by (simp add: kids_def)
  let ?r = "rev (m_children m)"
  have k: "(i_Valid I (?r ! (length ?r - 1 - i)) \<longleftrightarrow> K i \<noteq> None) \<and> (K i \<noteq> None \<longrightarrow> K i = Some (i_key I (?r ! (length ?r - 1 - i))))"
    if "i < length ?r" for i
  proof -
    have i: "i < length (m_children m)" using that by simp
    have "?r ! (length ?r - 1 - i) = m_children m ! i" using i by (simp add: rev_nth)
    then show ?thesis using kids_valid [OF kids i] i len by (auto simp: K_def)
  qed
  have N: "K i \<noteq> None \<Longrightarrow> i < length Ls" for i by (simp add: K_def split: if_splits)
  have best: "case find_largest I cmp ?r None of None \<Rightarrow> \<forall>i. K i = None
      | Some j \<Rightarrow> (\<exists>s. K j = Some s \<and> (\<forall>i k. K i = Some k \<longrightarrow> \<not> 0 < cmp k s))"
  proof (rule find_largest_best [OF k N])
    show "length ?r \<le> length Ls" using len by simp
    have "K i = None" if "length ?r \<le> i" for i using that len by (simp add: K_def)
    then show "case None of None \<Rightarrow> \<forall>i \<ge> length ?r. K i = None
      | Some (j, s) \<Rightarrow> length ?r \<le> j \<and> K j = Some (i_key I s) \<and> (\<forall>i \<ge> length ?r. \<forall>k. K i = Some k \<longrightarrow> \<not> 0 < cmp k (i_key I s))"
      by simp
  qed
  have rest: "\<exists>p. p < q \<and> p < length M \<and> Ls ! i ! ?pos i = M ! p" if i: "i < length Ls" and v: "?pos i < length (Ls ! i)" for i
  proof -
    have n: "?pos i < pre M q (Ls ! i)" using v pre_le [of M q "Ls ! i"] by (auto simp: lastp_def split: if_splits)
    then have "Ls ! i ! ?pos i \<in> set (take q M)" using pre_iff [OF merges_part [OF mg i] v, of q] by simp
    then show ?thesis by (auto simp: in_set_conv_nth)
  qed
  show ?thesis
  proof (cases q)
    case 0
    then have "K i = None" for i using rest by (fastforce simp: K_def)
    then have "find_largest I cmp ?r None = None" using best by (auto split: option.splits)
    then show ?thesis using 0 by (simp add: current_is_def FindLargest_def)
  next
    case (Suc p)
    then have p: "p < length M" using q by simp
    obtain c where c: "c < length Ls" "M ! p \<in> set (Ls ! c)" using merges_owner [OF mg p] .
    note cp = pre_Suc [OF merges_part [OF mg c(1)] p]
    have Kc: "K c = Some (fst (M ! p))" using c cp Suc by (simp add: K_def lastp_def)
    then obtain j s where j: "find_largest I cmp ?r None = Some j" "K j = Some s" "\<not> 0 < cmp (fst (M ! p)) s"
      using best by (auto split: option.splits)
    then have v: "j < length Ls" "?pos j < length (Ls ! j)" "s = fst (Ls ! j ! ?pos j)" by (auto simp: K_def split: if_splits)
    obtain r where r: "r < q" "r < length M" "Ls ! j ! ?pos j = M ! r" using rest [OF v(1,2)] by blast
    have "\<not> less (M ! r) (M ! p)" using j(3) v(3) r(3) by (simp add: less_def cmp_flip)
    then have "r = p" using sorted_nth_less [OF M r(2) p] r(1) Suc by simp
    then have "M ! p \<in> set (Ls ! j)" using r(3) v(2) by (metis nth_mem)
    then show ?thesis using Suc p j(1) v(1) by (auto simp: current_is_def FindLargest_def)
  qed
qed

text \<open>A move of all the children.\<close>

lemma those_map:
  assumes "\<And>x. x \<in> set xs \<Longrightarrow> \<exists>y. f x = Some y"
  shows "those (map f xs) = Some (map (the \<circ> f) xs)"
  using assms by (induction xs) fastforce+

lemma kids_move:
  assumes kids: "kids Ls cs pos" and f: "\<And>i. i < length Ls \<Longrightarrow> \<exists>y. f (cs ! i) = Some y \<and> at y (Ls ! i) (pos' i)"
  shows "\<exists>cs'. those (map f cs) = Some cs' \<and> kids Ls cs' pos'"
proof -
  have len: "length cs = length Ls" using kids by (simp add: kids_def)
  have "\<exists>y. f x = Some y" if "x \<in> set cs" for x using that f len by (metis in_set_conv_nth)
  then have "those (map f cs) = Some (map (the \<circ> f) cs)" by (rule those_map)
  moreover have "kids Ls (map (the \<circ> f) cs) pos'" using f len by (force simp: kids_def)
  ultimately show ?thesis by blast
qed

lemma kids_others:
  assumes kids: "kids Ls cs pos" and cur: "cur < length Ls" "pos' cur = pos cur"
    and f: "\<And>i. i < length Ls \<Longrightarrow> i \<noteq> cur \<Longrightarrow> \<exists>y. f (cs ! i) = Some y \<and> at y (Ls ! i) (pos' i)"
  shows "\<exists>cs'. others f cur cs = Some cs' \<and> kids Ls cs' pos'"
proof -
  have len: "length cs = length Ls" using kids by (simp add: kids_def)
  let ?f = "\<lambda>(i, c). if i = cur then Some c else f c"
  have g: "\<exists>y. ?f (enumerate 0 cs ! i) = Some y \<and> at y (Ls ! i) (pos' i)" if "i < length Ls" for i
    using that kids f [of i] cur len by (cases "i = cur") (auto simp: kids_def nth_enumerate_eq)
  have "\<exists>y. ?f x = Some y" if x: "x \<in> set (enumerate 0 cs)" for x
  proof -
    obtain i where "i < length cs" "x = enumerate 0 cs ! i" using x unfolding in_set_conv_nth by auto
    then show ?thesis using g [of i] len by auto
  qed
  then have "those (map ?f (enumerate 0 cs)) = Some (map (the \<circ> ?f) (enumerate 0 cs))" by (rule those_map)
  moreover have "kids Ls (map (the \<circ> ?f) (enumerate 0 cs)) pos'"
    unfolding kids_def
  proof (intro conjI allI impI)
    show "length (map (the \<circ> ?f) (enumerate 0 cs)) = length Ls" using len by simp
    show "at (map (the \<circ> ?f) (enumerate 0 cs) ! i) (Ls ! i) (pos' i)" if "i < length Ls" for i
      using g [OF that] len that by (auto simp del: split_def)
  qed
  ultimately show ?thesis unfolding others_def by blast
qed

lemma kids_update:
  assumes "kids Ls cs pos" and "cur < length Ls" and "at c (Ls ! cur) n"
  shows "kids Ls (cs[cur := c]) (pos(cur := n))"
  using assms by (auto simp: kids_def nth_list_update)

lemma kids_cong: "kids Ls cs pos \<Longrightarrow> (\<And>i. i < length Ls \<Longrightarrow> pos i = pos' i) \<Longrightarrow> kids Ls cs pos'"
  by (simp add: kids_def)

lemma merge_at_kids:
  assumes "merge_at m M p"
  obtains Ls pos where "merges Ls M" "kids Ls (m_children m) pos" "current_is m Ls M p" "p \<le> length M"
    "p < length M \<Longrightarrow> pos = (case m_direction m of kForward \<Rightarrow> (\<lambda>i. pre M p (Ls ! i)) | kReverse \<Rightarrow> (\<lambda>i. lastp (pre M (Suc p) (Ls ! i)) (Ls ! i)))"
  using assms unfolding merge_at_def by (cases "p < length M"; cases "m_direction m") auto

lemma merge_atI_forward:
  assumes mg: "merges Ls M" and kids: "kids Ls cs (\<lambda>i. pre M p (Ls ! i))" and p: "p \<le> length M"
    and m: "m_children m = cs" "m_direction m' = kForward" "m_children m' = cs" "m_current m' = m_current (FindSmallest I cmp m)"
  shows "merge_at m' M p"
proof -
  have "current_is m' Ls M p"
    using FindSmallest_at [OF mg _ p, of m] kids m(1,4) by (simp add: current_is_def)
  then show ?thesis using mg kids p m(2,3) unfolding merge_at_def by (intro conjI exI [of _ Ls]) auto
qed

lemma merge_atI_backward:
  assumes mg: "merges Ls M" and kids: "kids Ls cs (\<lambda>i. lastp (pre M q (Ls ! i)) (Ls ! i))" and q: "q \<le> length M"
    and m: "m_children m = cs" "m_direction m' = kReverse" "m_children m' = cs" "m_current m' = m_current (FindLargest I cmp m)"
  shows "merge_at m' M (if q = 0 then length M else q - 1)"
proof -
  have "current_is m' Ls M (if q = 0 then length M else q - 1)"
    using FindLargest_at [OF mg _ q, of m] kids m(1,4) by (simp add: current_is_def)
  then show ?thesis using mg kids q m(2,3) unfolding merge_at_def by (intro conjI exI [of _ Ls]) auto
qed

lemma Merging_SeekToFirst_ok:
  assumes "merge_at m M p"
  shows "\<exists>m'. Merging_SeekToFirst I cmp m = Some m' \<and> merge_at m' M 0"
proof -
  obtain Ls pos where mg: "merges Ls M" and k: "kids Ls (m_children m) pos" using merge_at_kids [OF assms] .
  have s: "\<exists>y. i_SeekToFirst I (m_children m ! i) = Some y \<and> at y (Ls ! i) (pre M 0 (Ls ! i))" if "i < length Ls" for i
    using SeekToFirst k that by (force simp: kids_def)
  then obtain cs where cs: "those (map (i_SeekToFirst I) (m_children m)) = Some cs" "kids Ls cs (\<lambda>i. pre M 0 (Ls ! i))"
    using kids_move [OF k s] by blast
  have "merge_at (FindSmallest I cmp (m\<lparr>m_children := cs\<rparr>)\<lparr>m_direction := kForward\<rparr>) M 0"
    by (rule merge_atI_forward [OF mg cs(2), of "m\<lparr>m_children := cs\<rparr>"]) (simp_all add: FindSmallest_def)
  then show ?thesis using cs(1) by (simp add: Merging_SeekToFirst_def)
qed

lemma Merging_Seek_ok:
  assumes "merge_at m M p" and "seek_ok target"
  shows "\<exists>m'. Merging_Seek I cmp target m = Some m' \<and> merge_at m' M (length (takeWhile (\<lambda>e. cmp (fst e) target < 0) M))"
proof -
  obtain Ls pos where mg: "merges Ls M" and k: "kids Ls (m_children m) pos" using merge_at_kids [OF assms(1)] .
  let ?p = "length (takeWhile (\<lambda>e. cmp (fst e) target < 0) M)"
  have s: "\<exists>y. i_Seek I target (m_children m ! i) = Some y \<and> at y (Ls ! i) (pre M ?p (Ls ! i))" if i: "i < length Ls" for i
    using Seek [OF _ assms(2), of "m_children m ! i" "Ls ! i"] k i pre_seek [OF merges_part [OF mg i], of target] by (auto simp: kids_def)
  then obtain cs where cs: "those (map (i_Seek I target) (m_children m)) = Some cs" "kids Ls cs (\<lambda>i. pre M ?p (Ls ! i))"
    using kids_move [OF k s] by blast
  have "merge_at (FindSmallest I cmp (m\<lparr>m_children := cs\<rparr>)\<lparr>m_direction := kForward\<rparr>) M ?p"
    by (rule merge_atI_forward [OF mg cs(2), of "m\<lparr>m_children := cs\<rparr>"]) (simp_all add: FindSmallest_def length_takeWhile_le)
  then show ?thesis using cs(1) by (simp add: Merging_Seek_def)
qed

lemma Merging_SeekToLast_ok:
  assumes "merge_at m M p"
  shows "\<exists>m'. Merging_SeekToLast I cmp m = Some m' \<and> merge_at m' M (length M - 1)"
proof -
  obtain Ls pos where mg: "merges Ls M" and k: "kids Ls (m_children m) pos" using merge_at_kids [OF assms] .
  have s: "\<exists>y. i_SeekToLast I (m_children m ! i) = Some y \<and> at y (Ls ! i) (lastp (pre M (length M) (Ls ! i)) (Ls ! i))" if i: "i < length Ls" for i
    using SeekToLast [of "m_children m ! i" "Ls ! i"] k i pre_all [OF merges_part [OF mg i]] by (auto simp: kids_def lastp_def)
  then obtain cs where cs: "those (map (i_SeekToLast I) (m_children m)) = Some cs" "kids Ls cs (\<lambda>i. lastp (pre M (length M) (Ls ! i)) (Ls ! i))"
    using kids_move [OF k s] by blast
  have "merge_at (FindLargest I cmp (m\<lparr>m_children := cs\<rparr>)\<lparr>m_direction := kReverse\<rparr>) M (if length M = 0 then length M else length M - 1)"
    by (rule merge_atI_backward [OF mg cs(2), of "m\<lparr>m_children := cs\<rparr>"]) (simp_all add: FindLargest_def)
  then show ?thesis using cs(1) by (cases M) (simp_all add: Merging_SeekToLast_def)
qed

lemma merge_at_inside:
  assumes "merge_at m M p" and "p < length M"
  obtains Ls where "merges Ls M" "current_is m Ls M p"
    "kids Ls (m_children m) (case m_direction m of kForward \<Rightarrow> (\<lambda>i. pre M p (Ls ! i)) | kReverse \<Rightarrow> (\<lambda>i. lastp (pre M (Suc p) (Ls ! i)) (Ls ! i)))"
  using assms unfolding merge_at_def by (cases "m_direction m") auto

lemma takeWhile_at:
  assumes M: "sorted_wrt less M" and p: "p < length M"
  shows "length (takeWhile (\<lambda>e. cmp (fst e) (fst (M ! p)) < 0) M) = p"
proof -
  have "takeWhile (\<lambda>e. cmp (fst e) (fst (M ! p)) < 0) (take p M @ drop p M) = take p M"
  proof (rule takeWhile_split)
    show "\<forall>x \<in> set (take p M). cmp (fst x) (fst (M ! p)) < 0"
    proof
      fix x
      assume "x \<in> set (take p M)"
      then obtain q where "q < p" "x = M ! q" by (auto simp: in_set_conv_nth)
      then show "cmp (fst x) (fst (M ! p)) < 0"
        using sorted_nth_less [OF M _ p, of q] p by (simp add: less_def)
    qed
    show "\<forall>x \<in> set (drop p M). \<not> cmp (fst x) (fst (M ! p)) < 0"
    proof
      fix x
      assume "x \<in> set (drop p M)"
      then obtain q where "q < length M - p" "x = M ! (p + q)" by (auto simp: in_set_conv_nth)
      then show "\<not> cmp (fst x) (fst (M ! p)) < 0"
        using sorted_nth_less [OF M _ p, of "p + q"] by (simp add: less_def)
    qed
  qed
  then show ?thesis using p by simp
qed

text \<open>The moves by one.\<close>

lemma Merging_Next_ok:
  assumes at: "merge_at m M p" and p: "p < length M"
  shows "\<exists>m'. Merging_Next I cmp m = Some m' \<and> merge_at m' M (Suc p)"
proof -
  obtain Ls where mg: "merges Ls M" and cu: "current_is m Ls M p"
    and k0: "kids Ls (m_children m) (case m_direction m of kForward \<Rightarrow> (\<lambda>i. pre M p (Ls ! i)) | kReverse \<Rightarrow> (\<lambda>i. lastp (pre M (Suc p) (Ls ! i)) (Ls ! i)))"
    using merge_at_inside [OF at p] .
  define pos where pos: "pos = (case m_direction m of kForward \<Rightarrow> (\<lambda>i. pre M p (Ls ! i)) | kReverse \<Rightarrow> (\<lambda>i. lastp (pre M (Suc p) (Ls ! i)) (Ls ! i)))"
  note k = k0 [folded pos]
  have M: "sorted_wrt less M" using mg by (simp add: merges_def)
  have sk: "seek_ok (fst (M ! p))" using mg p unfolding merges_def by (metis nth_mem)
  obtain cur where cur: "cur < length Ls" "m_current m = Some cur" "M ! p \<in> set (Ls ! cur)" using cu p by (auto simp: current_is_def)
  note c = pre_Suc [OF merges_part [OF mg cur(1)] p]
  have posc: "pos cur = pre M p (Ls ! cur)" using c cur(3) by (cases "m_direction m") (simp_all add: pos lastp_def)
  have other: "M ! p \<notin> set (Ls ! i)" if "i < length Ls" "i \<noteq> cur" for i using merges_other [OF mg cur(1) that(1) cur(3)] that(2) by blast
  have len: "length (m_children m) = length Ls" using k by (simp add: kids_def)
  have key: "Merging_key I m = fst (M ! p)"
    using kids_valid(2) [OF k, of cur] cur c posc len by (simp add: Merging_key_def)
  have "\<exists>cs. (if m_direction m \<noteq> kForward then others (turn_forward I cmp (Merging_key I m)) cur (m_children m) else Some (m_children m)) = Some cs \<and>
      kids Ls cs (\<lambda>i. pre M p (Ls ! i))"
  proof (cases "m_direction m")
    case kForward
    then show ?thesis using k pos by simp
  next
    case kReverse
    have s: "\<exists>y. turn_forward I cmp (fst (M ! p)) (m_children m ! i) = Some y \<and> at y (Ls ! i) (pre M p (Ls ! i))"
      if i: "i < length Ls" "i \<noteq> cur" for i
    proof -
      have a: "at (m_children m ! i) (Ls ! i) (pos i)" using k i by (simp add: kids_def)
      obtain y where y: "i_Seek I (fst (M ! p)) (m_children m ! i) = Some y" "at y (Ls ! i) (pre M p (Ls ! i))"
        using Seek [OF a sk] pre_seek [OF merges_part [OF mg i(1)], of "fst (M ! p)"] takeWhile_at [OF M p] by auto
      have "\<not> (i_Valid I y \<and> cmp (fst (M ! p)) (i_key I y) = 0)"
      proof
        assume v: "i_Valid I y \<and> cmp (fst (M ! p)) (i_key I y) = 0"
        then have l: "pre M p (Ls ! i) < length (Ls ! i)" using Valid [OF y(2)] by simp
        then have e: "cmp (fst (M ! p)) (fst (Ls ! i ! pre M p (Ls ! i))) = 0" using v entry [OF y(2)] by simp
        obtain q where q: "q < length M" "Ls ! i ! pre M p (Ls ! i) = M ! q" using part_index [OF merges_part [OF mg i(1)] l] by blast
        have "q = p"
          using e q sorted_nth_less [OF M p q(1)] sorted_nth_less [OF M q(1) p] cmp_sym0 [of "fst (M ! p)" "fst (M ! q)"]
          by (auto simp: less_def)
        then show False using other [OF i] q(2) l by (metis nth_mem)
      qed
      then show ?thesis using y by (auto simp: turn_forward_def)
    qed
    show ?thesis using kids_others [OF k cur(1) _ s] posc kReverse key by simp
  qed
  then obtain cs where cs: "(if m_direction m \<noteq> kForward then others (turn_forward I cmp (Merging_key I m)) cur (m_children m) else Some (m_children m)) = Some cs"
    "kids Ls cs (\<lambda>i. pre M p (Ls ! i))" by blast
  then obtain y where y: "i_Next I (cs ! cur) = Some y" "at y (Ls ! cur) (Suc (pre M p (Ls ! cur)))"
    using Next [of "cs ! cur" "Ls ! cur" "pre M p (Ls ! cur)"] cur(1) c(2) [OF cur(3)] by (auto simp: kids_def)
  have k': "kids Ls (cs[cur := y]) (\<lambda>i. pre M (Suc p) (Ls ! i))"
    by (rule kids_cong [OF kids_update [OF cs(2) cur(1) y(2)]])
      (use c(1) cur(3) other pre_Suc(1) [OF merges_part [OF mg] p] in \<open>auto\<close>)
  let ?m = "m\<lparr>m_children := cs[cur := y], m_direction := kForward\<rparr>"
  have "merge_at (FindSmallest I cmp ?m) M (Suc p)"
    by (rule merge_atI_forward [OF mg k', of ?m]) (use p in \<open>simp_all add: FindSmallest_def\<close>)
  then show ?thesis using cs(1) y(1) cur(2) by (simp add: Merging_Next_def)
qed

lemma Merging_Prev_ok:
  assumes at: "merge_at m M p" and p: "p < length M"
  shows "\<exists>m'. Merging_Prev I cmp m = Some m' \<and> merge_at m' M (if p = 0 then length M else p - 1)"
proof -
  obtain Ls where mg: "merges Ls M" and cu: "current_is m Ls M p"
    and k0: "kids Ls (m_children m) (case m_direction m of kForward \<Rightarrow> (\<lambda>i. pre M p (Ls ! i)) | kReverse \<Rightarrow> (\<lambda>i. lastp (pre M (Suc p) (Ls ! i)) (Ls ! i)))"
    using merge_at_inside [OF at p] .
  define pos where pos: "pos = (case m_direction m of kForward \<Rightarrow> (\<lambda>i. pre M p (Ls ! i)) | kReverse \<Rightarrow> (\<lambda>i. lastp (pre M (Suc p) (Ls ! i)) (Ls ! i)))"
  note k = k0 [folded pos]
  have M: "sorted_wrt less M" using mg by (simp add: merges_def)
  have sk: "seek_ok (fst (M ! p))" using mg p unfolding merges_def by (metis nth_mem)
  obtain cur where cur: "cur < length Ls" "m_current m = Some cur" "M ! p \<in> set (Ls ! cur)" using cu p by (auto simp: current_is_def)
  note c = pre_Suc [OF merges_part [OF mg cur(1)] p]
  have posc: "pos cur = pre M p (Ls ! cur)" using c cur(3) by (cases "m_direction m") (simp_all add: pos lastp_def)
  have other: "M ! p \<notin> set (Ls ! i)" if "i < length Ls" "i \<noteq> cur" for i using merges_other [OF mg cur(1) that(1) cur(3)] that(2) by blast
  have len: "length (m_children m) = length Ls" using k by (simp add: kids_def)
  have key: "Merging_key I m = fst (M ! p)"
    using kids_valid(2) [OF k, of cur] cur c posc len by (simp add: Merging_key_def)
  let ?pos = "(\<lambda>i. lastp (pre M p (Ls ! i)) (Ls ! i))(cur := pre M p (Ls ! cur))"
  have "\<exists>cs. (if m_direction m \<noteq> kReverse then others (turn_backward I (Merging_key I m)) cur (m_children m) else Some (m_children m)) = Some cs \<and>
      kids Ls cs ?pos"
  proof (cases "m_direction m")
    case kReverse
    have "pos i = ?pos i" if "i < length Ls" for i
      using that posc other pre_Suc(1) [OF merges_part [OF mg that] p] kReverse by (auto simp: pos)
    then have "kids Ls (m_children m) ?pos" by (rule kids_cong [OF k])
    then show ?thesis using kReverse by simp
  next
    case kForward
    have s: "\<exists>y. turn_backward I (fst (M ! p)) (m_children m ! i) = Some y \<and> at y (Ls ! i) (?pos i)"
      if i: "i < length Ls" "i \<noteq> cur" for i
    proof -
      have a: "at (m_children m ! i) (Ls ! i) (pos i)" using k i by (simp add: kids_def)
      obtain y where y: "i_Seek I (fst (M ! p)) (m_children m ! i) = Some y" "at y (Ls ! i) (pre M p (Ls ! i))"
        using Seek [OF a sk] pre_seek [OF merges_part [OF mg i(1)], of "fst (M ! p)"] takeWhile_at [OF M p] by auto
      show ?thesis
      proof (cases "pre M p (Ls ! i) < length (Ls ! i)")
        case True
        then show ?thesis using y Prev [OF y(2) True] Valid [OF y(2)] i(2) by (auto simp: turn_backward_def lastp_def)
      next
        case False
        then have "pre M p (Ls ! i) = length (Ls ! i)" using pre_le [of M p "Ls ! i"] by simp
        then show ?thesis using y SeekToLast [OF y(2)] Valid [OF y(2)] i(2) by (auto simp: turn_backward_def lastp_def)
      qed
    qed
    have "\<exists>cs. others (turn_backward I (fst (M ! p))) cur (m_children m) = Some cs \<and> kids Ls cs ?pos"
      by (rule kids_others [OF k cur(1) _ s]) (simp_all only: posc fun_upd_same simp_thms)
    then show ?thesis unfolding key kForward by (simp only: Direction.distinct if_True simp_thms)
  qed
  then obtain cs where cs: "(if m_direction m \<noteq> kReverse then others (turn_backward I (Merging_key I m)) cur (m_children m) else Some (m_children m)) = Some cs"
    "kids Ls cs ?pos" by blast
  have "at (cs ! cur) (Ls ! cur) (?pos cur)" using cs(2) cur(1) unfolding kids_def by blast
  from Prev [OF this [unfolded fun_upd_same]] obtain y where y: "i_Prev I (cs ! cur) = Some y" "at y (Ls ! cur) (lastp (pre M p (Ls ! cur)) (Ls ! cur))"
    using c(2) [OF cur(3)] unfolding lastp_def by blast
  have k': "kids Ls (cs[cur := y]) (\<lambda>i. lastp (pre M p (Ls ! i)) (Ls ! i))"
    by (rule kids_cong [OF kids_update [OF cs(2) cur(1) y(2)]]) simp
  let ?m = "m\<lparr>m_children := cs[cur := y], m_direction := kReverse\<rparr>"
  have "merge_at (FindLargest I cmp ?m) M (if p = 0 then length M else p - 1)"
    by (rule merge_atI_backward [OF mg k', of ?m]) (use p in \<open>simp_all add: FindLargest_def\<close>)
  then show ?thesis using cs(1) y(1) cur(2) by (simp add: Merging_Prev_def)
qed

lemma merging_status_Okay: "(\<And>c. c \<in> set cs \<Longrightarrow> i_status I c = Okay) \<Longrightarrow> merging_status I cs = Okay"
  by (induction cs) simp_all

lemma merging_iterator: "iterator (Merging_Iter I cmp) merge_at cmp seek_ok"
proof unfold_locales
  fix m M p
  assume a: "merge_at m M p"
  obtain Ls pos where mg: "merges Ls M" and k: "kids Ls (m_children m) pos" and cu: "current_is m Ls M p" and le: "p \<le> length M"
    using merge_at_kids [OF a] .
  show "p \<le> length M" by (rule le)
  show "i_Valid (Merging_Iter I cmp) m \<longleftrightarrow> p < length M" using cu le by (auto simp: Merging_Iter_def current_is_def split: if_splits)
  have "i_status I c = Okay" if "c \<in> set (m_children m)" for c
    using that k status by (auto simp: in_set_conv_nth kids_def)
  then show "i_status (Merging_Iter I cmp) m = Okay" by (simp add: Merging_Iter_def merging_status_Okay)
  show "\<exists>y. i_SeekToFirst (Merging_Iter I cmp) m = Some y \<and> merge_at y M 0"
    using Merging_SeekToFirst_ok [OF a] by (simp add: Merging_Iter_def)
  show "\<exists>y. i_SeekToLast (Merging_Iter I cmp) m = Some y \<and> merge_at y M (length M - 1)"
    using Merging_SeekToLast_ok [OF a] by (simp add: Merging_Iter_def)
  show "\<exists>y. i_Seek (Merging_Iter I cmp) k m = Some y \<and> merge_at y M (length (takeWhile (\<lambda>e. cmp (fst e) k < 0) M))"
    if "seek_ok k" for k
    using Merging_Seek_ok [OF a that] by (simp add: Merging_Iter_def)
  assume p: "p < length M"
  show "\<exists>y. i_Next (Merging_Iter I cmp) m = Some y \<and> merge_at y M (Suc p)"
    using Merging_Next_ok [OF a p] by (simp add: Merging_Iter_def)
  show "\<exists>y. i_Prev (Merging_Iter I cmp) m = Some y \<and> merge_at y M (if p = 0 then length M else p - 1)"
    using Merging_Prev_ok [OF a p] by (simp add: Merging_Iter_def)
  obtain Ls where mg: "merges Ls M" and cu: "current_is m Ls M p"
    and k: "kids Ls (m_children m) (case m_direction m of kForward \<Rightarrow> (\<lambda>i. pre M p (Ls ! i)) | kReverse \<Rightarrow> (\<lambda>i. lastp (pre M (Suc p) (Ls ! i)) (Ls ! i)))"
    using merge_at_inside [OF a p] .
  obtain cur where cur: "cur < length Ls" "m_current m = Some cur" "M ! p \<in> set (Ls ! cur)" using cu p by (auto simp: current_is_def)
  note c = pre_Suc [OF merges_part [OF mg cur(1)] p]
  have "length (m_children m) = length Ls" using k by (simp add: kids_def)
  then show "i_key (Merging_Iter I cmp) m = fst (M ! p) \<and> i_value (Merging_Iter I cmp) m = snd (M ! p)"
    using kids_valid(2) [OF k, of cur] cur c
    by (cases "m_direction m") (simp_all add: Merging_Iter_def Merging_key_def Merging_value_def lastp_def)
qed

text \<open>The new iterator is outside; with one list or none there is nothing to merge.\<close>

definition any_at :: "'i AnyIterator \<Rightarrow> (slice \<times> slice) list \<Rightarrow> nat \<Rightarrow> bool" where
  "any_at x M p = (case x of EmptyIterator \<Rightarrow> M = [] \<and> p = 0 | OneIterator c \<Rightarrow> at c M p | ManyIterator m \<Rightarrow> merge_at m M p)"

lemma any_iterator: "iterator (Any_Iter I cmp) any_at cmp seek_ok"
proof unfold_locales
  note M = merging_iterator
  note d = Any_Iter_def any_at_def any_get_def any_step_def Let_def
  fix x M p
  assume a: "any_at x M p"
  show "p \<le> length M" using a at_le iterator.at_le [OF merging_iterator] by (cases x) (auto simp: any_at_def)
  show "i_Valid (Any_Iter I cmp) x \<longleftrightarrow> p < length M"
    using a Valid iterator.Valid [OF merging_iterator] by (cases x) (auto simp: d)
  show "i_status (Any_Iter I cmp) x = Okay"
    using a status iterator.status [OF merging_iterator] by (cases x) (auto simp: d)
  show "\<exists>y. i_SeekToFirst (Any_Iter I cmp) x = Some y \<and> any_at y M 0"
    using a SeekToFirst iterator.SeekToFirst [OF merging_iterator] by (cases x) (fastforce simp: d)+
  show "\<exists>y. i_SeekToLast (Any_Iter I cmp) x = Some y \<and> any_at y M (length M - 1)"
    using a SeekToLast iterator.SeekToLast [OF merging_iterator] by (cases x) (fastforce simp: d)+
  show "\<exists>y. i_Seek (Any_Iter I cmp) k x = Some y \<and> any_at y M (length (takeWhile (\<lambda>e. cmp (fst e) k < 0) M))"
    if "seek_ok k" for k
    using a that Seek iterator.Seek [OF merging_iterator] by (cases x) (fastforce simp: d)+
  assume p: "p < length M"
  show "\<exists>y. i_Next (Any_Iter I cmp) x = Some y \<and> any_at y M (Suc p)"
    using a p Next iterator.Next [OF merging_iterator] by (cases x) (fastforce simp: d)+
  show "\<exists>y. i_Prev (Any_Iter I cmp) x = Some y \<and> any_at y M (if p = 0 then length M else p - 1)"
    using a p Prev iterator.Prev [OF merging_iterator] by (cases x) (fastforce simp: d)+
  show "i_key (Any_Iter I cmp) x = fst (M ! p) \<and> i_value (Any_Iter I cmp) x = snd (M ! p)"
    using a p entry iterator.entry [OF merging_iterator] by (cases x) (auto simp: d)
qed

end

sublocale merging \<subseteq> any: iterator "Any_Iter I cmp" any_at cmp seek_ok
  by (rule any_iterator)

text \<open>The memtables of a store under one iterator, and the store's iterator over it.\<close>

interpretation mem_merging: merging mem_Iter mem_at InternalKey_Compare mem_seek_ok
  by unfold_locales

abbreviation mems_Iter :: "(MemTable \<times> nat option) AnyIterator Iter" where
  "mems_Iter \<equiv> Any_Iter mem_Iter InternalKey_Compare"

interpretation mems_internal: internal_iterator mems_Iter mem_merging.any_at mem_seek_ok
  by unfold_locales

end
