(* ===== verification/Db.thy ===== *)
theory Db
  imports Merger Kvstore
begin

text \<open>
  \<^verbatim>\<open>leveldb/db/db_impl.cc\<close>, the paths of the reads and the writes: the memtable and the one being compacted,
  the write-ahead log as the list of its records, the queue of the writers with the group commit, and the
  snapshots. The table files are the version \<open>d_version\<close> of any type, with the lookup \<open>vget\<close> and the numbers of
  level-0 files as parameters of the environment. What the environment answers (memory use of a table, log and
  file system calls) are functions in \<open>DBEnv\<close>. \<open>None\<close> is a failed assertion or a writer that has to wait for the
  background compaction. The mutex, compaction itself and \<^verbatim>\<open>no_memtable\<close> mode are not modelled.
\<close>

section \<open>The state\<close>

datatype batch_ref = UserBatch WriteBatch | FlushMemTable | SyncWal

record Writer =
  w_id :: nat
  w_batch :: batch_ref
  w_sync :: bool

record DBOptions =
  o_disable_wal :: bool
  o_disable_compaction :: bool
  o_l0_hard_limit :: nat
  o_write_buffer_size :: nat

record 'v DBEnv =
  e_memory_usage :: "MemTable \<Rightarrow> nat"
  e_new_file :: "u64 \<Rightarrow> status"
  e_add_record :: "slice list \<Rightarrow> slice \<Rightarrow> status"
  e_sync :: "slice list \<Rightarrow> status"
  e_version_get :: "'v \<Rightarrow> nat \<Rightarrow> LookupKey \<Rightarrow> status \<times> slice option"
  e_num_level0 :: "'v \<Rightarrow> nat"

record 'v DBImpl =
  d_mem :: MemTable
  d_imm :: "MemTable option"
  d_last :: u64
  d_snapshots :: "u64 list"
  d_bg_error :: status
  d_tmp_batch :: WriteBatch
  d_writers :: "Writer list"
  d_next_file :: u64
  d_logfile_number :: u64
  d_log :: "slice list"
  d_old_logs :: "(u64 \<times> slice list) list"
  d_version :: 'v

section \<open>Reads and snapshots\<close>

definition DB_GetSnapshot :: "'v DBImpl \<Rightarrow> u64 \<times> 'v DBImpl" where
  "DB_GetSnapshot d = (d_last d, d\<lparr>d_snapshots := d_snapshots d @ [d_last d]\<rparr>)"

definition DB_ReleaseSnapshot :: "u64 \<Rightarrow> 'v DBImpl \<Rightarrow> 'v DBImpl" where
  "DB_ReleaseSnapshot s d = d\<lparr>d_snapshots := remove1 s (d_snapshots d)\<rparr>"

definition DB_Get :: "'v DBEnv \<Rightarrow> u64 option \<Rightarrow> nat \<Rightarrow> slice \<Rightarrow> 'v DBImpl \<Rightarrow> (status \<times> slice option) option" where
  "DB_Get E snap limit key d =
     (let snapshot = (case snap of Some s \<Rightarrow> s | None \<Rightarrow> d_last d)
      in case mk_LookupKey key snapshot of
           None \<Rightarrow> None
         | Some lkey \<Rightarrow>
             (case MemTable_Get (d_mem d) lkey limit of
                None \<Rightarrow> None
              | Some (True, v, s) \<Rightarrow> Some (s, v)
              | Some (False, _, _) \<Rightarrow>
                  (case d_imm d of
                     None \<Rightarrow> Some (e_version_get E (d_version d) limit lkey)
                   | Some imm \<Rightarrow>
                       (case MemTable_Get imm lkey limit of
                          None \<Rightarrow> None
                        | Some (True, v, s) \<Rightarrow> Some (s, v)
                        | Some (False, _, _) \<Rightarrow> Some (e_version_get E (d_version d) limit lkey)))))"

section \<open>Writes\<close>

definition RecordBackgroundError :: "status \<Rightarrow> 'v DBImpl \<Rightarrow> 'v DBImpl" where
  "RecordBackgroundError s d = (if ok (d_bg_error d) then d\<lparr>d_bg_error := s\<rparr> else d)"

definition NewFileNumber :: "'v DBImpl \<Rightarrow> u64 \<times> 'v DBImpl" where
  "NewFileNumber d = (d_next_file d, d\<lparr>d_next_file := d_next_file d + 1\<rparr>)"

definition ReuseFileNumber :: "u64 \<Rightarrow> 'v DBImpl \<Rightarrow> 'v DBImpl" where
  "ReuseFileNumber n d = (if d_next_file d = n + 1 then d\<lparr>d_next_file := n\<rparr> else d)"

text \<open>The new log file that goes with a new memtable.\<close>

definition switch_log :: "'v DBEnv \<Rightarrow> DBOptions \<Rightarrow> 'v DBImpl \<Rightarrow> status \<times> 'v DBImpl" where
  "switch_log E opt d =
     (if o_disable_wal opt then (Okay, d)
      else
        case NewFileNumber d of (n, d) \<Rightarrow>
          let s = e_new_file E n
          in if \<not> ok s then (s, ReuseFileNumber n d)
             else (Okay, d\<lparr>d_old_logs := d_old_logs d @ [(d_logfile_number d, d_log d)], d_logfile_number := n, d_log := []\<rparr>))"

definition switch_memtable :: "'v DBImpl \<Rightarrow> 'v DBImpl" where
  "switch_memtable d = d\<lparr>d_imm := Some (d_mem d), d_mem := new_MemTable\<rparr>"

text \<open>
  The loop of \<^verbatim>\<open>MakeRoomForWrite\<close>. The delay of a millisecond near the soft limit changes nothing. After a
  switch there is an immutable memtable, so that the loop turns at most once more.
\<close>

lemma switch_log_imm [simp]: "d_imm (snd (switch_log E opt d)) = d_imm d"
  by (simp add: switch_log_def NewFileNumber_def ReuseFileNumber_def Let_def)

function MakeRoomForWrite :: "'v DBEnv \<Rightarrow> DBOptions \<Rightarrow> bool \<Rightarrow> 'v DBImpl \<Rightarrow> (status \<times> 'v DBImpl) option" where
  "MakeRoomForWrite E opt force d =
     (if \<not> ok (d_bg_error d) then Some (d_bg_error d, d)
      else if \<not> force \<and> e_memory_usage E (d_mem d) \<le> o_write_buffer_size opt then Some (Okay, d)
      else if d_imm d \<noteq> None then None
      else if \<not> o_disable_compaction opt \<and> o_l0_hard_limit opt \<le> e_num_level0 E (d_version d) then None
      else if ok (fst (switch_log E opt d)) then MakeRoomForWrite E opt False (switch_memtable (snd (switch_log E opt d)))
      else Some (switch_log E opt d))"
  by pat_completeness auto
termination
  by (relation "measure (\<lambda>(E, opt, force, d). if d_imm d = None then 1 else 0)") (simp_all add: switch_memtable_def)

declare MakeRoomForWrite.simps [simp del]

text \<open>
  \<^verbatim>\<open>BuildBatchGroup\<close>: the loop over the writers behind the first. \<open>tmp\<close> is \<^verbatim>\<open>tmp_batch_\<close> when the result has been
  switched to it. The result is the batch and how many of the writers behind joined.
\<close>

fun batch_group :: "bool \<Rightarrow> nat \<Rightarrow> nat \<Rightarrow> WriteBatch \<Rightarrow> WriteBatch \<Rightarrow> WriteBatch option \<Rightarrow> Writer list \<Rightarrow>
    (WriteBatch option \<times> nat) option" where
  "batch_group first_sync sz max_size tmp first result [] = Some (result, 0)"
| "batch_group first_sync sz max_size tmp first result (w # ws) =
     (if w_sync w \<and> \<not> first_sync then Some (result, 0)
      else
        case w_batch w of
          FlushMemTable \<Rightarrow> Some (result, 0)
        | SyncWal \<Rightarrow> Some (result, 0)
        | UserBatch b \<Rightarrow>
            (let sz = sz + length b
             in if max_size < sz then Some (result, 0)
                else
                  case (case result of
                          Some r \<Rightarrow> Some r
                        | None \<Rightarrow> if WB_Count tmp = 0 then WB_Append tmp first else None) of
                    None \<Rightarrow> None
                  | Some r \<Rightarrow>
                      (case WB_Append r b of
                         None \<Rightarrow> None
                       | Some r \<Rightarrow>
                           map_option (\<lambda>(res, n). (res, Suc n)) (batch_group first_sync sz max_size tmp first (Some r) ws))))"

definition BuildBatchGroup :: "'v DBImpl \<Rightarrow> (WriteBatch option \<times> nat) option" where
  "BuildBatchGroup d =
     (case d_writers d of
        [] \<Rightarrow> None
      | w # ws \<Rightarrow>
          (case w_batch w of
             UserBatch first \<Rightarrow>
               (let sz = length first;
                    max_size = (if sz \<le> 128 * 1024 then sz + 128 * 1024 else 1024 * 1024)
                in batch_group (w_sync w) sz max_size (d_tmp_batch d) first None ws)
           | _ \<Rightarrow> None))"

text \<open>The log and the memtable, with the mutex released; whether the state of the log is unclear afterwards.\<close>

definition write_log :: "'v DBEnv \<Rightarrow> DBOptions \<Rightarrow> bool \<Rightarrow> WriteBatch \<Rightarrow> 'v DBImpl \<Rightarrow> status \<times> bool \<times> 'v DBImpl" where
  "write_log E opt sync b d =
     (if o_disable_wal opt then (Okay, False, d)
      else
        let s = e_add_record E (d_log d) b; d = d\<lparr>d_log := d_log d @ [b]\<rparr>
        in if ok s \<and> sync then let s = e_sync E (d_log d) in (s, \<not> ok s, d) else (s, False, d))"

definition apply_group :: "'v DBEnv \<Rightarrow> DBOptions \<Rightarrow> bool \<Rightarrow> WriteBatch \<Rightarrow> 'v DBImpl \<Rightarrow> (status \<times> 'v DBImpl) option" where
  "apply_group E opt sync final_batch d =
     (let final_batch = WB_SetSequence final_batch (d_last d + 1);
          last_sequence = d_last d + word_of_int (WB_Count final_batch)
      in case write_log E opt sync final_batch d of (s, sync_error, d) \<Rightarrow>
         case (if ok s then InsertInto final_batch (d_mem d) else (s, Some (d_mem d))) of
           (s, None) \<Rightarrow> None
         | (s, Some mem) \<Rightarrow>
             (let d = d\<lparr>d_mem := mem\<rparr>; d = (if sync_error then RecordBackgroundError s d else d)
              in if d_last d \<le> last_sequence then Some (s, d\<lparr>d_last := last_sequence\<rparr>) else None))"

definition DB_sync_wal :: "'v DBEnv \<Rightarrow> DBOptions \<Rightarrow> 'v DBImpl \<Rightarrow> status \<times> 'v DBImpl" where
  "DB_sync_wal E opt d =
     (if o_disable_wal opt then (Okay, d)
      else let s = e_sync E (d_log d) in (s, if ok s then d else RecordBackgroundError s d))"

text \<open>
  What the writer at the front of the queue does in \<^verbatim>\<open>Write\<close>: the status it hands to all the writers it takes
  off the queue, and these writers.
\<close>

definition DB_write_front :: "'v DBEnv \<Rightarrow> DBOptions \<Rightarrow> 'v DBImpl \<Rightarrow> (status \<times> Writer list \<times> 'v DBImpl) option" where
  "DB_write_front E opt d =
     (let leave = (\<lambda>n s d. Some (s, take n (d_writers d), d\<lparr>d_writers := drop n (d_writers d)\<rparr>))
      in case d_writers d of
           [] \<Rightarrow> None
         | w # ws \<Rightarrow>
             (case w_batch w of
                SyncWal \<Rightarrow> (case DB_sync_wal E opt d of (s, d) \<Rightarrow> leave 1 s d)
              | FlushMemTable \<Rightarrow>
                  (case MakeRoomForWrite E opt True d of None \<Rightarrow> None | Some (s, d) \<Rightarrow> leave 1 s d)
              | UserBatch b \<Rightarrow>
                  (case MakeRoomForWrite E opt False d of
                     None \<Rightarrow> None
                   | Some (s, d) \<Rightarrow>
                       if \<not> ok s then leave 1 s d
                       else
                         case BuildBatchGroup d of
                           None \<Rightarrow> None
                         | Some (tmp, n) \<Rightarrow>
                             (let final_batch = (case tmp of None \<Rightarrow> b | Some t \<Rightarrow> t)
                              in case apply_group E opt (w_sync w) final_batch d of
                                   None \<Rightarrow> None
                                 | Some (s, d) \<Rightarrow>
                                     leave (Suc n) s (if tmp = None then d else d\<lparr>d_tmp_batch := WB_Clear\<rparr>)))))"

definition DB_enqueue :: "Writer \<Rightarrow> 'v DBImpl \<Rightarrow> 'v DBImpl" where
  "DB_enqueue w d = d\<lparr>d_writers := d_writers d @ [w]\<rparr>"

text \<open>\<^verbatim>\<open>Write\<close> of a single client: nobody else is in the queue. \<^verbatim>\<open>DB::Put\<close> and \<^verbatim>\<open>DB::Delete\<close> (\<^verbatim>\<open>db.cc\<close>) write a batch of one.\<close>

definition DB_Write :: "'v DBEnv \<Rightarrow> DBOptions \<Rightarrow> bool \<Rightarrow> batch_ref \<Rightarrow> 'v DBImpl \<Rightarrow> (status \<times> 'v DBImpl) option" where
  "DB_Write E opt sync b d =
     map_option (\<lambda>(s, _, d). (s, d)) (DB_write_front E opt (DB_enqueue \<lparr>w_id = 0, w_batch = b, w_sync = sync\<rparr> d))"

definition DB_Put :: "'v DBEnv \<Rightarrow> DBOptions \<Rightarrow> bool \<Rightarrow> slice \<Rightarrow> slice \<Rightarrow> 'v DBImpl \<Rightarrow> (status \<times> 'v DBImpl) option" where
  "DB_Put E opt sync key val d = DB_Write E opt sync (UserBatch (WB_Put WB_Clear key val)) d"

definition DB_Delete :: "'v DBEnv \<Rightarrow> DBOptions \<Rightarrow> bool \<Rightarrow> slice \<Rightarrow> 'v DBImpl \<Rightarrow> (status \<times> 'v DBImpl) option" where
  "DB_Delete E opt sync key d = DB_Write E opt sync (UserBatch (WB_Delete WB_Clear key)) d"

text \<open>A new store: an empty memtable, nothing written, the first log file open.\<close>

definition new_DBImpl :: "'v \<Rightarrow> u64 \<Rightarrow> 'v DBImpl" where
  "new_DBImpl version log_number =
     \<lparr>d_mem = new_MemTable, d_imm = None, d_last = 0, d_snapshots = [], d_bg_error = Okay, d_tmp_batch = WB_Clear,
      d_writers = [], d_next_file = log_number + 1, d_logfile_number = log_number, d_log = [], d_old_logs = [],
      d_version = version\<rparr>"

section \<open>What a reader sees\<close>

text \<open>A table of entries over the older data \<open>base\<close>, for a reader at \<open>s\<close>.\<close>

definition layer :: "entry list \<Rightarrow> u64 \<Rightarrow> (slice \<Rightarrow> slice option) \<Rightarrow> slice \<Rightarrow> slice option" where
  "layer es s base k = (case newest es k s of None \<Rightarrow> base k
     | Some e \<Rightarrow> (case en_type e of kTypeValue \<Rightarrow> Some (en_val e) | kTypeDeletion \<Rightarrow> None))"

definition db_view :: "entry list \<Rightarrow> entry list \<Rightarrow> (u64 \<Rightarrow> slice \<Rightarrow> slice option) \<Rightarrow> u64 \<Rightarrow> slice \<Rightarrow> slice option" where
  "db_view mes ies old s = layer mes s (layer ies s (old s))"

text \<open>What the store relies on in its table files: a lookup finds what the view \<open>old\<close> says.\<close>

definition version_reads :: "'v DBEnv \<Rightarrow> 'v \<Rightarrow> (u64 \<Rightarrow> slice \<Rightarrow> slice option) \<Rightarrow> bool" where
  "version_reads E v old \<longleftrightarrow>
     (\<forall>k s lkey limit. mk_LookupKey k s = Some lkey \<longrightarrow> length k + 8 < 2 ^ 32 \<longrightarrow> s \<le> kMaxSequenceNumber \<longrightarrow>
        e_version_get E v limit lkey =
          (case old s k of None \<Rightarrow> (NotFound [], None) | Some x \<Rightarrow> (Okay, Some (take limit x))))"

definition settled :: "u64 \<Rightarrow> (u64 \<Rightarrow> slice \<Rightarrow> slice option) \<Rightarrow> bool" where
  "settled n old \<longleftrightarrow> (\<forall>s. n \<le> s \<longrightarrow> old s = old n)"

text \<open>
  The state of a store whose memtables hold the entries \<open>mes\<close> and \<open>ies\<close>: none is newer than the last sequence
  number, those of the immutable table are older than those of the current one, and the files do not change for
  a later reader.
\<close>

definition db_rep :: "'v DBImpl \<Rightarrow> entry list \<Rightarrow> entry list \<Rightarrow> (u64 \<Rightarrow> slice \<Rightarrow> slice option) \<Rightarrow> bool" where
  "db_rep d mes ies old \<longleftrightarrow>
     mem_rep (d_mem d) mes \<and> (case d_imm d of None \<Rightarrow> ies = [] | Some imm \<Rightarrow> mem_rep imm ies) \<and>
     below_seq (Suc (unat (d_last d))) mes \<and> below_seq (Suc (unat (d_last d))) ies \<and>
     (\<forall>a \<in> set mes. \<forall>b \<in> set ies. en_seq b < en_seq a) \<and>
     d_last d \<le> kMaxSequenceNumber \<and> d_tmp_batch d = WB_Clear \<and> settled (d_last d) old"

lemma layer_insert:
  assumes "\<forall>x \<in> set es. en_seq x \<le> kMaxSequenceNumber" "s \<le> kMaxSequenceNumber" and "fresh_seq s es"
  shows "layer (insert_entry (update_entry s u) es) t base =
    (if s \<le> t then map_update (layer es t base) u else layer es t base)"
  using newest_insert [of es "update_entry s u" _ t] assms by (cases u) (auto simp: layer_def)

lemma layer_add_updates:
  assumes "\<forall>x \<in> set es. en_seq x \<le> kMaxSequenceNumber" "below_seq (unat s) es" "unat s + length us \<le> 2 ^ 56"
  shows "(unat s + length us \<le> unat t + 1 \<longrightarrow> layer (add_updates s us es) t base = foldl map_update (layer es t base) us) \<and>
    (unat t < unat s \<longrightarrow> layer (add_updates s us es) t base = layer es t base)"
  using assms
proof (induction us arbitrary: s es)
  case Nil
  then show ?case by simp
next
  case (Cons u us)
  let ?es = "insert_entry (update_entry s u) es"
  have s: "unat s < 2 ^ 56" using Cons.prems(3) by simp
  then have s1: "unat (s + 1) = unat s + 1" by (subst unat_add_lem [THEN iffD1]) simp_all
  have sm: "s \<le> kMaxSequenceNumber" using s by (simp add: kMaxSequenceNumber_unat)
  have v: "layer ?es t base = (if s \<le> t then map_update (layer es t base) u else layer es t base)"
    using layer_insert [of es s u t] Cons.prems sm by (auto simp: fresh_below)
  have "\<forall>x \<in> set ?es. en_seq x \<le> kMaxSequenceNumber" "below_seq (unat (s + 1)) ?es" "unat (s + 1) + length us \<le> 2 ^ 56"
    using Cons.prems s1 sm by (auto simp: below_seq_def)
  from Cons.IH [OF this] show ?case
    using s1 v by (auto simp: word_le_nat_alt)
qed

lemma layer_mono:
  assumes "below_seq n es" and "n \<le> unat s + 1" and "n \<le> unat t + 1"
  shows "layer es s = layer es t"
proof -
  have "\<forall>e \<in> set es. en_seq e \<le> s \<and> en_seq e \<le> t"
    using assms by (fastforce simp: below_seq_def word_le_nat_alt)
  then have "newest es k s = newest es k t" for k unfolding newest_def by (induction es) auto
  then show ?thesis by (simp add: layer_def fun_eq_iff)
qed

lemma layer_Nil [simp]: "layer [] s base = base"
  by (simp add: layer_def newest_def fun_eq_iff)

lemma layer_None: "layer es s (\<lambda>_. None) = mem_view es s"
  by (simp add: layer_def mem_view_def fun_eq_iff)

section \<open>Reads\<close>

lemma DB_Get_view:
  assumes "db_rep d mes ies old" and "version_reads E (d_version d) old" and "length k + 8 < 2 ^ 32"
    and s: "s = (case snap of None \<Rightarrow> d_last d | Some s \<Rightarrow> s)" and "s \<le> kMaxSequenceNumber"
  shows "DB_Get E snap limit k d =
    Some (case db_view mes ies old s k of None \<Rightarrow> (NotFound [], None) | Some v \<Rightarrow> (Okay, Some (take limit v)))"
proof -
  obtain lkey where lk: "mk_LookupKey k s = Some lkey"
    using assms(5) by (auto simp: mk_LookupKey_def PackSequenceAndType_def kValueTypeForSeek_def)
  have m: "mem_rep (d_mem d) mes" using assms(1) by (simp add: db_rep_def)
  have V: "e_version_get E (d_version d) limit lkey =
      (case old s k of None \<Rightarrow> (NotFound [], None) | Some x \<Rightarrow> (Okay, Some (take limit x)))"
    using assms(2,3,5) lk unfolding version_reads_def by blast
  note G = MemTable_Get_ok [OF m assms(3,5) lk, of limit]
  show ?thesis
  proof (cases "d_imm d")
    case None
    then have "ies = []" using assms(1) by (simp add: db_rep_def)
    then show ?thesis using None lk G V unfolding DB_Get_def s [symmetric]
      by (simp add: Let_def db_view_def layer_def newest_def split: option.splits ValueType.splits)
  next
    case (Some imm)
    then have "mem_rep imm ies" using assms(1) by (simp add: db_rep_def)
    note H = MemTable_Get_ok [OF this assms(3,5) lk, of limit]
    show ?thesis using Some lk G H V unfolding DB_Get_def s [symmetric]
      by (simp add: Let_def db_view_def layer_def split: option.splits ValueType.splits)
  qed
qed

section \<open>Making room\<close>

lemma switch_log_same:
  "switch_log E opt d = (s, d') \<Longrightarrow> d_mem d' = d_mem d \<and> d_imm d' = d_imm d \<and> d_last d' = d_last d \<and> d_tmp_batch d' = d_tmp_batch d \<and>
     d_writers d' = d_writers d \<and> d_version d' = d_version d \<and> d_snapshots d' = d_snapshots d \<and> d_bg_error d' = d_bg_error d"
  by (auto simp: switch_log_def NewFileNumber_def ReuseFileNumber_def Let_def split: if_splits)

text \<open>What making room keeps: all that the readers and the queue can see.\<close>

definition same_store :: "'v DBImpl \<Rightarrow> 'v DBImpl \<Rightarrow> bool" where
  "same_store d d' \<longleftrightarrow> d_last d' = d_last d \<and> d_tmp_batch d' = d_tmp_batch d \<and> d_writers d' = d_writers d \<and>
     d_version d' = d_version d \<and> d_snapshots d' = d_snapshots d"

lemma same_store_trans: "same_store a b \<Longrightarrow> same_store b c \<Longrightarrow> same_store a c"
  by (simp add: same_store_def)

lemma switch_memtable_rep:
  assumes "db_rep d mes ies old" and "d_imm d = None" and sw: "switch_log E opt d = (s, d')"
  shows "db_rep (switch_memtable d') [] mes old" and "db_view [] mes old = db_view mes ies old"
    and "same_store d (switch_memtable d')"
proof -
  note same = switch_log_same [OF sw]
  have ies: "ies = []" using assms(1,2) by (simp add: db_rep_def)
  show "db_rep (switch_memtable d') [] mes old"
    using assms(1,2) same new_MemTable_rep by (simp add: db_rep_def switch_memtable_def below_seq_def)
  show "db_view [] mes old = db_view mes ies old" by (simp add: db_view_def ies fun_eq_iff)
  show "same_store d (switch_memtable d')" using same by (simp add: same_store_def switch_memtable_def)
qed

lemma MakeRoomForWrite_rep:
  assumes "MakeRoomForWrite E opt force d = Some (s, d')" and "db_rep d mes ies old"
  shows "\<exists>mes' ies'. db_rep d' mes' ies' old \<and> db_view mes' ies' old = db_view mes ies old \<and> same_store d d'"
  using assms
proof (induction E opt force d arbitrary: mes ies rule: MakeRoomForWrite.induct)
  case (1 E opt force d)
  have stay: ?case if "d' = d"
    using 1(3) that by (intro exI [of _ mes] exI [of _ ies]) (simp add: same_store_def)
  note step = 1(2) [unfolded MakeRoomForWrite.simps [of E opt force d]]
  show ?case
  proof (cases "\<not> ok (d_bg_error d) \<or> \<not> force \<and> e_memory_usage E (d_mem d) \<le> o_write_buffer_size opt")
    case True
    then show ?thesis using step by (intro stay) (auto split: if_splits)
  next
    case nostay: False
    then have imm: "d_imm d = None" and l0: "\<not> (\<not> o_disable_compaction opt \<and> o_l0_hard_limit opt \<le> e_num_level0 E (d_version d))"
      using step by (auto split: if_splits)
    obtain st d1 where sw: "switch_log E opt d = (st, d1)" by (cases "switch_log E opt d") auto
    show ?thesis
    proof (cases "ok st")
      case True
      then have run: "MakeRoomForWrite E opt False (switch_memtable d1) = Some (s, d')"
        using step nostay imm l0 sw by (auto split: if_splits)
      note R = switch_memtable_rep [OF 1(3) imm sw]
      have "\<exists>mes' ies'. db_rep d' mes' ies' old \<and> db_view mes' ies' old = db_view [] mes old \<and> same_store (switch_memtable d1) d'"
        by (rule 1(1) [of "[]" mes, simplified sw snd_conv fst_conv]) (use nostay imm l0 True run R(1) in auto)
      then show ?thesis using R(2,3) same_store_trans by metis
    next
      case False
      then have "d' = d1" using step nostay imm l0 sw by (auto split: if_splits)
      then have "db_rep d' mes ies old" "same_store d d'"
        using 1(3) switch_log_same [OF sw] by (simp_all add: db_rep_def same_store_def)
      then show ?thesis by blast
    qed
  qed
qed

lemma MakeRoomForWrite_room:
  "ok (d_bg_error d) \<Longrightarrow> e_memory_usage E (d_mem d) \<le> o_write_buffer_size opt \<Longrightarrow> MakeRoomForWrite E opt False d = Some (Okay, d)"
  by (simp add: MakeRoomForWrite.simps)

section \<open>Grouping the writers\<close>

text \<open>The updates that a writer brings.\<close>

definition writer_has :: "Writer \<Rightarrow> update list \<Rightarrow> bool" where
  "writer_has w us \<longleftrightarrow> list_all update_fits us \<and>
     (case w_batch w of UserBatch b \<Rightarrow> (\<exists>s. b = batch_of s us) | _ \<Rightarrow> us = [])"

lemma batch_group_batch_of:
  assumes "list_all2 writer_has ws uss" and "length us0 \<le> length vs" and "length vs + length (concat uss) < 2 ^ 31"
    and "case res of None \<Rightarrow> vs = us0 | Some r \<Rightarrow> r = batch_of 0 vs"
  shows "\<exists>r n. batch_group first_sync sz max_size WB_Clear (batch_of s0 us0) res ws = Some (r, n) \<and> n \<le> length ws \<and>
    (case r of None \<Rightarrow> res = None \<and> n = 0 | Some r \<Rightarrow> r = batch_of 0 (vs @ concat (take n uss)))"
  using assms
proof (induction ws arbitrary: uss res vs sz)
  case Nil
  then show ?case by (auto split: option.splits)
next
  case (Cons w ws)
  obtain us uss' where uss: "uss = us # uss'" and w: "writer_has w us" and ws: "list_all2 writer_has ws uss'"
    using Cons.prems(1) by (auto simp: list_all2_Cons1)
  have stop: ?case if "batch_group first_sync sz max_size WB_Clear (batch_of s0 us0) res (w # ws) = Some (res, 0)"
    using that Cons.prems(4) by (auto split: option.splits)
  show ?case
  proof (cases "\<exists>b. w_batch w = UserBatch b \<and> \<not> (w_sync w \<and> \<not> first_sync) \<and> sz + length b \<le> max_size")
    case False
    then show ?thesis by (intro stop) (auto simp: Let_def split: batch_ref.splits)
  next
    case True
    then obtain b where b: "w_batch w = UserBatch b" "\<not> (w_sync w \<and> \<not> first_sync)" "sz + length b \<le> max_size" by blast
    then obtain s where s: "b = batch_of s us" using w by (auto simp: writer_has_def)
    have len: "length us0 \<le> length vs" "length vs + (length us + length (concat uss')) < 2 ^ 31" using Cons.prems(2,3) uss by simp_all
    define r where "r = (case res of Some r \<Rightarrow> Some r | None \<Rightarrow> if WB_Count WB_Clear = 0 then WB_Append WB_Clear (batch_of s0 us0) else None)"
    have "length us0 < 2 ^ 31" using len by linarith
    then have "WB_Append (batch_of 0 []) (batch_of s0 us0) = Some (batch_of 0 us0)"
      using WB_Append_batch_of [of "[]" us0 0 s0] by simp
    moreover have "WB_Count (batch_of 0 []) = 0" using WB_Count_batch_of [of "[]" 0] by simp
    ultimately have r: "r = Some (batch_of 0 vs)" using Cons.prems(4) by (auto simp: r_def WB_Clear_batch_of split: option.splits)
    have app: "WB_Append (batch_of 0 vs) b = Some (batch_of 0 (vs @ us))"
      using WB_Append_batch_of [of vs us 0 s] len s by simp
    have "\<exists>q n. batch_group first_sync (sz + length b) max_size WB_Clear (batch_of s0 us0) (Some (batch_of 0 (vs @ us))) ws = Some (q, n) \<and>
        n \<le> length ws \<and>
        (case q of None \<Rightarrow> Some (batch_of 0 (vs @ us)) = None \<and> n = 0 | Some r \<Rightarrow> r = batch_of 0 ((vs @ us) @ concat (take n uss')))"
      by (rule Cons.IH [OF ws]) (use len in auto)
    then obtain q n where q: "batch_group first_sync (sz + length b) max_size WB_Clear (batch_of s0 us0) (Some (batch_of 0 (vs @ us))) ws = Some (Some q, n)"
      "n \<le> length ws" "q = batch_of 0 ((vs @ us) @ concat (take n uss'))"
      by (auto split: option.splits)
    have "batch_group first_sync sz max_size WB_Clear (batch_of s0 us0) res (w # ws) = Some (Some q, Suc n)"
      using b r app q(1) unfolding r_def by (simp add: Let_def)
    then show ?thesis using q(2,3) uss by simp
  qed
qed

section \<open>Applying a group\<close>

lemma add_updates_new:
  assumes "e \<in> set (add_updates s us es)" and "unat s + length us \<le> 2 ^ 56"
  shows "e \<in> set es \<or> s \<le> en_seq e"
  using assms
proof (induction us arbitrary: s es)
  case (Cons u us)
  have s1: "unat (s + 1) = unat s + 1" using Cons.prems(2) by (subst unat_add_lem [THEN iffD1]) simp_all
  have "e \<in> set (insert_entry (update_entry s u) es) \<or> s + 1 \<le> en_seq e"
    using Cons.IH [of "s + 1" "insert_entry (update_entry s u) es"] Cons.prems s1 by simp
  then show ?case using s1 by (auto simp: word_le_nat_alt)
qed simp

lemma db_view_later:
  assumes "db_rep d mes ies old" and "d_last d \<le> t"
  shows "db_view mes ies old t = db_view mes ies old (d_last d)"
proof -
  have l: "unat (d_last d) \<le> unat t" using assms(2) by (simp add: word_le_nat_alt)
  have r: "below_seq (Suc (unat (d_last d))) mes" "below_seq (Suc (unat (d_last d))) ies" "settled (d_last d) old"
    using assms(1) by (simp_all add: db_rep_def)
  have "layer mes t = layer mes (d_last d)" "layer ies t = layer ies (d_last d)"
    using layer_mono [OF r(1), of t "d_last d"] layer_mono [OF r(2), of t "d_last d"] l by simp_all
  moreover have "old t = old (d_last d)" using r(3) assms(2) unfolding settled_def by blast
  ultimately show ?thesis unfolding db_view_def by metis
qed

text \<open>What a write may change beside the queue: the memtable, the log, the sequence number, the error.\<close>

definition same_queue :: "'v DBImpl \<Rightarrow> 'v DBImpl \<Rightarrow> bool" where
  "same_queue d d' \<longleftrightarrow> d_imm d' = d_imm d \<and> d_tmp_batch d' = d_tmp_batch d \<and> d_writers d' = d_writers d \<and>
     d_version d' = d_version d \<and> d_snapshots d' = d_snapshots d"

lemma write_log_same:
  assumes "write_log E opt sync b d = (s, e, d')"
  shows "same_queue d d' \<and> d_mem d' = d_mem d \<and> d_last d' = d_last d"
  using assms by (auto simp: write_log_def same_queue_def Let_def split: if_splits)

lemma db_rep_cong:
  "db_rep d mes ies old \<Longrightarrow> d_mem d' = d_mem d \<Longrightarrow> d_imm d' = d_imm d \<Longrightarrow> d_last d' = d_last d \<Longrightarrow> d_tmp_batch d' = d_tmp_batch d \<Longrightarrow>
   db_rep d' mes ies old"
  by (simp add: db_rep_def)

lemma db_rep_advance:
  assumes rep: "db_rep d mes ies old" and d': "d_imm d' = d_imm d" "d_tmp_batch d' = d_tmp_batch d"
    and n: "unat (d_last d') = unat (d_last d) + n" "unat (d_last d) + n < 2 ^ 56"
    and mem: "mem_rep (d_mem d') mes'" "below_seq (Suc (unat (d_last d'))) mes'"
    and new: "\<And>e. e \<in> set mes' \<Longrightarrow> e \<in> set mes \<or> d_last d + 1 \<le> en_seq e"
  shows "db_rep d' mes' ies old"
proof -
  have le: "d_last d \<le> d_last d'" using n by (simp add: word_le_nat_alt)
  have "settled (d_last d') old"
    using rep le unfolding db_rep_def settled_def by (metis order_trans)
  moreover have "below_seq (Suc (unat (d_last d'))) ies"
    using rep n unfolding db_rep_def below_seq_def by fastforce
  moreover have "en_seq b < en_seq a" if "a \<in> set mes'" "b \<in> set ies" for a b
  proof -
    have "unat (d_last d + 1) = unat (d_last d) + 1" using n(2) by (subst unat_add_lem [THEN iffD1]) simp_all
    moreover have "unat (en_seq b) \<le> unat (d_last d)" using rep that(2) by (fastforce simp: db_rep_def below_seq_def)
    ultimately show ?thesis using new [OF that(1)] rep that(2) by (auto simp: db_rep_def word_le_nat_alt word_less_nat_alt)
  qed
  moreover have "d_last d' \<le> kMaxSequenceNumber" using n by (simp add: kMaxSequenceNumber_unat)
  ultimately show ?thesis using rep d' mem by (simp add: db_rep_def)
qed

lemma apply_group_rep:
  assumes rep: "db_rep d mes ies old" and us: "list_all update_fits us" "length us < 2 ^ 31" and n: "unat (d_last d) + length us < 2 ^ 56"
  shows "\<exists>s d' mes'. apply_group E opt sync (batch_of s0 us) d = Some (s, d') \<and> db_rep d' mes' ies old \<and> same_queue d d' \<and>
    unat (d_last d') = unat (d_last d) + length us \<and>
    db_view mes' ies old (d_last d') = (if ok s then foldl map_update (db_view mes ies old (d_last d)) us else db_view mes ies old (d_last d)) \<and>
    (\<forall>t \<le> d_last d. db_view mes' ies old t = db_view mes ies old t) \<and>
    ((o_disable_wal opt \<or> e_add_record E (d_log d) (batch_of (d_last d + 1) us) = Okay \<and> (sync \<longrightarrow> e_sync E (d_log d @ [batch_of (d_last d + 1) us]) = Okay)) \<longrightarrow>
      s = Okay \<and> d_bg_error d' = d_bg_error d)"
proof -
  let ?s = "d_last d + 1" and ?b = "batch_of (d_last d + 1) us" and ?l = "d_last d + word_of_nat (length us)"
  have s1: "unat ?s = unat (d_last d) + 1" using n by (subst unat_add_lem [THEN iffD1]) simp_all
  have l: "unat ?l = unat (d_last d) + length us" using n by (rule seq_plus)
  then have le: "d_last d \<le> ?l" by (simp add: word_le_nat_alt)
  obtain s e d1 where w: "write_log E opt sync ?b d = (s, e, d1)" by (cases "write_log E opt sync ?b d") auto
  note same = write_log_same [OF w]
  have rep1: "db_rep d1 mes ies old" using db_rep_cong [OF rep] same by (auto simp: same_queue_def)
  have mem: "mem_rep (d_mem d1) mes" "below_seq (unat ?s) mes" using rep same s1 by (simp_all add: db_rep_def)
  obtain m where m: "InsertInto ?b (d_mem d1) = (Okay, Some m)" "mem_rep m (add_updates ?s us mes)"
    "below_seq (unat ?s + length us) (add_updates ?s us mes)"
    using InsertInto_ok [OF mem us(1) _ us(2)] n s1 by auto
  define mes' where "mes' = (if ok s then add_updates ?s us mes else mes)"
  define d2 where "d2 = d1\<lparr>d_mem := if ok s then m else d_mem d1\<rparr>"
  define d' where "d' = (if e then RecordBackgroundError s d2 else d2)\<lparr>d_last := ?l\<rparr>"
  have c: "d_last d + word_of_int (WB_Count ?b) = ?l" using WB_Count_batch_of [OF us(2)] by simp
  have run: "apply_group E opt sync (batch_of s0 us) d = Some (if ok s then Okay else s, d')"
  proof -
    have oks: "e \<Longrightarrow> \<not> ok s" using w by (auto simp: write_log_def Let_def split: if_splits)
    have lst: "d_last (RecordBackgroundError s d2) = d_last d" "d_last d2 = d_last d"
      using same by (simp_all add: RecordBackgroundError_def d2_def)
    have s: "s = Okay" if "ok s" using that by (cases s) simp_all
    show ?thesis
      using m(1) w le c lst oks s unfolding apply_group_def WB_SetSequence_batch_of d'_def
      by (cases "ok s"; cases e) (simp_all add: Let_def d2_def)
  qed
  have f: "d_imm d' = d_imm d" "d_tmp_batch d' = d_tmp_batch d" "d_last d' = ?l" "d_mem d' = (if ok s then m else d_mem d)" "same_queue d d'"
    using same by (auto simp: d'_def d2_def RecordBackgroundError_def same_queue_def)
  have rep': "db_rep d' mes' ies old"
  proof (rule db_rep_advance [OF rep f(1,2)])
    show "mem_rep (d_mem d') mes'" using m(2) mem(1) same by (simp add: f(4) mes'_def)
    show "below_seq (Suc (unat (d_last d'))) mes'"
      using m(3) s1 mem(2) by (auto simp: f(3) l mes'_def below_seq_def)
    show "unat (d_last d') = unat (d_last d) + length us" "unat (d_last d) + length us < 2 ^ 56" using f(3) l n by simp_all
    show "e \<in> set mes \<or> ?s \<le> en_seq e" if "e \<in> set mes'" for e
      using that add_updates_new [of e ?s us mes] n s1 by (simp add: mes'_def split: if_splits)
  qed
  have "\<forall>x \<in> set mes. en_seq x \<le> kMaxSequenceNumber" using mem(1) by (auto simp: mem_rep_def list_all_iff entry_ok_def)
  note L = layer_add_updates [OF this mem(2), of us]
  have v: "db_view mes' ies old ?l = (if ok s then foldl map_update (db_view mes ies old (d_last d)) us else db_view mes ies old (d_last d))"
  proof (cases "ok s")
    case True
    have "db_view mes' ies old ?l = foldl map_update (db_view mes ies old ?l) us"
      using L [of ?l "layer ies ?l (old ?l)"] n s1 l True by (simp add: mes'_def db_view_def)
    then show ?thesis using True db_view_later [OF rep le] by simp
  next
    case False
    then show ?thesis using db_view_later [OF rep le] by (simp add: mes'_def)
  qed
  have older: "db_view mes' ies old t = db_view mes ies old t" if "t \<le> d_last d" for t
    using L [of t "layer ies t (old t)"] that n s1 by (simp add: mes'_def db_view_def word_le_nat_alt)
  have okay: "s = Okay \<and> d_bg_error d' = d_bg_error d"
    if "o_disable_wal opt \<or> e_add_record E (d_log d) ?b = Okay \<and> (sync \<longrightarrow> e_sync E (d_log d @ [?b]) = Okay)"
  proof -
    have "s = Okay \<and> \<not> e \<and> d_bg_error d1 = d_bg_error d"
      using that w by (auto simp: write_log_def Let_def split: if_splits)
    then show ?thesis by (simp add: d'_def d2_def)
  qed
  show ?thesis using run rep' f(3,5) l v older okay by (intro exI [of _ "if ok s then Okay else s"] exI [of _ d'] exI [of _ mes']) auto
qed

section \<open>The writer at the front\<close>

lemma BuildBatchGroup_ok:
  assumes "d_writers d = w # ws" and "w_batch w = UserBatch b" and "d_tmp_batch d = WB_Clear"
    and "list_all2 writer_has (w # ws) uss" and "length (concat uss) < 2 ^ 31"
  obtains r n s where "BuildBatchGroup d = Some (r, n)" "n \<le> length ws"
    "(case r of None \<Rightarrow> b | Some t \<Rightarrow> t) = batch_of s (concat (take (Suc n) uss))"
proof -
  obtain us uss' s where uss: "uss = us # uss'" and b: "b = batch_of s us" and ws: "list_all2 writer_has ws uss'"
    using assms(2,4) by (auto simp: list_all2_Cons1 writer_has_def)
  let ?max = "if length b \<le> 128 * 1024 then length b + 128 * 1024 else 1024 * 1024"
  have "\<exists>r n. batch_group (w_sync w) (length b) ?max WB_Clear (batch_of s us) None ws = Some (r, n) \<and> n \<le> length ws \<and>
      (case r of None \<Rightarrow> (None :: WriteBatch option) = None \<and> n = 0 | Some r \<Rightarrow> r = batch_of 0 (us @ concat (take n uss')))"
    by (rule batch_group_batch_of [OF ws]) (use assms(5) uss in simp_all)
  then obtain r n where r: "batch_group (w_sync w) (length b) ?max WB_Clear (batch_of s us) None ws = Some (r, n)" "n \<le> length ws"
    "case r of None \<Rightarrow> n = 0 | Some r \<Rightarrow> r = batch_of 0 (us @ concat (take n uss'))"
    by (auto split: option.splits)
  have "BuildBatchGroup d = Some (r, n)"
    using r(1) assms(1-3) unfolding b [symmetric] BuildBatchGroup_def by (simp only: list.case Writer.simps batch_ref.case Let_def)
  moreover have "\<exists>s'. (case r of None \<Rightarrow> b | Some t \<Rightarrow> t) = batch_of s' (concat (take (Suc n) uss))"
    using r(3) uss b by (cases r) auto
  ultimately show ?thesis using r(2) that by blast
qed

lemma same_queue_writers: "same_queue d d' \<Longrightarrow> d_writers d' = d_writers d \<and> d_version d' = d_version d \<and> d_snapshots d' = d_snapshots d"
  by (simp add: same_queue_def)

lemma DB_write_front_user:
  assumes rep: "db_rep d mes ies old" and q: "d_writers d = w # ws" "w_batch w = UserBatch b"
    and has: "list_all2 writer_has (w # ws) uss" and len: "length (concat uss) < 2 ^ 31" "unat (d_last d) + length (concat uss) < 2 ^ 56"
    and room: "MakeRoomForWrite E opt False d = Some (r, d1)"
  shows "\<exists>s n d' mes' ies'. DB_write_front E opt d = Some (s, take n (w # ws), d') \<and> 0 < n \<and> n \<le> Suc (length ws) \<and>
    d_writers d' = drop n (w # ws) \<and> d_version d' = d_version d \<and> d_snapshots d' = d_snapshots d \<and> db_rep d' mes' ies' old \<and>
    unat (d_last d') \<le> unat (d_last d) + length (concat (take n uss)) \<and>
    db_view mes' ies' old (d_last d') =
      (if ok s then foldl map_update (db_view mes ies old (d_last d)) (concat (take n uss)) else db_view mes ies old (d_last d)) \<and>
    (\<forall>t \<le> d_last d. db_view mes' ies' old t = db_view mes ies old t)"
proof -
  obtain mes1 ies1 where rep1: "db_rep d1 mes1 ies1 old" and v1: "db_view mes1 ies1 old = db_view mes ies old" and same: "same_store d d1"
    using MakeRoomForWrite_rep [OF room rep] by blast
  show ?thesis
  proof (cases "ok r")
    case False
    let ?d = "d1\<lparr>d_writers := drop 1 (d_writers d1)\<rparr>"
    have "DB_write_front E opt d = Some (r, take 1 (w # ws), ?d)"
      using q room False same by (simp add: DB_write_front_def same_store_def Let_def)
    moreover have "db_rep ?d mes1 ies1 old" by (rule db_rep_cong [OF rep1]) simp_all
    ultimately show ?thesis
      using v1 same q(1) False by (intro exI [of _ r] exI [of _ 1] exI [of _ ?d] exI [of _ mes1] exI [of _ ies1]) (simp add: same_store_def)
  next
    case True
    have w1: "d_writers d1 = w # ws" "d_last d1 = d_last d" "d_tmp_batch d1 = WB_Clear"
      using same q(1) rep by (simp_all add: same_store_def db_rep_def)
    obtain tmp n s0 where g: "BuildBatchGroup d1 = Some (tmp, n)" "n \<le> length ws"
      "(case tmp of None \<Rightarrow> b | Some t \<Rightarrow> t) = batch_of s0 (concat (take (Suc n) uss))"
      using BuildBatchGroup_ok [OF w1(1) q(2) w1(3) has len(1)] .
    let ?us = "concat (take (Suc n) uss)"
    have "length ?us \<le> length (concat uss)" by (metis append_take_drop_id concat_append length_append le_add1)
    moreover have "list_all update_fits ?us"
    proof -
      have "\<forall>us \<in> set uss. list_all update_fits us" using has by (auto simp: list_all2_conv_all_nth writer_has_def in_set_conv_nth)
      then show ?thesis by (auto simp: list_all_iff dest: in_set_takeD)
    qed
    ultimately obtain s d2 mes2 where a: "apply_group E opt (w_sync w) (batch_of s0 ?us) d1 = Some (s, d2)" "db_rep d2 mes2 ies1 old"
      "same_queue d1 d2" "unat (d_last d2) = unat (d_last d1) + length ?us"
      "db_view mes2 ies1 old (d_last d2) = (if ok s then foldl map_update (db_view mes1 ies1 old (d_last d1)) ?us else db_view mes1 ies1 old (d_last d1))"
      "\<forall>t \<le> d_last d1. db_view mes2 ies1 old t = db_view mes1 ies1 old t"
      using apply_group_rep [OF rep1, of ?us E opt "w_sync w" s0] len w1(2) by (auto simp: le_less_trans)
    let ?d2 = "if tmp = None then d2 else d2\<lparr>d_tmp_batch := WB_Clear\<rparr>"
    let ?d = "?d2\<lparr>d_writers := drop (Suc n) (w # ws)\<rparr>"
    have q2: "d_writers d2 = w # ws" "d_version d2 = d_version d" "d_snapshots d2 = d_snapshots d" "d_tmp_batch d2 = WB_Clear"
      using same_queue_writers [OF a(3)] same w1 a(2) by (simp_all add: same_store_def db_rep_def)
    have "DB_write_front E opt d = Some (s, take (Suc n) (w # ws), ?d)"
      using q room True g a(1) q2 by (simp add: DB_write_front_def Let_def)
    moreover have "db_rep ?d mes2 ies1 old" by (rule db_rep_cong [OF a(2)]) (use q2(4) in simp_all)
    moreover have "db_view mes2 ies1 old (d_last ?d) = (if ok s then foldl map_update (db_view mes ies old (d_last d)) ?us else db_view mes ies old (d_last d))"
      using a(5) v1 w1(2) by simp
    ultimately show ?thesis
      using a(4,6) v1 w1(2) g(2) q2
      by (intro exI [of _ s] exI [of _ "Suc n"] exI [of _ ?d] exI [of _ mes2] exI [of _ ies1]) simp
  qed
qed

text \<open>A single client, in an environment whose memtable does not fill and whose log takes every record.\<close>

definition quiet :: "'v DBEnv \<Rightarrow> DBOptions \<Rightarrow> bool" where
  "quiet E opt \<longleftrightarrow> (\<forall>m. e_memory_usage E m \<le> o_write_buffer_size opt) \<and>
     (o_disable_wal opt \<or> (\<forall>l b. e_add_record E l b = Okay) \<and> (\<forall>l. e_sync E l = Okay))"

lemma DB_Write_ok:
  assumes rep: "db_rep d mes ies old" and q: "d_writers d = []" and bg: "d_bg_error d = Okay" and quiet: "quiet E opt"
    and us: "list_all update_fits us" "length us < 2 ^ 31" "unat (d_last d) + length us < 2 ^ 56"
  shows "\<exists>d' mes'. DB_Write E opt sync (UserBatch (batch_of s us)) d = Some (Okay, d') \<and> db_rep d' mes' ies old \<and>
    d_writers d' = [] \<and> d_bg_error d' = Okay \<and> d_version d' = d_version d \<and> d_imm d' = d_imm d \<and>
    unat (d_last d') = unat (d_last d) + length us \<and>
    db_view mes' ies old (d_last d') = foldl map_update (db_view mes ies old (d_last d)) us \<and>
    (\<forall>t \<le> d_last d. db_view mes' ies old t = db_view mes ies old t)"
proof -
  let ?w = "\<lparr>w_id = 0, w_batch = UserBatch (batch_of s us), w_sync = sync\<rparr>"
  let ?d = "DB_enqueue ?w d"
  have f: "d_writers ?d = [?w]" "d_last ?d = d_last d" "d_bg_error ?d = Okay" "d_tmp_batch ?d = WB_Clear" "d_mem ?d = d_mem d"
    "d_version ?d = d_version d" "d_imm ?d = d_imm d"
    using q bg rep by (simp_all add: DB_enqueue_def db_rep_def)
  have rep1: "db_rep ?d mes ies old" by (rule db_rep_cong [OF rep]) (simp_all add: DB_enqueue_def)
  have room: "MakeRoomForWrite E opt False ?d = Some (Okay, ?d)"
    by (rule MakeRoomForWrite_room) (use quiet in \<open>simp_all add: f quiet_def\<close>)
  have "(o_disable_wal opt \<or> e_add_record E (d_log ?d) (batch_of (d_last ?d + 1) us) = Okay \<and>
      (sync \<longrightarrow> e_sync E (d_log ?d @ [batch_of (d_last ?d + 1) us]) = Okay))"
    using quiet by (auto simp: quiet_def)
  then obtain d2 mes2 where a: "apply_group E opt sync (batch_of s us) ?d = Some (Okay, d2)" "db_rep d2 mes2 ies old"
    "same_queue ?d d2" "unat (d_last d2) = unat (d_last ?d) + length us" "d_bg_error d2 = Okay"
    "db_view mes2 ies old (d_last d2) = foldl map_update (db_view mes ies old (d_last ?d)) us"
    "\<forall>t \<le> d_last ?d. db_view mes2 ies old t = db_view mes ies old t"
    using apply_group_rep [OF rep1 us(1,2), of E opt sync s] us(3) f by auto
  have g: "BuildBatchGroup ?d = Some (None, 0)" by (simp add: BuildBatchGroup_def f Let_def)
  let ?r = "d2\<lparr>d_writers := []\<rparr>"
  have "DB_Write E opt sync (UserBatch (batch_of s us)) d = Some (Okay, ?r)"
    using a(1) same_queue_writers [OF a(3)] by (simp add: DB_Write_def DB_write_front_def f room g Let_def)
  moreover have "db_rep ?r mes2 ies old" by (rule db_rep_cong [OF a(2)]) simp_all
  ultimately show ?thesis
    using a(3-7) f(2,6,7) by (intro exI [of _ ?r] exI [of _ mes2]) (simp add: same_queue_def)
qed

lemma new_DBImpl_rep: "db_rep (new_DBImpl v n) [] [] (\<lambda>_ _. None)"
  using new_MemTable_rep by (simp add: db_rep_def new_DBImpl_def below_seq_def settled_def)

text \<open>A version without table files (\<^verbatim>\<open>Version::Get\<close> finds nothing to search at any level).\<close>

definition no_files_get :: "'v \<Rightarrow> nat \<Rightarrow> LookupKey \<Rightarrow> status \<times> slice option" where
  "no_files_get v limit lkey = (NotFound [], None)"

lemma no_files_reads: "e_version_get E = no_files_get \<Longrightarrow> version_reads E v (\<lambda>_ _. None)"
  by (simp add: version_reads_def no_files_get_def)

text \<open>
  C21. Group commit: the writer at the front takes a non-empty prefix of the queue with it; when it succeeds, a
  later read of any key sees all updates of exactly these writers, applied in the order of the queue; when it
  fails (log, file system, earlier background error), none of them; and every reader at an earlier sequence
  number, that is every snapshot, still reads what it read.
\<close>

theorem group_commit:
  assumes "db_rep d mes ies old" and "version_reads E (d_version d) old"
    and "d_writers d = w # ws" and "w_batch w = UserBatch b" and "list_all2 writer_has (w # ws) uss"
    and "length (concat uss) < 2 ^ 31" and "unat (d_last d) + length (concat uss) < 2 ^ 56"
    and "MakeRoomForWrite E opt False d = Some room" and "length k + 8 < 2 ^ 32"
  shows "\<exists>s n d'. DB_write_front E opt d = Some (s, take n (w # ws), d') \<and> 0 < n \<and> d_writers d' = drop n (w # ws) \<and>
    DB_Get E None limit k d' =
      Some (case (if ok s then foldl map_update (db_view mes ies old (d_last d)) (concat (take n uss))
                  else db_view mes ies old (d_last d)) k of
              None \<Rightarrow> (NotFound [], None) | Some v \<Rightarrow> (Okay, Some (take limit v))) \<and>
    (\<forall>t \<le> d_last d. DB_Get E (Some t) limit k d' = DB_Get E (Some t) limit k d)"
proof -
  obtain r d1 where room: "MakeRoomForWrite E opt False d = Some (r, d1)" using assms(8) by (cases room) auto
  obtain s n d' mes' ies' where W: "DB_write_front E opt d = Some (s, take n (w # ws), d')" "0 < n" "d_writers d' = drop n (w # ws)"
    "d_version d' = d_version d" "db_rep d' mes' ies' old"
    "db_view mes' ies' old (d_last d') =
      (if ok s then foldl map_update (db_view mes ies old (d_last d)) (concat (take n uss)) else db_view mes ies old (d_last d))"
    "\<forall>t \<le> d_last d. db_view mes' ies' old t = db_view mes ies old t"
    using DB_write_front_user [OF assms(1,3-7) room] by (elim exE conjE) (rule that)
  have vr: "version_reads E (d_version d') old" using W(4) assms(2) by simp
  have m: "d_last d' \<le> kMaxSequenceNumber" "d_last d \<le> kMaxSequenceNumber" using W(5) assms(1) by (simp_all add: db_rep_def)
  have "DB_Get E None limit k d' = Some (case db_view mes' ies' old (d_last d') k of None \<Rightarrow> (NotFound [], None) | Some v \<Rightarrow> (Okay, Some (take limit v)))"
    by (rule DB_Get_view [OF W(5) vr assms(9) _ m(1)]) simp
  moreover have "DB_Get E (Some t) limit k d' = DB_Get E (Some t) limit k d" if t: "t \<le> d_last d" for t
  proof -
    have "t \<le> kMaxSequenceNumber" using t m(2) by (rule order_trans)
    then show ?thesis
      using DB_Get_view [OF W(5) vr assms(9), of t "Some t" limit] DB_Get_view [OF assms(1,2,9), of t "Some t" limit] W(7) t by simp
  qed
  ultimately show ?thesis using W(1-3,6) by (intro exI [of _ s] exI [of _ n] exI [of _ d']) simp
qed

definition plain_env :: "unit DBEnv" where
  "plain_env = \<lparr>e_memory_usage = (\<lambda>_. 0), e_new_file = (\<lambda>_. Okay), e_add_record = (\<lambda>_ _. Okay), e_sync = (\<lambda>_. Okay),
     e_version_get = no_files_get, e_num_level0 = (\<lambda>_. 0)\<rparr>"

definition plain_options :: DBOptions where
  "plain_options = \<lparr>o_disable_wal = False, o_disable_compaction = True, o_l0_hard_limit = 12, o_write_buffer_size = 4194304\<rparr>"

lemma group_commit_witness:
  "\<exists>s n d'. DB_write_front plain_env plain_options
      (DB_enqueue \<lparr>w_id = 2, w_batch = UserBatch (WB_Delete WB_Clear [97]), w_sync = False\<rparr>
        (DB_enqueue \<lparr>w_id = 1, w_batch = UserBatch (WB_Put WB_Clear [97] [1, 2]), w_sync = False\<rparr> (new_DBImpl () 3))) =
      Some (s, n, d')"
proof -
  let ?w1 = "\<lparr>w_id = 1, w_batch = UserBatch (WB_Put WB_Clear [97] [1, 2]), w_sync = False\<rparr>"
  let ?w2 = "\<lparr>w_id = 2, w_batch = UserBatch (WB_Delete WB_Clear [97]), w_sync = False\<rparr>"
  let ?d = "DB_enqueue ?w2 (DB_enqueue ?w1 (new_DBImpl () 3))"
  have b: "WB_Put WB_Clear [97] [1, 2] = batch_of 0 [UPut [97] [1, 2]]" "WB_Delete WB_Clear [97] = batch_of 0 [UDelete [97]]"
    using WB_apply_batch_of [of "[]" 0 "UPut [97] [1, 2]"] WB_apply_batch_of [of "[]" 0 "UDelete [97]"]
    by (simp_all add: WB_Clear_batch_of)
  have rep: "db_rep ?d [] [] (\<lambda>_ _. None)" by (rule db_rep_cong [OF new_DBImpl_rep]) (simp_all add: DB_enqueue_def)
  have room: "MakeRoomForWrite plain_env plain_options False ?d = Some (Okay, ?d)"
    by (rule MakeRoomForWrite_room) (simp_all add: DB_enqueue_def new_DBImpl_def plain_env_def plain_options_def)
  have has: "list_all2 writer_has [?w1, ?w2] [[UPut [97] [1, 2]], [UDelete [97]]]"
    unfolding b by (auto simp: writer_has_def)
  have w: "d_writers ?d = [?w1, ?w2]" by (simp add: DB_enqueue_def new_DBImpl_def)
  have V: "version_reads plain_env (d_version ?d) (\<lambda>_ _. None)" by (rule no_files_reads) (simp add: plain_env_def)
  have n: "unat (d_last ?d) = 0" by (simp add: DB_enqueue_def new_DBImpl_def)
  have "\<exists>s n d'. DB_write_front plain_env plain_options ?d = Some (s, take n [?w1, ?w2], d') \<and> 0 < n \<and> d_writers d' = drop n [?w1, ?w2] \<and>
    DB_Get plain_env None 10 [97] d' =
      Some (case (if ok s then foldl map_update (db_view [] [] (\<lambda>_ _. None) (d_last ?d)) (concat (take n [[UPut [97] [1, 2]], [UDelete [97]]]))
                  else db_view [] [] (\<lambda>_ _. None) (d_last ?d)) [97] of
              None \<Rightarrow> (NotFound [], None) | Some v \<Rightarrow> (Okay, Some (take 10 v))) \<and>
    (\<forall>t \<le> d_last ?d. DB_Get plain_env (Some t) 10 [97] d' = DB_Get plain_env (Some t) 10 [97] ?d)"
    by (rule group_commit [OF rep V w _ has _ _ room]) (simp_all add: DB_enqueue_def new_DBImpl_def)
  then show ?thesis by (elim exE conjE) (intro exI)
qed

section \<open>Iterators of the store\<close>

text \<open>The children are the memtables; a version without table files adds none.\<close>

definition NewInternalIterator :: "'v DBImpl \<Rightarrow> (MemTable \<times> nat option) AnyIterator" where
  "NewInternalIterator d =
     NewMergingIterator (NewMemTableIterator (d_mem d) # (case d_imm d of None \<Rightarrow> [] | Some imm \<Rightarrow> [NewMemTableIterator imm]))"

definition DB_NewIterator :: "u64 option \<Rightarrow> 'v DBImpl \<Rightarrow> (MemTable \<times> nat option) AnyIterator DBIter" where
  "DB_NewIterator snap d = NewDBIterator (NewInternalIterator d) (case snap of Some s \<Rightarrow> s | None \<Rightarrow> d_last d)"

definition merged_entries :: "entry list \<Rightarrow> entry list \<Rightarrow> entry list" where
  "merged_entries mes ies = foldr insert_entry ies mes"

lemma set_merged_entries [simp]: "set (merged_entries mes ies) = set mes \<union> set ies"
  by (induction ies) (auto simp: merged_entries_def)

lemma entry_less_irrefl [simp]: "\<not> entry_less a a"
  by (auto simp: entry_less_def ikey_less_def)

lemma merged_entries_sorted:
  assumes "sorted_wrt entry_less mes" "sorted_wrt entry_less ies" "\<forall>x \<in> set mes. \<forall>y \<in> set ies. entry_less x y \<or> entry_less y x"
  shows "sorted_wrt entry_less (merged_entries mes ies)"
  using assms
proof (induction ies)
  case (Cons e ies)
  then have IH: "sorted_wrt entry_less (merged_entries mes ies)" by simp
  have "entry_less x e \<or> entry_less e x" if "x \<in> set (merged_entries mes ies)" for x using that Cons.prems by auto
  then show ?case using sorted_insert_entry [OF IH, of e] by (simp add: merged_entries_def)
qed (simp add: merged_entries_def)

lemma sorted_same_set:
  assumes "sorted_wrt entry_less xs" and "sorted_wrt entry_less ys" and "set xs = set ys"
  shows "xs = ys"
  using assms
proof (induction xs arbitrary: ys)
  case (Cons x xs)
  then obtain y zs where ys: "ys = y # zs" by (cases ys) auto
  have "x = y"
  proof (rule ccontr)
    assume ne: "x \<noteq> y"
    then have "x \<in> set zs" "y \<in> set xs" using Cons.prems(3) ys by auto
    then have "entry_less y x" "entry_less x y" using Cons.prems(1,2) ys by auto
    then show False using entry_less_trans entry_less_irrefl by blast
  qed
  moreover have "set xs = set zs"
  proof -
    have "x \<notin> set xs" "y \<notin> set zs" using Cons.prems(1,2) ys by auto
    then show ?thesis using Cons.prems(3) ys calculation by (metis insert_ident list.simps(15))
  qed
  ultimately show ?case using Cons.IH [of zs] Cons.prems ys by simp
qed simp

lemma find_filter: "find P xs = (case filter P xs of [] \<Rightarrow> None | y # _ \<Rightarrow> Some y)"
  by (induction xs) auto

lemma layer_merged:
  assumes "sorted_wrt entry_less mes" "sorted_wrt entry_less ies" and ok: "\<forall>e \<in> set mes \<union> set ies. entry_ok e"
    and new: "\<forall>a \<in> set mes. \<forall>b \<in> set ies. en_seq b < en_seq a"
  shows "entries_ok (merged_entries mes ies)" and "layer (merged_entries mes ies) s base = layer mes s (layer ies s base)"
proof -
  have less: "en_key x = en_key y \<Longrightarrow> entry_less x y" "entry_less x y \<or> entry_less y x" if xy: "x \<in> set mes" "y \<in> set ies" for x y
  proof -
    have m: "en_seq x \<le> kMaxSequenceNumber" "en_seq y \<le> kMaxSequenceNumber" "en_seq y < en_seq x"
      using xy ok new by (auto simp: entry_ok_def)
    show "en_key x = en_key y \<Longrightarrow> entry_less x y" using entry_less_iff [of x y] m by auto
    then show "entry_less x y \<or> entry_less y x"
      using entry_less_iff [of x y] entry_less_iff [of y x] m bytes_less_linear [of "en_key x" "en_key y"] by auto
  qed
  have s: "sorted_wrt entry_less (merged_entries mes ies)" using merged_entries_sorted [OF assms(1,2)] less(2) by blast
  then show "entries_ok (merged_entries mes ies)" using ok by (simp add: entries_ok_def list_all_iff)
  have "newest (merged_entries mes ies) k s = (case newest mes k s of None \<Rightarrow> newest ies k s | Some e \<Rightarrow> Some e)" for k
  proof -
    let ?Q = "\<lambda>e. en_key e = k \<and> en_seq e \<le> s"
    have "sorted_wrt entry_less (filter ?Q mes @ filter ?Q ies)"
      using assms(1,2) less(1) by (auto simp: sorted_wrt_append sorted_wrt_filter)
    then have "filter ?Q (merged_entries mes ies) = filter ?Q mes @ filter ?Q ies"
      by (intro sorted_same_set sorted_wrt_filter s) auto
    then show ?thesis unfolding newest_def find_filter by (auto split: list.splits)
  qed
  then show "layer (merged_entries mes ies) s base = layer mes s (layer ies s base)"
    by (auto simp: layer_def fun_eq_iff split: option.splits)
qed

lemma sorted_wrt_total: "sorted_wrt R xs \<Longrightarrow> x \<in> set xs \<Longrightarrow> y \<in> set xs \<Longrightarrow> x \<noteq> y \<Longrightarrow> R x y \<or> R y x"
  by (induction xs) auto

lemma internal_merges:
  assumes "sorted_wrt entry_less mes" "sorted_wrt entry_less ies" and ok: "\<forall>e \<in> set mes \<union> set ies. entry_ok e"
    and new: "\<forall>a \<in> set mes. \<forall>b \<in> set ies. en_seq b < en_seq a"
  shows "mem_merging.merges [internal_entries mes, internal_entries ies] (internal_entries (merged_entries mes ies))"
proof -
  let ?M = "merged_entries mes ies" and ?f = "\<lambda>e. (entry_ikey e, en_val e)"
  have less: "mem_merging.less (?f a) (?f b) \<longleftrightarrow> entry_less a b" for a b
    by (simp add: mem_merging.less_def entry_less_def InternalKey_Compare_simps)
  have sorted: "sorted_wrt mem_merging.less (internal_entries es) \<longleftrightarrow> sorted_wrt entry_less es" for es
    by (simp add: internal_entries_def sorted_wrt_map less)
  have M: "sorted_wrt entry_less ?M" using layer_merged(1) [OF assms] by (simp add: entries_ok_def)
  have neq: "?f a \<noteq> ?f b" if "a \<in> set mes" "b \<in> set ies" for a b
  proof
    assume eq: "?f a = ?f b"
    have "a \<noteq> b" using new that by auto
    then have "entry_less a b \<or> entry_less b a" using sorted_wrt_total [OF M, of a b] that by simp
    then show False using eq less [of a b] less [of b a] by (metis entry_less_irrefl less)
  qed
  then have dis: "set (internal_entries mes) \<inter> set (internal_entries ies) = {}" by (auto simp: internal_entries_def)
  have two: "i < length [internal_entries mes, internal_entries ies] \<longleftrightarrow> i = 0 \<or> i = 1" for i by auto
  have disj: "set ([internal_entries mes, internal_entries ies] ! i) \<inter> set ([internal_entries mes, internal_entries ies] ! j) = {}"
    if "i < length [internal_entries mes, internal_entries ies]" "j < length [internal_entries mes, internal_entries ies]" "i \<noteq> j" for i j
    using that dis unfolding two by (auto simp: Int_commute)
  have sk: "mem_seek_ok (fst e)" if "e \<in> set (internal_entries ?M)" for e
    using that ok by (auto simp: internal_entries_def mem_seek_ok_def entry_ok_def entry_ikey_def ikey_def)
  have un: "set (internal_entries ?M) = \<Union> (set ` set [internal_entries mes, internal_entries ies])"
    by (auto simp: internal_entries_def)
  show ?thesis
    unfolding mem_merging.merges_def using sorted assms(1,2) M disj sk un by auto
qed

lemma NewInternalIterator_at:
  assumes rep: "db_rep d mes ies old"
  shows "mem_merging.any_at (NewInternalIterator d) (internal_entries (merged_entries mes ies)) (length (merged_entries mes ies))"
proof (cases "d_imm d")
  case None
  then have "ies = []" "mem_rep (d_mem d) mes" using rep by (simp_all add: db_rep_def)
  then show ?thesis
    using mem_iter_new [of "d_mem d" mes] None
    by (simp add: NewInternalIterator_def NewMergingIterator_def mem_merging.any_at_def merged_entries_def)
next
  case (Some imm)
  then have m: "mem_rep (d_mem d) mes" "mem_rep imm ies" "\<forall>a \<in> set mes. \<forall>b \<in> set ies. en_seq b < en_seq a"
    using rep by (simp_all add: db_rep_def)
  let ?Ls = "[internal_entries mes, internal_entries ies]" and ?cs = "[NewMemTableIterator (d_mem d), NewMemTableIterator imm]"
  have "mem_merging.merges ?Ls (internal_entries (merged_entries mes ies))"
    by (rule internal_merges) (use m in \<open>auto simp: mem_rep_def list_all_iff\<close>)
  moreover have "mem_merging.kids ?Ls ?cs (\<lambda>i. length (?Ls ! i))"
    using mem_iter_new [OF m(1)] mem_iter_new [OF m(2)] by (auto simp: mem_merging.kids_def less_Suc_eq)
  ultimately show ?thesis
    using Some
    by (auto simp: NewInternalIterator_def NewMergingIterator_def mem_merging.any_at_def mem_merging.merge_at_def
        new_MergingIterator_def mem_merging.current_is_def)
qed

lemma DB_NewIterator_at:
  assumes rep: "db_rep d mes ies old" and s: "s = (case snap of None \<Rightarrow> d_last d | Some s \<Rightarrow> s)" "s \<le> kMaxSequenceNumber"
  shows "db_at mem_merging.any_at (DB_NewIterator snap d) (user_entries s (merged_entries mes ies))
    (length (user_entries s (merged_entries mes ies)))"
proof -
  have "entries_ok (merged_entries mes ies)"
    by (rule layer_merged(1)) (use rep in \<open>auto simp: db_rep_def mem_rep_def list_all_iff split: option.splits\<close>)
  then show ?thesis
    using NewInternalIterator_at [OF rep] s(2) unfolding db_at_def DB_NewIterator_def s(1) [symmetric]
    by (intro exI [of _ "merged_entries mes ies"]) (auto simp: NewDBIterator_def)
qed

lemma user_entries_db_view:
  assumes rep: "db_rep d mes ies (\<lambda>_ _. None)"
  shows "sorted_wrt bytes_less (map fst (user_entries s (merged_entries mes ies)))"
    and "(k, v) \<in> set (user_entries s (merged_entries mes ies)) \<longleftrightarrow> db_view mes ies (\<lambda>_ _. None) s k = Some v"
proof -
  note L = layer_merged [of mes ies]
  have a: "sorted_wrt entry_less mes" "sorted_wrt entry_less ies" "\<forall>e \<in> set mes \<union> set ies. entry_ok e" "\<forall>a \<in> set mes. \<forall>b \<in> set ies. en_seq b < en_seq a"
    using rep by (auto simp: db_rep_def mem_rep_def list_all_iff split: option.splits)
  show "sorted_wrt bytes_less (map fst (user_entries s (merged_entries mes ies)))"
    by (rule user_entries_sorted) (rule L(1) [OF a])
  show "(k, v) \<in> set (user_entries s (merged_entries mes ies)) \<longleftrightarrow> db_view mes ies (\<lambda>_ _. None) s k = Some v"
    unfolding user_entries_view layer_None [symmetric] L(2) [OF a] db_view_def ..
qed

section \<open>The store as a key-value store\<close>

definition DB_DX :: "'v DBEnv \<Rightarrow> DBOptions \<Rightarrow> ('v DBImpl, (MemTable \<times> nat option) AnyIterator DBIter) DX" where
  "DB_DX E opt =
     \<lparr>dx_Put = DB_Put E opt False, dx_Delete = DB_Delete E opt False, dx_Write = (\<lambda>b. DB_Write E opt False (UserBatch b)),
      dx_Get = (\<lambda>snap. DB_Get E snap kMaxValue), dx_GetSnapshot = DB_GetSnapshot, dx_ReleaseSnapshot = DB_ReleaseSnapshot,
      dx_NewIterator = (\<lambda>snap d. Some (DB_NewIterator snap d)), dx_Iter = DBIter_Iter mems_Iter\<rparr>"

text \<open>
  A store without table files represents the view at its last sequence number; the maps of the snapshots are the
  views at their numbers.
\<close>

definition db_kv_rep :: "'v DBEnv \<Rightarrow> DBOptions \<Rightarrow> nat \<Rightarrow> 'v DBImpl \<Rightarrow> kv_map \<Rightarrow> (u64 \<Rightarrow> kv_map option) \<Rightarrow> bool" where
  "db_kv_rep E opt n d m S \<longleftrightarrow>
     (\<exists>mes ies. db_rep d mes ies (\<lambda>_ _. None) \<and> m = db_view mes ies (\<lambda>_ _. None) (d_last d) \<and>
        (\<forall>s m'. S s = Some m' \<longrightarrow> s \<le> d_last d \<and> m' = db_view mes ies (\<lambda>_ _. None) s)) \<and>
     e_version_get E = no_files_get \<and> quiet E opt \<and> d_writers d = [] \<and> d_bg_error d = Okay \<and> unat (d_last d) + n < 2 ^ 56 \<and>
     (\<forall>k v. m k = Some v \<longrightarrow> length v \<le> kMaxValue) \<and> (\<forall>s m' k v. S s = Some m' \<longrightarrow> m' k = Some v \<longrightarrow> length v \<le> kMaxValue)"

lemma db_kv_Write:
  assumes rep: "db_kv_rep E opt (n + length us) d m S" and us: "list_all kv_update_ok us" "length us < 2 ^ 31"
  shows "\<exists>d'. DB_Write E opt sync (UserBatch (batch_of s us)) d = Some (Okay, d') \<and> db_kv_rep E opt n d' (foldl map_update m us) S"
proof -
  let ?old = "\<lambda>_ _. None"
  obtain mes ies where r: "db_rep d mes ies ?old" "m = db_view mes ies ?old (d_last d)"
    "\<forall>s m'. S s = Some m' \<longrightarrow> s \<le> d_last d \<and> m' = db_view mes ies ?old s"
    using rep by (auto simp: db_kv_rep_def)
  have e: "e_version_get E = no_files_get" "quiet E opt" "d_writers d = []" "d_bg_error d = Okay" "unat (d_last d) + (n + length us) < 2 ^ 56"
    "\<forall>k v. m k = Some v \<longrightarrow> length v \<le> kMaxValue" "\<forall>s m' k v. S s = Some m' \<longrightarrow> m' k = Some v \<longrightarrow> length v \<le> kMaxValue"
    using rep by (auto simp: db_kv_rep_def)
  have fits: "list_all update_fits us" using us(1) kv_update_ok_fits by (auto simp: list_all_iff)
  obtain d' mes' where d': "DB_Write E opt sync (UserBatch (batch_of s us)) d = Some (Okay, d')" "db_rep d' mes' ies ?old"
    "d_writers d' = []" "d_bg_error d' = Okay" "unat (d_last d') = unat (d_last d) + length us"
    "db_view mes' ies ?old (d_last d') = foldl map_update (db_view mes ies ?old (d_last d)) us"
    "\<forall>t \<le> d_last d. db_view mes' ies ?old t = db_view mes ies ?old t"
    using DB_Write_ok [OF r(1) e(3,4,2) fits us(2), where s = s and sync = sync] e(5) by auto
  have le: "d_last d \<le> d_last d'" using d'(5) by (simp add: word_le_nat_alt)
  have S: "s \<le> d_last d' \<and> m' = db_view mes' ies ?old s" if "S s = Some m'" for s m'
  proof -
    have "s \<le> d_last d" "m' = db_view mes ies ?old s" using that r(3) by blast+
    then show ?thesis using d'(7) le by (auto intro: order_trans)
  qed
  have "db_kv_rep E opt n d' (foldl map_update m us) S"
    unfolding db_kv_rep_def
    using d'(2-6) r(2) S e kv_map_values [OF e(6) us(1)] by (intro conjI exI [of _ mes'] exI [of _ ies]) auto
  then show ?thesis using d'(1) by blast
qed

lemma one_batch: "WB_Put WB_Clear k v = batch_of 0 [UPut k v]" "WB_Delete WB_Clear k = batch_of 0 [UDelete k]"
  using WB_apply_batch_of [of "[]" 0 "UPut k v"] WB_apply_batch_of [of "[]" 0 "UDelete k"] by (simp_all add: WB_Clear_batch_of)

lemma db_kv_Get:
  assumes rep: "db_kv_rep E opt n d m S" and k: "kv_key_ok k" and m': "case snap of None \<Rightarrow> m' = m | Some s \<Rightarrow> S s = Some m'"
  shows "DB_Get E snap kMaxValue k d = Some (kv_found (m' k))"
proof -
  let ?old = "\<lambda>_ _. None" and ?s = "case snap of None \<Rightarrow> d_last d | Some s \<Rightarrow> s"
  obtain mes ies where r: "db_rep d mes ies ?old" "m = db_view mes ies ?old (d_last d)"
    "\<forall>s m'. S s = Some m' \<longrightarrow> s \<le> d_last d \<and> m' = db_view mes ies ?old s"
    using rep by (auto simp: db_kv_rep_def)
  have v: "m' = db_view mes ies ?old ?s" "?s \<le> d_last d" using m' r(2,3) by (auto split: option.splits)
  then have s: "?s \<le> kMaxSequenceNumber" using r(1) by (auto simp: db_rep_def)
  have "version_reads E (d_version d) ?old" using rep by (intro no_files_reads) (simp add: db_kv_rep_def)
  from DB_Get_view [OF r(1) this _ refl s, of k kMaxValue]
  have "DB_Get E snap kMaxValue k d = Some (case m' k of None \<Rightarrow> (NotFound [], None) | Some v \<Rightarrow> (Okay, Some (take kMaxValue v)))"
    using k v by (simp add: kv_key_ok_def)
  moreover have "length v \<le> kMaxValue" if "m' k = Some v" for v
    using that m' rep by (auto simp: db_kv_rep_def split: option.splits)
  ultimately show ?thesis by (auto simp: kv_found_def split: option.splits)
qed

lemma db_kv_NewIterator:
  assumes rep: "db_kv_rep E opt n d m S" and m': "case snap of None \<Rightarrow> m' = m | Some s \<Rightarrow> S s = Some m'"
  shows "\<exists>U j. db_at mem_merging.any_at (DB_NewIterator snap d) U j \<and> kv_table U m'"
proof -
  let ?old = "\<lambda>_ _. None" and ?s = "case snap of None \<Rightarrow> d_last d | Some s \<Rightarrow> s"
  obtain mes ies where r: "db_rep d mes ies ?old" "m = db_view mes ies ?old (d_last d)"
    "\<forall>s m'. S s = Some m' \<longrightarrow> s \<le> d_last d \<and> m' = db_view mes ies ?old s"
    using rep by (auto simp: db_kv_rep_def)
  have v: "m' = db_view mes ies ?old ?s" "?s \<le> d_last d" using m' r(2,3) by (auto split: option.splits)
  then have s: "?s \<le> kMaxSequenceNumber" using r(1) by (auto simp: db_rep_def)
  show ?thesis
    using DB_NewIterator_at [OF r(1) refl s] user_entries_db_view [OF r(1), where s = ?s] v(1) unfolding kv_table_def by blast
qed

lemma db_seek_ok_mem: "db_seek_ok mem_seek_ok = kv_key_ok"
  by (auto simp: fun_eq_iff db_seek_ok_def mem_seek_ok_def kv_key_ok_def ikey_def)

lemma db_kv_laws: "kv_store (DB_DX E opt) (db_at mem_merging.any_at) (db_kv_rep E opt)"
proof (intro kv_store.intro kv_store_axioms.intro)
  show "iterator (dx_Iter (DB_DX E opt)) (db_at mem_merging.any_at) compare kv_key_ok"
    using mems_internal.db.iterator_axioms by (simp add: DB_DX_def db_seek_ok_mem)
next
  fix n d m S k v
  assume "db_kv_rep E opt (Suc n) d m S" "kv_update_ok (UPut k v)"
  then show "\<exists>d'. dx_Put (DB_DX E opt) k v d = Some (Okay, d') \<and> db_kv_rep E opt n d' (m(k \<mapsto> v)) S"
    using db_kv_Write [where n = n and us = "[UPut k v]" and s = 0 and sync = False] by (simp add: DB_DX_def DB_Put_def one_batch)
next
  fix n d m S k
  assume "db_kv_rep E opt (Suc n) d m S" "kv_key_ok k"
  then show "\<exists>d'. dx_Delete (DB_DX E opt) k d = Some (Okay, d') \<and> db_kv_rep E opt n d' (m(k := None)) S"
    using db_kv_Write [where n = n and us = "[UDelete k]" and s = 0 and sync = False] by (simp add: DB_DX_def DB_Delete_def one_batch kv_key_ok_def)
next
  fix n us d m S s
  assume "db_kv_rep E opt (n + length us) d m S" "list_all kv_update_ok us" "length us < 2 ^ 31"
  then show "\<exists>d'. dx_Write (DB_DX E opt) (batch_of s us) d = Some (Okay, d') \<and> db_kv_rep E opt n d' (foldl map_update m us) S"
    using db_kv_Write [where n = n and us = us and s = s and sync = False] by (simp add: DB_DX_def)
next
  fix n d m S k
  assume "db_kv_rep E opt n d m S" "kv_key_ok k"
  then show "dx_Get (DB_DX E opt) None k d = Some (kv_found (m k))"
    using db_kv_Get [of E opt n d m S k m None] by (simp add: DB_DX_def)
next
  fix n d m S s m' k
  assume "db_kv_rep E opt n d m S" "S s = Some m'" "kv_key_ok k"
  then show "dx_Get (DB_DX E opt) (Some s) k d = Some (kv_found (m' k))"
    using db_kv_Get [where snap = "Some s" and m' = m'] by (simp add: DB_DX_def)
next
  fix n d m S
  assume rep: "db_kv_rep E opt n d m S"
  have cong: "db_rep (d\<lparr>d_snapshots := x\<rparr>) mes ies old \<longleftrightarrow> db_rep d mes ies old" for x mes ies old by (simp add: db_rep_def)
  have f: "d_last (d\<lparr>d_snapshots := x\<rparr>) = d_last d" "d_writers (d\<lparr>d_snapshots := x\<rparr>) = d_writers d"
    "d_bg_error (d\<lparr>d_snapshots := x\<rparr>) = d_bg_error d" for x by simp_all
  have "db_kv_rep E opt n (d\<lparr>d_snapshots := d_snapshots d @ [d_last d]\<rparr>) m (S(d_last d \<mapsto> m))"
  proof -
    obtain mes ies where r: "db_rep d mes ies (\<lambda>_ _. None)" "m = db_view mes ies (\<lambda>_ _. None) (d_last d)"
      "\<forall>s m'. S s = Some m' \<longrightarrow> s \<le> d_last d \<and> m' = db_view mes ies (\<lambda>_ _. None) s"
      using rep by (auto simp: db_kv_rep_def)
    have S: "s \<le> d_last d \<and> m' = db_view mes ies (\<lambda>_ _. None) s" if "(S(d_last d \<mapsto> m)) s = Some m'" for s m'
      using that r(2,3) by (cases "s = d_last d") auto
    have vals: "length v \<le> kMaxValue" if "(S(d_last d \<mapsto> m)) s = Some m'" "m' k = Some v" for s m' k v
      using that rep by (cases "s = d_last d") (auto simp: db_kv_rep_def)
    have rest: "e_version_get E = no_files_get \<and> quiet E opt \<and> d_writers d = [] \<and> d_bg_error d = Okay \<and> unat (d_last d) + n < 2 ^ 56 \<and>
        (\<forall>k v. m k = Some v \<longrightarrow> length v \<le> kMaxValue)"
      using rep unfolding db_kv_rep_def by blast
    have "\<exists>mes ies. db_rep d mes ies (\<lambda>_ _. None) \<and> m = db_view mes ies (\<lambda>_ _. None) (d_last d) \<and>
        (\<forall>s m'. (S(d_last d \<mapsto> m)) s = Some m' \<longrightarrow> s \<le> d_last d \<and> m' = db_view mes ies (\<lambda>_ _. None) s)"
      using r(1,2) S by blast
    then show ?thesis
      unfolding db_kv_rep_def cong f using rest vals by blast
  qed
  then show "\<exists>s d'. dx_GetSnapshot (DB_DX E opt) d = (s, d') \<and> db_kv_rep E opt n d' m (S(s \<mapsto> m))"
    by (simp add: DB_DX_def DB_GetSnapshot_def)
  show "db_kv_rep E opt n (dx_ReleaseSnapshot (DB_DX E opt) s d) m (S(s := None))" for s
    using rep unfolding db_kv_rep_def DB_DX_def DB_ReleaseSnapshot_def by (auto simp: cong)
  show "\<exists>it U j. dx_NewIterator (DB_DX E opt) None d = Some it \<and> db_at mem_merging.any_at it U j \<and> kv_table U m"
    using db_kv_NewIterator [OF rep, where snap = None and m' = m] by (simp add: DB_DX_def)
  show "\<exists>it U j. dx_NewIterator (DB_DX E opt) (Some s) d = Some it \<and> db_at mem_merging.any_at it U j \<and> kv_table U m'"
    if "S s = Some m'" for s m'
    using db_kv_NewIterator [OF rep, where snap = "Some s" and m' = m'] that by (simp add: DB_DX_def)
qed

end
