(* ===== verification/Fsdb.thy ===== *)
theory Fsdb
  imports Mxdb Db
begin

text \<open>
  \<^verbatim>\<open>fsdb.cc\<close>: \<^verbatim>\<open>FilesystemDb\<close>, the directories of a metadata server in one store. It is \<^verbatim>\<open>MXDB\<close> with names in the keys, over
  the store of \<^verbatim>\<open>Db\<close>. The server uses it through the record \<open>FsDb\<close>; the laws the server relies on are the locale
  \<open>fs_store\<close>.
\<close>

section \<open>Statistics\<close>

definition new_stats :: FilesystemDbStats where
  "new_stats = \<lparr>putkeybytes = 0, putbytes = 0, puts = 0, getkeybytes = 0, getbytes = 0, gets = 0\<rparr>"

definition stats_Merge :: "FilesystemDbStats \<Rightarrow> FilesystemDbStats \<Rightarrow> FilesystemDbStats" where
  "stats_Merge a b =
     \<lparr>putkeybytes = putkeybytes a + putkeybytes b, putbytes = putbytes a + putbytes b, puts = puts a + puts b,
      getkeybytes = getkeybytes a + getkeybytes b, getbytes = getbytes a + getbytes b, gets = gets a + gets b\<rparr>"

section \<open>Operations\<close>

definition FilesystemDb_Put :: "('db, 'i) DX \<Rightarrow> DirId \<Rightarrow> slice \<Rightarrow> Stat \<Rightarrow> FilesystemDbStats \<Rightarrow> 'db \<Rightarrow>
    (status \<times> FilesystemDbStats \<times> 'db) option" where
  "FilesystemDb_Put D at fname stat stats db =
     map_option (\<lambda>(s, _, p, db). (s, the p, db)) (MXDB_PUT D kNameInKey at fname stat fname None (Some stats) db)"

definition FilesystemDb_Get :: "('db, 'i) DX \<Rightarrow> DirId \<Rightarrow> slice \<Rightarrow> FilesystemDbStats \<Rightarrow> 'db \<Rightarrow>
    (status \<times> Stat option \<times> FilesystemDbStats) option" where
  "FilesystemDb_Get D at fname stats db =
     map_option (\<lambda>((s, stat, _), p). (s, stat, the p)) (MXDB_GET D kNameInKey at fname False None None (Some stats) db)"

definition FilesystemDb_Delete :: "('db, 'i) DX \<Rightarrow> DirId \<Rightarrow> slice \<Rightarrow> 'db \<Rightarrow> (status \<times> 'db) option" where
  "FilesystemDb_Delete D at fname db = map_option (\<lambda>(s, _, db). (s, db)) (MXDB_DELETE D at fname None db)"

section \<open>The interface of the server\<close>

text \<open>\<^verbatim>\<open>BulkInsert\<close> ends in \<^verbatim>\<open>DB::AddL0Tables\<close>, a parameter here.\<close>

record 'db FsDb =
  fsdb_Put :: "DirId \<Rightarrow> slice \<Rightarrow> Stat \<Rightarrow> FilesystemDbStats \<Rightarrow> 'db \<Rightarrow> (status \<times> FilesystemDbStats \<times> 'db) option"
  fsdb_Get :: "DirId \<Rightarrow> slice \<Rightarrow> FilesystemDbStats \<Rightarrow> 'db \<Rightarrow> (status \<times> Stat option \<times> FilesystemDbStats) option"
  fsdb_BulkInsert :: "string \<Rightarrow> 'db \<Rightarrow> status \<times> 'db"

definition FilesystemDb_if :: "('db, 'i) DX \<Rightarrow> (string \<Rightarrow> 'db \<Rightarrow> status \<times> 'db) \<Rightarrow> 'db FsDb" where
  "FilesystemDb_if D bulk =
     \<lparr>fsdb_Put = FilesystemDb_Put D, fsdb_Get = FilesystemDb_Get D, fsdb_BulkInsert = bulk\<rparr>"

type_synonym dir_map = "DirId \<Rightarrow> slice \<Rightarrow> Stat option"

definition dir_put :: "dir_map \<Rightarrow> DirId \<Rightarrow> slice \<Rightarrow> Stat option \<Rightarrow> dir_map" where
  "dir_put f d nm e = f(d := (f d)(nm := e))"

text \<open>A write may fail; it then leaves the directories as they are.\<close>

locale fs_store =
  fixes X :: "'db FsDb" and frep :: "nat \<Rightarrow> 'db \<Rightarrow> dir_map \<Rightarrow> bool"
  assumes fs_Put: "frep (Suc n) db f \<Longrightarrow> dir_ok d \<Longrightarrow> name_ok nm \<Longrightarrow>
      \<exists>s stats' db'. fsdb_Put X d nm st stats db = Some (s, stats', db') \<and>
        frep n db' (if ok s then dir_put f d nm (Some st) else f)"
    and fs_Get: "frep n db f \<Longrightarrow> dir_ok d \<Longrightarrow> name_ok nm \<Longrightarrow>
      \<exists>stats'. fsdb_Get X d nm stats db =
        Some (case f d nm of None \<Rightarrow> (NotFound [], None, stats') | Some st \<Rightarrow> (Okay, Some st, stats'))"
    and fs_le: "frep n db f \<Longrightarrow> m \<le> n \<Longrightarrow> frep m db f"

interpretation db_kv: kv_store "DB_DX E opt" "db_at mem_merging.any_at" "db_kv_rep E opt" for E opt
  by (rule db_kv_laws)

text \<open>The store below: the entries carry their own name.\<close>

definition named :: "dir_map \<Rightarrow> dirents" where
  "named f = (\<lambda>d nm. map_option (\<lambda>st. (st, nm)) (f d nm))"

definition fsdb_rep :: "'v DBEnv \<Rightarrow> DBOptions \<Rightarrow> nat \<Rightarrow> 'v DBImpl \<Rightarrow> dir_map \<Rightarrow> bool" where
  "fsdb_rep E opt n db f \<longleftrightarrow> (\<exists>m S. db_kv_rep E opt n db m S \<and> dents_rep kNameInKey m (named f))"

lemma fsdb_rep_drep: "fsdb_rep E opt n db f \<longleftrightarrow> db_kv.drep E opt kNameInKey n db (named f) (\<lambda>_. None)"
  by (simp add: fsdb_rep_def db_kv.drep_def)

lemma named_put: "named (dir_put f d nm (Some st)) = dents_put (named f) d nm (Some (st, nm))"
  "named (dir_put f d nm None) = dents_put (named f) d nm None"
  by (auto simp: named_def dir_put_def dents_put_def fun_eq_iff)

lemma name_ok_suffix: "name_ok nm \<Longrightarrow> suffix_ok nm \<and> entry_fits fmt nm nm"
  by (simp add: name_ok_def suffix_ok_def entry_fits_def)

lemma db_kv_rep_le:
  assumes "db_kv_rep E opt n db m S" and "k \<le> n"
  shows "db_kv_rep E opt k db m S"
proof -
  have "unat (d_last db) + k < 2 ^ 56" using assms by (simp add: db_kv_rep_def)
  then show ?thesis using assms(1) unfolding db_kv_rep_def by blast
qed

lemma fsdb_Put_ok:
  assumes "fsdb_rep E opt (Suc n) db f" and "dir_ok d" and "name_ok nm"
  shows "\<exists>stats' db'. FilesystemDb_Put (DB_DX E opt) d nm st stats db = Some (Okay, stats', db') \<and>
    fsdb_rep E opt n db' (dir_put f d nm (Some st))"
  using db_kv.PUT_ok [OF assms(1) [unfolded fsdb_rep_drep] assms(2), of nm nm st "Some stats"] name_ok_suffix [OF assms(3)]
  by (auto simp: FilesystemDb_Put_def fsdb_rep_drep named_put)

lemma fsdb_Delete_ok:
  assumes "fsdb_rep E opt (Suc n) db f" and "dir_ok d" and "name_ok nm"
  shows "\<exists>db'. FilesystemDb_Delete (DB_DX E opt) d nm db = Some (Okay, db') \<and> fsdb_rep E opt n db' (dir_put f d nm None)"
  using db_kv.DELETE_ok [OF assms(1) [unfolded fsdb_rep_drep] assms(2), of nm] name_ok_suffix [OF assms(3)]
  by (auto simp: FilesystemDb_Delete_def fsdb_rep_drep named_put)

lemma fsdb_Get_ok:
  assumes "fsdb_rep E opt n db f" and "dir_ok d" and "name_ok nm"
  shows "\<exists>stats'. FilesystemDb_Get (DB_DX E opt) d nm stats db =
    Some (case f d nm of None \<Rightarrow> (NotFound [], None, stats') | Some st \<Rightarrow> (Okay, Some st, stats'))"
  using db_kv.GET_ok [OF assms(1) [unfolded fsdb_rep_drep], of None None "named f" d nm False "Some stats"] assms(2) name_ok_suffix [OF assms(3)]
  by (cases "f d nm") (auto simp: FilesystemDb_Get_def seen_def named_def read_snapshot_def)

interpretation fsdb: fs_store "FilesystemDb_if (DB_DX E opt) bulk" "fsdb_rep E opt" for E opt bulk
proof unfold_locales
  fix n db f d nm st stats
  assume a: "fsdb_rep E opt (Suc n) db f" "dir_ok d" "name_ok nm"
  then show "\<exists>s stats' db'. fsdb_Put (FilesystemDb_if (DB_DX E opt) bulk) d nm st stats db = Some (s, stats', db') \<and>
      fsdb_rep E opt n db' (if ok s then dir_put f d nm (Some st) else f)"
    using fsdb_Put_ok [OF a, of st stats] by (auto simp: FilesystemDb_if_def)
next
  fix n db f d nm stats
  assume a: "fsdb_rep E opt n db f" "dir_ok d" "name_ok nm"
  then show "\<exists>stats'. fsdb_Get (FilesystemDb_if (DB_DX E opt) bulk) d nm stats db =
      Some (case f d nm of None \<Rightarrow> (NotFound [], None, stats') | Some st \<Rightarrow> (Okay, Some st, stats'))"
    using fsdb_Get_ok [OF a, of stats] by (simp add: FilesystemDb_if_def)
next
  fix n m db f
  assume "fsdb_rep E opt n db f" "m \<le> n"
  then show "fsdb_rep E opt m db f" unfolding fsdb_rep_def using db_kv_rep_le by blast
qed

lemma dents_rep_empty: "dents_rep fmt (\<lambda>_. None) (\<lambda>_ _. None)"
  by (simp add: dents_rep_def)

lemma new_db_kv_rep: "n < 2 ^ 56 \<Longrightarrow> db_kv_rep plain_env plain_options n (new_DBImpl () k) (\<lambda>_. None) (\<lambda>_. None)"
  unfolding db_kv_rep_def
  using new_DBImpl_rep [of "()" k]
  by (auto simp: plain_env_def plain_options_def quiet_def new_DBImpl_def db_view_def layer_def newest_def fun_eq_iff
      intro!: exI [of _ "[] :: entry list"])

lemma new_fsdb_rep: "n < 2 ^ 56 \<Longrightarrow> fsdb_rep plain_env plain_options n (new_DBImpl () k) (\<lambda>_ _. None)"
  using new_db_kv_rep [of n k] dents_rep_empty unfolding fsdb_rep_def named_def by auto

lemma sorted_bytes_unique:
  assumes "sorted_wrt bytes_less xs" and "sorted_wrt bytes_less ys" and "set xs = set ys"
  shows "xs = ys"
  using assms
proof (induction xs arbitrary: ys)
  case (Cons x xs)
  then obtain y zs where ys: "ys = y # zs" by (cases ys) auto
  have "x = y"
    using Cons.prems bytes_less_asym unfolding ys by (metis insert_iff list.simps(15) sorted_wrt.simps(2))
  moreover have "x \<notin> set xs" "y \<notin> set zs" using Cons.prems bytes_less_asym unfolding ys by auto
  ultimately have "set xs = set zs" using Cons.prems(3) insert_ident [of x "set xs" "set zs"] unfolding ys by simp
  then show ?case using Cons.IH [of zs] Cons.prems \<open>x = y\<close> unfolding ys by simp
qed simp

lemma dir_names_unique: "dir_names f d ns \<Longrightarrow> dir_names f d ns' \<Longrightarrow> ns = ns'"
  unfolding dir_names_def by (intro sorted_bytes_unique) auto

section \<open>Properties\<close>





text \<open>A client that edits entries one after the other within a transaction.\<close>

definition tx_edit :: "('db, 'i) DX \<Rightarrow> MXDBFormat \<Rightarrow> Tx option \<Rightarrow> DirId \<times> slice \<times> (Stat \<times> slice) option \<Rightarrow> 'db \<Rightarrow>
    (status \<times> Tx option \<times> 'db) option" where
  "tx_edit D fmt tx x db =
     (case x of
        (d, s, None) \<Rightarrow> MXDB_DELETE D d s tx db
      | (d, s, Some (st, nm)) \<Rightarrow> map_option (\<lambda>(r, tx, _, db). (r, tx, db)) (MXDB_PUT D fmt d s st nm tx None db))"

fun tx_edits :: "('db, 'i) DX \<Rightarrow> MXDBFormat \<Rightarrow> Tx option \<Rightarrow> (DirId \<times> slice \<times> (Stat \<times> slice) option) list \<Rightarrow> 'db \<Rightarrow>
    (Tx option \<times> 'db) option" where
  "tx_edits D fmt tx [] db = Some (tx, db)"
| "tx_edits D fmt tx (x # xs) db =
     (case tx_edit D fmt tx x db of Some (Okay, tx, db) \<Rightarrow> tx_edits D fmt tx xs db | _ \<Rightarrow> None)"

lemma tx_edits_batch:
  "tx_edits D fmt (Some t) es db = Some (Some (t\<lparr>tx_bat := foldl WB_apply (tx_bat t) (map (edit_update fmt) es)\<rparr>), db)"
proof (induction es arbitrary: t)
  case (Cons x es)
  obtain d s e where x: "x = (d, s, e)" by (cases x) auto
  have "tx_edit D fmt (Some t) x db = Some (Okay, Some (t\<lparr>tx_bat := WB_apply (tx_bat t) (edit_update fmt x)\<rparr>), db)"
    by (cases e) (auto simp: x tx_edit_def MXDB_PUT_def MXDB_DELETE_def Let_def)
  then show ?case using Cons.IH [of "t\<lparr>tx_bat := WB_apply (tx_bat t) (edit_update fmt x)\<rparr>"] by simp
qed simp

definition mxdb_rep :: "'v DBEnv \<Rightarrow> DBOptions \<Rightarrow> MXDBFormat \<Rightarrow> nat \<Rightarrow> 'v DBImpl \<Rightarrow> dirents \<Rightarrow> (u64 \<Rightarrow> dirents option) \<Rightarrow> bool" where
  "mxdb_rep E opt fmt n db f F \<longleftrightarrow>
     (\<exists>m S. db_kv_rep E opt n db m S \<and> dents_rep fmt m f \<and>
        (\<forall>s g. F s = Some g \<longrightarrow> (\<exists>m'. S s = Some m' \<and> dents_rep fmt m' g)))"

lemma mxdb_rep_drep: "mxdb_rep E opt fmt n db f F \<longleftrightarrow> db_kv.drep E opt fmt n db f F"
  by (simp add: mxdb_rep_def db_kv.drep_def)

definition entry_read :: "MXDBFormat \<Rightarrow> dirents \<Rightarrow> DirId \<Rightarrow> slice \<Rightarrow> status \<times> Stat option \<times> slice option" where
  "entry_read fmt f d s = (case f d s of None \<Rightarrow> (NotFound [], None, None) | Some (st, nm) \<Rightarrow> (Okay, Some st, Some nm))"

lemma GET_read:
  assumes "mxdb_rep E opt fmt n db f F" and "seen f F (read_snapshot snap tx) = Some g" and "dir_ok d" and "suffix_ok s"
  shows "MXDB_GET (DB_DX E opt) fmt d s True snap tx None db = Some (entry_read fmt g d s, None)"
  using db_kv.GET_ok [OF assms(1) [unfolded mxdb_rep_drep] assms(2-4), of True None]
  by (simp add: entry_read_def split: option.split)


lemma new_mxdb_rep: "n < 2 ^ 56 \<Longrightarrow> mxdb_rep plain_env plain_options fmt n (new_DBImpl () k) (\<lambda>_ _. None) (\<lambda>_. None)"
  using new_db_kv_rep [of n k] dents_rep_empty unfolding mxdb_rep_def by auto


end
