(* ===== verification/Hashmap.thy ===== *)
theory Hashmap
  imports Slice
begin

text \<open>
  \<^verbatim>\<open>pdlfs-common/hashmap.h\<close>: the chained hash table \<^verbatim>\<open>HashTable\<close> that indexes the entries of the LRU
  cache and the control blocks of the directories in memory. The entries belong to the client; the
  table keeps pointers to them, linked through their \<^verbatim>\<open>next_hash\<close> fields. A bucket is the list of its
  entries in the order of the links, an entry is what the table reads of it (hash and key, which
  never change) and the pointer itself. A slot (\<^verbatim>\<open>E**\<close>) is a bucket and a position in it: the position
  after the last entry is the trailing slot.
\<close>

record 'p HashEnt =
  e_hash :: u32
  e_key :: slice
  e_ptr :: 'p

record 'p HashTable =
  ht_list :: "'p HashEnt list list"
  ht_elems :: nat

type_synonym slot = "nat \<times> nat"

text \<open>
  The bucket of a hash: \<^verbatim>\<open>hash & (length_ - 1)\<close>. The length of the table is a power of two (lemma
  \<open>ht_inv_def\<close>), for which the mask is the remainder (lemma \<open>bucket_of_mask\<close>).
\<close>

definition bucket_of :: "nat \<Rightarrow> u32 \<Rightarrow> nat" where
  "bucket_of len hash = unat hash mod len"

lemma bucket_of_mask:
  assumes "k < 32"
  shows "bucket_of (2 ^ k) hash = unat (hash AND (word_of_nat (2 ^ k) - 1))"
proof -
  have "(word_of_nat (2 ^ k) :: u32) - 1 = mask k" by (simp add: mask_eq_exp_minus_1)
  then show ?thesis
    by (simp only: bucket_of_def unsigned_take_bit_eq take_bit_eq_mod [of k "unat hash"] flip: take_bit_eq_mask)
qed

text \<open>The walk along the links of a bucket.\<close>

fun find_in :: "slice \<Rightarrow> u32 \<Rightarrow> 'p HashEnt list \<Rightarrow> nat" where
  "find_in key hash [] = 0"
| "find_in key hash (e # es) = (if e_hash e \<noteq> hash \<or> key \<noteq> e_key e then Suc (find_in key hash es) else 0)"

definition FindPointer :: "'p HashTable \<Rightarrow> slice \<Rightarrow> u32 \<Rightarrow> slot" where
  "FindPointer t key hash =
     (let b = bucket_of (length (ht_list t)) hash in (b, find_in key hash (ht_list t ! b)))"

text \<open>What a slot points to.\<close>

definition slot_entry :: "'p HashTable \<Rightarrow> slot \<Rightarrow> 'p HashEnt option" where
  "slot_entry t s =
     (case s of (b, i) \<Rightarrow> if i < length (ht_list t ! b) then Some (ht_list t ! b ! i) else None)"

text \<open>\<^verbatim>\<open>Resize\<close>: the entries are pushed in front of their new buckets, in the order of the old ones.\<close>

function new_length :: "nat \<Rightarrow> nat \<Rightarrow> nat" where
  "new_length len elems = (if len < elems \<and> 0 < len then new_length (len * 2) elems else len)"
  by pat_completeness auto
termination by (relation "measure (\<lambda>(len, elems). elems - len)") auto

declare new_length.simps [simp del]

definition push_front :: "'p HashEnt list list \<Rightarrow> 'p HashEnt \<Rightarrow> 'p HashEnt list list" where
  "push_front nl e = (let b = bucket_of (length nl) (e_hash e) in nl[b := e # nl ! b])"

definition Resize :: "'p HashTable \<Rightarrow> 'p HashTable" where
  "Resize t =
     t\<lparr>ht_list := foldl (foldl push_front) (replicate (new_length 4 (ht_elems t)) []) (ht_list t)\<rparr>"

definition new_HashTable :: "'p HashTable" where
  "new_HashTable = Resize \<lparr>ht_list = [], ht_elems = 0\<rparr>"

definition Inject :: "'p HashTable \<Rightarrow> 'p HashEnt \<Rightarrow> slot \<Rightarrow> 'p HashTable \<times> 'p HashEnt option" where
  "Inject t e s =
     (case slot_entry t s of
        Some old \<Rightarrow> (t\<lparr>ht_list := (ht_list t)[fst s := (ht_list t ! fst s)[snd s := e]]\<rparr>, Some old)
      | None \<Rightarrow>
          (let t = t\<lparr>ht_list := (ht_list t)[fst s := ht_list t ! fst s @ [e]], ht_elems := ht_elems t + 1\<rparr>
           in (if length (ht_list t) < ht_elems t then Resize t else t, None)))"

definition HashTable_Insert :: "'p HashTable \<Rightarrow> 'p HashEnt \<Rightarrow> 'p HashTable \<times> 'p HashEnt option" where
  "HashTable_Insert t e = Inject t e (FindPointer t (e_key e) (e_hash e))"

text \<open>Unlink the entry of a slot.\<close>

definition unlink :: "'p HashTable \<Rightarrow> slot \<Rightarrow> 'p HashTable" where
  "unlink t s =
     t\<lparr>ht_list := (ht_list t)[fst s := take (snd s) (ht_list t ! fst s) @ drop (Suc (snd s)) (ht_list t ! fst s)],
       ht_elems := ht_elems t - 1\<rparr>"

text \<open>\<^verbatim>\<open>Remove(E*)\<close> compares pointers; \<^verbatim>\<open>Remove(key, hash)\<close> removes whatever has the key.\<close>

definition Remove_ent :: "'p HashTable \<Rightarrow> 'p HashEnt \<Rightarrow> 'p HashTable \<times> 'p HashEnt option" where
  "Remove_ent t e =
     (let s = FindPointer t (e_key e) (e_hash e)
      in case slot_entry t s of
           Some ent \<Rightarrow> if e_ptr e = e_ptr ent then (unlink t s, Some ent) else (t, None)
         | None \<Rightarrow> (t, None))"

definition Remove_key :: "'p HashTable \<Rightarrow> slice \<Rightarrow> u32 \<Rightarrow> 'p HashTable \<times> 'p HashEnt option" where
  "Remove_key t key hash =
     (let s = FindPointer t key hash
      in case slot_entry t s of Some e \<Rightarrow> (unlink t s, Some e) | None \<Rightarrow> (t, None))"

definition HashTable_Empty :: "'p HashTable \<Rightarrow> bool" where
  "HashTable_Empty t \<longleftrightarrow> ht_elems t = 0"

definition HashTable_Size :: "'p HashTable \<Rightarrow> nat" where
  "HashTable_Size t = ht_elems t"

text \<open>\<^verbatim>\<open>*FindPointer(key, hash)\<close>\<close>

definition ht_lookup :: "'p HashTable \<Rightarrow> slice \<Rightarrow> u32 \<Rightarrow> 'p HashEnt option" where
  "ht_lookup t key hash = slot_entry t (FindPointer t key hash)"

section \<open>The invariant and the entries\<close>

definition tag :: "'p HashEnt \<Rightarrow> u32 \<times> slice" where
  "tag e = (e_hash e, e_key e)"

definition buckets_ok :: "'p HashEnt list list \<Rightarrow> bool" where
  "buckets_ok l \<longleftrightarrow>
     (\<exists>k. length l = 2 ^ k) \<and>
     (\<forall>b < length l. \<forall>e \<in> set (l ! b). bucket_of (length l) (e_hash e) = b) \<and>
     (\<forall>b < length l. distinct (map tag (l ! b)))"

definition ht_inv :: "'p HashTable \<Rightarrow> bool" where
  "ht_inv t \<longleftrightarrow> buckets_ok (ht_list t) \<and> ht_elems t = length (concat (ht_list t))"

definition ht_ents :: "'p HashTable \<Rightarrow> 'p HashEnt set" where
  "ht_ents t = set (concat (ht_list t))"

text \<open>The abstraction: a map from hash and key to the pointer.\<close>

definition ht_map :: "'p HashTable \<Rightarrow> (u32 \<times> slice) \<Rightarrow> 'p option" where
  "ht_map t hk = map_option e_ptr (ht_lookup t (snd hk) (fst hk))"

lemma find_in_le: "find_in key hash es \<le> length es"
  by (induction es) auto

lemma find_in_found:
  "find_in key hash es < length es \<Longrightarrow> tag (es ! find_in key hash es) = (hash, key)"
  by (induction es) (auto simp: tag_def)

lemma find_in_member:
  "distinct (map tag es) \<Longrightarrow> e \<in> set es \<Longrightarrow> tag e = (hash, key) \<Longrightarrow>
   find_in key hash es < length es \<and> es ! find_in key hash es = e"
  by (induction es) (auto simp: tag_def image_iff)

lemma bucket_less: "buckets_ok l \<Longrightarrow> bucket_of (length l) h < length l"
  by (auto simp: buckets_ok_def bucket_of_def)

lemma nth_nth_concat: "b < length l \<Longrightarrow> i < length (l ! b) \<Longrightarrow> l ! b ! i \<in> set (concat l)"
  by (auto intro: nth_mem)

lemma ht_lookup_iff:
  assumes "buckets_ok (ht_list t)"
  shows "ht_lookup t key hash = Some e \<longleftrightarrow> e \<in> ht_ents t \<and> tag e = (hash, key)"
proof -
  let ?b = "bucket_of (length (ht_list t)) hash"
  have b: "?b < length (ht_list t)" using assms by (rule bucket_less)
  have l: "ht_lookup t key hash = (if find_in key hash (ht_list t ! ?b) < length (ht_list t ! ?b)
      then Some (ht_list t ! ?b ! find_in key hash (ht_list t ! ?b)) else None)"
    by (simp add: ht_lookup_def FindPointer_def slot_entry_def Let_def)
  show ?thesis
  proof
    assume "ht_lookup t key hash = Some e"
    then have "find_in key hash (ht_list t ! ?b) < length (ht_list t ! ?b)"
      and "e = ht_list t ! ?b ! find_in key hash (ht_list t ! ?b)"
      unfolding l by (simp_all split: if_splits)
    then show "e \<in> ht_ents t \<and> tag e = (hash, key)"
      using find_in_found [of key hash "ht_list t ! ?b"] nth_nth_concat [OF b] by (simp add: ht_ents_def)
  next
    assume e: "e \<in> ht_ents t \<and> tag e = (hash, key)"
    then obtain c where c: "c < length (ht_list t)" "e \<in> set (ht_list t ! c)"
      unfolding ht_ents_def set_concat by (metis UN_E in_set_conv_nth)
    then have "bucket_of (length (ht_list t)) (e_hash e) = c" using assms by (simp add: buckets_ok_def)
    then have "c = ?b" using e by (simp add: tag_def)
    then show "ht_lookup t key hash = Some e"
      using find_in_member [of "ht_list t ! ?b" e hash key] e c assms unfolding l by (simp add: buckets_ok_def)
  qed
qed

lemma ht_ents_inj:
  assumes "buckets_ok (ht_list t)" and "e \<in> ht_ents t" and "f \<in> ht_ents t" and "tag e = tag f"
  shows "e = f"
  using ht_lookup_iff [OF assms(1), of "e_key e" "e_hash e"] assms
  by (metis option.inject tag_def)

text \<open>Two tables with the same entries are the same map.\<close>

lemma ht_map_cong:
  assumes "buckets_ok (ht_list t)" and "buckets_ok (ht_list u)" and "ht_ents t = ht_ents u"
  shows "ht_map t = ht_map u"
proof
  fix hk
  have "ht_lookup t (snd hk) (fst hk) = Some e \<longleftrightarrow> ht_lookup u (snd hk) (fst hk) = Some e" for e
    by (simp only: ht_lookup_iff [OF assms(1)] ht_lookup_iff [OF assms(2)] assms(3))
  then have "ht_lookup t (snd hk) (fst hk) = ht_lookup u (snd hk) (fst hk)"
    by (metis not_None_eq)
  then show "ht_map t hk = ht_map u hk" by (simp add: ht_map_def)
qed

lemma ht_map_Some:
  assumes "buckets_ok (ht_list t)"
  shows "ht_map t hk = Some p \<longleftrightarrow> (\<exists>e \<in> ht_ents t. tag e = hk \<and> e_ptr e = p)"
  using ht_lookup_iff [OF assms, of "snd hk" "fst hk"] by (auto simp: ht_map_def)

section \<open>Resizing\<close>

lemma new_length_pow:
  "\<exists>j. 0 < len \<longrightarrow> new_length len elems = len * 2 ^ j \<and> elems \<le> new_length len elems"
proof (induction len elems rule: new_length.induct)
  case (1 len elems)
  show ?case
  proof (cases "len < elems \<and> 0 < len")
    case True
    with 1 obtain j where "new_length (len * 2) elems = len * 2 * 2 ^ j" "elems \<le> new_length (len * 2) elems"
      by auto
    then show ?thesis using True by (intro exI [of _ "Suc j"]) (simp add: new_length.simps [of len])
  next
    case False
    then show ?thesis by (intro exI [of _ 0]) (auto simp: new_length.simps [of len])
  qed
qed

lemma new_length_4: "\<exists>k. new_length 4 elems = 2 ^ k"
proof -
  obtain j where "new_length 4 elems = 4 * 2 ^ j" using new_length_pow [of 4 elems] by auto
  then show ?thesis by (intro exI [of _ "j + 2"]) simp
qed

lemma push_front_ok:
  assumes ok: "buckets_ok l" and new: "tag e \<notin> tag ` set (concat l)"
  shows "buckets_ok (push_front l e) \<and> length (push_front l e) = length l \<and>
    set (concat (push_front l e)) = insert e (set (concat l)) \<and>
    length (concat (push_front l e)) = Suc (length (concat l))"
proof -
  let ?b = "bucket_of (length l) (e_hash e)"
  have b: "?b < length l" using ok by (rule bucket_less)
  have p: "push_front l e = take ?b l @ (e # l ! ?b) # drop (Suc ?b) l"
    using b by (simp add: push_front_def Let_def upd_conv_take_nth_drop)
  have l: "l = take ?b l @ l ! ?b # drop (Suc ?b) l" using b by (rule id_take_nth_drop)
  have len: "length (push_front l e) = length l" by (simp add: push_front_def Let_def)
  have "set (concat (push_front l e)) = insert e (set (concat l))"
    unfolding p by (subst (3) l) auto
  moreover have "length (concat (push_front l e)) = Suc (length (concat l))"
    unfolding p by (subst (3) l) simp
  moreover have "buckets_ok (push_front l e)"
    unfolding buckets_ok_def len
  proof (intro conjI allI impI ballI)
    show "\<exists>k. length l = 2 ^ k" using ok by (simp add: buckets_ok_def)
  next
    fix c f assume "c < length l" "f \<in> set (push_front l e ! c)"
    then show "bucket_of (length l) (e_hash f) = c"
      using ok b by (cases "c = ?b") (auto simp: push_front_def Let_def buckets_ok_def)
  next
    fix c assume c: "c < length l"
    have "tag e \<notin> tag ` set (l ! c)" using new c by (auto simp: image_iff)
    then show "distinct (map tag (push_front l e ! c))"
      using ok b c by (cases "c = ?b") (auto simp: push_front_def Let_def buckets_ok_def)
  qed
  ultimately show ?thesis using len by simp
qed

lemma push_all_ok:
  "buckets_ok l \<Longrightarrow> distinct (map tag es) \<Longrightarrow> tag ` set es \<inter> tag ` set (concat l) = {} \<Longrightarrow>
   buckets_ok (foldl push_front l es) \<and> length (foldl push_front l es) = length l \<and>
   set (concat (foldl push_front l es)) = set es \<union> set (concat l) \<and>
   length (concat (foldl push_front l es)) = length es + length (concat l)"
proof (induction es arbitrary: l)
  case Nil
  then show ?case by simp
next
  case (Cons e es)
  have e: "tag e \<notin> tag ` set (concat l)" using Cons.prems(3) by auto
  note P = push_front_ok [OF Cons.prems(1) e]
  have "tag ` set es \<inter> tag ` set (concat (push_front l e)) = {}"
    using P Cons.prems(2,3) by auto
  with Cons.IH [of "push_front l e"] P Cons.prems(2) show ?case by simp
qed

lemma foldl_foldl_concat: "foldl (foldl f) a xss = foldl f a (concat xss)"
  by (induction xss arbitrary: a) auto

lemma distinct_concat_by_index:
  "(\<And>b. b < length l \<Longrightarrow> distinct (map f (l ! b))) \<Longrightarrow>
   (\<And>b e. b < length l \<Longrightarrow> e \<in> set (l ! b) \<Longrightarrow> g (f e) = b + off) \<Longrightarrow> distinct (map f (concat l))"
proof (induction l arbitrary: off)
  case Nil
  then show ?case by simp
next
  case (Cons x l)
  have d: "distinct (map f x)" and gx: "\<And>e. e \<in> set x \<Longrightarrow> g (f e) = off"
    using Cons.prems(1) [of 0] Cons.prems(2) [of 0] by auto
  have gl: "g (f e) = b + Suc off" if "b < length l" "e \<in> set (l ! b)" for b e
    using Cons.prems(2) [of "Suc b" e] that by simp
  have "distinct (map f (concat l))"
    by (rule Cons.IH [of "Suc off"]) (use Cons.prems(1) [of "Suc _"] gl in auto)
  moreover have "f ` set x \<inter> f ` set (concat l) = {}"
  proof -
    have "g (f e) \<noteq> off" if "e \<in> set (concat l)" for e
      using that gl by (fastforce simp: in_set_conv_nth)
    then show ?thesis using gx by (metis (no_types, lifting) disjoint_iff imageE)
  qed
  ultimately show ?case using d by simp
qed

lemma distinct_tags:
  assumes "buckets_ok l"
  shows "distinct (map tag (concat l))"
  by (rule distinct_concat_by_index [where g = "\<lambda>t. bucket_of (length l) (fst t)" and off = 0])
    (use assms in \<open>auto simp: buckets_ok_def tag_def\<close>)

lemma buckets_ok_replicate: "buckets_ok (replicate (2 ^ k) [])"
  by (auto simp: buckets_ok_def)

lemma Resize_ok:
  assumes "distinct (map tag (concat (ht_list t)))" and "ht_elems t = length (concat (ht_list t))"
  shows "ht_inv (Resize t) \<and> ht_ents (Resize t) = ht_ents t \<and> ht_elems (Resize t) = ht_elems t"
proof -
  obtain k where k: "new_length 4 (ht_elems t) = 2 ^ k" using new_length_4 by blast
  have "ht_list (Resize t) = foldl push_front (replicate (2 ^ k) []) (concat (ht_list t))"
    by (simp add: Resize_def k foldl_foldl_concat)
  moreover have "concat (replicate (2 ^ k) []) = ([] :: 'a HashEnt list)" by simp
  ultimately show ?thesis
    using push_all_ok [OF buckets_ok_replicate assms(1), of k] assms(2)
    by (simp add: ht_inv_def ht_ents_def) (simp add: Resize_def)
qed

lemma new_HashTable_ok: "ht_inv (new_HashTable :: 'p HashTable) \<and> ht_ents (new_HashTable :: 'p HashTable) = {}"
proof -
  let ?t = "\<lparr>ht_list = [], ht_elems = 0\<rparr> :: 'p HashTable"
  have "ht_ents ?t = {}" by (simp add: ht_ents_def)
  then show ?thesis using Resize_ok [of ?t] unfolding new_HashTable_def by simp
qed

section \<open>Insertion and removal\<close>

lemma slot_split:
  assumes "b < length l"
  shows "set (concat (l[b := xs])) = set xs \<union> set (concat (take b l @ drop (Suc b) l))"
    and "length (concat (l[b := xs])) = length xs + length (concat (take b l @ drop (Suc b) l))"
    and "set (concat l) = set (l ! b) \<union> set (concat (take b l @ drop (Suc b) l))"
    and "length (concat l) = length (l ! b) + length (concat (take b l @ drop (Suc b) l))"
proof -
  have u: "l[b := ys] = take b l @ ys # drop (Suc b) l" for ys using assms by (rule upd_conv_take_nth_drop)
  show "set (concat (l[b := xs])) = set xs \<union> set (concat (take b l @ drop (Suc b) l))"
    "length (concat (l[b := xs])) = length xs + length (concat (take b l @ drop (Suc b) l))"
    by (auto simp: u)
  have "l[b := l ! b] = l" by simp
  then have v: "l = take b l @ l ! b # drop (Suc b) l" using u [of "l ! b"] by simp
  show "set (concat l) = set (l ! b) \<union> set (concat (take b l @ drop (Suc b) l))"
    by (subst (1) v) auto
  show "length (concat l) = length (l ! b) + length (concat (take b l @ drop (Suc b) l))"
    by (subst (1) v) simp
qed

lemma bucket_disjoint:
  assumes "buckets_ok l" and "b < length l" and "e \<in> set (l ! b)"
  shows "e \<notin> set (concat (take b l @ drop (Suc b) l))"
proof -
  have "distinct (concat l)" using distinct_tags [OF assms(1)] by (simp add: distinct_map)
  then have "distinct (concat (take b l @ l ! b # drop (Suc b) l))"
    by (simp only: id_take_nth_drop [OF assms(2), symmetric])
  then have "distinct (concat (take b l) @ l ! b @ concat (drop (Suc b) l))"
    by (simp only: concat_append concat.simps)
  then have "e \<notin> set (concat (take b l))" "e \<notin> set (concat (drop (Suc b) l))"
    using assms(3) unfolding distinct_append set_append by blast+
  then show ?thesis by (simp only: concat_append set_append Un_iff simp_thms)
qed

lemma buckets_ok_update:
  assumes "buckets_ok l" and "b < length l" and "distinct (map tag xs)"
    and "\<And>e. e \<in> set xs \<Longrightarrow> bucket_of (length l) (e_hash e) = b"
  shows "buckets_ok (l[b := xs])"
  unfolding buckets_ok_def length_list_update
proof (intro conjI allI impI ballI)
  show "\<exists>k. length l = 2 ^ k" using assms(1) by (simp add: buckets_ok_def)
next
  fix c e assume "c < length l" "e \<in> set (l[b := xs] ! c)"
  then show "bucket_of (length l) (e_hash e) = c"
    using assms by (cases "c = b") (auto simp: buckets_ok_def)
next
  fix c assume "c < length l"
  then show "distinct (map tag (l[b := xs] ! c))"
    using assms by (cases "c = b") (auto simp: buckets_ok_def)
qed

lemma HashTable_Insert_ok:
  assumes inv: "ht_inv t"
  shows "ht_inv (fst (HashTable_Insert t e)) \<and>
    ht_ents (fst (HashTable_Insert t e)) = insert e {f \<in> ht_ents t. tag f \<noteq> tag e} \<and>
    snd (HashTable_Insert t e) = ht_lookup t (e_key e) (e_hash e) \<and>
    ht_elems (fst (HashTable_Insert t e)) =
      (if ht_lookup t (e_key e) (e_hash e) = None then Suc (ht_elems t) else ht_elems t)"
proof -
  let ?l = "ht_list t" and ?b = "bucket_of (length (ht_list t)) (e_hash e)"
  let ?i = "find_in (e_key e) (e_hash e) (?l ! ?b)"
  have ok: "buckets_ok ?l" and n: "ht_elems t = length (concat ?l)" using inv by (simp_all add: ht_inv_def)
  have b: "?b < length ?l" using ok by (rule bucket_less)
  have db: "distinct (map tag (?l ! ?b))" and hb: "\<And>f. f \<in> set (?l ! ?b) \<Longrightarrow> bucket_of (length ?l) (e_hash f) = ?b"
    using ok b by (auto simp: buckets_ok_def)
  have FP: "FindPointer t (e_key e) (e_hash e) = (?b, ?i)" by (simp add: FindPointer_def Let_def)
  let ?rest = "set (concat (take ?b ?l @ drop (Suc ?b) ?l))"
  show ?thesis
  proof (cases "?i < length (?l ! ?b)")
    case True
    let ?old = "?l ! ?b ! ?i"
    have old: "tag ?old = tag e" using find_in_found [OF True] by (simp add: tag_def)
    have om: "?old \<in> ht_ents t" using nth_nth_concat [OF b True] by (simp add: ht_ents_def)
    have lk: "ht_lookup t (e_key e) (e_hash e) = Some ?old"
      using ht_lookup_iff [OF ok, of "e_key e" "e_hash e" ?old] om old by (simp add: tag_def)
    let ?xs = "(?l ! ?b)[?i := e]"
    have mt: "map tag ?xs = map tag (?l ! ?b)" using True old by (simp add: map_update list_update_same_conv)
    have ins: "HashTable_Insert t e = (t\<lparr>ht_list := ?l[?b := ?xs]\<rparr>, Some ?old)"
      using True by (simp add: HashTable_Insert_def Inject_def FP slot_entry_def)
    have ok': "buckets_ok (?l[?b := ?xs])"
    proof (rule buckets_ok_update [OF ok b])
      show "distinct (map tag ?xs)" using db by (simp only: mt)
      fix f assume "f \<in> set ?xs"
      then have "tag f \<in> set (map tag (?l ! ?b))" by (subst mt [symmetric]) simp
      then show "bucket_of (length ?l) (e_hash f) = ?b" using hb by (auto simp: tag_def)
    qed
    have ents: "set (concat (?l[?b := ?xs])) = insert e {f \<in> ht_ents t. tag f \<noteq> tag e}"
    proof -
      have "set ?xs = insert e (set (?l ! ?b) - {?old})"
      proof -
        have "distinct (?l ! ?b)" using db by (simp add: distinct_map)
        then show ?thesis using True by (simp add: set_update_distinct)
      qed
      moreover have "?old \<notin> ?rest" by (rule bucket_disjoint [OF ok b nth_mem [OF True]])
      moreover have "ht_ents t = set (?l ! ?b) \<union> ?rest"
        using slot_split(3) [OF b] by (simp only: ht_ents_def)
      ultimately have "set (concat (?l[?b := ?xs])) = insert e (ht_ents t - {?old})"
        unfolding slot_split(1) [OF b] by blast
      moreover have "{f \<in> ht_ents t. tag f \<noteq> tag e} = ht_ents t - {?old}"
        using ht_ents_inj [OF ok _ om] old by auto
      ultimately show ?thesis by simp
    qed
    show ?thesis
      using ok' ents lk slot_split(2) [OF b, of ?xs] slot_split(4) [OF b] n unfolding ins
      by (simp add: ht_inv_def ht_ents_def)
  next
    case False
    have lk: "ht_lookup t (e_key e) (e_hash e) = None"
      using False by (simp add: ht_lookup_def FP slot_entry_def)
    have new: "tag f \<noteq> tag e" if "f \<in> ht_ents t" for f
      using ht_lookup_iff [OF ok, of "e_key e" "e_hash e" f] lk that by (auto simp: tag_def)
    let ?xs = "?l ! ?b @ [e]"
    let ?t = "t\<lparr>ht_list := ?l[?b := ?xs], ht_elems := ht_elems t + 1\<rparr>"
    have ok': "buckets_ok (?l[?b := ?xs])"
    proof (rule buckets_ok_update [OF ok b])
      have "tag e \<notin> tag ` set (?l ! ?b)" using new b by (force simp: ht_ents_def)
      then show "distinct (map tag ?xs)" using db by simp
    qed (use hb in auto)
    have ents: "ht_ents ?t = insert e {f \<in> ht_ents t. tag f \<noteq> tag e}"
    proof -
      have "ht_ents t = set (?l ! ?b) \<union> ?rest" using slot_split(3) [OF b] by (simp only: ht_ents_def)
      moreover have "ht_ents ?t = set ?xs \<union> ?rest" using slot_split(1) [OF b, of ?xs] by (simp add: ht_ents_def)
      ultimately have "ht_ents ?t = insert e (ht_ents t)" by simp
      then show ?thesis using new by blast
    qed
    have n': "ht_elems ?t = length (concat (ht_list ?t))"
      using slot_split(2) [OF b, of ?xs] slot_split(4) [OF b] n by simp
    have "ht_inv ?t" using ok' n' by (simp add: ht_inv_def)
    moreover note Resize_ok [of ?t, OF _ n']
    moreover have "distinct (map tag (concat (ht_list ?t)))" using distinct_tags [OF ok'] by simp
    moreover have "HashTable_Insert t e = (if length (ht_list ?t) < ht_elems ?t then Resize ?t else ?t, None)"
      using False by (simp add: HashTable_Insert_def Inject_def FP slot_entry_def Let_def)
    ultimately show ?thesis using lk ents by simp
  qed
qed


lemma remove_one:
  assumes "A = insert e B" and "e \<notin> B" and "\<And>f. f \<in> A \<Longrightarrow> g f = t \<Longrightarrow> f = e" and "g e = t"
  shows "B = {f \<in> A. g f \<noteq> t}"
  using assms by blast

text \<open>Removal, given the slot of the entry.\<close>

lemma unlink_ok:
  assumes inv: "ht_inv t" and found: "ht_lookup t key hash = Some e"
  shows "ht_inv (unlink t (FindPointer t key hash)) \<and>
    ht_ents (unlink t (FindPointer t key hash)) = {f \<in> ht_ents t. tag f \<noteq> (hash, key)} \<and>
    Suc (ht_elems (unlink t (FindPointer t key hash))) = ht_elems t"
proof -
  let ?l = "ht_list t" and ?b = "bucket_of (length (ht_list t)) hash"
  let ?i = "find_in key hash (?l ! ?b)"
  have ok: "buckets_ok ?l" and n: "ht_elems t = length (concat ?l)" using inv by (simp_all add: ht_inv_def)
  have b: "?b < length ?l" using ok by (rule bucket_less)
  have FP: "FindPointer t key hash = (?b, ?i)" by (simp add: FindPointer_def Let_def)
  have i: "?i < length (?l ! ?b)" and e: "e = ?l ! ?b ! ?i"
    using found by (simp_all add: ht_lookup_def FP slot_entry_def split: if_splits)
  let ?xs = "take ?i (?l ! ?b) @ drop (Suc ?i) (?l ! ?b)"
  have split: "?l ! ?b = take ?i (?l ! ?b) @ e # drop (Suc ?i) (?l ! ?b)"
    unfolding e by (rule id_take_nth_drop [OF i])
  have db: "distinct (map tag (?l ! ?b))" and hb: "\<And>f. f \<in> set (?l ! ?b) \<Longrightarrow> bucket_of (length ?l) (e_hash f) = ?b"
    using ok b by (auto simp: buckets_ok_def)
  have te: "e \<in> ht_ents t \<and> tag e = (hash, key)" using ht_lookup_iff [OF ok] found by blast
  have sub: "set ?xs \<subseteq> set (?l ! ?b)" using set_take_subset set_drop_subset by fastforce
  have dx: "distinct (map tag ?xs)" and ex: "tag e \<notin> tag ` set ?xs"
  proof -
    have "distinct (map tag (take ?i (?l ! ?b) @ e # drop (Suc ?i) (?l ! ?b)))"
      using db by (simp only: split [symmetric])
    then show "distinct (map tag ?xs)" "tag e \<notin> tag ` set ?xs" by auto
  qed
  have ok': "buckets_ok (?l[?b := ?xs])"
    by (rule buckets_ok_update [OF ok b dx]) (use hb sub in blast)
  have u: "unlink t (?b, ?i) = t\<lparr>ht_list := ?l[?b := ?xs], ht_elems := ht_elems t - 1\<rparr>" by (simp add: unlink_def)
  have s1: "set (?l ! ?b) = insert e (set ?xs)" by (subst split) auto
  have s2: "length (?l ! ?b) = Suc (length ?xs)" using i by simp
  have uniq: "f = e" if "f \<in> ht_ents t" "tag f = (hash, key)" for f
    using ht_ents_inj [OF ok that(1), of e] that te by simp
  have out: "e \<notin> set (concat (?l[?b := ?xs]))"
  proof -
    have "e \<in> set (?l ! ?b)" using i e by simp
    then have "e \<notin> set (concat (take ?b ?l @ drop (Suc ?b) ?l))" by (rule bucket_disjoint [OF ok b])
    moreover have "e \<notin> set ?xs" using ex by blast
    ultimately show ?thesis using slot_split(1) [OF b, of ?xs] by simp
  qed
  have ins: "ht_ents t = insert e (set (concat (?l[?b := ?xs])))"
    unfolding ht_ents_def slot_split(3) [OF b] slot_split(1) [OF b] s1 by blast
  have "set (concat (?l[?b := ?xs])) = {f \<in> ht_ents t. tag f \<noteq> (hash, key)}"
    by (rule remove_one [of _ e, where g = tag, OF ins out uniq conjunct2 [OF te]])
  moreover have "ht_elems t = Suc (length (concat (?l[?b := ?xs])))"
    unfolding n slot_split(4) [OF b] slot_split(2) [OF b, of ?xs] s2 by (simp only: add_Suc)
  ultimately show ?thesis using ok' unfolding FP u by (simp add: ht_inv_def ht_ents_def)
qed

lemma Remove_key_ok:
  assumes inv: "ht_inv t"
  shows "ht_inv (fst (Remove_key t key hash)) \<and>
    ht_ents (fst (Remove_key t key hash)) = {f \<in> ht_ents t. tag f \<noteq> (hash, key)} \<and>
    snd (Remove_key t key hash) = ht_lookup t key hash \<and>
    ht_elems t = (if ht_lookup t key hash = None then 0 else 1) + ht_elems (fst (Remove_key t key hash))"
proof (cases "ht_lookup t key hash")
  case None
  then have "f \<notin> ht_ents t \<or> tag f \<noteq> (hash, key)" for f
    using ht_lookup_iff [of t key hash f] inv by (auto simp: ht_inv_def)
  then have "{f \<in> ht_ents t. tag f \<noteq> (hash, key)} = ht_ents t" by blast
  then show ?thesis using None inv by (simp add: Remove_key_def ht_lookup_def Let_def)
next
  case (Some e)
  then show ?thesis using unlink_ok [OF inv Some] by (simp add: Remove_key_def ht_lookup_def Let_def)
qed

lemma Remove_ent_eq:
  "Remove_ent t e =
     (case ht_lookup t (e_key e) (e_hash e) of
        Some f \<Rightarrow> if e_ptr e = e_ptr f then Remove_key t (e_key e) (e_hash e) else (t, None)
      | None \<Rightarrow> (t, None))"
  by (simp add: Remove_ent_def Remove_key_def ht_lookup_def Let_def split: option.split)

section \<open>The table as a map\<close>

lemma ht_map_Insert:
  assumes "ht_inv t"
  shows "ht_map (fst (HashTable_Insert t e)) = (ht_map t)(tag e \<mapsto> e_ptr e)"
proof
  fix hk
  note I = HashTable_Insert_ok [OF assms, of e]
  have b: "buckets_ok (ht_list t)" "buckets_ok (ht_list (fst (HashTable_Insert t e)))"
    using assms I by (simp_all add: ht_inv_def)
  have "ht_map (fst (HashTable_Insert t e)) hk = Some p \<longleftrightarrow> ((ht_map t)(tag e \<mapsto> e_ptr e)) hk = Some p" for p
    using I by (cases "hk = tag e") (auto simp: ht_map_Some [OF b(1)] ht_map_Some [OF b(2)])
  then show "ht_map (fst (HashTable_Insert t e)) hk = ((ht_map t)(tag e \<mapsto> e_ptr e)) hk"
    by (metis not_None_eq)
qed

lemma ht_map_Remove:
  assumes "ht_inv t"
  shows "ht_map (fst (Remove_key t key hash)) = (ht_map t)((hash, key) := None)"
proof
  fix hk
  note R = Remove_key_ok [OF assms, of key hash]
  have b: "buckets_ok (ht_list t)" "buckets_ok (ht_list (fst (Remove_key t key hash)))"
    using assms R by (simp_all add: ht_inv_def)
  have "ht_map (fst (Remove_key t key hash)) hk = Some p \<longleftrightarrow> ((ht_map t)((hash, key) := None)) hk = Some p" for p
    using R by (cases "hk = (hash, key)") (auto simp: ht_map_Some [OF b(1)] ht_map_Some [OF b(2)])
  then show "ht_map (fst (Remove_key t key hash)) hk = ((ht_map t)((hash, key) := None)) hk"
    by (metis not_None_eq)
qed

lemma ht_map_new: "ht_map new_HashTable = Map.empty"
proof
  fix hk
  have b: "buckets_ok (ht_list new_HashTable)" using new_HashTable_ok by (auto simp: ht_inv_def)
  have "ht_map new_HashTable hk \<noteq> Some p" for p
    using new_HashTable_ok by (auto simp: ht_map_Some [OF b])
  then show "ht_map new_HashTable hk = None" by (metis not_None_eq)
qed

text \<open>The count is the number of keys.\<close>

lemma ht_elems_card:
  assumes "ht_inv t"
  shows "ht_elems t = card (dom (ht_map t)) \<and> finite (dom (ht_map t))"
proof -
  have b: "buckets_ok (ht_list t)" and n: "ht_elems t = length (concat (ht_list t))"
    using assms by (simp_all add: ht_inv_def)
  have "dom (ht_map t) = tag ` ht_ents t" unfolding dom_def by (force simp: ht_map_Some [OF b] not_None_eq)
  moreover have "distinct (map tag (concat (ht_list t)))" by (rule distinct_tags [OF b])
  then have "card (set (map tag (concat (ht_list t)))) = length (map tag (concat (ht_list t)))"
    by (rule distinct_card)
  ultimately show ?thesis using n by (simp add: ht_ents_def)
qed

text \<open>
  The interface the clients of the table rely on: a finite map with its size. \<open>keyed_table\<close> states
  it; the lemmas of the locale are what the LRU cache and the directory table use.
\<close>

locale keyed_table =
  fixes inv :: "'t \<Rightarrow> bool" and look :: "'t \<Rightarrow> 'k \<Rightarrow> 'p option" and empty :: 't
    and ins :: "'t \<Rightarrow> 'k \<Rightarrow> 'p \<Rightarrow> 't" and del :: "'t \<Rightarrow> 'k \<Rightarrow> 't" and count :: "'t \<Rightarrow> nat"
  assumes inv_empty: "inv empty"
    and look_empty: "look empty k = None"
    and inv_ins: "inv t \<Longrightarrow> inv (ins t k p)"
    and look_ins: "inv t \<Longrightarrow> look (ins t k p) j = (if j = k then Some p else look t j)"
    and inv_del: "inv t \<Longrightarrow> inv (del t k)"
    and look_del: "inv t \<Longrightarrow> look (del t k) j = (if j = k then None else look t j)"
    and count_card: "inv t \<Longrightarrow> count t = card {k. look t k \<noteq> None} \<and> finite {k. look t k \<noteq> None}"
begin

lemma ins_all: "inv t \<Longrightarrow> inv (foldl (\<lambda>t (k, p). ins t k p) t kps) \<and>
    look (foldl (\<lambda>t (k, p). ins t k p) t kps) = look t ++ map_of (rev kps)"
proof (induction kps arbitrary: t)
  case Nil
  then show ?case by simp
next
  case (Cons kp kps)
  obtain k p where kp: "kp = (k, p)" by (cases kp)
  have "look (ins t k p) = (look t)(k \<mapsto> p)" using look_ins [OF Cons.prems] by auto
  then show ?case
    using Cons.IH [OF inv_ins [OF Cons.prems]] by (simp add: kp map_add_def fun_eq_iff fun_upd_def split: option.splits)
qed

lemma count_ins: "inv t \<Longrightarrow> count (ins t k p) = (if look t k = None then Suc (count t) else count t)"
proof -
  assume t: "inv t"
  have "{j. look (ins t k p) j \<noteq> None} = insert k {j. look t j \<noteq> None}" using look_ins [OF t] by auto
  then show ?thesis using count_card [OF t] count_card [OF inv_ins [OF t]] by (simp add: card_insert_if)
qed

lemma count_del: "inv t \<Longrightarrow> count (del t k) = (if look t k = None then count t else count t - 1)"
proof -
  assume t: "inv t"
  have "{j. look (del t k) j \<noteq> None} = {j. look t j \<noteq> None} - {k}" using look_del [OF t] by auto
  then show ?thesis using count_card [OF t] count_card [OF inv_del [OF t]] by (simp add: card_Diff_singleton_if)
qed

lemma count_0: "inv t \<Longrightarrow> count t = 0 \<longleftrightarrow> (\<forall>k. look t k = None)"
  using count_card by auto

end

definition ht_ins :: "'p HashTable \<Rightarrow> u32 \<times> slice \<Rightarrow> 'p \<Rightarrow> 'p HashTable" where
  "ht_ins t hk p = fst (HashTable_Insert t \<lparr>e_hash = fst hk, e_key = snd hk, e_ptr = p\<rparr>)"

definition ht_del :: "'p HashTable \<Rightarrow> u32 \<times> slice \<Rightarrow> 'p HashTable" where
  "ht_del t hk = fst (Remove_key t (snd hk) (fst hk))"

interpretation ht: keyed_table ht_inv ht_map new_HashTable ht_ins ht_del HashTable_Size
proof unfold_locales
  fix t :: "'p HashTable" and k p
  assume t: "ht_inv t"
  show "ht_inv (ht_ins t k p)" using HashTable_Insert_ok [OF t] by (simp add: ht_ins_def)
  show "ht_map (ht_ins t k p) j = (if j = k then Some p else ht_map t j)" for j
    by (simp add: ht_ins_def ht_map_Insert [OF t] tag_def)
  show "ht_inv (ht_del t k)" using Remove_key_ok [OF t] by (simp add: ht_del_def)
  show "ht_map (ht_del t k) j = (if j = k then None else ht_map t j)" for j
    by (simp add: ht_del_def ht_map_Remove [OF t])
  show "HashTable_Size t = card {k. ht_map t k \<noteq> None} \<and> finite {k. ht_map t k \<noteq> None}"
    using ht_elems_card [OF t] by (simp add: HashTable_Size_def dom_def)
qed (simp_all add: new_HashTable_ok ht_map_new)

section \<open>Properties\<close>

text \<open>
  C30. The chained table is a finite map from hash and key to pointer: insertion binds the key and
  returns the entry it replaced, removal unbinds it and returns the entry it removed, both whatever
  resizing they cause, and the element count is the number of keys.
\<close>

theorem hash_table_is_map:
  assumes "ht_inv t"
  shows "ht_inv (fst (HashTable_Insert t e)) \<and>
    ht_map (fst (HashTable_Insert t e)) = (ht_map t)((e_hash e, e_key e) \<mapsto> e_ptr e) \<and>
    map_option e_ptr (snd (HashTable_Insert t e)) = ht_map t (e_hash e, e_key e) \<and>
    ht_inv (fst (Remove_key t key hash)) \<and>
    ht_map (fst (Remove_key t key hash)) = (ht_map t)((hash, key) := None) \<and>
    map_option e_ptr (snd (Remove_key t key hash)) = ht_map t (hash, key) \<and>
    HashTable_Size t = card {k. ht_map t k \<noteq> None}"
  using HashTable_Insert_ok [OF assms, of e] Remove_key_ok [OF assms, of key hash]
    ht_map_Insert [OF assms, of e] ht_map_Remove [OF assms, of key hash] ht.count_card [OF assms]
  by (simp add: ht_map_def [of t] tag_def)

lemma hash_table_is_map_witness:
  "ht_map (fst (HashTable_Insert new_HashTable \<lparr>e_hash = 5, e_key = [1], e_ptr = (7 :: nat)\<rparr>)) =
    (ht_map new_HashTable)((5, [1]) \<mapsto> 7)"
  using hash_table_is_map [OF conjunct1 [OF new_HashTable_ok], of "\<lparr>e_hash = 5, e_key = [1], e_ptr = (7 :: nat)\<rparr>" "[]" 0]
  by simp

end
