(* ===== verification/Lru.thy ===== *)
theory Lru
  imports Hashmap
begin

text \<open>
  \<^verbatim>\<open>pdlfs-common/lru.h\<close>: the reference-counted LRU cache that keeps the directory control blocks of the
  server and the directories and partitions of the client. A handle (\<^verbatim>\<open>LRUEntry*\<close>) is a number, the
  memory of the live entries is the map \<open>entries\<close>, and the two linked lists are the lists of their
  handles, oldest first. Calls of the deleters are recorded, in order, in \<open>deleter_calls\<close>. \<open>None\<close> is a
  failed assertion of the code, or the use of a handle that is not live.
\<close>

record 'v LRUEntry =
  l_value :: 'v
  l_key :: slice
  l_hash :: u32
  l_charge :: nat
  l_refs :: nat
  l_in_cache :: bool

record 'v LRUCache =
  lru_capacity :: nat
  total_usage :: nat
  usage :: nat
  in_use :: "nat list"
  lru :: "nat list"
  table :: "nat HashTable"
  entries :: "nat \<Rightarrow> 'v LRUEntry option"
  next_handle :: nat
  deleter_calls :: "(slice \<times> 'v) list"

section \<open>Operations\<close>

definition new_LRUCache :: "nat \<Rightarrow> 'v LRUCache" where
  "new_LRUCache capacity =
     \<lparr>lru_capacity = capacity, total_usage = 0, usage = 0, in_use = [], lru = [], table = new_HashTable,
      entries = (\<lambda>_. None), next_handle = 0, deleter_calls = []\<rparr>"

text \<open>Unlinking takes an entry off the list that holds it.\<close>

definition LRU_Remove :: "'v LRUCache \<Rightarrow> nat \<Rightarrow> 'v LRUCache" where
  "LRU_Remove c h = c\<lparr>in_use := removeAll h (in_use c), lru := removeAll h (lru c)\<rparr>"

definition Unref :: "'v LRUCache \<Rightarrow> nat \<Rightarrow> 'v LRUCache option" where
  "Unref c h =
     (case entries c h of
        None \<Rightarrow> None
      | Some e \<Rightarrow>
          if l_refs e = 0 then None
          else
            let e = e\<lparr>l_refs := l_refs e - 1\<rparr>; c = c\<lparr>entries := (entries c)(h \<mapsto> e)\<rparr>
            in if l_refs e = 0 then
                 (let c = LRU_Remove c h; c = c\<lparr>total_usage := total_usage c - l_charge e\<rparr>
                  in if l_in_cache e then None
                     else Some (c\<lparr>deleter_calls := deleter_calls c @ [(l_key e, l_value e)],
                                  entries := (entries c)(h := None)\<rparr>))
               else if l_in_cache e \<and> l_refs e = 1 then
                 (let c = LRU_Remove c h in Some (c\<lparr>lru := lru c @ [h]\<rparr>))
               else Some c)"

definition lru_Remove :: "'v LRUCache \<Rightarrow> nat \<Rightarrow> 'v LRUCache option" where
  "lru_Remove c h =
     (case entries c h of
        None \<Rightarrow> None
      | Some e \<Rightarrow>
          if l_in_cache e
          then Unref (c\<lparr>entries := (entries c)(h \<mapsto> e\<lparr>l_in_cache := False\<rparr>), usage := usage c - l_charge e\<rparr>) h
          else None)"

text \<open>The body of the eviction loops: the oldest idle entry leaves the table and then the cache.\<close>

definition evict_one :: "'v LRUCache \<Rightarrow> nat \<Rightarrow> 'v LRUCache option" where
  "evict_one c a =
     (case entries c a of
        None \<Rightarrow> None
      | Some e \<Rightarrow>
          if l_refs e = 1 then
            (case Remove_key (table c) (l_key e) (l_hash e) of (t, victim) \<Rightarrow>
               if map_option e_ptr victim = Some a then lru_Remove (c\<lparr>table := t\<rparr>) a else None)
          else None)"

lemma evict_one_lru: "evict_one c a = Some d \<Longrightarrow> lru d = removeAll a (lru c)"
  by (auto simp: evict_one_def lru_Remove_def Unref_def LRU_Remove_def Let_def split: option.splits if_splits prod.splits)

function evict_loop :: "'v LRUCache \<Rightarrow> 'v LRUCache option" where
  "evict_loop c =
     (if lru_capacity c < usage c
      then (case lru c of
              [] \<Rightarrow> Some c
            | a # _ \<Rightarrow> (case evict_one c a of None \<Rightarrow> None | Some d \<Rightarrow> evict_loop d))
      else Some c)"
  by pat_completeness auto
termination
proof (relation "measure (\<lambda>c. length (lru c))")
  fix c :: "'v LRUCache" and a x d
  assume "lru c = a # x" and "evict_one c a = Some d"
  then show "(d, c) \<in> measure (\<lambda>c. length (lru c))"
    using evict_one_lru [of c a d] length_filter_le [of "\<lambda>y. a \<noteq> y" x]
    by (simp add: removeAll_filter_not_eq less_Suc_eq_le)
qed simp

declare evict_loop.simps [simp del]

text \<open>The code writes \<^verbatim>\<open>!capacity_\<close> for a capacity of 0.\<close>

definition lru_Insert :: "'v LRUCache \<Rightarrow> slice \<Rightarrow> u32 \<Rightarrow> 'v \<Rightarrow> nat \<Rightarrow> ('v LRUCache \<times> nat) option" where
  "lru_Insert c key hash value charge =
     (let h = next_handle c;
          e = \<lparr>l_value = value, l_key = key, l_hash = hash, l_charge = charge, l_refs = 1, l_in_cache = False\<rparr>;
          c = c\<lparr>next_handle := h + 1, in_use := in_use c @ [h], total_usage := total_usage c + charge,
                entries := (entries c)(h \<mapsto> e)\<rparr>
      in if lru_capacity c = 0 then Some (c, h)
         else
           let c = c\<lparr>entries := (entries c)(h \<mapsto> e\<lparr>l_refs := 2, l_in_cache := True\<rparr>), usage := usage c + charge\<rparr>
           in case HashTable_Insert (table c) \<lparr>e_hash = hash, e_key = key, e_ptr = h\<rparr> of (t, old) \<Rightarrow>
             case (case old of None \<Rightarrow> Some (c\<lparr>table := t\<rparr>) | Some o1 \<Rightarrow> lru_Remove (c\<lparr>table := t\<rparr>) (e_ptr o1)) of
               None \<Rightarrow> None
             | Some c \<Rightarrow>
                 (case evict_loop c of
                    None \<Rightarrow> None
                  | Some c \<Rightarrow>
                      if lru_capacity c < usage c then
                        (case Remove_key (table c) key hash of (t, victim) \<Rightarrow>
                           if map_option e_ptr victim = Some h
                           then map_option (\<lambda>c. (c, h)) (lru_Remove (c\<lparr>table := t\<rparr>) h) else None)
                      else Some (c, h)))"

definition lru_Ref :: "'v LRUCache \<Rightarrow> nat \<Rightarrow> 'v LRUCache option" where
  "lru_Ref c h =
     (case entries c h of
        None \<Rightarrow> None
      | Some e \<Rightarrow>
          let c = (if l_refs e = 1 \<and> l_in_cache e
                   then (let c = LRU_Remove c h in c\<lparr>in_use := in_use c @ [h]\<rparr>) else c)
          in Some (c\<lparr>entries := (entries c)(h \<mapsto> e\<lparr>l_refs := l_refs e + 1\<rparr>)\<rparr>))"

definition lru_Lookup :: "'v LRUCache \<Rightarrow> slice \<Rightarrow> u32 \<Rightarrow> ('v LRUCache \<times> nat option) option" where
  "lru_Lookup c key hash =
     (case ht_lookup (table c) key hash of
        None \<Rightarrow> Some (c, None)
      | Some ent \<Rightarrow> map_option (\<lambda>c. (c, Some (e_ptr ent))) (lru_Ref c (e_ptr ent)))"

definition lru_Release :: "'v LRUCache \<Rightarrow> nat \<Rightarrow> 'v LRUCache option" where
  "lru_Release c h = Unref c h"

function lru_Prune :: "'v LRUCache \<Rightarrow> 'v LRUCache option" where
  "lru_Prune c =
     (case lru c of
        [] \<Rightarrow> Some c
      | a # _ \<Rightarrow> (case evict_one c a of None \<Rightarrow> None | Some d \<Rightarrow> lru_Prune d))"
  by pat_completeness auto
termination
proof (relation "measure (\<lambda>c. length (lru c))")
  fix c :: "'v LRUCache" and a x d
  assume "lru c = a # x" and "evict_one c a = Some d"
  then show "(d, c) \<in> measure (\<lambda>c. length (lru c))"
    using evict_one_lru [of c a d] length_filter_le [of "\<lambda>y. a \<noteq> y" x]
    by (simp add: removeAll_filter_not_eq less_Suc_eq_le)
qed simp

declare lru_Prune.simps [simp del]

definition lru_Erase :: "'v LRUCache \<Rightarrow> slice \<Rightarrow> u32 \<Rightarrow> 'v LRUCache option" where
  "lru_Erase c key hash =
     (case Remove_key (table c) key hash of (t, victim) \<Rightarrow>
        case victim of None \<Rightarrow> Some c | Some ent \<Rightarrow> lru_Remove (c\<lparr>table := t\<rparr>) (e_ptr ent))"

definition lru_Erase_entry :: "'v LRUCache \<Rightarrow> nat \<Rightarrow> 'v LRUCache option" where
  "lru_Erase_entry c h =
     (case entries c h of
        None \<Rightarrow> None
      | Some e \<Rightarrow>
          (case Remove_ent (table c) \<lparr>e_hash = l_hash e, e_key = l_key e, e_ptr = h\<rparr> of (t, victim) \<Rightarrow>
             case victim of None \<Rightarrow> Some c | Some ent \<Rightarrow> lru_Remove (c\<lparr>table := t\<rparr>) (e_ptr ent)))"

definition lru_Exists :: "'v LRUCache \<Rightarrow> slice \<Rightarrow> u32 \<Rightarrow> bool" where
  "lru_Exists c key hash \<longleftrightarrow> ht_lookup (table c) key hash \<noteq> None"

definition lru_Empty :: "'v LRUCache \<Rightarrow> bool" where
  "lru_Empty c \<longleftrightarrow> HashTable_Empty (table c)"

section \<open>The invariant\<close>

definition l_tag :: "'v LRUEntry \<Rightarrow> u32 \<times> slice" where
  "l_tag e = (l_hash e, l_key e)"

definition idle :: "'v LRUEntry \<Rightarrow> bool" where
  "idle e \<longleftrightarrow> l_in_cache e \<and> l_refs e = 1"

definition wt :: "('v LRUEntry \<Rightarrow> bool) \<Rightarrow> 'v LRUEntry option \<Rightarrow> nat" where
  "wt P v = (case v of Some e \<Rightarrow> if P e then l_charge e else 0 | None \<Rightarrow> 0)"

definition charges :: "('v LRUEntry \<Rightarrow> bool) \<Rightarrow> nat \<Rightarrow> (nat \<Rightarrow> 'v LRUEntry option) \<Rightarrow> nat" where
  "charges P n m = (\<Sum>h < n. wt P (m h))"

text \<open>
  \<open>lru_inv0 X\<close> is the invariant with the handles \<open>X\<close> already out of the table but still counted as
  cached, as the code has it in the middle of an eviction.
\<close>

definition lru_inv0 :: "nat set \<Rightarrow> 'v LRUCache \<Rightarrow> bool" where
  "lru_inv0 X c \<longleftrightarrow>
     ht_inv (table c) \<and>
     (\<forall>hk h. ht_map (table c) hk = Some h \<longleftrightarrow>
        (\<exists>e. entries c h = Some e \<and> l_in_cache e \<and> h \<notin> X \<and> l_tag e = hk)) \<and>
     distinct (in_use c) \<and> distinct (lru c) \<and>
     set (in_use c) = {h. \<exists>e. entries c h = Some e \<and> \<not> idle e} \<and>
     set (lru c) = {h. \<exists>e. entries c h = Some e \<and> idle e} \<and>
     (\<forall>h e. entries c h = Some e \<longrightarrow> 0 < l_refs e) \<and>
     usage c = charges l_in_cache (next_handle c) (entries c) \<and>
     total_usage c = charges (\<lambda>_. True) (next_handle c) (entries c) \<and>
     (\<forall>h. next_handle c \<le> h \<longrightarrow> entries c h = None)"

definition lru_inv :: "'v LRUCache \<Rightarrow> bool" where
  "lru_inv c \<longleftrightarrow> lru_inv0 {} c \<and> usage c \<le> lru_capacity c"

text \<open>How the sums of charges change with one entry.\<close>

lemma wt_simps [simp]: "wt P None = 0" "wt P (Some e) = (if P e then l_charge e else 0)"
  by (simp_all add: wt_def)

lemma charges_upd:
  assumes "h < n"
  shows "charges P n (m(h := v)) + wt P (m h) = charges P n m + wt P v"
proof -
  have "(\<Sum>k \<in> {..<n} - {h}. wt P ((m(h := v)) k)) = (\<Sum>k \<in> {..<n} - {h}. wt P (m k))"
    by (intro sum.cong) auto
  then show ?thesis
    using sum.remove [of "{..<n}" h "\<lambda>k. wt P ((m(h := v)) k)"] sum.remove [of "{..<n}" h "\<lambda>k. wt P (m k)"] assms
    by (simp add: charges_def)
qed

lemma charges_new: "charges P (Suc n) (m(n := v)) = charges P n m + wt P v"
proof -
  have "(\<Sum>k < n. wt P ((m(n := v)) k)) = (\<Sum>k < n. wt P (m k))" by (intro sum.cong) auto
  then show ?thesis by (simp add: charges_def)
qed

text \<open>What an entry that leaves the cache is, and what becomes of it.\<close>

definition dropped :: "'v LRUCache \<Rightarrow> nat \<Rightarrow> 'v LRUEntry \<Rightarrow> 'v LRUCache" where
  "dropped c h e =
     c\<lparr>in_use := removeAll h (in_use c), lru := removeAll h (lru c), total_usage := total_usage c - l_charge e,
       deleter_calls := deleter_calls c @ [(l_key e, l_value e)], entries := (entries c)(h := None)\<rparr>"

lemma live_less: "lru_inv0 X c \<Longrightarrow> entries c h = Some e \<Longrightarrow> h < next_handle c"
  unfolding lru_inv0_def by (metis not_le option.distinct(1))

text \<open>\<^verbatim>\<open>Remove\<close> of an entry that has left the table.\<close>

lemma lru_Remove_ok:
  assumes inv: "lru_inv0 {h} c" and e: "entries c h = Some e" "l_in_cache e"
  obtains d where "lru_Remove c h = Some d" "lru_inv0 {} d" "usage d = usage c - l_charge e" "l_charge e \<le> usage c"
    "table d = table c" "next_handle d = next_handle c" "lru_capacity d = lru_capacity c"
    "lru d = removeAll h (lru c)"
    "l_refs e = 1 \<Longrightarrow> entries d = (entries c)(h := None) \<and> deleter_calls d = deleter_calls c @ [(l_key e, l_value e)]"
    "1 < l_refs e \<Longrightarrow> entries d = (entries c)(h \<mapsto> e\<lparr>l_in_cache := False, l_refs := l_refs e - 1\<rparr>) \<and>
       deleter_calls d = deleter_calls c"
proof -
  have refs: "0 < l_refs e" using inv e by (auto simp: lru_inv0_def)
  have hn: "h < next_handle c" using live_less [OF inv e(1)] .
  have use: "charges l_in_cache (next_handle c) ((entries c)(h := v)) + l_charge e =
      usage c + wt l_in_cache v" for v
    using charges_upd [OF hn, of l_in_cache "entries c" v] e inv by (simp add: lru_inv0_def)
  have tot: "charges (\<lambda>_. True) (next_handle c) ((entries c)(h := v)) + l_charge e =
      total_usage c + wt (\<lambda>_. True) v" for v
    using charges_upd [OF hn, of "\<lambda>_. True" "entries c" v] e inv by (simp add: lru_inv0_def)
  have le: "l_charge e \<le> usage c" "l_charge e \<le> total_usage c" using use [of None] tot [of None] by simp_all
  show thesis
  proof (cases "l_refs e = 1")
    case True
    let ?d = "(dropped c h e)\<lparr>usage := usage c - l_charge e\<rparr>"
    have "lru_Remove c h = Some ?d"
      using e True by (simp add: lru_Remove_def Unref_def LRU_Remove_def dropped_def Let_def)
    moreover have "lru_inv0 {} ?d"
      using inv e le use [of None] tot [of None] unfolding lru_inv0_def
      by (auto simp: dropped_def distinct_removeAll)
    ultimately show thesis
      using that [of ?d] le True by (simp add: dropped_def)
  next
    case False
    have r: "1 < l_refs e" using False refs by linarith
    let ?e = "e\<lparr>l_in_cache := False, l_refs := l_refs e - 1\<rparr>"
    let ?d = "c\<lparr>entries := (entries c)(h \<mapsto> ?e), usage := usage c - l_charge e\<rparr>"
    have "lru_Remove c h = Some ?d"
      using e False refs by (simp add: lru_Remove_def Unref_def LRU_Remove_def Let_def)
    moreover have "lru_inv0 {} ?d"
      using inv e le use [of "Some ?e"] tot [of "Some ?e"] r unfolding lru_inv0_def
      by (auto simp: idle_def)
    moreover have "h \<notin> set (lru c)" using inv e False by (auto simp: lru_inv0_def idle_def)
    ultimately show thesis
      using that [of ?d] le False by simp
  qed
qed


text \<open>References held by clients, beyond the one of the cache.\<close>

definition ext :: "'v LRUEntry \<Rightarrow> nat" where
  "ext e = l_refs e - (if l_in_cache e then 1 else 0)"

text \<open>
  What may happen to the entries behind the back of the clients: idle entries are deleted, each once,
  and their deleters called; all others stay, with their value and their external references.
\<close>

definition same_ent :: "'v LRUEntry \<Rightarrow> 'v LRUEntry \<Rightarrow> bool" where
  "same_ent e f \<longleftrightarrow> l_value f = l_value e \<and> l_key f = l_key e \<and> l_hash f = l_hash e \<and> l_charge f = l_charge e \<and>
     ext f = ext e \<and> (l_in_cache f \<longrightarrow> l_in_cache e)"

definition evolves_by :: "nat list \<Rightarrow> 'v LRUCache \<Rightarrow> 'v LRUCache \<Rightarrow> bool" where
  "evolves_by ks c d \<longleftrightarrow>
     next_handle d = next_handle c \<and> lru_capacity d = lru_capacity c \<and>
     (\<forall>k. entries c k = None \<longrightarrow> entries d k = None) \<and> distinct ks \<and>
     deleter_calls d = deleter_calls c @ map (\<lambda>k. (l_key (the (entries c k)), l_value (the (entries c k)))) ks \<and>
     (\<forall>k\<in>set ks. entries d k = None \<and> (\<exists>e. entries c k = Some e \<and> idle e)) \<and>
     (\<forall>k e. entries c k = Some e \<longrightarrow> k \<notin> set ks \<longrightarrow> (\<exists>f. entries d k = Some f \<and> same_ent e f))"

definition evolves :: "'v LRUCache \<Rightarrow> 'v LRUCache \<Rightarrow> bool" where
  "evolves c d \<longleftrightarrow> (\<exists>ks. evolves_by ks c d)"

lemma same_ent_refl [simp]: "same_ent e e"
  by (simp add: same_ent_def)

lemma same_ent_trans: "same_ent e f \<Longrightarrow> same_ent f g \<Longrightarrow> same_ent e g"
  by (simp add: same_ent_def)

lemma evolves_refl [simp]: "evolves c c"
  unfolding evolves_def by (rule exI [of _ "[]"]) (simp add: evolves_by_def)

lemma same_ent_idle: "same_ent e f \<Longrightarrow> idle f \<Longrightarrow> 0 < l_refs e \<Longrightarrow> idle e"
  by (auto simp: same_ent_def idle_def ext_def split: if_splits)

lemma evolves_by_trans:
  assumes cd: "evolves_by ks c d" and dx: "evolves_by js d x" and pos: "\<And>k e. entries c k = Some e \<Longrightarrow> 0 < l_refs e"
  shows "evolves_by (ks @ js) c x"
proof -
  have K: "entries d k = None \<and> (\<exists>e. entries c k = Some e \<and> idle e)" if "k \<in> set ks" for k
    using cd that by (simp add: evolves_by_def)
  have Ks: "\<exists>f. entries d k = Some f \<and> same_ent e f" if "entries c k = Some e" "k \<notin> set ks" for k e
    using cd that by (simp add: evolves_by_def)
  have N: "entries c k = None \<Longrightarrow> entries d k = None" "entries d k = None \<Longrightarrow> entries x k = None" for k
    using cd dx by (simp_all add: evolves_by_def)
  have J: "\<exists>e f. entries c k = Some e \<and> entries d k = Some f \<and> same_ent e f \<and> idle e \<and> k \<notin> set ks \<and> entries x k = None"
    if "k \<in> set js" for k
  proof -
    have "entries x k = None \<and> (\<exists>e. entries d k = Some e \<and> idle e)"
      using dx that by (simp add: evolves_by_def)
    then obtain f where f: "entries d k = Some f" "idle f" "entries x k = None" by blast
    then obtain e where e: "entries c k = Some e" using N(1) [of k] by (cases "entries c k") auto
    moreover have n: "k \<notin> set ks" using K [of k] f(1) by auto
    moreover have "same_ent e f" using Ks [OF e n] f(1) by simp
    ultimately show ?thesis using f same_ent_idle pos [OF e] by blast
  qed
  have "map (\<lambda>k. (l_key (the (entries d k)), l_value (the (entries d k)))) js =
    map (\<lambda>k. (l_key (the (entries c k)), l_value (the (entries c k)))) js"
  proof (rule map_cong [OF refl])
    fix k assume "k \<in> set js"
    then obtain e f where "entries c k = Some e" "entries d k = Some f" "same_ent e f" using J by blast
    then show "(l_key (the (entries d k)), l_value (the (entries d k))) = (l_key (the (entries c k)), l_value (the (entries c k)))"
      by (simp add: same_ent_def)
  qed
  then have log: "deleter_calls x = deleter_calls c @
      map (\<lambda>k. (l_key (the (entries c k)), l_value (the (entries c k)))) (ks @ js)"
    using cd dx by (simp add: evolves_by_def)
  have dist: "distinct (ks @ js)" using cd dx J by (auto simp: evolves_by_def)
  have gone: "entries x k = None \<and> (\<exists>e. entries c k = Some e \<and> idle e)" if "k \<in> set (ks @ js)" for k
    using that K [of k] J [of k] N(2) [of k] by auto
  have kept: "\<exists>g. entries x k = Some g \<and> same_ent e g" if e: "entries c k = Some e" "k \<notin> set (ks @ js)" for k e
  proof -
    obtain f where f: "entries d k = Some f" "same_ent e f" using Ks e by auto
    have "\<exists>g. entries x k = Some g \<and> same_ent f g" using dx e(2) f(1) by (simp add: evolves_by_def)
    then obtain g where "entries x k = Some g" "same_ent f g" by blast
    then show ?thesis using same_ent_trans [OF f(2)] by blast
  qed
  show ?thesis
    unfolding evolves_by_def
    using cd dx log dist gone kept N by (simp add: evolves_by_def)
qed

lemma evolves_trans:
  "evolves c d \<Longrightarrow> evolves d x \<Longrightarrow> (\<And>k e. entries c k = Some e \<Longrightarrow> 0 < l_refs e) \<Longrightarrow> evolves c x"
  unfolding evolves_def using evolves_by_trans by blast

text \<open>One cached entry leaves the table and the cache.\<close>

lemma lru_drop_ok:
  assumes inv: "lru_inv0 {} c" and e: "entries c h = Some e" "l_in_cache e"
  obtains t ent d where "Remove_key (table c) (l_key e) (l_hash e) = (t, Some ent)" "e_ptr ent = h"
    "lru_Remove (c\<lparr>table := t\<rparr>) h = Some d" "lru_inv0 {} d" "evolves c d"
    "\<forall>hk. ht_map (table d) hk = (if hk = l_tag e then None else ht_map (table c) hk)"
    "usage d + l_charge e = usage c" "lru d = removeAll h (lru c)"
    "\<forall>k. k \<noteq> h \<longrightarrow> entries d k = entries c k"
    "1 < l_refs e \<longrightarrow> entries d h = Some (e\<lparr>l_in_cache := False, l_refs := l_refs e - 1\<rparr>)"
proof -
  obtain t v where tv: "Remove_key (table c) (l_key e) (l_hash e) = (t, v)" by (cases "Remove_key (table c) (l_key e) (l_hash e)")
  have ht: "ht_inv (table c)" and tab: "\<And>hk k. ht_map (table c) hk = Some k \<longleftrightarrow>
      (\<exists>e. entries c k = Some e \<and> l_in_cache e \<and> l_tag e = hk)"
    using inv unfolding lru_inv0_def by (blast, simp only: empty_iff not_False_eq_True simp_thms)
  have "ht_map (table c) (l_hash e, l_key e) = Some h" using tab e by (auto simp: l_tag_def)
  then obtain ent where ent: "v = Some ent" "e_ptr ent = h"
    using Remove_key_ok [OF ht, of "l_key e" "l_hash e"] tv by (auto simp: ht_map_def)
  have m: "ht_map t = (ht_map (table c))(l_tag e := None)"
    using ht_map_Remove [OF ht, of "l_key e" "l_hash e"] tv by (simp add: l_tag_def)
  have "lru_inv0 {h} (c\<lparr>table := t\<rparr>)"
  proof -
    have "ht_inv t" using Remove_key_ok [OF ht, of "l_key e" "l_hash e"] tv by simp
    moreover have "ht_map t hk = Some k \<longleftrightarrow>
        (\<exists>f. entries c k = Some f \<and> l_in_cache f \<and> k \<noteq> h \<and> l_tag f = hk)" for hk k
    proof -
      have "k = h" if "entries c k = Some f" "l_in_cache f" "l_tag f = l_tag e" for f
        using tab [of "l_tag e" k] tab [of "l_tag e" h] that e by auto
      then show ?thesis using tab [of hk k] e unfolding m by auto
    qed
    ultimately show ?thesis using inv by (simp add: lru_inv0_def)
  qed
  then obtain d where d: "lru_Remove (c\<lparr>table := t\<rparr>) h = Some d" "lru_inv0 {} d"
    "usage d = usage c - l_charge e" "l_charge e \<le> usage c" "table d = t" "next_handle d = next_handle c"
    "lru_capacity d = lru_capacity c" "lru d = removeAll h (lru c)"
    "l_refs e = 1 \<Longrightarrow> entries d = (entries c)(h := None) \<and> deleter_calls d = deleter_calls c @ [(l_key e, l_value e)]"
    "1 < l_refs e \<Longrightarrow> entries d = (entries c)(h \<mapsto> e\<lparr>l_in_cache := False, l_refs := l_refs e - 1\<rparr>) \<and>
       deleter_calls d = deleter_calls c"
    using lru_Remove_ok [of h "c\<lparr>table := t\<rparr>" e] e by auto
  have refs: "0 < l_refs e" using inv e by (auto simp: lru_inv0_def)
  have "evolves c d"
  proof (cases "l_refs e = 1")
    case True
    then show ?thesis
      using d e unfolding evolves_def
      by (intro exI [of _ "[h]"]) (auto simp: evolves_by_def idle_def)
  next
    case False
    then have r: "1 < l_refs e" using refs by linarith
    have "same_ent e (e\<lparr>l_in_cache := False, l_refs := l_refs e - 1\<rparr>)"
      using e r by (simp add: same_ent_def ext_def)
    then show ?thesis
      using d(6,7) d(10) [OF r] e unfolding evolves_def
      by (intro exI [of _ "[]"]) (auto simp: evolves_by_def)
  qed
  moreover have "entries d k = entries c k" if "k \<noteq> h" for k
    using d(9,10) refs that by (cases "l_refs e = 1") auto
  ultimately show thesis
    using that [of t ent d] tv ent d m by auto
qed


lemma lru_inv0D:
  assumes "lru_inv0 {} c"
  shows "ht_inv (table c)"
    and "\<And>hk k. ht_map (table c) hk = Some k \<longleftrightarrow> (\<exists>e. entries c k = Some e \<and> l_in_cache e \<and> l_tag e = hk)"
    and "\<And>k e. entries c k = Some e \<Longrightarrow> 0 < l_refs e"
    and "\<And>k. k \<in> set (lru c) \<longleftrightarrow> (\<exists>e. entries c k = Some e \<and> idle e)"
    and "distinct (lru c)"
    and "\<And>k. next_handle c \<le> k \<Longrightarrow> entries c k = None"
  using assms unfolding lru_inv0_def
  by (blast, simp only: empty_iff not_False_eq_True simp_thms, blast, simp, blast, blast)

lemma evict_one_ok:
  assumes inv: "lru_inv0 {} c" and a: "a \<in> set (lru c)"
  obtains d where "evict_one c a = Some d" "lru_inv0 {} d" "evolves c d" "usage d \<le> usage c"
    "lru d = removeAll a (lru c)" "entries d = (entries c)(a := None)"
proof -
  obtain e where e: "entries c a = Some e" "l_in_cache e" "l_refs e = 1"
    using lru_inv0D(4) [OF inv] a by (auto simp: idle_def)
  obtain t ent d where d: "Remove_key (table c) (l_key e) (l_hash e) = (t, Some ent)" "e_ptr ent = a"
    "lru_Remove (c\<lparr>table := t\<rparr>) a = Some d" "lru_inv0 {} d" "evolves c d" "usage d + l_charge e = usage c"
    "lru d = removeAll a (lru c)" "\<forall>k. k \<noteq> a \<longrightarrow> entries d k = entries c k"
    by (rule lru_drop_ok [OF inv e(1,2)])
  have "evict_one c a = Some d" using e d by (simp add: evict_one_def)
  moreover have "entries d a = None"
    using d(3) e by (auto simp: lru_Remove_def Unref_def Let_def LRU_Remove_def)
  then have "entries d = (entries c)(a := None)" using d(8) by auto
  ultimately show thesis using that d by (metis le_add1)
qed

lemma evict_loop_ok:
  "lru_inv0 {} c \<Longrightarrow> \<exists>d n. evict_loop c = Some d \<and> lru_inv0 {} d \<and> evolves c d \<and> usage d \<le> usage c \<and>
     (usage d \<le> lru_capacity c \<or> lru d = []) \<and> lru d = drop n (lru c) \<and>
     (\<forall>k e. entries c k = Some e \<longrightarrow> \<not> idle e \<longrightarrow> entries d k = Some e)"
proof (induction c rule: evict_loop.induct)
  case (1 c)
  show ?case
  proof (cases "lru_capacity c < usage c \<and> lru c \<noteq> []")
    case False
    then have "evict_loop c = Some c" by (subst evict_loop.simps) (auto split: list.split)
    then show ?thesis using False "1.prems" by (intro exI [of _ c] exI [of _ 0]) auto
  next
    case True
    then obtain a x where l: "lru c = a # x" by (cases "lru c") auto
    obtain d where d: "evict_one c a = Some d" "lru_inv0 {} d" "evolves c d" "usage d \<le> usage c"
      "lru d = removeAll a (lru c)" "entries d = (entries c)(a := None)"
      using evict_one_ok [OF "1.prems", of a] l by auto
    have ld: "lru d = x" using d(5) l lru_inv0D(5) [OF "1.prems"] by (simp add: removeAll_id)
    obtain x' n where x': "evict_loop d = Some x'" "lru_inv0 {} x'" "evolves d x'" "usage x' \<le> usage d"
      "usage x' \<le> lru_capacity d \<or> lru x' = []" "lru x' = drop n (lru d)"
      "\<And>k e. entries d k = Some e \<Longrightarrow> \<not> idle e \<Longrightarrow> entries x' k = Some e"
      using "1.IH" [OF conjunct1 [OF True] l d(1,2)] by blast
    have "evict_loop c = Some x'" using True l d(1) x'(1) by (subst evict_loop.simps) simp
    moreover have "evolves c x'" using evolves_trans [OF d(3) x'(3)] lru_inv0D(3) [OF "1.prems"] by blast
    moreover have "lru_capacity d = lru_capacity c" using d(3) by (auto simp: evolves_def evolves_by_def)
    moreover have "entries x' k = Some e" if "entries c k = Some e" "\<not> idle e" for k e
    proof -
      have "k \<noteq> a" using that lru_inv0D(4) [OF "1.prems", of a] l by auto
      then show ?thesis using x'(7) [of k e] d(6) that by simp
    qed
    ultimately show ?thesis
      using x' d(4) ld l by (intro exI [of _ x'] exI [of _ "Suc n"]) auto
  qed
qed

lemma lru_Prune_ok:
  "lru_inv0 {} c \<Longrightarrow> \<exists>d. lru_Prune c = Some d \<and> lru_inv0 {} d \<and> evolves c d \<and> lru d = [] \<and> usage d \<le> usage c"
proof (induction c rule: lru_Prune.induct)
  case (1 c)
  show ?case
  proof (cases "lru c")
    case Nil
    then show ?thesis using "1.prems" by (intro exI [of _ c]) (simp add: lru_Prune.simps [of c])
  next
    case (Cons a x)
    obtain d where d: "evict_one c a = Some d" "lru_inv0 {} d" "evolves c d" "usage d \<le> usage c"
      using evict_one_ok [OF "1.prems", of a] Cons by auto
    obtain x' where x': "lru_Prune d = Some x'" "lru_inv0 {} x'" "evolves d x'" "lru x' = []" "usage x' \<le> usage d"
      using "1.IH" [OF Cons d(1,2)] by blast
    have "evolves c x'" using evolves_trans [OF d(3) x'(3)] lru_inv0D(3) [OF "1.prems"] by blast
    then show ?thesis using x' d Cons by (intro exI [of _ x']) (simp add: lru_Prune.simps [of c])
  qed
qed

section \<open>References\<close>

lemma evolves_capacity: "evolves c d \<Longrightarrow> lru_capacity d = lru_capacity c"
  by (auto simp: evolves_def evolves_by_def)

lemma lru_Ref_ok:
  assumes inv: "lru_inv c" and e: "entries c h = Some e"
  obtains d where "lru_Ref c h = Some d" "lru_inv d" "entries d = (entries c)(h \<mapsto> e\<lparr>l_refs := l_refs e + 1\<rparr>)"
    "table d = table c" "next_handle d = next_handle c" "deleter_calls d = deleter_calls c"
    "lru_capacity d = lru_capacity c"
proof -
  have inv0: "lru_inv0 {} c" using inv by (simp add: lru_inv_def)
  have refs: "0 < l_refs e" using lru_inv0D(3) [OF inv0 e] .
  have hn: "h < next_handle c" using live_less [OF inv0 e] .
  let ?e = "e\<lparr>l_refs := l_refs e + 1\<rparr>"
  have use: "charges l_in_cache (next_handle c) ((entries c)(h \<mapsto> ?e)) = usage c"
    using charges_upd [OF hn, of l_in_cache "entries c" "Some ?e"] e inv0 by (auto simp: lru_inv0_def split: if_splits)
  have tot: "charges (\<lambda>_. True) (next_handle c) ((entries c)(h \<mapsto> ?e)) = total_usage c"
    using charges_upd [OF hn, of "\<lambda>_. True" "entries c" "Some ?e"] e inv0 by (auto simp: lru_inv0_def)
  have tab: "(\<exists>f. ((entries c)(h \<mapsto> ?e)) k = Some f \<and> l_in_cache f \<and> l_tag f = hk) \<longleftrightarrow>
      (\<exists>f. entries c k = Some f \<and> l_in_cache f \<and> l_tag f = hk)" for k hk
    using e by (auto simp: l_tag_def)
  obtain d where d: "lru_Ref c h = Some d" "entries d = (entries c)(h \<mapsto> ?e)" "table d = table c"
    "next_handle d = next_handle c" "deleter_calls d = deleter_calls c" "lru_capacity d = lru_capacity c"
    "usage d = usage c" "total_usage d = total_usage c"
    "in_use d = (if idle e then removeAll h (in_use c) @ [h] else in_use c)"
    "lru d = (if idle e then removeAll h (lru c) else lru c)"
  proof -
    let ?c = "if idle e then (LRU_Remove c h)\<lparr>in_use := removeAll h (in_use c) @ [h]\<rparr> else c"
    show thesis
      by (rule that [of "?c\<lparr>entries := (entries c)(h \<mapsto> ?e)\<rparr>"])
        (use e in \<open>auto simp: lru_Ref_def LRU_Remove_def Let_def idle_def\<close>)
  qed
  have lists: "set (in_use c) = {k. \<exists>f. entries c k = Some f \<and> \<not> idle f}" "distinct (in_use c)"
    "set (lru c) = {k. \<exists>f. entries c k = Some f \<and> idle f}" "distinct (lru c)"
    using inv0 by (simp_all add: lru_inv0_def)
  have "\<not> idle ?e" using refs by (simp add: idle_def)
  then have "set (in_use d) = {k. \<exists>f. entries d k = Some f \<and> \<not> idle f}" "distinct (in_use d)"
    "set (lru d) = {k. \<exists>f. entries d k = Some f \<and> idle f}" "distinct (lru d)"
    using lists e by (auto simp: d distinct_removeAll)
  moreover have "\<forall>k f. entries d k = Some f \<longrightarrow> 0 < l_refs f" using lru_inv0D(3) [OF inv0] d(2) by auto
  ultimately have "lru_inv0 {} d"
    using inv0 use tot tab e unfolding lru_inv0_def by (simp add: d hn not_le)
  then show thesis using that [of d] d inv by (simp add: lru_inv_def)
qed

text \<open>A client may release a handle it holds a reference to.\<close>

lemma lru_Release_ok:
  assumes inv: "lru_inv c" and e: "entries c h = Some e" "0 < ext e"
  obtains d where "lru_Release c h = Some d" "lru_inv d" "table d = table c" "next_handle d = next_handle c"
    "lru_capacity d = lru_capacity c"
    "if l_refs e = 1 then entries d = (entries c)(h := None) \<and> deleter_calls d = deleter_calls c @ [(l_key e, l_value e)]
     else entries d = (entries c)(h \<mapsto> e\<lparr>l_refs := l_refs e - 1\<rparr>) \<and> deleter_calls d = deleter_calls c"
proof -
  have inv0: "lru_inv0 {} c" using inv by (simp add: lru_inv_def)
  have refs: "0 < l_refs e" using lru_inv0D(3) [OF inv0 e(1)] .
  have hn: "h < next_handle c" using live_less [OF inv0 e(1)] .
  have ni: "\<not> idle e" using e(2) by (auto simp: ext_def idle_def)
  have lists: "set (in_use c) = {k. \<exists>f. entries c k = Some f \<and> \<not> idle f}" "distinct (in_use c)"
    "set (lru c) = {k. \<exists>f. entries c k = Some f \<and> idle f}" "distinct (lru c)"
    using inv0 by (simp_all add: lru_inv0_def)
  show thesis
  proof (cases "l_refs e = 1")
    case True
    then have nc: "\<not> l_in_cache e" using e(2) by (auto simp: ext_def split: if_splits)
    have use: "charges l_in_cache (next_handle c) ((entries c)(h := None)) = usage c"
      using charges_upd [OF hn, of l_in_cache "entries c" None] e nc inv0 by (simp add: lru_inv0_def)
    have tot: "charges (\<lambda>_. True) (next_handle c) ((entries c)(h := None)) = total_usage c - l_charge e"
      using charges_upd [OF hn, of "\<lambda>_. True" "entries c" None] e inv0 by (simp add: lru_inv0_def)
    have tab: "(\<exists>f. ((entries c)(h := None)) k = Some f \<and> l_in_cache f \<and> l_tag f = hk) \<longleftrightarrow>
        (\<exists>f. entries c k = Some f \<and> l_in_cache f \<and> l_tag f = hk)" for k hk
      using e nc by auto
    have "lru_Release c h = Some (dropped c h e)"
      using e True nc by (simp add: lru_Release_def Unref_def LRU_Remove_def dropped_def Let_def)
    moreover have "set (in_use (dropped c h e)) = {k. \<exists>f. entries (dropped c h e) k = Some f \<and> \<not> idle f}"
      "set (lru (dropped c h e)) = {k. \<exists>f. entries (dropped c h e) k = Some f \<and> idle f}"
      using lists by (auto simp: dropped_def)
    then have "lru_inv0 {} (dropped c h e)"
      using inv0 use tot tab lists unfolding lru_inv0_def by (simp add: dropped_def distinct_removeAll)
    ultimately show thesis
      using that [of "dropped c h e"] inv True by (simp add: dropped_def lru_inv_def)
  next
    case False
    let ?e = "e\<lparr>l_refs := l_refs e - 1\<rparr>"
    have use: "charges l_in_cache (next_handle c) ((entries c)(h \<mapsto> ?e)) = usage c"
      using charges_upd [OF hn, of l_in_cache "entries c" "Some ?e"] e inv0 by (auto simp: lru_inv0_def split: if_splits)
    have tot: "charges (\<lambda>_. True) (next_handle c) ((entries c)(h \<mapsto> ?e)) = total_usage c"
      using charges_upd [OF hn, of "\<lambda>_. True" "entries c" "Some ?e"] e inv0 by (auto simp: lru_inv0_def)
    have tab: "(\<exists>f. ((entries c)(h \<mapsto> ?e)) k = Some f \<and> l_in_cache f \<and> l_tag f = hk) \<longleftrightarrow>
        (\<exists>f. entries c k = Some f \<and> l_in_cache f \<and> l_tag f = hk)" for k hk
      using e by (auto simp: l_tag_def)
    obtain d where d: "lru_Release c h = Some d" "entries d = (entries c)(h \<mapsto> ?e)" "table d = table c"
      "next_handle d = next_handle c" "deleter_calls d = deleter_calls c" "lru_capacity d = lru_capacity c"
      "usage d = usage c" "total_usage d = total_usage c"
      "in_use d = (if idle ?e then removeAll h (in_use c) else in_use c)"
      "lru d = (if idle ?e then removeAll h (lru c) @ [h] else lru c)"
    proof -
      let ?c = "if idle ?e then (LRU_Remove c h)\<lparr>lru := removeAll h (lru c) @ [h]\<rparr> else c"
      show thesis
        by (rule that [of "?c\<lparr>entries := (entries c)(h \<mapsto> ?e)\<rparr>"])
          (use e False refs in \<open>auto simp: lru_Release_def Unref_def LRU_Remove_def Let_def idle_def\<close>)
    qed
    have "set (in_use d) = {k. \<exists>f. entries d k = Some f \<and> \<not> idle f}" "distinct (in_use d)"
      "set (lru d) = {k. \<exists>f. entries d k = Some f \<and> idle f}" "distinct (lru d)"
      using lists e ni by (auto simp: d distinct_removeAll)
    moreover have "\<forall>k f. entries d k = Some f \<longrightarrow> 0 < l_refs f"
      using lru_inv0D(3) [OF inv0] d(2) False refs by auto
    ultimately have "lru_inv0 {} d"
      using inv0 use tot tab unfolding lru_inv0_def by (simp add: d hn not_le)
    then show thesis using that [of d] d inv False by (simp add: lru_inv_def)
  qed
qed


section \<open>Insertion\<close>

lemma evolves_swap:
  assumes "evolves c d" and "entries d h = Some f"
  shows "evolves (c\<lparr>entries := (entries c)(h \<mapsto> f)\<rparr>) d"
proof -
  obtain ks where ks: "evolves_by ks c d" using assms(1) by (auto simp: evolves_def)
  have "h \<notin> set ks" using ks assms(2) by (auto simp: evolves_by_def)
  then have "evolves_by ks (c\<lparr>entries := (entries c)(h \<mapsto> f)\<rparr>) d"
    using ks assms(2) by (auto simp: evolves_by_def)
  then show ?thesis by (auto simp: evolves_def)
qed

lemma lru_Insert_ok:
  assumes inv: "lru_inv c"
  obtains d h e where "lru_Insert c key hash v charge = Some (d, h)" "h = next_handle c" "lru_inv d"
    "next_handle d = Suc h" "lru_capacity d = lru_capacity c"
    "entries d h = Some e" "l_value e = v" "l_key e = key" "l_hash e = hash" "ext e = 1"
    "evolves (c\<lparr>next_handle := Suc h, entries := (entries c)(h \<mapsto> e)\<rparr>) d"
    "usage c + charge \<le> lru_capacity c \<Longrightarrow> lru_capacity c \<noteq> 0 \<Longrightarrow> ht_map (table d) (hash, key) = Some h"
proof -
  have inv0: "lru_inv0 {} c" and cap: "usage c \<le> lru_capacity c" using inv by (simp_all add: lru_inv_def)
  let ?h = "next_handle c"
  let ?e1 = "\<lparr>l_value = v, l_key = key, l_hash = hash, l_charge = charge, l_refs = 1, l_in_cache = False\<rparr>"
  let ?e = "?e1\<lparr>l_refs := 2, l_in_cache := True\<rparr>"
  have new: "entries c ?h = None" using lru_inv0D(6) [OF inv0] by simp
  have use: "charges l_in_cache (Suc ?h) ((entries c)(?h \<mapsto> f)) = usage c + (if l_in_cache f then l_charge f else 0)" for f
    using charges_new [of l_in_cache ?h "entries c" "Some f"] inv0 by (simp add: lru_inv0_def)
  have tot: "charges (\<lambda>_. True) (Suc ?h) ((entries c)(?h \<mapsto> f)) = total_usage c + l_charge f" for f
    using charges_new [of "\<lambda>_. True" ?h "entries c" "Some f"] inv0 by (simp add: lru_inv0_def)
  have lists: "set (in_use c) = {k. \<exists>f. entries c k = Some f \<and> \<not> idle f}" "distinct (in_use c)"
    "set (lru c) = {k. \<exists>f. entries c k = Some f \<and> idle f}" "distinct (lru c)"
    using inv0 by (simp_all add: lru_inv0_def)
  have pos: "0 < l_refs f" if "entries c k = Some f" for k f using lru_inv0D(3) [OF inv0 that] .
  let ?c1 = "c\<lparr>next_handle := Suc ?h, in_use := in_use c @ [?h], total_usage := total_usage c + charge,
      entries := (entries c)(?h \<mapsto> ?e1)\<rparr>"
  show thesis
  proof (cases "lru_capacity c = 0")
    case True
    have "lru_Insert c key hash v charge = Some (?c1, ?h)" using True by (simp add: lru_Insert_def Let_def)
    moreover have "(\<exists>f. ((entries c)(?h \<mapsto> ?e1)) k = Some f \<and> l_in_cache f \<and> l_tag f = hk) \<longleftrightarrow>
        (\<exists>f. entries c k = Some f \<and> l_in_cache f \<and> l_tag f = hk)" for k hk using new by auto
    then have "lru_inv0 {} ?c1"
      using inv0 use [of ?e1] tot [of ?e1] lists new pos lru_inv0D(6) [OF inv0] unfolding lru_inv0_def
      by (auto simp: idle_def)
    moreover have "evolves (c\<lparr>next_handle := Suc ?h, entries := (entries c)(?h \<mapsto> ?e1)\<rparr>) ?c1"
      unfolding evolves_def by (rule exI [of _ "[]"]) (auto simp: evolves_by_def)
    ultimately show thesis
      using that [of ?c1 ?h ?e1] True cap by (simp add: lru_inv_def ext_def)
  next
    case False
    let ?c2 = "?c1\<lparr>entries := (entries c)(?h \<mapsto> ?e), usage := usage c + charge\<rparr>"
    let ?E = "\<lparr>e_hash = hash, e_key = key, e_ptr = ?h\<rparr>"
    have ht: "ht_inv (table c)" using lru_inv0D(1) [OF inv0] .
    obtain t o1 where t: "HashTable_Insert (table c) ?E = (t, o1)" by (cases "HashTable_Insert (table c) ?E")
    note I = HashTable_Insert_ok [OF ht, of ?E, unfolded t, simplified]
    have tm: "ht_map t = (ht_map (table c))((hash, key) \<mapsto> ?h)"
      using ht_map_Insert [OF ht, of ?E] t by (simp add: tag_def)
    let ?c3 = "?c2\<lparr>table := t\<rparr>"
    let ?X = "set_option (map_option e_ptr o1)"
    have o1: "map_option e_ptr o1 = ht_map (table c) (hash, key)" using I by (simp add: ht_map_def)
    have tab: "ht_map t hk = Some k \<longleftrightarrow>
        (\<exists>f. ((entries c)(?h \<mapsto> ?e)) k = Some f \<and> l_in_cache f \<and> k \<notin> ?X \<and> l_tag f = hk)" for hk k
    proof (cases "k = ?h")
      case True
      have "ht_map (table c) hk \<noteq> Some ?h" for hk using lru_inv0D(2) [OF inv0, of hk ?h] new by simp
      then show ?thesis using True o1 by (auto simp: tm l_tag_def)
    next
      case kn: False
      have "l_tag f \<noteq> (hash, key)" if "k \<notin> ?X" "entries c k = Some f" "l_in_cache f" for f
        using that lru_inv0D(2) [OF inv0, of "(hash, key)" k] unfolding o1 by auto
      moreover have "k \<in> ?X \<Longrightarrow> ht_map (table c) (hash, key) = Some k" unfolding o1 by auto
      ultimately show ?thesis
        using kn lru_inv0D(2) [OF inv0, of hk k] lru_inv0D(2) [OF inv0, of "(hash, key)" k] unfolding tm by auto
    qed
    have inv3: "lru_inv0 ?X ?c3"
      using inv0 use [of ?e] tot [of ?e] lists new pos lru_inv0D(6) [OF inv0] tab I unfolding lru_inv0_def
      by (auto simp: idle_def)
    have ev3: "evolves (c\<lparr>next_handle := Suc ?h, entries := (entries c)(?h \<mapsto> ?e)\<rparr>) ?c3"
      unfolding evolves_def by (rule exI [of _ "[]"]) (auto simp: evolves_by_def)
    note caps = evolves_capacity
    obtain d4 where d4: "(case o1 of None \<Rightarrow> Some ?c3 | Some o1 \<Rightarrow> lru_Remove ?c3 (e_ptr o1)) = Some d4"
      "lru_inv0 {} d4" "evolves ?c3 d4" "usage d4 \<le> usage c + charge" "entries d4 ?h = Some ?e"
    proof (cases o1)
      case None
      then show thesis using that [of ?c3] inv3 by simp
    next
      case (Some oe)
      let ?k = "e_ptr oe"
      have "ht_map (table c) (hash, key) = Some ?k" using o1 Some by simp
      then obtain f where f: "entries c ?k = Some f" "l_in_cache f" using lru_inv0D(2) [OF inv0] by blast
      then have kn: "?k \<noteq> ?h" using new by auto
      have inv3': "lru_inv0 {?k} ?c3" using inv3 Some by simp
      have f3: "entries ?c3 ?k = Some f" using f kn by simp
      obtain d where d: "lru_Remove ?c3 ?k = Some d" "lru_inv0 {} d" "usage d = usage ?c3 - l_charge f"
        "next_handle d = next_handle ?c3" "lru_capacity d = lru_capacity ?c3"
        "l_refs f = 1 \<Longrightarrow> entries d = (entries ?c3)(?k := None) \<and> deleter_calls d = deleter_calls ?c3 @ [(l_key f, l_value f)]"
        "1 < l_refs f \<Longrightarrow> entries d = (entries ?c3)(?k \<mapsto> f\<lparr>l_in_cache := False, l_refs := l_refs f - 1\<rparr>) \<and>
           deleter_calls d = deleter_calls ?c3"
        using lru_Remove_ok [OF inv3' f3 f(2)] by metis
      have "0 < l_refs f" using pos f(1) .
      then consider "l_refs f = 1" | "1 < l_refs f" by linarith
      then have "evolves ?c3 d \<and> entries d ?h = Some ?e"
      proof cases
        case 1
        then show ?thesis using d(4,5) d(6) [OF 1] f kn
          by (auto simp: evolves_def evolves_by_def idle_def intro!: exI [of _ "[?k]"])
      next
        case 2
        have "same_ent f (f\<lparr>l_in_cache := False, l_refs := l_refs f - 1\<rparr>)" using f 2 by (simp add: same_ent_def ext_def)
        then show ?thesis using d(4,5) d(7) [OF 2] f kn
          by (auto simp: evolves_def evolves_by_def intro!: exI [of _ "[]"])
      qed
      then show thesis using that [of d] d(1,2,3) Some by simp
    qed
    obtain d5 where d5: "evict_loop d4 = Some d5" "lru_inv0 {} d5" "evolves d4 d5" "usage d5 \<le> usage d4"
      "usage d5 \<le> lru_capacity d4 \<or> lru d5 = []" "entries d5 ?h = Some ?e"
      using evict_loop_ok [OF d4(2)] d4(5) by (force simp: idle_def)
    have cap5: "lru_capacity d5 = lru_capacity c" using caps [OF d5(3)] caps [OF d4(3)] by simp
    let ?c0 = "c\<lparr>next_handle := Suc ?h, entries := (entries c)(?h \<mapsto> ?e)\<rparr>"
    have p0: "0 < l_refs f" if "entries ?c0 k = Some f" for k f using that pos by (auto split: if_splits)
    have ev5: "evolves ?c0 d5"
      using evolves_trans [OF evolves_trans [OF ev3 d4(3) p0] d5(3) p0] by simp
    have n5: "next_handle d5 = Suc ?h" using ev5 by (auto simp: evolves_def evolves_by_def)
    have step: "lru_Insert c key hash v charge = (if lru_capacity d5 < usage d5 then
        (case Remove_key (table d5) key hash of (t, victim) \<Rightarrow>
           if map_option e_ptr victim = Some ?h
           then map_option (\<lambda>c. (c, ?h)) (lru_Remove (d5\<lparr>table := t\<rparr>) ?h) else None)
        else Some (d5, ?h))"
      using False t d4(1) d5(1) by (cases o1) (simp_all add: lru_Insert_def Let_def)
    show thesis
    proof (cases "lru_capacity d5 < usage d5")
      case fits: False
      have "ht_map (table d5) (hash, key) = Some ?h"
        using lru_inv0D(2) [OF d5(2), of "(hash, key)" ?h] d5(6) by (simp add: l_tag_def)
      then show thesis
        using that [of d5 ?h ?e] step fits d5 cap5 n5 ev5 by (simp add: lru_inv_def ext_def)
    next
      case over: True
      have ic: "l_in_cache ?e" and r2: "1 < l_refs ?e" by simp_all
      obtain t' ent d where d: "Remove_key (table d5) (l_key ?e) (l_hash ?e) = (t', Some ent)" "e_ptr ent = ?h"
        "lru_Remove (d5\<lparr>table := t'\<rparr>) ?h = Some d" "lru_inv0 {} d" "evolves d5 d"
        "\<forall>hk. ht_map (table d) hk = (if hk = l_tag ?e then None else ht_map (table d5) hk)"
        "usage d + l_charge ?e = usage d5" "lru d = removeAll ?h (lru d5)"
        "\<forall>k. k \<noteq> ?h \<longrightarrow> entries d k = entries d5 k"
        "1 < l_refs ?e \<longrightarrow> entries d ?h = Some (?e\<lparr>l_in_cache := False, l_refs := l_refs ?e - 1\<rparr>)"
        by (rule lru_drop_ok [OF d5(2,6) ic])
      note dh = d(10) [THEN mp, OF r2]
      let ?f = "?e\<lparr>l_in_cache := False, l_refs := l_refs ?e - 1\<rparr>"
      have "usage d \<le> usage c" using d(7) d5(4) d4(4) by simp
      then have "lru_inv d" using d(4) caps [OF d(5)] cap5 cap by (simp add: lru_inv_def)
      moreover have "evolves (c\<lparr>next_handle := Suc ?h, entries := (entries c)(?h \<mapsto> ?f)\<rparr>) d"
        using evolves_swap [OF evolves_trans [OF ev5 d(5) p0] dh] by simp
      moreover have "next_handle d = Suc ?h" using d(5) n5 by (auto simp: evolves_def evolves_by_def)
      ultimately show thesis
        using that [of d ?h ?f] step over d(1,2,3) dh d5(4) d4(4) cap5 caps [OF d(5)] by (simp add: ext_def)
    qed
  qed
qed


section \<open>Lookup and erasure\<close>

lemma lru_Lookup_ok:
  assumes inv: "lru_inv c"
  shows "case ht_map (table c) (hash, key) of
      None \<Rightarrow> lru_Lookup c key hash = Some (c, None)
    | Some h \<Rightarrow> \<exists>d e. entries c h = Some e \<and> l_in_cache e \<and> l_tag e = (hash, key) \<and>
        lru_Lookup c key hash = Some (d, Some h) \<and> lru_inv d \<and>
        entries d = (entries c)(h \<mapsto> e\<lparr>l_refs := l_refs e + 1\<rparr>) \<and> table d = table c \<and>
        next_handle d = next_handle c \<and> deleter_calls d = deleter_calls c \<and> lru_capacity d = lru_capacity c"
proof (cases "ht_lookup (table c) key hash")
  case None
  then show ?thesis by (simp add: ht_map_def lru_Lookup_def)
next
  case (Some ent)
  then have m: "ht_map (table c) (hash, key) = Some (e_ptr ent)" by (simp add: ht_map_def)
  have "lru_inv0 {} c" using inv by (simp add: lru_inv_def)
  from lru_inv0D(2) [OF this] m obtain e where
    e: "entries c (e_ptr ent) = Some e" "l_in_cache e" "l_tag e = (hash, key)" by blast
  obtain d where "lru_Ref c (e_ptr ent) = Some d" "lru_inv d"
    "entries d = (entries c)(e_ptr ent \<mapsto> e\<lparr>l_refs := l_refs e + 1\<rparr>)" "table d = table c"
    "next_handle d = next_handle c" "deleter_calls d = deleter_calls c" "lru_capacity d = lru_capacity c"
    by (rule lru_Ref_ok [OF inv e(1)])
  then show ?thesis using Some m e by (simp add: lru_Lookup_def)
qed

lemma lru_Erase_ok:
  assumes inv: "lru_inv c"
  obtains d where "lru_Erase c key hash = Some d" "lru_inv d" "evolves c d"
    "ht_map (table d) = (ht_map (table c))((hash, key) := None)"
proof -
  have inv0: "lru_inv0 {} c" using inv by (simp add: lru_inv_def)
  note R = Remove_key_ok [OF lru_inv0D(1) [OF inv0], of key hash]
  show thesis
  proof (cases "ht_lookup (table c) key hash")
    case None
    obtain t v where tv: "Remove_key (table c) key hash = (t, v)" by (cases "Remove_key (table c) key hash")
    then have "v = None" using R None by simp
    moreover have "ht_map (table c) (hash, key) = None" using None by (simp add: ht_map_def)
    ultimately show thesis
      using that [of c] inv tv by (simp add: lru_Erase_def fun_upd_idem)
  next
    case (Some ent)
    then have "ht_map (table c) (hash, key) = Some (e_ptr ent)" by (simp add: ht_map_def)
    from this lru_inv0D(2) [OF inv0] obtain e where
      e: "entries c (e_ptr ent) = Some e" "l_in_cache e" "l_tag e = (hash, key)" by blast
    obtain t ent' d where d: "Remove_key (table c) (l_key e) (l_hash e) = (t, Some ent')" "e_ptr ent' = e_ptr ent"
      "lru_Remove (c\<lparr>table := t\<rparr>) (e_ptr ent) = Some d" "lru_inv0 {} d" "evolves c d"
      "\<forall>hk. ht_map (table d) hk = (if hk = l_tag e then None else ht_map (table c) hk)"
      "usage d + l_charge e = usage c"
      by (rule lru_drop_ok [OF inv0 e(1,2)])
    have "lru_Erase c key hash = Some d" using d(1,2,3) e(3) by (simp add: lru_Erase_def l_tag_def)
    moreover have "lru_inv d" using d(4,5,7) inv evolves_capacity [OF d(5)] by (simp add: lru_inv_def)
    moreover have "ht_map (table d) = (ht_map (table c))((hash, key) := None)"
      using d(6) e(3) by (simp add: fun_eq_iff)
    ultimately show thesis using that d(5) by blast
  qed
qed

lemma new_LRUCache_inv: "lru_inv (new_LRUCache n)"
  by (simp add: lru_inv_def lru_inv0_def new_LRUCache_def new_HashTable_ok ht_map_new charges_def)

section \<open>Properties\<close>



text \<open>
  C29. Insertion, as the client sees it: it gets a new handle to its key and value, with one reference
  of its own; if the charge fits within the capacity the key is then found in the cache. Of the other
  entries only idle ones are deleted, each exactly once and each with one call of its deleter, in the
  order of eviction; an entry a client holds a reference to is never deleted, and keeps its value and
  its references.
\<close>

theorem lru_Insert_contract:
  assumes "lru_inv c"
  shows "\<exists>d h e ks. lru_Insert c key hash v charge = Some (d, h) \<and> entries c h = None \<and> entries d h = Some e \<and>
    l_value e = v \<and> l_key e = key \<and> l_hash e = hash \<and> ext e = 1 \<and>
    (usage c + charge \<le> lru_capacity c \<and> lru_capacity c \<noteq> 0 \<longrightarrow>
       (\<exists>d'. lru_Lookup d key hash = Some (d', Some h))) \<and>
    distinct ks \<and> set ks = {k. entries c k \<noteq> None \<and> entries d k = None} \<and>
    deleter_calls d = deleter_calls c @ map (\<lambda>k. (l_key (the (entries c k)), l_value (the (entries c k)))) ks \<and>
    (\<forall>k f. entries c k = Some f \<and> 0 < ext f \<longrightarrow>
       (\<exists>g. entries d k = Some g \<and> l_value g = l_value f \<and> l_key g = l_key f \<and> ext g = ext f))"
proof -
  have inv0: "lru_inv0 {} c" using assms by (simp add: lru_inv_def)
  obtain d h e where d: "lru_Insert c key hash v charge = Some (d, h)" "h = next_handle c" "lru_inv d"
    "next_handle d = Suc h" "lru_capacity d = lru_capacity c"
    "entries d h = Some e" "l_value e = v" "l_key e = key" "l_hash e = hash" "ext e = 1"
    "evolves (c\<lparr>next_handle := Suc h, entries := (entries c)(h \<mapsto> e)\<rparr>) d"
    "usage c + charge \<le> lru_capacity c \<Longrightarrow> lru_capacity c \<noteq> 0 \<Longrightarrow> ht_map (table d) (hash, key) = Some h"
    using lru_Insert_ok [OF assms, of key hash v charge] by blast
  let ?c0 = "c\<lparr>next_handle := Suc h, entries := (entries c)(h \<mapsto> e)\<rparr>"
  have new: "entries c h = None" using lru_inv0D(6) [OF inv0] d(2) by simp
  obtain ks where ks: "evolves_by ks ?c0 d" using d(11) by (auto simp: evolves_def)
  have hk: "h \<notin> set ks" using ks d(6) by (auto simp: evolves_by_def)
  have gone: "entries d k = None \<and> (\<exists>f. entries c k = Some f \<and> idle f)" if "k \<in> set ks" for k
    using ks that hk by (auto simp: evolves_by_def split: if_splits)
  have kept: "\<exists>g. entries d k = Some g \<and> same_ent f g" if "entries c k = Some f" "k \<notin> set ks" for k f
    using ks that new by (auto simp: evolves_by_def split: if_splits)
  have "set ks = {k. entries c k \<noteq> None \<and> entries d k = None}"
    using gone kept by (fastforce simp: not_None_eq)
  moreover have "map (\<lambda>k. (l_key (the (entries ?c0 k)), l_value (the (entries ?c0 k)))) ks =
      map (\<lambda>k. (l_key (the (entries c k)), l_value (the (entries c k)))) ks"
    using hk by (intro map_cong) auto
  then have "deleter_calls d = deleter_calls c @ map (\<lambda>k. (l_key (the (entries c k)), l_value (the (entries c k)))) ks"
    using ks by (simp add: evolves_by_def)
  moreover have "\<exists>g. entries d k = Some g \<and> l_value g = l_value f \<and> l_key g = l_key f \<and> ext g = ext f"
    if f: "entries c k = Some f" "0 < ext f" for k f
  proof -
    have "k \<notin> set ks" using gone [of k] f by (auto simp: idle_def ext_def)
    then show ?thesis using kept [OF f(1)] by (auto simp: same_ent_def)
  qed
  moreover have "distinct ks" using ks by (simp add: evolves_by_def)
  moreover have "\<exists>d'. lru_Lookup d key hash = Some (d', Some h)"
    if "usage c + charge \<le> lru_capacity c \<and> lru_capacity c \<noteq> 0"
    using lru_Lookup_ok [OF d(3), where hash = hash and key = key] d(12) that by auto
  ultimately show ?thesis
    using d(1,6-10) new by (intro exI [of _ d] exI [of _ h] exI [of _ e] exI [of _ ks]) blast
qed

lemma lru_Insert_contract_witness:
  "\<exists>d h e. lru_Insert (new_LRUCache 1) [1] 7 (9 :: nat) 1 = Some (d, h) \<and> entries d h = Some e \<and> l_value e = 9 \<and> ext e = 1"
  using lru_Insert_contract [OF new_LRUCache_inv, where key = "[1]" and hash = 7 and v = 9 and charge = 1] by blast

end
