(* ===== verification/Hashing.thy ===== *)
theory Hashing
  imports Coding
begin

text \<open>
  The hash functions of the sources: \<^verbatim>\<open>Hash\<close> of \<^verbatim>\<open>hash.cc\<close>, used for hash tables, caches and the
  name subsets of a directory, and the one-shot \<^verbatim>\<open>XXH32\<close> and \<^verbatim>\<open>XXH64\<close> of \<^verbatim>\<open>xxhash.c\<close> behind
  \<^verbatim>\<open>xxhash32\<close> and \<^verbatim>\<open>xxhash64\<close>, used to place directories and names on servers. The unrolled
  tails of xxhash (a \<^verbatim>\<open>switch\<close> on the remaining length with fall-through) are written as what they
  unroll: the 8-byte (or 4-byte) steps that fit, then the smaller ones. Memory reads are
  little-endian reads of the list.
\<close>

section \<open>Hash\<close>

fun Hash_blocks :: "u32 \<Rightarrow> slice \<Rightarrow> u32 \<times> slice" where
  "Hash_blocks h (a # b # c # d # data) =
     (let w = DecodeFixed32 [a, b, c, d];
          h = h + w;
          h = h * 0xc6a4a793;
          h = h XOR drop_bit 16 h
      in Hash_blocks h data)"
| "Hash_blocks h data = (h, data)"

definition Hash_tail :: "u32 \<Rightarrow> slice \<Rightarrow> u32" where
  "Hash_tail h data =
     (let h = (if length data = 3 then h + push_bit 16 (ucast (data ! 2)) else h);
          h = (if 2 \<le> length data then h + push_bit 8 (ucast (data ! 1)) else h)
      in if 1 \<le> length data then
           (let h = h + ucast (data ! 0); h = h * 0xc6a4a793 in h XOR drop_bit 24 h)
         else h)"

definition Hash :: "slice \<Rightarrow> u32 \<Rightarrow> u32" where
  "Hash data seed =
     (let h = seed XOR (word_of_nat (length data) * 0xc6a4a793);
          (h, rest) = Hash_blocks h data
      in Hash_tail h rest)"

section \<open>xxhash, 32 bits\<close>

definition PRIME32_1 :: u32 where "PRIME32_1 = 2654435761"
definition PRIME32_2 :: u32 where "PRIME32_2 = 2246822519"
definition PRIME32_3 :: u32 where "PRIME32_3 = 3266489917"
definition PRIME32_4 :: u32 where "PRIME32_4 = 668265263"
definition PRIME32_5 :: u32 where "PRIME32_5 = 374761393"

definition XXH_rotl32 :: "u32 \<Rightarrow> nat \<Rightarrow> u32" where
  "XXH_rotl32 x r = push_bit r x OR drop_bit (32 - r) x"

definition XXH32_round :: "u32 \<Rightarrow> u32 \<Rightarrow> u32" where
  "XXH32_round seed input = XXH_rotl32 (seed + input * PRIME32_2) 13 * PRIME32_1"

definition XXH32_avalanche :: "u32 \<Rightarrow> u32" where
  "XXH32_avalanche h32 =
     (let h32 = h32 XOR drop_bit 15 h32;
          h32 = h32 * PRIME32_2;
          h32 = h32 XOR drop_bit 13 h32;
          h32 = h32 * PRIME32_3
      in h32 XOR drop_bit 16 h32)"

fun XXH32_process1 :: "u32 \<Rightarrow> slice \<Rightarrow> u32" where
  "XXH32_process1 h32 [] = h32"
| "XXH32_process1 h32 (b # p) =
     XXH32_process1 (XXH_rotl32 (h32 + ucast b * PRIME32_5) 11 * PRIME32_1) p"

fun XXH32_process4 :: "u32 \<Rightarrow> slice \<Rightarrow> u32" where
  "XXH32_process4 h32 (a # b # c # d # p) =
     XXH32_process4 (XXH_rotl32 (h32 + DecodeFixed32 [a, b, c, d] * PRIME32_3) 17 * PRIME32_4) p"
| "XXH32_process4 h32 p = XXH32_process1 h32 p"

definition XXH32_finalize :: "u32 \<Rightarrow> slice \<Rightarrow> u32" where
  "XXH32_finalize h32 p = XXH32_avalanche (XXH32_process4 h32 p)"

text \<open>The \<^verbatim>\<open>do ... while (p < limit)\<close> loop over 16-byte stripes, \<^verbatim>\<open>limit = bEnd - 15\<close>.\<close>

fun XXH32_stripes :: "u32 \<times> u32 \<times> u32 \<times> u32 \<Rightarrow> slice \<Rightarrow> (u32 \<times> u32 \<times> u32 \<times> u32) \<times> slice" where
  "XXH32_stripes (v1, v2, v3, v4) p =
     (if 16 \<le> length p then
        XXH32_stripes (XXH32_round v1 (DecodeFixed32 p), XXH32_round v2 (DecodeFixed32 (drop 4 p)),
          XXH32_round v3 (DecodeFixed32 (drop 8 p)), XXH32_round v4 (DecodeFixed32 (drop 12 p))) (drop 16 p)
      else ((v1, v2, v3, v4), p))"

declare XXH32_stripes.simps [simp del]

definition XXH32 :: "slice \<Rightarrow> u32 \<Rightarrow> u32" where
  "XXH32 input seed =
     (let (h32, p) =
        (if 16 \<le> length input then
           (let ((v1, v2, v3, v4), p) =
              XXH32_stripes (seed + PRIME32_1 + PRIME32_2, seed + PRIME32_2, seed + 0, seed - PRIME32_1) input
            in (XXH_rotl32 v1 1 + XXH_rotl32 v2 7 + XXH_rotl32 v3 12 + XXH_rotl32 v4 18, p))
         else (seed + PRIME32_5, input))
      in XXH32_finalize (h32 + word_of_nat (length input)) p)"

section \<open>xxhash, 64 bits\<close>

definition PRIME64_1 :: u64 where "PRIME64_1 = 11400714785074694791"
definition PRIME64_2 :: u64 where "PRIME64_2 = 14029467366897019727"
definition PRIME64_3 :: u64 where "PRIME64_3 = 1609587929392839161"
definition PRIME64_4 :: u64 where "PRIME64_4 = 9650029242287828579"
definition PRIME64_5 :: u64 where "PRIME64_5 = 2870177450012600261"

definition XXH_rotl64 :: "u64 \<Rightarrow> nat \<Rightarrow> u64" where
  "XXH_rotl64 x r = push_bit r x OR drop_bit (64 - r) x"

definition XXH64_round :: "u64 \<Rightarrow> u64 \<Rightarrow> u64" where
  "XXH64_round acc input = XXH_rotl64 (acc + input * PRIME64_2) 31 * PRIME64_1"

definition XXH64_mergeRound :: "u64 \<Rightarrow> u64 \<Rightarrow> u64" where
  "XXH64_mergeRound acc val = (acc XOR XXH64_round 0 val) * PRIME64_1 + PRIME64_4"

definition XXH64_avalanche :: "u64 \<Rightarrow> u64" where
  "XXH64_avalanche h64 =
     (let h64 = h64 XOR drop_bit 33 h64;
          h64 = h64 * PRIME64_2;
          h64 = h64 XOR drop_bit 29 h64;
          h64 = h64 * PRIME64_3
      in h64 XOR drop_bit 32 h64)"

fun XXH64_process1 :: "u64 \<Rightarrow> slice \<Rightarrow> u64" where
  "XXH64_process1 h64 [] = h64"
| "XXH64_process1 h64 (b # p) =
     XXH64_process1 (XXH_rotl64 (h64 XOR (ucast b * PRIME64_5)) 11 * PRIME64_1) p"

definition XXH64_process4 :: "u64 \<Rightarrow> slice \<Rightarrow> u64" where
  "XXH64_process4 h64 p =
     (if 4 \<le> length p then
        XXH64_process1
          (XXH_rotl64 (h64 XOR (ucast (DecodeFixed32 p) * PRIME64_1)) 23 * PRIME64_2 + PRIME64_3) (drop 4 p)
      else XXH64_process1 h64 p)"

fun XXH64_process8 :: "u64 \<Rightarrow> slice \<Rightarrow> u64" where
  "XXH64_process8 h64 p =
     (if 8 \<le> length p then
        XXH64_process8
          (XXH_rotl64 (h64 XOR XXH64_round 0 (DecodeFixed64 p)) 27 * PRIME64_1 + PRIME64_4) (drop 8 p)
      else XXH64_process4 h64 p)"

declare XXH64_process8.simps [simp del]

definition XXH64_finalize :: "u64 \<Rightarrow> slice \<Rightarrow> u64" where
  "XXH64_finalize h64 p = XXH64_avalanche (XXH64_process8 h64 p)"

fun XXH64_stripes :: "u64 \<times> u64 \<times> u64 \<times> u64 \<Rightarrow> slice \<Rightarrow> (u64 \<times> u64 \<times> u64 \<times> u64) \<times> slice" where
  "XXH64_stripes (v1, v2, v3, v4) p =
     (if 32 \<le> length p then
        XXH64_stripes (XXH64_round v1 (DecodeFixed64 p), XXH64_round v2 (DecodeFixed64 (drop 8 p)),
          XXH64_round v3 (DecodeFixed64 (drop 16 p)), XXH64_round v4 (DecodeFixed64 (drop 24 p))) (drop 32 p)
      else ((v1, v2, v3, v4), p))"

declare XXH64_stripes.simps [simp del]

definition XXH64 :: "slice \<Rightarrow> u64 \<Rightarrow> u64" where
  "XXH64 input seed =
     (let (h64, p) =
        (if 32 \<le> length input then
           (let ((v1, v2, v3, v4), p) =
              XXH64_stripes (seed + PRIME64_1 + PRIME64_2, seed + PRIME64_2, seed + 0, seed - PRIME64_1) input;
              h64 = XXH_rotl64 v1 1 + XXH_rotl64 v2 7 + XXH_rotl64 v3 12 + XXH_rotl64 v4 18;
              h64 = XXH64_mergeRound h64 v1;
              h64 = XXH64_mergeRound h64 v2;
              h64 = XXH64_mergeRound h64 v3;
              h64 = XXH64_mergeRound h64 v4
            in (h64, p))
         else (seed + PRIME64_5, input))
      in XXH64_finalize (h64 + word_of_nat (length input)) p)"

definition xxhash32 :: "slice \<Rightarrow> u32 \<Rightarrow> u32" where
  "xxhash32 data seed = XXH32 data seed"

definition xxhash64 :: "slice \<Rightarrow> u64 \<Rightarrow> u64" where
  "xxhash64 data seed = XXH64 data seed"

section \<open>Known values\<close>

text \<open>
  The hashes give the values their test vectors fix: the four of \<^verbatim>\<open>hash_test.cc\<close> that cover every
  remainder of the length, the one of a 48-byte block, and the published values of \<^verbatim>\<open>XXH32\<close> and \<^verbatim>\<open>XXH64\<close> for
  the empty input, for three bytes and for a text of 39 bytes, which goes through the loop over stripes.
\<close>

theorem hash_vectors:
  "Hash [] 0xbc9f1d34 = 0xbc9f1d34 \<and> Hash [0x62] 0xbc9f1d34 = 0xef1345c4 \<and>
   Hash [0xc3, 0x97] 0xbc9f1d34 = 0x5b663814 \<and> Hash [0xe2, 0x99, 0xa5] 0xbc9f1d34 = 0x323c078f \<and>
   Hash [0xe1, 0x80, 0xb9, 0x32] 0xbc9f1d34 = 0xed21633a \<and>
   Hash [0x01, 0xc0, 0x00, 0x00, 0x00, 0x00, 0x00, 0x00, 0x00, 0x00, 0x00, 0x00, 0x00, 0x00, 0x00, 0x00,
     0x14, 0x00, 0x00, 0x00, 0x00, 0x00, 0x04, 0x00, 0x00, 0x00, 0x00, 0x14, 0x00, 0x00, 0x00, 0x18,
     0x28, 0x00, 0x00, 0x00, 0x00, 0x00, 0x00, 0x00, 0x02, 0x00, 0x00, 0x00, 0x00, 0x00, 0x00, 0x00]
     0x12345678 = 0xf333dabb \<and>
   xxhash32 [] 0 = 0x02CC5D05 \<and> xxhash32 [97, 98, 99] 0 = 0x32D153FF \<and>
   xxhash64 [] 0 = 0xEF46DB3751D8E999 \<and> xxhash64 [97, 98, 99] 0 = 0x44BC2CF5AD770999 \<and>
   (let b = [78, 111, 98, 111, 100, 121, 32, 105, 110, 115, 112, 101, 99, 116, 115, 32, 116, 104, 101,
     32, 115, 112, 97, 109, 109, 105, 115, 104, 32, 114, 101, 112, 101, 116, 105, 116,
     105, 111, 110]
    in xxhash32 b 0 = 0xE2293B2F \<and> xxhash64 b 0 = 0xFBCEA83C8A378BF1)"
  by code_simp

end
