(* ===== verification/Gigaplus.thy ===== *)
theory Gigaplus
  imports Hashing "HOL-Library.Monad_Syntax"
begin

text \<open>
  \<^verbatim>\<open>pdlfs-common/gigaplus.h\<close> and \<^verbatim>\<open>gigaplus.cc\<close>: the GIGA+ directory index. A directory is divided
  into partitions; the index is a bitmap of the partitions that exist, a radix (how many bits of
  a name's hash choose a partition) and the server of the first partition. The memory image
  \<^verbatim>\<open>rep_\<close> (a 4-byte header followed by the bitmap) is the record \<open>Rep\<close>: the two header fields and
  the bitmap with its whole capacity. The code's assertions are kept: an operation whose
  assertions can fail returns an option, and \<open>None\<close> is a failed assertion. Indices and counts,
  which the code holds in \<^verbatim>\<open>int\<close> and \<^verbatim>\<open>size_t\<close> and bounds by 65536, are natural numbers.
\<close>

section \<open>Helpers\<close>

definition kMaxRadix :: nat where "kMaxRadix = 16"
definition kMaxPartitions :: nat where "kMaxPartitions = 2 ^ kMaxRadix"

text \<open>\<^verbatim>\<open>floor(log2(value))\<close> for a positive value.\<close>

fun ToLog2 :: "nat \<Rightarrow> nat" where
  "ToLog2 value = (if value < 2 then 0 else Suc (ToLog2 (value div 2)))"

declare ToLog2.simps [simp del]

definition kBits :: "nat \<Rightarrow> byte" where
  "kBits i = push_bit i 1"

text \<open>The multiplication is on 64 bits and the result is cut to a byte.\<close>

definition Reverse :: "byte \<Rightarrow> byte" where
  "Reverse byte =
     ucast (drop_bit 32 (((ucast byte * 0x80200802 :: u64) AND 0x0884422110) * 0x0101010101))"

definition ToRadix :: "nat \<Rightarrow> nat" where
  "ToRadix index = (if index = 0 then 0 else 1 + ToLog2 index)"

definition ToChildIndex :: "nat \<Rightarrow> nat \<Rightarrow> nat" where
  "ToChildIndex index radix = index + 2 ^ radix"

definition ToParentIndex :: "nat \<Rightarrow> nat" where
  "ToParentIndex index = (if index = 0 then 0 else index - 2 ^ ToLog2 index)"

definition GIGAHash :: "slice \<Rightarrow> slice" where
  "GIGAHash b = EncodeFixed64 (xxhash64 b 0 - 17241709254077376921)"

text \<open>The loop over the whole bytes, then the remaining bits.\<close>

function ComputeIndex_bytes :: "slice \<Rightarrow> nat \<Rightarrow> nat \<Rightarrow> nat \<Rightarrow> nat" where
  "ComputeIndex_bytes hash idx nbytes result =
     (if idx < nbytes
      then ComputeIndex_bytes hash (idx + 1) nbytes (result + unat (Reverse (hash ! idx)) * 2 ^ (idx * 8))
      else result)"
  by pat_completeness auto
termination
  by (relation "measure (\<lambda>(hash, idx, nbytes, result). nbytes - idx)") auto

declare ComputeIndex_bytes.simps [simp del]

definition ComputeIndexFromHash :: "slice \<Rightarrow> nat \<Rightarrow> nat" where
  "ComputeIndexFromHash hash n =
     (let nbytes = n div 8;
          result = ComputeIndex_bytes hash 0 nbytes 0;
          nbits = n mod 8
      in if 0 < nbits
         then result + unat (Reverse (hash ! nbytes) AND mask nbits) * 2 ^ (nbytes * 8)
         else result)"

section \<open>The index in memory\<close>

record Rep =
  zeroth_server :: u16
  radix :: u16
  bitmap :: "byte list"

definition kHeadSize :: nat where "kHeadSize = 4"
definition kInitBitmapCapacity :: nat where "kInitBitmapCapacity = 2 ^ 7 div 8"

abbreviation bitmap_capacity :: "Rep \<Rightarrow> nat" where
  "bitmap_capacity r \<equiv> length (bitmap r)"

definition bitmap_bytes :: "u16 \<Rightarrow> nat" where
  "bitmap_bytes r = (2 ^ unat r + 7) div 8"

definition bitmap_size :: "Rep \<Rightarrow> nat" where
  "bitmap_size r = bitmap_bytes (radix r)"

text \<open>The test \<^verbatim>\<open>0 != (bitmap_[index / 8] & kBits[index % 8])\<close>.\<close>

definition test_bit_at :: "byte list \<Rightarrow> nat \<Rightarrow> bool" where
  "test_bit_at bm index \<longleftrightarrow> (bm ! (index div 8)) AND kBits (index mod 8) \<noteq> 0"

definition Rep_bit :: "Rep \<Rightarrow> nat \<Rightarrow> bool" where
  "Rep_bit r index = (if index < bitmap_size r * 8 then test_bit_at (bitmap r) index else False)"

definition Rep_byte :: "Rep \<Rightarrow> nat \<Rightarrow> byte" where
  "Rep_byte r index = (if index < bitmap_size r then bitmap r ! index else 0)"

text \<open>
  The two downward loops of \<^verbatim>\<open>HighestBit\<close>. They have no lower bound of their own: running below
  index 0 is \<open>None\<close>.
\<close>

fun highest_byte :: "byte list \<Rightarrow> nat \<Rightarrow> nat option" where
  "highest_byte bm i =
     (if bm ! i = 0 then (case i of 0 \<Rightarrow> None | Suc j \<Rightarrow> highest_byte bm j) else Some i)"

fun highest_off :: "byte \<Rightarrow> nat \<Rightarrow> nat option" where
  "highest_off b off =
     (if b AND kBits off = 0 then (case off of 0 \<Rightarrow> None | Suc j \<Rightarrow> highest_off b j) else Some off)"

declare highest_byte.simps [simp del] highest_off.simps [simp del]

definition highest_bit_from :: "byte list \<Rightarrow> nat \<Rightarrow> nat option" where
  "highest_bit_from bm start = do {
     i \<leftarrow> highest_byte bm start;
     off \<leftarrow> highest_off (bm ! i) 7;
     Some (off + i * 8)
   }"

definition HighestBit :: "Rep \<Rightarrow> nat option" where
  "HighestBit r =
     (if bitmap_size r - 1 < bitmap_capacity r \<and> Rep_bit r 0
      then highest_bit_from (bitmap r) (bitmap_size r - 1) else None)"

text \<open>\<^verbatim>\<open>Reset\<close> asserts the bound on the capacity.\<close>

definition ScaleUp :: "Rep \<Rightarrow> nat \<Rightarrow> Rep option" where
  "ScaleUp r factor =
     (if 1 < factor then
        (if bitmap_capacity r * factor \<le> kMaxPartitions div 8
         then Some (r\<lparr>bitmap := bitmap r @ replicate (bitmap_capacity r * factor - bitmap_capacity r) 0\<rparr>)
         else None)
      else Some r)"

text \<open>
  The doubling loop of \<^verbatim>\<open>ScaleToSize\<close>; it is never entered with a capacity of 0 (the smallest
  index has a bitmap of 16 bytes), for which it would not end.
\<close>

function scale_factor :: "nat \<Rightarrow> nat \<Rightarrow> nat \<Rightarrow> nat" where
  "scale_factor current capacity factor =
     (if current < capacity \<and> 0 < current then scale_factor (current * 2) capacity (factor * 2) else factor)"
  by pat_completeness auto
termination
  by (relation "measure (\<lambda>(current, capacity, factor). capacity - current)") auto

declare scale_factor.simps [simp del]

definition ScaleToSize :: "Rep \<Rightarrow> nat \<Rightarrow> Rep option" where
  "ScaleToSize r capacity = ScaleUp r (scale_factor (bitmap_capacity r) capacity 1)"

definition Reserve :: "Rep \<Rightarrow> nat \<Rightarrow> Rep option" where
  "Reserve r n = ScaleToSize r n"

definition ToSlice :: "Rep \<Rightarrow> slice" where
  "ToSlice r = EncodeFixed16 (zeroth_server r) @ EncodeFixed16 (radix r) @ take (bitmap_size r) (bitmap r)"

definition TurnOnBit :: "Rep \<Rightarrow> nat \<Rightarrow> Rep option" where
  "TurnOnBit r index = do {
     r \<leftarrow> (if bitmap_capacity r * 8 \<le> index
          then (if index < 2 * bitmap_capacity r * 8 then ScaleUp r 2 else None) else Some r);
     let rdx = ToRadix index;
     r \<leftarrow> (if unat (radix r) < rdx
          then (if unat (radix r) = rdx - 1 then Some (r\<lparr>radix := word_of_nat rdx\<rparr>) else None)
          else Some r);
     let i = index div 8;
     let off = index mod 8;
     r \<leftarrow> (if i < bitmap_capacity r
          then Some (r\<lparr>bitmap := (bitmap r)[i := bitmap r ! i OR kBits off]\<rparr>) else None);
     h \<leftarrow> HighestBit r;
     if unat (radix r) = ToRadix h then Some r else None
   }"

definition TurnOffBit :: "Rep \<Rightarrow> nat \<Rightarrow> Rep option" where
  "TurnOffBit r index =
     (if index = 0 then None
      else if index < bitmap_size r * 8 then do {
        let i = index div 8;
     let off = index mod 8;
        r \<leftarrow> (if i < bitmap_capacity r
             then Some (r\<lparr>bitmap := (bitmap r)[i := bitmap r ! i AND NOT (kBits off)]\<rparr>) else None);
        if unat (radix r) = ToRadix index then do {
          h \<leftarrow> HighestBit r;
          Some (r\<lparr>radix := word_of_nat (ToRadix h)\<rparr>)
        } else Some r
      }
      else Some r)"

definition new_Rep :: "u16 \<Rightarrow> Rep option" where
  "new_Rep zserver =
     TurnOnBit \<lparr>zeroth_server = zserver, radix = 0, bitmap = replicate kInitBitmapCapacity 0\<rparr> 0"

section \<open>Views of encoded indices\<close>

record View =
  view_zeroth_server :: u16
  view_radix :: u16
  view_bitmap :: "byte list"

definition View_bit :: "View \<Rightarrow> nat \<Rightarrow> bool" where
  "View_bit v index =
     (if index = 0 \<and> view_bitmap v = [] then True
      else if index < length (view_bitmap v) * 8 then test_bit_at (view_bitmap v) index
      else False)"

definition View_byte :: "View \<Rightarrow> nat \<Rightarrow> byte" where
  "View_byte v index =
     (if index = 0 \<and> view_bitmap v = [] then kBits 0
      else if index < length (view_bitmap v) then view_bitmap v ! index
      else 0)"

definition View_HighestBit :: "View \<Rightarrow> nat option" where
  "View_HighestBit v =
     (if view_bitmap v = [] then Some 0
      else if View_bit v 0 then highest_bit_from (view_bitmap v) (length (view_bitmap v) - 1)
      else None)"

text \<open>
  The size test computes \<^verbatim>\<open>1 << r\<close> on an \<^verbatim>\<open>int\<close>, which is defined for radices below 31 only; the
  model computes the power, which no bitmap that fits in memory reaches for larger radices.
\<close>

definition ParseDirIndex :: "slice \<Rightarrow> bool \<Rightarrow> View option" where
  "ParseDirIndex input paranoid_checks =
     (if length input < kHeadSize then None
      else
        let v = \<lparr>view_zeroth_server = DecodeFixed16 input, view_radix = DecodeFixed16 (drop 2 input),
                 view_bitmap = drop kHeadSize input\<rparr>
        in if length input - kHeadSize < bitmap_bytes (view_radix v) then None
           else if \<not> View_bit v 0 then None
           else if paranoid_checks \<and> map_option ToRadix (View_HighestBit v) \<noteq> Some (unat (view_radix v))
           then None
           else Some v)"

text \<open>\<^verbatim>\<open>DoMerge\<close>, for the zeroth server, bitmap size, radix and bytes of the other side.\<close>

definition DoMerge :: "Rep \<Rightarrow> u16 \<Rightarrow> nat \<Rightarrow> u16 \<Rightarrow> (nat \<Rightarrow> byte) \<Rightarrow> Rep option" where
  "DoMerge r other_zserver other_size other_radix other_byte =
     (if zeroth_server r \<noteq> other_zserver then None
      else do {
        let new_capacity = max (bitmap_size r) other_size;
        r \<leftarrow> ScaleToSize r new_capacity;
        let r = r\<lparr>radix := max (radix r) other_radix\<rparr>;
        if bitmap_size r \<le> new_capacity
        then Some (r\<lparr>bitmap := map (\<lambda>i. if i < new_capacity then bitmap r ! i OR other_byte i else bitmap r ! i)
                                [0..<bitmap_capacity r]\<rparr>)
        else None
      })"

definition check_radix :: "Rep \<Rightarrow> Rep option" where
  "check_radix r = (if map_option ToRadix (HighestBit r) = Some (unat (radix r)) then Some r else None)"

definition Merge_View :: "Rep \<Rightarrow> View \<Rightarrow> Rep option" where
  "Merge_View r v =
     DoMerge r (view_zeroth_server v) (length (view_bitmap v)) (view_radix v) (View_byte v) \<bind> check_radix"

definition Merge_Rep :: "Rep \<Rightarrow> Rep \<Rightarrow> Rep option" where
  "Merge_Rep r other =
     DoMerge r (zeroth_server other) (bitmap_size other) (radix other) (Rep_byte other) \<bind> check_radix"

section \<open>Directory indices\<close>

record DirIndexOptions =
  num_servers :: nat
  num_virtual_servers :: nat
  paranoid_checks :: bool

record DirIndex =
  options :: DirIndexOptions
  rep :: "Rep option"

definition new_DirIndex :: "u16 \<Rightarrow> DirIndexOptions \<Rightarrow> DirIndex option" where
  "new_DirIndex zserver opts = do { r \<leftarrow> new_Rep zserver; Some \<lparr>options = opts, rep = Some r\<rparr> }"

definition empty_DirIndex :: "DirIndexOptions \<Rightarrow> DirIndex" where
  "empty_DirIndex opts = \<lparr>options = opts, rep = None\<rparr>"

text \<open>Asserts that the two indices share their options.\<close>

definition DirIndex_Swap :: "DirIndex \<Rightarrow> DirIndex \<Rightarrow> (DirIndex \<times> DirIndex) option" where
  "DirIndex_Swap d other =
     (if options d = options other then Some (d\<lparr>rep := rep other\<rparr>, other\<lparr>rep := rep d\<rparr>) else None)"

definition IsSet :: "DirIndex \<Rightarrow> nat \<Rightarrow> bool option" where
  "IsSet d index = do { r \<leftarrow> rep d; Some (Rep_bit r index) }"

definition Encode :: "DirIndex \<Rightarrow> slice option" where
  "Encode d = do { r \<leftarrow> rep d; if bitmap_size r \<le> bitmap_capacity r then Some (ToSlice r) else None }"

definition ZerothServerOf :: "DirIndex \<Rightarrow> nat option" where
  "ZerothServerOf d = do { r \<leftarrow> rep d; Some (unat (zeroth_server r)) }"

definition Radix :: "DirIndex \<Rightarrow> nat option" where
  "Radix d = do { r \<leftarrow> rep d; Some (unat (radix r)) }"

text \<open>
  The updates return the code's verdict together with the new index: outer \<open>None\<close> is a failed
  assertion, \<open>(False, d)\<close> a rejected image.
\<close>

definition TEST_Reset :: "DirIndex \<Rightarrow> slice \<Rightarrow> (bool \<times> DirIndex) option" where
  "TEST_Reset d other =
     (case ParseDirIndex other (paranoid_checks (options d)) of
        None \<Rightarrow> Some (False, d)
      | Some v \<Rightarrow> do {
          r \<leftarrow> new_Rep (view_zeroth_server v);
          r \<leftarrow> Merge_View r v;
          Some (True, d\<lparr>rep := Some r\<rparr>)
        })"

definition Update_Slice :: "DirIndex \<Rightarrow> slice \<Rightarrow> (bool \<times> DirIndex) option" where
  "Update_Slice d other =
     (case rep d of
        None \<Rightarrow> TEST_Reset d other
      | Some r \<Rightarrow>
          (case ParseDirIndex other (paranoid_checks (options d)) of
             None \<Rightarrow> Some (False, d)
           | Some v \<Rightarrow>
               if zeroth_server r \<noteq> view_zeroth_server v then Some (False, d)
               else do { r \<leftarrow> Merge_View r v; Some (True, d\<lparr>rep := Some r\<rparr>) }))"

definition Update :: "DirIndex \<Rightarrow> DirIndex \<Rightarrow> DirIndex option" where
  "Update d other = do {
     other_rep \<leftarrow> rep other;
     r \<leftarrow> (case rep d of None \<Rightarrow> new_Rep (zeroth_server other_rep) | Some r \<Rightarrow> Some r);
     r \<leftarrow> Merge_Rep r other_rep;
     Some (d\<lparr>rep := Some r\<rparr>)
   }"

definition Set :: "DirIndex \<Rightarrow> nat \<Rightarrow> DirIndex option" where
  "Set d index =
     (if index < num_virtual_servers (options d)
      then do { r \<leftarrow> rep d; r \<leftarrow> TurnOnBit r index; Some (d\<lparr>rep := Some r\<rparr>) }
      else None)"

function turn_on_upto :: "Rep \<Rightarrow> nat \<Rightarrow> nat \<Rightarrow> Rep option" where
  "turn_on_upto r i n =
     (if i < n then do { r \<leftarrow> TurnOnBit r i; turn_on_upto r (i + 1) n } else Some r)"
  by pat_completeness auto
termination
  by (relation "measure (\<lambda>(r, i, n). n - i)") auto

declare turn_on_upto.simps [simp del]

definition SetAll :: "DirIndex \<Rightarrow> DirIndex option" where
  "SetAll d = do {
     r \<leftarrow> rep d;
     r \<leftarrow> Reserve r (num_virtual_servers (options d));
     r \<leftarrow> turn_on_upto r 0 (num_virtual_servers (options d));
     Some (d\<lparr>rep := Some r\<rparr>)
   }"

definition TEST_Unset :: "DirIndex \<Rightarrow> nat \<Rightarrow> DirIndex option" where
  "TEST_Unset d index =
     (if 0 < index \<and> index < num_virtual_servers (options d)
      then do { r \<leftarrow> rep d; r \<leftarrow> TurnOffBit r index; Some (d\<lparr>rep := Some r\<rparr>) }
      else None)"

fun turn_off_downto :: "Rep \<Rightarrow> nat \<Rightarrow> Rep option" where
  "turn_off_downto r 0 = Some r"
| "turn_off_downto r (Suc i) = do { r \<leftarrow> TurnOffBit r (Suc i); turn_off_downto r i }"

definition TEST_RevertAll :: "DirIndex \<Rightarrow> DirIndex option" where
  "TEST_RevertAll d = do {
     r \<leftarrow> rep d;
     h \<leftarrow> HighestBit r;
     r \<leftarrow> turn_off_downto r h;
     Some (d\<lparr>rep := Some r\<rparr>)
   }"

text \<open>The search for the first child that does not exist yet; the code starts at the radix of the index.\<close>

function splittable_loop :: "Rep \<Rightarrow> nat \<Rightarrow> nat \<Rightarrow> nat \<Rightarrow> bool" where
  "splittable_loop r nvs index rdx =
     (if rdx < kMaxRadix then
        (let i = ToChildIndex index rdx
         in if \<not> Rep_bit r i then i < nvs else splittable_loop r nvs index (rdx + 1))
      else False)"
  by pat_completeness auto
termination
  by (relation "measure (\<lambda>(r, nvs, index, rdx). kMaxRadix - rdx)") auto

declare splittable_loop.simps [simp del]

definition IsSplittable :: "DirIndex \<Rightarrow> nat \<Rightarrow> bool option" where
  "IsSplittable d index = do {
     r \<leftarrow> rep d;
     if \<not> Rep_bit r index then Some False
     else Some (splittable_loop r (num_virtual_servers (options d)) index (ToRadix index))
   }"

text \<open>\<^verbatim>\<open>ToChildIndex\<close> asserts a radix below the maximum.\<close>

function new_index_loop :: "Rep \<Rightarrow> nat \<Rightarrow> nat \<Rightarrow> nat \<Rightarrow> nat option" where
  "new_index_loop r index i rdx =
     (if Rep_bit r i
      then (if rdx < kMaxRadix then new_index_loop r index (ToChildIndex index rdx) (rdx + 1) else None)
      else Some i)"
  by pat_completeness auto
termination
  by (relation "measure (\<lambda>(r, index, i, rdx). kMaxRadix - rdx)") auto

declare new_index_loop.simps [simp del]

definition NewIndexForSplitting :: "DirIndex \<Rightarrow> nat \<Rightarrow> nat option" where
  "NewIndexForSplitting d index = do {
     r \<leftarrow> rep d;
     s \<leftarrow> IsSplittable d index;
     if s then do {
       i \<leftarrow> new_index_loop r index index (ToRadix index);
       if i \<noteq> index \<and> i < num_virtual_servers (options d) then Some i else None
     } else None
   }"

text \<open>
  The walk from the index the hash selects to the closest partition that exists. The code asserts
  that partition 0 exists before it starts, so it ends there at the latest.
\<close>

function to_existing :: "Rep \<Rightarrow> nat \<Rightarrow> nat" where
  "to_existing r i = (if \<not> Rep_bit r i \<and> i \<noteq> 0 then to_existing r (ToParentIndex i) else i)"
  by pat_completeness auto
termination
  by (relation "measure snd") (auto simp: ToParentIndex_def)

declare to_existing.simps [simp del]

definition HashToIndex :: "DirIndex \<Rightarrow> slice \<Rightarrow> nat option" where
  "HashToIndex d hash = do {
     r \<leftarrow> rep d;
     if Rep_bit r 0 then
       (let i = ComputeIndexFromHash hash (unat (radix r))
        in if i < num_virtual_servers (options d) then Some (to_existing r i) else None)
     else None
   }"

definition DirIndex_Hash :: "slice \<Rightarrow> slice" where
  "DirIndex_Hash name = GIGAHash name"

definition PutHash :: "slice \<Rightarrow> slice \<Rightarrow> slice" where
  "PutHash dst name = dst @ GIGAHash name"

definition GetIndex :: "DirIndex \<Rightarrow> slice \<Rightarrow> nat option" where
  "GetIndex d name = HashToIndex d (DirIndex_Hash name)"

definition MapIndexToServer :: "nat \<Rightarrow> nat \<Rightarrow> nat \<Rightarrow> nat" where
  "MapIndexToServer index zserver nservers = (index + zserver) mod nservers"

definition GetServerForIndex :: "DirIndex \<Rightarrow> nat \<Rightarrow> nat option" where
  "GetServerForIndex d index = do {
     r \<leftarrow> rep d;
     Some (MapIndexToServer index (unat (zeroth_server r)) (num_servers (options d)))
   }"

definition SelectServer :: "DirIndex \<Rightarrow> slice \<Rightarrow> nat option" where
  "SelectServer d name = GetIndex d name \<bind> GetServerForIndex d"

definition HashToServer :: "DirIndex \<Rightarrow> slice \<Rightarrow> nat option" where
  "HashToServer d hash = HashToIndex d hash \<bind> GetServerForIndex d"

definition ToBeMigrated :: "nat \<Rightarrow> slice \<Rightarrow> bool" where
  "ToBeMigrated index hash \<longleftrightarrow> ComputeIndexFromHash hash (ToRadix index) = index"

text \<open>\<^verbatim>\<open>RandomServer\<close> returns the 32 hash bits as an \<^verbatim>\<open>int\<close>, \<^verbatim>\<open>RandomServers\<close> two of them.\<close>

definition RandomServer :: "slice \<Rightarrow> u32 \<Rightarrow> u32" where
  "RandomServer dir seed = xxhash32 dir seed"

definition RandomServers :: "slice \<Rightarrow> u64 \<Rightarrow> u32 \<times> u32" where
  "RandomServers dir seed =
     (let tmp = EncodeFixed64 (xxhash64 dir seed) in (DecodeFixed32 tmp, DecodeFixed32 (drop 4 tmp)))"

end
