(* ===== verification/Fs.thy ===== *)
theory Fs
  imports Fsdb Lru Gigaplus
begin

text \<open>
  \<^verbatim>\<open>fs.cc\<close> and \<^verbatim>\<open>fs.h\<close>: \<^verbatim>\<open>Filesystem\<close>, the metadata server. The state is a record with the fields of the class; the
  control blocks of directories (\<^verbatim>\<open>Filesystem::Dir\<close>) live in a heap \<open>blks\<close> and are named by their address, in the cache
  \<open>dlru\<close> as in the table \<open>dirs\<close>. The store is used through the record \<open>FsDb\<close>.

  A handler is first modelled as it runs alone, as a function of the state; \<open>None\<close> is a failed assertion, a null pointer
  that is used, or a wait that nobody ends. Theory \<open>Fs_Steps\<close> has the same handlers interleaved.
\<close>

section \<open>State\<close>

record User =
  uid :: u32
  gid :: u32

record FilesystemOptions =
  dir_lru_size :: nat
  skip_partition_checks :: bool
  skip_name_collision_checks :: bool
  skip_lease_due_checks :: bool
  skip_perm_checks :: bool
  vsrvs :: nat
  nsrvs :: nat
  srvid :: nat
  mydno :: u64

definition default_FilesystemOptions :: FilesystemOptions where
  "default_FilesystemOptions =
     \<lparr>dir_lru_size = 4096, skip_partition_checks = False, skip_name_collision_checks = False, skip_lease_due_checks = False,
      skip_perm_checks = False, vsrvs = 1, nsrvs = 1, srvid = 0, mydno = 0\<rparr>"

definition kWays :: nat where
  "kWays = 8"

record DirBlock =
  b_id :: DirId
  b_key :: slice
  b_hash :: u32
  b_handle :: "nat option"
  b_giga :: "DirIndex option"
  b_fetched :: bool
  b_stats :: FilesystemDbStats
  b_busy :: "bool list"

type_synonym ro_get = "DirId \<Rightarrow> slice \<Rightarrow> FilesystemDbStats \<Rightarrow> (status \<times> Stat option \<times> FilesystemDbStats) option"

record 'db Filesystem =
  inoq :: u64
  fs_options :: FilesystemOptions
  fs_db :: "'db option"
  readonly_dbs :: "ro_get list"
  dlru :: "nat LRUCache"
  dirs :: "nat HashTable"
  blks :: "nat \<Rightarrow> DirBlock option"
  next_blk :: nat

definition new_Filesystem :: "FilesystemOptions \<Rightarrow> 'db option \<Rightarrow> ro_get list \<Rightarrow> 'db Filesystem" where
  "new_Filesystem o' db ros =
     \<lparr>inoq = 0, fs_options = o', fs_db = db, readonly_dbs = ros, dlru = new_LRUCache (dir_lru_size o'), dirs = new_HashTable,
      blks = (\<lambda>_. None), next_blk = 0\<rparr>"

section \<open>Control blocks\<close>

definition LRUKey :: "DirId \<Rightarrow> slice" where
  "LRUKey at = EncodeFixed64 (dno at) @ EncodeFixed64 (ino at)"

definition LRUHash :: "slice \<Rightarrow> u32" where
  "LRUHash k = Hash k 0"

definition new_block :: "DirId \<Rightarrow> slice \<Rightarrow> u32 \<Rightarrow> DirBlock" where
  "new_block at key hash =
     \<lparr>b_id = at, b_key = key, b_hash = hash, b_handle = None, b_giga = None, b_fetched = False, b_stats = new_stats,
      b_busy = replicate kWays False\<rparr>"

definition blk_ent :: "nat \<Rightarrow> DirBlock \<Rightarrow> nat HashEnt" where
  "blk_ent a b = \<lparr>e_hash = b_hash b, e_key = b_key b, e_ptr = a\<rparr>"

definition DeleteDir :: "slice \<Rightarrow> nat \<Rightarrow> 'db Filesystem \<Rightarrow> 'db Filesystem option" where
  "DeleteDir key a s =
     (case blks s a of
        None \<Rightarrow> None
      | Some b \<Rightarrow>
          if b_key b = key
          then Some (s\<lparr>dirs := fst (Remove_ent (dirs s) (blk_ent a b)), blks := (blks s)(a := None)\<rparr>)
          else None)"

text \<open>The cache calls \<^verbatim>\<open>DeleteDir\<close> for each entry that it deletes, in order; \<open>c\<close> is the cache after the operation.\<close>

fun DeleteDirs :: "(slice \<times> nat) list \<Rightarrow> 'db Filesystem \<Rightarrow> 'db Filesystem option" where
  "DeleteDirs [] s = Some s"
| "DeleteDirs ((k, a) # xs) s = (case DeleteDir k a s of None \<Rightarrow> None | Some s \<Rightarrow> DeleteDirs xs s)"

definition run_deleters :: "nat LRUCache \<Rightarrow> 'db Filesystem \<Rightarrow> 'db Filesystem option" where
  "run_deleters c s =
     DeleteDirs (drop (length (deleter_calls (dlru s))) (deleter_calls c)) (s\<lparr>dlru := c\<rparr>)"

definition Release :: "nat \<Rightarrow> 'db Filesystem \<Rightarrow> 'db Filesystem option" where
  "Release a s =
     (case blks s a of
        None \<Rightarrow> None
      | Some b \<Rightarrow>
          (case b_handle b of
             None \<Rightarrow> None
           | Some h \<Rightarrow> (case lru_Release (dlru s) h of None \<Rightarrow> None | Some c \<Rightarrow> run_deleters c s)))"

text \<open>The end of \<^verbatim>\<open>AcquireDir\<close>: neither the cache nor the table has the directory.\<close>

definition create_block :: "DirId \<Rightarrow> slice \<Rightarrow> u32 \<Rightarrow> slot \<Rightarrow> 'db Filesystem \<Rightarrow> (nat \<times> 'db Filesystem) option" where
  "create_block at key hash pos s =
     (let a = next_blk s; b = new_block at key hash;
          s = s\<lparr>next_blk := a + 1, blks := (blks s)(a \<mapsto> b), dirs := fst (Inject (dirs s) (blk_ent a b) pos)\<rparr>
      in case lru_Insert (dlru s) key hash a 1 of
           None \<Rightarrow> None
         | Some (c, h) \<Rightarrow>
             map_option (\<lambda>s. (a, s\<lparr>blks := (blks s)(a \<mapsto> b\<lparr>b_handle := Some h\<rparr>)\<rparr>)) (run_deleters c s))"

definition AcquireDir :: "DirId \<Rightarrow> 'db Filesystem \<Rightarrow> (nat \<times> 'db Filesystem) option" where
  "AcquireDir at s =
     (let key = LRUKey at; hash = LRUHash key
      in case lru_Lookup (dlru s) key hash of
           None \<Rightarrow> None
         | Some (c, Some h) \<Rightarrow>
             (case entries c h of
                None \<Rightarrow> None
              | Some e \<Rightarrow>
                  if map_option b_handle (blks s (l_value e)) = Some (Some h) then Some (l_value e, s\<lparr>dlru := c\<rparr>) else None)
         | Some (c, None) \<Rightarrow>
             (let s = s\<lparr>dlru := c\<rparr>; pos = FindPointer (dirs s) key hash
              in case slot_entry (dirs s) pos of
                   None \<Rightarrow> create_block at key hash pos s
                 | Some ent \<Rightarrow>
                     (let a = e_ptr ent
                      in case map_option b_handle (blks s a) of
                           Some (Some h) \<Rightarrow>
                             if map_option l_value (entries (dlru s) h) = Some a
                             then map_option (\<lambda>c. (a, s\<lparr>dlru := c\<rparr>)) (lru_Ref (dlru s) h)
                             else None
                         | _ \<Rightarrow> None)))"

section \<open>Checks\<close>

definition PickupServer :: "DirId \<Rightarrow> u32" where
  "PickupServer at = RandomServer (EncodeFixed64 (dno at) @ EncodeFixed64 (ino at)) 0"

definition MaybeFetchDir :: "FilesystemOptions \<Rightarrow> DirBlock \<Rightarrow> DirBlock option" where
  "MaybeFetchDir o' b =
     (if b_fetched b then Some b
      else do {
        let giga_opts = \<lparr>num_servers = nsrvs o', num_virtual_servers = vsrvs o', paranoid_checks = False\<rparr>;
        giga \<leftarrow> new_DirIndex (ucast (PickupServer (b_id b))) giga_opts;
        giga \<leftarrow> SetAll giga;
        Some (b\<lparr>b_giga := Some giga, b_fetched := True\<rparr>)})"

definition IsDirPartitionOk :: "FilesystemOptions \<Rightarrow> DirIndex option \<Rightarrow> slice \<Rightarrow> bool option" where
  "IsDirPartitionOk o' giga name =
     (if skip_partition_checks o' then Some True
      else do { giga \<leftarrow> giga; srv \<leftarrow> SelectServer giga name; Some (srvid o' = srv)})"

definition IsDirWriteOk :: "FilesystemOptions \<Rightarrow> LookupStat \<Rightarrow> User \<Rightarrow> bool" where
  "IsDirWriteOk o' parent who =
     (let mode = DirMode parent
      in if skip_perm_checks o' then True
         else if uid who = 0 then True
         else if uid who = lUserId parent \<and> mode AND S_IWUSR = S_IWUSR then True
         else if gid who = lGroupId parent \<and> mode AND S_IWGRP = S_IWGRP then True
         else mode AND S_IWOTH = S_IWOTH)"

definition IsLookupOk :: "FilesystemOptions \<Rightarrow> LookupStat \<Rightarrow> User \<Rightarrow> bool" where
  "IsLookupOk o' parent who =
     (let mode = DirMode parent
      in if skip_perm_checks o' then True
         else if uid who = 0 then True
         else if uid who = lUserId parent \<and> mode AND S_IXUSR = S_IXUSR then True
         else if gid who = lGroupId parent \<and> mode AND S_IXGRP = S_IXGRP then True
         else mode AND S_IXOTH = S_IXOTH)"

definition IsLeaseOk :: "FilesystemOptions \<Rightarrow> LookupStat \<Rightarrow> u64 \<Rightarrow> bool" where
  "IsLeaseOk o' parent ts = (if skip_lease_due_checks o' then True else ts \<le> LeaseDue parent)"

text \<open>
  The beginning of the four inner operations: the lease and the permission, then under the lock of the block the index,
  and where there is one the partition of the name. \<open>now\<close> is \<^verbatim>\<open>CurrentMicros()\<close>.
\<close>

definition check_dir :: "bool \<Rightarrow> string \<Rightarrow> slice option \<Rightarrow> LookupStat \<Rightarrow> u64 \<Rightarrow> nat \<Rightarrow> 'db Filesystem \<Rightarrow>
    (status \<times> 'db Filesystem) option" where
  "check_dir access msg name p now a s =
     (if \<not> IsLeaseOk (fs_options s) p now then Some (AssertionFailed ''Lease has expired'', s)
      else if \<not> access then Some (AccessDenied msg, s)
      else do {
        b \<leftarrow> blks s a;
        b \<leftarrow> MaybeFetchDir (fs_options s) b;
        let s = s\<lparr>blks := (blks s)(a \<mapsto> b)\<rparr>;
        case name of
          None \<Rightarrow> Some (Okay, s)
        | Some nm \<Rightarrow> do {
            good \<leftarrow> IsDirPartitionOk (fs_options s) (b_giga b) nm;
            Some (if good then Okay else AccessDenied ''Wrong dir partition'', s)}})"

definition update_block :: "(DirBlock \<Rightarrow> DirBlock) \<Rightarrow> nat \<Rightarrow> 'db Filesystem \<Rightarrow> 'db Filesystem option" where
  "update_block f a s = map_option (\<lambda>b. s\<lparr>blks := (blks s)(a \<mapsto> f b)\<rparr>) (blks s a)"

definition merge_stats :: "FilesystemDbStats \<Rightarrow> nat \<Rightarrow> 'db Filesystem \<Rightarrow> 'db Filesystem option" where
  "merge_stats stats = update_block (\<lambda>b. b\<lparr>b_stats := stats_Merge (b_stats b) stats\<rparr>)"

section \<open>The store\<close>

fun readonly_Get :: "ro_get list \<Rightarrow> DirId \<Rightarrow> slice \<Rightarrow> status \<times> Stat option \<times> FilesystemDbStats \<Rightarrow>
    (status \<times> Stat option \<times> FilesystemDbStats) option" where
  "readonly_Get [] at name r = Some r"
| "readonly_Get (g # gs) at name (_, _, stats) =
     (case g at name stats of
        None \<Rightarrow> None
      | Some (s, v, stats) \<Rightarrow> if ok s \<or> \<not> IsNotFound s then Some (s, v, stats) else readonly_Get gs at name (s, v, stats))"

definition DbGet :: "'db FsDb \<Rightarrow> 'db Filesystem \<Rightarrow> DirId \<Rightarrow> slice \<Rightarrow> FilesystemDbStats \<Rightarrow>
    (status \<times> Stat option \<times> FilesystemDbStats) option" where
  "DbGet X s at name stats =
     (case fs_db s of
        None \<Rightarrow> readonly_Get (readonly_dbs s) at name (Okay, None, stats)
      | Some db \<Rightarrow>
          (case fsdb_Get X at name stats db of
             None \<Rightarrow> None
           | Some (st, v, stats) \<Rightarrow>
               if ok st \<or> \<not> IsNotFound st then Some (st, v, stats)
               else readonly_Get (readonly_dbs s) at name (st, v, stats)))"

definition string_of_slice :: "slice \<Rightarrow> string" where
  "string_of_slice b = map (\<lambda>x. char_of (unat x)) b"

text \<open>The two halves of \<^verbatim>\<open>CheckAndPut\<close>; other threads may run in between.\<close>

definition check_name :: "'db FsDb \<Rightarrow> 'db Filesystem \<Rightarrow> DirId \<Rightarrow> slice \<Rightarrow> FilesystemDbStats \<Rightarrow> (status \<times> FilesystemDbStats) option" where
  "check_name X s at name stats =
     (if skip_name_collision_checks (fs_options s) then Some (Okay, stats)
      else map_option (\<lambda>(st, _, stats).
        (if ok st then AlreadyExists (string_of_slice name) else if IsNotFound st then Okay else st, stats))
        (DbGet X s at name stats))"

definition put_name :: "'db FsDb \<Rightarrow> DirId \<Rightarrow> slice \<Rightarrow> Stat \<Rightarrow> FilesystemDbStats \<Rightarrow> 'db Filesystem \<Rightarrow>
    (status \<times> FilesystemDbStats \<times> 'db Filesystem) option" where
  "put_name X at name stat stats s =
     (case fs_db s of
        None \<Rightarrow> None
      | Some db \<Rightarrow> map_option (\<lambda>(st, stats, db). (st, stats, s\<lparr>fs_db := Some db\<rparr>)) (fsdb_Put X at name stat stats db))"

definition CheckAndPut :: "'db FsDb \<Rightarrow> DirId \<Rightarrow> slice \<Rightarrow> Stat \<Rightarrow> FilesystemDbStats \<Rightarrow> 'db Filesystem \<Rightarrow>
    (status \<times> FilesystemDbStats \<times> 'db Filesystem) option" where
  "CheckAndPut X at name stat stats s =
     (case check_name X s at name stats of
        None \<Rightarrow> None
      | Some (st, stats) \<Rightarrow> if ok st then put_name X at name stat stats s else Some (st, stats, s))"

section \<open>Inner operations\<close>

definition Lstat1 :: "'db FsDb \<Rightarrow> u64 \<Rightarrow> User \<Rightarrow> DirId \<Rightarrow> slice \<Rightarrow> LookupStat \<Rightarrow> nat \<Rightarrow> FilesystemDbStats \<Rightarrow> 'db Filesystem \<Rightarrow>
    (status \<times> Stat option \<times> FilesystemDbStats \<times> 'db Filesystem) option" where
  "Lstat1 X now who at name p a stats s = do {
     (st, s) \<leftarrow> check_dir (IsLookupOk (fs_options s) p who) ''No dir x perm'' (Some name) p now a s;
     if \<not> ok st then Some (st, None, stats, s)
     else do {
       (st, v, stats) \<leftarrow> DbGet X s at name stats;
       s \<leftarrow> merge_stats stats a s;
       Some (st, v, stats, s)}}"

text \<open>A \<^verbatim>\<open>LookupStat\<close> made of a \<^verbatim>\<open>Stat\<close>, with a lease that never ends; all its fields are set.\<close>

definition lookup_of :: "Stat \<Rightarrow> LookupStat" where
  "lookup_of stat = (CopyFrom \<lparr>lDnodeNo = 0, lInodeNo = 0, LeaseDue = 0, DirMode = 0, lZerothServer = 0, lUserId = 0, lGroupId = 0\<rparr> stat)
     \<lparr>LeaseDue := - 1\<rparr>"

definition lookup_result :: "status \<Rightarrow> Stat option \<Rightarrow> (status \<times> LookupStat option) option" where
  "lookup_result st v =
     (if \<not> ok st then Some (st, None)
      else case v of
             None \<Rightarrow> None
           | Some tmp \<Rightarrow>
               Some (if \<not> S_ISDIR (FileMode tmp) then (DirExpected ''Not a dir'', None) else (Okay, Some (lookup_of tmp))))"

definition Lokup1 :: "'db FsDb \<Rightarrow> u64 \<Rightarrow> User \<Rightarrow> DirId \<Rightarrow> slice \<Rightarrow> LookupStat \<Rightarrow> nat \<Rightarrow> FilesystemDbStats \<Rightarrow> 'db Filesystem \<Rightarrow>
    (status \<times> LookupStat option \<times> FilesystemDbStats \<times> 'db Filesystem) option" where
  "Lokup1 X now who at name p a stats s = do {
     (st, v, stats, s) \<leftarrow> Lstat1 X now who at name p a stats s;
     (st, l) \<leftarrow> lookup_result st v;
     Some (st, l, stats, s)}"

definition way_of :: "slice \<Rightarrow> nat" where
  "way_of name = unat (Hash name 0 AND (word_of_nat kWays - 1))"

text \<open>Locking a way; alone, a way that is busy stays busy.\<close>

definition lock_way :: "nat \<Rightarrow> nat \<Rightarrow> 'db Filesystem \<Rightarrow> 'db Filesystem option" where
  "lock_way a i s =
     (case blks s a of
        None \<Rightarrow> None
      | Some b \<Rightarrow> if b_busy b ! i then None else update_block (\<lambda>b. b\<lparr>b_busy := (b_busy b)[i := True]\<rparr>) a s)"

fun lock_ways :: "nat \<Rightarrow> nat list \<Rightarrow> 'db Filesystem \<Rightarrow> 'db Filesystem option" where
  "lock_ways a [] s = Some s"
| "lock_ways a (i # is) s = (case lock_way a i s of None \<Rightarrow> None | Some s \<Rightarrow> lock_ways a is s)"

definition all_ways :: "nat list" where
  "all_ways = [0..<kWays]"

definition clear_ways :: "nat list \<Rightarrow> bool list \<Rightarrow> bool list" where
  "clear_ways is busy = foldl (\<lambda>bs i. bs[i := False]) busy is"

definition unlock_ways :: "nat \<Rightarrow> nat list \<Rightarrow> 'db Filesystem \<Rightarrow> 'db Filesystem option" where
  "unlock_ways a is = update_block (\<lambda>b. b\<lparr>b_busy := clear_ways is (b_busy b)\<rparr>) a"

definition Mknod1 :: "'db FsDb \<Rightarrow> u64 \<Rightarrow> User \<Rightarrow> DirId \<Rightarrow> slice \<Rightarrow> LookupStat \<Rightarrow> nat \<Rightarrow> Stat \<Rightarrow> FilesystemDbStats \<Rightarrow> 'db Filesystem \<Rightarrow>
    (status \<times> FilesystemDbStats \<times> 'db Filesystem) option" where
  "Mknod1 X now who at name p a stat stats s = do {
     (st, s) \<leftarrow> check_dir (IsDirWriteOk (fs_options s) p who) ''No write perm'' (Some name) p now a s;
     if \<not> ok st then Some (st, stats, s)
     else do {
       s \<leftarrow> lock_way a (way_of name) s;
       (st, stats, s) \<leftarrow> CheckAndPut X at name stat stats s;
       s \<leftarrow> merge_stats stats a s;
       s \<leftarrow> unlock_ways a [way_of name] s;
       Some (st, stats, s)}}"

text \<open>The loop of \<^verbatim>\<open>Mknos1\<close>: \<open>k\<close> names may follow, \<open>m\<close> are done.\<close>

fun put_names :: "'db FsDb \<Rightarrow> DirId \<Rightarrow> u64 \<Rightarrow> nat \<Rightarrow> nat \<Rightarrow> slice \<Rightarrow> Stat \<Rightarrow> FilesystemDbStats \<Rightarrow> 'db Filesystem \<Rightarrow>
    (nat \<times> status \<times> FilesystemDbStats \<times> 'db Filesystem) option" where
  "put_names X at startino 0 m input stat stats s = Some (m, Okay, stats, s)"
| "put_names X at startino (Suc k) m input stat stats s =
     (case GetLengthPrefixedSlice input of
        None \<Rightarrow> Some (m, Okay, stats, s)
      | Some (name, input) \<Rightarrow>
          (case CheckAndPut X at name (stat\<lparr>InodeNo := startino + word_of_nat m\<rparr>) stats s of
             None \<Rightarrow> None
           | Some (st, stats, s) \<Rightarrow>
               if ok st then put_names X at startino k (Suc m) input stat stats s else Some (m, st, stats, s)))"

text \<open>Returns the new value of \<^verbatim>\<open>*n\<close>.\<close>

definition Mknos1 :: "'db FsDb \<Rightarrow> u64 \<Rightarrow> User \<Rightarrow> DirId \<Rightarrow> slice \<Rightarrow> u64 \<Rightarrow> LookupStat \<Rightarrow> nat \<Rightarrow> Stat \<Rightarrow> u32 \<Rightarrow> FilesystemDbStats \<Rightarrow>
    'db Filesystem \<Rightarrow> (status \<times> u32 \<times> FilesystemDbStats \<times> 'db Filesystem) option" where
  "Mknos1 X now who at namearr startino p a stat n stats s = do {
     (st, s) \<leftarrow> check_dir (IsDirWriteOk (fs_options s) p who) ''No write perm'' None p now a s;
     if \<not> ok st then Some (st, n, stats, s)
     else do {
       s \<leftarrow> lock_ways a all_ways s;
       (m, st, stats, s) \<leftarrow> put_names X at startino (unat n) 0 namearr stat stats s;
       s \<leftarrow> merge_stats stats a s;
       s \<leftarrow> unlock_ways a all_ways s;
       Some (st, word_of_nat m, stats, s)}}"

definition bulk_insert :: "'db FsDb \<Rightarrow> string \<Rightarrow> 'db Filesystem \<Rightarrow> (status \<times> 'db Filesystem) option" where
  "bulk_insert X table_dir s =
     map_option (\<lambda>db. case fsdb_BulkInsert X table_dir db of (st, db) \<Rightarrow> (st, s\<lparr>fs_db := Some db\<rparr>)) (fs_db s)"

definition Bukin1 :: "'db FsDb \<Rightarrow> u64 \<Rightarrow> User \<Rightarrow> LookupStat \<Rightarrow> nat \<Rightarrow> string \<Rightarrow> 'db Filesystem \<Rightarrow> (status \<times> 'db Filesystem) option" where
  "Bukin1 X now who p a table_dir s = do {
     (st, s) \<leftarrow> check_dir (IsDirWriteOk (fs_options s) p who) ''No write perm'' None p now a s;
     if \<not> ok st then Some (st, s)
     else do {
       s \<leftarrow> lock_ways a all_ways s;
       (st, s) \<leftarrow> bulk_insert X table_dir s;
       s \<leftarrow> unlock_ways a all_ways s;
       Some (st, s)}}"

section \<open>Handlers\<close>

text \<open>\<^verbatim>\<open>TryReuseIno\<close>: only if no inode number was assigned since.\<close>

definition TryReuseIno :: "u64 \<Rightarrow> u64 \<Rightarrow> 'db Filesystem \<Rightarrow> 'db Filesystem" where
  "TryReuseIno i n s = (if i = inoq s then s\<lparr>inoq := inoq s - n\<rparr> else s)"

definition new_Stat :: "FilesystemOptions \<Rightarrow> User \<Rightarrow> u32 \<Rightarrow> u32 \<Rightarrow> u64 \<Rightarrow> Stat" where
  "new_Stat o' who mode zserver i =
     \<lparr>DnodeNo = mydno o', InodeNo = i, FileSize = 0, ModifyTime = 0, ChangeTime = 0, FileMode = mode, ZerothServer = zserver,
      UserId = uid who, GroupId = gid who\<rparr>"

definition file_mode :: "u32 \<Rightarrow> u32" where
  "file_mode mode = S_IFREG OR (mode AND ACCESSPERMS)"

definition dir_mode :: "u32 \<Rightarrow> u32" where
  "dir_mode mode = S_IFDIR OR (mode AND ACCESSPERMS)"

definition Bukin :: "'db FsDb \<Rightarrow> u64 \<Rightarrow> User \<Rightarrow> LookupStat \<Rightarrow> string \<Rightarrow> 'db Filesystem \<Rightarrow> (status \<times> 'db Filesystem) option" where
  "Bukin X now who p table_dir s = do {
     (a, s) \<leftarrow> AcquireDir (DirId_LookupStat p) s;
     (st, s) \<leftarrow> Bukin1 X now who p a table_dir s;
     s \<leftarrow> Release a s;
     Some (st, s)}"

definition Lokup :: "'db FsDb \<Rightarrow> u64 \<Rightarrow> User \<Rightarrow> LookupStat \<Rightarrow> slice \<Rightarrow> 'db Filesystem \<Rightarrow>
    (status \<times> LookupStat option \<times> 'db Filesystem) option" where
  "Lokup X now who p name s = do {
     (a, s) \<leftarrow> AcquireDir (DirId_LookupStat p) s;
     (st, l, stats, s) \<leftarrow> Lokup1 X now who (DirId_LookupStat p) name p a new_stats s;
     s \<leftarrow> Release a s;
     Some (st, l, s)}"

definition Lstat :: "'db FsDb \<Rightarrow> u64 \<Rightarrow> User \<Rightarrow> LookupStat \<Rightarrow> slice \<Rightarrow> FilesystemDbStats \<Rightarrow> 'db Filesystem \<Rightarrow>
    (status \<times> Stat option \<times> FilesystemDbStats \<times> 'db Filesystem) option" where
  "Lstat X now who p name stats s = do {
     (a, s) \<leftarrow> AcquireDir (DirId_LookupStat p) s;
     (st, v, stats, s) \<leftarrow> Lstat1 X now who (DirId_LookupStat p) name p a stats s;
     s \<leftarrow> Release a s;
     Some (st, v, stats, s)}"

definition Mkfls :: "'db FsDb \<Rightarrow> u64 \<Rightarrow> User \<Rightarrow> LookupStat \<Rightarrow> slice \<Rightarrow> u32 \<Rightarrow> u32 \<Rightarrow> 'db Filesystem \<Rightarrow>
    (status \<times> u32 \<times> 'db Filesystem) option" where
  "Mkfls X now who p namearr mode n s = do {
     (a, s) \<leftarrow> AcquireDir (DirId_LookupStat p) s;
     let s = s\<lparr>inoq := inoq s + ucast n\<rparr>;
     let myino = inoq s;
     let startino = myino - ucast n + 1;
     let stat = new_Stat (fs_options s) who (file_mode mode) (- 1) 0;
     (st, m, stats, s) \<leftarrow> Mknos1 X now who (DirId_LookupStat p) namearr startino p a stat n new_stats s;
     let s = (if \<not> ok st then TryReuseIno myino (myino - startino + 1 - ucast m) s else s);
     s \<leftarrow> Release a s;
     Some (st, m, s)}"

text \<open>\<^verbatim>\<open>Mkfle\<close> and \<^verbatim>\<open>Mkdir\<close> differ in the mode and the zeroth server.\<close>

definition mknod :: "'db FsDb \<Rightarrow> u64 \<Rightarrow> User \<Rightarrow> LookupStat \<Rightarrow> slice \<Rightarrow> u32 \<Rightarrow> (FilesystemOptions \<Rightarrow> u64 \<Rightarrow> u32) \<Rightarrow> 'db Filesystem \<Rightarrow>
    (status \<times> Stat \<times> 'db Filesystem) option" where
  "mknod X now who p name mode zserver s = do {
     (a, s) \<leftarrow> AcquireDir (DirId_LookupStat p) s;
     let s = s\<lparr>inoq := inoq s + 1\<rparr>;
     let myino = inoq s;
     let stat = new_Stat (fs_options s) who mode (zserver (fs_options s) myino) myino;
     (st, stats, s) \<leftarrow> Mknod1 X now who (DirId_LookupStat p) name p a stat new_stats s;
     let s = (if \<not> ok st then TryReuseIno myino 1 s else s);
     s \<leftarrow> Release a s;
     Some (st, stat, s)}"

definition Mkfle :: "'db FsDb \<Rightarrow> u64 \<Rightarrow> User \<Rightarrow> LookupStat \<Rightarrow> slice \<Rightarrow> u32 \<Rightarrow> 'db Filesystem \<Rightarrow> (status \<times> Stat \<times> 'db Filesystem) option" where
  "Mkfle X now who p name mode = mknod X now who p name (file_mode mode) (\<lambda>_ _. - 1)"

definition Mkdir :: "'db FsDb \<Rightarrow> u64 \<Rightarrow> User \<Rightarrow> LookupStat \<Rightarrow> slice \<Rightarrow> u32 \<Rightarrow> 'db Filesystem \<Rightarrow> (status \<times> Stat \<times> 'db Filesystem) option" where
  "Mkdir X now who p name mode = mknod X now who p name (dir_mode mode) (\<lambda>o' i. PickupServer \<lparr>dno = mydno o', ino = i\<rparr>)"

section \<open>Test functions\<close>

definition TEST_ProbeDir :: "DirId \<Rightarrow> 'db Filesystem \<Rightarrow> (nat \<times> 'db Filesystem) option" where
  "TEST_ProbeDir at s = AcquireDir at s"

definition TEST_FetchDbStats :: "nat \<Rightarrow> 'db Filesystem \<Rightarrow> FilesystemDbStats option" where
  "TEST_FetchDbStats a s = map_option b_stats (blks s a)"

definition TEST_Release :: "nat \<Rightarrow> 'db Filesystem \<Rightarrow> 'db Filesystem option" where
  "TEST_Release a s = Release a s"

definition TEST_Mkfle :: "'db FsDb \<Rightarrow> u64 \<Rightarrow> User \<Rightarrow> LookupStat \<Rightarrow> slice \<Rightarrow> Stat \<Rightarrow> FilesystemDbStats \<Rightarrow> 'db Filesystem \<Rightarrow>
    (status \<times> FilesystemDbStats \<times> 'db Filesystem) option" where
  "TEST_Mkfle X now who p name stat stats s = do {
     (a, s) \<leftarrow> AcquireDir (DirId_LookupStat p) s;
     (st, stats, s) \<leftarrow> Mknod1 X now who (DirId_LookupStat p) name p a stat stats s;
     s \<leftarrow> Release a s;
     Some (st, stats, s)}"

definition TEST_TotalDirsInMemory :: "'db Filesystem \<Rightarrow> nat" where
  "TEST_TotalDirsInMemory s = HashTable_Size (dirs s)"

definition TEST_LastIno :: "'db Filesystem \<Rightarrow> u64" where
  "TEST_LastIno s = inoq s"

end
