(* ===== verification/Fs_Blocks.thy ===== *)
theory Fs_Blocks
  imports Fs
begin

text \<open>
  The control blocks of directories: how the heap of blocks, the table of all blocks and the cache of blocks agree, and
  that obtaining and releasing a block keeps them so. \<open>R\<close> counts the references that threads hold.
\<close>

section \<open>The table of blocks\<close>

definition b_tag :: "DirBlock \<Rightarrow> u32 \<times> slice" where
  "b_tag b = (b_hash b, b_key b)"

definition indexed :: "nat HashTable \<Rightarrow> (nat \<Rightarrow> DirBlock option) \<Rightarrow> bool" where
  "indexed t B \<longleftrightarrow> ht_inv t \<and> (\<forall>hk a. ht_map t hk = Some a \<longleftrightarrow> (\<exists>b. B a = Some b \<and> b_tag b = hk))"

lemma indexedD: "indexed t B \<Longrightarrow> ht_map t hk = Some a \<longleftrightarrow> (\<exists>b. B a = Some b \<and> b_tag b = hk)"
  by (simp only: indexed_def)

lemma indexed_tag: "indexed t B \<Longrightarrow> B a = Some b \<Longrightarrow> ht_map t (b_tag b) = Some a"
  by (simp add: indexedD)

lemma indexed_inj: "indexed t B \<Longrightarrow> B a = Some b \<Longrightarrow> B a' = Some b' \<Longrightarrow> b_tag b = b_tag b' \<Longrightarrow> a = a'"
  using indexed_tag by (metis option.inject)

lemma indexed_del:
  assumes i: "indexed t B" and b: "B a = Some b"
  shows "indexed (fst (Remove_ent t (blk_ent a b))) (B(a := None))"
proof -
  have inv: "ht_inv t" using i by (simp add: indexed_def)
  have m: "ht_map t (b_hash b, b_key b) = Some a" using indexed_tag [OF i b] by (simp add: b_tag_def)
  then obtain ent where ent: "ht_lookup t (b_key b) (b_hash b) = Some ent" "e_ptr ent = a" by (auto simp: ht_map_def)
  have r: "Remove_ent t (blk_ent a b) = Remove_key t (b_key b) (b_hash b)"
    using ent by (simp add: Remove_ent_eq blk_ent_def)
  have M: "ht_map (fst (Remove_key t (b_key b) (b_hash b))) = (ht_map t)(b_tag b := None)"
    using ht_map_Remove [OF inv, of "b_key b" "b_hash b"] by (simp add: b_tag_def)
  show ?thesis
    unfolding indexed_def r M
  proof (intro conjI allI)
    show "ht_inv (fst (Remove_key t (b_key b) (b_hash b)))" using Remove_key_ok [OF inv] by blast
    fix hk a'
    show "((ht_map t)(b_tag b := None)) hk = Some a' \<longleftrightarrow> (\<exists>c. (B(a := None)) a' = Some c \<and> b_tag c = hk)"
    proof (cases "a' = a")
      case True
      then show ?thesis using indexedD [OF i, of hk a] b by auto
    next
      case False
      then have "b_tag c \<noteq> b_tag b" if "B a' = Some c" for c using indexed_inj [OF i that b] by blast
      then show ?thesis using indexedD [OF i, of hk a'] False by auto
    qed
  qed
qed

lemma indexed_add:
  assumes i: "indexed t B" and new: "B a = None" "ht_map t (b_tag b) = None"
  shows "indexed (fst (HashTable_Insert t (blk_ent a b))) (B(a \<mapsto> b))"
proof -
  have inv: "ht_inv t" using i by (simp add: indexed_def)
  have M: "ht_map (fst (HashTable_Insert t (blk_ent a b))) = (ht_map t)(b_tag b \<mapsto> a)"
    using ht_map_Insert [OF inv, of "blk_ent a b"] by (simp add: b_tag_def blk_ent_def tag_def)
  show ?thesis
    unfolding indexed_def M
  proof (intro conjI allI)
    show "ht_inv (fst (HashTable_Insert t (blk_ent a b)))" using HashTable_Insert_ok [OF inv] by blast
    fix hk a'
    show "((ht_map t)(b_tag b \<mapsto> a)) hk = Some a' \<longleftrightarrow> (\<exists>c. (B(a \<mapsto> b)) a' = Some c \<and> b_tag c = hk)"
    proof (cases "a' = a")
      case True
      then show ?thesis using indexedD [OF i, of hk a] new by auto
    next
      case False
      then show ?thesis using indexedD [OF i, of hk a'] indexedD [OF i, of "b_tag b" a'] new by auto
    qed
  qed
qed

lemma indexed_upd:
  assumes i: "indexed t B" and b: "B a = Some b" "b_tag b' = b_tag b"
  shows "indexed t (B(a \<mapsto> b'))"
  unfolding indexed_def
proof (intro conjI allI)
  show "ht_inv t" using i by (simp add: indexed_def)
  fix hk a'
  show "ht_map t hk = Some a' \<longleftrightarrow> (\<exists>c. (B(a \<mapsto> b')) a' = Some c \<and> b_tag c = hk)"
    using indexedD [OF i, of hk a'] b by (cases "a' = a") auto
qed

section \<open>Deleting blocks\<close>

definition same_rest :: "'db Filesystem \<Rightarrow> 'db Filesystem \<Rightarrow> bool" where
  "same_rest s s' \<longleftrightarrow> inoq s' = inoq s \<and> fs_options s' = fs_options s \<and> fs_db s' = fs_db s \<and> readonly_dbs s' = readonly_dbs s"

lemma same_rest_trans: "same_rest s t \<Longrightarrow> same_rest t u \<Longrightarrow> same_rest s u"
  by (simp add: same_rest_def)

lemma DeleteDirs_ok:
  assumes "indexed (dirs s) (blks s)" and "distinct (map snd xs)" and "\<And>k a. (k, a) \<in> set xs \<Longrightarrow> \<exists>b. blks s a = Some b \<and> b_key b = k"
  shows "\<exists>s'. DeleteDirs xs s = Some s' \<and> indexed (dirs s') (blks s') \<and>
    blks s' = (\<lambda>a. if a \<in> snd ` set xs then None else blks s a) \<and> dlru s' = dlru s \<and> next_blk s' = next_blk s \<and> same_rest s s'"
  using assms
proof (induction xs arbitrary: s)
  case Nil
  then show ?case by (simp add: same_rest_def)
next
  case (Cons x xs)
  obtain k a where x: "x = (k, a)" by (cases x)
  obtain b where b: "blks s a = Some b" "b_key b = k" using Cons.prems(3) [of k a] x by auto
  let ?s = "s\<lparr>dirs := fst (Remove_ent (dirs s) (blk_ent a b)), blks := (blks s)(a := None)\<rparr>"
  have d: "DeleteDir k a s = Some ?s" using b by (simp add: DeleteDir_def)
  have i: "indexed (dirs ?s) (blks ?s)" using indexed_del [OF Cons.prems(1) b(1)] by simp
  have "\<exists>b'. blks ?s a' = Some b' \<and> b_key b' = k'" if "(k', a') \<in> set xs" for k' a'
    using Cons.prems(2) Cons.prems(3) [of k' a'] that x by force
  moreover have "distinct (map snd xs)" using Cons.prems(2) by simp
  ultimately obtain s' where s': "DeleteDirs xs ?s = Some s'" "indexed (dirs s') (blks s')"
    "blks s' = (\<lambda>a. if a \<in> snd ` set xs then None else blks ?s a)" "dlru s' = dlru ?s" "next_blk s' = next_blk ?s" "same_rest ?s s'"
    using Cons.IH [OF i] by blast
  have "blks s' = (\<lambda>a. if a \<in> snd ` set (x # xs) then None else blks s a)"
    using s'(3) x by (auto simp: fun_eq_iff)
  then show ?case using s' d x by (intro exI [of _ s']) (simp add: same_rest_def)
qed

section \<open>The invariant\<close>

definition blk_ok :: "(nat \<Rightarrow> nat) \<Rightarrow> 'db Filesystem \<Rightarrow> nat \<Rightarrow> DirBlock \<Rightarrow> bool" where
  "blk_ok R s a b \<longleftrightarrow>
     a < next_blk s \<and> b_key b = LRUKey (b_id b) \<and> b_hash b = LRUHash (b_key b) \<and> length (b_busy b) = kWays \<and>
     (\<exists>h e. b_handle b = Some h \<and> entries (dlru s) h = Some e \<and> l_value e = a \<and> l_tag e = b_tag b \<and> ext e = R a)"

definition fs_inv :: "(nat \<Rightarrow> nat) \<Rightarrow> 'db Filesystem \<Rightarrow> bool" where
  "fs_inv R s \<longleftrightarrow>
     lru_inv (dlru s) \<and> indexed (dirs s) (blks s) \<and> (\<forall>a b. blks s a = Some b \<longrightarrow> blk_ok R s a b) \<and>
     (\<forall>h e. entries (dlru s) h = Some e \<longrightarrow> (\<exists>b. blks s (l_value e) = Some b \<and> b_handle b = Some h)) \<and>
     (\<forall>a. blks s a = None \<longrightarrow> R a = 0)"

lemma fs_invD:
  assumes "fs_inv R s"
  shows "lru_inv (dlru s)" and "indexed (dirs s) (blks s)" and "\<And>a b. blks s a = Some b \<Longrightarrow> blk_ok R s a b"
    and "\<And>h e. entries (dlru s) h = Some e \<Longrightarrow> \<exists>b. blks s (l_value e) = Some b \<and> b_handle b = Some h"
    and "\<And>a. blks s a = None \<Longrightarrow> R a = 0"
  using assms unfolding fs_inv_def by blast+

lemma fs_inv_live: "fs_inv R s \<Longrightarrow> 0 < R a \<Longrightarrow> \<exists>b. blks s a = Some b"
  using fs_invD(5) [of R s a] by (cases "blks s a") auto

text \<open>At most one block exists for a directory.\<close>

lemma fs_inv_one_block:
  assumes "fs_inv R s" and "blks s a = Some b" and "blks s a' = Some b'" and "b_id b = b_id b'"
  shows "a = a'"
proof -
  have "b_tag b = b_tag b'" using fs_invD(3) [OF assms(1)] assms(2-4) by (simp add: b_tag_def blk_ok_def)
  then show ?thesis using indexed_inj [OF fs_invD(2) [OF assms(1)] assms(2,3)] by blast
qed

lemma LRUKey_inject: "LRUKey d = LRUKey d' \<longleftrightarrow> d = d'"
proof
  assume "LRUKey d = LRUKey d'"
  then have "EncodeFixed64 (dno d) = EncodeFixed64 (dno d')" "EncodeFixed64 (ino d) = EncodeFixed64 (ino d')"
    by (simp_all add: LRUKey_def append_eq_append_conv)
  then have "dno d = dno d'" "ino d = ino d'" using DecodeFixed64_EncodeFixed64 [of _ "[]"] by (metis append_Nil2)+
  then show "d = d'" by simp
qed simp

section \<open>Releasing and obtaining blocks\<close>

text \<open>Handles and blocks name each other.\<close>

lemma fs_inv_value_inj:
  assumes inv: "fs_inv R s" and e: "entries (dlru s) h = Some e" "entries (dlru s) h' = Some e'" "l_value e = l_value e'"
  shows "h = h'"
proof -
  obtain b b' where "blks s (l_value e) = Some b" "b_handle b = Some h" "blks s (l_value e') = Some b'" "b_handle b' = Some h'"
    using fs_invD(4) [OF inv e(1)] fs_invD(4) [OF inv e(2)] by blast
  then show ?thesis using e(3) by simp
qed

lemma blk_okE:
  assumes "blk_ok R s a b"
  obtains h e where "b_handle b = Some h" "entries (dlru s) h = Some e" "l_value e = a" "l_tag e = b_tag b" "ext e = R a"
    "a < next_blk s" "b_key b = LRUKey (b_id b)" "b_hash b = LRUHash (b_key b)" "length (b_busy b) = kWays"
  using assms unfolding blk_ok_def by blast

text \<open>The invariant after a change of the entry of one block, whose references become \<open>r\<close>.\<close>

lemma fs_inv_refs:
  assumes inv: "fs_inv R s" and c: "lru_inv c" "entries c = (entries (dlru s))(h \<mapsto> e')"
    and e: "entries (dlru s) h = Some e" "l_value e' = l_value e" "l_tag e' = l_tag e" "ext e' = r"
  shows "fs_inv (R(l_value e := r)) (s\<lparr>dlru := c\<rparr>)"
proof -
  obtain b where b: "blks s (l_value e) = Some b" "b_handle b = Some h" using fs_invD(4) [OF inv e(1)] by blast
  have ok: "blk_ok (R(l_value e := r)) (s\<lparr>dlru := c\<rparr>) a' b'" if a': "blks s a' = Some b'" for a' b'
  proof -
    obtain h' f where h': "b_handle b' = Some h'" "entries (dlru s) h' = Some f" "l_value f = a'" "l_tag f = b_tag b'" "ext f = R a'"
      "a' < next_blk s" "b_key b' = LRUKey (b_id b')" "b_hash b' = LRUHash (b_key b')" "length (b_busy b') = kWays"
      using fs_invD(3) [OF inv a'] by (rule blk_okE)
    show ?thesis
    proof (cases "h' = h")
      case True
      then show ?thesis using h' e c(2) by (simp add: blk_ok_def)
    next
      case False
      then have "a' \<noteq> l_value e" using fs_inv_value_inj [OF inv h'(2) e(1)] h'(3) by blast
      then show ?thesis using h' c(2) False by (simp add: blk_ok_def)
    qed
  qed
  have "\<exists>b. blks s (l_value f) = Some b \<and> b_handle b = Some h'" if "entries c h' = Some f" for h' f
  proof (cases "h' = h")
    case True
    then show ?thesis using that c(2) b e(2) by auto
  next
    case False
    then show ?thesis using that c(2) fs_invD(4) [OF inv] by simp
  qed
  moreover have "(R(l_value e := r)) a' = 0" if "blks s a' = None" for a' using that b(1) fs_invD(5) [OF inv] by auto
  ultimately show ?thesis using ok c(1) fs_invD(2) [OF inv] unfolding fs_inv_def by simp
qed

lemma Release_ok:
  assumes inv: "fs_inv R s" and held: "0 < R a"
  shows "\<exists>s'. Release a s = Some s' \<and> fs_inv (R(a := R a - 1)) s' \<and> same_rest s s' \<and>
    (\<forall>a' b'. blks s' a' = Some b' \<longrightarrow> blks s a' = Some b')"
proof -
  obtain b where b: "blks s a = Some b" using fs_inv_live [of R s a] inv held by blast
  obtain h e where h: "b_handle b = Some h" "entries (dlru s) h = Some e" "l_value e = a" "l_tag e = b_tag b" "ext e = R a"
    using fs_invD(3) [OF inv b] by (rule blk_okE)
  have pos: "0 < ext e" using h(5) held by simp
  obtain c where c: "lru_Release (dlru s) h = Some c" "lru_inv c"
    "if l_refs e = 1 then entries c = (entries (dlru s))(h := None) \<and> deleter_calls c = deleter_calls (dlru s) @ [(l_key e, l_value e)]
     else entries c = (entries (dlru s))(h \<mapsto> e\<lparr>l_refs := l_refs e - 1\<rparr>) \<and> deleter_calls c = deleter_calls (dlru s)"
    using lru_Release_ok [OF fs_invD(1) [OF inv] h(2) pos] by metis
  have R: "Release a s = run_deleters c s" using b h c(1) by (simp add: Release_def)
  show ?thesis
  proof (cases "l_refs e = 1")
    case False
    have "ext (e\<lparr>l_refs := l_refs e - 1\<rparr>) = R a - 1" using h(5) by (simp add: ext_def)
    then have "fs_inv (R(l_value e := R a - 1)) (s\<lparr>dlru := c\<rparr>)"
      using c(2,3) False by (intro fs_inv_refs [OF inv _ _ h(2)]) (simp_all add: l_tag_def)
    moreover have "run_deleters c s = Some (s\<lparr>dlru := c\<rparr>)" using c(3) False by (simp add: run_deleters_def)
    ultimately show ?thesis using R h(3) by (simp add: same_rest_def)
  next
    case True
    let ?s = "s\<lparr>dlru := c\<rparr>"
    have ex: "ext e = 1" using pos True by (simp add: ext_def split: if_splits)
    have del: "drop (length (deleter_calls (dlru s))) (deleter_calls c) = [(l_key e, a)]" using c(3) True h(3) by simp
    have idx: "indexed (dirs ?s) (blks ?s)" using fs_invD(2) [OF inv] by simp
    have key: "l_key e = b_key b" using h(4) by (simp add: l_tag_def b_tag_def)
    obtain s' where s': "DeleteDirs [(l_key e, a)] ?s = Some s'" "indexed (dirs s') (blks s')"
      "blks s' = (\<lambda>x. if x \<in> snd ` set [(l_key e, a)] then None else blks ?s x)" "dlru s' = dlru ?s" "next_blk s' = next_blk ?s" "same_rest ?s s'"
      using DeleteDirs_ok [OF idx, of "[(l_key e, a)]"] b key by auto
    have B: "blks s' = (blks s)(a := None)" using s'(3) by (auto simp: fun_eq_iff)
    have E: "entries c = (entries (dlru s))(h := None)" using c(3) True by simp
    have "blk_ok (R(a := R a - 1)) s' a' b'" if "blks s' a' = Some b'" for a' b'
    proof -
      have a': "a' \<noteq> a" "blks s a' = Some b'" using that B by (auto split: if_splits)
      obtain h' f where h': "b_handle b' = Some h'" "entries (dlru s) h' = Some f" "l_value f = a'" "l_tag f = b_tag b'" "ext f = R a'"
        "a' < next_blk s" "b_key b' = LRUKey (b_id b')" "b_hash b' = LRUHash (b_key b')" "length (b_busy b') = kWays"
        using fs_invD(3) [OF inv a'(2)] by (rule blk_okE)
      have "h' \<noteq> h" using h(2,3) h'(2,3) a'(1) by auto
      then show ?thesis using h' a'(1) s'(4,5) E by (simp add: blk_ok_def)
    qed
    moreover have "\<exists>b'. blks s' (l_value f) = Some b' \<and> b_handle b' = Some h'" if "entries (dlru s') h' = Some f" for h' f
    proof -
      have f: "h' \<noteq> h" "entries (dlru s) h' = Some f" using that E s'(4) by (auto split: if_splits)
      have "l_value f \<noteq> a" using fs_inv_value_inj [OF inv f(2) h(2)] f(1) h(3) by auto
      then show ?thesis using fs_invD(4) [OF inv f(2)] B by simp
    qed
    moreover have "(R(a := R a - 1)) a' = 0" if "blks s' a' = None" for a'
      using that B ex h(5) fs_invD(5) [OF inv, of a'] by (auto split: if_splits)
    ultimately have "fs_inv (R(a := R a - 1)) s'" using s'(2,4) c(2) unfolding fs_inv_def by simp
    moreover have "run_deleters c s = Some s'" using s'(1) del by (simp add: run_deleters_def)
    ultimately show ?thesis using R B s'(6) by (auto simp: same_rest_def split: if_splits)
  qed
qed

definition acquired :: "DirId \<Rightarrow> 'db Filesystem \<Rightarrow> nat \<Rightarrow> 'db Filesystem \<Rightarrow> bool" where
  "acquired at s a s' \<longleftrightarrow> same_rest s s' \<and> (\<exists>b. blks s' a = Some b \<and> b_id b = at) \<and>
     (\<forall>a' b'. blks s' a' = Some b' \<longrightarrow> blks s a' = Some b' \<or> (a' = a \<and> blks s a = None \<and> b_busy b' = replicate kWays False \<and> \<not> b_fetched b'))"

lemma blk_of_key:
  assumes inv: "fs_inv R s" and b: "blks s a = Some b" "b_key b = LRUKey at"
  shows "b_id b = at"
  using fs_invD(3) [OF inv b(1)] b(2) by (simp add: blk_ok_def LRUKey_inject)

lemma create_block_ok:
  assumes inv: "fs_inv R s" and new: "ht_map (dirs s) (LRUHash (LRUKey at), LRUKey at) = None"
  shows "\<exists>a s'. create_block at (LRUKey at) (LRUHash (LRUKey at)) (FindPointer (dirs s) (LRUKey at) (LRUHash (LRUKey at))) s = Some (a, s') \<and>
    fs_inv (R(a := R a + 1)) s' \<and> acquired at s a s'"
proof -
  let ?key = "LRUKey at" and ?hash = "LRUHash (LRUKey at)" and ?a = "next_blk s"
  let ?b = "new_block at ?key ?hash"
  have fresh: "blks s ?a = None"
  proof (cases "blks s ?a")
    case (Some b)
    then show ?thesis using fs_invD(3) [OF inv Some] by (simp add: blk_ok_def)
  qed simp
  obtain c h e where c: "lru_Insert (dlru s) ?key ?hash ?a 1 = Some (c, h)" "h = next_handle (dlru s)" "lru_inv c"
    "entries c h = Some e" "l_value e = ?a" "l_key e = ?key" "l_hash e = ?hash" "ext e = 1"
    "evolves ((dlru s)\<lparr>next_handle := Suc h, entries := (entries (dlru s))(h \<mapsto> e)\<rparr>) c"
    using lru_Insert_ok [OF fs_invD(1) [OF inv], of ?key ?hash ?a 1] by metis
  let ?E = "(entries (dlru s))(h \<mapsto> e)"
  obtain ks where ks: "distinct ks" "\<And>k. ?E k = None \<Longrightarrow> entries c k = None"
    "deleter_calls c = deleter_calls (dlru s) @ map (\<lambda>k. (l_key (the (?E k)), l_value (the (?E k)))) ks"
    "\<And>k. k \<in> set ks \<Longrightarrow> entries c k = None \<and> (\<exists>f. ?E k = Some f \<and> idle f)"
    "\<And>k f. ?E k = Some f \<Longrightarrow> k \<notin> set ks \<Longrightarrow> \<exists>g. entries c k = Some g \<and> same_ent f g"
    using c(9) by (auto simp: evolves_def evolves_by_def)
  have hks: "h \<notin> set ks" using ks(4) [of h] c(4) by auto
  have kE: "\<exists>f b. entries (dlru s) k = Some f \<and> idle f \<and> ?E k = Some f \<and> blks s (l_value f) = Some b \<and> b_handle b = Some k \<and>
      b_key b = l_key f \<and> l_value f \<noteq> ?a \<and> ext f = 0 \<and> R (l_value f) = 0" if k: "k \<in> set ks" for k
  proof -
    have "k \<noteq> h" using k hks by auto
    then obtain f where f: "entries (dlru s) k = Some f" "idle f" using ks(4) [OF k] by auto
    obtain b where b: "blks s (l_value f) = Some b" "b_handle b = Some k" using fs_invD(4) [OF inv f(1)] by blast
    have "l_tag f = b_tag b \<and> ext f = R (l_value f)" using fs_invD(3) [OF inv b(1)] b(2) f(1) by (auto simp: blk_ok_def)
    moreover have "ext f = 0" using f(2) by (simp add: idle_def ext_def)
    ultimately show ?thesis using f b fresh \<open>k \<noteq> h\<close> by (auto simp: l_tag_def b_tag_def)
  qed
  let ?xs = "map (\<lambda>k. (l_key (the (?E k)), l_value (the (?E k)))) ks"
  let ?s1 = "s\<lparr>next_blk := ?a + 1, blks := (blks s)(?a \<mapsto> ?b),
    dirs := fst (Inject (dirs s) (blk_ent ?a ?b) (FindPointer (dirs s) ?key ?hash))\<rparr>"
  let ?s2 = "?s1\<lparr>dlru := c\<rparr>"
  have ins: "fst (Inject (dirs s) (blk_ent ?a ?b) (FindPointer (dirs s) ?key ?hash)) = fst (HashTable_Insert (dirs s) (blk_ent ?a ?b))"
    by (simp add: HashTable_Insert_def blk_ent_def new_block_def)
  have btag: "b_tag ?b = (?hash, ?key)" by (simp add: b_tag_def new_block_def)
  have idx: "indexed (dirs ?s2) (blks ?s2)"
    using indexed_add [OF fs_invD(2) [OF inv] fresh, of ?b] new btag ins by simp
  have dist: "distinct (map snd ?xs)"
  proof -
    have "inj_on (\<lambda>k. l_value (the (?E k))) (set ks)"
    proof (rule inj_onI)
      fix k k' assume kk: "k \<in> set ks" "k' \<in> set ks" "l_value (the (?E k)) = l_value (the (?E k'))"
      obtain f where f: "entries (dlru s) k = Some f" "?E k = Some f" using kE [OF kk(1)] by blast
      obtain f' where f': "entries (dlru s) k' = Some f'" "?E k' = Some f'" using kE [OF kk(2)] by blast
      show "k = k'" using fs_inv_value_inj [OF inv f(1) f'(1)] f(2) f'(2) kk(3) by simp
    qed
    then show ?thesis using ks(1) by (simp add: comp_def distinct_map)
  qed
  have keys: "\<exists>b. blks ?s2 a = Some b \<and> b_key b = k" if ka: "(k, a) \<in> set ?xs" for k a
  proof -
    obtain j where j: "j \<in> set ks" "k = l_key (the (?E j))" "a = l_value (the (?E j))" using ka unfolding set_map by blast
    obtain f b where "?E j = Some f" "blks s (l_value f) = Some b" "b_key b = l_key f" "l_value f \<noteq> ?a"
      using kE [OF j(1)] by blast
    then show ?thesis using j(2,3) by simp
  qed
  obtain s3 where s3: "DeleteDirs ?xs ?s2 = Some s3" "indexed (dirs s3) (blks s3)"
    "blks s3 = (\<lambda>a. if a \<in> snd ` set ?xs then None else blks ?s2 a)" "dlru s3 = dlru ?s2" "next_blk s3 = next_blk ?s2" "same_rest ?s2 s3"
    using DeleteDirs_ok [OF idx dist keys] by blast
  let ?D = "snd ` set ?xs"
  have D: "x \<in> ?D \<longleftrightarrow> (\<exists>k \<in> set ks. x = l_value (the (?E k)))" for x by (auto simp: image_iff)
  have aD: "?a \<notin> ?D"
  proof
    assume "?a \<in> ?D"
    then obtain k where k: "k \<in> set ks" "?a = l_value (the (?E k))" using D by blast
    then show False using kE [OF k(1)] by auto
  qed
  let ?s4 = "s3\<lparr>blks := (blks s3)(?a \<mapsto> ?b\<lparr>b_handle := Some h\<rparr>)\<rparr>"
  have s3a: "blks s3 ?a = Some ?b" using s3(3) aD by simp
  have run: "run_deleters c ?s1 = Some s3" using s3(1) ks(3) by (simp add: run_deleters_def)
  have cb: "create_block at ?key ?hash (FindPointer (dirs s) ?key ?hash) s = Some (?a, ?s4)"
    using c(1) run by (simp add: create_block_def Let_def)
  have B: "blks ?s4 x = (if x = ?a then Some (?b\<lparr>b_handle := Some h\<rparr>) else if x \<in> ?D then None else blks s x)" for x
    using s3(3) by simp
  have E4: "entries (dlru ?s4) = entries c" using s3(4) by simp
  let ?R = "R(?a := R ?a + 1)"
  have R0: "R ?a = 0" using fs_invD(5) [OF inv fresh] .
  have blk: "blk_ok ?R ?s4 x b" if x: "blks ?s4 x = Some b" for x b
  proof (cases "x = ?a")
    case True
    then have "b = ?b\<lparr>b_handle := Some h\<rparr>" using x by simp
    then show ?thesis using True c(4-8) R0 E4 s3(5) by (simp add: blk_ok_def new_block_def l_tag_def b_tag_def)
  next
    case False
    then have sx: "blks s x = Some b" "x \<notin> ?D" using x B [of x] by (auto split: if_splits)
    obtain h' f where h': "b_handle b = Some h'" "entries (dlru s) h' = Some f" "l_value f = x" "l_tag f = b_tag b" "ext f = R x"
      "x < next_blk s" "b_key b = LRUKey (b_id b)" "b_hash b = LRUHash (b_key b)" "length (b_busy b) = kWays"
      using fs_invD(3) [OF inv sx(1)] by (rule blk_okE)
    have hh: "h' \<noteq> h" using live_less [of "{}" "dlru s" h' f] h'(2) fs_invD(1) [OF inv] c(2) by (auto simp: lru_inv_def)
    then have Ef: "?E h' = Some f" using h'(2) by simp
    have "h' \<notin> set ks" using sx(2) D Ef h'(3) by force
    then obtain g where g: "entries c h' = Some g" "same_ent f g" using ks(5) [OF Ef] by blast
    then show ?thesis using h' False E4 s3(5) by (simp add: blk_ok_def same_ent_def l_tag_def)
  qed
  have ent: "\<exists>b. blks ?s4 (l_value g) = Some b \<and> b_handle b = Some h'" if g: "entries (dlru ?s4) h' = Some g" for h' g
  proof (cases "h' = h")
    case True
    then show ?thesis using g E4 c(4,5) by simp
  next
    case False
    have nk: "h' \<notin> set ks" using g E4 ks(4) [of h'] by auto
    obtain f where f: "entries (dlru s) h' = Some f" using ks(2) [of h'] g E4 False by (cases "entries (dlru s) h'") auto
    then obtain g' where "entries c h' = Some g'" "same_ent f g'" using ks(5) [of h' f] nk False by auto
    then have v: "l_value g = l_value f" using g E4 by (simp add: same_ent_def)
    obtain b where b: "blks s (l_value f) = Some b" "b_handle b = Some h'" using fs_invD(4) [OF inv f] by blast
    have "l_value f \<notin> ?D"
    proof
      assume "l_value f \<in> ?D"
      then obtain k where k: "k \<in> set ks" "l_value f = l_value (the (?E k))" using D by blast
      obtain f' where f': "entries (dlru s) k = Some f'" "?E k = Some f'" using kE [OF k(1)] by blast
      then show False using fs_inv_value_inj [OF inv f f'(1)] k nk by simp
    qed
    moreover have "l_value f \<noteq> ?a" using b(1) fresh by auto
    ultimately show ?thesis using B [of "l_value f"] b v by simp
  qed
  have dead: "?R x = 0" if "blks ?s4 x = None" for x
  proof -
    have x: "x \<noteq> ?a" "x \<in> ?D \<or> blks s x = None" using that B [of x] by (auto split: if_splits)
    have "R x = 0" if xD: "x \<in> ?D"
    proof -
      obtain k where k: "k \<in> set ks" "x = l_value (the (?E k))" using xD D by blast
      then show ?thesis using kE [OF k(1)] by auto
    qed
    then show ?thesis using x fs_invD(5) [OF inv, of x] by auto
  qed
  have "indexed (dirs ?s4) (blks ?s4)" using indexed_upd [OF s3(2) s3a] by (simp add: b_tag_def)
  moreover have "lru_inv (dlru ?s4)" using s3(4) c(3) by simp
  ultimately have "fs_inv ?R ?s4" using blk ent dead unfolding fs_inv_def by blast
  moreover have "acquired at s ?a ?s4"
    unfolding acquired_def B using s3(6) fresh by (auto simp: same_rest_def new_block_def split: if_splits)
  ultimately show ?thesis using cb by blast
qed

lemma AcquireDir_ok:
  assumes inv: "fs_inv R s"
  shows "\<exists>a s'. AcquireDir at s = Some (a, s') \<and> fs_inv (R(a := R a + 1)) s' \<and> acquired at s a s'"
proof -
  let ?key = "LRUKey at" and ?hash = "LRUHash (LRUKey at)"
  note L = lru_Lookup_ok [OF fs_invD(1) [OF inv], where hash = ?hash and key = ?key]
  show ?thesis
  proof (cases "ht_map (table (dlru s)) (?hash, ?key)")
    case (Some h)
    then obtain c e where c: "entries (dlru s) h = Some e" "l_in_cache e" "l_tag e = (?hash, ?key)"
      "lru_Lookup (dlru s) ?key ?hash = Some (c, Some h)" "lru_inv c" "entries c = (entries (dlru s))(h \<mapsto> e\<lparr>l_refs := l_refs e + 1\<rparr>)"
      using L by auto
    obtain b where b: "blks s (l_value e) = Some b" "b_handle b = Some h" using fs_invD(4) [OF inv c(1)] by blast
    have bo: "l_tag e = b_tag b" "ext e = R (l_value e)" using fs_invD(3) [OF inv b(1)] b(2) c(1) by (auto simp: blk_ok_def)
    have refs: "0 < l_refs e" using lru_inv0D(3) c(1) fs_invD(1) [OF inv] by (auto simp: lru_inv_def)
    have "fs_inv (R(l_value e := R (l_value e) + 1)) (s\<lparr>dlru := c\<rparr>)"
      by (rule fs_inv_refs [OF inv c(5,6) c(1)]) (use bo c(2) refs in \<open>simp_all add: l_tag_def ext_def\<close>)
    moreover have "AcquireDir at s = Some (l_value e, s\<lparr>dlru := c\<rparr>)" using c(4,6) b by (simp add: AcquireDir_def Let_def)
    moreover have "b_id b = at" using blk_of_key [OF inv b(1)] bo c(3) by (simp add: b_tag_def)
    ultimately show ?thesis using b(1) by (auto simp: acquired_def same_rest_def)
  next
    case None
    then have miss: "lru_Lookup (dlru s) ?key ?hash = Some (dlru s, None)" using L by simp
    show ?thesis
    proof (cases "ht_lookup (dirs s) ?key ?hash")
      case None
      then have "AcquireDir at s = create_block at ?key ?hash (FindPointer (dirs s) ?key ?hash) s"
        using miss by (simp add: AcquireDir_def Let_def ht_lookup_def)
      then show ?thesis using create_block_ok [OF inv, of at] None by (simp add: ht_map_def)
    next
      case (Some ent)
      then have "ht_map (dirs s) (?hash, ?key) = Some (e_ptr ent)" by (simp add: ht_map_def)
      then obtain b where b: "blks s (e_ptr ent) = Some b" "b_tag b = (?hash, ?key)" using indexedD [OF fs_invD(2) [OF inv]] by blast
      obtain h e where h: "b_handle b = Some h" "entries (dlru s) h = Some e" "l_value e = e_ptr ent" "l_tag e = b_tag b" "ext e = R (e_ptr ent)"
        using fs_invD(3) [OF inv b(1)] by (rule blk_okE)
      obtain c where c: "lru_Ref (dlru s) h = Some c" "lru_inv c" "entries c = (entries (dlru s))(h \<mapsto> e\<lparr>l_refs := l_refs e + 1\<rparr>)"
        using lru_Ref_ok [OF fs_invD(1) [OF inv] h(2)] by metis
      have refs: "0 < l_refs e" using lru_inv0D(3) h(2) fs_invD(1) [OF inv] by (auto simp: lru_inv_def)
      have "fs_inv (R(l_value e := R (e_ptr ent) + 1)) (s\<lparr>dlru := c\<rparr>)"
        by (rule fs_inv_refs [OF inv c(2,3) h(2)]) (use h refs in \<open>auto simp: l_tag_def ext_def\<close>)
      moreover have "AcquireDir at s = Some (e_ptr ent, s\<lparr>dlru := c\<rparr>)"
        using miss Some b(1) h c(1) by (simp add: AcquireDir_def Let_def ht_lookup_def)
      moreover have "b_id b = at" using blk_of_key [OF inv b(1)] b(2) by (simp add: b_tag_def)
      ultimately show ?thesis using b(1) h(3) by (auto simp: acquired_def same_rest_def)
    qed
  qed
qed

lemma fs_inv_update:
  assumes inv: "fs_inv R s" and b: "blks s a = Some b"
    and b': "b_id b' = b_id b" "b_key b' = b_key b" "b_hash b' = b_hash b" "b_handle b' = b_handle b" "length (b_busy b') = length (b_busy b)"
  shows "fs_inv R (s\<lparr>blks := (blks s)(a \<mapsto> b')\<rparr>)"
proof -
  have t: "b_tag b' = b_tag b" using b' by (simp add: b_tag_def)
  have ok: "blk_ok R (s\<lparr>blks := (blks s)(a \<mapsto> b')\<rparr>) x c" if "((blks s)(a \<mapsto> b')) x = Some c" for x c
    using that fs_invD(3) [OF inv, of x] b b' t by (auto simp: blk_ok_def split: if_splits)
  have ent: "\<exists>c. ((blks s)(a \<mapsto> b')) (l_value e) = Some c \<and> b_handle c = Some h" if "entries (dlru s) h = Some e" for h e
    using fs_invD(4) [OF inv that] b b' by auto
  have dead: "R x = 0" if "((blks s)(a \<mapsto> b')) x = None" for x using that fs_invD(5) [OF inv, of x] by (auto split: if_splits)
  show ?thesis
    using indexed_upd [OF fs_invD(2) [OF inv] b t] fs_invD(1) [OF inv] ok ent dead unfolding fs_inv_def by simp
qed

lemma fs_inv_cong:
  assumes "fs_inv R s" and "dlru s' = dlru s" "dirs s' = dirs s" "blks s' = blks s" "next_blk s' = next_blk s"
  shows "fs_inv R s'"
  using assms unfolding fs_inv_def blk_ok_def by simp

lemma new_Filesystem_inv: "fs_inv (\<lambda>_. 0) (new_Filesystem o' db ros)"
  using new_LRUCache_inv [of "dir_lru_size o'"]
  by (simp add: fs_inv_def new_Filesystem_def indexed_def ht_map_new new_HashTable_ok) (simp add: new_LRUCache_def)

end
