(* ===== verification/Fs_Steps.thy ===== *)
theory Fs_Steps
  imports Fs_Blocks
begin

text \<open>
  The handlers of \<^verbatim>\<open>fs.cc\<close> interleaved. A thread runs one handler; it moves from one critical section to the next, and the
  other threads may move whenever it holds neither \<^verbatim>\<open>mutex_\<close> nor the lock of a block. A step of a thread is one such
  section, or one operation of the store, which runs unlocked.
\<close>

section \<open>Threads\<close>

datatype request =
    Bukin_req string
  | Lokup_req slice
  | Lstat_req slice
  | Mkfls_req slice u32 u32
  | Mkfle_req slice u32
  | Mkdir_req slice u32

record call =
  c_who :: User
  c_parent :: LookupStat
  c_req :: request

datatype reply = NoReply | LookupReply LookupStat | StatReply Stat | CountReply u32

text \<open>The local variables of a handler: \<open>t_num\<close> inode numbers from \<open>t_first\<close> are reserved, \<open>t_done\<close> of them used.\<close>

record task =
  t_call :: call
  t_dir :: nat
  t_stat :: Stat
  t_first :: u64
  t_num :: nat
  t_done :: nat
  t_stats :: FilesystemDbStats

text \<open>The names still to be created: one name, or the rest of an array.\<close>

datatype work = OneName slice | NameArray slice

fun next_name :: "work \<Rightarrow> (slice \<times> work) option" where
  "next_name (OneName name) = Some (name, OneName name)"
| "next_name (NameArray input) = map_option (\<lambda>(name, input). (name, NameArray input)) (GetLengthPrefixedSlice input)"

datatype thread =
    Start call
  | Check task
  | Lock task nat
  | Names task work
  | Put task slice work
  | Bulk task
  | Read task
  | Unlock task status reply
  | Finish task status reply nat
  | Done status reply

abbreviation t_req :: "task \<Rightarrow> request" where
  "t_req t \<equiv> c_req (t_call t)"

abbreviation t_at :: "task \<Rightarrow> DirId" where
  "t_at t \<equiv> DirId_LookupStat (c_parent (t_call t))"

fun ways :: "request \<Rightarrow> nat list" where
  "ways (Bukin_req _) = all_ways"
| "ways (Mkfls_req _ _ _) = all_ways"
| "ways (Mkfle_req name _) = [way_of name]"
| "ways (Mkdir_req name _) = [way_of name]"
| "ways (Lokup_req _) = []"
| "ways (Lstat_req _) = []"

text \<open>The inode numbers and the inode that a handler prepares.\<close>

fun prepare :: "request \<Rightarrow> User \<Rightarrow> 'db Filesystem \<Rightarrow> Stat \<times> u64 \<times> nat \<times> 'db Filesystem" where
  "prepare (Mkfls_req _ mode n) who s =
     (let i = inoq s + ucast n
      in (new_Stat (fs_options s) who (file_mode mode) (- 1) 0, i - ucast n + 1, unat n, s\<lparr>inoq := i\<rparr>))"
| "prepare (Mkfle_req _ mode) who s =
     (let i = inoq s + 1 in (new_Stat (fs_options s) who (file_mode mode) (- 1) i, i, 1, s\<lparr>inoq := i\<rparr>))"
| "prepare (Mkdir_req _ mode) who s =
     (let i = inoq s + 1
      in (new_Stat (fs_options s) who (dir_mode mode) (PickupServer \<lparr>dno = mydno (fs_options s), ino = i\<rparr>) i, i, 1, s\<lparr>inoq := i\<rparr>))"
| "prepare _ who s = (new_Stat (fs_options s) who 0 0 0, 0, 0, s)"

definition check_request :: "u64 \<Rightarrow> task \<Rightarrow> 'db Filesystem \<Rightarrow> (status \<times> 'db Filesystem) option" where
  "check_request now t s =
     (let p = c_parent (t_call t); who = c_who (t_call t); a = t_dir t;
          w = (\<lambda>name. check_dir (IsDirWriteOk (fs_options s) p who) ''No write perm'' name p now a s);
          x = (\<lambda>name. check_dir (IsLookupOk (fs_options s) p who) ''No dir x perm'' (Some name) p now a s)
      in case t_req t of
           Bukin_req _ \<Rightarrow> w None
         | Mkfls_req _ _ _ \<Rightarrow> w None
         | Mkfle_req name _ \<Rightarrow> w (Some name)
         | Mkdir_req name _ \<Rightarrow> w (Some name)
         | Lokup_req name \<Rightarrow> x name
         | Lstat_req name \<Rightarrow> x name)"

text \<open>What is returned when the checks fail, and how many inode numbers are given back: \<^verbatim>\<open>Mkfls\<close> gives back none.\<close>

fun early_reply :: "request \<Rightarrow> Stat \<Rightarrow> reply \<times> nat" where
  "early_reply (Mkfls_req _ _ n) stat = (CountReply n, 0)"
| "early_reply (Mkfle_req _ _) stat = (StatReply stat, 1)"
| "early_reply (Mkdir_req _ _) stat = (StatReply stat, 1)"
| "early_reply _ stat = (NoReply, 0)"

fun late_reply :: "request \<Rightarrow> Stat \<Rightarrow> nat \<Rightarrow> reply" where
  "late_reply (Mkfls_req _ _ _) stat m = CountReply (word_of_nat m)"
| "late_reply (Mkfle_req _ _) stat m = StatReply stat"
| "late_reply (Mkdir_req _ _) stat m = StatReply stat"
| "late_reply _ stat m = NoReply"

fun begin_work :: "task \<Rightarrow> thread" where
  "begin_work t =
     (case t_req t of
        Bukin_req _ \<Rightarrow> Bulk t
      | Mkfls_req arr _ _ \<Rightarrow> Names t (NameArray arr)
      | Mkfle_req name _ \<Rightarrow> Names t (OneName name)
      | Mkdir_req name _ \<Rightarrow> Names t (OneName name)
      | _ \<Rightarrow> Read t)"

definition read_request :: "'db FsDb \<Rightarrow> task \<Rightarrow> 'db Filesystem \<Rightarrow> thread option" where
  "read_request X t s =
     (case t_req t of
        Lstat_req name \<Rightarrow> do {
          (st, v, stats) \<leftarrow> DbGet X s (t_at t) name (t_stats t);
          Some (Unlock (t\<lparr>t_stats := stats\<rparr>) st (case v of None \<Rightarrow> NoReply | Some x \<Rightarrow> StatReply x))}
      | Lokup_req name \<Rightarrow> do {
          (st, v, stats) \<leftarrow> DbGet X s (t_at t) name (t_stats t);
          (st, l) \<leftarrow> lookup_result st v;
          Some (Unlock (t\<lparr>t_stats := stats\<rparr>) st (case l of None \<Rightarrow> NoReply | Some x \<Rightarrow> LookupReply x))}
      | _ \<Rightarrow> None)"

text \<open>\<^verbatim>\<open>Bukin1\<close> keeps no statistics.\<close>

definition finish_block :: "task \<Rightarrow> 'db Filesystem \<Rightarrow> 'db Filesystem option" where
  "finish_block t s = do {
     s \<leftarrow> (case t_req t of Bukin_req _ \<Rightarrow> Some s | _ \<Rightarrow> merge_stats (t_stats t) (t_dir t) s);
     unlock_ways (t_dir t) (ways (t_req t)) s}"

definition t_last :: "task \<Rightarrow> u64" where
  "t_last t = t_first t + word_of_nat (t_num t) - 1"

section \<open>Steps\<close>

text \<open>One step of a thread; \<open>None\<close> if it has to wait, if an assertion fails, or if it is done.\<close>

fun thread_step :: "'db FsDb \<Rightarrow> u64 \<Rightarrow> thread \<Rightarrow> 'db Filesystem \<Rightarrow> (thread \<times> 'db Filesystem) option" where
  "thread_step X now (Start c) s = do {
     (a, s) \<leftarrow> AcquireDir (DirId_LookupStat (c_parent c)) s;
     case prepare (c_req c) (c_who c) s of
       (stat, i, n, s) \<Rightarrow>
         Some (Check \<lparr>t_call = c, t_dir = a, t_stat = stat, t_first = i, t_num = n, t_done = 0, t_stats = new_stats\<rparr>, s)}"
| "thread_step X now (Check t) s = do {
     (st, s) \<leftarrow> check_request now t s;
     Some (if \<not> ok st then (case early_reply (t_req t) (t_stat t) of (r, k) \<Rightarrow> Finish t st r k)
           else if ways (t_req t) = [] then Read t else Lock t 0, s)}"
| "thread_step X now (Lock t k) s = do {
     s \<leftarrow> lock_way (t_dir t) (ways (t_req t) ! k) s;
     Some (if Suc k < length (ways (t_req t)) then Lock t (Suc k) else begin_work t, s)}"
| "thread_step X now (Names t w) s =
     (case (if t_done t < t_num t then next_name w else None) of
        None \<Rightarrow> Some (Unlock t Okay (late_reply (t_req t) (t_stat t) (t_done t)), s)
      | Some (name, w) \<Rightarrow> do {
          (st, stats) \<leftarrow> check_name X s (t_at t) name (t_stats t);
          let t = t\<lparr>t_stats := stats\<rparr>;
          Some (if ok st then Put t name w else Unlock t st (late_reply (t_req t) (t_stat t) (t_done t)), s)})"
| "thread_step X now (Put t name w) s = do {
     (st, stats, s) \<leftarrow> put_name X (t_at t) name ((t_stat t)\<lparr>InodeNo := t_first t + word_of_nat (t_done t)\<rparr>) (t_stats t) s;
     let t = t\<lparr>t_stats := stats\<rparr>;
     Some (if ok st then Names (t\<lparr>t_done := Suc (t_done t)\<rparr>) w else Unlock t st (late_reply (t_req t) (t_stat t) (t_done t)), s)}"
| "thread_step X now (Bulk t) s =
     (case t_req t of
        Bukin_req table_dir \<Rightarrow> do { (st, s) \<leftarrow> bulk_insert X table_dir s; Some (Unlock t st NoReply, s) }
      | _ \<Rightarrow> None)"
| "thread_step X now (Read t) s = map_option (\<lambda>t. (t, s)) (read_request X t s)"
| "thread_step X now (Unlock t st r) s = do {
     s \<leftarrow> finish_block t s;
     Some (Finish t st r (t_num t - t_done t), s)}"
| "thread_step X now (Finish t st r k) s = do {
     s \<leftarrow> Release (t_dir t) (if \<not> ok st then TryReuseIno (t_last t) (word_of_nat k) s else s);
     Some (Done st r, s)}"
| "thread_step X now (Done st r) s = None"

text \<open>The server: its state and its threads, in the order of their arrival. \<open>P\<close> says which calls arrive.\<close>

inductive fs_step :: "'db FsDb \<Rightarrow> (call \<Rightarrow> bool) \<Rightarrow> 'db Filesystem \<times> thread list \<Rightarrow> 'db Filesystem \<times> thread list \<Rightarrow> bool"
  for X :: "'db FsDb" and P :: "call \<Rightarrow> bool" where
  arrive: "P c \<Longrightarrow> fs_step X P (s, ts) (s, ts @ [Start c])"
| run: "i < length ts \<Longrightarrow> thread_step X now (ts ! i) s = Some (t', s') \<Longrightarrow> fs_step X P (s, ts) (s', ts[i := t'])"

inductive_cases fs_stepE: "fs_step X P c c'"

definition fs_reachable :: "'db FsDb \<Rightarrow> (call \<Rightarrow> bool) \<Rightarrow> nat \<Rightarrow> 'db Filesystem \<times> thread list \<Rightarrow> 'db Filesystem \<times> thread list \<Rightarrow> bool" where
  "fs_reachable X P n c c' \<longleftrightarrow> (fs_step X P ^^ n) c c'"

section \<open>References and ways\<close>

fun task_of :: "thread \<Rightarrow> task option" where
  "task_of (Start c) = None"
| "task_of (Check t) = Some t"
| "task_of (Lock t k) = Some t"
| "task_of (Names t w) = Some t"
| "task_of (Put t name w) = Some t"
| "task_of (Bulk t) = Some t"
| "task_of (Read t) = Some t"
| "task_of (Unlock t st r) = Some t"
| "task_of (Finish t st r k) = Some t"
| "task_of (Done st r) = None"

definition holds :: "thread \<Rightarrow> nat \<Rightarrow> bool" where
  "holds t a \<longleftrightarrow> map_option t_dir (task_of t) = Some a"

text \<open>The ways that a thread has locked.\<close>

fun held :: "thread \<Rightarrow> nat list" where
  "held (Lock t k) = take k (ways (t_req t))"
| "held (Names t w) = ways (t_req t)"
| "held (Put t name w) = ways (t_req t)"
| "held (Bulk t) = ways (t_req t)"
| "held (Unlock t st r) = ways (t_req t)"
| "held _ = []"

definition own :: "thread \<Rightarrow> (nat \<times> nat) set" where
  "own t = {(a, i). holds t a \<and> i \<in> set (held t)}"

definition refs :: "thread list \<Rightarrow> nat \<Rightarrow> nat" where
  "refs ts a = length (filter (\<lambda>t. holds t a) ts)"

lemma refs_upd:
  "i < length ts \<Longrightarrow> refs (ts[i := t]) a + (if holds (ts ! i) a then 1 else 0) = refs ts a + (if holds t a then 1 else 0)"
proof (induction ts arbitrary: i)
  case (Cons x ts)
  then show ?case by (cases i) (auto simp: refs_def)
qed simp

lemma refs_same: "i < length ts \<Longrightarrow> task_of t = Some k \<Longrightarrow> task_of (ts ! i) = Some k' \<Longrightarrow> t_dir k = t_dir k' \<Longrightarrow> refs (ts[i := t]) = refs ts"
  using refs_upd [of i ts t] by (auto simp: fun_eq_iff holds_def split: if_splits)

lemma refs_add:
  assumes "i < length ts" and "task_of (ts ! i) = None" and "task_of t = Some k"
  shows "refs (ts[i := t]) = (refs ts)(t_dir k := refs ts (t_dir k) + 1)"
  using refs_upd [OF assms(1), of t] assms(2,3) by (auto simp: fun_eq_iff holds_def split: if_splits)

lemma refs_drop:
  assumes "i < length ts" and "task_of (ts ! i) = Some k" and "task_of t = None"
  shows "refs (ts[i := t]) = (refs ts)(t_dir k := refs ts (t_dir k) - 1)"
proof
  fix a
  show "refs (ts[i := t]) a = ((refs ts)(t_dir k := refs ts (t_dir k) - 1)) a"
    using refs_upd [OF assms(1), of t a] assms(2,3) by (cases "a = t_dir k") (auto simp: holds_def)
qed

lemma refs_pos: "i < length ts \<Longrightarrow> task_of (ts ! i) = Some k \<Longrightarrow> 0 < refs ts (t_dir k)"
  using refs_upd [of i ts "Done Okay NoReply" "t_dir k"] by (simp add: holds_def)

lemma refs_append: "refs (ts @ [Start c]) = refs ts"
  by (simp add: refs_def holds_def fun_eq_iff)

definition ways_inv :: "(nat \<Rightarrow> DirBlock option) \<Rightarrow> thread list \<Rightarrow> bool" where
  "ways_inv B ts \<longleftrightarrow>
     (\<forall>i < length ts. \<forall>j < length ts. i \<noteq> j \<longrightarrow> own (ts ! i) \<inter> own (ts ! j) = {}) \<and>
     (\<forall>a b k. B a = Some b \<longrightarrow> k < kWays \<longrightarrow> b_busy b ! k = (\<exists>i < length ts. (a, k) \<in> own (ts ! i)))"

lemma ways_invD:
  assumes "ways_inv B ts"
  shows "\<And>i j. i < length ts \<Longrightarrow> j < length ts \<Longrightarrow> i \<noteq> j \<Longrightarrow> own (ts ! i) \<inter> own (ts ! j) = {}"
    and "\<And>a b k. B a = Some b \<Longrightarrow> k < kWays \<Longrightarrow> b_busy b ! k = (\<exists>i < length ts. (a, k) \<in> own (ts ! i))"
  using assms unfolding ways_inv_def by blast+

text \<open>One thread changes what it owns, and the blocks follow.\<close>

lemma ways_inv_upd:
  assumes w: "ways_inv B ts" and i: "i < length ts"
    and disj: "\<And>j. j < length ts \<Longrightarrow> j \<noteq> i \<Longrightarrow> own t \<inter> own (ts ! j) = {}"
    and busy: "\<And>a b k. B' a = Some b \<Longrightarrow> k < kWays \<Longrightarrow>
      b_busy b ! k = ((a, k) \<in> own t \<or> (\<exists>j < length ts. j \<noteq> i \<and> (a, k) \<in> own (ts ! j)))"
  shows "ways_inv B' (ts[i := t])"
  unfolding ways_inv_def length_list_update
proof (intro conjI allI impI)
  fix m j assume "m < length ts" "j < length ts" "m \<noteq> j"
  then show "own (ts[i := t] ! m) \<inter> own (ts[i := t] ! j) = {}"
    using disj [of m] disj [of j] ways_invD(1) [OF w, of m j] by (cases "m = i"; cases "j = i") (auto simp: Int_commute)
next
  fix a b k assume "B' a = Some b" "k < kWays"
  then show "b_busy b ! k = (\<exists>j < length ts. (a, k) \<in> own (ts[i := t] ! j))"
    using busy [of a b k] i by (auto simp: nth_list_update)
qed

lemma ways_inv_same:
  assumes w: "ways_inv B ts" and i: "i < length ts" and o: "own t = own (ts ! i)"
    and live: "\<And>j a. j < length ts \<Longrightarrow> holds (ts ! j) a \<Longrightarrow> B a \<noteq> None"
    and B': "\<And>a b'. B' a = Some b' \<Longrightarrow> (\<exists>b. B a = Some b \<and> b_busy b' = b_busy b) \<or> B a = None \<and> b_busy b' = replicate kWays False"
  shows "ways_inv B' (ts[i := t])"
proof (rule ways_inv_upd [OF w i])
  fix j assume "j < length ts" "j \<noteq> i"
  then show "own t \<inter> own (ts ! j) = {}" using ways_invD(1) [OF w i] o by auto
next
  fix a b' k assume b': "B' a = Some b'" and k: "k < kWays"
  have e: "((a, k) \<in> own t \<or> (\<exists>j < length ts. j \<noteq> i \<and> (a, k) \<in> own (ts ! j))) = (\<exists>j < length ts. (a, k) \<in> own (ts ! j))"
    using i o by auto
  from B' [OF b'] show "b_busy b' ! k = ((a, k) \<in> own t \<or> (\<exists>j < length ts. j \<noteq> i \<and> (a, k) \<in> own (ts ! j)))"
  proof
    assume "\<exists>b. B a = Some b \<and> b_busy b' = b_busy b"
    then show ?thesis unfolding e using ways_invD(2) [OF w _ k] by auto
  next
    assume "B a = None \<and> b_busy b' = replicate kWays False"
    moreover have "(a, k) \<notin> own (ts ! j)" if "j < length ts" "B a = None" for j using live [OF that(1), of a] that(2) by (auto simp: own_def)
    ultimately show ?thesis unfolding e using k by auto
  qed
qed

lemma ways_inv_lock:
  assumes w: "ways_inv B ts" and i: "i < length ts" and o: "own t = insert (a, k) (own (ts ! i))"
    and b: "B a = Some b" "\<not> b_busy b ! k" "k < kWays" "length (b_busy b) = kWays"
  shows "ways_inv (B(a \<mapsto> b\<lparr>b_busy := (b_busy b)[k := True]\<rparr>)) (ts[i := t])"
proof (rule ways_inv_upd [OF w i])
  have free: "(a, k) \<notin> own (ts ! j)" if "j < length ts" for j using ways_invD(2) [OF w b(1,3)] b(2) that by auto
  fix j assume j: "j < length ts" "j \<noteq> i"
  then show "own t \<inter> own (ts ! j) = {}" using ways_invD(1) [OF w i j(1)] free [OF j(1)] o by auto
next
  fix x b' m assume b': "(B(a \<mapsto> b\<lparr>b_busy := (b_busy b)[k := True]\<rparr>)) x = Some b'" and m: "m < kWays"
  have e: "((x, m) \<in> own t \<or> (\<exists>j < length ts. j \<noteq> i \<and> (x, m) \<in> own (ts ! j))) \<longleftrightarrow>
      (x, m) = (a, k) \<or> (\<exists>j < length ts. (x, m) \<in> own (ts ! j))"
    using i o by auto
  show "b_busy b' ! m = ((x, m) \<in> own t \<or> (\<exists>j < length ts. j \<noteq> i \<and> (x, m) \<in> own (ts ! j)))"
    unfolding e using b' b ways_invD(2) [OF w b(1) m] ways_invD(2) [OF w _ m, of x b'] m
    by (cases "x = a"; cases "m = k") auto
qed

lemma clear_ways_nth: "m < length bs \<Longrightarrow> clear_ways ks bs ! m = (bs ! m \<and> m \<notin> set ks)"
proof (induction ks arbitrary: bs)
  case (Cons k ks)
  then show ?case using Cons.IH [of "bs[k := False]"] by (cases "m = k") (auto simp: clear_ways_def)
qed (simp add: clear_ways_def)

lemma length_clear_ways [simp]: "length (clear_ways ks bs) = length bs"
  unfolding clear_ways_def by (induction ks arbitrary: bs) auto

lemma ways_inv_unlock:
  assumes w: "ways_inv B ts" and i: "i < length ts" and o: "own t = {}" "own (ts ! i) = {(x, k). x = a \<and> k \<in> set ks}"
    and b: "B a = Some b" "length (b_busy b) = kWays" "b_busy b' = clear_ways ks (b_busy b)"
  shows "ways_inv (B(a \<mapsto> b')) (ts[i := t])"
proof (rule ways_inv_upd [OF w i])
  fix j show "own t \<inter> own (ts ! j) = {}" using o by simp
next
  fix x c m assume c: "(B(a \<mapsto> b')) x = Some c" and m: "m < kWays"
  have mine: "(x, m) \<notin> own (ts ! j)" if "(x, m) \<in> own (ts ! i)" "j < length ts" "j \<noteq> i" for j
    using ways_invD(1) [OF w i that(2)] that by auto
  have e: "((x, m) \<in> own t \<or> (\<exists>j < length ts. j \<noteq> i \<and> (x, m) \<in> own (ts ! j))) \<longleftrightarrow>
      (\<exists>j < length ts. (x, m) \<in> own (ts ! j)) \<and> (x, m) \<notin> own (ts ! i)"
    using i o(1) mine by auto
  show "b_busy c ! m = ((x, m) \<in> own t \<or> (\<exists>j < length ts. j \<noteq> i \<and> (x, m) \<in> own (ts ! j)))"
  proof (cases "x = a")
    case True
    then have "b_busy c ! m = (b_busy b ! m \<and> m \<notin> set ks)" using c b m clear_ways_nth [of m "b_busy b" ks] by auto
    then show ?thesis unfolding e using True o(2) ways_invD(2) [OF w b(1) m] by auto
  next
    case False
    then show ?thesis unfolding e using c o(2) ways_invD(2) [OF w _ m, of x c] by auto
  qed
qed

section \<open>The invariant of the blocks and ways\<close>

fun work_ok :: "request \<Rightarrow> work \<Rightarrow> bool" where
  "work_ok req (OneName name) \<longleftrightarrow> (\<exists>m. req = Mkfle_req name m \<or> req = Mkdir_req name m)"
| "work_ok req (NameArray arr) \<longleftrightarrow> (\<exists>a m n. req = Mkfls_req a m n)"

fun req_num :: "request \<Rightarrow> nat" where
  "req_num (Mkfls_req _ _ n) = unat n"
| "req_num (Mkfle_req _ _) = 1"
| "req_num (Mkdir_req _ _) = 1"
| "req_num _ = 0"

fun shape_ok :: "thread \<Rightarrow> bool" where
  "shape_ok (Check t) \<longleftrightarrow> t_done t = 0 \<and> t_num t = req_num (t_req t)"
| "shape_ok (Lock t k) \<longleftrightarrow> t_done t = 0 \<and> k < length (ways (t_req t))"
| "shape_ok (Names t w) \<longleftrightarrow> t_done t \<le> t_num t \<and> work_ok (t_req t) w"
| "shape_ok (Put t name w) \<longleftrightarrow> t_done t < t_num t \<and> work_ok (t_req t) w \<and> way_of name \<in> set (ways (t_req t))"
| "shape_ok (Bulk t) \<longleftrightarrow> t_done t = 0 \<and> (\<exists>d. t_req t = Bukin_req d)"
| "shape_ok (Read t) \<longleftrightarrow> t_done t = 0 \<and> (\<exists>name. t_req t = Lokup_req name \<or> t_req t = Lstat_req name)"
| "shape_ok (Unlock t st r) \<longleftrightarrow> t_done t \<le> t_num t"
| "shape_ok (Finish t st r k) \<longleftrightarrow> t_done t + k \<le> t_num t"
| "shape_ok _ \<longleftrightarrow> True"

definition thread_ok :: "(nat \<Rightarrow> DirBlock option) \<Rightarrow> thread \<Rightarrow> bool" where
  "thread_ok B t \<longleftrightarrow> shape_ok t \<and> (\<forall>k. task_of t = Some k \<longrightarrow> (\<exists>b. B (t_dir k) = Some b \<and> b_id b = t_at k))"

definition conc_inv :: "'db Filesystem \<times> thread list \<Rightarrow> bool" where
  "conc_inv c \<longleftrightarrow>
     (case c of (s, ts) \<Rightarrow> fs_inv (refs ts) s \<and> ways_inv (blks s) ts \<and> (\<forall>i < length ts. thread_ok (blks s) (ts ! i)))"

lemma conc_invD:
  assumes "conc_inv (s, ts)"
  shows "fs_inv (refs ts) s" and "ways_inv (blks s) ts" and "\<And>i. i < length ts \<Longrightarrow> thread_ok (blks s) (ts ! i)"
    and "\<And>i. i < length ts \<Longrightarrow> shape_ok (ts ! i)"
    and "\<And>i k. i < length ts \<Longrightarrow> task_of (ts ! i) = Some k \<Longrightarrow> \<exists>b. blks s (t_dir k) = Some b \<and> b_id b = t_at k"
    and "\<And>i a. i < length ts \<Longrightarrow> holds (ts ! i) a \<Longrightarrow> blks s a \<noteq> None"
proof -
  show i: "fs_inv (refs ts) s" "ways_inv (blks s) ts" "\<And>i. i < length ts \<Longrightarrow> thread_ok (blks s) (ts ! i)"
    using assms unfolding conc_inv_def by auto
  show "\<And>i. i < length ts \<Longrightarrow> shape_ok (ts ! i)" using i(3) by (simp add: thread_ok_def)
  show t: "\<And>i k. i < length ts \<Longrightarrow> task_of (ts ! i) = Some k \<Longrightarrow> \<exists>b. blks s (t_dir k) = Some b \<and> b_id b = t_at k"
    using i(3) by (simp add: thread_ok_def)
  fix i a assume "i < length ts" "holds (ts ! i) a"
  then show "blks s a \<noteq> None" using t by (fastforce simp: holds_def)
qed

text \<open>What most sections do to the blocks: nothing that the others rely on.\<close>

definition frames :: "'db Filesystem \<Rightarrow> 'db Filesystem \<Rightarrow> bool" where
  "frames s s' \<longleftrightarrow> (\<forall>R. fs_inv R s \<longrightarrow> fs_inv R s') \<and>
     (\<forall>a. map_option (\<lambda>b. (b_id b, b_busy b)) (blks s' a) = map_option (\<lambda>b. (b_id b, b_busy b)) (blks s a))"

lemma frames_refl [simp]: "frames s s"
  by (simp add: frames_def)

lemma frames_trans: "frames s t \<Longrightarrow> frames t u \<Longrightarrow> frames s u"
  by (simp add: frames_def)

lemma frames_blk: "frames s s' \<Longrightarrow> blks s' a = Some b' \<Longrightarrow> \<exists>b. blks s a = Some b \<and> b_id b = b_id b' \<and> b_busy b = b_busy b'"
  unfolding frames_def by (cases "blks s a") (metis (no_types, lifting) map_option_eq_Some option.simps(8,9) option.distinct(1) prod.inject option.inject)+

lemma frames_blk': "frames s s' \<Longrightarrow> blks s a = Some b \<Longrightarrow> \<exists>b'. blks s' a = Some b' \<and> b_id b = b_id b' \<and> b_busy b = b_busy b'"
  unfolding frames_def by (cases "blks s' a") (metis (no_types, lifting) map_option_eq_Some option.simps(8,9) option.distinct(1) prod.inject option.inject)+

lemma frames_update:
  assumes "blks s a = Some b" "b_id b' = b_id b" "b_key b' = b_key b" "b_hash b' = b_hash b" "b_handle b' = b_handle b" "b_busy b' = b_busy b"
  shows "frames s (s\<lparr>blks := (blks s)(a \<mapsto> b')\<rparr>)"
  using assms fs_inv_update [of _ s a b b'] by (auto simp: frames_def)

lemma frames_fields:
  "dlru s' = dlru s \<Longrightarrow> dirs s' = dirs s \<Longrightarrow> blks s' = blks s \<Longrightarrow> next_blk s' = next_blk s \<Longrightarrow> frames s s'"
  unfolding frames_def using fs_inv_cong by fastforce

lemma merge_stats_frames: "merge_stats p a s = Some s' \<Longrightarrow> frames s s'"
  by (auto simp: merge_stats_def update_block_def intro: frames_update)

lemma MaybeFetchDir_same:
  "MaybeFetchDir opt b = Some b' \<Longrightarrow> b_id b' = b_id b \<and> b_key b' = b_key b \<and> b_hash b' = b_hash b \<and> b_handle b' = b_handle b \<and> b_busy b' = b_busy b"
  by (auto simp: MaybeFetchDir_def Let_def bind_eq_Some_conv split: if_splits)

lemma check_dir_frames:
  assumes "check_dir access msg name p now a s = Some (st, s')"
  shows "frames s s'"
proof -
  have "s' = s \<or> (\<exists>b b'. blks s a = Some b \<and> MaybeFetchDir (fs_options s) b = Some b' \<and> s' = s\<lparr>blks := (blks s)(a \<mapsto> b')\<rparr>)"
    using assms by (auto simp: check_dir_def Let_def bind_eq_Some_conv split: if_splits option.splits)
  then show ?thesis
  proof (elim disjE exE conjE)
    fix b b' assume b: "blks s a = Some b" "MaybeFetchDir (fs_options s) b = Some b'" "s' = s\<lparr>blks := (blks s)(a \<mapsto> b')\<rparr>"
    show ?thesis unfolding b(3) using MaybeFetchDir_same [OF b(2)] by (intro frames_update [OF b(1)]) simp_all
  qed simp
qed

lemma check_request_frames: "check_request now t s = Some (st, s') \<Longrightarrow> frames s s'"
  by (auto simp: check_request_def Let_def split: request.splits dest: check_dir_frames)

lemma put_name_frames: "put_name X at name st p s = Some (r, p', s') \<Longrightarrow> frames s s'"
  by (auto simp: put_name_def split: option.splits intro!: frames_fields)

lemma bulk_insert_frames: "bulk_insert X d s = Some (r, s') \<Longrightarrow> frames s s'"
  by (auto simp: bulk_insert_def map_option_case case_prod_unfold split: option.splits intro!: frames_fields)

lemma TryReuseIno_frames: "frames s (TryReuseIno i n s)"
  by (auto simp: TryReuseIno_def intro: frames_fields)

text \<open>A step of thread \<open>i\<close> that keeps what it owns.\<close>

lemma conc_inv_frames:
  assumes inv: "conc_inv (s, ts)" and i: "i < length ts" and f: "frames s s'"
    and k: "task_of (ts ! i) = Some k" "task_of t = Some k'" "t_dir k' = t_dir k" "t_call k' = t_call k"
    and o: "set (held t) = set (held (ts ! i))" and sh: "shape_ok t"
  shows "conc_inv (s', ts[i := t])"
proof -
  have "fs_inv (refs (ts[i := t])) s'" using conc_invD(1) [OF inv] f refs_same [OF i k(2,1,3)] by (simp add: frames_def)
  moreover have "own t = own (ts ! i)" using k o by (auto simp: own_def holds_def)
  then have "ways_inv (blks s') (ts[i := t])"
    by (rule ways_inv_same [OF conc_invD(2) [OF inv] i]) (use conc_invD(6) [OF inv] frames_blk [OF f] in metis)+
  moreover have "thread_ok (blks s') (ts[i := t] ! j)" if j: "j < length (ts[i := t])" for j
  proof (cases "j = i")
    case True
    obtain b where "blks s (t_dir k) = Some b" "b_id b = t_at k" using conc_invD(5) [OF inv i k(1)] by blast
    then show ?thesis using True i sh k frames_blk' [OF f, of "t_dir k" b] by (auto simp: thread_ok_def)
  next
    case False
    then have "shape_ok (ts ! j)" using conc_invD(4) [OF inv] j by simp
    moreover have "\<exists>b. blks s' (t_dir m) = Some b \<and> b_id b = t_at m" if m: "task_of (ts ! j) = Some m" for m
    proof -
      obtain b where "blks s (t_dir m) = Some b" "b_id b = t_at m" using conc_invD(5) [OF inv _ m] j by auto
      then show ?thesis using frames_blk' [OF f, of "t_dir m" b] by auto
    qed
    ultimately show ?thesis using False by (simp add: thread_ok_def)
  qed
  ultimately show ?thesis by (simp add: conc_inv_def)
qed

text \<open>The blocks that other threads hold survive a change of the references of one.\<close>

lemma thread_ok_others:
  assumes inv: "conc_inv (s, ts)" and i: "i < length ts" and s': "fs_inv (refs (ts[i := t])) s'"
    and B: "\<And>a b. blks s' a = Some b \<Longrightarrow> blks s a \<noteq> None \<Longrightarrow> blks s a = Some b" and j: "j < length ts" "j \<noteq> i"
  shows "thread_ok (blks s') (ts ! j)"
proof -
  have "\<exists>b. blks s' (t_dir m) = Some b \<and> b_id b = t_at m" if m: "task_of (ts ! j) = Some m" for m
  proof -
    obtain b where b: "blks s (t_dir m) = Some b" "b_id b = t_at m" using conc_invD(5) [OF inv j(1) m] by blast
    have "0 < refs (ts[i := t]) (t_dir m)" using refs_pos [of j "ts[i := t]" m] j m by simp
    then obtain b' where b': "blks s' (t_dir m) = Some b'" using fs_inv_live [of "refs (ts[i := t])" s' "t_dir m"] s' by blast
    then have "b' = b" using B [OF b'] b(1) by simp
    then show ?thesis using b b' by simp
  qed
  then show ?thesis using conc_invD(4) [OF inv j(1)] by (simp add: thread_ok_def)
qed

lemma prepare_fields:
  assumes "prepare req who s = (stat, i, n, s')"
  shows "frames s s'" "fs_options s' = fs_options s" "fs_db s' = fs_db s" "readonly_dbs s' = readonly_dbs s" "n = req_num req"
  using assms by (cases "(req, who, s)" rule: prepare.cases; auto simp: Let_def intro: frames_fields)+

lemma step_Start:
  assumes inv: "conc_inv (s, ts)" and i: "i < length ts" "ts ! i = Start c" and st: "thread_step X now (Start c) s = Some (t, s')"
  shows "conc_inv (s', ts[i := t])"
proof -
  obtain a s1 where a: "AcquireDir (DirId_LookupStat (c_parent c)) s = Some (a, s1)" "fs_inv ((refs ts)(a := refs ts a + 1)) s1"
    "acquired (DirId_LookupStat (c_parent c)) s a s1"
    using AcquireDir_ok [OF conc_invD(1) [OF inv]] by blast
  obtain stat m n s2 where p: "prepare (c_req c) (c_who c) s1 = (stat, m, n, s2)" by (cases "prepare (c_req c) (c_who c) s1") auto
  let ?k = "\<lparr>t_call = c, t_dir = a, t_stat = stat, t_first = m, t_num = n, t_done = 0, t_stats = new_stats\<rparr>"
  have t: "t = Check ?k" "s' = s2" using st a(1) p by simp_all
  have f: "frames s1 s'" using prepare_fields(1) [OF p] t(2) by simp
  have r: "refs (ts[i := t]) = (refs ts)(a := refs ts a + 1)" using refs_add [OF i(1), of t ?k] i(2) t(1) by simp
  have F: "fs_inv (refs (ts[i := t])) s'" using a(2) f r by (simp add: frames_def)
  have F1: "fs_inv (refs (ts[i := t])) s1" using a(2) r by simp
  have B1: "blks s a' = Some b'" if "blks s1 a' = Some b'" "blks s a' \<noteq> None" for a' b'
  proof -
    have "blks s a' = Some b' \<or> (a' = a \<and> blks s a = None \<and> b_busy b' = replicate kWays False)"
      using a(3) that(1) unfolding acquired_def by blast
    then show ?thesis using that(2) by auto
  qed
  have W: "ways_inv (blks s') (ts[i := t])"
  proof (rule ways_inv_same [OF conc_invD(2) [OF inv] i(1)])
    show "own t = own (ts ! i)" using i(2) t(1) by (simp add: own_def)
    show "\<And>j a. j < length ts \<Longrightarrow> holds (ts ! j) a \<Longrightarrow> blks s a \<noteq> None" by (rule conc_invD(6) [OF inv])
    fix a' b' assume "blks s' a' = Some b'"
    then obtain b1 where b1: "blks s1 a' = Some b1" "b_busy b1 = b_busy b'" using frames_blk [OF f] by blast
    then have "blks s a' = Some b1 \<or> blks s a' = None \<and> b_busy b1 = replicate kWays False" using a(3) unfolding acquired_def by blast
    then show "(\<exists>b. blks s a' = Some b \<and> b_busy b' = b_busy b) \<or> blks s a' = None \<and> b_busy b' = replicate kWays False"
      using b1(2) by auto
  qed
  have T: "thread_ok (blks s') (ts[i := t] ! j)" if j: "j < length (ts[i := t])" for j
  proof (cases "j = i")
    case True
    obtain b where "blks s1 a = Some b" "b_id b = DirId_LookupStat (c_parent c)" using a(3) by (auto simp: acquired_def)
    then show ?thesis using True i t(1) frames_blk' [OF f, of a b] prepare_fields(5) [OF p] by (auto simp: thread_ok_def)
  next
    case False
    have o1: "thread_ok (blks s1) (ts ! j)" using thread_ok_others [OF inv i(1) F1 B1] j False by simp
    have "\<exists>b. blks s' (t_dir k) = Some b \<and> b_id b = t_at k" if k: "task_of (ts ! j) = Some k" for k
    proof -
      obtain b where "blks s1 (t_dir k) = Some b" "b_id b = t_at k" using o1 k by (auto simp: thread_ok_def)
      then show ?thesis using frames_blk' [OF f, of "t_dir k" b] by auto
    qed
    then show ?thesis using False o1 by (simp add: thread_ok_def)
  qed
  show ?thesis using F W T by (simp add: conc_inv_def)
qed

lemma way_of_less: "way_of name < kWays"
proof -
  have "(7 :: u32) = mask 3" by (simp add: mask_eq_exp_minus_1)
  then have "unat (x AND 7 :: u32) = unat x mod 2 ^ 3" for x
    by (simp only: unsigned_take_bit_eq take_bit_eq_mod [of 3 "unat x"] flip: take_bit_eq_mask)
  then show ?thesis by (simp add: way_of_def kWays_def)
qed

lemma way_less: "k \<in> set (ways req) \<Longrightarrow> k < kWays"
  by (cases req) (auto simp: all_ways_def way_of_less)

lemma begin_work_ok:
  assumes "ways (t_req t) \<noteq> []" and "t_done t = 0"
  shows "held (begin_work t) = ways (t_req t)" "shape_ok (begin_work t)" "task_of (begin_work t) = Some t"
  using assms by (cases "t_req t"; simp)+

lemma step_Lock:
  assumes inv: "conc_inv (s, ts)" and i: "i < length ts" "ts ! i = Lock k m" and st: "thread_step X now (Lock k m) s = Some (t, s')"
  shows "conc_inv (s', ts[i := t])"
proof -
  let ?w = "ways (t_req k)"
  have sh: "t_done k = 0" "m < length ?w" using conc_invD(4) [OF inv i(1)] i(2) by simp_all
  have w: "?w ! m < kWays" using way_less sh(2) nth_mem by blast
  have kk: "task_of (ts ! i) = Some k" using i(2) by simp
  obtain b where b: "blks s (t_dir k) = Some b" "b_id b = t_at k" using conc_invD(5) [OF inv i(1) kk] by blast
  have len: "length (b_busy b) = kWays" using fs_invD(3) [OF conc_invD(1) [OF inv] b(1)] by (simp add: blk_ok_def)
  let ?b = "b\<lparr>b_busy := (b_busy b)[?w ! m := True]\<rparr>"
  have s': "\<not> b_busy b ! (?w ! m)" "s' = s\<lparr>blks := (blks s)(t_dir k \<mapsto> ?b)\<rparr>"
    "t = (if Suc m < length ?w then Lock k (Suc m) else begin_work k)"
    using st b(1) by (auto simp: lock_way_def update_block_def bind_eq_Some_conv split: if_splits)
  have ne: "?w \<noteq> []" using sh(2) by auto
  have last: "set ?w = insert (?w ! m) (set (take m ?w))" if "\<not> Suc m < length ?w"
  proof -
    have "?w = take (Suc m) ?w" using that by simp
    also have "\<dots> = take m ?w @ [?w ! m]" by (rule take_Suc_conv_app_nth [OF sh(2)])
    finally have "set ?w = set (take m ?w @ [?w ! m])" by (rule arg_cong)
    then show ?thesis by simp
  qed
  have t: "task_of t = Some k" "set (held t) = insert (?w ! m) (set (take m ?w))" "shape_ok t"
    using s'(3) begin_work_ok [OF ne sh(1)] sh last by (auto simp: take_Suc_conv_app_nth simp del: begin_work.simps)
  have r: "refs (ts[i := t]) = refs ts" by (rule refs_same [OF i(1) t(1) kk refl])
  have "fs_inv (refs (ts[i := t])) s'" unfolding s'(2) r by (rule fs_inv_update [OF conc_invD(1) [OF inv] b(1)]) simp_all
  moreover have "own t = insert (t_dir k, ?w ! m) (own (ts ! i))" using t(1,2) i(2) by (auto simp: own_def holds_def)
  then have "ways_inv (blks s') (ts[i := t])"
    unfolding s'(2) using ways_inv_lock [OF conc_invD(2) [OF inv] i(1) _ b(1) s'(1) w len] by simp
  moreover have "thread_ok (blks s') (ts[i := t] ! j)" if j: "j < length (ts[i := t])" for j
  proof -
    have B: "\<exists>b'. blks s' a = Some b' \<and> b_id b' = d" if "\<exists>c. blks s a = Some c \<and> b_id c = d" for a d
      using that b unfolding s'(2) by auto
    show ?thesis
    proof (cases "j = i")
      case True
      then show ?thesis using i(1) t B [of "t_dir k" "t_at k"] b by (simp add: thread_ok_def)
    next
      case False
      then show ?thesis using conc_invD(3) [OF inv, of j] j B by (simp add: thread_ok_def)
    qed
  qed
  ultimately show ?thesis by (simp add: conc_inv_def)
qed

lemma step_Unlock:
  assumes inv: "conc_inv (s, ts)" and i: "i < length ts" "ts ! i = Unlock k st r"
    and step: "thread_step X now (Unlock k st r) s = Some (t, s')"
  shows "conc_inv (s', ts[i := t])"
proof -
  obtain s1 where s1: "(case t_req k of Bukin_req _ \<Rightarrow> Some s | _ \<Rightarrow> merge_stats (t_stats k) (t_dir k) s) = Some s1"
    "unlock_ways (t_dir k) (ways (t_req k)) s1 = Some s'"
    and t: "t = Finish k st r (t_num k - t_done k)"
    using step by (auto simp: finish_block_def bind_eq_Some_conv)
  have f: "frames s s1" using s1(1) by (auto split: request.splits dest: merge_stats_frames)
  have sh: "t_done k \<le> t_num k" using conc_invD(4) [OF inv i(1)] i(2) by simp
  have ki: "task_of (ts ! i) = Some k" using i(2) by simp
  have inv1: "conc_inv (s1, ts)"
    using conc_inv_frames [OF inv i(1) f ki ki refl refl refl] conc_invD(4) [OF inv i(1)] by simp
  obtain b where b: "blks s1 (t_dir k) = Some b" "b_id b = t_at k" using conc_invD(5) [OF inv1 i(1) ki] by blast
  have len: "length (b_busy b) = kWays" using fs_invD(3) [OF conc_invD(1) [OF inv1] b(1)] by (simp add: blk_ok_def)
  let ?b = "b\<lparr>b_busy := clear_ways (ways (t_req k)) (b_busy b)\<rparr>"
  have s': "s' = s1\<lparr>blks := (blks s1)(t_dir k \<mapsto> ?b)\<rparr>" using s1(2) b(1) by (simp add: unlock_ways_def update_block_def)
  have r: "refs (ts[i := t]) = refs ts" using refs_same [OF i(1) _ ki refl, of t] t by simp
  have "fs_inv (refs (ts[i := t])) s'" unfolding s' r by (rule fs_inv_update [OF conc_invD(1) [OF inv1] b(1)]) simp_all
  moreover have "ways_inv (blks s') (ts[i := t])"
    unfolding s' using ways_inv_unlock [OF conc_invD(2) [OF inv1] i(1) _ _ b(1) len, of t "ways (t_req k)" ?b] i(2) t
    by (simp add: own_def holds_def)
  moreover have "thread_ok (blks s') (ts[i := t] ! j)" if j: "j < length (ts[i := t])" for j
  proof -
    have B: "\<exists>b'. blks s' a = Some b' \<and> b_id b' = d" if "\<exists>c. blks s1 a = Some c \<and> b_id c = d" for a d
      using that b unfolding s' by auto
    show ?thesis
    proof (cases "j = i")
      case True
      then show ?thesis using i(1) t sh B [of "t_dir k" "t_at k"] b by (simp add: thread_ok_def)
    next
      case False
      then show ?thesis using conc_invD(3) [OF inv1, of j] j B by (simp add: thread_ok_def)
    qed
  qed
  ultimately show ?thesis by (simp add: conc_inv_def)
qed

lemma step_Finish:
  assumes inv: "conc_inv (s, ts)" and i: "i < length ts" "ts ! i = Finish k st r n"
    and step: "thread_step X now (Finish k st r n) s = Some (t, s')"
  shows "conc_inv (s', ts[i := t])"
proof -
  let ?s = "if \<not> ok st then TryReuseIno (t_last k) (word_of_nat n) s else s"
  have f: "frames s ?s" by (simp add: TryReuseIno_frames)
  have ki: "task_of (ts ! i) = Some k" using i(2) by simp
  have inv1: "conc_inv (?s, ts)"
    using conc_inv_frames [OF inv i(1) f ki ki refl refl refl] conc_invD(4) [OF inv i(1)] by simp
  have pos: "0 < refs ts (t_dir k)" by (rule refs_pos [OF i(1) ki])
  obtain s1 where s1: "Release (t_dir k) ?s = Some s1" "fs_inv ((refs ts)(t_dir k := refs ts (t_dir k) - 1)) s1"
    "\<forall>a b. blks s1 a = Some b \<longrightarrow> blks ?s a = Some b"
    using Release_ok [where R = "refs ts", OF conc_invD(1) [OF inv1], where a = "t_dir k"] pos by blast
  have t: "t = Done st r" "s' = s1" using step s1(1) by simp_all
  have F: "fs_inv (refs (ts[i := t])) s'" using refs_drop [OF i(1) ki, of t] s1(2) t by simp
  have W: "ways_inv (blks s') (ts[i := t])"
    by (rule ways_inv_same [OF conc_invD(2) [OF inv1] i(1)]) (use i(2) t s1(3) conc_invD(6) [OF inv1] in \<open>auto simp: own_def\<close>)
  have "thread_ok (blks s') (ts[i := t] ! j)" if j: "j < length (ts[i := t])" for j
    using thread_ok_others [OF inv1 i(1) F, of j] s1(3) t j i(1) by (cases "j = i") (auto simp: thread_ok_def)
  then show ?thesis using F W by (simp add: conc_inv_def)
qed

text \<open>The sections that keep what their thread owns.\<close>

lemma all_ways_ne [simp]: "all_ways \<noteq> []"
  by (simp add: all_ways_def kWays_def)

definition keeps :: "thread \<Rightarrow> thread \<Rightarrow> bool" where
  "keeps t t' \<longleftrightarrow> (\<exists>k k'. task_of t = Some k \<and> task_of t' = Some k' \<and> t_dir k' = t_dir k \<and> t_call k' = t_call k \<and> t_num k' = t_num k \<and>
     t_first k' = t_first k \<and> t_done k \<le> t_done k') \<and> set (held t') = set (held t) \<and> shape_ok t'"

lemma step_Check:
  assumes sh: "shape_ok (Check k)" and st: "thread_step X now (Check k) s = Some (t, s')"
  shows "frames s s' \<and> keeps (Check k) t"
proof -
  obtain r where r: "check_request now k s = Some (r, s')"
    "t = (if \<not> ok r then (case early_reply (t_req k) (t_stat k) of (r', m) \<Rightarrow> Finish k r r' m)
          else if ways (t_req k) = [] then Read k else Lock k 0)"
    using st by (auto simp: bind_eq_Some_conv)
  have "keeps (Check k) t" using sh r(2) by (cases "t_req k") (auto simp: keeps_def)
  then show ?thesis using check_request_frames [OF r(1)] by blast
qed

lemma next_name_ok: "work_ok req w \<Longrightarrow> next_name w = Some (name, w') \<Longrightarrow> work_ok req w' \<and> way_of name \<in> set (ways req)"
  by (cases w) (auto simp: all_ways_def way_of_less)

lemma step_Names:
  assumes sh: "shape_ok (Names k w)" and st: "thread_step X now (Names k w) s = Some (t, s')"
  shows "s' = s \<and> keeps (Names k w) t"
proof (cases "if t_done k < t_num k then next_name w else None")
  case None
  then show ?thesis using st sh by (auto simp: keeps_def)
next
  case (Some p)
  then obtain name w' where p: "t_done k < t_num k" "next_name w = Some (name, w')"
    by (cases p) (auto split: if_splits)
  obtain r stats where "check_name X s (t_at k) name (t_stats k) = Some (r, stats)" "s' = s"
    "t = (if ok r then Put (k\<lparr>t_stats := stats\<rparr>) name w' else Unlock (k\<lparr>t_stats := stats\<rparr>) r (late_reply (t_req k) (t_stat k) (t_done k)))"
    using st p by (auto simp: bind_eq_Some_conv Let_def)
  then show ?thesis using sh p next_name_ok [of "t_req k" w name w'] by (auto simp: keeps_def)
qed

lemma step_Put:
  assumes sh: "shape_ok (Put k name w)" and st: "thread_step X now (Put k name w) s = Some (t, s')"
  shows "frames s s' \<and> keeps (Put k name w) t"
proof -
  obtain r stats where r: "put_name X (t_at k) name ((t_stat k)\<lparr>InodeNo := t_first k + word_of_nat (t_done k)\<rparr>) (t_stats k) s = Some (r, stats, s')"
    "t = (if ok r then Names (k\<lparr>t_stats := stats, t_done := Suc (t_done k)\<rparr>) w
          else Unlock (k\<lparr>t_stats := stats\<rparr>) r (late_reply (t_req k) (t_stat k) (t_done k)))"
    using st by (auto simp: bind_eq_Some_conv Let_def)
  have "keeps (Put k name w) t" using sh r(2) by (auto simp: keeps_def)
  then show ?thesis using put_name_frames [OF r(1)] by blast
qed

lemma step_Bulk:
  assumes st: "thread_step X now (Bulk k) s = Some (t, s')" and sh: "shape_ok (Bulk k)"
  shows "frames s s' \<and> keeps (Bulk k) t"
  using assms by (auto simp: bind_eq_Some_conv keeps_def split: request.splits dest: bulk_insert_frames)

lemma step_Read:
  assumes sh: "shape_ok (Read k)" and st: "thread_step X now (Read k) s = Some (t, s')"
  shows "s' = s \<and> keeps (Read k) t"
proof -
  obtain st r stats where "t = Unlock (k\<lparr>t_stats := stats\<rparr>) st r" "s' = s"
    using st by (auto simp: read_request_def bind_eq_Some_conv split: request.splits)
  then show ?thesis using sh by (auto simp: keeps_def)
qed

lemma step_keeps:
  assumes sh: "shape_ok t" and t: "\<And>c. t \<noteq> Start c" "\<And>k m. t \<noteq> Lock k m" "\<And>k st r. t \<noteq> Unlock k st r" "\<And>k st r n. t \<noteq> Finish k st r n"
    and st: "thread_step X now t s = Some (t', s')"
  shows "frames s s' \<and> keeps t t'"
proof (cases t)
  case (Names k w)
  then show ?thesis using step_Names assms by (metis frames_refl)
next
  case (Read k)
  then show ?thesis using step_Read assms by (metis frames_refl)
next
  case (Check k)
  show ?thesis using sh st unfolding Check by (rule step_Check)
next
  case (Put k name w)
  show ?thesis using sh st unfolding Put by (rule step_Put)
next
  case (Bulk k)
  show ?thesis using st sh unfolding Bulk by (rule step_Bulk)
qed (use t st in \<open>simp_all del: thread_step.simps(1-9)\<close>)

lemma conc_inv_step:
  assumes "fs_step X P c c'" and "conc_inv c"
  shows "conc_inv c'"
  using assms
proof cases
  case (arrive d s ts)
  have inv: "conc_inv (s, ts)" using assms(2) arrive by simp
  have "own (Start d) = {}" by (simp add: own_def)
  then have "ways_inv (blks s) (ts @ [Start d])"
    using conc_invD(2) [OF inv] unfolding ways_inv_def
    by (auto simp: nth_append less_Suc_eq)
  then show ?thesis
    using conc_invD(1,3) [OF inv] arrive by (auto simp: conc_inv_def refs_append nth_append less_Suc_eq thread_ok_def)
next
  case (run i ts now s t' s')
  have inv: "conc_inv (s, ts)" using assms(2) run by simp
  consider (start) d where "ts ! i = Start d" | (lock) k m where "ts ! i = Lock k m" | (unlock) k st r where "ts ! i = Unlock k st r"
    | (finish) k st r n where "ts ! i = Finish k st r n"
    | (other) "\<And>d. ts ! i \<noteq> Start d" "\<And>k m. ts ! i \<noteq> Lock k m" "\<And>k st r. ts ! i \<noteq> Unlock k st r" "\<And>k st r n. ts ! i \<noteq> Finish k st r n"
    by blast
  then have "conc_inv (s', ts[i := t'])"
  proof cases
    case other
    have "frames s s' \<and> keeps (ts ! i) t'" by (rule step_keeps [OF conc_invD(4) [OF inv run(3)] other run(4)])
    then show ?thesis using conc_inv_frames [OF inv run(3)] by (auto simp: keeps_def)
  qed (use step_Start [OF inv run(3)] step_Lock [OF inv run(3)] step_Unlock [OF inv run(3)] step_Finish [OF inv run(3)] run(4) in
      \<open>auto simp del: thread_step.simps\<close>)
  then show ?thesis using run by simp
qed

end
