(* ===== verification/Fs_Alone.thy ===== *)
theory Fs_Alone
  imports Fs_Steps
begin

text \<open>
  The two models of the handlers agree: a thread that runs from its start to its end while nobody else moves computes what
  the function of its handler in \<open>Fs\<close> computes, stuck where that is stuck.
\<close>

section \<open>Running a thread to its end\<close>

partial_function (option) run_thread :: "'db FsDb \<Rightarrow> u64 \<Rightarrow> thread \<Rightarrow> 'db Filesystem \<Rightarrow> (status \<times> reply \<times> 'db Filesystem) option" where
  "run_thread X now t s =
     (case t of
        Done st r \<Rightarrow> Some (st, r, s)
      | _ \<Rightarrow> (case thread_step X now t s of None \<Rightarrow> None | Some (t, s) \<Rightarrow> run_thread X now t s))"

text \<open>The handler of a call, and its reply.\<close>

fun run_call :: "'db FsDb \<Rightarrow> u64 \<Rightarrow> call \<Rightarrow> 'db Filesystem \<Rightarrow> (status \<times> reply \<times> 'db Filesystem) option" where
  "run_call X now c s =
     (let who = c_who c; p = c_parent c
      in case c_req c of
           Bukin_req d \<Rightarrow> map_option (\<lambda>(st, s). (st, NoReply, s)) (Bukin X now who p d s)
         | Lokup_req nm \<Rightarrow>
             map_option (\<lambda>(st, l, s). (st, case l of None \<Rightarrow> NoReply | Some x \<Rightarrow> LookupReply x, s)) (Lokup X now who p nm s)
         | Lstat_req nm \<Rightarrow>
             map_option (\<lambda>(st, v, _, s). (st, case v of None \<Rightarrow> NoReply | Some x \<Rightarrow> StatReply x, s)) (Lstat X now who p nm new_stats s)
         | Mkfls_req arr mode n \<Rightarrow> map_option (\<lambda>(st, m, s). (st, CountReply m, s)) (Mkfls X now who p arr mode n s)
         | Mkfle_req nm mode \<Rightarrow> map_option (\<lambda>(st, x, s). (st, StatReply x, s)) (Mkfle X now who p nm mode s)
         | Mkdir_req nm mode \<Rightarrow> map_option (\<lambda>(st, x, s). (st, StatReply x, s)) (Mkdir X now who p nm mode s))"

lemma run_thread_step:
  "run_thread X now t s =
     (case t of Done st r \<Rightarrow> Some (st, r, s) | _ \<Rightarrow> Option.bind (thread_step X now t s) (\<lambda>(t, s). run_thread X now t s))"
  by (subst run_thread.simps) (auto split: thread.split simp: Option.bind_def split: option.split)

lemmas run_steps = run_thread_step [of X now "Start c"] run_thread_step [of X now "Check t"] run_thread_step [of X now "Bulk t"]
  run_thread_step [of X now "Read t"] run_thread_step [of X now "Unlock t st r"] run_thread_step [of X now "Finish t st r k"]
  run_thread_step [of X now "Done st r"] for X now c t st r k

section \<open>The loops\<close>

lemma run_Lock:
  "k < length (ways (t_req t)) \<Longrightarrow>
   run_thread X now (Lock t k) s = Option.bind (lock_ways (t_dir t) (drop k (ways (t_req t))) s) (run_thread X now (begin_work t))"
proof (induction "length (ways (t_req t)) - k" arbitrary: k s)
  case (Suc d)
  have d: "drop k (ways (t_req t)) = ways (t_req t) ! k # drop (Suc k) (ways (t_req t))" using Suc.prems by (simp add: Cons_nth_drop_Suc)
  show ?case
  proof (cases "lock_way (t_dir t) (ways (t_req t) ! k) s")
    case None
    then show ?thesis unfolding d by (subst run_thread_step) simp
  next
    case (Some s')
    show ?thesis
    proof (cases "Suc k < length (ways (t_req t))")
      case True
      have "run_thread X now (Lock t (Suc k)) s' =
          Option.bind (lock_ways (t_dir t) (drop (Suc k) (ways (t_req t))) s') (run_thread X now (begin_work t))"
        by (rule Suc.hyps(1)) (use Suc.hyps(2) True in auto)
      then show ?thesis unfolding d using Some True by (subst run_thread_step) simp
    next
      case False
      then show ?thesis unfolding d using Some by (subst run_thread_step) simp
    qed
  qed
qed simp

lemma run_NameArray:
  "t_num t = t_done t + k \<Longrightarrow>
   run_thread X now (Names t (NameArray input)) s =
     Option.bind (put_names X (t_at t) (t_first t) k (t_done t) input (t_stat t) (t_stats t) s)
       (\<lambda>(m, st, stats, s). run_thread X now (Unlock (t\<lparr>t_stats := stats, t_done := m\<rparr>) st (late_reply (t_req t) (t_stat t) m)) s)"
proof (induction k arbitrary: t input s)
  case 0
  then show ?case by (subst run_thread_step) simp
next
  case (Suc k)
  show ?case
  proof (cases "GetLengthPrefixedSlice input")
    case None
    then show ?thesis using Suc.prems by (subst run_thread_step) simp
  next
    case (Some x)
    obtain nm r where x: "x = (nm, r)" by fastforce
    let ?i = "(t_stat t)\<lparr>InodeNo := t_first t + word_of_nat (t_done t)\<rparr>"
    have names: "run_thread X now (Names t (NameArray input)) s =
        Option.bind (check_name X s (t_at t) nm (t_stats t)) (\<lambda>(st, stats).
          run_thread X now (if ok st then Put (t\<lparr>t_stats := stats\<rparr>) nm (NameArray r)
            else Unlock (t\<lparr>t_stats := stats\<rparr>) st (late_reply (t_req t) (t_stat t) (t_done t))) s)"
      using Suc.prems Some x by (subst run_thread_step) (auto simp: bind_split split: prod.splits)
    have put: "run_thread X now (Put (t\<lparr>t_stats := stats\<rparr>) nm (NameArray r)) s =
        Option.bind (put_name X (t_at t) nm ?i stats s) (\<lambda>(st, stats, s).
          if ok st then run_thread X now (Names (t\<lparr>t_stats := stats, t_done := Suc (t_done t)\<rparr>) (NameArray r)) s
          else run_thread X now (Unlock (t\<lparr>t_stats := stats\<rparr>) st (late_reply (t_req t) (t_stat t) (t_done t))) s)" for stats
      by (subst run_thread_step) (auto simp: bind_split split: prod.splits)
    have rest: "run_thread X now (Names (t\<lparr>t_stats := stats, t_done := Suc (t_done t)\<rparr>) (NameArray r)) s =
        Option.bind (put_names X (t_at t) (t_first t) k (Suc (t_done t)) r (t_stat t) stats s) (\<lambda>(m, st, stats, s).
          run_thread X now (Unlock (t\<lparr>t_stats := stats, t_done := m\<rparr>) st (late_reply (t_req t) (t_stat t) m)) s)" for stats s
      using Suc.IH [of "t\<lparr>t_stats := stats, t_done := Suc (t_done t)\<rparr>" r s] Suc.prems by simp
    show ?thesis
      unfolding names using Some x
      by (auto simp: put rest CheckAndPut_def bind_split split: prod.splits option.splits if_splits)
  qed
qed

section \<open>The handlers\<close>

lemma run_Done: "run_thread X now (Done st r) s = Some (st, r, s)"
  by (simp add: run_thread_step)

lemma run_Finish:
  "run_thread X now (Finish t st r k) s =
     Option.bind (Release (t_dir t) (if \<not> ok st then TryReuseIno (t_last t) (word_of_nat k) s else s)) (\<lambda>s. Some (st, r, s))"
  by (subst run_thread_step) (simp add: run_Done)

lemma run_Unlock:
  "run_thread X now (Unlock t st r) s =
     Option.bind (finish_block t s) (\<lambda>s. run_thread X now (Finish t st r (t_num t - t_done t)) s)"
  by (subst run_thread_step) simp

lemma run_Start:
  "run_thread X now (Start c) s =
     Option.bind (AcquireDir (DirId_LookupStat (c_parent c)) s) (\<lambda>(a, s).
       case prepare (c_req c) (c_who c) s of
         (stat, i, n, s) \<Rightarrow> run_thread X now
           (Check \<lparr>t_call = c, t_dir = a, t_stat = stat, t_first = i, t_num = n, t_done = 0, t_stats = new_stats\<rparr>) s)"
  by (subst run_thread_step) (auto simp: bind_split split: prod.splits)

lemma run_Check:
  "run_thread X now (Check t) s =
     Option.bind (check_request now t s) (\<lambda>(st, s).
       if \<not> ok st then (case early_reply (t_req t) (t_stat t) of (r, k) \<Rightarrow> run_thread X now (Finish t st r k) s)
       else if ways (t_req t) = [] then run_thread X now (Read t) s
       else Option.bind (lock_ways (t_dir t) (ways (t_req t)) s) (run_thread X now (begin_work t)))"
  by (subst run_thread_step) (auto simp: bind_split run_Lock split: prod.splits)

lemma run_OneName:
  assumes "t_num t = Suc 0" and "t_done t = 0" and "(t_stat t)\<lparr>InodeNo := t_first t\<rparr> = t_stat t"
  shows "run_thread X now (Names t (OneName nm)) s =
     Option.bind (CheckAndPut X (t_at t) nm (t_stat t) (t_stats t) s) (\<lambda>(st, stats, s).
       run_thread X now (Unlock (t\<lparr>t_stats := stats, t_done := if ok st then Suc 0 else 0\<rparr>) st
         (late_reply (t_req t) (t_stat t) (if ok st then Suc 0 else 0))) s)"
proof -
  have t: "t\<lparr>t_stats := x, t_done := 0\<rparr> = t\<lparr>t_stats := x\<rparr>" for x using assms(2) by (metis task.surjective task.update_convs(6) task.update_convs(7) task.select_convs(6))
  have names: "run_thread X now (Names t (OneName nm)) s =
      Option.bind (check_name X s (t_at t) nm (t_stats t)) (\<lambda>(st, stats).
        run_thread X now (if ok st then Put (t\<lparr>t_stats := stats\<rparr>) nm (OneName nm)
          else Unlock (t\<lparr>t_stats := stats\<rparr>) st (late_reply (t_req t) (t_stat t) 0)) s)"
    using assms by (subst run_thread_step) (auto simp: bind_split split: prod.splits)
  have put: "run_thread X now (Put (t\<lparr>t_stats := stats\<rparr>) nm (OneName nm)) s =
      Option.bind (put_name X (t_at t) nm (t_stat t) stats s) (\<lambda>(st, stats, s).
        if ok st then run_thread X now (Names (t\<lparr>t_stats := stats, t_done := Suc 0\<rparr>) (OneName nm)) s
        else run_thread X now (Unlock (t\<lparr>t_stats := stats\<rparr>) st (late_reply (t_req t) (t_stat t) 0)) s)" for stats
    using assms by (subst run_thread_step) (auto simp: bind_split split: prod.splits)
  have rest: "run_thread X now (Names (t\<lparr>t_stats := stats, t_done := Suc 0\<rparr>) (OneName nm)) s =
      run_thread X now (Unlock (t\<lparr>t_stats := stats, t_done := Suc 0\<rparr>) Okay (late_reply (t_req t) (t_stat t) (Suc 0))) s" for stats s
    using assms(1) by (subst run_thread_step) simp
  show ?thesis
    unfolding names
    by (auto simp: put rest t CheckAndPut_def bind_split ok_iff split: prod.splits option.splits if_splits)
qed

text \<open>What a handler does after its checks: the end of the inner operation, and the release of the directory.\<close>

lemma lock_ways_one: "lock_ways a [i] s = lock_way a i s"
  by (simp split: option.split)

lemma run_mknod:
  assumes "c_req c = Mkfle_req nm m \<and> mode = file_mode m \<and> zs = (\<lambda>_ _. - 1) \<or>
      c_req c = Mkdir_req nm m \<and> mode = dir_mode m \<and> zs = (\<lambda>o' i. PickupServer \<lparr>dno = mydno o', ino = i\<rparr>)"
  shows "run_thread X now (Start c) s = map_option (\<lambda>(st, x, s). (st, StatReply x, s)) (mknod X now (c_who c) (c_parent c) nm mode zs s)"
proof (cases "AcquireDir (DirId_LookupStat (c_parent c)) s")
  case None
  then show ?thesis by (simp add: run_Start mknod_def)
next
  case (Some x)
  obtain a s1 where x: "x = (a, s1)" by fastforce
  let ?s = "s1\<lparr>inoq := inoq s1 + 1\<rparr>"
  let ?stat = "new_Stat (fs_options s1) (c_who c) mode (zs (fs_options s1) (inoq s1 + 1)) (inoq s1 + 1)"
  let ?t = "\<lparr>t_call = c, t_dir = a, t_stat = ?stat, t_first = inoq s1 + 1, t_num = Suc 0, t_done = 0, t_stats = new_stats\<rparr>"
  let ?at = "DirId_LookupStat (c_parent c)"
  have req: "ways (c_req c) = [way_of nm]" "begin_work ?t = Names ?t (OneName nm)" "\<And>k st. late_reply (c_req c) st k = StatReply st"
    "\<And>st. early_reply (c_req c) st = (StatReply st, Suc 0)"
    "\<And>t s. t_call t = c \<Longrightarrow> finish_block t s = Option.bind (merge_stats (t_stats t) (t_dir t) s) (unlock_ways (t_dir t) [way_of nm])"
    "\<And>s. check_request now ?t s = check_dir (IsDirWriteOk (fs_options s) (c_parent c) (c_who c)) ''No write perm'' (Some nm) (c_parent c) now a s"
    using assms by (auto simp: finish_block_def check_request_def Let_def)
  have start: "run_thread X now (Start c) s = run_thread X now (Check ?t) ?s"
    using assms Some x by (auto simp: run_Start Let_def)
  have one: "run_thread X now (Names ?t (OneName nm)) s' =
     Option.bind (CheckAndPut X ?at nm ?stat new_stats s') (\<lambda>(st, stats, s).
       run_thread X now (Unlock (?t\<lparr>t_stats := stats, t_done := if ok st then Suc 0 else 0\<rparr>) st (StatReply ?stat)) s)" for s'
    using run_OneName [of ?t X now nm s'] by (simp add: req new_Stat_def)
  show ?thesis
    unfolding start mknod_def Mknod1_def using Some x
    by (auto simp: run_Check req one run_Unlock run_Finish t_last_def lock_ways_one Let_def add.commute [of 1 "inoq s1"] simp del: lock_ways.simps begin_work.simps split: bind_splits prod.splits if_splits)
qed

lemma put_names_bound: "put_names X at i k m input stat stats s = Some (m', st, stats', s') \<Longrightarrow> m' \<le> m + k"
proof (induction k arbitrary: m input stats s)
  case (Suc k)
  then show ?case by (fastforce split: option.splits prod.splits if_splits)
qed simp

text \<open>The inode numbers given back after a failed batch.\<close>

lemma batch_reuse:
  fixes n :: u32
  assumes "m \<le> unat n"
  shows "(ucast n :: u64) - ucast (word_of_nat m :: u32) = word_of_nat (unat n - m)"
proof -
  have "unat n < 2 ^ 32" using unsigned_less [of n] by simp
  then have "(ucast (word_of_nat m :: u32) :: u64) = word_of_nat m"
    using assms by (simp add: unsigned_of_nat take_bit_nat_eq_self)
  moreover have "(ucast n :: u64) = word_of_nat (unat n)" by simp
  ultimately show ?thesis using assms by (simp add: of_nat_diff)
qed

lemma run_Mkfls:
  assumes "c_req c = Mkfls_req arr mode n"
  shows "run_thread X now (Start c) s = map_option (\<lambda>(st, m, s). (st, CountReply m, s)) (Mkfls X now (c_who c) (c_parent c) arr mode n s)"
proof (cases "AcquireDir (DirId_LookupStat (c_parent c)) s")
  case None
  then show ?thesis by (simp add: run_Start Mkfls_def)
next
  case (Some x)
  obtain a s1 where x: "x = (a, s1)" by fastforce
  let ?s = "s1\<lparr>inoq := inoq s1 + ucast n\<rparr>"
  let ?stat = "new_Stat (fs_options s1) (c_who c) (file_mode mode) (- 1) 0"
  let ?t = "\<lparr>t_call = c, t_dir = a, t_stat = ?stat, t_first = inoq s1 + 1, t_num = unat n, t_done = 0, t_stats = new_stats\<rparr>"
  let ?at = "DirId_LookupStat (c_parent c)"
  have req: "ways (c_req c) = all_ways" "begin_work ?t = Names ?t (NameArray arr)" "\<And>k st. late_reply (c_req c) st k = CountReply (word_of_nat k)"
    "\<And>st. early_reply (c_req c) st = (CountReply n, 0)" "all_ways \<noteq> []"
    "\<And>t s. t_call t = c \<Longrightarrow> finish_block t s = Option.bind (merge_stats (t_stats t) (t_dir t) s) (unlock_ways (t_dir t) all_ways)"
    "\<And>s. check_request now ?t s = check_dir (IsDirWriteOk (fs_options s) (c_parent c) (c_who c)) ''No write perm'' None (c_parent c) now a s"
    using assms by (auto simp: finish_block_def check_request_def all_ways_def kWays_def Let_def)
  have start: "run_thread X now (Start c) s = run_thread X now (Check ?t) ?s"
    using assms Some x by (auto simp: run_Start Let_def)
  have arr: "run_thread X now (Names ?t (NameArray arr)) s' =
     Option.bind (put_names X ?at (inoq s1 + 1) (unat n) 0 arr ?stat new_stats s') (\<lambda>(m, st, stats, s).
       run_thread X now (Unlock (?t\<lparr>t_stats := stats, t_done := m\<rparr>) st (CountReply (word_of_nat m))) s)" for s'
    using run_NameArray [of ?t "unat n" X now arr s'] by (simp add: req)
  show ?thesis
    unfolding start Mkfls_def Mknos1_def using Some x
    by (auto simp: run_Check req arr run_Unlock run_Finish t_last_def Let_def batch_reuse simp del: lock_ways.simps begin_work.simps
        dest!: put_names_bound split: bind_splits prod.splits if_splits)
qed

lemma run_Bukin:
  assumes "c_req c = Bukin_req d"
  shows "run_thread X now (Start c) s = map_option (\<lambda>(st, s). (st, NoReply, s)) (Bukin X now (c_who c) (c_parent c) d s)"
proof (cases "AcquireDir (DirId_LookupStat (c_parent c)) s")
  case None
  then show ?thesis by (simp add: run_Start Bukin_def)
next
  case (Some x)
  obtain a s1 where x: "x = (a, s1)" by fastforce
  let ?t = "\<lparr>t_call = c, t_dir = a, t_stat = new_Stat (fs_options s1) (c_who c) 0 0 0, t_first = 0, t_num = 0, t_done = 0, t_stats = new_stats\<rparr>"
  have req: "ways (c_req c) = all_ways" "begin_work ?t = Bulk ?t" "\<And>st. early_reply (c_req c) st = (NoReply, 0)" "all_ways \<noteq> []"
    "\<And>t s. t_call t = c \<Longrightarrow> finish_block t s = unlock_ways (t_dir t) all_ways s"
    "\<And>s. check_request now ?t s = check_dir (IsDirWriteOk (fs_options s) (c_parent c) (c_who c)) ''No write perm'' None (c_parent c) now a s"
    using assms by (auto simp: finish_block_def check_request_def all_ways_def kWays_def Let_def)
  have start: "run_thread X now (Start c) s = run_thread X now (Check ?t) s1"
    using assms Some x by (auto simp: run_Start Let_def)
  have bulk: "run_thread X now (Bulk ?t) s' = Option.bind (bulk_insert X d s') (\<lambda>(st, s). run_thread X now (Unlock ?t st NoReply) s)" for s'
    using assms by (subst run_thread_step) (simp split: bind_splits prod.splits)
  show ?thesis
    unfolding start Bukin_def Bukin1_def using Some x
    by (auto simp: run_Check req bulk run_Unlock run_Finish TryReuseIno_def Let_def simp del: lock_ways.simps begin_work.simps
        split: bind_splits prod.splits if_splits)
qed

lemma run_lookup:
  assumes "c_req c = Lstat_req nm \<and> Z = (\<lambda>st v. Some (st, v, case v of None \<Rightarrow> NoReply | Some x \<Rightarrow> StatReply x)) \<or>
      c_req c = Lokup_req nm \<and> Z = (\<lambda>st v. map_option (\<lambda>(st, l). (st, v, case l of None \<Rightarrow> NoReply | Some x \<Rightarrow> LookupReply x)) (lookup_result st v))"
  shows "run_thread X now (Start c) s =
    Option.bind (AcquireDir (DirId_LookupStat (c_parent c)) s) (\<lambda>(a, s).
    Option.bind (check_dir (IsLookupOk (fs_options s) (c_parent c) (c_who c)) ''No dir x perm'' (Some nm) (c_parent c) now a s) (\<lambda>(st, s).
      if \<not> ok st then Option.bind (Release a s) (\<lambda>s. Some (st, NoReply, s))
      else Option.bind (DbGet X s (DirId_LookupStat (c_parent c)) nm new_stats) (\<lambda>(st, v, stats).
           Option.bind (Z st v) (\<lambda>(st, _, r).
           Option.bind (merge_stats stats a s) (\<lambda>s.
           Option.bind (unlock_ways a [] s) (\<lambda>s.
           Option.bind (Release a s) (\<lambda>s. Some (st, r, s))))))))"
proof (cases "AcquireDir (DirId_LookupStat (c_parent c)) s")
  case None
  then show ?thesis by (simp add: run_Start)
next
  case (Some x)
  obtain a s1 where x: "x = (a, s1)" by fastforce
  let ?t = "\<lparr>t_call = c, t_dir = a, t_stat = new_Stat (fs_options s1) (c_who c) 0 0 0, t_first = 0, t_num = 0, t_done = 0, t_stats = new_stats\<rparr>"
  have req: "ways (c_req c) = []" "\<And>st. early_reply (c_req c) st = (NoReply, 0)"
    "\<And>t s. t_call t = c \<Longrightarrow> finish_block t s = Option.bind (merge_stats (t_stats t) (t_dir t) s) (unlock_ways (t_dir t) [])"
    "\<And>s. check_request now ?t s = check_dir (IsLookupOk (fs_options s) (c_parent c) (c_who c)) ''No dir x perm'' (Some nm) (c_parent c) now a s"
    using assms by (auto simp: finish_block_def check_request_def Let_def)
  have start: "run_thread X now (Start c) s = run_thread X now (Check ?t) s1"
    using assms Some x by (auto simp: run_Start Let_def)
  have read: "run_thread X now (Read ?t) s' =
      Option.bind (DbGet X s' (DirId_LookupStat (c_parent c)) nm new_stats) (\<lambda>(st, v, stats).
      Option.bind (Z st v) (\<lambda>(st, _, r). run_thread X now (Unlock (?t\<lparr>t_stats := stats\<rparr>) st r) s'))" for s'
    using assms by (subst run_thread_step) (auto simp: read_request_def split: bind_splits prod.splits option.splits)
  show ?thesis
    unfolding start using Some x
    by (auto simp: run_Check req read run_Unlock run_Finish TryReuseIno_def Let_def split: bind_splits prod.splits if_splits)
qed

lemma unlock_no_ways: "blks s a \<noteq> None \<Longrightarrow> unlock_ways a [] s = Some s"
  by (cases s) (auto simp: unlock_ways_def update_block_def clear_ways_def fun_upd_idem)

lemma merge_stats_live: "merge_stats p a s = Some s' \<Longrightarrow> blks s' a \<noteq> None"
  by (auto simp: merge_stats_def update_block_def)

lemma run_Lstat:
  assumes "c_req c = Lstat_req nm"
  shows "run_thread X now (Start c) s =
    map_option (\<lambda>(st, v, _, s). (st, case v of None \<Rightarrow> NoReply | Some x \<Rightarrow> StatReply x, s)) (Lstat X now (c_who c) (c_parent c) nm new_stats s)"
  using run_lookup [of c nm "\<lambda>st v. Some (st, v, case v of None \<Rightarrow> NoReply | Some x \<Rightarrow> StatReply x)" X now s] assms
  by (auto simp: Lstat_def Lstat1_def unlock_no_ways dest: merge_stats_live split: bind_splits prod.splits if_splits)

lemma run_Lokup:
  assumes "c_req c = Lokup_req nm"
  shows "run_thread X now (Start c) s =
    map_option (\<lambda>(st, l, s). (st, case l of None \<Rightarrow> NoReply | Some x \<Rightarrow> LookupReply x, s)) (Lokup X now (c_who c) (c_parent c) nm s)"
proof -
  let ?Z = "\<lambda>st v. map_option (\<lambda>(st, l). (st, v, case l of None \<Rightarrow> NoReply | Some x \<Rightarrow> LookupReply x)) (lookup_result st v)"
  let ?p = "c_parent c"
  have early: "lookup_result st None = Some (st, None)" if "\<not> ok st" for st using that by (simp add: lookup_result_def)
  note run = run_lookup [of c nm ?Z X now s]
  show ?thesis
  proof (cases "AcquireDir (DirId_LookupStat ?p) s")
    case None
    then show ?thesis using run assms by (simp add: Lokup_def)
  next
    case (Some x)
    obtain a s1 where x: "x = (a, s1)" by fastforce
    show ?thesis
    proof (cases "check_dir (IsLookupOk (fs_options s1) ?p (c_who c)) ''No dir x perm'' (Some nm) ?p now a s1")
      case None
      then show ?thesis using run assms Some x by (simp add: Lokup_def Lokup1_def Lstat1_def)
    next
      case (Some y)
      obtain st s2 where y: "y = (st, s2)" by fastforce
      note start = \<open>AcquireDir (DirId_LookupStat ?p) s = Some x\<close> x Some y
      show ?thesis
      proof (cases "ok st")
        case False
        then show ?thesis using run assms start early by (simp add: Lokup_def Lokup1_def Lstat1_def split: bind_splits)
      next
        case True
        show ?thesis
        proof (cases "DbGet X s2 (DirId_LookupStat ?p) nm new_stats")
          case None
          then show ?thesis using run assms start True by (simp add: Lokup_def Lokup1_def Lstat1_def)
        next
          case (Some z)
          obtain st1 v p' where z: "z = (st1, v, p')" by (metis surj_pair)
          show ?thesis
          proof (cases "merge_stats p' a s2")
            case None
            then show ?thesis using run assms start True Some z
              by (cases "lookup_result st1 v") (auto simp: Lokup_def Lokup1_def Lstat1_def)
          next
            case (Some s3)
            then show ?thesis using run assms start True z \<open>DbGet X s2 _ nm new_stats = Some z\<close> unlock_no_ways [OF merge_stats_live [OF Some]]
              by (cases "lookup_result st1 v") (auto simp: Lokup_def Lokup1_def Lstat1_def split: bind_splits)
          qed
        qed
      qed
    qed
  qed
qed


end
