(* ===== verification/Fs_Safety.thy ===== *)
theory Fs_Safety
  imports Fs_Steps
begin

text \<open>
  What the interleaved handlers do to the directories: names are created exclusively, entries are never overwritten or
  lost, and inode numbers are not given out twice. All of it over any store with the laws of \<open>fs_store\<close>.
\<close>

section \<open>Calls\<close>

text \<open>The calls considered: directories with inode numbers of 56 bits, names below half a gigabyte, no bulk insertion.\<close>

fun req_ok :: "request \<Rightarrow> bool" where
  "req_ok (Bukin_req _) \<longleftrightarrow> False"
| "req_ok (Lokup_req name) \<longleftrightarrow> name_ok name"
| "req_ok (Lstat_req name) \<longleftrightarrow> name_ok name"
| "req_ok (Mkfls_req arr _ _) \<longleftrightarrow> name_ok arr"
| "req_ok (Mkfle_req name _) \<longleftrightarrow> name_ok name"
| "req_ok (Mkdir_req name _) \<longleftrightarrow> name_ok name"

definition call_ok :: "call \<Rightarrow> bool" where
  "call_ok c \<longleftrightarrow> dir_ok (DirId_LookupStat (c_parent c)) \<and> req_ok (c_req c)"

fun work_fits :: "work \<Rightarrow> bool" where
  "work_fits (OneName name) \<longleftrightarrow> name_ok name"
| "work_fits (NameArray arr) \<longleftrightarrow> name_ok arr"

fun thread_fits :: "thread \<Rightarrow> bool" where
  "thread_fits (Start c) \<longleftrightarrow> call_ok c"
| "thread_fits (Names t w) \<longleftrightarrow> call_ok (t_call t) \<and> work_fits w"
| "thread_fits (Put t name w) \<longleftrightarrow> call_ok (t_call t) \<and> name_ok name \<and> work_fits w"
| "thread_fits (Check t) \<longleftrightarrow> call_ok (t_call t)"
| "thread_fits (Lock t k) \<longleftrightarrow> call_ok (t_call t)"
| "thread_fits (Bulk t) \<longleftrightarrow> call_ok (t_call t)"
| "thread_fits (Read t) \<longleftrightarrow> call_ok (t_call t)"
| "thread_fits (Unlock t st r) \<longleftrightarrow> call_ok (t_call t)"
| "thread_fits (Finish t st r k) \<longleftrightarrow> call_ok (t_call t)"
| "thread_fits (Done st r) \<longleftrightarrow> True"

lemma thread_fits_call: "thread_fits t \<Longrightarrow> task_of t = Some k \<Longrightarrow> call_ok (t_call k)"
  by (cases t) auto

lemma next_name_fits: "work_fits w \<Longrightarrow> next_name w = Some (name, w') \<Longrightarrow> name_ok name \<and> work_fits w'"
  using GetLengthPrefixedSlice_consumes by (cases w) (auto simp: name_ok_def dest!: GetLengthPrefixedSlice_consumes)

lemma begin_work_fits: "call_ok (t_call t) \<Longrightarrow> thread_fits (begin_work t)"
  by (cases "t_req t") (auto simp: call_ok_def)

lemma thread_step_fits:
  assumes "thread_fits t" and "thread_step X now t s = Some (t', s')"
  shows "thread_fits t'"
proof (cases t)
  case (Start c)
  then show ?thesis using assms by (auto simp: bind_eq_Some_conv case_prod_unfold)
next
  case (Check k)
  then show ?thesis using assms by (auto simp: bind_eq_Some_conv case_prod_unfold split: if_splits)
next
  case (Lock k m)
  then show ?thesis using assms begin_work_fits [of k] by (auto simp: bind_eq_Some_conv split: if_splits simp del: begin_work.simps)
next
  case (Names k w)
  show ?thesis
  proof (cases "if t_done k < t_num k then next_name w else None")
    case None
    then show ?thesis using assms Names by auto
  next
    case (Some p)
    then obtain name w' where p: "t_done k < t_num k" "next_name w = Some (name, w')" by (cases p) (auto split: if_splits)
    then show ?thesis using assms Names next_name_fits [OF _ p(2)] by (auto simp: bind_eq_Some_conv Let_def split: if_splits)
  qed
next
  case (Put k name w)
  then show ?thesis using assms by (auto simp: bind_eq_Some_conv Let_def split: if_splits)
next
  case (Bulk k)
  then show ?thesis using assms by (auto simp: bind_eq_Some_conv split: request.splits)
next
  case (Read k)
  then show ?thesis using assms by (auto simp: read_request_def bind_eq_Some_conv split: request.splits)
next
  case (Unlock k st r)
  then show ?thesis using assms by (auto simp: bind_eq_Some_conv)
next
  case (Finish k st r n)
  then show ?thesis using assms by (auto simp: bind_eq_Some_conv split: if_splits)
next
  case (Done st r)
  then show ?thesis using assms by simp
qed

section \<open>Inode numbers\<close>

lemma unat_less_64: "unat (x :: u64) < 2 ^ 64"
  using unsigned_less [of x] by simp


definition reserved :: "task \<Rightarrow> nat set" where
  "reserved k = {unat (t_first k)..<unat (t_first k) + t_num k}"

definition unused :: "task \<Rightarrow> nat set" where
  "unused k = {unat (t_first k) + t_done k..<unat (t_first k) + t_num k}"

lemma unused_reserved: "unused k \<subseteq> reserved k"
  by (auto simp: unused_def reserved_def)

text \<open>
  \<open>q\<close> is the last number given out. The reservations of the threads are disjoint and not above \<open>q\<close>; the numbers of the
  entries made by this server are not above \<open>q\<close>, not reserved for later, and all different.
\<close>

definition inos_inv :: "nat \<Rightarrow> u64 \<Rightarrow> dir_map \<Rightarrow> thread list \<Rightarrow> bool" where
  "inos_inv q d f ts \<longleftrightarrow>
     (\<forall>i < length ts. \<forall>k. task_of (ts ! i) = Some k \<longrightarrow> 0 < t_num k \<longrightarrow> 0 < unat (t_first k) \<and> unat (t_first k) + t_num k \<le> q + 1) \<and>
     (\<forall>i < length ts. \<forall>j < length ts. \<forall>k k'. i \<noteq> j \<longrightarrow> task_of (ts ! i) = Some k \<longrightarrow> task_of (ts ! j) = Some k' \<longrightarrow>
        reserved k \<inter> reserved k' = {}) \<and>
     (\<forall>at nm st. f at nm = Some st \<longrightarrow> DnodeNo st = d \<longrightarrow> unat (InodeNo st) \<le> q \<and>
        (\<forall>i < length ts. \<forall>k. task_of (ts ! i) = Some k \<longrightarrow> unat (InodeNo st) \<notin> unused k)) \<and>
     (\<forall>at nm st at' nm' st'. f at nm = Some st \<longrightarrow> f at' nm' = Some st' \<longrightarrow> DnodeNo st = d \<longrightarrow> DnodeNo st' = d \<longrightarrow>
        InodeNo st = InodeNo st' \<longrightarrow> at = at' \<and> nm = nm')"

lemma inos_invD:
  assumes "inos_inv q d f ts"
  shows "\<And>i k. i < length ts \<Longrightarrow> task_of (ts ! i) = Some k \<Longrightarrow> 0 < t_num k \<Longrightarrow> 0 < unat (t_first k) \<and> unat (t_first k) + t_num k \<le> q + 1"
    and "\<And>i j k k'. i < length ts \<Longrightarrow> j < length ts \<Longrightarrow> i \<noteq> j \<Longrightarrow> task_of (ts ! i) = Some k \<Longrightarrow> task_of (ts ! j) = Some k' \<Longrightarrow>
        reserved k \<inter> reserved k' = {}"
    and "\<And>at nm st. f at nm = Some st \<Longrightarrow> DnodeNo st = d \<Longrightarrow> unat (InodeNo st) \<le> q"
    and "\<And>at nm st i k. f at nm = Some st \<Longrightarrow> DnodeNo st = d \<Longrightarrow> i < length ts \<Longrightarrow> task_of (ts ! i) = Some k \<Longrightarrow> unat (InodeNo st) \<notin> unused k"
    and "\<And>at nm st at' nm' st'. f at nm = Some st \<Longrightarrow> f at' nm' = Some st' \<Longrightarrow> DnodeNo st = d \<Longrightarrow> DnodeNo st' = d \<Longrightarrow>
        InodeNo st = InodeNo st' \<Longrightarrow> at = at' \<and> nm = nm'"
  using assms unfolding inos_inv_def by blast+

lemma inos_invI:
  assumes "\<And>i k. i < length ts \<Longrightarrow> task_of (ts ! i) = Some k \<Longrightarrow> 0 < t_num k \<Longrightarrow> 0 < unat (t_first k) \<and> unat (t_first k) + t_num k \<le> q + 1"
    and "\<And>i j k k'. i < length ts \<Longrightarrow> j < length ts \<Longrightarrow> i \<noteq> j \<Longrightarrow> task_of (ts ! i) = Some k \<Longrightarrow> task_of (ts ! j) = Some k' \<Longrightarrow>
        reserved k \<inter> reserved k' = {}"
    and "\<And>at nm st. f at nm = Some st \<Longrightarrow> DnodeNo st = d \<Longrightarrow> unat (InodeNo st) \<le> q"
    and "\<And>at nm st i k. f at nm = Some st \<Longrightarrow> DnodeNo st = d \<Longrightarrow> i < length ts \<Longrightarrow> task_of (ts ! i) = Some k \<Longrightarrow> unat (InodeNo st) \<notin> unused k"
    and "\<And>at nm st at' nm' st'. f at nm = Some st \<Longrightarrow> f at' nm' = Some st' \<Longrightarrow> DnodeNo st = d \<Longrightarrow> DnodeNo st' = d \<Longrightarrow>
        InodeNo st = InodeNo st' \<Longrightarrow> at = at' \<and> nm = nm'"
  shows "inos_inv q d f ts"
  unfolding inos_inv_def using assms by blast

text \<open>A thread drops its reservation, or parts of it.\<close>

lemma inos_shrink:
  assumes inv: "inos_inv q d f ts" and i: "i < length ts"
    and t: "\<And>k'. task_of t = Some k' \<Longrightarrow> \<exists>k. task_of (ts ! i) = Some k \<and> t_first k' = t_first k \<and> t_num k' = t_num k \<and> t_done k \<le> t_done k'"
  shows "inos_inv q d f (ts[i := t])"
proof (rule inos_invI)
  note D = inos_invD [OF inv]
  have T: "\<exists>k. task_of (ts ! j) = Some k \<and> t_num k' = t_num k \<and> t_first k' = t_first k \<and> reserved k' = reserved k \<and> unused k' \<subseteq> unused k"
    if "j < length ts" "task_of (ts[i := t] ! j) = Some k'" for j k'
    using t [of k'] that by (cases "j = i") (auto simp: reserved_def unused_def)
  fix j k' assume j: "j < length (ts[i := t])" "task_of (ts[i := t] ! j) = Some k'"
  show "0 < t_num k' \<Longrightarrow> 0 < unat (t_first k') \<and> unat (t_first k') + t_num k' \<le> q + 1"
    using T [of j k'] j D(1) [of j] by auto
  show "f at nm = Some st \<Longrightarrow> DnodeNo st = d \<Longrightarrow> unat (InodeNo st) \<notin> unused k'" for at nm st
    using T [of j k'] j D(4) [of at nm st j] by auto
  show "reserved k' \<inter> reserved k2 = {}" if m: "m < length (ts[i := t])" "j \<noteq> m" "task_of (ts[i := t] ! m) = Some k2" for m k2
  proof -
    obtain p where p: "task_of (ts ! j) = Some p" "reserved k' = reserved p" using T [of j k'] j by auto
    obtain r where r: "task_of (ts ! m) = Some r" "reserved k2 = reserved r" using T [of m k2] m by auto
    show ?thesis using D(2) [OF _ _ m(2) p(1) r(1)] p(2) r(2) j(1) m(1) by simp
  qed
qed (use inos_invD(3,5) [OF inv] in blast)+

text \<open>A thread reserves the next \<open>t_num k\<close> numbers.\<close>

lemma inos_start:
  assumes inv: "inos_inv q d f ts" and i: "i < length ts" and t: "task_of t = Some k" "t_num k = n" "t_done k = 0"
    and first: "0 < n \<Longrightarrow> unat (t_first k) = q + 1"
  shows "inos_inv (q + n) d f (ts[i := t])"
proof (rule inos_invI)
  note D = inos_invD [OF inv]
  have new: "x \<in> reserved k \<Longrightarrow> q < x \<and> x \<le> q + n" for x using t first by (auto simp: reserved_def)
  have old: "x \<in> reserved k' \<Longrightarrow> x \<le> q" if "j < length ts" "task_of (ts ! j) = Some k'" for j k' x
    using D(1) [OF that] by (auto simp: reserved_def)
  fix j k' assume j: "j < length (ts[i := t])" "task_of (ts[i := t] ! j) = Some k'"
  show "0 < t_num k' \<Longrightarrow> 0 < unat (t_first k') \<and> unat (t_first k') + t_num k' \<le> q + n + 1"
    using D(1) [of j k'] j t first by (cases "j = i") auto
  show "unat (InodeNo st) \<notin> unused k'" if st: "f at nm = Some st" "DnodeNo st = d" for at nm st
  proof (cases "j = i")
    case True
    then show ?thesis using D(3) [OF st] new [of "unat (InodeNo st)"] unused_reserved [of k] j t i by auto
  next
    case False
    then show ?thesis using D(4) [OF st, of j k'] j by simp
  qed
  show "reserved k' \<inter> reserved k2 = {}" if m: "m < length (ts[i := t])" "j \<noteq> m" "task_of (ts[i := t] ! m) = Some k2" for m k2
  proof -
    consider "j = i" | "m = i" | "j \<noteq> i" "m \<noteq> i" by blast
    then show ?thesis
    proof cases
      case 1
      then have "k' = k" "task_of (ts ! m) = Some k2" "m < length ts" using j m t i by auto
      then show ?thesis using new old [of m k2] by fastforce
    next
      case 2
      then have "k2 = k" "task_of (ts ! j) = Some k'" "j < length ts" using j m t i by auto
      then show ?thesis using new old [of j k'] by fastforce
    next
      case 3
      then show ?thesis using D(2) [of j m] j m by simp
    qed
  qed
next
  fix at nm st assume "f at nm = Some st" "DnodeNo st = d"
  then show "unat (InodeNo st) \<le> q + n" using inos_invD(3) [OF inv, of at nm st] by simp
qed (use inos_invD(5) [OF inv] in blast)

text \<open>A thread uses its next number.\<close>

lemma inos_put:
  assumes inv: "inos_inv q d f ts" and i: "i < length ts" and k: "task_of (ts ! i) = Some k" "t_done k < t_num k"
    and t: "task_of t = Some k'" "t_first k' = t_first k" "t_num k' = t_num k" "t_done k' = Suc (t_done k)"
    and st: "unat (InodeNo st) = unat (t_first k) + t_done k"
  shows "inos_inv q d (dir_put f at nm (Some st)) (ts[i := t])"
proof -
  have inv': "inos_inv q d f (ts[i := t])" using inos_shrink [OF inv i, of t] k t by simp
  note D = inos_invD [OF inv']
  have mine: "unat (InodeNo st) \<in> unused k" using st k(2) by (simp add: unused_def)
  have fresh: "InodeNo x \<noteq> InodeNo st" if "f a n = Some x" "DnodeNo x = d" for a n x
    using inos_invD(4) [OF inv that i k(1)] mine by auto
  have other: "unat (InodeNo st) \<notin> unused m" if j: "j < length (ts[i := t])" "task_of (ts[i := t] ! j) = Some m" for j m
  proof (cases "j = i")
    case True
    then show ?thesis using j t st i by (simp add: unused_def)
  next
    case False
    then show ?thesis using inos_invD(2) [OF inv i, of j k m] k(1) j mine unused_reserved [of k] unused_reserved [of m] by auto
  qed
  show ?thesis
  proof (rule inos_invI)
    fix a n x assume x: "dir_put f at nm (Some st) a n = Some x" "DnodeNo x = d"
    have c: "x = st \<or> f a n = Some x" using x(1) by (auto simp: dir_put_def split: if_splits)
    show "unat (InodeNo x) \<le> q"
      using c D(3) [of a n x] x(2) inos_invD(1) [OF inv i k(1)] k(2) st by auto
    show "unat (InodeNo x) \<notin> unused m" if "j < length (ts[i := t])" "task_of (ts[i := t] ! j) = Some m" for j m
      using c D(4) [of a n x, OF _ x(2) that] other [OF that] by auto
    fix a' n' x' assume x': "dir_put f at nm (Some st) a' n' = Some x'" "DnodeNo x' = d" "InodeNo x = InodeNo x'"
    show "a = a' \<and> n = n'"
      using x x' fresh [of a n x] fresh [of a' n' x'] D(5) [of a n x a' n' x'] by (auto simp: dir_put_def split: if_splits)
  qed (use D(1,2) in blast)+
qed

text \<open>The end of a reservation at the top gives back its unused rest.\<close>

lemma inos_reuse:
  assumes inv: "inos_inv q d f ts" and i: "i < length ts" and k: "task_of (ts ! i) = Some k" "t_done k + r \<le> t_num k" "0 < t_num k"
    and top: "unat (t_first k) + t_num k = q + 1" and t: "task_of t = None"
  shows "inos_inv (q - r) d f (ts[i := t])"
proof (rule inos_invI)
  note D = inos_invD [OF inv]
  have f0: "0 < unat (t_first k)" using D(1) [OF i k(1,3)] by simp
  have T: "j \<noteq> i \<and> task_of (ts ! j) = Some k'" if "j < length (ts[i := t])" "task_of (ts[i := t] ! j) = Some k'" for j k'
    using that t by (cases "j = i") auto
  fix j k' assume j: "j < length (ts[i := t])" "task_of (ts[i := t] ! j) = Some k'"
  show "0 < t_num k' \<Longrightarrow> 0 < unat (t_first k') \<and> unat (t_first k') + t_num k' \<le> q - r + 1"
  proof -
    assume n: "0 < t_num k'"
    have b: "0 < unat (t_first k')" "unat (t_first k') + t_num k' \<le> q + 1" using D(1) [of j k'] j T [OF j] n by auto
    have "unat (t_first k') \<in> reserved k'" "unat (t_first k') + t_num k' - 1 \<in> reserved k'" using n by (auto simp: reserved_def)
    moreover have "reserved k' \<inter> reserved k = {}" using D(2) [of j i k' k] j T [OF j] i k(1) by simp
    ultimately have "unat (t_first k') + t_num k' - 1 \<notin> reserved k" by auto
    then have "unat (t_first k') + t_num k' - 1 < unat (t_first k)" using b n top by (auto simp: reserved_def)
    then show ?thesis using b(1) top k(2) n by simp
  qed
  show "f at nm = Some st \<Longrightarrow> DnodeNo st = d \<Longrightarrow> unat (InodeNo st) \<notin> unused k'" for at nm st
    using D(4) [of at nm st j k'] j T [OF j] by simp
  show "reserved k' \<inter> reserved k2 = {}" if m: "m < length (ts[i := t])" "j \<noteq> m" "task_of (ts[i := t] ! m) = Some k2" for m k2
    using D(2) [of j m k' k2] j m T [OF j] T [OF m(1,3)] by simp
next
  fix at nm st assume st: "f at nm = Some st" "DnodeNo st = d"
  have "unat (InodeNo st) \<le> q" "unat (InodeNo st) \<notin> unused k" using inos_invD(3,4) [OF inv st] i k(1) by auto
  then show "unat (InodeNo st) \<le> q - r" using top k(2) by (auto simp: unused_def)
qed (use inos_invD(5) [OF inv] in blast)

section \<open>The fields that a step changes\<close>

lemma update_block_rest: "update_block g a s = Some s' \<Longrightarrow> same_rest s s'"
  by (auto simp: update_block_def same_rest_def)

lemma check_dir_rest: "check_dir access msg name p now a s = Some (st, s') \<Longrightarrow> same_rest s s'"
  by (auto simp: check_dir_def Let_def bind_eq_Some_conv same_rest_def split: if_splits option.splits)

lemma step_rest:
  assumes st: "thread_step X now t s = Some (t', s')" and t: "\<And>c. t \<noteq> Start c" "\<And>k st r n. t \<noteq> Finish k st r n"
  shows "fs_options s' = fs_options s \<and> readonly_dbs s' = readonly_dbs s \<and> inoq s' = inoq s \<and>
    ((\<exists>k name w. t = Put k name w) \<or> (\<exists>k. t = Bulk k) \<or> fs_db s' = fs_db s)"
proof (cases t)
  case (Check k)
  then obtain r where "check_request now k s = Some (r, s')" using st by (auto simp: bind_eq_Some_conv)
  then have "same_rest s s'" by (auto simp: check_request_def Let_def split: request.splits dest: check_dir_rest)
  then show ?thesis by (simp add: same_rest_def)
next
  case (Lock k m)
  then have "same_rest s s'" using st by (auto simp: bind_eq_Some_conv lock_way_def split: option.splits if_splits dest: update_block_rest)
  then show ?thesis by (simp add: same_rest_def)
next
  case (Names k w)
  then show ?thesis using st by (auto simp: bind_eq_Some_conv Let_def split: option.splits prod.splits if_splits)
next
  case (Put k name w)
  then show ?thesis using st by (auto simp: bind_eq_Some_conv Let_def put_name_def split: option.splits)
next
  case (Bulk k)
  then show ?thesis using st
    by (auto simp: bind_eq_Some_conv bulk_insert_def map_option_case case_prod_unfold split: request.splits option.splits)
next
  case (Read k)
  then show ?thesis using st by auto
next
  case (Unlock k r x)
  then obtain s1 where s1: "(case t_req k of Bukin_req _ \<Rightarrow> Some s | _ \<Rightarrow> merge_stats (t_stats k) (t_dir k) s) = Some s1"
    "unlock_ways (t_dir k) (ways (t_req k)) s1 = Some s'"
    using st by (auto simp: finish_block_def bind_eq_Some_conv)
  have "same_rest s s1"
    using s1(1) by (auto simp: merge_stats_def same_rest_def split: request.splits dest: update_block_rest [unfolded same_rest_def])
  then have "same_rest s s'" using update_block_rest [OF s1(2) [unfolded unlock_ways_def]] same_rest_trans by blast
  then show ?thesis by (simp add: same_rest_def)
qed (use st t in simp_all)

text \<open>Two threads do not put the same name into the same directory.\<close>

lemma put_unique:
  assumes inv: "conc_inv (s, ts)" and i: "i < length ts" "ts ! i = Put k name w" and j: "j < length ts" "ts ! j = Put k' name w'"
    and at: "t_at k = t_at k'"
  shows "i = j"
proof (rule ccontr)
  assume "i \<noteq> j"
  have ki: "task_of (ts ! i) = Some k" "task_of (ts ! j) = Some k'" using i(2) j(2) by simp_all
  obtain b b' where b: "blks s (t_dir k) = Some b" "b_id b = t_at k" "blks s (t_dir k') = Some b'" "b_id b' = t_at k'"
    using conc_invD(5) [OF inv i(1) ki(1)] conc_invD(5) [OF inv j(1) ki(2)] by blast
  have "t_dir k = t_dir k'" using fs_inv_one_block [OF conc_invD(1) [OF inv] b(1,3)] b(2,4) at by simp
  moreover have "way_of name \<in> set (held (ts ! i))" "way_of name \<in> set (held (ts ! j))"
    using conc_invD(4) [OF inv i(1)] conc_invD(4) [OF inv j(1)] i(2) j(2) by simp_all
  ultimately have "(t_dir k, way_of name) \<in> own (ts ! i)" "(t_dir k, way_of name) \<in> own (ts ! j)"
    using ki by (simp_all add: own_def holds_def)
  then show False using ways_invD(1) [OF conc_invD(2) [OF inv] i(1) j(1) \<open>i \<noteq> j\<close>] by blast
qed

section \<open>The directories\<close>

definition puts_ok :: "dir_map \<Rightarrow> thread list \<Rightarrow> bool" where
  "puts_ok f ts \<longleftrightarrow> (\<forall>i < length ts. \<forall>k name w. ts ! i = Put k name w \<longrightarrow> f (t_at k) name = None)"

lemma puts_okD: "puts_ok f ts \<Longrightarrow> i < length ts \<Longrightarrow> ts ! i = Put k name w \<Longrightarrow> f (t_at k) name = None"
  unfolding puts_ok_def by blast

lemma puts_ok_upd: "puts_ok f ts \<Longrightarrow> (\<And>k name w. t = Put k name w \<Longrightarrow> f (t_at k) name = None) \<Longrightarrow> puts_ok f (ts[i := t])"
  unfolding puts_ok_def by (metis length_list_update nth_list_update_eq nth_list_update_neq)

text \<open>The store represents the directories \<open>f\<close>, with room for \<open>n\<close> more steps.\<close>

definition store_inv :: "(nat \<Rightarrow> 'db \<Rightarrow> dir_map \<Rightarrow> bool) \<Rightarrow> nat \<Rightarrow> 'db Filesystem \<times> thread list \<Rightarrow> dir_map \<Rightarrow> bool" where
  "store_inv frep n c f \<longleftrightarrow>
     (case c of (s, ts) \<Rightarrow>
        (\<exists>db. fs_db s = Some db \<and> frep n db f) \<and> \<not> skip_name_collision_checks (fs_options s) \<and>
        (\<forall>i < length ts. thread_fits (ts ! i)) \<and> puts_ok f ts \<and>
        inos_inv (unat (inoq s)) (mydno (fs_options s)) f ts \<and> unat (inoq s) + n * 2 ^ 32 < 2 ^ 64)"

lemma store_invD:
  assumes "store_inv frep n (s, ts) f"
  shows "\<exists>db. fs_db s = Some db \<and> frep n db f" and "\<not> skip_name_collision_checks (fs_options s)"
    and "\<And>i. i < length ts \<Longrightarrow> thread_fits (ts ! i)" and "puts_ok f ts"
    and "inos_inv (unat (inoq s)) (mydno (fs_options s)) f ts" and "unat (inoq s) + n * 2 ^ 32 < 2 ^ 64"
  using assms by (simp_all add: store_inv_def)

lemma store_invI:
  "fs_db s = Some db \<Longrightarrow> frep n db f \<Longrightarrow> \<not> skip_name_collision_checks (fs_options s) \<Longrightarrow> (\<And>i. i < length ts \<Longrightarrow> thread_fits (ts ! i)) \<Longrightarrow>
   puts_ok f ts \<Longrightarrow> inos_inv (unat (inoq s)) (mydno (fs_options s)) f ts \<Longrightarrow> unat (inoq s) + n * 2 ^ 32 < 2 ^ 64 \<Longrightarrow>
   store_inv frep n (s, ts) f"
  by (simp add: store_inv_def)

text \<open>What may become of the directories in a step: nothing, or one new entry.\<close>

definition grows :: "dir_map \<Rightarrow> dir_map \<Rightarrow> bool" where
  "grows f f' \<longleftrightarrow> f' = f \<or> (\<exists>at nm st. f at nm = None \<and> f' = dir_put f at nm (Some st))"

lemma grows_refl [simp]: "grows f f"
  by (simp add: grows_def)

definition extends :: "dir_map \<Rightarrow> dir_map \<Rightarrow> bool" where
  "extends f f' \<longleftrightarrow> (\<forall>at nm st. f at nm = Some st \<longrightarrow> f' at nm = Some st)"

lemma grows_extends: "grows f f' \<Longrightarrow> extends f f'"
  by (auto simp: grows_def extends_def dir_put_def)

lemma fits_upd:
  "(\<And>i. i < length ts \<Longrightarrow> thread_fits (ts ! i)) \<Longrightarrow> thread_fits t \<Longrightarrow> j < length (ts[i := t]) \<Longrightarrow> thread_fits (ts[i := t] ! j)"
  by (cases "j = i") auto

text \<open>How a step changes the local variables of its thread.\<close>

lemma step_task:
  assumes sh: "shape_ok t" and t: "\<And>c. t \<noteq> Start c" and st: "thread_step X now t s = Some (t', s')" and k': "task_of t' = Some k'"
  shows "\<exists>k. task_of t = Some k \<and> t_first k' = t_first k \<and> t_num k' = t_num k \<and> t_done k \<le> t_done k'"
proof -
  consider (lock) k m where "t = Lock k m" | (unlock) k r x where "t = Unlock k r x" | (finish) k r x m where "t = Finish k r x m"
    | (other) "\<And>k m. t \<noteq> Lock k m" "\<And>k st r. t \<noteq> Unlock k st r" "\<And>k st r n. t \<noteq> Finish k st r n" by blast
  then show ?thesis
  proof cases
    case lock
    then have "ways (t_req k) \<noteq> []" "t_done k = 0" using sh by auto
    then show ?thesis
      using begin_work_ok(3) [of k] st k' lock by (auto simp: bind_eq_Some_conv split: if_splits simp del: begin_work.simps)
  next
    case unlock
    then show ?thesis using st k' by (auto simp: bind_eq_Some_conv)
  next
    case finish
    then show ?thesis using st k' by (auto simp: bind_eq_Some_conv split: if_splits)
  next
    case other
    then show ?thesis using step_keeps [OF sh t other st] k' by (auto simp: keeps_def)
  qed
qed

lemma step_to_Put:
  assumes st: "thread_step X now t s = Some (Put k name w, s')"
  shows "\<exists>k0 w0 p. t = Names k0 w0 \<and> next_name w0 = Some (name, w) \<and> check_name X s (t_at k0) name (t_stats k0) = Some (Okay, p) \<and> t_call k = t_call k0"
proof (cases t)
  case (Names k0 w0)
  then show ?thesis using st by (auto simp: bind_eq_Some_conv Let_def ok_iff split: option.splits prod.splits if_splits)
next
  case (Check k0)
  then show ?thesis using st by (auto simp: bind_eq_Some_conv case_prod_unfold split: if_splits)
next
  case (Lock k0 m)
  then show ?thesis using st by (auto simp: bind_eq_Some_conv split: if_splits request.splits)
qed (use st in \<open>auto simp: bind_eq_Some_conv case_prod_unfold Let_def read_request_def split: if_splits request.splits\<close>)

context fs_store
begin

lemma Names_absent:
  assumes rep: "fs_db s = Some db" "frep n db f" and skip: "\<not> skip_name_collision_checks (fs_options s)"
    and ok: "dir_ok at" "name_ok name" and c: "check_name X s at name stats = Some (st, stats')" "ok st"
  shows "f at name = None"
proof (rule ccontr)
  assume "f at name \<noteq> None"
  then obtain x p where "fsdb_Get X at name stats db = Some (Okay, Some x, p)" using fs_Get [OF rep(2) ok, of stats] by auto
  then have "DbGet X s at name stats = Some (Okay, Some x, p)" using rep(1) by (simp add: DbGet_def)
  then show False using c skip by (auto simp: check_name_def)
qed

lemma store_keeps:
  assumes inv: "store_inv frep (Suc n) (s, ts) f" and i: "i < length ts" and fit: "thread_fits t'"
    and rest: "fs_options s' = fs_options s" "fs_db s' = fs_db s" "inoq s' = inoq s"
    and k: "\<And>k'. task_of t' = Some k' \<Longrightarrow> \<exists>k. task_of (ts ! i) = Some k \<and> t_first k' = t_first k \<and> t_num k' = t_num k \<and> t_done k \<le> t_done k'"
    and p: "\<And>k name w. t' = Put k name w \<Longrightarrow> f (t_at k) name = None"
  shows "store_inv frep n (s', ts[i := t']) f"
proof -
  obtain db where db: "fs_db s = Some db" "frep (Suc n) db f" using store_invD(1) [OF inv] by blast
  show ?thesis
  proof (rule store_invI)
    show "fs_db s' = Some db" using db rest by simp
    show "frep n db f" using fs_le [OF db(2)] by simp
    show "\<not> skip_name_collision_checks (fs_options s')" using store_invD(2) [OF inv] rest by simp
    show "\<And>j. j < length (ts[i := t']) \<Longrightarrow> thread_fits (ts[i := t'] ! j)" using fits_upd store_invD(3) [OF inv] fit by blast
    show "puts_ok f (ts[i := t'])" using puts_ok_upd [OF store_invD(4) [OF inv]] p by blast
    show "inos_inv (unat (inoq s')) (mydno (fs_options s')) f (ts[i := t'])"
      using inos_shrink [OF store_invD(5) [OF inv] i k] rest by simp
    show "unat (inoq s') + n * 2 ^ 32 < 2 ^ 64" using store_invD(6) [OF inv] rest by simp
  qed
qed

lemma store_Put:
  assumes inv: "store_inv frep (Suc n) (s, ts) f" and c: "conc_inv (s, ts)" and i: "i < length ts" "ts ! i = Put k name w"
    and st: "thread_step X now (Put k name w) s = Some (t', s')"
  shows "\<exists>f'. store_inv frep n (s', ts[i := t']) f' \<and> grows f f'"
proof -
  obtain db where db: "fs_db s = Some db" "frep (Suc n) db f" using store_invD(1) [OF inv] by blast
  have sh: "t_done k < t_num k" using conc_invD(4) [OF c i(1)] i(2) by simp
  have fit: "thread_fits (Put k name w)" using store_invD(3) [OF inv i(1)] i(2) by simp
  let ?st = "(t_stat k)\<lparr>InodeNo := t_first k + word_of_nat (t_done k)\<rparr>"
  have ok: "dir_ok (t_at k)" "name_ok name" using fit by (simp_all add: call_ok_def)
  obtain r p db' where P: "fsdb_Put X (t_at k) name ?st (t_stats k) db = Some (r, p, db')"
    "frep n db' (if ok r then dir_put f (t_at k) name (Some ?st) else f)"
    using fs_Put [OF db(2) ok, of ?st "t_stats k"] by blast
  have s': "s' = s\<lparr>fs_db := Some db'\<rparr>"
    "t' = (if ok r then Names (k\<lparr>t_stats := p, t_done := Suc (t_done k)\<rparr>) w
           else Unlock (k\<lparr>t_stats := p\<rparr>) r (late_reply (t_req k) (t_stat k) (t_done k)))"
    using st P(1) db(1) by (auto simp: put_name_def Let_def)
  have fit': "thread_fits t'" by (rule thread_step_fits [OF fit st])
  have ki: "task_of (ts ! i) = Some k" using i(2) by simp
  have q: "unat (t_first k) + t_num k \<le> unat (inoq s) + 1" using inos_invD(1) [OF store_invD(5) [OF inv] i(1) ki] sh by simp
  have ino: "unat (InodeNo ?st) = unat (t_first k) + t_done k"
  proof -
    have b: "unat (t_first k) + t_done k < 2 ^ 64" using q sh unat_less_64 [of "inoq s"] by simp
    have "unat (word_of_nat (t_done k) :: u64) = t_done k" using b by (simp add: unsigned_of_nat take_bit_nat_eq_self)
    then show ?thesis using b by (simp add: unat_word_ariths)
  qed
  have new: "f (t_at k) name = None" by (rule puts_okD [OF store_invD(4) [OF inv] i])
  let ?f = "if ok r then dir_put f (t_at k) name (Some ?st) else f"
  have "store_inv frep n (s', ts[i := t']) ?f"
  proof (rule store_invI)
    show "fs_db s' = Some db'" by (simp add: s'(1))
    show "frep n db' ?f" by (rule P(2))
    show "\<not> skip_name_collision_checks (fs_options s')" using store_invD(2) [OF inv] s'(1) by simp
    show "\<And>j. j < length (ts[i := t']) \<Longrightarrow> thread_fits (ts[i := t'] ! j)" using fits_upd store_invD(3) [OF inv] fit' by blast
    show "puts_ok ?f (ts[i := t'])"
      unfolding puts_ok_def
    proof (intro allI impI)
      fix j k' name' w' assume j: "j < length (ts[i := t'])" "ts[i := t'] ! j = Put k' name' w'"
      have ji: "j \<noteq> i" using j s'(2) i(1) by (auto split: if_splits)
      then have old: "ts ! j = Put k' name' w'" "j < length ts" using j by simp_all
      have "(t_at k', name') \<noteq> (t_at k, name)" using put_unique [OF c i, of j k' w'] old ji by auto
      then show "?f (t_at k') name' = None" using puts_okD [OF store_invD(4) [OF inv] old(2,1)] by (auto simp: dir_put_def)
    qed
    show "inos_inv (unat (inoq s')) (mydno (fs_options s')) ?f (ts[i := t'])"
    proof (cases "ok r")
      case True
      have "inos_inv (unat (inoq s)) (mydno (fs_options s)) (dir_put f (t_at k) name (Some ?st)) (ts[i := t'])"
        by (rule inos_put [OF store_invD(5) [OF inv] i(1) ki sh _ _ _ _ ino, of t' "k\<lparr>t_stats := p, t_done := Suc (t_done k)\<rparr>"])
          (simp_all add: s'(2) True)
      then show ?thesis using True s'(1) by simp
    next
      case False
      then have "task_of t' = Some (k\<lparr>t_stats := p\<rparr>)" using s'(2) by simp
      then have "inos_inv (unat (inoq s)) (mydno (fs_options s)) f (ts[i := t'])"
        using inos_shrink [OF store_invD(5) [OF inv] i(1), of t'] ki by simp
      then show ?thesis using False s'(1) by simp
    qed
    show "unat (inoq s') + n * 2 ^ 32 < 2 ^ 64" using store_invD(6) [OF inv] s'(1) by simp
  qed
  moreover have "grows f ?f" using new by (auto simp: grows_def)
  ultimately show ?thesis by blast
qed

lemma store_Start:
  assumes inv: "store_inv frep (Suc n) (s, ts) f" and c: "conc_inv (s, ts)" and i: "i < length ts" "ts ! i = Start d"
    and st: "thread_step X now (Start d) s = Some (t', s')"
  shows "store_inv frep n (s', ts[i := t']) f"
proof -
  obtain a s1 where a: "AcquireDir (DirId_LookupStat (c_parent d)) s = Some (a, s1)" "acquired (DirId_LookupStat (c_parent d)) s a s1"
    using AcquireDir_ok [OF conc_invD(1) [OF c]] by blast
  have r: "fs_options s1 = fs_options s" "fs_db s1 = fs_db s" "inoq s1 = inoq s" using a(2) by (simp_all add: acquired_def same_rest_def)
  obtain stat m k s2 where p: "prepare (c_req d) (c_who d) s1 = (stat, m, k, s2)" by (cases "prepare (c_req d) (c_who d) s1") auto
  let ?k = "\<lparr>t_call = d, t_dir = a, t_stat = stat, t_first = m, t_num = k, t_done = 0, t_stats = new_stats\<rparr>"
  have t: "t' = Check ?k" "s' = s2" using st a(1) p by simp_all
  have fits: "thread_fits t'" using store_invD(3) [OF inv i(1)] i(2) t by simp
  have r2: "fs_options s' = fs_options s" "fs_db s' = fs_db s" "k = req_num (c_req d)"
    using prepare_fields [OF p] r t(2) by simp_all
  have room: "unat (inoq s) + 2 ^ 32 + n * 2 ^ 32 < 2 ^ 64" using store_invD(6) [OF inv] by simp
  have k32: "k < 2 ^ 32"
  proof -
    have "unat (x :: u32) < 2 ^ 32" for x using unsigned_less [of x] by simp
    then show ?thesis unfolding r2(3) by (cases "c_req d") auto
  qed
  have q: "unat (inoq s') = unat (inoq s) + k \<and> (0 < k \<longrightarrow> unat m = unat (inoq s) + 1)"
  proof -
    have one: "unat (inoq s + 1) = unat (inoq s) + 1" using room by (simp add: unat_word_ariths)
    show ?thesis
    proof (cases "c_req d")
      case (Mkfls_req arr mode x)
      have x: "unat (ucast x :: u64) = unat x" by (simp add: unat_ucast_up)
      have "unat (inoq s + ucast x) = unat (inoq s) + unat x"
        using room k32 r2(3) Mkfls_req x by (simp add: unat_word_ariths)
      then show ?thesis using p t(2) r Mkfls_req one by (auto simp: Let_def)
    qed (use p t(2) r one in \<open>auto simp: Let_def\<close>)
  qed
  obtain db where db: "fs_db s = Some db" "frep (Suc n) db f" using store_invD(1) [OF inv] by blast
  show ?thesis
  proof (rule store_invI)
    show "fs_db s' = Some db" using db r2 by simp
    show "frep n db f" using fs_le [OF db(2)] by simp
    show "\<not> skip_name_collision_checks (fs_options s')" using store_invD(2) [OF inv] r2 by simp
    show "\<And>j. j < length (ts[i := t']) \<Longrightarrow> thread_fits (ts[i := t'] ! j)" using fits_upd store_invD(3) [OF inv] fits by blast
    show "puts_ok f (ts[i := t'])" using puts_ok_upd [OF store_invD(4) [OF inv]] t by blast
    have "inos_inv (unat (inoq s) + k) (mydno (fs_options s)) f (ts[i := t'])"
      by (rule inos_start [OF store_invD(5) [OF inv] i(1), of t' ?k]) (use t q in auto)
    then show "inos_inv (unat (inoq s')) (mydno (fs_options s')) f (ts[i := t'])" using q r2 by simp
    show "unat (inoq s') + n * 2 ^ 32 < 2 ^ 64" using room q k32 by simp
  qed
qed

lemma store_Finish:
  assumes inv: "store_inv frep (Suc n) (s, ts) f" and c: "conc_inv (s, ts)" and i: "i < length ts" "ts ! i = Finish k st r m"
    and step: "thread_step X now (Finish k st r m) s = Some (t', s')"
  shows "store_inv frep n (s', ts[i := t']) f"
proof -
  let ?s = "if \<not> ok st then TryReuseIno (t_last k) (word_of_nat m) s else s"
  have ki: "task_of (ts ! i) = Some k" using i(2) by simp
  have F: "fs_inv (refs ts) ?s" using TryReuseIno_frames conc_invD(1) [OF c] by (auto simp: frames_def)
  have pos: "0 < refs ts (t_dir k)" by (rule refs_pos [OF i(1) ki])
  obtain s1 where s1: "Release (t_dir k) ?s = Some s1" "same_rest ?s s1"
    using Release_ok [where R = "refs ts", OF F, where a = "t_dir k"] pos by blast
  have t: "t' = Done st r" "s' = s1" using step s1(1) by simp_all
  have rest: "fs_options s' = fs_options s" "fs_db s' = fs_db s" "inoq s' = inoq ?s"
    using s1(2) t by (auto simp: same_rest_def TryReuseIno_def)
  have sh: "t_done k + m \<le> t_num k" using conc_invD(4) [OF c i(1)] i(2) by simp
  note I = store_invD(5) [OF inv]
  have ino: "inos_inv (unat (inoq s')) (mydno (fs_options s)) f (ts[i := t']) \<and> unat (inoq s') \<le> unat (inoq s)"
  proof (cases "\<not> ok st \<and> t_last k = inoq s \<and> 0 < m")
    case True
    have num: "0 < t_num k" using sh True by simp
    have b: "0 < unat (t_first k)" "unat (t_first k) + t_num k \<le> unat (inoq s) + 1" using inos_invD(1) [OF I i(1) ki num] by simp_all
    have u: "unat (inoq s) < 2 ^ 64" by (rule unat_less_64)
    have last: "unat (t_last k) = unat (t_first k) + t_num k - 1"
    proof -
      have e: "t_last k = word_of_nat (unat (t_first k) + (t_num k - 1))" using num by (simp add: t_last_def of_nat_diff)
      have "unat (word_of_nat x :: u64) = x" if "x < 2 ^ 64" for x using that by (simp add: unsigned_of_nat take_bit_nat_eq_self)
      then have "unat (t_last k) = unat (t_first k) + (t_num k - 1)" unfolding e using b u num by (simp only:)
      then show ?thesis using num by simp
    qed
    have top: "unat (t_first k) + t_num k = unat (inoq s) + 1" using last True b(1) num by simp
    have mq: "unat (word_of_nat m :: u64) = m" using sh b u by (simp add: unsigned_of_nat take_bit_nat_eq_self)
    have le: "word_of_nat m \<le> inoq s" using mq sh b by (simp add: word_le_nat_alt)
    have "unat (inoq s') = unat (inoq s) - m" using rest(3) True mq le by (simp add: TryReuseIno_def unat_sub)
    moreover have "inos_inv (unat (inoq s) - m) (mydno (fs_options s)) f (ts[i := t'])"
      by (rule inos_reuse [OF I i(1) ki sh num top]) (simp add: t(1))
    ultimately show ?thesis by simp
  next
    case False
    then have "inoq s' = inoq s" using rest(3) by (auto simp: TryReuseIno_def)
    then show ?thesis using inos_shrink [OF I i(1), of t'] t by simp
  qed
  obtain db where db: "fs_db s = Some db" "frep (Suc n) db f" using store_invD(1) [OF inv] by blast
  show ?thesis
  proof (rule store_invI)
    show "fs_db s' = Some db" using db rest by simp
    show "frep n db f" using fs_le [OF db(2)] by simp
    show "\<not> skip_name_collision_checks (fs_options s')" using store_invD(2) [OF inv] rest by simp
    show "\<And>j. j < length (ts[i := t']) \<Longrightarrow> thread_fits (ts[i := t'] ! j)"
      using fits_upd [of ts t'] store_invD(3) [OF inv] t(1) by simp
    show "puts_ok f (ts[i := t'])" using puts_ok_upd [OF store_invD(4) [OF inv]] t by blast
    show "inos_inv (unat (inoq s')) (mydno (fs_options s')) f (ts[i := t'])" using ino rest by simp
    show "unat (inoq s') + n * 2 ^ 32 < 2 ^ 64" using store_invD(6) [OF inv] ino by simp
  qed
qed

lemma store_step:
  assumes step: "fs_step X call_ok c c'" and inv: "store_inv frep (Suc n) c f" and ci: "conc_inv c"
  shows "\<exists>f'. store_inv frep n c' f' \<and> grows f f'"
  using step
proof cases
  case (arrive d s ts)
  have inv': "store_inv frep (Suc n) (s, ts) f" using inv arrive by simp
  obtain db where db: "fs_db s = Some db" "frep (Suc n) db f" using store_invD(1) [OF inv'] by blast
  have T: "task_of ((ts @ [Start d]) ! j) = Some k \<Longrightarrow> j < length (ts @ [Start d]) \<Longrightarrow> j < length ts \<and> task_of (ts ! j) = Some k" for j k
    by (cases "j < length ts") (auto simp: nth_append less_Suc_eq)
  have "store_inv frep n (s, ts @ [Start d]) f"
  proof (rule store_invI)
    show "frep n db f" using fs_le [OF db(2)] by simp
    show "\<And>j. j < length (ts @ [Start d]) \<Longrightarrow> thread_fits ((ts @ [Start d]) ! j)"
      using store_invD(3) [OF inv'] arrive by (auto simp: nth_append less_Suc_eq)
    show "puts_ok f (ts @ [Start d])" using store_invD(4) [OF inv'] by (auto simp: puts_ok_def nth_append less_Suc_eq)
    show "inos_inv (unat (inoq s)) (mydno (fs_options s)) f (ts @ [Start d])"
      using store_invD(5) [OF inv'] T unfolding inos_inv_def by meson
    show "unat (inoq s) + n * 2 ^ 32 < 2 ^ 64" using store_invD(6) [OF inv'] by simp
  qed (use store_invD [OF inv'] db in auto)
  then show ?thesis using arrive by (intro exI [of _ f]) simp
next
  case (run i ts now s t' s')
  have inv': "store_inv frep (Suc n) (s, ts) f" and ci': "conc_inv (s, ts)" using inv ci run by simp_all
  note i = run(3) and st = run(4)
  have fit: "thread_fits t'" by (rule thread_step_fits [OF store_invD(3) [OF inv' i] st])
  consider (start) d where "ts ! i = Start d" | (finish) k r x m where "ts ! i = Finish k r x m" | (put) k name w where "ts ! i = Put k name w"
    | (bulk) k where "ts ! i = Bulk k"
    | (other) "\<And>d. ts ! i \<noteq> Start d" "\<And>k st r n. ts ! i \<noteq> Finish k st r n" "\<And>k name w. ts ! i \<noteq> Put k name w" "\<And>k. ts ! i \<noteq> Bulk k"
    by blast
  then have "\<exists>f'. store_inv frep n (s', ts[i := t']) f' \<and> grows f f'"
  proof cases
    case start
    then show ?thesis using store_Start [OF inv' ci' i start] st by (metis grows_refl)
  next
    case finish
    then show ?thesis using store_Finish [OF inv' ci' i finish] st by (metis grows_refl)
  next
    case put
    then show ?thesis using store_Put [OF inv' ci' i put] st by metis
  next
    case bulk
    then show ?thesis using conc_invD(4) [OF ci' i] store_invD(3) [OF inv' i] by (auto simp: call_ok_def)
  next
    case other
    have rest: "fs_options s' = fs_options s" "fs_db s' = fs_db s" "inoq s' = inoq s" using step_rest [OF st] other by auto
    have k: "\<exists>k. task_of (ts ! i) = Some k \<and> t_first k' = t_first k \<and> t_num k' = t_num k \<and> t_done k \<le> t_done k'"
      if "task_of t' = Some k'" for k'
      using step_task [OF conc_invD(4) [OF ci' i] other(1) st that] .
    have p: "f (t_at k) name = None" if t': "t' = Put k name w" for k name w
    proof -
      obtain k0 w0 p where N: "ts ! i = Names k0 w0" "next_name w0 = Some (name, w)" "check_name X s (t_at k0) name (t_stats k0) = Some (Okay, p)"
        "t_call k = t_call k0" using step_to_Put [OF st [unfolded t']] by blast
      obtain db where db: "fs_db s = Some db" "frep (Suc n) db f" using store_invD(1) [OF inv'] by blast
      have "call_ok (t_call k0)" "work_fits w0" using store_invD(3) [OF inv' i] N(1) by simp_all
      then have "dir_ok (t_at k0)" "name_ok name" using next_name_fits [OF _ N(2)] by (auto simp: call_ok_def)
      then show ?thesis using Names_absent [OF db store_invD(2) [OF inv'] _ _ N(3)] N(4) by simp
    qed
    have "store_inv frep n (s', ts[i := t']) f" by (rule store_keeps [OF inv' i fit rest]) (rule k, assumption, rule p, assumption)
    then show ?thesis using grows_refl by blast
  qed
  then show ?thesis using run by simp
qed

lemma store_reachable:
  "fs_reachable X call_ok n c c' \<Longrightarrow> conc_inv c \<Longrightarrow> store_inv frep (n + m) c f \<Longrightarrow>
   \<exists>f'. conc_inv c' \<and> store_inv frep m c' f' \<and> extends f f'"
  unfolding fs_reachable_def
proof (induction n arbitrary: c f)
  case 0
  then show ?case by (auto simp: extends_def)
next
  case (Suc n)
  obtain d where d: "fs_step X call_ok c d" "(fs_step X call_ok ^^ n) d c'" using Suc.prems(1) relpowp_Suc_D2 by metis
  obtain g where g: "store_inv frep (n + m) d g" "grows f g"
    using store_step [OF d(1) _ Suc.prems(2), of "n + m" f] Suc.prems(3) by auto
  obtain f' where "conc_inv c'" "store_inv frep m c' f'" "extends g f'"
    using Suc.IH [OF d(2) conc_inv_step [OF d(1) Suc.prems(2)] g(1)] by blast
  then show ?case using grows_extends [OF g(2)] by (auto simp: extends_def)
qed

end

lemma new_conc_inv: "conc_inv (new_Filesystem opts db ros, [])"
proof -
  have "refs [] = (\<lambda>_. 0)" by (simp add: refs_def fun_eq_iff)
  then show ?thesis using new_Filesystem_inv [of opts db ros] by (simp add: conc_inv_def ways_inv_def new_Filesystem_def)
qed

lemma conc_inv_reachable: "fs_reachable X P n c c' \<Longrightarrow> conc_inv c \<Longrightarrow> conc_inv c'"
  unfolding fs_reachable_def
proof (induction n arbitrary: c)
  case (Suc n)
  obtain d where "fs_step X P c d" "(fs_step X P ^^ n) d c'" using Suc.prems(1) relpowp_Suc_D2 by metis
  then show ?case using Suc.IH conc_inv_step Suc.prems(2) by blast
qed simp

text \<open>A server that starts on directories none of whose entries it has made (its dnode number is new).\<close>

definition not_ours :: "FilesystemOptions \<Rightarrow> dir_map \<Rightarrow> bool" where
  "not_ours opts f \<longleftrightarrow> (\<forall>at nm st. f at nm = Some st \<longrightarrow> DnodeNo st \<noteq> mydno opts)"

lemma new_store_inv:
  assumes "frep n db f" and "not_ours opts f" and "\<not> skip_name_collision_checks opts" and "n < 2 ^ 32"
  shows "store_inv frep n (new_Filesystem opts (Some db) ros, []) f"
  by (rule store_invI [of _ db]) (use assms in \<open>auto simp: new_Filesystem_def puts_ok_def inos_inv_def not_ours_def\<close>)

text \<open>The server over the store of \<open>Db\<close>.\<close>

abbreviation fsdb_if :: "'v DBEnv \<Rightarrow> DBOptions \<Rightarrow> (string \<Rightarrow> 'v DBImpl \<Rightarrow> status \<times> 'v DBImpl) \<Rightarrow> 'v DBImpl FsDb" where
  "fsdb_if E opt bulk \<equiv> FilesystemDb_if (DB_DX E opt) bulk"

lemma Get_iff:
  assumes "fsdb_rep E opt n db f" and "dir_ok at" and "name_ok nm"
  shows "(\<exists>p'. FilesystemDb_Get (DB_DX E opt) at nm p db = Some (Okay, Some st, p')) \<longleftrightarrow> f at nm = Some st"
  using fsdb_Get_ok [OF assms, of p] by (auto split: option.splits)

section \<open>Properties\<close>

text \<open>
  C4. Control blocks and ways. In every state that the interleaved handlers reach, over any store and with any calls:
  the control block that a handler works on exists and is the one in the table of blocks for the directory of its call;
  two handlers of one directory work on the same block; and no way of it is locked by both. So a block is never
  deleted under a handler, no directory has two blocks, and writes to one name subset of a directory exclude each other.
\<close>

theorem blocks_and_ways_safe:
  assumes "fs_reachable X P n (new_Filesystem opts db ros, []) (s, ts)"
    and "i < length ts" and "task_of (ts ! i) = Some k" and "j < length ts" and "task_of (ts ! j) = Some k'" and "i \<noteq> j"
  shows "(\<exists>b. blks s (t_dir k) = Some b \<and> b_id b = t_at k \<and> ht_map (dirs s) (LRUHash (LRUKey (t_at k)), LRUKey (t_at k)) = Some (t_dir k)) \<and>
    (t_at k = t_at k' \<longrightarrow> t_dir k = t_dir k' \<and> set (held (ts ! i)) \<inter> set (held (ts ! j)) = {}) \<and>
    (\<forall>b w. blks s (t_dir k) = Some b \<longrightarrow> w \<in> set (held (ts ! i)) \<longrightarrow> b_busy b ! w)"
proof -
  have inv: "conc_inv (s, ts)" using conc_inv_reachable [OF assms(1) new_conc_inv] .
  note F = conc_invD(1) [OF inv] and W = conc_invD(2) [OF inv]
  obtain b where b: "blks s (t_dir k) = Some b" "b_id b = t_at k" using conc_invD(5) [OF inv assms(2,3)] by blast
  obtain b' where b': "blks s (t_dir k') = Some b'" "b_id b' = t_at k'" using conc_invD(5) [OF inv assms(4,5)] by blast
  have "b_key b = LRUKey (t_at k)" "b_hash b = LRUHash (LRUKey (t_at k))" using fs_invD(3) [OF F b(1)] b(2) by (auto simp: blk_ok_def)
  then have idx: "ht_map (dirs s) (LRUHash (LRUKey (t_at k)), LRUKey (t_at k)) = Some (t_dir k)"
    using indexed_tag [OF fs_invD(2) [OF F] b(1)] by (simp add: b_tag_def)
  have same: "t_dir k = t_dir k'" if "t_at k = t_at k'" using fs_inv_one_block [OF F b(1) b'(1)] b(2) b'(2) that by simp
  have "w \<notin> set (held (ts ! j))" if "t_at k = t_at k'" "w \<in> set (held (ts ! i))" for w
    using ways_invD(1) [OF W assms(2,4,6)] same [OF that(1)] that(2) assms(3,5) by (auto simp: own_def holds_def)
  moreover have "b_busy b ! w" if w: "w \<in> set (held (ts ! i))" for w
  proof -
    have "w < kWays" using w assms(3) by (cases "ts ! i") (auto dest: way_less in_set_takeD)
    then show ?thesis using ways_invD(2) [OF W b(1), of w] assms(2,3) w by (auto simp: own_def holds_def)
  qed
  ultimately show ?thesis using b idx same by auto
qed



definition sample_call :: call where
  "sample_call = \<lparr>c_who = \<lparr>uid = 0, gid = 0\<rparr>,
     c_parent = \<lparr>lDnodeNo = 0, lInodeNo = 1, LeaseDue = 5, DirMode = 0x41FF, lZerothServer = 0, lUserId = 0, lGroupId = 0\<rparr>,
     c_req = Mkfle_req [97] 0x1B6\<rparr>"

lemma sample_call_ok: "call_ok sample_call"
  by (simp add: sample_call_def call_ok_def dir_ok_def name_ok_def DirId_LookupStat_def)

lemma arrive_reachable:
  assumes "fs_reachable X P n c (s, ts)" and "P d"
  shows "fs_reachable X P (Suc n) c (s, ts @ [Start d])"
  using assms fs_step.arrive [of P d X s ts] unfolding fs_reachable_def by (meson relpowp_Suc_I)

lemma run_reachable:
  assumes "fs_reachable X P n c (s, ts)" and "i < length ts" and "thread_step X now (ts ! i) s = Some (t', s')"
  shows "fs_reachable X P (Suc n) c (s', ts[i := t'])"
  using assms fs_step.run [of i ts X now s t' s' P] unfolding fs_reachable_def by (meson relpowp_Suc_I)

lemma start_runs:
  assumes "conc_inv (s, ts)"
  shows "\<exists>k s'. thread_step X now (Start c) s = Some (Check k, s') \<and> t_call k = c"
proof -
  obtain a s1 where "AcquireDir (DirId_LookupStat (c_parent c)) s = Some (a, s1)"
    using AcquireDir_ok [OF conc_invD(1) [OF assms]] by blast
  then show ?thesis by (cases "prepare (c_req c) (c_who c) s1") auto
qed

lemma two_started:
  "\<exists>s k k'. fs_reachable X call_ok 4 (new_Filesystem opts db ros, []) (s, [Check k, Check k']) \<and> t_call k = sample_call \<and> t_call k' = sample_call"
proof -
  let ?c = "(new_Filesystem opts db ros, [])" and ?P = call_ok
  have r0: "fs_reachable X ?P 0 ?c ?c" by (simp add: fs_reachable_def)
  have r2: "fs_reachable X ?P 2 ?c (fst ?c, [Start sample_call, Start sample_call])"
    using arrive_reachable [OF arrive_reachable [OF r0 sample_call_ok] sample_call_ok] by (simp add: eval_nat_numeral)
  obtain k s1 where k: "thread_step X 0 (Start sample_call) (fst ?c) = Some (Check k, s1)" "t_call k = sample_call"
    using start_runs [OF conc_inv_reachable [OF r2 new_conc_inv]] by blast
  have r3: "fs_reachable X ?P 3 ?c (s1, [Check k, Start sample_call])"
    using run_reachable [OF r2, of 0 0 "Check k" s1] k(1) by (simp add: eval_nat_numeral del: thread_step.simps)
  obtain k' s2 where k': "thread_step X 0 (Start sample_call) s1 = Some (Check k', s2)" "t_call k' = sample_call"
    using start_runs [OF conc_inv_reachable [OF r3 new_conc_inv]] by blast
  have "fs_reachable X ?P 4 ?c (s2, [Check k, Check k'])"
    using run_reachable [OF r3, of 1 0 "Check k'" s2] k'(1) by (simp add: eval_nat_numeral del: thread_step.simps)
  then show ?thesis using k(2) k'(2) by blast
qed

lemma blocks_and_ways_safe_witness:
  "\<exists>s ts k k'. fs_reachable (fsdb_if plain_env plain_options (\<lambda>_ d. (Okay, d))) call_ok 4 (new_Filesystem default_FilesystemOptions (Some (new_DBImpl () 3)) [], []) (s, ts) \<and>
     task_of (ts ! 0) = Some k \<and> task_of (ts ! 1) = Some k' \<and> t_dir k = t_dir k'"
proof -
  obtain s k k' where r: "fs_reachable (fsdb_if plain_env plain_options (\<lambda>_ d. (Okay, d))) call_ok 4 (new_Filesystem default_FilesystemOptions (Some (new_DBImpl () 3)) [], []) (s, [Check k, Check k'])"
    "t_call k = sample_call" "t_call k' = sample_call"
    using two_started by blast
  have "t_dir k = t_dir k'" using blocks_and_ways_safe [OF r(1), of 0 k 1 k'] r(2,3) by simp
  then show ?thesis using r(1) by (intro exI [of _ s] exI [of _ "[Check k, Check k']"]) simp
qed

lemma not_ours_empty: "not_ours opts (\<lambda>_ _. None)"
  by (simp add: not_ours_def)

lemma two_started':
  "\<exists>s k k'. fs_reachable (fsdb_if plain_env plain_options (\<lambda>_ d. (Okay, d))) call_ok 4
     (new_Filesystem default_FilesystemOptions (Some (new_DBImpl () 3)) [], []) (s, [Check k, Check k'])"
  using two_started by blast



end
