(* ===== verification/Giga_Index.thy ===== *)
theory Giga_Index
  imports Gigaplus
begin

text \<open>
  The invariant of the directory index and what it gives: which partition and which server a name
  belongs to, what splitting a partition moves, that merging indices is the union of their
  partitions, and that an encoded index decodes to the same partitions. \<open>raw_bit\<close> reads a bitmap as
  a set of bits, \<open>wf_rep\<close> is the invariant of an index in memory, \<open>wf_index\<close> adds what the callers
  keep (a power of two of virtual servers, at most 65536), and \<open>home\<close> is the abstract lookup.
\<close>


lemma ToLog2_bounds: "0 < n \<Longrightarrow> 2 ^ ToLog2 n \<le> n \<and> n < 2 * 2 ^ ToLog2 n"
proof (induction n rule: ToLog2.induct)
  case (1 n)
  show ?case
  proof (cases "n < 2")
    case True
    with "1.prems" show ?thesis by (simp add: ToLog2.simps [of n])
  next
    case False
    then have "2 ^ ToLog2 (n div 2) \<le> n div 2 \<and> n div 2 < 2 * 2 ^ ToLog2 (n div 2)"
      using "1.IH" by simp
    with False show ?thesis by (simp add: ToLog2.simps [of n]) linarith
  qed
qed

lemma ToRadix_0 [simp]: "ToRadix 0 = 0"
  by (simp add: ToRadix_def)

lemma ToRadix_upper: "n < 2 ^ ToRadix n"
  using ToLog2_bounds [of n] by (cases "n = 0") (simp_all add: ToRadix_def)

lemma ToRadix_lower: "0 < n \<Longrightarrow> 2 ^ (ToRadix n - 1) \<le> n"
  using ToLog2_bounds [of n] by (simp add: ToRadix_def)

lemma ToRadix_pos [simp]: "0 < ToRadix n \<longleftrightarrow> 0 < n"
  by (simp add: ToRadix_def)

lemma ToRadix_le_iff: "ToRadix n \<le> k \<longleftrightarrow> n < 2 ^ k"
proof
  assume "ToRadix n \<le> k"
  then have "2 ^ ToRadix n \<le> (2 :: nat) ^ k" by (rule power_increasing) simp
  with ToRadix_upper [of n] show "n < 2 ^ k" by linarith
next
  assume k: "n < 2 ^ k"
  show "ToRadix n \<le> k"
  proof (rule ccontr)
    assume "\<not> ToRadix n \<le> k"
    then have "0 < n" and "k \<le> ToRadix n - 1" by (cases "n = 0", auto)
    then have "2 ^ k \<le> (2 :: nat) ^ (ToRadix n - 1)" by (intro power_increasing) auto
    with ToRadix_lower [of n] k \<open>0 < n\<close> show False by linarith
  qed
qed

lemma ToRadix_unique: "2 ^ k \<le> n \<Longrightarrow> n < 2 ^ Suc k \<Longrightarrow> ToRadix n = Suc k"
  using ToRadix_le_iff [of n k] ToRadix_le_iff [of n "Suc k"] by linarith

lemma ToParentIndex_mod:
  assumes "0 < n"
  shows "ToParentIndex n = n mod 2 ^ (ToRadix n - 1)"
proof -
  let ?p = "2 ^ ToLog2 n :: nat"
  have b: "?p \<le> n" "n < 2 * ?p" using ToLog2_bounds [OF assms] by simp_all
  have "n mod ?p = (n - ?p) mod ?p" using b(1) by (rule le_mod_geq)
  also have "\<dots> = n - ?p" using b by (intro mod_less) linarith
  finally show ?thesis using assms by (simp add: ToParentIndex_def ToRadix_def)
qed

lemma ToParentIndex_less: "0 < n \<Longrightarrow> ToParentIndex n < n"
  by (simp add: ToParentIndex_def)

lemma ToParentIndex_Child: "n < 2 ^ k \<Longrightarrow> ToParentIndex (ToChildIndex n k) = n"
  using ToRadix_unique [of k "n + 2 ^ k"]
  by (simp add: ToParentIndex_mod ToChildIndex_def)

lemma ToRadix_Child: "n < 2 ^ k \<Longrightarrow> ToRadix (ToChildIndex n k) = Suc k"
  using ToRadix_unique [of k "n + 2 ^ k"] by (simp add: ToChildIndex_def)

text \<open>The 16 hash bits an index can be made of, in the order the code takes them.\<close>

definition hash_bits :: "slice \<Rightarrow> nat" where
  "hash_bits h = unat (Reverse (h ! 0)) + unat (Reverse (h ! 1)) * 256"

lemma unat_and_mask: "unat ((b :: byte) AND mask n) = unat b mod 2 ^ n"
  by (simp only: unsigned_take_bit_eq take_bit_eq_mod [of n "unat b"] flip: take_bit_eq_mask)

lemma byte_bound: "unat (b :: byte) < 256"
  using unsigned_less [of b, where 'a = nat] by simp

lemma ComputeIndexFromHash_eq:
  assumes "n \<le> 16"
  shows "ComputeIndexFromHash h n = hash_bits h mod 2 ^ n"
proof -
  let ?a = "unat (Reverse (h ! 0))" and ?b = "unat (Reverse (h ! 1))"
  consider "n < 8" | "n = 8" | m where "n = 8 + m" "0 < m" "m < 8" | "n = 16"
    using assms by (metis add.commute le_add_diff_inverse less_diff_conv linorder_neqE_nat
      nat_less_le numeral_Bit0 zero_less_diff add_diff_inverse_nat not_less_iff_gr_or_eq less_add_same_cancel1)
  then show ?thesis
  proof cases
    case 1
    then have "ComputeIndexFromHash h n = ?a mod 2 ^ n"
      by (cases "n = 0") (simp_all add: ComputeIndexFromHash_def ComputeIndex_bytes.simps unat_and_mask)
    moreover have "?b * 256 = (?b * 2 ^ (8 - n)) * 2 ^ n" using 1 by (simp add: mult.assoc flip: power_add)
    ultimately show ?thesis by (simp only: hash_bits_def mod_mult_self1)
  next
    case 2
    then show ?thesis using byte_bound [of "Reverse (h ! 0)"]
      by (simp add: ComputeIndexFromHash_def ComputeIndex_bytes.simps hash_bits_def)
  next
    case (3 m)
    then have "n div 8 = 1 \<and> n mod 8 = m \<and> 0 < m" by simp
    then have c: "ComputeIndexFromHash h n = ?a + ?b mod 2 ^ m * 256"
      by (simp add: ComputeIndexFromHash_def ComputeIndex_bytes.simps unat_and_mask)
    have "(?a + ?b * 256) mod (256 * 2 ^ m) = 256 * ((?a + ?b * 256) div 256 mod 2 ^ m) + (?a + ?b * 256) mod 256"
      by (rule mod_mult2_eq)
    then show ?thesis using byte_bound [of "Reverse (h ! 0)"] 3
      by (simp add: c [simplified 3(1)] hash_bits_def power_add)
  next
    case 4
    then show ?thesis using byte_bound [of "Reverse (h ! 0)"] byte_bound [of "Reverse (h ! 1)"]
      by (simp add: ComputeIndexFromHash_def ComputeIndex_bytes.simps hash_bits_def)
  qed
qed

section \<open>Bitmaps\<close>

definition raw_bit :: "byte list \<Rightarrow> nat \<Rightarrow> bool" where
  "raw_bit bm i \<longleftrightarrow> i < 8 * length bm \<and> bit (bm ! (i div 8)) (i mod 8)"

lemma test_bit_at_iff: "test_bit_at bm i \<longleftrightarrow> bit (bm ! (i div 8)) (i mod 8)"
  by (simp add: test_bit_at_def kBits_def bit_iff_and_push_bit_not_eq_0)

lemma bit_kBits: "n < 8 \<Longrightarrow> bit (kBits off) n \<longleftrightarrow> n = off"
  by (auto simp: kBits_def bit_simps)

lemma raw_bit_append_zeros [simp]: "raw_bit (bm @ replicate n 0) i \<longleftrightarrow> raw_bit bm i"
proof (cases "i div 8 < length bm")
  case True
  then have "i < 8 * length bm" by simp
  then show ?thesis using True by (simp add: raw_bit_def nth_append)
next
  case False
  then have "\<not> i < 8 * length bm" by simp
  then show ?thesis using False by (auto simp: raw_bit_def nth_append)
qed

lemma raw_bit_set:
  assumes "i < 8 * length bm"
  shows "raw_bit (bm[i div 8 := bm ! (i div 8) OR kBits (i mod 8)]) j \<longleftrightarrow> raw_bit bm j \<or> j = i"
proof (cases "j div 8 = i div 8")
  case True
  have "j mod 8 = i mod 8 \<longleftrightarrow> j = i" using True by (metis div_mult_mod_eq)
  then show ?thesis using True assms
    by (auto simp: raw_bit_def bit_simps bit_kBits)
next
  case False
  then show ?thesis using assms by (auto simp: raw_bit_def nth_list_update)
qed

lemma raw_bit_clear:
  assumes "i < 8 * length bm"
  shows "raw_bit (bm[i div 8 := bm ! (i div 8) AND NOT (kBits (i mod 8))]) j \<longleftrightarrow> raw_bit bm j \<and> j \<noteq> i"
proof (cases "j div 8 = i div 8")
  case True
  have "j mod 8 = i mod 8 \<longleftrightarrow> j = i" using True by (metis div_mult_mod_eq)
  then show ?thesis using True assms
    by (auto simp: raw_bit_def bit_simps bit_kBits)
next
  case False
  then show ?thesis using assms by (auto simp: raw_bit_def nth_list_update)
qed

lemma highest_byte_Some:
  "highest_byte bm s = Some i \<Longrightarrow> i \<le> s \<and> bm ! i \<noteq> 0 \<and> (\<forall>j. i < j \<longrightarrow> j \<le> s \<longrightarrow> bm ! j = 0)"
proof (induction s)
  case 0
  then show ?case by (simp add: highest_byte.simps [of _ 0] split: if_splits)
next
  case (Suc s)
  then show ?case
    by (cases "bm ! Suc s = 0") (auto simp: highest_byte.simps [of _ "Suc s"] le_Suc_eq)
qed

lemma highest_byte_ex: "j \<le> s \<Longrightarrow> bm ! j \<noteq> 0 \<Longrightarrow> \<exists>i. highest_byte bm s = Some i"
proof (induction s)
  case 0
  then show ?case by (simp add: highest_byte.simps [of _ 0])
next
  case (Suc s)
  then show ?case
    by (cases "bm ! Suc s = 0") (auto simp: highest_byte.simps [of _ "Suc s"] le_Suc_eq)
qed

lemma kBits_test: "b AND kBits n = 0 \<longleftrightarrow> \<not> bit b n"
  by (simp add: kBits_def bit_iff_and_push_bit_not_eq_0)

lemma highest_off_Some:
  "highest_off b s = Some i \<Longrightarrow> i \<le> s \<and> bit b i \<and> (\<forall>j. i < j \<longrightarrow> j \<le> s \<longrightarrow> \<not> bit b j)"
proof (induction s)
  case 0
  then show ?case by (simp add: highest_off.simps [of _ 0] kBits_test split: if_splits)
next
  case (Suc s)
  then show ?case
    by (cases "bit b (Suc s)") (auto simp: highest_off.simps [of _ "Suc s"] kBits_test le_Suc_eq)
qed

lemma highest_off_ex: "j \<le> s \<Longrightarrow> bit b j \<Longrightarrow> \<exists>i. highest_off b s = Some i"
proof (induction s)
  case 0
  then show ?case by (simp add: highest_off.simps [of _ 0] kBits_test)
next
  case (Suc s)
  then show ?case
    by (cases "bit b (Suc s)") (auto simp: highest_off.simps [of _ "Suc s"] kBits_test le_Suc_eq)
qed

lemma byte_nonzero_bit: "b \<noteq> 0 \<longleftrightarrow> (\<exists>j\<le>7. bit (b :: byte) j)"
proof -
  have "b = 0 \<longleftrightarrow> (\<forall>j < 8. \<not> bit b j)" by (auto simp: bit_word_eqI bit_eq_iff dest: bit_imp_le_length)
  moreover have "j < 8 \<longleftrightarrow> j \<le> 7" for j :: nat by linarith
  ultimately show ?thesis by simp
qed

lemma highest_bit_from_Some:
  assumes "highest_bit_from bm s = Some m" and "s < length bm"
  shows "raw_bit bm m \<and> (\<forall>i. raw_bit bm i \<longrightarrow> i div 8 \<le> s \<longrightarrow> i \<le> m)"
proof -
  from assms obtain b off where b: "highest_byte bm s = Some b" and off: "highest_off (bm ! b) 7 = Some off"
    and m: "m = off + b * 8" by (auto simp: highest_bit_from_def bind_eq_Some_conv)
  note B = highest_byte_Some [OF b] and O = highest_off_Some [OF off]
  have "m div 8 = b" "m mod 8 = off" using O m by auto
  moreover have "i \<le> m" if i: "raw_bit bm i" "i div 8 \<le> s" for i
  proof (rule ccontr)
    assume n: "\<not> i \<le> m"
    from i have nz: "bm ! (i div 8) \<noteq> 0" by (auto simp: raw_bit_def)
    with B i have "i div 8 \<le> b" by (meson not_le)
    moreover have "b \<le> i div 8" using n \<open>m div 8 = b\<close> by (metis div_le_mono linear)
    ultimately have d: "i div 8 = b" by simp
    with n \<open>m div 8 = b\<close> \<open>m mod 8 = off\<close> have "off < i mod 8" by (metis div_mult_mod_eq nat_add_left_cancel_less not_le)
    with O i(1) d show False by (auto simp: raw_bit_def)
  qed
  ultimately show ?thesis using B O assms(2) m by (auto simp: raw_bit_def)
qed

lemma highest_bit_from_ex:
  assumes "raw_bit bm i" and "i div 8 \<le> s"
  shows "\<exists>m. highest_bit_from bm s = Some m"
proof -
  from assms have "bm ! (i div 8) \<noteq> 0" by (auto simp: raw_bit_def)
  with assms(2) obtain b where b: "highest_byte bm s = Some b" using highest_byte_ex by blast
  from highest_byte_Some [OF b] obtain j where "j \<le> 7" "bit (bm ! b) j" using byte_nonzero_bit by blast
  then obtain off where "highest_off (bm ! b) 7 = Some off" using highest_off_ex by blast
  with b show ?thesis by (simp add: highest_bit_from_def)
qed

section \<open>Well-formed indices\<close>

text \<open>
  The representation invariant: a capacity of 16 bytes doubled some times, at most 8192; partition
  0 exists; every set bit is below the radix, and some bit needs the whole radix.
\<close>

definition wf_rep :: "Rep \<Rightarrow> bool" where
  "wf_rep r \<longleftrightarrow>
     (\<exists>k. bitmap_capacity r = 16 * 2 ^ k) \<and> bitmap_capacity r \<le> 8192 \<and>
     2 ^ unat (radix r) \<le> 8 * bitmap_capacity r \<and> raw_bit (bitmap r) 0 \<and>
     (\<forall>i. raw_bit (bitmap r) i \<longrightarrow> ToRadix i \<le> unat (radix r)) \<and>
     (\<exists>i. raw_bit (bitmap r) i \<and> ToRadix i = unat (radix r))"

definition parts :: "Rep \<Rightarrow> nat set" where
  "parts r = {i. Rep_bit r i}"

lemma wf_bitmap_size: "wf_rep r \<Longrightarrow> bitmap_size r \<le> bitmap_capacity r \<and> 0 < bitmap_size r"
proof -
  assume "wf_rep r"
  then have "2 ^ unat (radix r) \<le> 8 * bitmap_capacity r" by (simp add: wf_rep_def)
  moreover have "0 < (2 :: nat) ^ unat (radix r)" by simp
  ultimately show ?thesis unfolding bitmap_size_def bitmap_bytes_def by linarith
qed

lemma pow_le_bitmap_bytes: "2 ^ unat r \<le> 8 * bitmap_bytes r"
  unfolding bitmap_bytes_def by linarith

lemma wf_radix_16: "wf_rep r \<Longrightarrow> unat (radix r) \<le> 16"
proof -
  assume "wf_rep r"
  then have "2 ^ unat (radix r) \<le> (2 :: nat) ^ 16" by (auto simp: wf_rep_def)
  then show ?thesis by (simp only: power_increasing_iff [of "2 :: nat"])
qed

lemma wf_Rep_bit: "wf_rep r \<Longrightarrow> Rep_bit r i \<longleftrightarrow> raw_bit (bitmap r) i"
proof -
  assume wf: "wf_rep r"
  have "i < bitmap_size r * 8" if "raw_bit (bitmap r) i"
  proof -
    from that wf have "i < 2 ^ unat (radix r)" by (auto simp: wf_rep_def ToRadix_le_iff)
    with pow_le_bitmap_bytes [of "radix r"] show ?thesis by (simp add: bitmap_size_def)
  qed
  moreover have "i < 8 * bitmap_capacity r" if "i < bitmap_size r * 8"
    using that wf_bitmap_size [OF wf] by linarith
  ultimately show ?thesis by (auto simp: Rep_bit_def test_bit_at_iff raw_bit_def)
qed

lemma wf_parts: "wf_rep r \<Longrightarrow> parts r = {i. raw_bit (bitmap r) i}"
  by (simp add: parts_def wf_Rep_bit)

lemma wf_part_0: "wf_rep r \<Longrightarrow> 0 \<in> parts r"
  by (simp add: wf_parts) (simp add: wf_rep_def)

lemma wf_part_radix: "wf_rep r \<Longrightarrow> i \<in> parts r \<Longrightarrow> i < 2 ^ unat (radix r)"
  by (simp add: wf_parts) (auto simp: wf_rep_def ToRadix_le_iff)

lemma wf_part_less: "wf_rep r \<Longrightarrow> i \<in> parts r \<Longrightarrow> i < 65536"
  using wf_part_radix [of r i] power_increasing [OF wf_radix_16, of r "2 :: nat"] by simp

lemma ToRadix_mono: "i \<le> j \<Longrightarrow> ToRadix i \<le> ToRadix j"
  using ToRadix_upper [of j] by (simp add: ToRadix_le_iff)

lemma HighestBit_wf:
  assumes wf: "wf_rep r"
  shows "\<exists>m. HighestBit r = Some m \<and> m \<in> parts r \<and> (\<forall>i\<in>parts r. i \<le> m) \<and> ToRadix m = unat (radix r)"
proof -
  let ?s = "bitmap_size r - 1"
  have s: "?s < bitmap_capacity r" using wf_bitmap_size [OF wf] by linarith
  have lim: "i div 8 \<le> ?s" if "raw_bit (bitmap r) i" for i
  proof -
    from that wf have "i < bitmap_size r * 8" by (auto simp: Rep_bit_def simp flip: wf_Rep_bit split: if_splits)
    then show ?thesis by linarith
  qed
  have "raw_bit (bitmap r) 0" using wf by (simp add: wf_rep_def)
  then obtain m where m: "highest_bit_from (bitmap r) ?s = Some m"
    using highest_bit_from_ex [OF _ lim] by blast
  note M = highest_bit_from_Some [OF m s]
  have top: "\<forall>i. raw_bit (bitmap r) i \<longrightarrow> i \<le> m" using M lim by blast
  obtain i where i: "raw_bit (bitmap r) i" "ToRadix i = unat (radix r)" using wf by (auto simp: wf_rep_def)
  have "ToRadix m = unat (radix r)"
    using M i top ToRadix_mono [of i m] wf by (auto simp: wf_rep_def intro: antisym)
  moreover have "HighestBit r = Some m"
    using m s wf \<open>raw_bit (bitmap r) 0\<close> by (simp add: HighestBit_def wf_Rep_bit)
  ultimately show ?thesis using M top wf by (auto simp: wf_parts)
qed


section \<open>Turning bits on\<close>

lemma ScaleUp_2:
  assumes "bitmap_capacity r * 2 \<le> 8192"
  shows "ScaleUp r 2 = Some (r\<lparr>bitmap := bitmap r @ replicate (bitmap_capacity r) 0\<rparr>)"
  using assms by (simp add: ScaleUp_def kMaxPartitions_def kMaxRadix_def)

lemma unat_radix_16: "n \<le> 16 \<Longrightarrow> unat (word_of_nat n :: u16) = n"
  by (simp add: unat_of_nat take_bit_nat_eq_self)

lemma wf_capacity_grow:
  assumes wf: "wf_rep r" and i: "i < 65536" "bitmap_capacity r * 8 \<le> i" "ToRadix i \<le> unat (radix r) + 1"
  shows "i < 2 * bitmap_capacity r * 8 \<and> bitmap_capacity r * 2 \<le> 8192"
proof
  have p: "2 ^ unat (radix r) \<le> 8 * bitmap_capacity r" using wf by (simp add: wf_rep_def)
  have "i < 2 * 2 ^ unat (radix r)" using i(3) by (simp add: ToRadix_le_iff)
  with p show "i < 2 * bitmap_capacity r * 8" by linarith
  obtain k where k: "bitmap_capacity r = 16 * 2 ^ k" using wf by (auto simp: wf_rep_def)
  show "bitmap_capacity r * 2 \<le> 8192"
  proof (rule ccontr)
    assume "\<not> ?thesis"
    with k have "2 ^ 8 < (2 :: nat) ^ k" by simp
    then have "8 < k" by (simp only: power_strict_increasing_iff [of "2 :: nat"])
    then have "2 ^ 9 \<le> (2 :: nat) ^ k" by (intro power_increasing) auto
    with k i(1,2) show False by simp
  qed
qed

text \<open>
  A bit whose radix is at most one above the radix of the index can be turned on: no assertion
  fails, the index stays well formed and has exactly that partition more.
\<close>

lemma TurnOnBit_wf:
  assumes wf: "wf_rep r" and i: "i < 65536" "ToRadix i \<le> unat (radix r) + 1"
  obtains r' where "TurnOnBit r i = Some r'" "wf_rep r'" "parts r' = insert i (parts r)"
    "zeroth_server r' = zeroth_server r" "unat (radix r') = max (unat (radix r)) (ToRadix i)"
proof -
  obtain r1 where r1: "(if bitmap_capacity r * 8 \<le> i
      then (if i < 2 * bitmap_capacity r * 8 then ScaleUp r 2 else None) else Some r) = Some r1"
    and r1s: "zeroth_server r1 = zeroth_server r" "radix r1 = radix r"
    and r1b: "\<And>j. raw_bit (bitmap r1) j \<longleftrightarrow> raw_bit (bitmap r) j"
    and r1c: "\<exists>k. bitmap_capacity r1 = 16 * 2 ^ k" "bitmap_capacity r1 \<le> 8192"
      "bitmap_capacity r \<le> bitmap_capacity r1" "i < 8 * bitmap_capacity r1"
  proof (cases "bitmap_capacity r * 8 \<le> i")
    case True
    note g = wf_capacity_grow [OF wf i(1) True i(2)]
    obtain k where "bitmap_capacity r = 16 * 2 ^ k" using wf by (auto simp: wf_rep_def)
    then have k: "bitmap_capacity r + bitmap_capacity r = 16 * 2 ^ Suc k" by simp
    show ?thesis
      by (rule that [of "r\<lparr>bitmap := bitmap r @ replicate (bitmap_capacity r) 0\<rparr>"])
        (use True g k ScaleUp_2 [of r] in \<open>auto simp: mult_2 simp del: power_Suc\<close>)
  next
    case False
    show ?thesis by (rule that [of r]) (use False wf in \<open>auto simp: wf_rep_def\<close>)
  qed
  have t16: "ToRadix i \<le> 16" using i(1) by (simp add: ToRadix_le_iff)
  define r2 where "r2 = (if unat (radix r1) < ToRadix i then r1\<lparr>radix := word_of_nat (ToRadix i)\<rparr> else r1)"
  have r2: "(if unat (radix r1) < ToRadix i
      then (if unat (radix r1) = ToRadix i - 1 then Some (r1\<lparr>radix := word_of_nat (ToRadix i)\<rparr>) else None)
      else Some r1) = Some r2"
    using i(2) by (auto simp: r2_def r1s)
  have r2r: "unat (radix r2) = max (unat (radix r)) (ToRadix i)"
    using t16 by (auto simp: r2_def r1s unat_radix_16)
  have r2b: "bitmap r2 = bitmap r1" "zeroth_server r2 = zeroth_server r" by (auto simp: r2_def r1s)
  define r3 where "r3 = r2\<lparr>bitmap := (bitmap r2)[i div 8 := bitmap r2 ! (i div 8) OR kBits (i mod 8)]\<rparr>"
  have less: "i div 8 < bitmap_capacity r2" using r1c(4) by (auto simp: r2b)
  then have r3: "(if i div 8 < bitmap_capacity r2 then Some r3 else None) = Some r3"
    by simp
  have r3b: "raw_bit (bitmap r3) j \<longleftrightarrow> raw_bit (bitmap r) j \<or> j = i" for j
    using raw_bit_set [of i "bitmap r1" j] r1c(4) by (simp add: r3_def r2b r1b)
  have r3f: "radix r3 = radix r2" "zeroth_server r3 = zeroth_server r" "bitmap_capacity r3 = bitmap_capacity r1"
    by (simp_all add: r3_def r2b)
  have wfr: "2 ^ unat (radix r) \<le> 8 * bitmap_capacity r" "raw_bit (bitmap r) 0"
    "\<And>j. raw_bit (bitmap r) j \<Longrightarrow> ToRadix j \<le> unat (radix r)"
    "\<exists>j. raw_bit (bitmap r) j \<and> ToRadix j = unat (radix r)" using wf by (auto simp: wf_rep_def)
  have cap: "2 ^ unat (radix r3) \<le> 8 * bitmap_capacity r3"
  proof (cases "ToRadix i \<le> unat (radix r)")
    case True
    then show ?thesis using wfr(1) r1c(3) by (simp add: r3f r2r max_def)
  next
    case False
    obtain k where k: "8 * bitmap_capacity r1 = 2 ^ (7 + k)" using r1c(1) by (auto simp: power_add)
    then have "ToRadix i \<le> 7 + k" using r1c(4) by (simp only: ToRadix_le_iff)
    then have "2 ^ ToRadix i \<le> (2 :: nat) ^ (7 + k)" by (intro power_increasing) auto
    then show ?thesis using False by (simp add: r3f r2r max_def k)
  qed
  have ex: "\<exists>j. raw_bit (bitmap r3) j \<and> ToRadix j = unat (radix r3)"
  proof (cases "ToRadix i \<le> unat (radix r)")
    case True
    then show ?thesis using wfr(4) by (auto simp: r3b r3f r2r)
  qed (auto simp: r3b r3f r2r)
  have wf3: "wf_rep r3"
  proof -
    have "ToRadix j \<le> unat (radix r3)" if "raw_bit (bitmap r3) j" for j
      using that wfr(3) [of j] by (auto simp: r3b r3f r2r)
    then show ?thesis
      unfolding wf_rep_def r3f(3) using r1c(1,2) cap ex wfr(2) by (simp add: r3b r3f(3))
  qed
  obtain m where m: "HighestBit r3 = Some m" "ToRadix m = unat (radix r3)"
    using HighestBit_wf [OF wf3] by blast
  have "TurnOnBit r i = Some r3"
    unfolding TurnOnBit_def r1 bind.bind_lunit Let_def r2
    using r3 m less r3_def by simp
  then show thesis
    using that wf3 r3b wf by (auto simp: wf_parts r3f r2r)
qed


lemma new_Rep_wf:
  obtains r where "new_Rep z = Some r" "wf_rep r" "parts r = {0}" "zeroth_server r = z" "radix r = 0"
proof -
  define b where "b = (kBits 0 :: byte) # replicate 15 0"
  define r where "r = \<lparr>zeroth_server = z, radix = 0, bitmap = b\<rparr>"
  have b0: "raw_bit b i \<longleftrightarrow> i = 0" for i
  proof -
    have "b = [kBits 0] @ replicate 15 0" by (simp add: b_def)
    then have "raw_bit b i \<longleftrightarrow> raw_bit [kBits 0] i" by (metis raw_bit_append_zeros)
    also have "\<dots> \<longleftrightarrow> i = 0" by (auto simp: raw_bit_def bit_kBits)
    finally show ?thesis .
  qed
  have l: "length b = 16 * 2 ^ 0" by (simp add: b_def)
  have wf: "wf_rep r"
    unfolding wf_rep_def using l by (auto simp: r_def b0 intro: exI [of _ "0 :: nat"])
  obtain m where m: "HighestBit r = Some m" "ToRadix m = 0"
    using HighestBit_wf [OF wf] by (auto simp: r_def)
  define r0 where "r0 = \<lparr>zeroth_server = z, radix = 0 :: u16, bitmap = replicate kInitBitmapCapacity (0 :: byte)\<rparr>"
  have c: "bitmap r0 \<noteq> []" "bitmap_capacity r0 = 16" "unat (radix r0) = 0" by (simp_all add: r0_def kInitBitmapCapacity_def)
  have "kInitBitmapCapacity = Suc 15" by (simp add: kInitBitmapCapacity_def)
  then have "replicate kInitBitmapCapacity (0 :: byte) = 0 # replicate 15 0" by (metis replicate_Suc)
  then have e: "r0\<lparr>bitmap := (bitmap r0)[0 := bitmap r0 ! 0 OR kBits 0]\<rparr> = r"
    by (simp only: r0_def r_def b_def Rep.simps nth_Cons_0 list_update_code or.left_neutral)
  have "TurnOnBit r0 0 = Some r"
    using m e c by (simp add: TurnOnBit_def r_def)
  then have "new_Rep z = Some r" by (simp add: new_Rep_def r0_def)
  moreover have "Collect (raw_bit b) = {0}" using b0 by auto
  ultimately show thesis using that wf by (simp add: wf_parts r_def)
qed

section \<open>Lookup\<close>

definition prefix_closed :: "nat set \<Rightarrow> bool" where
  "prefix_closed P \<longleftrightarrow> (\<forall>i\<in>P. 0 < i \<longrightarrow> ToParentIndex i \<in> P)"

lemma ToBeMigrated_iff: "i < 65536 \<Longrightarrow> ToBeMigrated i h \<longleftrightarrow> hash_bits h mod 2 ^ ToRadix i = i"
  by (simp add: ToBeMigrated_def ComputeIndexFromHash_eq ToRadix_le_iff)

lemma ToBeMigrated_0: "ToBeMigrated 0 h"
  by (simp add: ToBeMigrated_iff)

lemma mod_parent: "0 < n \<Longrightarrow> x mod 2 ^ ToRadix n = n \<Longrightarrow> x mod 2 ^ (ToRadix n - 1) = ToParentIndex n"
  by (metis ToParentIndex_mod diff_le_self le_imp_power_dvd mod_mod_cancel)

lemma mod_pow_between:
  assumes "x mod 2 ^ k = i" "ToRadix i \<le> k"
  shows "x mod 2 ^ ToRadix i = i"
proof -
  have "x mod 2 ^ ToRadix i = (x mod 2 ^ k) mod 2 ^ ToRadix i"
    using assms(2) by (simp add: le_imp_power_dvd mod_mod_cancel)
  then show ?thesis using assms(1) ToRadix_upper [of i] by simp
qed

text \<open>
  The walk from \<open>x mod 2 ^ k\<close> ends at the largest existing partition whose bits agree with the
  hash, among those of at most \<open>k\<close> bits.
\<close>

lemma to_existing_Max:
  assumes zero: "Rep_bit r 0"
  shows "i = x mod 2 ^ k \<Longrightarrow>
    (let j = to_existing r i in
       Rep_bit r j \<and> x mod 2 ^ ToRadix j = j \<and>
       (\<forall>l. Rep_bit r l \<longrightarrow> ToRadix l \<le> k \<longrightarrow> x mod 2 ^ ToRadix l = l \<longrightarrow> l \<le> j))"
proof (induction i arbitrary: k rule: less_induct)
  case (less i)
  have ri: "ToRadix i \<le> k" using less.prems by (simp add: ToRadix_le_iff)
  have top: "l \<le> i" if "ToRadix l \<le> k" "x mod 2 ^ ToRadix l = l" for l
  proof -
    have "x mod 2 ^ ToRadix l = (x mod 2 ^ k) mod 2 ^ ToRadix l"
      using that(1) by (simp add: le_imp_power_dvd mod_mod_cancel)
    then show ?thesis using that(2) less.prems by (metis mod_less_eq_dividend)
  qed
  show ?case
  proof (cases "\<not> Rep_bit r i \<and> i \<noteq> 0")
    case False
    then have "Rep_bit r i" using zero by auto
    moreover from this have "to_existing r i = i" by (simp add: to_existing.simps [of r i])
    ultimately show ?thesis using ri mod_pow_between [of x k i] less.prems top by (simp add: Let_def)
  next
    case True
    let ?p = "ToParentIndex i" and ?k = "ToRadix i - 1"
    have xi: "x mod 2 ^ ToRadix i = i" using mod_pow_between [of x k i] ri less.prems by simp
    then have "?p = x mod 2 ^ ?k" using True mod_parent [of i x] by simp
    note IH = less.IH [OF _ this]
    have "ToRadix l \<le> ?k" if l: "Rep_bit r l" "ToRadix l \<le> k" "x mod 2 ^ ToRadix l = l" for l
    proof -
      have "l \<le> i" using top l by blast
      moreover have "l \<noteq> i" using l True by auto
      moreover have "\<not> ToRadix l = ToRadix i" using l xi \<open>l \<noteq> i\<close> by metis
      ultimately have "ToRadix l < ToRadix i" using ToRadix_mono [of l i] by linarith
      then show ?thesis by simp
    qed
    with IH True ToParentIndex_less [of i] show ?thesis by (simp add: to_existing.simps [of r i] Let_def)
  qed
qed


text \<open>
  A usable index: well formed, over a power of two of virtual servers, all partitions below it.
\<close>

definition wf_index :: "DirIndex \<Rightarrow> bool" where
  "wf_index d \<longleftrightarrow>
     (\<exists>r k. rep d = Some r \<and> wf_rep r \<and> k \<le> 16 \<and> num_virtual_servers (options d) = 2 ^ k \<and>
            (\<forall>i\<in>parts r. i < 2 ^ k))"

definition partitions :: "DirIndex \<Rightarrow> nat set" where
  "partitions d = (case rep d of None \<Rightarrow> {} | Some r \<Rightarrow> parts r)"

lemma wf_indexE:
  assumes "wf_index d"
  obtains r k where "rep d = Some r" "wf_rep r" "k \<le> 16" "num_virtual_servers (options d) = 2 ^ k"
    "partitions d = parts r" "\<And>i. i \<in> parts r \<Longrightarrow> i < 2 ^ k" "unat (radix r) \<le> k"
proof -
  from assms obtain r k where r: "rep d = Some r" "wf_rep r" "k \<le> 16"
    "num_virtual_servers (options d) = 2 ^ k" "\<And>i. i \<in> parts r \<Longrightarrow> i < 2 ^ k"
    by (auto simp: wf_index_def)
  moreover obtain m where "m \<in> parts r" "ToRadix m = unat (radix r)" using HighestBit_wf [OF r(2)] by blast
  then have "unat (radix r) \<le> k" using r(5) [of m] by (simp flip: ToRadix_le_iff)
  ultimately show thesis using that by (simp add: partitions_def)
qed

text \<open>\<open>home P h\<close> is the partition of a hash, given the set of partitions: the largest whose bits agree.\<close>

definition home :: "nat set \<Rightarrow> slice \<Rightarrow> nat" where
  "home P h = Max {i \<in> P. ToBeMigrated i h}"

lemma wf_finite_parts: "wf_rep r \<Longrightarrow> finite (parts r)"
  by (rule finite_subset [of _ "{..<65536}"]) (auto dest: wf_part_less)

lemma HashToIndex_home:
  assumes "wf_index d"
  shows "HashToIndex d h = Some (home (partitions d) h)"
proof -
  obtain r k where r: "rep d = Some r" "wf_rep r" "k \<le> 16" "num_virtual_servers (options d) = 2 ^ k"
    "partitions d = parts r" "unat (radix r) \<le> k" using assms by (rule wf_indexE) blast
  let ?x = "hash_bits h" and ?k = "unat (radix r)"
  have k16: "?k \<le> 16" using r by simp
  have zero: "Rep_bit r 0" using wf_part_0 [OF r(2)] by (simp add: parts_def)
  note T = to_existing_Max [OF zero refl, of ?x ?k, unfolded Let_def]
  let ?j = "to_existing r (?x mod 2 ^ ?k)"
  have "?x mod 2 ^ ?k < 2 ^ ?k" by simp
  also have "\<dots> \<le> 2 ^ k" using r(6) by (intro power_increasing) auto
  finally have "HashToIndex d h = Some ?j"
    using r zero k16 by (simp add: HashToIndex_def ComputeIndexFromHash_eq)
  moreover have "?j = home (parts r) h"
    unfolding home_def
  proof (rule Max_eqI [symmetric])
    show "finite {i \<in> parts r. ToBeMigrated i h}" using wf_finite_parts [OF r(2)] by simp
    show "?j \<in> {i \<in> parts r. ToBeMigrated i h}"
      using T wf_part_less [OF r(2)] by (auto simp: parts_def ToBeMigrated_iff)
    fix l assume "l \<in> {i \<in> parts r. ToBeMigrated i h}"
    then show "l \<le> ?j"
      using T wf_part_less [OF r(2), of l] wf_part_radix [OF r(2), of l]
      by (auto simp: parts_def ToBeMigrated_iff ToRadix_le_iff)
  qed
  ultimately show ?thesis using r by simp
qed

lemma home_in:
  assumes "finite P" "0 \<in> P"
  shows "home P h \<in> P \<and> ToBeMigrated (home P h) h"
proof -
  have "0 \<in> {i \<in> P. ToBeMigrated i h}" using assms(2) ToBeMigrated_0 by simp
  then have "{i \<in> P. ToBeMigrated i h} \<noteq> {}" by blast
  then have "home P h \<in> {i \<in> P. ToBeMigrated i h}" unfolding home_def using assms(1) by (intro Max_in) auto
  then show ?thesis by simp
qed

section \<open>Splitting\<close>

lemma prefix_closed_mod:
  assumes P: "prefix_closed P"
  shows "l \<in> P \<Longrightarrow> l mod 2 ^ j \<in> P"
proof (induction l rule: less_induct)
  case (less l)
  show ?case
  proof (cases "l < 2 ^ j")
    case True
    then show ?thesis using less.prems by simp
  next
    case False
    then have pos: "0 < l" by (metis gr0I zero_less_numeral zero_less_power)
    then have "ToParentIndex l mod 2 ^ j \<in> P"
      using less P ToParentIndex_less [OF pos] by (auto simp: prefix_closed_def)
    moreover have "j \<le> ToRadix l - 1"
      using False ToRadix_le_iff [of l j] by linarith
    then have "ToParentIndex l mod 2 ^ j = l mod 2 ^ j"
      using pos by (simp add: ToParentIndex_mod mod_mod_cancel le_imp_power_dvd)
    ultimately show ?thesis by simp
  qed
qed

text \<open>What the loop of \<^verbatim>\<open>NewIndexForSplitting\<close> returns: the first child that does not exist.\<close>

definition first_child :: "nat set \<Rightarrow> nat \<Rightarrow> nat \<Rightarrow> nat \<Rightarrow> bool" where
  "first_child P p k c \<longleftrightarrow>
     c = ToChildIndex p k \<and> ToRadix p \<le> k \<and> k < 16 \<and> c \<notin> P \<and>
     (\<forall>j. ToRadix p \<le> j \<longrightarrow> j < k \<longrightarrow> ToChildIndex p j \<in> P)"

lemma new_index_loop_child:
  assumes "new_index_loop r p i rdx = Some c" "i = p \<and> rdx = b \<and> Rep_bit r p \<or> b < rdx \<and> i = ToChildIndex p (rdx - 1)"
    "\<forall>j. b \<le> j \<longrightarrow> j < rdx - 1 \<longrightarrow> Rep_bit r (ToChildIndex p j)" "rdx \<le> 16"
  shows "\<exists>k. c = ToChildIndex p k \<and> b \<le> k \<and> k < 16 \<and> \<not> Rep_bit r c \<and>
    (\<forall>j. b \<le> j \<longrightarrow> j < k \<longrightarrow> Rep_bit r (ToChildIndex p j))"
  using assms
proof (induction r p i rdx rule: new_index_loop.induct)
  case (1 r p i rdx)
  show ?case
  proof (cases "Rep_bit r i")
    case False
    then have "c = i" using "1.prems"(1) by (simp add: new_index_loop.simps [of r p i])
    then show ?thesis using False "1.prems"(2-4) by (intro exI [of _ "rdx - 1"]) auto
  next
    case True
    then have rd: "rdx < kMaxRadix" and n: "new_index_loop r p (ToChildIndex p rdx) (rdx + 1) = Some c"
      using "1.prems"(1) by (simp_all add: new_index_loop.simps [of r p i] split: if_splits)
    have "Rep_bit r (ToChildIndex p j)" if "b \<le> j" "j < rdx" for j
    proof (cases "j < rdx - 1")
      case False
      then have "j = rdx - 1" using that by linarith
      then show ?thesis using "1.prems"(2) True that by auto
    qed (use "1.prems"(3) that in auto)
    then show ?thesis
      using "1.IH" [OF True rd n] "1.prems"(2) rd by (auto simp: kMaxRadix_def)
  qed
qed

lemma splittable_new_index:
  assumes "splittable_loop r nvs p rdx" and "Rep_bit r i"
  shows "\<exists>c. new_index_loop r p i rdx = Some c \<and> c < nvs \<and> \<not> Rep_bit r c"
  using assms
proof (induction r nvs p rdx arbitrary: i rule: splittable_loop.induct)
  case (1 r nvs p rdx)
  from "1.prems"(1) have rd: "rdx < kMaxRadix" by (simp add: splittable_loop.simps [of r nvs] split: if_splits)
  show ?case
  proof (cases "Rep_bit r (ToChildIndex p rdx)")
    case True
    then have "splittable_loop r nvs p (rdx + 1)"
      using "1.prems"(1) rd by (simp add: splittable_loop.simps [of r nvs p rdx])
    from "1.IH" [OF rd refl _ this True] True rd "1.prems"(2) show ?thesis
      by (simp add: new_index_loop.simps [of r p i rdx])
  next
    case False
    then have "ToChildIndex p rdx < nvs"
      using "1.prems"(1) rd by (simp add: splittable_loop.simps [of r nvs p rdx])
    then show ?thesis using False rd "1.prems"(2)
      by (simp add: new_index_loop.simps [of r p i rdx] new_index_loop.simps [of r p "ToChildIndex p rdx"])
  qed
qed

text \<open>The assertions of \<^verbatim>\<open>NewIndexForSplitting\<close> hold exactly for a splittable partition.\<close>

lemma NewIndexForSplitting_iff:
  assumes "wf_index d"
  shows "(\<exists>c. NewIndexForSplitting d p = Some c) \<longleftrightarrow> IsSplittable d p = Some True"
proof -
  obtain r where r: "rep d = Some r" using assms by (rule wf_indexE)
  show ?thesis
  proof
    assume s: "IsSplittable d p = Some True"
    then have b: "Rep_bit r p" and "splittable_loop r (num_virtual_servers (options d)) p (ToRadix p)"
      using r by (simp_all add: IsSplittable_def split: if_splits)
    from splittable_new_index [OF this(2,1)] obtain c where
      "new_index_loop r p p (ToRadix p) = Some c" "c < num_virtual_servers (options d)" "\<not> Rep_bit r c" by blast
    moreover have "c \<noteq> p" using b \<open>\<not> Rep_bit r c\<close> by auto
    ultimately show "\<exists>c. NewIndexForSplitting d p = Some c" using s r by (simp add: NewIndexForSplitting_def)
  next
    assume "\<exists>c. NewIndexForSplitting d p = Some c"
    then show "IsSplittable d p = Some True"
      using r by (auto simp: NewIndexForSplitting_def bind_eq_Some_conv split: if_splits)
  qed
qed


lemma NewIndexForSplitting_child:
  assumes wf: "wf_index d" and c: "NewIndexForSplitting d p = Some c"
  shows "p \<in> partitions d \<and> c < num_virtual_servers (options d) \<and> (\<exists>k. first_child (partitions d) p k c)"
proof -
  obtain r k where r: "rep d = Some r" "wf_rep r" "partitions d = parts r" "unat (radix r) \<le> k" "k \<le> 16"
    using wf by (rule wf_indexE) blast
  from c r have n: "new_index_loop r p p (ToRadix p) = Some c" "c < num_virtual_servers (options d)" "Rep_bit r p"
    by (auto simp: NewIndexForSplitting_def IsSplittable_def bind_eq_Some_conv split: if_splits)
  have "p < 2 ^ k"
    using n(3) wf_part_radix [OF r(2), of p] less_le_trans [OF _ power_increasing [OF r(4), of "2 :: nat"]]
    by (simp add: parts_def)
  then have "ToRadix p \<le> 16" using r(5) by (simp flip: ToRadix_le_iff)
  then have "\<exists>k. c = ToChildIndex p k \<and> ToRadix p \<le> k \<and> k < 16 \<and> \<not> Rep_bit r c \<and>
      (\<forall>j. ToRadix p \<le> j \<longrightarrow> j < k \<longrightarrow> Rep_bit r (ToChildIndex p j))"
    using n(3) by (intro new_index_loop_child [OF n(1)]) auto
  then show ?thesis
    using n(2,3) by (simp only: first_child_def r(3) parts_def mem_Collect_eq simp_thms)
qed

lemma first_child_radix:
  assumes c: "first_child (parts r) p k c" and wf: "wf_rep r" and p: "p \<in> parts r"
  shows "ToRadix c \<le> unat (radix r) + 1 \<and> c < 65536"
proof -
  from c have C: "c = ToChildIndex p k" "ToRadix p \<le> k" "k < 16"
    "\<And>j. ToRadix p \<le> j \<Longrightarrow> j < k \<Longrightarrow> ToChildIndex p j \<in> parts r" by (auto simp: first_child_def)
  have rc: "ToRadix c = Suc k" using C by (simp add: ToRadix_Child flip: ToRadix_le_iff)
  have "k \<le> unat (radix r)"
  proof (cases "k = ToRadix p")
    case True
    then show ?thesis using wf_part_radix [OF wf p] by (simp flip: ToRadix_le_iff)
  next
    case False
    then have k: "ToRadix p \<le> k - 1" "k - 1 < k" using C(2) by linarith+
    then have "ToRadix (ToChildIndex p (k - 1)) = k" using ToRadix_Child [of p "k - 1"] by (simp flip: ToRadix_le_iff)
    then show ?thesis using wf_part_radix [OF wf C(4) [OF k]] by (simp flip: ToRadix_le_iff)
  qed
  moreover have "c < 2 ^ 16" using rc C(3) by (simp only: flip: ToRadix_le_iff)
  ultimately show ?thesis using rc by simp
qed

lemma Set_wf:
  assumes wf: "wf_index d" and i: "i < num_virtual_servers (options d)"
    and rad: "\<And>r. rep d = Some r \<Longrightarrow> ToRadix i \<le> unat (radix r) + 1"
  obtains d' where "Set d i = Some d'" "wf_index d'" "partitions d' = insert i (partitions d)"
    "options d' = options d" "ZerothServerOf d' = ZerothServerOf d"
proof -
  obtain r k where r: "rep d = Some r" "wf_rep r" "k \<le> 16" "num_virtual_servers (options d) = 2 ^ k"
    "partitions d = parts r" "\<And>i. i \<in> parts r \<Longrightarrow> i < 2 ^ k" using wf by (rule wf_indexE) blast
  have "i < 2 ^ 16" using i r(3,4) by (metis le_less_trans not_less power_increasing_iff rel_simps(49) semiring_norm(76) order_less_le_trans one_less_numeral_iff)
  then have "i < 65536" by simp
  from TurnOnBit_wf [OF r(2) this rad [OF r(1)]] obtain r' where
    r': "TurnOnBit r i = Some r'" "wf_rep r'" "parts r' = insert i (parts r)" "zeroth_server r' = zeroth_server r"
    by blast
  have "Set d i = Some (d\<lparr>rep := Some r'\<rparr>)" using i r(1) r'(1) by (simp add: Set_def)
  moreover have "wf_index (d\<lparr>rep := Some r'\<rparr>)" using r r' i by (auto simp: wf_index_def)
  ultimately show thesis using that r r' by (simp add: partitions_def ZerothServerOf_def)
qed

text \<open>How the home of a hash moves when a partition splits: to the new child, or not at all.\<close>

lemma home_insert_child:
  assumes P: "finite P" "0 \<in> P" "P \<subseteq> {..<65536}" "prefix_closed P" and p: "p \<in> P" and c: "first_child P p k c"
  shows "home (insert c P) h = (if ToBeMigrated c h then c else home P h)"
    and "ToBeMigrated c h \<Longrightarrow> home P h = p"
proof -
  let ?x = "hash_bits h"
  from c have C: "c = p + 2 ^ k" "ToRadix p \<le> k" "k < 16" "c \<notin> P" by (auto simp: first_child_def ToChildIndex_def)
  have pk: "p < 2 ^ k" using C(2) by (simp flip: ToRadix_le_iff)
  have rc: "ToRadix c = Suc k" using ToRadix_Child [OF pk] C(1) by (simp add: ToChildIndex_def)
  have c16: "c < 65536" using C(3) rc ToRadix_le_iff [of c 16] by simp
  have below: "l \<le> p" if l: "l \<in> P" "ToBeMigrated l h" and m: "ToBeMigrated c h" for l
  proof -
    have xc: "?x mod 2 ^ Suc k = c" using m rc c16 by (simp add: ToBeMigrated_iff)
    have xl: "?x mod 2 ^ ToRadix l = l" using l P(3) by (auto simp: ToBeMigrated_iff)
    have xp: "?x mod 2 ^ k = p"
    proof -
      have "?x mod 2 ^ k = c mod 2 ^ k" unfolding xc [symmetric] by (simp add: mod_mod_cancel le_imp_power_dvd)
      then show ?thesis using pk C(1) by simp
    qed
    show ?thesis
    proof (cases "ToRadix l \<le> k")
      case True
      then have "l = p mod 2 ^ ToRadix l" using xl xp by (metis le_imp_power_dvd mod_mod_cancel)
      then show ?thesis by (metis mod_less_eq_dividend)
    next
      case False
      then have "Suc k \<le> ToRadix l" by simp
      then have "l mod 2 ^ Suc k = c" using xl xc by (metis le_imp_power_dvd mod_mod_cancel)
      then show ?thesis using prefix_closed_mod [OF P(4) l(1), of "Suc k"] C(4) by simp
    qed
  qed
  show hp: "home P h = p" if m: "ToBeMigrated c h"
    unfolding home_def
  proof (rule Max_eqI)
    have xc: "?x mod 2 ^ Suc k = c" using m rc c16 by (simp add: ToBeMigrated_iff)
    have "?x mod 2 ^ ToRadix p = c mod 2 ^ ToRadix p" unfolding xc [symmetric] using C(2) by (simp add: mod_mod_cancel le_imp_power_dvd)
    also have "\<dots> = p" using C(1,2) ToRadix_upper [of p]
      by (metis le_imp_power_dvd mod_mult_self2 dvd_def mod_less mult.commute mod_mult_self1)
    finally have "ToBeMigrated p h" using p P(3) by (auto simp: ToBeMigrated_iff)
    then show "p \<in> {i \<in> P. ToBeMigrated i h}" using p by simp
  qed (use P(1) below m in auto)
  show "home (insert c P) h = (if ToBeMigrated c h then c else home P h)"
  proof (cases "ToBeMigrated c h")
    case True
    have "Max {i \<in> insert c P. ToBeMigrated i h} = c"
    proof (rule Max_eqI)
      fix l assume "l \<in> {i \<in> insert c P. ToBeMigrated i h}"
      then show "l \<le> c" using below [OF _ _ True, of l] C(1) by auto
    qed (use P(1) True in auto)
    then show ?thesis using True by (simp add: home_def)
  next
    case False
    then have "{i \<in> insert c P. ToBeMigrated i h} = {i \<in> P. ToBeMigrated i h}" by auto
    then show ?thesis using False by (simp add: home_def)
  qed
qed


section \<open>Reserving and setting every partition\<close>

lemma scale_factor_pow:
  "0 < current \<Longrightarrow> capacity \<le> 8192 \<Longrightarrow> current = 16 * 2 ^ k \<Longrightarrow> current \<le> 8192 \<Longrightarrow>
   \<exists>j. scale_factor current capacity f = f * 2 ^ j \<and> current * 2 ^ j \<le> 8192 \<and> capacity \<le> current * 2 ^ j"
proof (induction current capacity f arbitrary: k rule: scale_factor.induct)
  case (1 current capacity f)
  show ?case
  proof (cases "current < capacity")
    case False
    then have "scale_factor current capacity f = f" by (subst scale_factor.simps) simp
    then show ?thesis using False "1.prems"(4) by (intro exI [of _ 0]) simp
  next
    case True
    then have "16 * 2 ^ k < 16 * (2 :: nat) ^ 9" using "1.prems" by simp
    then have "k < 9" by (simp only: mult_less_cancel1 power_strict_increasing_iff)
    then have "2 ^ Suc k \<le> (2 :: nat) ^ 9" by (intro power_increasing) auto
    then have "current * 2 \<le> 8192" using "1.prems"(3) by simp
    with "1.IH" [of "Suc k"] True "1.prems" obtain j where
      "scale_factor (current * 2) capacity (f * 2) = f * 2 * 2 ^ j" "current * 2 * 2 ^ j \<le> 8192"
      "capacity \<le> current * 2 * 2 ^ j" by auto
    then show ?thesis using True "1.prems"(1)
      by (intro exI [of _ "Suc j"]) (subst scale_factor.simps, simp add: mult.assoc)
  qed
qed

lemma ScaleToSize_wf:
  assumes cap: "\<exists>k. bitmap_capacity r = 16 * 2 ^ k" "bitmap_capacity r \<le> 8192" and n: "n \<le> 8192"
  obtains m where "ScaleToSize r n = Some (r\<lparr>bitmap := bitmap r @ replicate m 0\<rparr>)"
    "\<exists>k. bitmap_capacity r + m = 16 * 2 ^ k" "bitmap_capacity r + m \<le> 8192" "n \<le> bitmap_capacity r + m"
proof -
  obtain k where k: "bitmap_capacity r = 16 * 2 ^ k" using cap by blast
  then obtain j where j: "scale_factor (bitmap_capacity r) n 1 = 2 ^ j" "bitmap_capacity r * 2 ^ j \<le> 8192"
    "n \<le> bitmap_capacity r * 2 ^ j"
    using scale_factor_pow [of "bitmap_capacity r" n k 1] cap(2) n by auto
  let ?m = "bitmap_capacity r * 2 ^ j - bitmap_capacity r"
  have m: "bitmap_capacity r + ?m = bitmap_capacity r * 2 ^ j" by simp
  have "ScaleToSize r n = Some (r\<lparr>bitmap := bitmap r @ replicate ?m 0\<rparr>)"
  proof (cases "j = 0")
    case True
    then show ?thesis using j(1) by (simp add: ScaleToSize_def ScaleUp_def)
  next
    case False
    then have "1 < (2 :: nat) ^ j" by (intro one_less_power) auto
    then show ?thesis using j(1,2) by (simp add: ScaleToSize_def ScaleUp_def kMaxPartitions_def kMaxRadix_def)
  qed
  moreover have "bitmap_capacity r * 2 ^ j = 16 * 2 ^ (k + j)" using k by (simp add: power_add)
  ultimately show thesis using that [of ?m] j m by (metis (no_types, lifting))
qed

lemma wf_rep_zeros:
  assumes wf: "wf_rep r" and m: "\<exists>k. bitmap_capacity r + m = 16 * 2 ^ k" "bitmap_capacity r + m \<le> 8192"
  shows "wf_rep (r\<lparr>bitmap := bitmap r @ replicate m 0\<rparr>) \<and> parts (r\<lparr>bitmap := bitmap r @ replicate m 0\<rparr>) = parts r"
proof
  show w: "wf_rep (r\<lparr>bitmap := bitmap r @ replicate m 0\<rparr>)" using wf m by (simp add: wf_rep_def)
  show "parts (r\<lparr>bitmap := bitmap r @ replicate m 0\<rparr>) = parts r" using wf_parts [OF w] wf_parts [OF wf] by simp
qed

lemma turn_on_upto_all:
  "wf_rep r \<Longrightarrow> parts r = insert 0 {..<i} \<Longrightarrow> i \<le> n \<Longrightarrow> n \<le> 65536 \<Longrightarrow>
   \<exists>r'. turn_on_upto r i n = Some r' \<and> wf_rep r' \<and> parts r' = insert 0 {..<n} \<and> zeroth_server r' = zeroth_server r"
proof (induction r i n rule: turn_on_upto.induct)
  case (1 r i n)
  show ?case
  proof (cases "i < n")
    case False
    then have "i = n" using "1.prems"(3) by simp
    moreover have "turn_on_upto r n n = Some r" by (subst turn_on_upto.simps) simp
    ultimately show ?thesis using "1.prems"(1,2) by simp
  next
    case True
    have "ToRadix i \<le> unat (radix r) + 1"
    proof (cases i)
      case (Suc j)
      then have "j \<in> parts r" using "1.prems"(2) by simp
      from wf_part_radix [OF "1.prems"(1) this] show ?thesis using Suc by (simp add: ToRadix_le_iff)
    qed simp
    then obtain r' where r': "TurnOnBit r i = Some r'" "wf_rep r'" "parts r' = insert i (parts r)"
      "zeroth_server r' = zeroth_server r"
      using TurnOnBit_wf [OF "1.prems"(1), of i] True "1.prems"(4) by (metis less_le_trans)
    have "parts r' = insert 0 {..<i + 1}" using r'(3) "1.prems"(2) by auto
    from "1.IH" [OF True r'(1,2) this] True "1.prems"(4) obtain r2 where
      "turn_on_upto r' (i + 1) n = Some r2" "wf_rep r2" "parts r2 = insert 0 {..<n}" "zeroth_server r2 = zeroth_server r'"
      by auto
    moreover have "turn_on_upto r i n = turn_on_upto r' (i + 1) n" using True r'(1) by (subst turn_on_upto.simps) simp
    ultimately show ?thesis using r'(4) by simp
  qed
qed

lemma new_index_wf:
  assumes k: "k \<le> 16" "num_virtual_servers opts = 2 ^ k"
  obtains d where "new_DirIndex z opts = Some d" "wf_index d" "partitions d = {0}" "options d = opts"
    "ZerothServerOf d = Some (unat z)"
proof -
  obtain r where "new_Rep z = Some r" "wf_rep r" "parts r = {0}" "zeroth_server r = z" by (rule new_Rep_wf)
  then show thesis
    using that [of "\<lparr>options = opts, rep = Some r\<rparr>"] k
    by (auto simp: new_DirIndex_def wf_index_def partitions_def ZerothServerOf_def)
qed


section \<open>Merging and encoding\<close>

text \<open>
  The other side of a merge, as a set of partitions: its bytes, its radix and its size describe a
  well-formed index.
\<close>

definition wf_other :: "nat \<Rightarrow> u16 \<Rightarrow> (nat \<Rightarrow> byte) \<Rightarrow> nat set \<Rightarrow> bool" where
  "wf_other sz rdx get Q \<longleftrightarrow>
     sz = bitmap_bytes rdx \<and> sz \<le> 8192 \<and> (\<forall>i. sz \<le> i \<longrightarrow> get i = 0) \<and>
     (\<forall>i. i \<in> Q \<longleftrightarrow> bit (get (i div 8)) (i mod 8)) \<and>
     (\<forall>i\<in>Q. ToRadix i \<le> unat rdx) \<and> (\<exists>i\<in>Q. ToRadix i = unat rdx)"

lemma pow_le_8192_capacity:
  assumes "bitmap_bytes rdx \<le> cap" "cap = 16 * 2 ^ k"
  shows "2 ^ unat rdx \<le> 8 * (cap :: nat)"
proof -
  have "2 ^ unat rdx \<le> 8 * bitmap_bytes rdx" by (rule pow_le_bitmap_bytes)
  then show ?thesis using assms(1) by linarith
qed

lemma bitmap_bytes_mono: "r \<le> s \<Longrightarrow> bitmap_bytes r \<le> bitmap_bytes s"
proof -
  assume "r \<le> s"
  then have "2 ^ unat r \<le> (2 :: nat) ^ unat s" by (intro power_increasing) (auto simp: word_le_nat_alt)
  then show ?thesis unfolding bitmap_bytes_def by (intro div_le_mono) simp
qed

lemma raw_bit_map_or:
  "raw_bit (map (\<lambda>i. if i < n then bm ! i OR get i else bm ! i) [0..<length bm]) j \<longleftrightarrow>
   raw_bit bm j \<or> j < 8 * length bm \<and> j div 8 < n \<and> bit (get (j div 8)) (j mod 8)"
proof (cases "j div 8 < length bm")
  case True
  then have "j < 8 * length bm" by linarith
  then show ?thesis using True by (auto simp: raw_bit_def bit_simps)
next
  case False
  then have "\<not> j < 8 * length bm" by linarith
  then show ?thesis by (simp add: raw_bit_def)
qed

lemma DoMerge_wf:
  assumes wf: "wf_rep r" and other: "wf_other sz rdx get Q" and z: "zeroth_server r = z"
  obtains r' where "DoMerge r z sz rdx get \<bind> check_radix = Some r'" "wf_rep r'"
    "parts r' = parts r \<union> Q" "zeroth_server r' = z" "radix r' = max (radix r) rdx"
proof -
  have cap: "\<exists>k. bitmap_capacity r = 16 * 2 ^ k" "bitmap_capacity r \<le> 8192" using wf by (auto simp: wf_rep_def)
  note bs = wf_bitmap_size [OF wf]
  have o: "sz = bitmap_bytes rdx" "sz \<le> 8192" "\<And>i. sz \<le> i \<Longrightarrow> get i = 0"
    "\<And>i. i \<in> Q \<longleftrightarrow> bit (get (i div 8)) (i mod 8)" "\<And>i. i \<in> Q \<Longrightarrow> ToRadix i \<le> unat rdx"
    "\<exists>i\<in>Q. ToRadix i = unat rdx" using other by (auto simp: wf_other_def)
  define n where "n = max (bitmap_size r) sz"
  have "n \<le> 8192" using bs cap(2) o(2) by (simp add: n_def)
  then obtain m where m: "ScaleToSize r n = Some (r\<lparr>bitmap := bitmap r @ replicate m 0\<rparr>)"
    "\<exists>k. bitmap_capacity r + m = 16 * 2 ^ k" "bitmap_capacity r + m \<le> 8192" "n \<le> bitmap_capacity r + m"
    using ScaleToSize_wf [OF cap] by blast
  define bm where "bm = bitmap r @ replicate m (0 :: byte)"
  define r' where "r' = \<lparr>zeroth_server = z, radix = max (radix r) rdx,
      bitmap = map (\<lambda>i. if i < n then bm ! i OR get i else bm ! i) [0..<length bm]\<rparr>"
  have len: "bitmap_capacity r' = bitmap_capacity r + m" by (simp add: r'_def bm_def)
  have size': "bitmap_size r' = n"
    by (auto simp: bitmap_size_def n_def o(1) r'_def max_def intro!: antisym bitmap_bytes_mono)
  have "DoMerge r z sz rdx get = Some r'"
  proof -
    have "bitmap_size (r\<lparr>bitmap := bm, radix := max (radix r) rdx\<rparr>) = n"
      using size' by (simp add: bitmap_size_def r'_def)
    then show ?thesis
      using m(1) z unfolding DoMerge_def n_def [symmetric] bm_def [symmetric] Let_def by (simp add: r'_def)
  qed
  have bits: "raw_bit (bitmap r') j \<longleftrightarrow> raw_bit (bitmap r) j \<or> j \<in> Q" for j
  proof -
    have "j div 8 < n \<and> j < 8 * length bm" if "j \<in> Q"
    proof -
      have "j div 8 < sz" using that o(3) [of "j div 8"] o(4) [of j] by (cases "j div 8 < sz") auto
      then have "j div 8 < n" "j div 8 < length bm" using m(4) by (auto simp: n_def bm_def)
      then show ?thesis by linarith
    qed
    moreover have "raw_bit (bitmap r') j \<longleftrightarrow>
        raw_bit bm j \<or> j < 8 * length bm \<and> j div 8 < n \<and> bit (get (j div 8)) (j mod 8)"
      by (simp only: r'_def Rep.simps raw_bit_map_or)
    ultimately show ?thesis using o(4) [of j] raw_bit_append_zeros [of "bitmap r" m j]
      by (auto simp: bm_def)
  qed
  have rm: "unat (radix r') = max (unat (radix r)) (unat rdx)"
    by (auto simp: r'_def max_def word_le_nat_alt)
  have wf': "wf_rep r'"
  proof -
    have "ToRadix j \<le> unat (radix r')" if "raw_bit (bitmap r') j" for j
      using that o(5) [of j] wf by (auto simp: bits rm wf_rep_def)
    moreover have "\<exists>j. raw_bit (bitmap r') j \<and> ToRadix j = unat (radix r')"
      using o(6) wf unfolding bits rm max_def by (auto simp: wf_rep_def)
    moreover obtain k where k: "bitmap_capacity r' = 16 * 2 ^ k" using m(2) len by auto
    moreover have "2 ^ unat (radix r') \<le> 8 * bitmap_capacity r'"
      by (rule pow_le_8192_capacity [OF _ k]) (use size' m(4) len in \<open>simp add: bitmap_size_def\<close>)
    moreover have "raw_bit (bitmap r') 0" using wf by (simp add: bits wf_rep_def)
    ultimately show ?thesis using m(3) len unfolding wf_rep_def by auto
  qed
  moreover have "check_radix r' = Some r'" using HighestBit_wf [OF wf'] by (auto simp: check_radix_def)
  moreover have "parts r' = parts r \<union> Q" using bits wf wf' by (auto simp: wf_parts)
  ultimately show thesis
    using that [of r'] \<open>DoMerge r z sz rdx get = Some r'\<close> by (simp add: r'_def)
qed


lemma wf_other_Rep: "wf_rep r \<Longrightarrow> wf_other (bitmap_size r) (radix r) (Rep_byte r) (parts r)"
proof -
  assume wf: "wf_rep r"
  have "Rep_bit r i \<longleftrightarrow> bit (Rep_byte r (i div 8)) (i mod 8)" for i
  proof -
    have "i < bitmap_size r * 8 \<longleftrightarrow> i div 8 < bitmap_size r" by linarith
    then show ?thesis by (simp add: Rep_bit_def Rep_byte_def test_bit_at_iff)
  qed
  moreover obtain m where "m \<in> parts r" "ToRadix m = unat (radix r)" using HighestBit_wf [OF wf] by blast
  moreover have "ToRadix i \<le> unat (radix r)" if "i \<in> parts r" for i
    using wf_part_radix [OF wf that] by (simp add: ToRadix_le_iff)
  moreover have "bitmap_size r \<le> 8192" using wf wf_bitmap_size [OF wf] by (simp add: wf_rep_def)
  ultimately show ?thesis
    unfolding wf_other_def by (auto simp: parts_def bitmap_size_def [symmetric]) (simp add: Rep_byte_def)
qed

text \<open>The view of an encoded index.\<close>

definition view_of :: "Rep \<Rightarrow> View" where
  "view_of r = \<lparr>view_zeroth_server = zeroth_server r, view_radix = radix r,
                view_bitmap = take (bitmap_size r) (bitmap r)\<rparr>"

lemma view_bits:
  assumes wf: "wf_rep r"
  shows "View_bit (view_of r) i \<longleftrightarrow> Rep_bit r i" and "View_byte (view_of r) i = Rep_byte r i"
    and "View_HighestBit (view_of r) = HighestBit r"
    and "length (view_bitmap (view_of r)) = bitmap_size r"
proof -
  note s = wf_bitmap_size [OF wf]
  then show l: "length (view_bitmap (view_of r)) = bitmap_size r" by (simp add: view_of_def)
  then have ne: "view_bitmap (view_of r) \<noteq> []" using s by (metis list.size(3) less_numeral_extra(3))
  have d: "i div 8 < bitmap_size r" if "i < bitmap_size r * 8" for i using that by linarith
  show b: "View_bit (view_of r) i \<longleftrightarrow> Rep_bit r i" for i
    using ne l d by (auto simp: View_bit_def Rep_bit_def test_bit_at_def) (auto simp: view_of_def)
  show "View_byte (view_of r) i = Rep_byte r i"
    using ne l by (auto simp: View_byte_def Rep_byte_def) (auto simp: view_of_def)
  have hb: "highest_byte (take (bitmap_size r) (bitmap r)) j = highest_byte (bitmap r) j"
    if "j < bitmap_size r" for j
    using that by (induction j) (simp_all add: highest_byte.simps [of _ "Suc _"] highest_byte.simps [of _ 0])
  have "highest_bit_from (take (bitmap_size r) (bitmap r)) (bitmap_size r - 1) =
    highest_bit_from (bitmap r) (bitmap_size r - 1)"
  proof (cases "highest_byte (bitmap r) (bitmap_size r - 1)")
    case (Some i)
    then have "i < bitmap_size r" using highest_byte_Some [OF Some] s by linarith
    then show ?thesis using Some s hb [of "bitmap_size r - 1"] by (simp add: highest_bit_from_def)
  qed (use s hb [of "bitmap_size r - 1"] in \<open>simp add: highest_bit_from_def\<close>)
  moreover have "bitmap_size r - 1 < bitmap_capacity r" using s by linarith
  ultimately show "View_HighestBit (view_of r) = HighestBit r"
    using ne b [of 0] \<open>bitmap_size r - 1 < bitmap_capacity r\<close> unfolding View_HighestBit_def HighestBit_def l
    by (simp add: view_of_def)
qed

lemma ParseDirIndex_ToSlice:
  assumes wf: "wf_rep r"
  shows "ParseDirIndex (ToSlice r) p = Some (view_of r)"
proof -
  obtain m where "HighestBit r = Some m" "ToRadix m = unat (radix r)" using HighestBit_wf [OF wf] by blast
  moreover have "Rep_bit r 0" using wf_part_0 [OF wf] by (simp add: parts_def)
  moreover have l: "length (ToSlice r) = 4 + bitmap_size r"
    using wf_bitmap_size [OF wf] by (simp add: ToSlice_def)
  moreover have d: "DecodeFixed16 (ToSlice r) = zeroth_server r" "DecodeFixed16 (drop 2 (ToSlice r)) = radix r"
    "drop 4 (ToSlice r) = take (bitmap_size r) (bitmap r)"
    by (simp_all add: ToSlice_def DecodeFixed16_EncodeFixed16)
  moreover have "view_radix (view_of r) = radix r" by (simp add: view_of_def)
  ultimately show ?thesis
    using view_bits [OF wf]
    by (simp add: ParseDirIndex_def kHeadSize_def bitmap_size_def [symmetric] Let_def view_of_def [symmetric])
qed


lemma scale_factor_reaches: "0 < current \<Longrightarrow> \<exists>j. scale_factor current capacity f = f * 2 ^ j \<and> capacity \<le> current * 2 ^ j"
proof (induction current capacity f rule: scale_factor.induct)
  case (1 current capacity f)
  show ?case
  proof (cases "current < capacity")
    case True
    with 1 obtain j where "scale_factor (current * 2) capacity (f * 2) = f * 2 * 2 ^ j" "capacity \<le> current * 2 * 2 ^ j"
      by auto
    then show ?thesis using True "1.prems"
      by (intro exI [of _ "Suc j"]) (subst scale_factor.simps, simp add: mult.assoc)
  next
    case False
    then have "scale_factor current capacity f = f" by (subst scale_factor.simps) simp
    then show ?thesis using False by (intro exI [of _ 0]) simp
  qed
qed

section \<open>Properties\<close>

text \<open>
  C23. Splitting is safe. When \<^verbatim>\<open>NewIndexForSplitting\<close> gives the partition \<open>p\<close> a child \<open>c\<close>, \<^verbatim>\<open>Set\<close> adds
  exactly that partition without failing an assertion, keeps the index well formed and closed under
  parents, and the lookup of any name changes in one case only: the names \<^verbatim>\<open>ToBeMigrated\<close> claims for
  \<open>c\<close> were all in \<open>p\<close> and are in \<open>c\<close> afterwards. So migrating what \<^verbatim>\<open>ToBeMigrated\<close> selects from \<open>p\<close> to
  \<open>c\<close> loses no name.
\<close>

theorem split_moves_only_to_child:
  assumes "wf_index d" and "prefix_closed (partitions d)" and "NewIndexForSplitting d p = Some c"
  shows "\<exists>d'. Set d c = Some d' \<and> wf_index d' \<and> prefix_closed (partitions d') \<and>
    partitions d' = insert c (partitions d) \<and> c \<notin> partitions d \<and>
    (\<forall>h. if ToBeMigrated c h then HashToIndex d h = Some p \<and> HashToIndex d' h = Some c
         else HashToIndex d' h = HashToIndex d h)"
proof -
  obtain r where r: "rep d = Some r" "wf_rep r" "partitions d = parts r" using assms(1) by (rule wf_indexE) blast
  from NewIndexForSplitting_child [OF assms(1,3)] obtain k where
    p: "p \<in> partitions d" and c: "c < num_virtual_servers (options d)" and k: "first_child (partitions d) p k c" by blast
  have rad: "ToRadix c \<le> unat (radix r') + 1" if "rep d = Some r'" for r'
    using first_child_radix [of r p k c] r k p that by simp
  obtain d' where d': "Set d c = Some d'" "wf_index d'" "partitions d' = insert c (partitions d)"
    using Set_wf [OF assms(1) c rad] by blast
  have P: "finite (partitions d)" "0 \<in> partitions d" "partitions d \<subseteq> {..<65536}"
    using r wf_finite_parts wf_part_0 wf_part_less by auto
  note H = home_insert_child [OF P assms(2) p k]
  have C: "c = ToChildIndex p k" "p < 2 ^ k" "c \<notin> partitions d"
    using k unfolding first_child_def ToRadix_le_iff [symmetric] by auto
  have "prefix_closed (partitions d')"
    using assms(2) p C ToParentIndex_Child [of p k] d'(3) by (auto simp: prefix_closed_def)
  with d' C H show ?thesis
    using HashToIndex_home [OF assms(1)] HashToIndex_home [OF d'(2)] by auto
qed

text \<open>
  C24. \<^verbatim>\<open>HashToIndex\<close> returns a partition that exists and whose bits agree with the hash, and the
  largest such partition: the walk over parents from the index the radix selects misses none.
\<close>

theorem HashToIndex_largest:
  assumes "wf_index d"
  shows "\<exists>i. HashToIndex d h = Some i \<and> IsSet d i = Some True \<and> ToBeMigrated i h \<and>
    (\<forall>j. IsSet d j = Some True \<longrightarrow> ToBeMigrated j h \<longrightarrow> j \<le> i)"
proof -
  obtain r where r: "rep d = Some r" "wf_rep r" "partitions d = parts r" using assms by (rule wf_indexE) blast
  have i: "IsSet d i = Some True \<longleftrightarrow> i \<in> parts r" for i by (simp add: IsSet_def r parts_def)
  have "j \<le> home (parts r) h" if "j \<in> parts r" "ToBeMigrated j h" for j
    unfolding home_def using that wf_finite_parts [OF r(2)] by (intro Max_ge) auto
  then show ?thesis
    using HashToIndex_home [OF assms, of h] home_in [OF wf_finite_parts [OF r(2)] wf_part_0 [OF r(2)], of h]
    by (simp add: i r(3))
qed

lemma SetAll_new_index:
  assumes "k \<le> 13" and "num_virtual_servers opts = 2 ^ k"
  shows "\<exists>d d'. new_DirIndex z opts = Some d \<and> SetAll d = Some d' \<and>
    (\<forall>i. IsSet d' i = Some (i < 2 ^ k)) \<and>
    (\<forall>name. SelectServer d' name =
       Some ((ComputeIndexFromHash (DirIndex_Hash name) k + unat z) mod num_servers opts))"
proof -
  have k16: "k \<le> 16" and le: "2 ^ k \<le> (8192 :: nat)"
    using assms(1) power_increasing [OF assms(1), of "2 :: nat"] by simp_all
  obtain r where r: "new_Rep z = Some r" "wf_rep r" "parts r = {0}" "zeroth_server r = z" by (rule new_Rep_wf)
  have cap: "\<exists>j. bitmap_capacity r = 16 * 2 ^ j" "bitmap_capacity r \<le> 8192" using r(2) by (auto simp: wf_rep_def)
  obtain m where m: "ScaleToSize r (2 ^ k) = Some (r\<lparr>bitmap := bitmap r @ replicate m 0\<rparr>)"
    "\<exists>j. bitmap_capacity r + m = 16 * 2 ^ j" "bitmap_capacity r + m \<le> 8192"
    using ScaleToSize_wf [OF cap le] by blast
  note wz = wf_rep_zeros [OF r(2) m(2,3)]
  obtain r' where r': "turn_on_upto (r\<lparr>bitmap := bitmap r @ replicate m 0\<rparr>) 0 (2 ^ k) = Some r'" "wf_rep r'"
    "parts r' = insert 0 {..<2 ^ k}" "zeroth_server r' = z"
  proof -
    have p0: "parts (r\<lparr>bitmap := bitmap r @ replicate m 0\<rparr>) = insert 0 {..<0}" using wz r(3) by simp
    have z0: "zeroth_server (r\<lparr>bitmap := bitmap r @ replicate m 0\<rparr>) = z" using r(4) by simp
    have "2 ^ k \<le> (65536 :: nat)" using le by linarith
    from turn_on_upto_all [OF conjunct1 [OF wz] p0 le0 this] z0 that show thesis by auto
  qed
  define d' where "d' = \<lparr>options = opts, rep = Some r'\<rparr>"
  have "(0 :: nat) \<in> {..<2 ^ k}" by simp
  then have pp: "parts r' = {..<2 ^ k}" unfolding r'(3) by (rule insert_absorb)
  have wf: "wf_index d'" unfolding wf_index_def
    by (intro exI [of _ r'] exI [of _ k]) (use r'(2) assms(2) k16 pp in \<open>simp add: d'_def\<close>)
  have "SetAll \<lparr>options = opts, rep = Some r\<rparr> = Some d'"
    using m(1) r'(1) assms(2) by (simp add: SetAll_def Reserve_def d'_def)
  moreover have "IsSet d' i = Some (i < 2 ^ k)" for i
  proof -
    have "Rep_bit r' i \<longleftrightarrow> i \<in> parts r'" by (simp add: parts_def)
    then show ?thesis by (simp add: IsSet_def d'_def pp)
  qed
  moreover have "SelectServer d' name =
      Some ((ComputeIndexFromHash (DirIndex_Hash name) k + unat z) mod num_servers opts)" for name
  proof -
    let ?h = "DirIndex_Hash name" and ?x = "hash_bits (DirIndex_Hash name)"
    have "home {..<2 ^ k} ?h = ?x mod 2 ^ k"
      unfolding home_def
    proof (rule Max_eqI)
      have "ToRadix (?x mod 2 ^ k) \<le> k" by (simp add: ToRadix_le_iff)
      then have "?x mod 2 ^ ToRadix (?x mod 2 ^ k) = ?x mod 2 ^ k" by (rule mod_pow_between [OF refl])
      moreover have "?x mod 2 ^ k < 65536" using less_le_trans [OF mod_less_divisor le, of ?x] by simp
      ultimately show "?x mod 2 ^ k \<in> {i \<in> {..<2 ^ k}. ToBeMigrated i ?h}" by (simp add: ToBeMigrated_iff)
    next
      fix l assume "l \<in> {i \<in> {..<2 ^ k}. ToBeMigrated i ?h}"
      then have "l < 2 ^ k" "ToBeMigrated l ?h" by auto
      then have "?x mod 2 ^ ToRadix l = l" "ToRadix l \<le> k" using le by (auto simp: ToBeMigrated_iff ToRadix_le_iff)
      then have "l = (?x mod 2 ^ k) mod 2 ^ ToRadix l" by (simp add: mod_mod_cancel le_imp_power_dvd)
      then show "l \<le> ?x mod 2 ^ k" by (metis mod_less_eq_dividend)
    qed auto
    then show ?thesis
      using HashToIndex_home [OF wf] pp r' k16
      by (simp add: SelectServer_def GetIndex_def GetServerForIndex_def MapIndexToServer_def d'_def partitions_def
        ComputeIndexFromHash_eq)
  qed
  ultimately show ?thesis using r(1) by (auto simp: new_DirIndex_def)
qed

text \<open>\<^verbatim>\<open>SetAll\<close> reserves as many bytes as there are virtual servers, where an eighth would do.\<close>

lemma SetAll_asserts_beyond_8192:
  assumes "8192 < num_virtual_servers opts" and "new_DirIndex z opts = Some d"
  shows "SetAll d = None"
proof -
  obtain r where r: "new_Rep z = Some r" "wf_rep r" by (rule new_Rep_wf)
  then have d: "rep d = Some r" "options d = opts" using assms(2) by (auto simp: new_DirIndex_def)
  have c: "0 < bitmap_capacity r" "bitmap_capacity r \<le> 8192" using r(2) by (auto simp: wf_rep_def)
  obtain j where j: "scale_factor (bitmap_capacity r) (num_virtual_servers opts) 1 = 2 ^ j"
    "num_virtual_servers opts \<le> bitmap_capacity r * 2 ^ j"
    using scale_factor_reaches [OF c(1), of "num_virtual_servers opts" 1] by auto
  have "j \<noteq> 0" using j(2) assms(1) c(2) by (cases j) auto
  then have "1 < (2 :: nat) ^ j" by (intro one_less_power) auto
  then have "Reserve r (num_virtual_servers opts) = None"
    using j assms(1) by (simp add: Reserve_def ScaleToSize_def ScaleUp_def kMaxPartitions_def kMaxRadix_def)
  then show ?thesis using d by (simp add: SetAll_def)
qed

text \<open>
  C25. The full index. For a power of two of at most 8192 virtual servers, \<^verbatim>\<open>SetAll\<close> on a new index
  creates exactly the partitions below that number, and a name is then served by the server its hash
  bits and the zeroth server select. With more than 8192 virtual servers (the header allows 65536) the
  assertion on the capacity fails.
\<close>

theorem SetAll_SelectServer:
  "(k \<le> 13 \<and> num_virtual_servers opts = 2 ^ k \<longrightarrow>
     (\<exists>d d'. new_DirIndex z opts = Some d \<and> SetAll d = Some d' \<and>
        (\<forall>i. IsSet d' i = Some (i < 2 ^ k)) \<and>
        (\<forall>name. SelectServer d' name =
           Some ((ComputeIndexFromHash (DirIndex_Hash name) k + unat z) mod num_servers opts)))) \<and>
   (8192 < num_virtual_servers opts \<and> new_DirIndex z opts = Some d \<longrightarrow> SetAll d = None)"
  using SetAll_new_index SetAll_asserts_beyond_8192 by blast

definition many_servers :: DirIndexOptions where
  "many_servers = \<lparr>num_servers = 16, num_virtual_servers = 16384, paranoid_checks = True\<rparr>"

lemma SetAll_SelectServer_witness:
  "(\<exists>d d'. new_DirIndex 5 \<lparr>num_servers = 3, num_virtual_servers = 8, paranoid_checks = True\<rparr> = Some d \<and>
      SetAll d = Some d' \<and> (\<forall>i. IsSet d' i = Some (i < 8)) \<and>
      (\<forall>name. SelectServer d' name = Some ((ComputeIndexFromHash (DirIndex_Hash name) 3 + 5) mod 3))) \<and>
   (\<exists>d. new_DirIndex 0 many_servers = Some d \<and> SetAll d = None)"
proof
  show "\<exists>d d'. new_DirIndex 5 \<lparr>num_servers = 3, num_virtual_servers = 8, paranoid_checks = True\<rparr> = Some d \<and>
      SetAll d = Some d' \<and> (\<forall>i. IsSet d' i = Some (i < 8)) \<and>
      (\<forall>name. SelectServer d' name = Some ((ComputeIndexFromHash (DirIndex_Hash name) 3 + 5) mod 3))"
    using SetAll_SelectServer [of 3 "\<lparr>num_servers = 3, num_virtual_servers = 8, paranoid_checks = True\<rparr>" 5] by simp
  obtain d where "new_DirIndex 0 many_servers = Some d"
    using new_index_wf [of 14 many_servers 0] by (auto simp: many_servers_def)
  then show "\<exists>d. new_DirIndex 0 many_servers = Some d \<and> SetAll d = None"
    using SetAll_SelectServer [of 0 many_servers 0 d] by (simp add: many_servers_def)
qed

text \<open>An index of eight partitions with two of them, to run the properties on.\<close>

definition two_parts :: DirIndex where
  "two_parts = \<lparr>options = \<lparr>num_servers = 2, num_virtual_servers = 8, paranoid_checks = True\<rparr>,
     rep = Some \<lparr>zeroth_server = 1, radix = 1, bitmap = 3 # replicate 15 0\<rparr>\<rparr>"

lemma wf_two_parts: "wf_index two_parts" "partitions two_parts = {0, 1}"
proof -
  let ?b = "(3 :: byte) # replicate 15 0"
  have b3: "bit (3 :: byte) j \<longleftrightarrow> j = 0 \<or> j = 1" for j
  proof -
    have "bit (mask 2 :: byte) j \<longleftrightarrow> j < 2" by (auto simp: bit_mask_iff)
    moreover have "(mask 2 :: byte) = 3" by (simp add: mask_eq_exp_minus_1)
    ultimately show ?thesis by auto
  qed
  have "raw_bit [3] i \<longleftrightarrow> i = 0 \<or> i = 1" for i
  proof (cases "i < 8")
    case True
    then have "i div 8 = 0" "i mod 8 = i" by simp_all
    then show ?thesis using True b3 [of i] by (simp only: raw_bit_def) simp
  next
    case False
    then have "\<not> raw_bit [3] i" "i \<noteq> 0" "i \<noteq> 1" by (auto simp: raw_bit_def)
    then show ?thesis by simp
  qed
  moreover have "raw_bit ?b i \<longleftrightarrow> raw_bit [3] i" for i using raw_bit_append_zeros [of "[3]" 15 i] by simp
  ultimately have b: "raw_bit ?b i \<longleftrightarrow> i = 0 \<or> i = 1" for i by simp
  let ?r = "\<lparr>zeroth_server = 1, radix = 1, bitmap = ?b\<rparr>"
  have "ToRadix 1 = 1" by (simp add: ToRadix_def ToLog2.simps [of "Suc 0"])
  then have w: "wf_rep ?r" unfolding wf_rep_def by (auto simp: b intro: exI [of _ "0 :: nat"])
  then have p: "parts ?r = {0, 1}" by (auto simp: wf_parts b)
  show "partitions two_parts = {0, 1}" using p by (simp add: two_parts_def partitions_def)
  show "wf_index two_parts"
    unfolding wf_index_def by (rule exI [of _ ?r], rule exI [of _ 3]) (use w p in \<open>simp add: two_parts_def\<close>)
qed

lemma prefix_closed_two_parts: "prefix_closed (partitions two_parts)"
  by (simp add: wf_two_parts prefix_closed_def ToParentIndex_def ToLog2.simps [of "Suc 0"])

lemma NewIndexForSplitting_two_parts: "NewIndexForSplitting two_parts 0 = Some 2"
  by code_simp

lemma split_moves_only_to_child_witness:
  "\<exists>d'. Set two_parts 2 = Some d' \<and> wf_index d' \<and> prefix_closed (partitions d') \<and>
    partitions d' = insert 2 (partitions two_parts) \<and> 2 \<notin> partitions two_parts \<and>
    (\<forall>h. if ToBeMigrated 2 h then HashToIndex two_parts h = Some 0 \<and> HashToIndex d' h = Some 2
         else HashToIndex d' h = HashToIndex two_parts h)"
  by (rule split_moves_only_to_child [OF wf_two_parts(1) prefix_closed_two_parts NewIndexForSplitting_two_parts])

lemma HashToIndex_largest_witness:
  "\<exists>i. HashToIndex two_parts [1, 0, 0, 0, 0, 0, 0, 0] = Some i \<and> IsSet two_parts i = Some True \<and>
    ToBeMigrated i [1, 0, 0, 0, 0, 0, 0, 0]"
  using HashToIndex_largest [OF wf_two_parts(1), of "[1, 0, 0, 0, 0, 0, 0, 0]"] by blast

text \<open>
  C26. Merging two indices of a directory is the union of their partitions: no partition either side
  knows is lost, none is invented, and the assertions of the merge hold.
\<close>

theorem Update_union:
  assumes "wf_index d" and "wf_index other"
    and "options d = options other" and "ZerothServerOf d = ZerothServerOf other"
  shows "\<exists>d'. Update d other = Some d' \<and> wf_index d' \<and> partitions d' = partitions d \<union> partitions other \<and>
    ZerothServerOf d' = ZerothServerOf d \<and> options d' = options d"
proof -
  obtain r k where r: "rep d = Some r" "wf_rep r" "k \<le> 16" "num_virtual_servers (options d) = 2 ^ k"
    "partitions d = parts r" "\<And>i. i \<in> parts r \<Longrightarrow> i < 2 ^ k" using assms(1) by (rule wf_indexE) blast
  obtain s where s: "rep other = Some s" "wf_rep s" "partitions other = parts s" using assms(2) by (rule wf_indexE) blast
  have s2: "i < 2 ^ k" if "i \<in> parts s" for i
    using assms(2,3) s(1) r(4) that by (auto simp: wf_index_def)
  have z: "zeroth_server r = zeroth_server s" using assms(4) r(1) s(1) by (simp add: ZerothServerOf_def word_unat_eq_iff)
  obtain r' where r': "Merge_Rep r s = Some r'" "wf_rep r'" "parts r' = parts r \<union> parts s"
    "zeroth_server r' = zeroth_server s"
    using DoMerge_wf [OF r(2) wf_other_Rep [OF s(2)] z] unfolding Merge_Rep_def by blast
  have "wf_index (d\<lparr>rep := Some r'\<rparr>)"
    unfolding wf_index_def
    by (intro exI [of _ r'] exI [of _ k]) (use r r' s2 in auto)
  moreover have "Update d other = Some (d\<lparr>rep := Some r'\<rparr>)"
    using r(1) s(1) r'(1) by (simp add: Update_def)
  ultimately show ?thesis using r(1,5) s(3) r' z by (simp add: partitions_def ZerothServerOf_def)
qed

lemma Update_union_witness:
  "\<exists>d'. Update two_parts two_parts = Some d' \<and> wf_index d' \<and>
    partitions d' = partitions two_parts \<union> partitions two_parts \<and>
    ZerothServerOf d' = ZerothServerOf two_parts \<and> options d' = options two_parts"
  by (rule Update_union [OF wf_two_parts(1) wf_two_parts(1) refl refl])

text \<open>
  C27. An encoded index is accepted by \<^verbatim>\<open>Update\<close> on an empty index, with or without paranoid checks,
  and gives an index with the same partitions, radix and zeroth server, so it selects the same server
  for every name.
\<close>

theorem Update_Slice_Encode:
  assumes "wf_index d"
  shows "\<exists>img d'. Encode d = Some img \<and> Update_Slice (empty_DirIndex (options d)) img = Some (True, d') \<and>
    wf_index d' \<and> partitions d' = partitions d \<and> ZerothServerOf d' = ZerothServerOf d \<and> Radix d' = Radix d \<and>
    (\<forall>name. SelectServer d' name = SelectServer d name)"
proof -
  obtain r k where r: "rep d = Some r" "wf_rep r" "k \<le> 16" "num_virtual_servers (options d) = 2 ^ k"
    "partitions d = parts r" "\<And>i. i \<in> parts r \<Longrightarrow> i < 2 ^ k" using assms(1) by (rule wf_indexE) blast
  obtain r0 where r0: "new_Rep (zeroth_server r) = Some r0" "wf_rep r0" "parts r0 = {0}"
    "zeroth_server r0 = zeroth_server r" "radix r0 = 0" by (rule new_Rep_wf)
  have "(\<lambda>i. View_byte (view_of r) i) = Rep_byte r" using view_bits(2) [OF r(2)] by blast
  then have v: "wf_other (length (view_bitmap (view_of r))) (view_radix (view_of r)) (View_byte (view_of r)) (parts r)"
    using wf_other_Rep [OF r(2)] view_bits(4) [OF r(2)] by (simp add: view_of_def)
  obtain r' where r': "Merge_View r0 (view_of r) = Some r'" "wf_rep r'" "parts r' = parts r0 \<union> parts r"
    "zeroth_server r' = view_zeroth_server (view_of r)" "radix r' = max (radix r0) (view_radix (view_of r))"
    using DoMerge_wf [OF r0(2) v, of "view_zeroth_server (view_of r)"] r0(4) unfolding Merge_View_def
    by (metis View.select_convs(1) view_of_def)
  define d' where "d' = \<lparr>options = options d, rep = Some r'\<rparr>"
  have pp: "parts r' = parts r" using r'(3) r0(3) wf_part_0 [OF r(2)] by auto
  have f: "zeroth_server r' = zeroth_server r" "radix r' = radix r" using r'(4,5) r0(5) by (simp_all add: view_of_def)
  have wf': "wf_index d'"
    unfolding wf_index_def by (intro exI [of _ r'] exI [of _ k]) (use r r'(2) pp in \<open>auto simp: d'_def\<close>)
  have p': "partitions d' = partitions d" using pp r(5) by (simp add: d'_def partitions_def)
  have "Encode d = Some (ToSlice r)" using r(1) wf_bitmap_size [OF r(2)] by (simp add: Encode_def)
  moreover have "Update_Slice (empty_DirIndex (options d)) (ToSlice r) = Some (True, d')"
    using ParseDirIndex_ToSlice [OF r(2)] r0(1) r'(1)
    by (simp add: Update_Slice_def TEST_Reset_def empty_DirIndex_def d'_def view_of_def)
  moreover have "SelectServer d' name = SelectServer d name" for name
    using HashToIndex_home [OF assms] HashToIndex_home [OF wf'] p' r(1) f
    by (simp add: SelectServer_def GetIndex_def GetServerForIndex_def d'_def)
  ultimately show ?thesis using wf' p' r(1) f by (auto simp: d'_def ZerothServerOf_def Radix_def)
qed

lemma Update_Slice_Encode_witness:
  "\<exists>img d'. Encode two_parts = Some img \<and>
    Update_Slice (empty_DirIndex (options two_parts)) img = Some (True, d') \<and> wf_index d' \<and>
    partitions d' = partitions two_parts \<and> ZerothServerOf d' = ZerothServerOf two_parts \<and>
    Radix d' = Radix two_parts \<and> (\<forall>name. SelectServer d' name = SelectServer two_parts name)"
  by (rule Update_Slice_Encode [OF wf_two_parts(1)])

text \<open>
  \<^verbatim>\<open>IsSplittable\<close> guards \<^verbatim>\<open>NewIndexForSplitting\<close> exactly: a splittable partition gets a new index
  without a failed assertion, and only a splittable one does; the new index did not exist, is within
  the virtual servers, and has the split partition as its parent.
\<close>

theorem NewIndexForSplitting_splittable:
  assumes "wf_index d"
  shows "(IsSplittable d p = Some True \<longleftrightarrow> (\<exists>c. NewIndexForSplitting d p = Some c)) \<and>
    (\<forall>c. NewIndexForSplitting d p = Some c \<longrightarrow>
      IsSet d c = Some False \<and> c < num_virtual_servers (options d) \<and> ToParentIndex c = p)"
proof (intro conjI allI impI)
  show "IsSplittable d p = Some True \<longleftrightarrow> (\<exists>c. NewIndexForSplitting d p = Some c)"
    using NewIndexForSplitting_iff [OF assms] by blast
  fix c assume c: "NewIndexForSplitting d p = Some c"
  obtain r where r: "rep d = Some r" "partitions d = parts r" using assms by (rule wf_indexE) blast
  from NewIndexForSplitting_child [OF assms c] obtain k where
    "c < num_virtual_servers (options d)" "first_child (partitions d) p k c" by blast
  then show "IsSet d c = Some False" "c < num_virtual_servers (options d)" "ToParentIndex c = p"
    using ToParentIndex_Child [of p k] r
    by (auto simp: first_child_def parts_def IsSet_def simp flip: ToRadix_le_iff)
qed

lemma NewIndexForSplitting_splittable_witness:
  "IsSplittable two_parts 0 = Some True \<and> IsSet two_parts 2 = Some False \<and>
    2 < num_virtual_servers (options two_parts) \<and> ToParentIndex 2 = 0"
  using NewIndexForSplitting_splittable [OF wf_two_parts(1), of 0] NewIndexForSplitting_two_parts by blast

lemma Reverse_bits_all:
  "list_all (\<lambda>n. list_all (\<lambda>i. bit (Reverse (word_of_nat n)) i = bit (word_of_nat n :: byte) (7 - i)) [0..<8]) [0..<256]"
  by code_simp

text \<open>
  The multiplication trick of \<^verbatim>\<open>Reverse\<close> does reverse the eight bits of a byte: the hash bytes are
  consumed from their most significant bit.
\<close>

theorem Reverse_bits: "i < 8 \<Longrightarrow> bit (Reverse b) i \<longleftrightarrow> bit b (7 - i)"
proof -
  assume i: "i < 8"
  have "unat b \<in> {0..<256}" using byte_bound [of b] by simp
  with i Reverse_bits_all have "bit (Reverse (word_of_nat (unat b))) i = bit (word_of_nat (unat b) :: byte) (7 - i)"
    unfolding list_all_iff set_upt by (meson atLeastLessThan_iff zero_le)
  then show ?thesis by simp
qed

lemma Reverse_bits_witness: "bit (Reverse 1) 7 \<longleftrightarrow> bit (1 :: byte) (7 - 7)"
  by (rule Reverse_bits) simp

end
