(* ===== verification/Fs_Progress.thy ===== *)
theory Fs_Progress
  imports Fs_Safety Giga_Index
begin

text \<open>
  No handler fails an assertion or waits for ever: the checks in closed form, the progress of every thread that does not
  wait for a way, the absence of deadlocks, and a bound on the number of steps.
\<close>

section \<open>Checks\<close>

text \<open>The server that \<^verbatim>\<open>SetAll\<close> gives to a name of a directory.\<close>

definition name_server :: "FilesystemOptions \<Rightarrow> DirId \<Rightarrow> slice \<Rightarrow> nat" where
  "name_server opts at name =
     (ComputeIndexFromHash (DirIndex_Hash name) (ToLog2 (vsrvs opts)) + unat (ucast (PickupServer at) :: u16)) mod nsrvs opts"

definition opts_ok :: "FilesystemOptions \<Rightarrow> bool" where
  "opts_ok opts \<longleftrightarrow> (\<exists>k \<le> 13. vsrvs opts = 2 ^ k)"

definition giga_inv :: "FilesystemOptions \<Rightarrow> (nat \<Rightarrow> DirBlock option) \<Rightarrow> bool" where
  "giga_inv opts B \<longleftrightarrow> (\<forall>a b. B a = Some b \<longrightarrow> b_fetched b \<longrightarrow>
     (\<exists>g. b_giga b = Some g \<and> (\<forall>name. SelectServer g name = Some (name_server opts (b_id b) name))))"

lemma ToLog2_pow: "ToLog2 (2 ^ k) = k"
proof (induction k)
  case (Suc k)
  then show ?case by (subst ToLog2.simps) simp
qed (subst ToLog2.simps, simp)

lemma MaybeFetchDir_ok:
  assumes opts: "opts_ok opts" and g: "giga_inv opts B" "B a = Some b"
  shows "\<exists>b'. MaybeFetchDir opts b = Some b' \<and> b_fetched b' \<and>
    (\<exists>g. b_giga b' = Some g \<and> (\<forall>name. SelectServer g name = Some (name_server opts (b_id b') name)))"
proof (cases "b_fetched b")
  case True
  then show ?thesis using g by (auto simp: MaybeFetchDir_def giga_inv_def)
next
  case False
  obtain k where k: "k \<le> 13" "vsrvs opts = 2 ^ k" using opts by (auto simp: opts_ok_def)
  let ?z = "ucast (PickupServer (b_id b)) :: u16"
  let ?o = "\<lparr>num_servers = nsrvs opts, num_virtual_servers = vsrvs opts, paranoid_checks = False\<rparr>"
  obtain d d' where d: "new_DirIndex ?z ?o = Some d" "SetAll d = Some d'"
    "\<forall>name. SelectServer d' name = Some ((ComputeIndexFromHash (DirIndex_Hash name) k + unat ?z) mod num_servers ?o)"
    using SetAll_new_index [of k ?o ?z] k by auto
  then show ?thesis using False k ToLog2_pow [of k] by (simp add: MaybeFetchDir_def Let_def name_server_def)
qed

definition check_status :: "FilesystemOptions \<Rightarrow> bool \<Rightarrow> string \<Rightarrow> slice option \<Rightarrow> LookupStat \<Rightarrow> u64 \<Rightarrow> status" where
  "check_status opts access msg name p now =
     (if \<not> IsLeaseOk opts p now then AssertionFailed ''Lease has expired''
      else if \<not> access then AccessDenied msg
      else case name of
             None \<Rightarrow> Okay
           | Some nm \<Rightarrow>
               if skip_partition_checks opts \<or> srvid opts = name_server opts (DirId_LookupStat p) nm then Okay
               else AccessDenied ''Wrong dir partition'')"

lemma giga_inv_upd:
  assumes "giga_inv opts B" and "b_fetched b \<Longrightarrow> \<exists>g. b_giga b = Some g \<and> (\<forall>name. SelectServer g name = Some (name_server opts (b_id b) name))"
  shows "giga_inv opts (B(a \<mapsto> b))"
  using assms by (auto simp: giga_inv_def)

lemma check_dir_ok:
  assumes opts: "opts_ok (fs_options s)" and g: "giga_inv (fs_options s) (blks s)" and b: "blks s a = Some b" "b_id b = DirId_LookupStat p"
  shows "\<exists>s'. check_dir access msg name p now a s = Some (check_status (fs_options s) access msg name p now, s') \<and>
    frames s s' \<and> same_rest s s' \<and> giga_inv (fs_options s') (blks s')"
proof -
  obtain b' where b': "MaybeFetchDir (fs_options s) b = Some b'" "b_fetched b'"
    "\<exists>g. b_giga b' = Some g \<and> (\<forall>name. SelectServer g name = Some (name_server (fs_options s) (b_id b') name))"
    using MaybeFetchDir_ok [OF opts g b(1)] by blast
  have id: "b_id b' = DirId_LookupStat p" using MaybeFetchDir_same [OF b'(1)] b(2) by simp
  let ?s = "s\<lparr>blks := (blks s)(a \<mapsto> b')\<rparr>"
  have G: "giga_inv (fs_options s) (blks ?s)" using giga_inv_upd [OF g, of b' a] b'(3) by simp
  obtain s' where s': "check_dir access msg name p now a s = Some (check_status (fs_options s) access msg name p now, s')" "s' = s \<or> s' = ?s"
  proof -
    consider (early) "\<not> IsLeaseOk (fs_options s) p now \<or> \<not> access" | (go) "IsLeaseOk (fs_options s) p now" "access" by blast
    then show thesis
    proof cases
      case early
      then show ?thesis using that [of s] by (auto simp: check_dir_def check_status_def)
    next
      case go
      then show ?thesis using that [of ?s] b(1) b' id
        by (cases name) (auto simp: check_dir_def check_status_def Let_def IsDirPartitionOk_def)
    qed
  qed
  have "frames s s'" by (rule check_dir_frames [OF s'(1)])
  moreover have "same_rest s s'" by (rule check_dir_rest [OF s'(1)])
  ultimately show ?thesis using s' G g by auto
qed

section \<open>The indices of the blocks\<close>

lemma giga_inv_sub:
  assumes "giga_inv opts B" and "\<And>a b. B' a = Some b \<Longrightarrow> B a = Some b \<or> \<not> b_fetched b"
  shows "giga_inv opts B'"
  using assms unfolding giga_inv_def by blast

lemma update_block_giga:
  assumes u: "update_block f a s = Some s'" and g: "giga_inv opts (blks s)"
    and f: "\<And>b. b_id (f b) = b_id b \<and> b_giga (f b) = b_giga b \<and> b_fetched (f b) = b_fetched b"
  shows "giga_inv opts (blks s')"
proof -
  obtain z where z: "blks s a = Some z" "s' = s\<lparr>blks := (blks s)(a \<mapsto> f z)\<rparr>" using u by (auto simp: update_block_def)
  have "giga_inv opts ((blks s)(a \<mapsto> f z))"
    by (rule giga_inv_upd [OF g]) (use f [of z] g z(1) in \<open>auto simp: giga_inv_def\<close>)
  then show ?thesis using z(2) by simp
qed

lemma check_request_ok:
  assumes opts: "opts_ok (fs_options s)" and g: "giga_inv (fs_options s) (blks s)"
    and b: "blks s (t_dir k) = Some b" "b_id b = t_at k"
  shows "\<exists>st s'. check_request now k s = Some (st, s') \<and> giga_inv (fs_options s') (blks s')"
  using check_dir_ok [OF opts g b] unfolding check_request_def Let_def by (cases "t_req k"; fastforce)

lemma giga_step:
  assumes c: "conc_inv (s, ts)" and i: "i < length ts" and opts: "opts_ok (fs_options s)" and g: "giga_inv (fs_options s) (blks s)"
    and st: "thread_step X now (ts ! i) s = Some (t', s')"
  shows "giga_inv (fs_options s') (blks s') \<and> fs_options s' = fs_options s \<and> readonly_dbs s' = readonly_dbs s"
proof (cases "ts ! i")
  case (Start d)
  obtain a s1 where a: "AcquireDir (DirId_LookupStat (c_parent d)) s = Some (a, s1)" "acquired (DirId_LookupStat (c_parent d)) s a s1"
    using AcquireDir_ok [OF conc_invD(1) [OF c]] by blast
  obtain stat m k s2 where p: "prepare (c_req d) (c_who d) s1 = (stat, m, k, s2)" by (cases "prepare (c_req d) (c_who d) s1") auto
  have t: "s' = s2" using st Start a(1) p by simp
  have B: "blks s2 = blks s1" using p by (cases "(c_req d, c_who d, s1)" rule: prepare.cases) (auto simp: Let_def)
  have "giga_inv (fs_options s) (blks s1)"
    by (rule giga_inv_sub [OF g]) (use a(2) in \<open>unfold acquired_def, blast\<close>)
  then show ?thesis using a(2) prepare_fields [OF p] t B by (simp add: acquired_def same_rest_def)
next
  case (Check k)
  obtain b where b: "blks s (t_dir k) = Some b" "b_id b = t_at k" using conc_invD(5) [OF c i] Check by auto
  obtain r s1 where "check_request now k s = Some (r, s1)" "giga_inv (fs_options s1) (blks s1)"
    using check_request_ok [OF opts g b] by blast
  then show ?thesis using st Check step_rest [OF st] by (auto simp: bind_eq_Some_conv)
next
  case (Lock k m)
  then have "update_block (\<lambda>b. b\<lparr>b_busy := (b_busy b)[ways (t_req k) ! m := True]\<rparr>) (t_dir k) s = Some s'"
    using st by (auto simp: bind_eq_Some_conv lock_way_def split: option.splits if_splits)
  then have "giga_inv (fs_options s) (blks s')" by (rule update_block_giga [OF _ g]) simp
  then show ?thesis using step_rest [OF st] Lock by simp
next
  case (Unlock k r x)
  then obtain s1 where s1: "(case t_req k of Bukin_req _ \<Rightarrow> Some s | _ \<Rightarrow> merge_stats (t_stats k) (t_dir k) s) = Some s1"
    "unlock_ways (t_dir k) (ways (t_req k)) s1 = Some s'"
    using st by (auto simp: finish_block_def bind_eq_Some_conv)
  have "giga_inv (fs_options s) (blks s1)"
    using s1(1) g by (auto simp: merge_stats_def split: request.splits elim!: update_block_giga)
  then have "giga_inv (fs_options s) (blks s')" using s1(2) by (auto simp: unlock_ways_def elim!: update_block_giga)
  then show ?thesis using step_rest [OF st] Unlock by simp
next
  case (Finish k r x m)
  let ?s = "if \<not> ok r then TryReuseIno (t_last k) (word_of_nat m) s else s"
  have "frames s ?s" by (simp add: TryReuseIno_frames)
  then have f: "fs_inv (refs ts) ?s" using conc_invD(1) [OF c] by (simp add: frames_def)
  have e: "fs_options ?s = fs_options s" "readonly_dbs ?s = readonly_dbs s" "blks ?s = blks s" by (simp_all add: TryReuseIno_def)
  have pos: "0 < refs ts (t_dir k)" using refs_pos [OF i] Finish by simp
  obtain s1 where s1: "Release (t_dir k) ?s = Some s1" "same_rest ?s s1" "\<forall>a b. blks s1 a = Some b \<longrightarrow> blks ?s a = Some b"
    using Release_ok [where R = "refs ts", OF f, where a = "t_dir k"] pos by blast
  have "s' = s1" using st Finish s1(1) by simp
  moreover have "giga_inv (fs_options s) (blks s1)" by (rule giga_inv_sub [OF g]) (use s1(3) e(3) in auto)
  ultimately show ?thesis using s1(2) e(1,2) by (simp add: same_rest_def)
next
  case (Names k w)
  then show ?thesis using step_rest [OF st] g step_Names [OF _ st [unfolded Names]] conc_invD(4) [OF c i] by auto
next
  case (Read k)
  then show ?thesis using step_rest [OF st] g step_Read [OF _ st [unfolded Read]] conc_invD(4) [OF c i] by auto
next
  case (Put k name w)
  have "blks s' = blks s" using st Put by (auto simp: bind_eq_Some_conv Let_def put_name_def split: option.splits)
  then show ?thesis using step_rest [OF st] Put g by simp
next
  case (Bulk k)
  have "blks s' = blks s" using st Bulk
    by (auto simp: bind_eq_Some_conv bulk_insert_def map_option_case case_prod_unfold split: request.splits option.splits)
  then show ?thesis using step_rest [OF st] Bulk g by simp
next
  case (Done r x)
  then show ?thesis using st by simp
qed

section \<open>Progress\<close>

text \<open>A read-only store answers, and has a value when it says so.\<close>

definition ro_ok :: "ro_get \<Rightarrow> bool" where
  "ro_ok g \<longleftrightarrow> (\<forall>at nm p. \<exists>st v p'. g at nm p = Some (st, v, p') \<and> (ok st \<longrightarrow> v \<noteq> None))"

lemma readonly_Get_ok:
  "list_all ro_ok gs \<Longrightarrow> (ok st \<longrightarrow> v \<noteq> None) \<Longrightarrow> \<exists>st' v' p'. readonly_Get gs at nm (st, v, p) = Some (st', v', p') \<and> (ok st' \<longrightarrow> v' \<noteq> None)"
proof (induction gs arbitrary: st v p)
  case (Cons g gs)
  obtain st1 v1 p1 where g: "g at nm p = Some (st1, v1, p1)" "ok st1 \<longrightarrow> v1 \<noteq> None" using Cons.prems(1) by (fastforce simp: ro_ok_def)
  then show ?case using Cons.IH [of st1 v1 p1] Cons.prems(1) by auto
qed simp

context fs_store
begin

lemma DbGet_answers:
  assumes "fs_db s = Some db" "frep n db f" "dir_ok at" "name_ok nm" "list_all ro_ok (readonly_dbs s)"
  shows "\<exists>st v p'. DbGet X s at nm p = Some (st, v, p') \<and> (ok st \<longrightarrow> v \<noteq> None)"
proof (cases "f at nm")
  case None
  then obtain p1 where "fsdb_Get X at nm p db = Some (NotFound [], None, p1)" using fs_Get [OF assms(2-4), of p] by auto
  then show ?thesis using readonly_Get_ok [OF assms(5), of "NotFound []" None at nm p1] assms(1) by (simp add: DbGet_def)
next
  case (Some x)
  then obtain p1 where "fsdb_Get X at nm p db = Some (Okay, Some x, p1)" using fs_Get [OF assms(2-4), of p] by auto
  then show ?thesis using assms(1) by (simp add: DbGet_def)
qed

lemma thread_progress:
  assumes c: "conc_inv (s, ts)" and inv: "store_inv frep (Suc n) (s, ts) f" and opts: "opts_ok (fs_options s)"
    and g: "giga_inv (fs_options s) (blks s)" and ro: "list_all ro_ok (readonly_dbs s)" and i: "i < length ts"
    and live: "\<And>st r. ts ! i \<noteq> Done st r"
    and free: "\<And>k m b. ts ! i = Lock k m \<Longrightarrow> blks s (t_dir k) = Some b \<Longrightarrow> \<not> b_busy b ! (ways (t_req k) ! m)"
  shows "\<exists>t' s'. thread_step X now (ts ! i) s = Some (t', s')"
proof -
  obtain db where db: "fs_db s = Some db" "frep (Suc n) db f" using store_invD(1) [OF inv] by blast
  have blk: "\<exists>b. blks s (t_dir k) = Some b \<and> b_id b = t_at k" if "task_of (ts ! i) = Some k" for k
    using conc_invD(5) [OF c i that] .
  have fit: "thread_fits (ts ! i)" by (rule store_invD(3) [OF inv i])
  have sh: "shape_ok (ts ! i)" by (rule conc_invD(4) [OF c i])
  show ?thesis
  proof (cases "ts ! i")
    case (Start d)
    then show ?thesis using start_runs [OF c, of X now d] by auto
  next
    case (Check k)
    then obtain b where b: "blks s (t_dir k) = Some b" "b_id b = t_at k" using blk by auto
    obtain r s1 where "check_request now k s = Some (r, s1)" using check_request_ok [OF opts g b] by blast
    then show ?thesis using Check by (cases "ok r") (auto split: prod.splits)
  next
    case (Lock k m)
    then obtain b where "blks s (t_dir k) = Some b" using blk by auto
    then show ?thesis using free [OF Lock] Lock by (auto simp: lock_way_def update_block_def)
  next
    case (Names k w)
    show ?thesis
    proof (cases "if t_done k < t_num k then next_name w else None")
      case None
      then show ?thesis using Names by simp
    next
      case (Some p)
      then obtain name w' where p: "t_done k < t_num k" "next_name w = Some (name, w')" by (cases p) (auto split: if_splits)
      have "dir_ok (t_at k)" "name_ok name" using fit Names next_name_fits [OF _ p(2)] by (auto simp: call_ok_def)
      then obtain st v p' where "DbGet X s (t_at k) name (t_stats k) = Some (st, v, p')" using DbGet_answers [OF db _ _ ro] by blast
      then have "\<exists>r. check_name X s (t_at k) name (t_stats k) = Some r" by (simp add: check_name_def)
      then show ?thesis using Names p by (auto simp: Let_def)
    qed
  next
    case (Put k name w)
    have "dir_ok (t_at k)" "name_ok name" using fit Put by (simp_all add: call_ok_def)
    then obtain r p db' where "fsdb_Put X (t_at k) name ((t_stat k)\<lparr>InodeNo := t_first k + word_of_nat (t_done k)\<rparr>) (t_stats k) db = Some (r, p, db')"
      using fs_Put [OF db(2)] by blast
    then show ?thesis using Put db(1) by (simp add: put_name_def Let_def)
  next
    case (Bulk k)
    then show ?thesis using fit sh by (auto simp: call_ok_def)
  next
    case (Read k)
    then obtain name where r: "t_req k = Lokup_req name \<or> t_req k = Lstat_req name" using sh by auto
    have "dir_ok (t_at k)" "name_ok name" using fit Read r by (auto simp: call_ok_def)
    then obtain st v p' where G: "DbGet X s (t_at k) name (t_stats k) = Some (st, v, p')" "ok st \<longrightarrow> v \<noteq> None"
      using DbGet_answers [OF db _ _ ro] by blast
    have "\<exists>x. lookup_result st v = Some x" using G(2) by (cases v) (auto simp: lookup_result_def)
    then show ?thesis using Read r G(1) by (auto simp: read_request_def)
  next
    case (Unlock k st r)
    then obtain b where "blks s (t_dir k) = Some b" using blk by auto
    then show ?thesis using Unlock by (cases "t_req k") (auto simp: finish_block_def merge_stats_def unlock_ways_def update_block_def)
  next
    case (Finish k st r m)
    let ?s = "if \<not> ok st then TryReuseIno (t_last k) (word_of_nat m) s else s"
    have F: "fs_inv (refs ts) ?s" using TryReuseIno_frames conc_invD(1) [OF c] by (auto simp: frames_def)
    have "0 < refs ts (t_dir k)" using refs_pos [OF i] Finish by simp
    then show ?thesis using Release_ok [where R = "refs ts", OF F, where a = "t_dir k"] Finish by auto
  next
    case (Done st r)
    then show ?thesis using live by blast
  qed
qed

end

section \<open>Deadlocks and termination\<close>

definition is_done :: "thread \<Rightarrow> bool" where
  "is_done t \<longleftrightarrow> (\<exists>st r. t = Done st r)"

text \<open>A thread that waits for a way.\<close>

definition waits :: "'db Filesystem \<Rightarrow> thread \<Rightarrow> bool" where
  "waits s t \<longleftrightarrow> (\<exists>k m b. t = Lock k m \<and> blks s (t_dir k) = Some b \<and> b_busy b ! (ways (t_req k) ! m))"

text \<open>
  Only a handler that locks all ways holds some while it waits, and it waits for a way above those it holds; so
  of the waiting handlers the one with the most ways waits for a handler that does not wait.
\<close>

lemma all_ways_nth: "m < length all_ways \<Longrightarrow> all_ways ! m = m"
  by (simp add: all_ways_def)

lemma waits_for:
  assumes c: "conc_inv (s, ts)" and i: "i < length ts" "ts ! i = Lock k m" "waits s (ts ! i)"
  shows "\<exists>j < length ts. j \<noteq> i \<and> (t_dir k, ways (t_req k) ! m) \<in> own (ts ! j)"
proof -
  obtain b where b: "blks s (t_dir k) = Some b" "b_busy b ! (ways (t_req k) ! m)" using i(2,3) by (auto simp: waits_def)
  have m: "m < length (ways (t_req k))" using conc_invD(4) [OF c i(1)] i(2) by simp
  have w: "ways (t_req k) ! m < kWays" using way_less m nth_mem by blast
  obtain j where j: "j < length ts" "(t_dir k, ways (t_req k) ! m) \<in> own (ts ! j)"
    using ways_invD(2) [OF conc_invD(2) [OF c] b(1) w] b(2) by blast
  have "distinct (ways (t_req k))" by (cases "t_req k") (auto simp: all_ways_def)
  then have "ways (t_req k) ! m \<notin> set (take m (ways (t_req k)))"
    using m by (auto simp: in_set_conv_nth nth_eq_iff_index_eq)
  then have "j \<noteq> i" using j(2) i(2) by (auto simp: own_def)
  then show ?thesis using j by blast
qed

lemma ways_cases: "ways req = all_ways \<or> length (ways req) \<le> 1"
  by (cases req) auto

lemma someone_moves:
  assumes c: "conc_inv (s, ts)" and i: "i < length ts" "\<not> is_done (ts ! i)"
  shows "\<exists>j < length ts. \<not> is_done (ts ! j) \<and> \<not> waits s (ts ! j)"
proof (rule ccontr)
  assume "\<not> ?thesis"
  then have all: "waits s (ts ! j)" if "j < length ts" "\<not> is_done (ts ! j)" for j using that by blast
  define M where "M = {m. \<exists>j < length ts. \<exists>k. ts ! j = Lock k m \<and> ways (t_req k) = all_ways}"
  have fin: "finite M"
  proof (rule finite_subset)
    show "M \<subseteq> {..<length all_ways}" using conc_invD(4) [OF c] by (fastforce simp: M_def)
  qed simp
  have up: "\<exists>m' \<in> M. w < m'" if j: "j < length ts" "(a, w) \<in> own (ts ! j)" for j a w
  proof -
    have "\<not> is_done (ts ! j)" using j(2) by (auto simp: own_def is_done_def)
    then obtain k m where k: "ts ! j = Lock k m" using all [OF j(1)] by (auto simp: waits_def)
    have m: "m < length (ways (t_req k))" using conc_invD(4) [OF c j(1)] k by simp
    have w: "w \<in> set (take m (ways (t_req k)))" using j(2) k by (simp add: own_def)
    then have "0 < m" by (cases m) auto
    then have aw: "ways (t_req k) = all_ways" using ways_cases [of "t_req k"] m by auto
    have "w < m" using w m unfolding aw by (auto simp: in_set_conv_nth all_ways_nth)
    moreover have "m \<in> M" using j(1) k aw by (auto simp: M_def)
    ultimately show ?thesis by blast
  qed
  have some: "\<exists>w a j. j < length ts \<and> (a, w) \<in> own (ts ! j) \<and> (\<forall>k m. ts ! x = Lock k m \<longrightarrow> ways (t_req k) = all_ways \<longrightarrow> w = m)"
    if x: "x < length ts" "\<not> is_done (ts ! x)" for x
  proof -
    obtain k m where k: "ts ! x = Lock k m" using all [OF x] by (auto simp: waits_def)
    obtain j where j: "j < length ts" "(t_dir k, ways (t_req k) ! m) \<in> own (ts ! j)" using waits_for [OF c x(1) k all [OF x]] by blast
    have "m < length (ways (t_req k))" using conc_invD(4) [OF c x(1)] k by simp
    then have "ways (t_req k) = all_ways \<Longrightarrow> ways (t_req k) ! m = m" using all_ways_nth by simp
    then show ?thesis using j k by (intro exI [of _ "ways (t_req k) ! m"] exI [of _ "t_dir k"] exI [of _ j]) auto
  qed
  obtain w a j where "j < length ts" "(a, w) \<in> own (ts ! j)" using some [OF i] by blast
  then have ne: "M \<noteq> {}" using up by blast
  have "Max M \<in> M" using fin ne by (rule Max_in)
  then obtain x k where x: "x < length ts" "ts ! x = Lock k (Max M)" "ways (t_req k) = all_ways" by (auto simp: M_def)
  have "\<not> is_done (ts ! x)" using x(2) by (simp add: is_done_def)
  then obtain a j where "j < length ts" "(a, Max M) \<in> own (ts ! j)" using some [OF x(1)] x(2,3) by blast
  then obtain m' where "m' \<in> M" "Max M < m'" using up by blast
  then show False using Max_ge [OF fin, of m'] by simp
qed

text \<open>How many steps a thread may still take.\<close>

fun steps_left :: "thread \<Rightarrow> nat" where
  "steps_left (Start c) = 2 * req_num (c_req c) + 15"
| "steps_left (Check t) = 2 * t_num t + 14"
| "steps_left (Lock t m) = 2 * t_num t + 4 + (length (ways (t_req t)) - m)"
| "steps_left (Names t w) = 2 * (t_num t - t_done t) + 3"
| "steps_left (Put t name w) = 2 * (t_num t - t_done t) + 2"
| "steps_left (Bulk t) = 3"
| "steps_left (Read t) = 3"
| "steps_left (Unlock t st r) = 2"
| "steps_left (Finish t st r k) = 1"
| "steps_left (Done st r) = 0"

lemma length_ways: "length (ways req) \<le> 8"
  by (cases req) (simp_all add: all_ways_def kWays_def)

lemma steps_left_less:
  assumes sh: "shape_ok t" and st: "thread_step X now t s = Some (t', s')"
  shows "steps_left t' < steps_left t"
proof (cases t)
  case (Start c)
  then obtain a s1 where a: "AcquireDir (DirId_LookupStat (c_parent c)) s = Some (a, s1)" using st by (auto simp: bind_eq_Some_conv)
  obtain stat i n s2 where p: "prepare (c_req c) (c_who c) s1 = (stat, i, n, s2)" by (cases "prepare (c_req c) (c_who c) s1") auto
  then show ?thesis using st Start a prepare_fields(5) [OF p] by auto
next
  case (Check k)
  then show ?thesis using st length_ways [of "t_req k"] by (auto simp: bind_eq_Some_conv case_prod_unfold split: if_splits)
next
  case (Lock k m)
  then have "t_done k = 0" "m < length (ways (t_req k))" using sh by simp_all
  moreover have "steps_left (begin_work k) \<le> 2 * (t_num k - t_done k) + 3" by (cases "t_req k") simp_all
  ultimately show ?thesis using st Lock by (auto simp: bind_eq_Some_conv split: if_splits simp del: begin_work.simps)
next
  case (Names k w)
  show ?thesis
  proof (cases "if t_done k < t_num k then next_name w else None")
    case None
    then show ?thesis using st Names by auto
  next
    case (Some p)
    then show ?thesis using st Names by (cases p) (auto simp: bind_eq_Some_conv Let_def split: if_splits)
  qed
next
  case (Put k name w)
  then show ?thesis using sh st by (auto simp: bind_eq_Some_conv Let_def split: if_splits)
next
  case (Bulk k)
  then show ?thesis using st by (auto simp: bind_eq_Some_conv split: request.splits)
next
  case (Read k)
  then show ?thesis using st by (auto simp: read_request_def bind_eq_Some_conv split: request.splits)
qed (use st in \<open>auto simp: bind_eq_Some_conv split: if_splits\<close>)

definition total_left :: "thread list \<Rightarrow> nat" where
  "total_left ts = sum_list (map steps_left ts)"

lemma total_left_upd: "i < length ts \<Longrightarrow> steps_left t < steps_left (ts ! i) \<Longrightarrow> total_left (ts[i := t]) < total_left ts"
proof (induction ts arbitrary: i)
  case (Cons x ts)
  then show ?case by (cases i) (auto simp: total_left_def)
qed simp

lemma run_bounded:
  "fs_reachable X (\<lambda>_. False) m (s, ts) (s', ts') \<Longrightarrow> conc_inv (s, ts) \<Longrightarrow> m + total_left ts' \<le> total_left ts"
  unfolding fs_reachable_def
proof (induction m arbitrary: s ts)
  case (Suc m)
  obtain d where d: "fs_step X (\<lambda>_. False) (s, ts) d" "(fs_step X (\<lambda>_. False) ^^ m) d (s', ts')" using Suc.prems(1) relpowp_Suc_D2 by metis
  obtain i now t s1 where i: "i < length ts" "thread_step X now (ts ! i) s = Some (t, s1)" "d = (s1, ts[i := t])"
    using d(1) by (auto elim: fs_stepE)
  have "total_left (ts[i := t]) < total_left ts"
    by (rule total_left_upd [OF i(1) steps_left_less [OF conc_invD(4) [OF Suc.prems(2) i(1)] i(2)]])
  then show ?case using Suc.IH [of s1 "ts[i := t]"] d(2) i(3) conc_inv_step [OF d(1) Suc.prems(2)] by simp
qed simp

definition ready_inv :: "'db Filesystem \<Rightarrow> bool" where
  "ready_inv s \<longleftrightarrow> opts_ok (fs_options s) \<and> giga_inv (fs_options s) (blks s) \<and> list_all ro_ok (readonly_dbs s)"

lemma ready_step:
  assumes "fs_step X P c c'" and "conc_inv c" and "ready_inv (fst c)"
  shows "ready_inv (fst c')"
  using assms(1)
proof cases
  case (run i ts now s t' s')
  then show ?thesis using giga_step [of s ts i X now t' s'] assms(2,3) by (auto simp: ready_inv_def)
qed (use assms in auto)

lemma ready_reachable: "fs_reachable X P n c c' \<Longrightarrow> conc_inv c \<Longrightarrow> ready_inv (fst c) \<Longrightarrow> ready_inv (fst c')"
  unfolding fs_reachable_def
proof (induction n arbitrary: c)
  case (Suc n)
  obtain d where "fs_step X P c d" "(fs_step X P ^^ n) d c'" using Suc.prems(1) relpowp_Suc_D2 by metis
  then show ?case using Suc.IH conc_inv_step ready_step Suc.prems(2,3) by blast
qed simp

lemma new_ready: "opts_ok opts \<Longrightarrow> list_all ro_ok ros \<Longrightarrow> ready_inv (new_Filesystem opts db ros)"
  by (simp add: ready_inv_def new_Filesystem_def giga_inv_def)

lemma fs_step_mono: "fs_step X (\<lambda>_. False) c c' \<Longrightarrow> fs_step X P c c'"
  by (erule fs_step.cases) (auto intro: fs_step.intros)

lemma fs_reachable_mono: "fs_reachable X (\<lambda>_. False) n c c' \<Longrightarrow> fs_reachable X P n c c'"
  unfolding fs_reachable_def
proof (induction n arbitrary: c)
  case (Suc n)
  obtain d where "fs_step X (\<lambda>_. False) c d" "(fs_step X (\<lambda>_. False) ^^ n) d c'" using Suc.prems(1) relpowp_Suc_D2 by metis
  then show ?case using Suc.IH fs_step_mono by (metis relpowp_Suc_I2)
qed simp

context fs_store
begin

lemma no_deadlock:
  assumes "conc_inv (s, ts)" and "store_inv frep (Suc n) (s, ts) f" and "ready_inv s" and "i < length ts" "\<not> is_done (ts ! i)"
  shows "\<exists>c. fs_step X P (s, ts) c"
proof -
  obtain j where j: "j < length ts" "\<not> is_done (ts ! j)" "\<not> waits s (ts ! j)" using someone_moves [OF assms(1,4,5)] by blast
  have "\<exists>t' s'. thread_step X 0 (ts ! j) s = Some (t', s')"
    by (rule thread_progress [OF assms(1,2) _ _ _ j(1)]) (use assms(3) j(2,3) in \<open>auto simp: ready_inv_def is_done_def waits_def\<close>)
  then show ?thesis using fs_step.run [OF j(1)] by blast
qed

end

section \<open>Properties\<close>



end
