(* ===== verification/Fs_Handlers.thy ===== *)
theory Fs_Handlers
  imports Fs_Progress
begin

text \<open>
  The handlers run alone: what each returns and what it does to the directories and the inode counter, on every branch;
  and that the interleaved steps of a thread, when nobody else moves, compute the same.
\<close>

section \<open>A handler that runs alone\<close>

text \<open>No handler runs.\<close>

definition quiet_fs :: "'db Filesystem \<Rightarrow> bool" where
  "quiet_fs s \<longleftrightarrow> fs_inv (\<lambda>_. 0) s \<and> ready_inv s \<and> (\<forall>a b. blks s a = Some b \<longrightarrow> b_busy b = replicate kWays False)"

text \<open>One handler runs, in the directory \<open>at\<close> with the block \<open>a\<close>, and has locked the ways \<open>W\<close>.\<close>

definition opened :: "DirId \<Rightarrow> nat \<Rightarrow> nat set \<Rightarrow> 'db Filesystem \<Rightarrow> bool" where
  "opened at a W s \<longleftrightarrow> fs_inv ((\<lambda>_. 0)(a := 1)) s \<and> ready_inv s \<and> (\<exists>b. blks s a = Some b \<and> b_id b = at) \<and>
     (\<forall>x b. blks s x = Some b \<longrightarrow> b_busy b = map (\<lambda>i. x = a \<and> i \<in> W) [0..<kWays])"

lemma opened_acquire:
  assumes q: "quiet_fs s"
  shows "\<exists>a s'. AcquireDir at s = Some (a, s') \<and> opened at a {} s' \<and> same_rest s s'"
proof -
  have inv: "fs_inv (\<lambda>_. 0) s" and r: "ready_inv s" using q by (simp_all add: quiet_fs_def)
  obtain a s' where a: "AcquireDir at s = Some (a, s')" "fs_inv ((\<lambda>_. 0)(a := 0 + 1)) s'" "acquired at s a s'"
    using AcquireDir_ok [OF inv, of at] by blast
  have "b_busy b = replicate kWays False" if "blks s' x = Some b" for x b
    using a(3) that q unfolding acquired_def quiet_fs_def by blast
  then have busy: "\<forall>x b. blks s' x = Some b \<longrightarrow> b_busy b = map (\<lambda>i. x = a \<and> i \<in> {}) [0..<kWays]" by (simp add: map_replicate_const)
  have "giga_inv (fs_options s) (blks s')"
    by (rule giga_inv_sub) (use r a(3) in \<open>auto simp: ready_inv_def acquired_def\<close>)
  then have "ready_inv s'" using r a(3) by (simp add: ready_inv_def acquired_def same_rest_def)
  moreover have "\<exists>b. blks s' a = Some b \<and> b_id b = at" using a(3) unfolding acquired_def by blast
  ultimately have "opened at a {} s'" using a(2) busy unfolding opened_def by simp
  then show ?thesis using a(1,3) by (auto simp: acquired_def)
qed

lemma opened_release:
  assumes q: "opened at a {} s"
  shows "\<exists>s'. Release a s = Some s' \<and> quiet_fs s' \<and> same_rest s s'"
proof -
  have inv: "fs_inv ((\<lambda>_. 0)(a := 1)) s" and r: "ready_inv s" using q by (simp_all add: opened_def)
  obtain s' where s': "Release a s = Some s'" "fs_inv (((\<lambda>_. 0)(a := 1))(a := ((\<lambda>_. 0)(a := 1)) a - 1)) s'" "same_rest s s'"
    "\<forall>a' b'. blks s' a' = Some b' \<longrightarrow> blks s a' = Some b'"
    using Release_ok [where R = "(\<lambda>_. 0)(a := 1)" and a = a, OF inv] by auto
  have "((\<lambda>_. 0)(a := 1))(a := ((\<lambda>_. 0)(a := 1)) a - 1) = (\<lambda>_. 0 :: nat)" by (simp add: fun_eq_iff)
  then have "fs_inv (\<lambda>_. 0) s'" using s'(2) by simp
  moreover have "giga_inv (fs_options s) (blks s')" by (rule giga_inv_sub) (use r s'(4) in \<open>auto simp: ready_inv_def\<close>)
  then have "ready_inv s'" using r s'(3) by (simp add: ready_inv_def same_rest_def)
  moreover have "b_busy b = replicate kWays False" if "blks s' x = Some b" for x b
    using q s'(4) that by (auto simp: opened_def map_replicate_const)
  ultimately show ?thesis using s'(1,3) by (auto simp: quiet_fs_def)
qed

lemma opened_fields:
  assumes "opened at a W s" and "dlru s' = dlru s" "dirs s' = dirs s" "blks s' = blks s" "next_blk s' = next_blk s"
    "fs_options s' = fs_options s" "readonly_dbs s' = readonly_dbs s"
  shows "opened at a W s'"
  using assms fs_inv_cong [of "(\<lambda>_. 0)(a := 1)" s s'] unfolding opened_def ready_inv_def by simp

lemma opened_db: "opened at a W s \<Longrightarrow> opened at a W (s\<lparr>fs_db := x\<rparr>)"
  by (erule opened_fields) simp_all

lemma opened_inoq: "opened at a W s \<Longrightarrow> opened at a W (s\<lparr>inoq := x\<rparr>)"
  by (erule opened_fields) simp_all

lemma opened_block:
  assumes q: "opened at a W s" and u: "update_block g a s = Some s'"
    and g: "\<And>b. b_id (g b) = b_id b \<and> b_key (g b) = b_key b \<and> b_hash (g b) = b_hash b \<and> b_handle (g b) = b_handle b \<and>
      b_giga (g b) = b_giga b \<and> b_fetched (g b) = b_fetched b"
    and busy: "\<And>b. b_busy b = map (\<lambda>i. i \<in> W) [0..<kWays] \<Longrightarrow> b_busy (g b) = map (\<lambda>i. i \<in> V) [0..<kWays]"
  shows "opened at a V s' \<and> same_rest s s'"
proof -
  obtain b where b: "blks s a = Some b" "b_id b = at" "b_busy b = map (\<lambda>i. i \<in> W) [0..<kWays]" using q by (auto simp: opened_def)
  have s': "s' = s\<lparr>blks := (blks s)(a \<mapsto> g b)\<rparr>" using u b(1) by (simp add: update_block_def)
  have len: "length (b_busy (g b)) = length (b_busy b)" using busy [OF b(3)] b(3) by simp
  have "fs_inv ((\<lambda>_. 0)(a := 1)) s'"
    unfolding s' using q g len by (intro fs_inv_update [OF _ b(1)]) (simp_all add: opened_def)
  moreover have "giga_inv (fs_options s) (blks s')" by (rule update_block_giga [OF u]) (use q g in \<open>auto simp: opened_def ready_inv_def\<close>)
  then have "ready_inv s'" using q s' by (simp add: opened_def ready_inv_def)
  moreover have "b_busy c = map (\<lambda>i. x = a \<and> i \<in> V) [0..<kWays]" if "blks s' x = Some c" for x c
    using that s' q busy [OF b(3)] by (cases "x = a") (auto simp: opened_def)
  moreover have "\<exists>b. blks s' a = Some b \<and> b_id b = at" using b(2) g by (simp add: s')
  ultimately show ?thesis using s' by (simp add: opened_def same_rest_def)
qed

lemma opened_merge: "opened at a W s \<Longrightarrow> \<exists>s'. merge_stats p a s = Some s' \<and> opened at a W s' \<and> same_rest s s'"
  using opened_block [of at a W s "\<lambda>b. b\<lparr>b_stats := stats_Merge (b_stats b) p\<rparr>" _ W]
  by (fastforce simp: merge_stats_def update_block_def opened_def)

lemma opened_busy:
  assumes q: "opened at a W s" and h: "h (map (\<lambda>i. i \<in> W) [0..<kWays]) = map (\<lambda>i. i \<in> V) [0..<kWays]"
  shows "\<exists>s'. update_block (\<lambda>b. b\<lparr>b_busy := h (b_busy b)\<rparr>) a s = Some s' \<and> opened at a V s' \<and> same_rest s s'"
proof -
  let ?g = "\<lambda>b. b\<lparr>b_busy := h (b_busy b)\<rparr>"
  obtain b where b: "blks s a = Some b" using q by (auto simp: opened_def)
  have u: "update_block ?g a s = Some (s\<lparr>blks := (blks s)(a \<mapsto> ?g b)\<rparr>)" using b by (simp add: update_block_def)
  have "opened at a V (s\<lparr>blks := (blks s)(a \<mapsto> ?g b)\<rparr>) \<and> same_rest s (s\<lparr>blks := (blks s)(a \<mapsto> ?g b)\<rparr>)"
    by (rule opened_block [OF q u]) (simp_all add: h)
  then show ?thesis using u by blast
qed

lemma opened_lock:
  assumes q: "opened at a W s" and i: "i < kWays" "i \<notin> W"
  shows "\<exists>s'. lock_way a i s = Some s' \<and> opened at a (insert i W) s' \<and> same_rest s s'"
proof -
  obtain b where b: "blks s a = Some b" "b_busy b = map (\<lambda>i. i \<in> W) [0..<kWays]" using q by (auto simp: opened_def)
  have "(map (\<lambda>j. j \<in> W) [0..<kWays])[i := True] = map (\<lambda>j. j \<in> insert i W) [0..<kWays]"
    using i(1) by (intro nth_equalityI) (auto simp: nth_list_update split: if_splits)
  then show ?thesis
    using opened_busy [OF q, where h = "\<lambda>bs. bs[i := True]"] b i by (simp add: lock_way_def)
qed

lemma opened_lock_ways:
  "opened at a W s \<Longrightarrow> distinct is \<Longrightarrow> set is \<subseteq> {..<kWays} \<Longrightarrow> set is \<inter> W = {} \<Longrightarrow>
   \<exists>s'. lock_ways a is s = Some s' \<and> opened at a (set is \<union> W) s' \<and> same_rest s s'"
proof (induction "is" arbitrary: W s)
  case Nil
  then show ?case by (simp add: same_rest_def)
next
  case (Cons i js)
  obtain s1 where s1: "lock_way a i s = Some s1" "opened at a (insert i W) s1" "same_rest s s1"
    using opened_lock [OF Cons.prems(1), of i] Cons.prems(3,4) by auto
  obtain s' where "lock_ways a js s1 = Some s'" "opened at a (set js \<union> insert i W) s'" "same_rest s1 s'"
    using Cons.IH [OF s1(2)] Cons.prems(2-4) by auto
  then show ?case using s1 same_rest_trans by auto
qed

lemma opened_unlock:
  assumes q: "opened at a W s" and W: "W \<subseteq> set is"
  shows "\<exists>s'. unlock_ways a is s = Some s' \<and> opened at a {} s' \<and> same_rest s s'"
proof -
  have "clear_ways is (map (\<lambda>j. j \<in> W) [0..<kWays]) = map (\<lambda>j. j \<in> {}) [0..<kWays]"
    using W by (intro nth_equalityI) (auto simp: clear_ways_nth)
  then show ?thesis using opened_busy [OF q, where h = "clear_ways is" and V = "{}"] by (simp add: unlock_ways_def)
qed

lemma opened_check:
  assumes q: "opened (DirId_LookupStat p) a {} s"
  shows "\<exists>s'. check_dir access msg name p now a s = Some (check_status (fs_options s) access msg name p now, s') \<and>
    opened (DirId_LookupStat p) a {} s' \<and> same_rest s s'"
proof -
  obtain b where b: "blks s a = Some b" "b_id b = DirId_LookupStat p" using q by (auto simp: opened_def)
  obtain s' where s': "check_dir access msg name p now a s = Some (check_status (fs_options s) access msg name p now, s')"
    "frames s s'" "same_rest s s'" "giga_inv (fs_options s') (blks s')"
    using check_dir_ok [OF _ _ b, of access msg name now] q by (auto simp: opened_def ready_inv_def)
  have "opened (DirId_LookupStat p) a {} s'"
    unfolding opened_def
  proof (intro conjI)
    show "fs_inv ((\<lambda>_. 0)(a := 1)) s'" using s'(2) q by (simp add: frames_def opened_def)
    show "ready_inv s'" using q s'(3,4) by (simp add: opened_def ready_inv_def same_rest_def)
    show "\<exists>b. blks s' a = Some b \<and> b_id b = DirId_LookupStat p" using frames_blk' [OF s'(2) b(1)] b(2) by auto
    show "\<forall>x c. blks s' x = Some c \<longrightarrow> b_busy c = map (\<lambda>i. x = a \<and> i \<in> {}) [0..<kWays]"
      using frames_blk [OF s'(2)] q by (fastforce simp: opened_def)
  qed
  then show ?thesis using s'(1,3) by blast
qed

section \<open>What the handlers do\<close>

text \<open>A store whose writes do not fail.\<close>

locale fs_store_sure = fs_store X frep for X :: "'db FsDb" and frep :: "nat \<Rightarrow> 'db \<Rightarrow> dir_map \<Rightarrow> bool" +
  assumes fs_Put_ok: "frep (Suc n) db f \<Longrightarrow> dir_ok d \<Longrightarrow> name_ok nm \<Longrightarrow>
      \<exists>stats' db'. fsdb_Put X d nm st stats db = Some (Okay, stats', db') \<and> frep n db' (dir_put f d nm (Some st))"

interpretation fsdb_sure: fs_store_sure "FilesystemDb_if (DB_DX E opt) bulk" "fsdb_rep E opt" for E opt bulk
proof unfold_locales
  fix n db f d nm st stats
  assume a: "fsdb_rep E opt (Suc n) db f" "dir_ok d" "name_ok nm"
  show "\<exists>stats' db'. fsdb_Put (FilesystemDb_if (DB_DX E opt) bulk) d nm st stats db = Some (Okay, stats', db') \<and>
      fsdb_rep E opt n db' (dir_put f d nm (Some st))"
    using fsdb_Put_ok [OF a, of st stats] by (simp add: FilesystemDb_if_def)
qed

text \<open>The names at the front of an array, at most \<open>k\<close>.\<close>

fun names_in :: "nat \<Rightarrow> slice \<Rightarrow> slice list" where
  "names_in 0 input = []"
| "names_in (Suc k) input =
     (case GetLengthPrefixedSlice input of None \<Rightarrow> [] | Some (nm, input) \<Rightarrow> nm # names_in k input)"

text \<open>Creating names one after the other, up to the first that exists.\<close>

fun create_names :: "dir_map \<Rightarrow> DirId \<Rightarrow> (nat \<Rightarrow> Stat) \<Rightarrow> nat \<Rightarrow> slice list \<Rightarrow> nat \<times> status \<times> dir_map" where
  "create_names f at st m [] = (m, Okay, f)"
| "create_names f at st m (nm # nms) =
     (if f at nm \<noteq> None then (m, AlreadyExists (string_of_slice nm), f)
      else create_names (dir_put f at nm (Some (st m))) at st (Suc m) nms)"

text \<open>The result of creating one name: the lease, the permission, the partition, then the name.\<close>

definition create_status :: "FilesystemOptions \<Rightarrow> dir_map \<Rightarrow> LookupStat \<Rightarrow> User \<Rightarrow> slice \<Rightarrow> u64 \<Rightarrow> status" where
  "create_status o' f p who nm now =
     (let c = check_status o' (IsDirWriteOk o' p who) ''No write perm'' (Some nm) p now
      in if \<not> ok c then c else if f (DirId_LookupStat p) nm = None then Okay else AlreadyExists (string_of_slice nm))"

text \<open>The result of reading one name.\<close>

definition read_status :: "FilesystemOptions \<Rightarrow> dir_map \<Rightarrow> LookupStat \<Rightarrow> User \<Rightarrow> slice \<Rightarrow> u64 \<Rightarrow> status \<times> Stat option" where
  "read_status o' f p who nm now =
     (let c = check_status o' (IsLookupOk o' p who) ''No dir x perm'' (Some nm) p now
      in if \<not> ok c then (c, None)
         else case f (DirId_LookupStat p) nm of None \<Rightarrow> (NotFound [], None) | Some st \<Rightarrow> (Okay, Some st))"

lemma names_in_fits: "name_ok input \<Longrightarrow> nm \<in> set (names_in k input) \<Longrightarrow> name_ok nm"
proof (induction k arbitrary: input)
  case (Suc k)
  obtain x r where x: "GetLengthPrefixedSlice input = Some (x, r)" using Suc.prems(2) by (cases "GetLengthPrefixedSlice input") auto
  have "name_ok x" "name_ok r" using next_name_fits [of "NameArray input" x "NameArray r"] x Suc.prems(1) by simp_all
  then show ?case using Suc x by auto
qed simp

lemma length_names_in: "length (names_in k input) \<le> k"
  by (induction k arbitrary: input) (auto split: option.split)

lemma create_names_bound: "create_names f at st m nms = (m', r, f') \<Longrightarrow> m \<le> m' \<and> m' \<le> m + length nms"
proof (induction nms arbitrary: m f)
  case (Cons nm nms)
  then show ?case by (force split: if_splits)
qed simp

text \<open>Creating a batch: the status, the count that is returned, the new inode counter and the directories.\<close>

definition create_batch :: "FilesystemOptions \<Rightarrow> dir_map \<Rightarrow> LookupStat \<Rightarrow> User \<Rightarrow> slice \<Rightarrow> u32 \<Rightarrow> u32 \<Rightarrow> u64 \<Rightarrow> u64 \<Rightarrow>
    status \<times> u32 \<times> u64 \<times> dir_map" where
  "create_batch o' f p who namearr mode n now i =
     (let c = check_status o' (IsDirWriteOk o' p who) ''No write perm'' None p now;
          st = (\<lambda>j. new_Stat o' who (file_mode mode) (- 1) (i + 1 + word_of_nat j))
      in if \<not> ok c then (c, n, i + ucast n, f)
         else case create_names f (DirId_LookupStat p) st 0 (names_in (unat n) namearr) of
                (m, r, f) \<Rightarrow> (r, word_of_nat m, if ok r then i + ucast n else i + word_of_nat m, f))"

text \<open>What the handlers need of the state: the store, with room for \<open>n\<close> writes.\<close>

definition stored :: "(nat \<Rightarrow> 'db \<Rightarrow> dir_map \<Rightarrow> bool) \<Rightarrow> nat \<Rightarrow> 'db Filesystem \<Rightarrow> dir_map \<Rightarrow> bool" where
  "stored frep n s f \<longleftrightarrow> (\<exists>db. fs_db s = Some db \<and> frep n db f) \<and> \<not> skip_name_collision_checks (fs_options s) \<and> readonly_dbs s = []"

context fs_store_sure
begin

lemma stored_rest: "stored frep n s f \<Longrightarrow> same_rest s s' \<Longrightarrow> stored frep n s' f"
  by (simp add: stored_def same_rest_def)

lemma stored_le: "stored frep n s f \<Longrightarrow> m \<le> n \<Longrightarrow> stored frep m s f"
  using fs_le by (fastforce simp: stored_def)

lemma DbGet_stored:
  assumes s: "stored frep n s f" and ok: "dir_ok at" "name_ok nm"
  shows "\<exists>p'. DbGet X s at nm p = Some (case f at nm of None \<Rightarrow> (NotFound [], None, p') | Some st \<Rightarrow> (Okay, Some st, p'))"
proof -
  obtain db where db: "fs_db s = Some db" "frep n db f" "readonly_dbs s = []" using s by (auto simp: stored_def)
  then show ?thesis using fs_Get [OF db(2) ok, of p] by (cases "f at nm") (auto simp: DbGet_def)
qed

lemma CheckAndPut_stored:
  assumes s: "stored frep (Suc n) s f" and ok: "dir_ok at" "name_ok nm"
  shows "\<exists>p' db'. CheckAndPut X at nm st p s =
      Some (if f at nm = None then Okay else AlreadyExists (string_of_slice nm), p', s\<lparr>fs_db := Some db'\<rparr>) \<and>
    stored frep n (s\<lparr>fs_db := Some db'\<rparr>) (if f at nm = None then dir_put f at nm (Some st) else f)"
proof -
  obtain db where db: "fs_db s = Some db" "frep (Suc n) db f" "readonly_dbs s = []" "\<not> skip_name_collision_checks (fs_options s)"
    using s by (auto simp: stored_def)
  obtain p1 where p1: "DbGet X s at nm p = Some (case f at nm of None \<Rightarrow> (NotFound [], None, p1) | Some st \<Rightarrow> (Okay, Some st, p1))"
    using DbGet_stored [OF s ok] by blast
  show ?thesis
  proof (cases "f at nm")
    case None
    obtain p2 db' where "fsdb_Put X at nm st p1 db = Some (Okay, p2, db')" "frep n db' (dir_put f at nm (Some st))"
      using fs_Put_ok [OF db(2) ok] by blast
    then show ?thesis using None p1 db by (auto simp: CheckAndPut_def check_name_def put_name_def stored_def)
  next
    case (Some x)
    have "s\<lparr>fs_db := Some db\<rparr> = s" using db(1) by simp
    then show ?thesis
      using Some p1 db fs_le [OF db(2), of n] by (intro exI [of _ p1] exI [of _ db]) (simp add: CheckAndPut_def check_name_def stored_def)
  qed
qed

lemma Mknod1_stored:
  assumes s: "stored frep (Suc n) s f" and q: "opened (DirId_LookupStat p) a {} s" and ok: "dir_ok (DirId_LookupStat p)" "name_ok nm"
  shows "let at = DirId_LookupStat p; st = create_status (fs_options s) f p who nm now
    in \<exists>stats' s'. Mknod1 X now who at nm p a stat stats s = Some (st, stats', s') \<and> opened at a {} s' \<and> inoq s' = inoq s \<and>
      fs_options s' = fs_options s \<and> stored frep n s' (if ok st then dir_put f at nm (Some stat) else f)"
proof -
  let ?at = "DirId_LookupStat p" and ?c = "check_status (fs_options s) (IsDirWriteOk (fs_options s) p who) ''No write perm'' (Some nm) p now"
  obtain s1 where s1: "check_dir (IsDirWriteOk (fs_options s) p who) ''No write perm'' (Some nm) p now a s = Some (?c, s1)"
    "opened ?at a {} s1" "same_rest s s1"
    using opened_check [OF q] by blast
  have st1: "stored frep (Suc n) s1 f" by (rule stored_rest [OF s s1(3)])
  have r1: "inoq s1 = inoq s" "fs_options s1 = fs_options s" using s1(3) by (simp_all add: same_rest_def)
  show ?thesis
  proof (cases "ok ?c")
    case False
    then show ?thesis using s1 stored_le [OF st1, of n] r1 by (simp add: Mknod1_def create_status_def Let_def)
  next
    case True
    obtain s2 where s2: "lock_way a (way_of nm) s1 = Some s2" "opened ?at a {way_of nm} s2" "same_rest s1 s2"
      using opened_lock [OF s1(2) way_of_less, of nm] by auto
    obtain p' db' where s3: "CheckAndPut X ?at nm stat stats s2 = Some (if f ?at nm = None then Okay else AlreadyExists (string_of_slice nm), p', s2\<lparr>fs_db := Some db'\<rparr>)"
      "stored frep n (s2\<lparr>fs_db := Some db'\<rparr>) (if f ?at nm = None then dir_put f ?at nm (Some stat) else f)"
      using CheckAndPut_stored [OF stored_rest [OF st1 s2(3)] ok] by blast
    obtain s4 where s4: "merge_stats p' a (s2\<lparr>fs_db := Some db'\<rparr>) = Some s4" "opened ?at a {way_of nm} s4" "same_rest (s2\<lparr>fs_db := Some db'\<rparr>) s4"
      using opened_merge [OF opened_db [OF s2(2)]] by blast
    obtain s5 where s5: "unlock_ways a [way_of nm] s4 = Some s5" "opened ?at a {} s5" "same_rest s4 s5"
      using opened_unlock [OF s4(2), of "[way_of nm]"] by auto
    have "stored frep n s5 (if f ?at nm = None then dir_put f ?at nm (Some stat) else f)"
      using stored_rest [OF stored_rest [OF s3(2) s4(3)] s5(3)] .
    moreover have "inoq s5 = inoq s" "fs_options s5 = fs_options s" using r1 s2(3) s4(3) s5(3) by (simp_all add: same_rest_def)
    moreover have "Mknod1 X now who ?at nm p a stat stats s = Some (if f ?at nm = None then Okay else AlreadyExists (string_of_slice nm), p', s5)"
      using s1(1) True s2(1) s3(1) s4(1) s5(1) by (simp add: Mknod1_def)
    ultimately show ?thesis using True s5(2) by (auto simp: create_status_def Let_def)
  qed
qed

lemma mknod_stored:
  assumes s: "stored frep (Suc n) s f" and q: "quiet_fs s" and ok: "dir_ok (DirId_LookupStat p)" "name_ok nm"
  shows "let at = DirId_LookupStat p; st = create_status (fs_options s) f p who nm now; i = inoq s + 1;
      stat = new_Stat (fs_options s) who mode (zserver (fs_options s) i) i
    in \<exists>s'. mknod X now who p nm mode zserver s = Some (st, stat, s') \<and> quiet_fs s' \<and> fs_options s' = fs_options s \<and>
      inoq s' = (if ok st then i else inoq s) \<and> stored frep n s' (if ok st then dir_put f at nm (Some stat) else f)"
proof -
  let ?at = "DirId_LookupStat p" and ?st = "create_status (fs_options s) f p who nm now"
  let ?i = "inoq s + 1" let ?stat = "new_Stat (fs_options s) who mode (zserver (fs_options s) ?i) ?i"
  obtain a s1 where s1: "AcquireDir ?at s = Some (a, s1)" "opened ?at a {} s1" "same_rest s s1" using opened_acquire [OF q] by blast
  let ?s1 = "s1\<lparr>inoq := inoq s1 + 1\<rparr>"
  have r1: "inoq s1 = inoq s" "fs_options s1 = fs_options s" using s1(3) by (simp_all add: same_rest_def)
  have st1: "stored frep (Suc n) ?s1 f" using stored_rest [OF s s1(3)] by (simp add: stored_def)
  obtain stats' s2 where s2: "Mknod1 X now who ?at nm p a ?stat new_stats ?s1 = Some (?st, stats', s2)" "opened ?at a {} s2"
    "inoq s2 = inoq ?s1" "fs_options s2 = fs_options ?s1" "stored frep n s2 (if ok ?st then dir_put f ?at nm (Some ?stat) else f)"
    using Mknod1_stored [OF st1 opened_inoq [OF s1(2)] ok, of who now ?stat new_stats] r1(2) by (auto simp: Let_def)
  let ?s3 = "if \<not> ok ?st then TryReuseIno ?i 1 s2 else s2"
  have q3: "opened ?at a {} ?s3" using s2(2) opened_inoq [OF s2(2)] by (simp add: TryReuseIno_def)
  obtain s4 where s4: "Release a ?s3 = Some s4" "quiet_fs s4" "same_rest ?s3 s4" using opened_release [OF q3] by blast
  have i3: "inoq ?s3 = (if ok ?st then ?i else inoq s)" using s2(3) r1 by (simp add: TryReuseIno_def)
  have o3: "fs_options ?s3 = fs_options s" using s2(4) r1 by (simp add: TryReuseIno_def)
  have st3: "stored frep n ?s3 (if ok ?st then dir_put f ?at nm (Some ?stat) else f)"
    using s2(5) by (cases "ok ?st") (simp_all add: stored_def TryReuseIno_def)
  have "mknod X now who p nm mode zserver s = Some (?st, ?stat, s4)"
    using s1(1) s2(1) s4(1) r1 unfolding mknod_def by (cases "ok ?st") (simp_all add: Let_def)
  moreover have "inoq s4 = (if ok ?st then ?i else inoq s)" "fs_options s4 = fs_options s"
    using i3 o3 s4(3) unfolding same_rest_def by metis+
  moreover have "stored frep n s4 (if ok ?st then dir_put f ?at nm (Some ?stat) else f)" by (rule stored_rest [OF st3 s4(3)])
  ultimately show ?thesis using s4(2) unfolding Let_def by blast
qed

lemma Lstat1_stored:
  assumes s: "stored frep n s f" and q: "opened (DirId_LookupStat p) a {} s" and ok: "dir_ok (DirId_LookupStat p)" "name_ok nm"
  shows "case read_status (fs_options s) f p who nm now of (st, v) \<Rightarrow>
    \<exists>stats' s'. Lstat1 X now who (DirId_LookupStat p) nm p a stats s = Some (st, v, stats', s') \<and>
      opened (DirId_LookupStat p) a {} s' \<and> same_rest s s'"
proof -
  let ?at = "DirId_LookupStat p" and ?c = "check_status (fs_options s) (IsLookupOk (fs_options s) p who) ''No dir x perm'' (Some nm) p now"
  obtain s1 where s1: "check_dir (IsLookupOk (fs_options s) p who) ''No dir x perm'' (Some nm) p now a s = Some (?c, s1)"
    "opened ?at a {} s1" "same_rest s s1"
    using opened_check [OF q] by blast
  obtain p' where p': "DbGet X s1 ?at nm stats = Some (case f ?at nm of None \<Rightarrow> (NotFound [], None, p') | Some st \<Rightarrow> (Okay, Some st, p'))"
    using DbGet_stored [OF stored_rest [OF s s1(3)] ok] by blast
  obtain s2 where s2: "merge_stats p' a s1 = Some s2" "opened ?at a {} s2" "same_rest s1 s2" using opened_merge [OF s1(2)] by blast
  show ?thesis
  proof (cases "ok ?c")
    case False
    then show ?thesis using s1 by (simp add: Lstat1_def read_status_def Let_def)
  next
    case True
    then show ?thesis using s1 p' s2 same_rest_trans [OF s1(3) s2(3)] by (cases "f ?at nm") (simp_all add: Lstat1_def read_status_def Let_def)
  qed
qed

lemma Lstat_stored:
  assumes s: "stored frep n s f" and q: "quiet_fs s" and ok: "dir_ok (DirId_LookupStat p)" "name_ok nm"
  shows "case read_status (fs_options s) f p who nm now of (st, v) \<Rightarrow>
    \<exists>stats' s'. Lstat X now who p nm stats s = Some (st, v, stats', s') \<and> quiet_fs s' \<and> same_rest s s'"
proof -
  let ?at = "DirId_LookupStat p"
  obtain a s1 where s1: "AcquireDir ?at s = Some (a, s1)" "opened ?at a {} s1" "same_rest s s1" using opened_acquire [OF q] by blast
  have o1: "fs_options s1 = fs_options s" using s1(3) by (simp add: same_rest_def)
  obtain st v where r: "read_status (fs_options s) f p who nm now = (st, v)" by fastforce
  obtain stats' s2 where s2: "Lstat1 X now who ?at nm p a stats s1 = Some (st, v, stats', s2)" "opened ?at a {} s2" "same_rest s1 s2"
    using Lstat1_stored [OF stored_rest [OF s s1(3)] s1(2) ok, of now who stats] o1 r by auto
  obtain s3 where s3: "Release a s2 = Some s3" "quiet_fs s3" "same_rest s2 s3" using opened_release [OF s2(2)] by blast
  have "same_rest s s3" using same_rest_trans [OF same_rest_trans [OF s1(3) s2(3)] s3(3)] .
  then show ?thesis using s1(1) s2(1) s3(1,2) r by (simp add: Lstat_def)
qed

lemma read_status_found: "read_status o' f p who nm now = (st, v) \<Longrightarrow> ok st \<Longrightarrow> \<exists>x. v = Some x"
proof (cases "f (DirId_LookupStat p) nm")
  case (Some x)
  assume "read_status o' f p who nm now = (st, v)" "ok st"
  then have "v = Some x" using Some by (simp add: read_status_def Let_def split: if_splits)
  then show ?thesis ..
qed (auto simp: read_status_def Let_def split: if_splits)

lemma Lokup_stored:
  assumes s: "stored frep n s f" and q: "quiet_fs s" and ok: "dir_ok (DirId_LookupStat p)" "name_ok nm"
  shows "case read_status (fs_options s) f p who nm now of (st, v) \<Rightarrow>
    \<exists>st' l s'. lookup_result st v = Some (st', l) \<and> Lokup X now who p nm s = Some (st', l, s') \<and> quiet_fs s' \<and> same_rest s s'"
proof -
  let ?at = "DirId_LookupStat p"
  obtain a s1 where s1: "AcquireDir ?at s = Some (a, s1)" "opened ?at a {} s1" "same_rest s s1" using opened_acquire [OF q] by blast
  have o1: "fs_options s1 = fs_options s" using s1(3) by (simp add: same_rest_def)
  obtain st v where r: "read_status (fs_options s) f p who nm now = (st, v)" by fastforce
  obtain st' l where l: "lookup_result st v = Some (st', l)"
    using read_status_found [OF r] by (fastforce simp: lookup_result_def split: option.split)
  obtain stats' s2 where s2: "Lstat1 X now who ?at nm p a new_stats s1 = Some (st, v, stats', s2)" "opened ?at a {} s2" "same_rest s1 s2"
    using Lstat1_stored [OF stored_rest [OF s s1(3)] s1(2) ok, of now who new_stats] o1 r by auto
  obtain s3 where s3: "Release a s2 = Some s3" "quiet_fs s3" "same_rest s2 s3" using opened_release [OF s2(2)] by blast
  have "same_rest s s3" using same_rest_trans [OF same_rest_trans [OF s1(3) s2(3)] s3(3)] .
  then show ?thesis using s1(1) s2(1) s3(1,2) r l by (simp add: Lokup_def Lokup1_def)
qed

lemma put_names_stored:
  assumes "stored frep (k + n) s f" and "opened at a W s" and "dir_ok at" and "name_ok input"
  shows "case create_names f at (\<lambda>j. stat\<lparr>InodeNo := startino + word_of_nat j\<rparr>) m (names_in k input) of (m', st, f') \<Rightarrow>
    \<exists>stats' s'. put_names X at startino k m input stat stats s = Some (m', st, stats', s') \<and> opened at a W s' \<and>
      inoq s' = inoq s \<and> fs_options s' = fs_options s \<and> stored frep n s' f'"
  using assms
proof (induction k arbitrary: m input stats s f)
  case 0
  then show ?case by simp
next
  case (Suc k)
  show ?case
  proof (cases "GetLengthPrefixedSlice input")
    case None
    then show ?thesis using Suc.prems stored_le [OF Suc.prems(1), of n] by simp
  next
    case (Some x)
    obtain nm r where x: "x = (nm, r)" by fastforce
    have fits: "name_ok nm" "name_ok r" using next_name_fits [of "NameArray input" nm "NameArray r"] Some x Suc.prems(4) by simp_all
    let ?st = "stat\<lparr>InodeNo := startino + word_of_nat m\<rparr>"
    obtain p' db' where c: "CheckAndPut X at nm ?st stats s =
        Some (if f at nm = None then Okay else AlreadyExists (string_of_slice nm), p', s\<lparr>fs_db := Some db'\<rparr>)"
      "stored frep (k + n) (s\<lparr>fs_db := Some db'\<rparr>) (if f at nm = None then dir_put f at nm (Some ?st) else f)"
      using CheckAndPut_stored [of "k + n" s f at nm ?st stats] Suc.prems(1,3) fits(1) by auto
    show ?thesis
    proof (cases "f at nm = None")
      case True
      show ?thesis
        using Suc.IH [of "s\<lparr>fs_db := Some db'\<rparr>" "dir_put f at nm (Some ?st)" r "Suc m" p'] c opened_db [OF Suc.prems(2)]
          Suc.prems(3) fits True Some x by (auto split: prod.splits)
    next
      case False
      then show ?thesis using c stored_le [OF c(2), of n] opened_db [OF Suc.prems(2)] Some x by auto
    qed
  qed
qed

lemma Mknos1_stored:
  assumes s: "stored frep (unat n + k) s f" and q: "opened (DirId_LookupStat p) a {} s" and ok: "dir_ok (DirId_LookupStat p)" "name_ok namearr"
  shows "let at = DirId_LookupStat p; c = check_status (fs_options s) (IsDirWriteOk (fs_options s) p who) ''No write perm'' None p now
    in case create_names f at (\<lambda>j. stat\<lparr>InodeNo := startino + word_of_nat j\<rparr>) 0 (names_in (unat n) namearr) of (m, r, f') \<Rightarrow>
      \<exists>stats' s'. Mknos1 X now who at namearr startino p a stat n stats s =
          Some (if \<not> ok c then (c, n, stats', s') else (r, word_of_nat m, stats', s')) \<and>
        opened at a {} s' \<and> inoq s' = inoq s \<and> fs_options s' = fs_options s \<and> stored frep k s' (if \<not> ok c then f else f')"
proof -
  let ?at = "DirId_LookupStat p" and ?c = "check_status (fs_options s) (IsDirWriteOk (fs_options s) p who) ''No write perm'' None p now"
  obtain m r f' where mk: "create_names f ?at (\<lambda>j. stat\<lparr>InodeNo := startino + word_of_nat j\<rparr>) 0 (names_in (unat n) namearr) = (m, r, f')"
    by (metis surj_pair)
  obtain s1 where s1: "check_dir (IsDirWriteOk (fs_options s) p who) ''No write perm'' None p now a s = Some (?c, s1)"
    "opened ?at a {} s1" "same_rest s s1"
    using opened_check [OF q] by blast
  have st1: "stored frep (unat n + k) s1 f" by (rule stored_rest [OF s s1(3)])
  have r1: "inoq s1 = inoq s" "fs_options s1 = fs_options s" using s1(3) by (simp_all add: same_rest_def)
  obtain s2 where s2: "lock_ways a all_ways s1 = Some s2" "opened ?at a (set all_ways \<union> {}) s2" "same_rest s1 s2"
    using opened_lock_ways [OF s1(2), of all_ways] by (force simp: all_ways_def atLeast0LessThan)
  obtain p' s3 where s3: "put_names X ?at startino (unat n) 0 namearr stat stats s2 = Some (m, r, p', s3)" "opened ?at a (set all_ways \<union> {}) s3"
    "inoq s3 = inoq s2" "fs_options s3 = fs_options s2" "stored frep k s3 f'"
    using put_names_stored [OF stored_rest [OF st1 s2(3)] s2(2) ok, where m = 0 and stat = stat and startino = startino and stats = stats] mk by auto
  obtain s4 where s4: "merge_stats p' a s3 = Some s4" "opened ?at a (set all_ways \<union> {}) s4" "same_rest s3 s4"
    using opened_merge [OF s3(2)] by blast
  obtain s5 where s5: "unlock_ways a all_ways s4 = Some s5" "opened ?at a {} s5" "same_rest s4 s5"
    using opened_unlock [OF s4(2), of all_ways] by auto
  have i5: "inoq s5 = inoq s" "fs_options s5 = fs_options s"
    using r1 s2(3) s3(3,4) s4(3) s5(3) by (simp_all add: same_rest_def)
  show ?thesis
  proof (cases "ok ?c")
    case False
    then show ?thesis using s1 stored_le [OF st1, of k] r1 mk by (simp add: Mknos1_def Let_def)
  next
    case True
    then show ?thesis
      using s1(1) s2(1) s3(1) s4(1) s5(1,2) i5 stored_rest [OF stored_rest [OF s3(5) s4(3)] s5(3)] mk by (simp add: Mknos1_def Let_def)
  qed
qed

lemma Mkfls_stored:
  assumes s: "stored frep (unat n + k) s f" and q: "quiet_fs s" and ok: "dir_ok (DirId_LookupStat p)" "name_ok namearr"
  shows "case create_batch (fs_options s) f p who namearr mode n now (inoq s) of (st, m, i, f') \<Rightarrow>
    \<exists>s'. Mkfls X now who p namearr mode n s = Some (st, m, s') \<and> quiet_fs s' \<and> fs_options s' = fs_options s \<and> inoq s' = i \<and> stored frep k s' f'"
proof -
  let ?at = "DirId_LookupStat p" and ?c = "check_status (fs_options s) (IsDirWriteOk (fs_options s) p who) ''No write perm'' None p now"
  let ?stat = "new_Stat (fs_options s) who (file_mode mode) (- 1) 0"
  have stat: "?stat\<lparr>InodeNo := j\<rparr> = new_Stat (fs_options s) who (file_mode mode) (- 1) j" for j by (simp add: new_Stat_def)
  obtain m r f' where mk: "create_names f ?at (\<lambda>j. new_Stat (fs_options s) who (file_mode mode) (- 1) (inoq s + 1 + word_of_nat j)) 0
      (names_in (unat n) namearr) = (m, r, f')"
    by (metis surj_pair)
  have "unat n < 2 ^ 32" using unsigned_less [of n] by simp
  then have m: "m < 2 ^ 32" using create_names_bound [OF mk] length_names_in [of "unat n" namearr] by simp
  obtain a s1 where s1: "AcquireDir ?at s = Some (a, s1)" "opened ?at a {} s1" "same_rest s s1" using opened_acquire [OF q] by blast
  let ?s1 = "s1\<lparr>inoq := inoq s1 + ucast n\<rparr>"
  have r1: "inoq s1 = inoq s" "fs_options s1 = fs_options s" using s1(3) by (simp_all add: same_rest_def)
  have st1: "stored frep (unat n + k) ?s1 f" using stored_rest [OF s s1(3)] by (simp add: stored_def)
  have o1: "fs_options ?s1 = fs_options s" using r1 by simp
  obtain p' s2 where s2: "Mknos1 X now who ?at namearr (inoq s + 1) p a ?stat n new_stats ?s1 =
      Some (if \<not> ok ?c then (?c, n, p', s2) else (r, word_of_nat m, p', s2))"
    "opened ?at a {} s2" "inoq s2 = inoq ?s1" "fs_options s2 = fs_options ?s1" "stored frep k s2 (if \<not> ok ?c then f else f')"
    using Mknos1_stored [OF st1 opened_inoq [OF s1(2)] ok, where who = who and now = now and stat = ?stat and startino = "inoq s + 1" and stats = new_stats]
      mk unfolding stat o1 Let_def by auto
  let ?i = "inoq s + ucast n"
  let ?s3 = "if \<not> ok ?c then TryReuseIno ?i 0 s2 else if \<not> ok r then TryReuseIno ?i (ucast n - word_of_nat m) s2 else s2"
  have q3: "opened ?at a {} ?s3" using s2(2) opened_inoq [OF s2(2)] by (simp add: TryReuseIno_def)
  obtain s4 where s4: "Release a ?s3 = Some s4" "quiet_fs s4" "same_rest ?s3 s4" using opened_release [OF q3] by blast
  have i3: "inoq ?s3 = (if \<not> ok ?c \<or> ok r then ?i else inoq s + word_of_nat m)" using s2(3) r1 by (simp add: TryReuseIno_def)
  have o3: "fs_options ?s3 = fs_options s" using s2(4) r1 by (simp add: TryReuseIno_def)
  have st3: "stored frep k ?s3 (if \<not> ok ?c then f else f')"
    using s2(5) by (cases "ok ?c"; cases "ok r") (simp_all add: stored_def TryReuseIno_def)
  have um: "ucast (word_of_nat m :: u32) = (word_of_nat m :: u64)"
    using m by (simp add: unsigned_of_nat take_bit_nat_eq_self unsigned_ucast_eq word_eq_iff_unsigned)
  have "Mkfls X now who p namearr mode n s = Some (if \<not> ok ?c then (?c, n, s4) else (r, word_of_nat m, s4))"
    using s1(1) s2(1) s4(1) r1 um unfolding Mkfls_def by (cases "ok ?c"; cases "ok r") (simp_all add: Let_def algebra_simps)
  moreover have "inoq s4 = (if \<not> ok ?c \<or> ok r then ?i else inoq s + word_of_nat m)" "fs_options s4 = fs_options s"
    using i3 o3 s4(3) unfolding same_rest_def by metis+
  moreover have "stored frep k s4 (if \<not> ok ?c then f else f')" by (rule stored_rest [OF st3 s4(3)])
  ultimately show ?thesis using s4(2) mk unfolding create_batch_def Let_def by (cases "ok ?c") simp_all
qed

end

section \<open>Properties\<close>

text \<open>A server with one directory partition over an empty store, and a parent directory that everybody may use.\<close>

definition sample_fs :: "unit DBImpl Filesystem" where
  "sample_fs = new_Filesystem default_FilesystemOptions (Some (new_DBImpl () 3)) []"

definition sample_parent :: LookupStat where
  "sample_parent = \<lparr>lDnodeNo = 0, lInodeNo = 1, LeaseDue = 5, DirMode = 0x41FF, lZerothServer = 0, lUserId = 0, lGroupId = 0\<rparr>"

definition sample_user :: User where
  "sample_user = \<lparr>uid = 7, gid = 7\<rparr>"

lemma sample_ok: "dir_ok (DirId_LookupStat sample_parent)" "name_ok [97]" "name_ok [98]"
  by (simp_all add: sample_parent_def dir_ok_def name_ok_def DirId_LookupStat_def)

lemma sample_fs_ok:
  "quiet_fs sample_fs" "n < 2 ^ 56 \<Longrightarrow> stored (fsdb_rep plain_env plain_options) n sample_fs (\<lambda>_ _. None)" "inoq sample_fs = 0"
  "fs_options sample_fs = default_FilesystemOptions"
proof -
  have "opts_ok default_FilesystemOptions" by (auto simp: opts_ok_def default_FilesystemOptions_def intro: exI [of _ 0])
  then have "ready_inv sample_fs" unfolding sample_fs_def by (intro new_ready) simp_all
  then show "quiet_fs sample_fs" using new_Filesystem_inv unfolding quiet_fs_def sample_fs_def by (simp add: new_Filesystem_def)
  show "stored (fsdb_rep plain_env plain_options) n sample_fs (\<lambda>_ _. None)" if "n < 2 ^ 56"
    using new_fsdb_rep [OF that, of 3] by (simp add: stored_def sample_fs_def new_Filesystem_def default_FilesystemOptions_def)
  show "inoq sample_fs = 0" "fs_options sample_fs = default_FilesystemOptions" by (simp_all add: sample_fs_def new_Filesystem_def)
qed

lemma sample_check: "now \<le> 5 \<Longrightarrow> check_status default_FilesystemOptions True msg nm sample_parent now = Okay"
  by (simp add: check_status_def IsLeaseOk_def sample_parent_def default_FilesystemOptions_def name_server_def split: option.split)

lemma sample_access: "IsDirWriteOk default_FilesystemOptions sample_parent who" "IsLookupOk default_FilesystemOptions sample_parent who"
  by (simp_all add: IsDirWriteOk_def IsLookupOk_def sample_parent_def default_FilesystemOptions_def S_IWOTH_def S_IXOTH_def S_IWUSR_def S_IWGRP_def
      S_IXUSR_def S_IXGRP_def Let_def)







text \<open>
  C9. A batch that is refused wastes inode numbers. When the lease or the permission check of \<^verbatim>\<open>Mkfls\<close> fails, over any
  store, nothing is written, but the count \<open>n\<close> is returned unchanged and \<^verbatim>\<open>TryReuseIno\<close> gives back the difference to it,
  which is nothing: the inode counter stays \<open>n\<close> higher. \<^verbatim>\<open>Mkfle\<close> and \<^verbatim>\<open>Mkdir\<close> leave the counter as it was.
\<close>

theorem refused_batch_wastes_inode_numbers:
  assumes "quiet_fs s" and "\<not> ok (check_status (fs_options s) (IsDirWriteOk (fs_options s) p who) ''No write perm'' None p now)"
  shows "(\<exists>st s'. Mkfls X now who p namearr mode n s = Some (st, n, s') \<and> \<not> ok st \<and> inoq s' = inoq s + ucast n \<and> fs_db s' = fs_db s) \<and>
    (\<exists>st x s'. Mkfle X now who p nm mode s = Some (st, x, s') \<and> \<not> ok st \<and> inoq s' = inoq s \<and> fs_db s' = fs_db s)"
proof -
  let ?at = "DirId_LookupStat p" and ?c = "\<lambda>nm. check_status (fs_options s) (IsDirWriteOk (fs_options s) p who) ''No write perm'' nm p now"
  obtain a s1 where s1: "AcquireDir ?at s = Some (a, s1)" "opened ?at a {} s1" "same_rest s s1" using opened_acquire [OF assms(1)] by blast
  have r1: "inoq s1 = inoq s" "fs_options s1 = fs_options s" "fs_db s1 = fs_db s" using s1(3) by (simp_all add: same_rest_def)
  have bad: "\<not> ok (?c (Some nm))" using assms(2) by (auto simp: check_status_def split: if_splits)
  obtain s2 where s2: "check_dir (IsDirWriteOk (fs_options s) p who) ''No write perm'' None p now a (s1\<lparr>inoq := inoq s1 + ucast n\<rparr>) = Some (?c None, s2)"
    "opened ?at a {} s2" "same_rest (s1\<lparr>inoq := inoq s1 + ucast n\<rparr>) s2"
    using opened_check [OF opened_inoq [OF s1(2)], where access = "IsDirWriteOk (fs_options s) p who" and msg = "''No write perm''" and
        name = "None" and now = now] r1(2) by fastforce
  obtain s3 where s3: "Release a s2 = Some s3" "same_rest s2 s3" using opened_release [OF s2(2)] by blast
  have same: "TryReuseIno i 0 s2 = s2" for i by (cases s2) (simp add: TryReuseIno_def)
  have "Mkfls X now who p namearr mode n s = Some (?c None, n, s3)"
    using s1(1) s2(1,3) s3(1) r1 assms(2) same by (simp add: Mkfls_def Mknos1_def Let_def same_rest_def)
  moreover have "inoq s3 = inoq s + ucast n" "fs_db s3 = fs_db s" using s2(3) s3(2) r1 by (simp_all add: same_rest_def)
  moreover obtain s4 where s4: "check_dir (IsDirWriteOk (fs_options s) p who) ''No write perm'' (Some nm) p now a (s1\<lparr>inoq := inoq s1 + 1\<rparr>) = Some (?c (Some nm), s4)"
    "opened ?at a {} s4" "same_rest (s1\<lparr>inoq := inoq s1 + 1\<rparr>) s4"
    using opened_check [OF opened_inoq [OF s1(2)], where access = "IsDirWriteOk (fs_options s) p who" and msg = "''No write perm''" and
        name = "Some nm" and now = now] r1(2) by fastforce
  moreover obtain s5 where s5: "Release a (s4\<lparr>inoq := inoq s4 - 1\<rparr>) = Some s5" "same_rest (s4\<lparr>inoq := inoq s4 - 1\<rparr>) s5"
    using opened_release [OF opened_inoq [OF s4(2)]] by blast
  moreover have "\<exists>x. Mkfle X now who p nm mode s = Some (?c (Some nm), x, s5)"
    using s1(1) s4(1,3) s5(1) r1 bad by (simp add: Mkfle_def mknod_def Mknod1_def TryReuseIno_def Let_def same_rest_def)
  moreover have "inoq s5 = inoq s" "fs_db s5 = fs_db s" using s4(3) s5(2) r1 by (simp_all add: same_rest_def)
  ultimately show ?thesis using assms(2) bad by blast
qed

lemma refused_batch_wastes_inode_numbers_witness:
  "\<exists>st s'. Mkfls (fsdb_if plain_env plain_options (\<lambda>_ d. (Okay, d))) 6 sample_user sample_parent [] 0 100 sample_fs = Some (st, 100, s') \<and>
     \<not> ok st \<and> inoq s' = 100"
  using refused_batch_wastes_inode_numbers [OF sample_fs_ok(1), where p = sample_parent and who = sample_user and now = 6 and n = 100 and
      X = "fsdb_if plain_env plain_options (\<lambda>_ d. (Okay, d))" and namearr = "[]" and mode = 0]
  by (fastforce simp: sample_fs_ok check_status_def IsLeaseOk_def sample_parent_def default_FilesystemOptions_def)

end
