(* ===== verification/Fs_Close.thy ===== *)
theory Fs_Close
  imports Fs_Handlers
begin

text \<open>
  Opening and closing the server: \<^verbatim>\<open>SetDb\<close>, \<^verbatim>\<open>SetReadonlyDbs\<close> and the destructors of \<^verbatim>\<open>fs.cc\<close> and \<^verbatim>\<open>lru.h\<close>. \<open>None\<close> is
  a failed assertion: a reference that was not given back.
\<close>

section \<open>Operations\<close>

definition SetDb :: "'db option \<Rightarrow> 'db Filesystem \<Rightarrow> 'db Filesystem" where
  "SetDb db s = s\<lparr>fs_db := db\<rparr>"

definition SetReadonlyDbs :: "ro_get list \<Rightarrow> 'db Filesystem \<Rightarrow> 'db Filesystem" where
  "SetReadonlyDbs ros s = s\<lparr>readonly_dbs := ros\<rparr>"

text \<open>The loop of \<^verbatim>\<open>~LRUCache\<close> over the idle entries.\<close>

fun delete_entries :: "nat list \<Rightarrow> 'v LRUCache \<Rightarrow> 'v LRUCache option" where
  "delete_entries [] c = Some c"
| "delete_entries (h # hs) c =
     (case entries c h of
        None \<Rightarrow> None
      | Some e \<Rightarrow>
          if l_refs e = 1 \<and> l_in_cache e
          then (case Unref (c\<lparr>entries := (entries c)(h \<mapsto> e\<lparr>l_in_cache := False\<rparr>)\<rparr>) h of
                  None \<Rightarrow> None
                | Some c \<Rightarrow> delete_entries hs c)
          else None)"

definition delete_LRUCache :: "'v LRUCache \<Rightarrow> 'v LRUCache option" where
  "delete_LRUCache c = (if in_use c = [] then delete_entries (lru c) c else None)"

text \<open>What is left in memory afterwards is the result.\<close>

definition delete_Filesystem :: "'db Filesystem \<Rightarrow> 'db Filesystem option" where
  "delete_Filesystem s = do {
     c \<leftarrow> delete_LRUCache (dlru s);
     s \<leftarrow> run_deleters c s;
     if HashTable_Empty (dirs s) then Some s else None}"

section \<open>Closing is clean\<close>

lemma delete_entries_ok:
  assumes "distinct hs" and "\<And>h. h \<in> set hs \<Longrightarrow> \<exists>e. entries c h = Some e \<and> idle e"
  shows "\<exists>d. delete_entries hs c = Some d \<and> entries d = (\<lambda>h. if h \<in> set hs then None else entries c h) \<and>
    deleter_calls d = deleter_calls c @ map (\<lambda>h. (l_key (the (entries c h)), l_value (the (entries c h)))) hs"
  using assms
proof (induction hs arbitrary: c)
  case (Cons h hs)
  obtain e where e: "entries c h = Some e" "l_in_cache e" "l_refs e = 1" using Cons.prems(2) [of h] by (auto simp: idle_def)
  let ?e = "e\<lparr>l_in_cache := False, l_refs := 0\<rparr>"
  obtain c1 where c1: "Unref (c\<lparr>entries := (entries c)(h \<mapsto> e\<lparr>l_in_cache := False\<rparr>)\<rparr>) h = Some c1"
    "entries c1 = (entries c)(h := None)" "deleter_calls c1 = deleter_calls c @ [(l_key e, l_value e)]"
    using e by (simp add: Unref_def LRU_Remove_def Let_def)
  have "\<exists>e. entries c1 k = Some e \<and> idle e" if "k \<in> set hs" for k
    using Cons.prems that c1(2) by (cases "k = h") auto
  then obtain d where d: "delete_entries hs c1 = Some d" "entries d = (\<lambda>k. if k \<in> set hs then None else entries c1 k)"
    "deleter_calls d = deleter_calls c1 @ map (\<lambda>k. (l_key (the (entries c1 k)), l_value (the (entries c1 k)))) hs"
    using Cons.IH [of c1] Cons.prems(1) by auto
  have "map (\<lambda>k. (l_key (the (entries c1 k)), l_value (the (entries c1 k)))) hs =
      map (\<lambda>k. (l_key (the (entries c k)), l_value (the (entries c k)))) hs"
    using Cons.prems(1) c1(2) by auto
  then show ?case using d c1 e by (auto simp: fun_eq_iff)
qed simp

lemma indexed_none: "indexed t B \<Longrightarrow> B = (\<lambda>_. None) \<Longrightarrow> HashTable_Empty t"
proof -
  assume i: "indexed t B" and B: "B = (\<lambda>_. None)"
  have "ht_map t = (\<lambda>_. None)" using i B unfolding indexed_def by (metis not_Some_eq)
  moreover have "ht_inv t" using i by (simp add: indexed_def)
  ultimately show ?thesis using ht_elems_card [of t] by (simp add: HashTable_Empty_def)
qed

lemma delete_Filesystem_ok:
  assumes inv: "fs_inv (\<lambda>_. 0) s"
  shows "\<exists>s'. delete_Filesystem s = Some s' \<and> blks s' = (\<lambda>_. None) \<and> entries (dlru s') = (\<lambda>_. None) \<and> same_rest s s'"
proof -
  let ?c = "dlru s"
  have l: "lru_inv0 {} ?c" using fs_invD(1) [OF inv] by (simp add: lru_inv_def)
  have idle: "idle e" if e: "entries ?c h = Some e" for h e
  proof -
    obtain b where b: "blks s (l_value e) = Some b" "b_handle b = Some h" using fs_invD(4) [OF inv e] by blast
    have "ext e = 0" using fs_invD(3) [OF inv b(1)] b(2) e by (auto simp: blk_ok_def)
    moreover have "0 < l_refs e" using l e by (simp add: lru_inv0_def)
    ultimately show ?thesis by (auto simp: ext_def idle_def split: if_splits)
  qed
  have sets: "set (in_use ?c) = {h. \<exists>e. entries ?c h = Some e \<and> \<not> idle e}" "set (lru ?c) = {h. \<exists>e. entries ?c h = Some e \<and> idle e}"
    "distinct (lru ?c)"
    using l by (simp_all add: lru_inv0_def)
  have "set (in_use ?c) = {}" unfolding sets(1) using idle by blast
  then have use: "in_use ?c = []" by simp
  have lru: "set (lru ?c) = {h. entries ?c h \<noteq> None}" "distinct (lru ?c)" unfolding sets(2) using idle sets(3) by auto
  let ?f = "\<lambda>h. (l_key (the (entries ?c h)), l_value (the (entries ?c h)))"
  obtain d where d: "delete_LRUCache ?c = Some d" "entries d = (\<lambda>_. None)" "deleter_calls d = deleter_calls ?c @ map ?f (lru ?c)"
  proof -
    obtain d where d: "delete_entries (lru ?c) ?c = Some d" "entries d = (\<lambda>h. if h \<in> set (lru ?c) then None else entries ?c h)"
      "deleter_calls d = deleter_calls ?c @ map ?f (lru ?c)"
      using delete_entries_ok [OF lru(2), of ?c] sets(2) by auto
    have "entries d = (\<lambda>_. None)" using d(2) lru(1) by auto
    then show thesis using that d(1,3) use by (simp add: delete_LRUCache_def)
  qed
  let ?xs = "map ?f (lru ?c)"
  have "inj_on (\<lambda>h. l_value (the (entries ?c h))) (set (lru ?c))"
    using lru(1) fs_inv_value_inj [OF inv] by (auto simp: inj_on_def)
  then have dist: "distinct (map snd ?xs)" using lru(2) by (simp add: distinct_map o_def)
  have key: "\<exists>b. blks s a = Some b \<and> b_key b = k" if ka: "(k, a) \<in> set ?xs" for k a
  proof -
    obtain h e where e: "entries ?c h = Some e" "k = l_key e" "a = l_value e" using ka lru(1) by auto
    obtain b where b: "blks s (l_value e) = Some b" "b_handle b = Some h" using fs_invD(4) [OF inv e(1)] by blast
    have "l_tag e = b_tag b" using fs_invD(3) [OF inv b(1)] b(2) e(1) by (auto simp: blk_ok_def)
    then show ?thesis using b(1) e by (auto simp: l_tag_def b_tag_def)
  qed
  let ?s = "s\<lparr>dlru := d\<rparr>"
  obtain s' where s': "DeleteDirs ?xs ?s = Some s'" "indexed (dirs s') (blks s')"
    "blks s' = (\<lambda>a. if a \<in> snd ` set ?xs then None else blks ?s a)" "dlru s' = dlru ?s" "same_rest ?s s'"
    using DeleteDirs_ok [of ?s ?xs] fs_invD(2) [OF inv] dist key by auto
  have "a \<in> snd ` set ?xs" if b: "blks s a = Some b" for a b
  proof -
    obtain h e where "entries ?c h = Some e" "l_value e = a" using fs_invD(3) [OF inv b] by (auto simp: blk_ok_def)
    then show ?thesis using lru(1) by force
  qed
  then have none: "blks s' = (\<lambda>_. None)" using s'(3) by (fastforce simp: fun_eq_iff)
  have "run_deleters d s = Some s'" using s'(1) d(3) by (simp add: run_deleters_def)
  then have "delete_Filesystem s = Some s'" using d(1) indexed_none [OF s'(2) none] by (simp add: delete_Filesystem_def)
  then show ?thesis using none s'(4,5) d(2) by (auto simp: same_rest_def)
qed

lemma refs_done: "\<forall>t \<in> set ts. \<exists>st r. t = Done st r \<Longrightarrow> refs ts = (\<lambda>_. 0)"
  by (fastforce simp: refs_def holds_def fun_eq_iff filter_empty_conv)

lemma held_block_in_use:
  assumes inv: "fs_inv R s" and r: "0 < R a"
  shows "in_use (dlru s) \<noteq> []"
proof -
  obtain b where b: "blks s a = Some b" using fs_inv_live [OF inv r] by blast
  obtain h e where e: "entries (dlru s) h = Some e" "ext e = R a" using fs_invD(3) [OF inv b] by (auto simp: blk_ok_def)
  have "\<not> idle e" using e(2) r by (auto simp: idle_def ext_def)
  moreover have "set (in_use (dlru s)) = {h. \<exists>e. entries (dlru s) h = Some e \<and> \<not> idle e}"
    using fs_invD(1) [OF inv] by (simp add: lru_inv_def lru_inv0_def)
  ultimately show ?thesis using e(1) by force
qed

section \<open>Properties\<close>

text \<open>
  C10. Closing the server. In every state that the interleaved handlers reach: when all calls are answered, the destructor
  runs without a failed assertion, every control block is freed and no entry of the cache is left; while some handler
  still holds a directory, the assertion of \<^verbatim>\<open>~LRUCache\<close> fails, so no block is freed under a handler that uses it.
\<close>

theorem server_closes_cleanly:
  assumes "fs_reachable X P n (new_Filesystem opts db ros, []) (s, ts)"
  shows "((\<forall>t \<in> set ts. \<exists>st r. t = Done st r) \<longrightarrow>
       (\<exists>s'. delete_Filesystem s = Some s' \<and> blks s' = (\<lambda>_. None) \<and> entries (dlru s') = (\<lambda>_. None))) \<and>
     ((\<exists>t \<in> set ts. task_of t \<noteq> None) \<longrightarrow> delete_Filesystem s = None)"
proof -
  have inv: "fs_inv (refs ts) s" using conc_invD(1) [OF conc_inv_reachable [OF assms new_conc_inv]] .
  have "delete_Filesystem s = None" if t: "t \<in> set ts" "task_of t \<noteq> None" for t
  proof -
    obtain i k where "i < length ts" "task_of (ts ! i) = Some k" using t by (metis in_set_conv_nth not_None_eq)
    then have "0 < refs ts (t_dir k)" by (rule refs_pos)
    then show ?thesis using held_block_in_use [OF inv] by (simp add: delete_Filesystem_def delete_LRUCache_def)
  qed
  then show ?thesis using delete_Filesystem_ok [of s] inv refs_done [of ts] by auto
qed

lemma server_closes_cleanly_witness:
  "\<forall>(X :: 'db FsDb) opts db ros. \<exists>s ts. fs_reachable X call_ok 4 (new_Filesystem opts db ros, []) (s, ts) \<and> delete_Filesystem s = None"
proof (intro allI)
  fix X :: "'db FsDb" and opts db ros
  obtain s k k' where "fs_reachable X call_ok 4 (new_Filesystem opts db ros, []) (s, [Check k, Check k'])" using two_started by blast
  then show "\<exists>s ts. fs_reachable X call_ok 4 (new_Filesystem opts db ros, []) (s, ts) \<and> delete_Filesystem s = None"
    using server_closes_cleanly by fastforce
qed

end
