(* ===== verification/Block_Pool.thy ===== *)
theory Block_Pool
  imports Fs_Close
begin

text \<open>
  Pools of control blocks, as the client keeps them for directory partitions and for leases: blocks in a heap, a hash
  table of all of them and an LRU cache that holds the idle ones back. \<open>V\<close> is what a pool sees of its heap: for the
  address of a block its tag, the handle of its cache entry and whether the block has been taken out of the table;
  \<open>R\<close> counts the references that are held. The cache and the table are looked at one by one.
\<close>

type_synonym block_view = "nat \<Rightarrow> ((u32 \<times> slice) \<times> nat \<times> bool) option"

definition cache_inv :: "(nat \<Rightarrow> nat) \<Rightarrow> nat LRUCache \<Rightarrow> block_view \<Rightarrow> bool" where
  "cache_inv R c V \<longleftrightarrow>
     lru_inv c \<and>
     (\<forall>a tg h out. V a = Some (tg, h, out) \<longrightarrow>
        (\<exists>e. entries c h = Some e \<and> l_value e = a \<and> l_tag e = tg \<and> ext e = R a \<and> (out \<longrightarrow> \<not> l_in_cache e))) \<and>
     (\<forall>h e. entries c h = Some e \<longrightarrow> (\<exists>tg out. V (l_value e) = Some (tg, h, out))) \<and>
     (\<forall>a. V a = None \<longrightarrow> R a = 0)"

definition tab_inv :: "nat HashTable \<Rightarrow> block_view \<Rightarrow> bool" where
  "tab_inv t V \<longleftrightarrow> ht_inv t \<and> (\<forall>hk a. ht_map t hk = Some a \<longleftrightarrow> (\<exists>h. V a = Some (hk, h, False)))"

section \<open>The table\<close>

lemma tab_inv_ht: "tab_inv t V \<Longrightarrow> ht_inv t"
  by (simp add: tab_inv_def)

lemma tab_invD: "tab_inv t V \<Longrightarrow> ht_map t hk = Some a \<longleftrightarrow> (\<exists>h. V a = Some (hk, h, False))"
  by (simp only: tab_inv_def)

lemma tab_inv_listed: "tab_inv t V \<Longrightarrow> V a = Some (tg, h, False) \<Longrightarrow> ht_map t tg = Some a"
  by (auto simp: tab_invD)

lemma tab_inv_map:
  assumes "ht_inv t'" and "\<And>hk a. ht_map t' hk = Some a \<longleftrightarrow> (\<exists>h. V a = Some (hk, h, False))"
  shows "tab_inv t' V"
  using assms by (simp add: tab_inv_def)

text \<open>Taking a listed block out of the table; the block leaves the heap or is marked.\<close>

lemma tab_inv_Remove:
  assumes t: "tab_inv t V" and a: "V a = Some (tg, h, False)" and v: "v = None \<or> (\<exists>k. v = Some (tg, k, True))"
  shows "tab_inv (fst (Remove_key t (snd tg) (fst tg))) (V(a := v))"
proof (rule tab_inv_map)
  have ht: "ht_inv t" using t by (rule tab_inv_ht)
  show "ht_inv (fst (Remove_key t (snd tg) (fst tg)))" using Remove_key_ok [OF ht] by blast
  have M: "ht_map (fst (Remove_key t (snd tg) (fst tg))) = (ht_map t)(tg := None)" using ht_map_Remove [OF ht] by simp
  have m: "ht_map t tg = Some a" using tab_inv_listed [OF t a] .
  fix hk x
  have "hk = tg" if "V a = Some (hk, k, False)" for k using that a by simp
  moreover have "hk \<noteq> tg" if "V x = Some (hk, k, False)" "x \<noteq> a" for k
    using tab_inv_listed [OF t that(1)] m that(2) by auto
  ultimately show "ht_map (fst (Remove_key t (snd tg) (fst tg))) hk = Some x \<longleftrightarrow> (\<exists>h. (V(a := v)) x = Some (hk, h, False))"
    using tab_invD [OF t, of hk x] v unfolding M by auto
qed

lemma Remove_ent_listed:
  assumes t: "tab_inv t V" and a: "V a = Some (tg, h, False)" and e: "e_ptr e = a" "tag e = tg"
  shows "fst (Remove_ent t e) = fst (Remove_key t (snd tg) (fst tg))"
proof -
  have m: "ht_map t tg = Some a" using tab_inv_listed [OF t a] .
  then obtain f where f: "ht_lookup t (snd tg) (fst tg) = Some f" "e_ptr f = a" by (auto simp: ht_map_def)
  show ?thesis using f e by (auto simp: Remove_ent_eq tag_def)
qed

lemma Remove_ent_out:
  assumes t: "tab_inv t V" and a: "\<And>h. V a \<noteq> Some (tg, h, False)" and e: "e_ptr e = a" "tag e = tg"
  shows "Remove_ent t e = (t, None)"
proof -
  have "ht_map t tg \<noteq> Some a" using a tab_invD [OF t, of tg a] by auto
  then show ?thesis using e by (auto simp: Remove_ent_eq ht_map_def tag_def split: option.split)
qed

lemma tab_inv_out:
  assumes "tab_inv t V" and "V a = Some (tg, h, True)" and "v = None \<or> v = Some (tg, k, True)"
  shows "tab_inv t (V(a := v))"
  unfolding tab_inv_def
proof (intro conjI allI)
  show "ht_inv t" using assms(1) by (rule tab_inv_ht)
  fix hk x
  show "(ht_map t hk = Some x) = (\<exists>h. (V(a := v)) x = Some (hk, h, False))"
    using tab_invD [OF assms(1), of hk x] assms(2,3) by (cases "x = a") auto
qed

lemma tab_inv_Insert:
  assumes t: "tab_inv t V" and a: "V a = None" and new: "ht_map t tg = None" and e: "e_ptr e = a" "tag e = tg"
  shows "tab_inv (fst (HashTable_Insert t e)) (V(a \<mapsto> (tg, h, False)))"
proof (rule tab_inv_map)
  have ht: "ht_inv t" using t by (rule tab_inv_ht)
  show "ht_inv (fst (HashTable_Insert t e))" using HashTable_Insert_ok [OF ht] by blast
  have M: "ht_map (fst (HashTable_Insert t e)) = (ht_map t)(tg \<mapsto> a)" using ht_map_Insert [OF ht, of e] e by simp
  fix hk x
  show "ht_map (fst (HashTable_Insert t e)) hk = Some x \<longleftrightarrow> (\<exists>k. (V(a \<mapsto> (tg, h, False))) x = Some (hk, k, False))"
    using tab_invD [OF t, of hk x] tab_invD [OF t, of hk a] a new unfolding M by auto
qed

lemma tab_inv_handle:
  assumes "tab_inv t V" and "V a = Some (tg, h, out)"
  shows "tab_inv t (V(a \<mapsto> (tg, k, out)))"
  unfolding tab_inv_def
proof (intro conjI allI)
  show "ht_inv t" using assms(1) by (rule tab_inv_ht)
  fix hk x
  show "(ht_map t hk = Some x) = (\<exists>h. (V(a \<mapsto> (tg, k, out))) x = Some (hk, h, False))"
    using tab_invD [OF assms(1), of hk x] assms(2) by (cases "x = a") auto
qed

lemma tab_inv_new: "tab_inv new_HashTable (\<lambda>_. None)"
  by (simp add: tab_inv_def new_HashTable_ok ht_map_new)

lemma tab_inv_empty: "tab_inv t V \<Longrightarrow> (\<And>a. V a = None \<or> (\<exists>tg h. V a = Some (tg, h, True))) \<Longrightarrow> HashTable_Empty t"
proof -
  assume t: "tab_inv t V" and V: "\<And>a. V a = None \<or> (\<exists>tg h. V a = Some (tg, h, True))"
  have "ht_map t hk = None" for hk
  proof (cases "ht_map t hk")
    case (Some a)
    then obtain h where "V a = Some (hk, h, False)" using tab_invD [OF t] by blast
    then show ?thesis using V [of a] by simp
  qed simp
  then have "ht_map t = (\<lambda>_. None)" by (simp add: fun_eq_iff)
  then show ?thesis using ht_elems_card [OF tab_inv_ht [OF t]] by (simp add: HashTable_Empty_def)
qed

section \<open>The cache\<close>

lemma cache_invD:
  assumes "cache_inv R c V"
  shows "lru_inv c"
    and "\<And>a tg h out. V a = Some (tg, h, out) \<Longrightarrow>
      \<exists>e. entries c h = Some e \<and> l_value e = a \<and> l_tag e = tg \<and> ext e = R a \<and> (out \<longrightarrow> \<not> l_in_cache e)"
    and "\<And>h e. entries c h = Some e \<Longrightarrow> \<exists>tg out. V (l_value e) = Some (tg, h, out)"
    and "\<And>a. V a = None \<Longrightarrow> R a = 0"
  using assms unfolding cache_inv_def by blast+

lemma cache_inv_entry:
  assumes "cache_inv R c V" and "entries c h = Some e"
  shows "\<exists>out. V (l_value e) = Some (l_tag e, h, out) \<and> ext e = R (l_value e) \<and> (out \<longrightarrow> \<not> l_in_cache e)"
proof -
  obtain tg out where v: "V (l_value e) = Some (tg, h, out)" using cache_invD(3) [OF assms] by blast
  then show ?thesis using cache_invD(2) [OF assms(1) v] assms(2) by auto
qed

lemma cache_inv_value_inj:
  assumes "cache_inv R c V" and "entries c h = Some e" "entries c k = Some f" "l_value e = l_value f"
  shows "h = k"
  using cache_invD(3) [OF assms(1,2)] cache_invD(3) [OF assms(1,3)] assms(4) by auto

lemma cache_inv_pos: "cache_inv R c V \<Longrightarrow> entries c h = Some e \<Longrightarrow> 0 < l_refs e"
  using lru_inv0D(3) by (auto simp: cache_inv_def lru_inv_def)

text \<open>The cache after a change of one entry, whose references become \<open>r\<close>.\<close>

lemma cache_inv_refs:
  assumes inv: "cache_inv R c V" and d: "lru_inv d" "entries d = (entries c)(h \<mapsto> f)"
    and e: "entries c h = Some e" "l_value f = l_value e" "l_tag f = l_tag e" "ext f = r" "l_in_cache f \<longrightarrow> l_in_cache e"
  shows "cache_inv (R(l_value e := r)) d V"
  unfolding cache_inv_def
proof (intro conjI allI impI)
  show "lru_inv d" by (rule d(1))
  fix a tg k out
  assume a: "V a = Some (tg, k, out)"
  then obtain g where g: "entries c k = Some g" "l_value g = a" "l_tag g = tg" "ext g = R a" "out \<longrightarrow> \<not> l_in_cache g"
    using cache_invD(2) [OF inv] by blast
  show "\<exists>g. entries d k = Some g \<and> l_value g = a \<and> l_tag g = tg \<and> ext g = (R(l_value e := r)) a \<and> (out \<longrightarrow> \<not> l_in_cache g)"
  proof (cases "k = h")
    case True
    then have "g = e" using g(1) e(1) by simp
    then show ?thesis using True g(2,3,5) e(2-5) by (intro exI [of _ f]) (auto simp: d(2))
  next
    case False
    then have "a \<noteq> l_value e" using cache_inv_value_inj [OF inv g(1) e(1)] g(2) by blast
    then show ?thesis using False g by (intro exI [of _ g]) (simp add: d(2))
  qed
next
  fix k g
  assume "entries d k = Some g"
  then show "\<exists>tg out. V (l_value g) = Some (tg, k, out)"
    using cache_invD(3) [OF inv, of k] cache_invD(3) [OF inv e(1)] e(2) d(2) by (cases "k = h") auto
next
  fix a
  assume "V a = None"
  then show "(R(l_value e := r)) a = 0" using cache_invD(3) [OF inv e(1)] cache_invD(4) [OF inv] by auto
qed

lemma cache_Ref:
  assumes inv: "cache_inv R c V" and a: "V a = Some (tg, h, out)"
  shows "\<exists>d. lru_Ref c h = Some d \<and> cache_inv (R(a := R a + 1)) d V \<and> deleter_calls d = deleter_calls c \<and>
    map_option l_value (entries c h) = Some a"
proof -
  obtain e where e: "entries c h = Some e" "l_value e = a" "l_tag e = tg" "ext e = R a" using cache_invD(2) [OF inv a] by blast
  obtain d where d: "lru_Ref c h = Some d" "lru_inv d" "entries d = (entries c)(h \<mapsto> e\<lparr>l_refs := l_refs e + 1\<rparr>)"
    "deleter_calls d = deleter_calls c"
    using lru_Ref_ok [OF cache_invD(1) [OF inv] e(1)] by metis
  have "cache_inv (R(l_value e := R a + 1)) d V"
    by (rule cache_inv_refs [OF inv d(2,3) e(1)]) (use e cache_inv_pos [OF inv e(1)] in \<open>auto simp: ext_def l_tag_def\<close>)
  then show ?thesis using d e by auto
qed

lemma cache_Lookup_hit:
  assumes inv: "cache_inv R c V" and m: "ht_map (table c) (hash, key) = Some h"
  shows "\<exists>a d e. V a = Some ((hash, key), h, False) \<and> lru_Lookup c key hash = Some (d, Some h) \<and> entries d h = Some e \<and>
    l_value e = a \<and> cache_inv (R(a := R a + 1)) d V \<and> deleter_calls d = deleter_calls c"
proof -
  obtain d e where d: "entries c h = Some e" "l_in_cache e" "l_tag e = (hash, key)" "lru_Lookup c key hash = Some (d, Some h)"
    "lru_inv d" "entries d = (entries c)(h \<mapsto> e\<lparr>l_refs := l_refs e + 1\<rparr>)" "deleter_calls d = deleter_calls c"
    using lru_Lookup_ok [OF cache_invD(1) [OF inv], where hash = hash and key = key] m by auto
  obtain out where v: "V (l_value e) = Some (l_tag e, h, out)" "ext e = R (l_value e)" "out \<longrightarrow> \<not> l_in_cache e"
    using cache_inv_entry [OF inv d(1)] by blast
  have "cache_inv (R(l_value e := R (l_value e) + 1)) d V"
    by (rule cache_inv_refs [OF inv d(5,6,1)]) (use v(2) cache_inv_pos [OF inv d(1)] d(2) in \<open>auto simp: ext_def l_tag_def\<close>)
  then show ?thesis using v d by auto
qed

lemma cache_Lookup_miss:
  "cache_inv R c V \<Longrightarrow> ht_map (table c) (hash, key) = None \<Longrightarrow> lru_Lookup c key hash = Some (c, None)"
  using lru_Lookup_ok [OF cache_invD(1), where hash = hash and key = key] by fastforce

text \<open>A reference is given back: it was one of several, or the block is deleted.\<close>

lemma cache_Release:
  assumes inv: "cache_inv R c V" and a: "V a = Some (tg, h, out)" and r: "0 < R a"
  shows "\<exists>d. lru_Release c h = Some d \<and>
    (deleter_calls d = deleter_calls c \<and> cache_inv (R(a := R a - 1)) d V \<or>
     R a = 1 \<and> deleter_calls d = deleter_calls c @ [(snd tg, a)] \<and> cache_inv (R(a := R a - 1)) d (V(a := None)))"
proof -
  obtain e where e: "entries c h = Some e" "l_value e = a" "l_tag e = tg" "ext e = R a" using cache_invD(2) [OF inv a] by blast
  obtain d where d: "lru_Release c h = Some d" "lru_inv d"
    "if l_refs e = 1 then entries d = (entries c)(h := None) \<and> deleter_calls d = deleter_calls c @ [(l_key e, l_value e)]
     else entries d = (entries c)(h \<mapsto> e\<lparr>l_refs := l_refs e - 1\<rparr>) \<and> deleter_calls d = deleter_calls c"
    using lru_Release_ok [OF cache_invD(1) [OF inv] e(1)] e(4) r by metis
  show ?thesis
  proof (cases "l_refs e = 1")
    case False
    have "cache_inv (R(l_value e := R a - 1)) d V"
      by (rule cache_inv_refs [OF inv d(2) _ e(1), where f = "e\<lparr>l_refs := l_refs e - 1\<rparr>"])
        (use d(3) False e(4) in \<open>auto simp: ext_def l_tag_def\<close>)
    then show ?thesis using d False e(2) by auto
  next
    case True
    have one: "R a = 1" using e(4) r True by (simp add: ext_def split: if_splits)
    have E: "entries d = (entries c)(h := None)" using d(3) True by simp
    have "cache_inv (R(a := R a - 1)) d (V(a := None))"
      unfolding cache_inv_def
    proof (intro conjI allI impI)
      show "lru_inv d" by (rule d(2))
      fix x tg' k o'
      assume "(V(a := None)) x = Some (tg', k, o')"
      then have x: "x \<noteq> a" "V x = Some (tg', k, o')" by (auto split: if_splits)
      obtain g where g: "entries c k = Some g" "l_value g = x" "l_tag g = tg'" "ext g = R x" "o' \<longrightarrow> \<not> l_in_cache g"
        using cache_invD(2) [OF inv x(2)] by blast
      have "k \<noteq> h" using g(1,2) e(1,2) x(1) by auto
      then show "\<exists>g. entries d k = Some g \<and> l_value g = x \<and> l_tag g = tg' \<and> ext g = (R(a := R a - 1)) x \<and> (o' \<longrightarrow> \<not> l_in_cache g)"
        using g x(1) E by auto
    next
      fix k g
      assume "entries d k = Some g"
      then have k: "k \<noteq> h" "entries c k = Some g" using E by (auto split: if_splits)
      have "l_value g \<noteq> a" using cache_inv_value_inj [OF inv k(2) e(1)] k(1) e(2) by auto
      then show "\<exists>tg o'. (V(a := None)) (l_value g) = Some (tg, k, o')" using cache_invD(3) [OF inv k(2)] by simp
    next
      fix x
      assume "(V(a := None)) x = None"
      then show "(R(a := R a - 1)) x = 0" using one cache_invD(4) [OF inv, of x] by (auto split: if_splits)
    qed
    then show ?thesis using d True one e by (auto simp: l_tag_def)
  qed
qed

text \<open>A block that is referenced is taken out of the cache; nothing is deleted.\<close>

lemma cache_Erase:
  assumes inv: "cache_inv R c V" and a: "V a = Some (tg, h, out)" and r: "0 < R a"
  shows "\<exists>d. lru_Erase_entry c h = Some d \<and> deleter_calls d = deleter_calls c \<and> cache_inv R d (V(a \<mapsto> (tg, h, True)))"
proof -
  obtain e where e: "entries c h = Some e" "l_value e = a" "l_tag e = tg" "ext e = R a" using cache_invD(2) [OF inv a] by blast
  have l: "lru_inv0 {} c" and cap: "usage c \<le> lru_capacity c" using cache_invD(1) [OF inv] by (simp_all add: lru_inv_def)
  let ?E = "\<lparr>e_hash = l_hash e, e_key = l_key e, e_ptr = h\<rparr>"
  have start: "lru_Erase_entry c h = (case Remove_ent (table c) ?E of (t, victim) \<Rightarrow>
      case victim of None \<Rightarrow> Some c | Some ent \<Rightarrow> lru_Remove (c\<lparr>table := t\<rparr>) (e_ptr ent))"
    using e(1) by (simp add: lru_Erase_entry_def)
  have key: "cache_inv R d (V(a \<mapsto> (tg, h, True)))"
    if d: "lru_inv d" "entries d = (entries c)(h \<mapsto> f)" "l_value f = a" "l_tag f = tg" "ext f = R a" "\<not> l_in_cache f" for d f
  proof -
    have "cache_inv (R(l_value e := R a)) d V"
      by (rule cache_inv_refs [OF inv d(1,2) e(1)]) (use d(3-6) e(2,3) in simp_all)
    then have i: "cache_inv R d V" using e(2) by simp
    show ?thesis
      unfolding cache_inv_def
    proof (intro conjI allI impI)
      show "lru_inv d" by (rule d(1))
      fix x tg' k o'
      assume x: "(V(a \<mapsto> (tg, h, True))) x = Some (tg', k, o')"
      show "\<exists>g. entries d k = Some g \<and> l_value g = x \<and> l_tag g = tg' \<and> ext g = R x \<and> (o' \<longrightarrow> \<not> l_in_cache g)"
        using x d cache_invD(2) [OF i, of x tg' k o'] by (cases "x = a") auto
    next
      fix k g
      assume k: "entries d k = Some g"
      then obtain tg' o' where "V (l_value g) = Some (tg', k, o')" using cache_invD(3) [OF i] by blast
      then show "\<exists>tg' o'. (V(a \<mapsto> (tg, h, True))) (l_value g) = Some (tg', k, o')"
        using a by (cases "l_value g = a") auto
    next
      fix x
      assume "(V(a \<mapsto> (tg, h, True))) x = None"
      then show "R x = 0" using cache_invD(4) [OF inv] by (auto split: if_splits)
    qed
  qed
  show ?thesis
  proof (cases "l_in_cache e")
    case False
    have "ht_map (table c) (l_tag e) \<noteq> Some h" using lru_inv0D(2) [OF l, of "l_tag e" h] e(1) False by auto
    then have "Remove_ent (table c) ?E = (table c, None)"
      by (auto simp: Remove_ent_eq ht_map_def l_tag_def split: option.split)
    moreover have "entries c = (entries c)(h \<mapsto> e)" using e(1) by auto
    ultimately show ?thesis
      using start key [OF cache_invD(1) [OF inv] _ e(2,3,4) False] by simp
  next
    case True
    have m: "ht_map (table c) (l_tag e) = Some h" using lru_inv0D(2) [OF l] e(1) True by blast
    obtain t ent d where d: "Remove_key (table c) (l_key e) (l_hash e) = (t, Some ent)" "e_ptr ent = h"
      "lru_Remove (c\<lparr>table := t\<rparr>) h = Some d" "lru_inv0 {} d" "usage d + l_charge e = usage c"
      "\<forall>k. k \<noteq> h \<longrightarrow> entries d k = entries c k"
      "1 < l_refs e \<longrightarrow> entries d h = Some (e\<lparr>l_in_cache := False, l_refs := l_refs e - 1\<rparr>)" "evolves c d"
      by (rule lru_drop_ok [OF l e(1) True])
    have r2: "1 < l_refs e" using e(4) r True by (simp add: ext_def)
    let ?f = "e\<lparr>l_in_cache := False, l_refs := l_refs e - 1\<rparr>"
    have E: "entries d = (entries c)(h \<mapsto> ?f)" using d(6,7) r2 by (auto simp: fun_eq_iff)
    have "Remove_ent (table c) ?E = (t, Some ent)"
      using m d(1,2) by (auto simp: Remove_ent_eq ht_map_def l_tag_def split: option.splits)
    then have s: "lru_Erase_entry c h = Some d" using start d(2,3) by simp
    have log: "deleter_calls d = deleter_calls c"
      using d(3) e(1) r2 by (auto simp: lru_Remove_def Unref_def LRU_Remove_def Let_def split: if_splits)
    have "lru_inv d" using d(4,5) cap evolves_capacity [OF d(8)] by (simp add: lru_inv_def)
    then have "cache_inv R d (V(a \<mapsto> (tg, h, True)))"
      by (rule key [OF _ E]) (use e(2-4) r2 True in \<open>auto simp: ext_def l_tag_def\<close>)
    then show ?thesis using s log by blast
  qed
qed

text \<open>A new block enters the cache; blocks that nobody references may be deleted for it.\<close>

definition gone :: "(slice \<times> nat) list \<Rightarrow> block_view \<Rightarrow> block_view" where
  "gone xs V = (\<lambda>x. if x \<in> snd ` set xs then None else V x)"

lemma gone_Nil [simp]: "gone [] V = V"
  by (simp add: gone_def)

lemma gone_Cons: "gone ((k, a) # xs) V = gone xs (V(a := None))"
  by (auto simp: gone_def fun_eq_iff)

definition idle_blocks :: "(nat \<Rightarrow> nat) \<Rightarrow> block_view \<Rightarrow> (slice \<times> nat) list \<Rightarrow> bool" where
  "idle_blocks R V xs \<longleftrightarrow> distinct (map snd xs) \<and>
     (\<forall>(k, a) \<in> set xs. R a = 0 \<and> (\<exists>tg h. V a = Some (tg, h, False) \<and> snd tg = k))"

lemma cache_Insert:
  assumes inv: "cache_inv R c V" and new: "V a = None"
  shows "\<exists>d h xs. lru_Insert c key hash a 1 = Some (d, h) \<and> deleter_calls d = deleter_calls c @ xs \<and>
    idle_blocks R V xs \<and> a \<notin> snd ` set xs \<and>
    cache_inv (R(a := 1)) d ((gone xs V)(a \<mapsto> ((hash, key), h, False)))"
proof -
  obtain d h e where d: "lru_Insert c key hash a 1 = Some (d, h)" "h = next_handle c" "lru_inv d"
    "entries d h = Some e" "l_value e = a" "l_key e = key" "l_hash e = hash" "ext e = 1"
    "evolves (c\<lparr>next_handle := Suc h, entries := (entries c)(h \<mapsto> e)\<rparr>) d"
    using lru_Insert_ok [OF cache_invD(1) [OF inv], of key hash a 1] by metis
  let ?E = "(entries c)(h \<mapsto> e)"
  obtain ks where ks: "distinct ks" "\<And>k. ?E k = None \<Longrightarrow> entries d k = None"
    "deleter_calls d = deleter_calls c @ map (\<lambda>k. (l_key (the (?E k)), l_value (the (?E k)))) ks"
    "\<And>k. k \<in> set ks \<Longrightarrow> entries d k = None \<and> (\<exists>f. ?E k = Some f \<and> idle f)"
    "\<And>k f. ?E k = Some f \<Longrightarrow> k \<notin> set ks \<Longrightarrow> \<exists>g. entries d k = Some g \<and> same_ent f g"
    using d(9) by (auto simp: evolves_def evolves_by_def)
  have hks: "h \<notin> set ks" using ks(4) [of h] d(4) by auto
  let ?f = "\<lambda>k. (l_key (the (entries c k)), l_value (the (entries c k)))"
  let ?xs = "map ?f ks"
  have xs: "map (\<lambda>k. (l_key (the (?E k)), l_value (the (?E k)))) ks = ?xs" using hks by auto
  have kE: "\<exists>f tg. entries c k = Some f \<and> V (l_value f) = Some (tg, k, False) \<and> snd tg = l_key f \<and> R (l_value f) = 0" if k: "k \<in> set ks" for k
  proof -
    obtain f where f: "entries c k = Some f" "idle f" using ks(4) [OF k] hks k by (cases "k = h") auto
    then show ?thesis using cache_inv_entry [OF inv f(1)] by (auto simp: idle_def ext_def l_tag_def)
  qed
  have "inj_on (\<lambda>k. snd (?f k)) (set ks)"
  proof (rule inj_onI)
    fix k k' assume kk: "k \<in> set ks" "k' \<in> set ks" "snd (?f k) = snd (?f k')"
    then show "k = k'" using kE [OF kk(1)] kE [OF kk(2)] by auto
  qed
  then have dist: "distinct (map snd ?xs)" using ks(1) by (simp add: distinct_map o_def)
  have mem: "\<exists>f tg. entries c k = Some f \<and> x = (l_key f, l_value f) \<and> V (l_value f) = Some (tg, k, False) \<and> snd tg = l_key f \<and> R (l_value f) = 0"
    if "x = ?f k" "k \<in> set ks" for x k
    using kE [OF that(2)] that(1) by auto
  have "R x = 0 \<and> (\<exists>tg h. V x = Some (tg, h, False) \<and> snd tg = k)" if kx: "(k, x) \<in> set ?xs" for k x
  proof -
    obtain j where "(k, x) = ?f j" "j \<in> set ks" using kx by auto
    then show ?thesis using mem [of "(k, x)" j] by auto
  qed
  then have idle: "idle_blocks R V ?xs" using dist unfolding idle_blocks_def by blast
  have D: "x \<in> snd ` set ?xs \<longleftrightarrow> (\<exists>k \<in> set ks. x = l_value (the (entries c k)))" for x by (auto simp: image_iff)
  have aD: "a \<notin> snd ` set ?xs"
  proof
    assume "a \<in> snd ` set ?xs"
    then obtain k where "k \<in> set ks" "a = l_value (the (entries c k))" using D by blast
    then show False using kE [of k] new by auto
  qed
  let ?V = "(gone ?xs V)(a \<mapsto> ((hash, key), h, False))"
  have "cache_inv (R(a := 1)) d ?V"
    unfolding cache_inv_def
  proof (intro conjI allI impI)
    show "lru_inv d" by (rule d(3))
    fix x tg k o'
    assume x: "?V x = Some (tg, k, o')"
    show "\<exists>g. entries d k = Some g \<and> l_value g = x \<and> l_tag g = tg \<and> ext g = (R(a := 1)) x \<and> (o' \<longrightarrow> \<not> l_in_cache g)"
    proof (cases "x = a")
      case True
      then show ?thesis using x d by (auto simp: l_tag_def)
    next
      case False
      then have v: "V x = Some (tg, k, o')" "x \<notin> snd ` set ?xs" using x by (auto simp: gone_def split: if_splits)
      obtain f where f: "entries c k = Some f" "l_value f = x" "l_tag f = tg" "ext f = R x" "o' \<longrightarrow> \<not> l_in_cache f"
        using cache_invD(2) [OF inv v(1)] by blast
      have "k \<noteq> h" using live_less [of "{}" c k f] f(1) cache_invD(1) [OF inv] d(2) by (auto simp: lru_inv_def)
      moreover have "k \<notin> set ks" using v(2) D f(1,2) by force
      ultimately obtain g where "entries d k = Some g" "same_ent f g" using ks(5) [of k f] f(1) by auto
      then show ?thesis using f False by (auto simp: same_ent_def l_tag_def)
    qed
  next
    fix k g
    assume g: "entries d k = Some g"
    show "\<exists>tg o'. ?V (l_value g) = Some (tg, k, o')"
    proof (cases "k = h")
      case True
      then show ?thesis using g d(4,5) by (intro exI [of _ "(hash, key)"] exI [of _ False]) simp
    next
      case False
      have nk: "k \<notin> set ks" using g ks(4) [of k] by auto
      obtain f where f: "entries c k = Some f" using ks(2) [of k] g False by (cases "entries c k") auto
      then obtain g' where "entries d k = Some g'" "same_ent f g'" using ks(5) [of k f] nk False by auto
      then have v: "l_value g = l_value f" using g by (simp add: same_ent_def)
      obtain tg o' where b: "V (l_value f) = Some (tg, k, o')" using cache_invD(3) [OF inv f] by blast
      have "l_value f \<notin> snd ` set ?xs"
      proof
        assume "l_value f \<in> snd ` set ?xs"
        then obtain j where j: "j \<in> set ks" "l_value f = l_value (the (entries c j))" using D by blast
        then show False using kE [OF j(1)] cache_inv_value_inj [OF inv f] nk by auto
      qed
      moreover have "l_value f \<noteq> a" using b new by auto
      ultimately show ?thesis using b v by (simp add: gone_def)
    qed
  next
    fix x
    assume "?V x = None"
    then have x: "x \<noteq> a" "x \<in> snd ` set ?xs \<or> V x = None" by (auto simp: gone_def split: if_splits)
    have "R x = 0" if xD: "x \<in> snd ` set ?xs"
    proof -
      obtain k where k: "k \<in> set ks" "x = l_value (the (entries c k))" using xD D by blast
      then show ?thesis using kE [OF k(1)] by auto
    qed
    then show "(R(a := 1)) x = 0" using x cache_invD(4) [OF inv, of x] by auto
  qed
  moreover have "deleter_calls d = deleter_calls c @ ?xs" using ks(3) unfolding xs .
  ultimately show ?thesis using d(1) idle aD by blast
qed

text \<open>The destructor of a cache, when nothing is referenced.\<close>

lemma cache_delete:
  assumes inv: "cache_inv (\<lambda>_. 0) c V"
  shows "\<exists>d xs. delete_LRUCache c = Some d \<and> deleter_calls d = deleter_calls c @ xs \<and> idle_blocks (\<lambda>_. 0) V xs \<and>
    gone xs V = (\<lambda>_. None)"
proof -
  have l: "lru_inv0 {} c" using cache_invD(1) [OF inv] by (simp add: lru_inv_def)
  have idle: "idle e" if e: "entries c h = Some e" for h e
    using cache_inv_entry [OF inv e] cache_inv_pos [OF inv e] by (auto simp: ext_def idle_def split: if_splits)
  have sets: "set (in_use c) = {h. \<exists>e. entries c h = Some e \<and> \<not> idle e}" "set (lru c) = {h. \<exists>e. entries c h = Some e \<and> idle e}"
    "distinct (lru c)"
    using l by (simp_all add: lru_inv0_def)
  have "set (in_use c) = {}" unfolding sets(1) using idle by blast
  then have use: "in_use c = []" by simp
  have lru: "set (lru c) = {h. entries c h \<noteq> None}" unfolding sets(2) using idle by auto
  let ?f = "\<lambda>h. (l_key (the (entries c h)), l_value (the (entries c h)))"
  obtain d where d: "delete_entries (lru c) c = Some d" "deleter_calls d = deleter_calls c @ map ?f (lru c)"
    using delete_entries_ok [OF sets(3), of c] sets(2) by auto
  have ent: "\<exists>e tg. entries c h = Some e \<and> V (l_value e) = Some (tg, h, False) \<and> snd tg = l_key e" if h: "h \<in> set (lru c)" for h
  proof -
    obtain e where e: "entries c h = Some e" using h unfolding lru by auto
    obtain out where v: "V (l_value e) = Some (l_tag e, h, out)" "out \<longrightarrow> \<not> l_in_cache e" using cache_inv_entry [OF inv e] by blast
    have "\<not> out" using v(2) idle [OF e] by (simp add: idle_def)
    then show ?thesis using e v(1) by (intro exI [of _ e] exI [of _ "l_tag e"]) (simp add: l_tag_def)
  qed
  have "inj_on (\<lambda>h. snd (?f h)) (set (lru c))"
  proof (rule inj_onI)
    fix k k' assume kk: "k \<in> set (lru c)" "k' \<in> set (lru c)" "snd (?f k) = snd (?f k')"
    obtain e where e: "entries c k = Some e" using ent [OF kk(1)] by blast
    obtain e' where e': "entries c k' = Some e'" using ent [OF kk(2)] by blast
    have "l_value e = l_value e'" using kk(3) unfolding e e' by simp
    then show "k = k'" by (rule cache_inv_value_inj [OF inv e e'])
  qed
  then have "distinct (map snd (map ?f (lru c)))" using sets(3) by (simp add: distinct_map o_def)
  moreover have "\<exists>tg h. V x = Some (tg, h, False) \<and> snd tg = k" if kx: "(k, x) \<in> set (map ?f (lru c))" for k x
  proof -
    obtain h where "(k, x) = ?f h" "h \<in> set (lru c)" using kx by auto
    then show ?thesis using ent [of h] by auto
  qed
  ultimately have ib: "idle_blocks (\<lambda>_. 0) V (map ?f (lru c))" unfolding idle_blocks_def by blast
  have "x \<in> snd ` set (map ?f (lru c))" if x: "V x = Some (tg, h, out)" for x tg h out
  proof -
    obtain e where "entries c h = Some e" "l_value e = x" using cache_invD(2) [OF inv x] by blast
    then show ?thesis using lru by force
  qed
  then have "gone (map ?f (lru c)) V = (\<lambda>_. None)"
    unfolding gone_def fun_eq_iff by (metis (mono_tags, lifting) option.exhaust surj_pair)
  then show ?thesis using d use ib by (auto simp: delete_LRUCache_def)
qed

lemma cache_inv_new: "cache_inv (\<lambda>_. 0) (new_LRUCache n) (\<lambda>_. None)"
  using new_LRUCache_inv [of n] by (simp add: cache_inv_def) (simp add: new_LRUCache_def)

lemma cache_inv_no_refs: "cache_inv R c (\<lambda>_. None) \<Longrightarrow> R = (\<lambda>_. 0)"
  by (simp add: cache_inv_def fun_eq_iff)

end
