(* ===== verification/Fscom.thy ===== *)
theory Fscom
  imports Fs
begin

text \<open>
  \<^verbatim>\<open>fscom.h\<close>, \<^verbatim>\<open>fscom.cc\<close>, \<^verbatim>\<open>fsapi.h\<close>, \<^verbatim>\<open>fsapi.cc\<close>, \<^verbatim>\<open>fssvr.cc\<close> and \<^verbatim>\<open>fsis.cc\<close>: the file system interface, its
  calls as messages, and the servers that dispatch them. A message is its contents; \<^verbatim>\<open>rpc::If::Call\<close>, which carries it,
  is an argument of the client stubs. \<open>None\<close> is a failed assertion or an access outside of an array.
\<close>

section \<open>The file system interface\<close>

text \<open>Where a call succeeds, it sets the \<^verbatim>\<open>Stat\<close> or \<^verbatim>\<open>LookupStat\<close> it is given.\<close>

record 'fs FilesystemIf =
  if_Bukin :: "User \<Rightarrow> LookupStat \<Rightarrow> string \<Rightarrow> 'fs \<Rightarrow> (status \<times> 'fs) option"
  if_Mkfls :: "User \<Rightarrow> LookupStat \<Rightarrow> slice \<Rightarrow> u32 \<Rightarrow> u32 \<Rightarrow> 'fs \<Rightarrow> (status \<times> u32 \<times> 'fs) option"
  if_Mkfle :: "User \<Rightarrow> LookupStat \<Rightarrow> slice \<Rightarrow> u32 \<Rightarrow> 'fs \<Rightarrow> (status \<times> Stat \<times> 'fs) option"
  if_Mkdir :: "User \<Rightarrow> LookupStat \<Rightarrow> slice \<Rightarrow> u32 \<Rightarrow> 'fs \<Rightarrow> (status \<times> Stat \<times> 'fs) option"
  if_Lokup :: "User \<Rightarrow> LookupStat \<Rightarrow> slice \<Rightarrow> 'fs \<Rightarrow> (status \<times> LookupStat option \<times> 'fs) option"
  if_Lstat :: "User \<Rightarrow> LookupStat \<Rightarrow> slice \<Rightarrow> 'fs \<Rightarrow> (status \<times> Stat option \<times> 'fs) option"

definition Filesystem_if :: "'db FsDb \<Rightarrow> u64 \<Rightarrow> 'db Filesystem FilesystemIf" where
  "Filesystem_if X now =
     \<lparr>if_Bukin = Bukin X now, if_Mkfls = Mkfls X now, if_Mkfle = Mkfle X now, if_Mkdir = Mkdir X now, if_Lokup = Lokup X now,
      if_Lstat = (\<lambda>who p name s. map_option (\<lambda>(st, v, _, s). (st, v, s)) (Lstat X now who p name new_stats s))\<rparr>"

text \<open>\<^verbatim>\<open>FilesystemWrapper\<close> supports nothing; \<open>stat\<close> is the one it is given and leaves as it is.\<close>

definition FilesystemWrapper :: "Stat \<Rightarrow> 'fs FilesystemIf" where
  "FilesystemWrapper stat =
     \<lparr>if_Bukin = (\<lambda>_ _ _ s. Some (NotSupported [], s)), if_Mkfls = (\<lambda>_ _ _ _ n s. Some (NotSupported [], n, s)),
      if_Mkfle = (\<lambda>_ _ _ _ s. Some (NotSupported [], stat, s)), if_Mkdir = (\<lambda>_ _ _ _ s. Some (NotSupported [], stat, s)),
      if_Lokup = (\<lambda>_ _ _ s. Some (NotSupported [], None, s)), if_Lstat = (\<lambda>_ _ _ s. Some (NotSupported [], None, s))\<rparr>"

section \<open>Encodings\<close>

definition EncodeLookupStat :: "LookupStat \<Rightarrow> slice" where
  "EncodeLookupStat stat =
     EncodeFixed64 (lDnodeNo stat) @ EncodeFixed64 (lInodeNo stat) @ EncodeFixed64 (LeaseDue stat) @
     EncodeFixed32 (lZerothServer stat) @ EncodeFixed32 (DirMode stat) @ EncodeFixed32 (lUserId stat) @
     EncodeFixed32 (lGroupId stat)"

text \<open>The size, the times and the zeroth server are not sent.\<close>

definition EncodeStat :: "Stat \<Rightarrow> slice" where
  "EncodeStat stat =
     EncodeFixed64 (DnodeNo stat) @ EncodeFixed64 (InodeNo stat) @ EncodeFixed32 (FileMode stat) @
     EncodeFixed32 (UserId stat) @ EncodeFixed32 (GroupId stat)"

definition EncodeUser :: "User \<Rightarrow> slice" where
  "EncodeUser u = EncodeFixed32 (uid u) @ EncodeFixed32 (gid u)"

definition PutLookupStat :: "slice \<Rightarrow> LookupStat \<Rightarrow> slice" where
  "PutLookupStat dst stat =
     PutFixed32 (PutFixed32 (PutFixed32 (PutFixed32 (PutFixed64 (PutFixed64 (PutFixed64 dst
       (lDnodeNo stat)) (lInodeNo stat)) (LeaseDue stat)) (lZerothServer stat)) (DirMode stat)) (lUserId stat)) (lGroupId stat)"

definition PutUser :: "slice \<Rightarrow> User \<Rightarrow> slice" where
  "PutUser dst u = PutFixed32 (PutFixed32 dst (uid u)) (gid u)"

definition GetLookupStat :: "LookupStat reader" where
  "GetLookupStat p =
     (if length p < 40 then None
      else Some (\<lparr>lDnodeNo = DecodeFixed64 p, lInodeNo = DecodeFixed64 (drop 8 p), LeaseDue = DecodeFixed64 (drop 16 p),
                  DirMode = DecodeFixed32 (drop 28 p), lZerothServer = DecodeFixed32 (drop 24 p),
                  lUserId = DecodeFixed32 (drop 32 p), lGroupId = DecodeFixed32 (drop 36 p)\<rparr>, drop 40 p))"

definition GetStat :: "Stat \<Rightarrow> Stat reader" where
  "GetStat stat p =
     (if length p < 28 then None
      else Some (stat\<lparr>DnodeNo := DecodeFixed64 p, InodeNo := DecodeFixed64 (drop 8 p), FileMode := DecodeFixed32 (drop 16 p),
                  UserId := DecodeFixed32 (drop 20 p), GroupId := DecodeFixed32 (drop 24 p)\<rparr>, drop 28 p))"

definition GetUser :: "User reader" where
  "GetUser p = (if length p < 8 then None else Some (\<lparr>uid = DecodeFixed32 p, gid = DecodeFixed32 (drop 4 p)\<rparr>, drop 8 p))"

definition GetFixed32 :: "u32 reader" where
  "GetFixed32 p = (if length p < 4 then None else Some (DecodeFixed32 p, drop 4 p))"

section \<open>Server side\<close>

text \<open>A handler is given the file system, the request and the state; it returns its status and the contents of the reply.\<close>

type_synonym 'fs RequestHandler = "'fs FilesystemIf option \<Rightarrow> slice \<Rightarrow> 'fs \<Rightarrow> (status \<times> slice \<times> 'fs) option"

text \<open>The five requests parse alike: the operation, the parent, a name and the user, then what \<open>extra\<close> reads.\<close>

definition GetRequest :: "'a reader \<Rightarrow> (LookupStat \<times> slice \<times> User \<times> 'a) reader" where
  "GetRequest extra input = do {
     (op, input) \<leftarrow> GetFixed32 input;
     (pa, input) \<leftarrow> GetLookupStat input;
     (name, input) \<leftarrow> GetLengthPrefixedSlice input;
     (me, input) \<leftarrow> GetUser input;
     (x, input) \<leftarrow> extra input;
     Some ((pa, name, me, x), input)}"

definition GetNothing :: "unit reader" where
  "GetNothing input = Some ((), input)"

definition GetTwo :: "(u32 \<times> u32) reader" where
  "GetTwo input = do { (x, input) \<leftarrow> GetFixed32 input; (y, input) \<leftarrow> GetFixed32 input; Some ((x, y), input) }"

definition Reply :: "status \<Rightarrow> slice \<Rightarrow> slice" where
  "Reply ss body = EncodeFixed32 (word_of_nat (err_code ss)) @ (if ok ss then body else [])"

definition bad_input :: "'fs \<Rightarrow> (status \<times> slice \<times> 'fs) option" where
  "bad_input s = Some (InvalidArgument ''Bad rpc input data'', [], s)"

definition LokupOperation :: "'fs RequestHandler" where
  "LokupOperation fs input s =
     (case GetRequest GetNothing input of
        None \<Rightarrow> bad_input s
      | Some ((pa, name, me, _), _) \<Rightarrow> do {
          F \<leftarrow> fs;
          (ss, stat, s) \<leftarrow> if_Lokup F me pa name s;
          body \<leftarrow> (if ok ss then map_option EncodeLookupStat stat else Some []);
          Some (Okay, Reply ss body, s)})"

definition MkdirOperation :: "'fs RequestHandler" where
  "MkdirOperation fs input s =
     (case GetRequest GetFixed32 input of
        None \<Rightarrow> bad_input s
      | Some ((pa, name, me, mode), _) \<Rightarrow> do {
          F \<leftarrow> fs;
          (ss, stat, s) \<leftarrow> if_Mkdir F me pa name mode s;
          Some (Okay, Reply ss (EncodeStat stat), s)})"

definition MkfleOperation :: "'fs RequestHandler" where
  "MkfleOperation fs input s =
     (case GetRequest GetFixed32 input of
        None \<Rightarrow> bad_input s
      | Some ((pa, name, me, mode), _) \<Rightarrow> do {
          F \<leftarrow> fs;
          (ss, stat, s) \<leftarrow> if_Mkfle F me pa name mode s;
          Some (Okay, Reply ss (EncodeStat stat), s)})"

definition MkflsOperation :: "'fs RequestHandler" where
  "MkflsOperation fs input s =
     (case GetRequest GetTwo input of
        None \<Rightarrow> bad_input s
      | Some ((pa, namearr, me, n, mode), _) \<Rightarrow> do {
          F \<leftarrow> fs;
          (ss, n, s) \<leftarrow> if_Mkfls F me pa namearr mode n s;
          Some (Okay, Reply ss (EncodeFixed32 n), s)})"

definition BukinOperation :: "'fs RequestHandler" where
  "BukinOperation fs input s =
     (case GetRequest GetNothing input of
        None \<Rightarrow> bad_input s
      | Some ((pa, dir, me, _), _) \<Rightarrow> do {
          F \<leftarrow> fs;
          (ss, s) \<leftarrow> if_Bukin F me pa (string_of_slice dir) s;
          Some (Okay, Reply ss [], s)})"

definition LstatOperation :: "'fs RequestHandler" where
  "LstatOperation fs input s =
     (case GetRequest GetNothing input of
        None \<Rightarrow> bad_input s
      | Some ((pa, name, me, _), _) \<Rightarrow> do {
          F \<leftarrow> fs;
          (ss, stat, s) \<leftarrow> if_Lstat F me pa name s;
          body \<leftarrow> (if ok ss then map_option EncodeStat stat else Some []);
          Some (Okay, Reply ss body, s)})"

section \<open>Dispatch\<close>

datatype op = kLokup | kMkdir | kMkfle | kMkfls | kBukin | kLstat

fun op_value :: "op \<Rightarrow> nat" where
  "op_value kLokup = 0"
| "op_value kMkdir = 1"
| "op_value kMkfle = 2"
| "op_value kMkfls = 3"
| "op_value kBukin = 4"
| "op_value kLstat = 5"

definition kNumOps :: nat where
  "kNumOps = 6"

record 'fs FilesystemServer =
  svr_fs :: "'fs FilesystemIf option"
  hmap :: "'fs RequestHandler option list"

definition new_FilesystemServer :: "'fs FilesystemServer" where
  "new_FilesystemServer =
     \<lparr>svr_fs = None,
      hmap = (replicate kNumOps None)
        [op_value kLokup := Some LokupOperation, op_value kMkdir := Some MkdirOperation, op_value kMkfle := Some MkfleOperation,
         op_value kMkfls := Some MkflsOperation, op_value kBukin := Some BukinOperation, op_value kLstat := Some LstatOperation]\<rparr>"

definition SetFs :: "'fs FilesystemIf option \<Rightarrow> 'fs FilesystemServer \<Rightarrow> 'fs FilesystemServer" where
  "SetFs fs svr = svr\<lparr>svr_fs := fs\<rparr>"

definition TEST_Remap :: "nat \<Rightarrow> 'fs RequestHandler option \<Rightarrow> 'fs FilesystemServer \<Rightarrow> 'fs FilesystemServer option" where
  "TEST_Remap i h svr = (if i < length (hmap svr) then Some (svr\<lparr>hmap := (hmap svr)[i := h]\<rparr>) else None)"

text \<open>The operation is not compared with \<^verbatim>\<open>kNumOps\<close>: beyond the table it is an access outside of an array.\<close>

definition FilesystemServer_Call :: "'fs FilesystemServer \<Rightarrow> slice \<Rightarrow> 'fs \<Rightarrow> (status \<times> slice \<times> 'fs) option" where
  "FilesystemServer_Call svr input s =
     (if 4 \<le> length input
      then (let i = unat (DecodeFixed32 input)
            in if i < length (hmap svr) then (case hmap svr ! i of None \<Rightarrow> None | Some h \<Rightarrow> h (svr_fs svr) input s) else None)
      else Some (InvalidArgument ''Bad rpc req'', [], s))"

text \<open>The information server: a \<^verbatim>\<open>std::map\<close> with an \<^verbatim>\<open>operator[]\<close> that inserts.\<close>

type_synonym FilesystemInfoServer = "int \<Rightarrow> slice option"

definition SetInfo :: "int \<Rightarrow> slice \<Rightarrow> FilesystemInfoServer \<Rightarrow> FilesystemInfoServer" where
  "SetInfo idx info m = m(idx \<mapsto> info)"

definition FilesystemInfoServer_Call :: "slice \<Rightarrow> FilesystemInfoServer \<Rightarrow> status \<times> slice \<times> FilesystemInfoServer" where
  "FilesystemInfoServer_Call input m =
     (if 4 \<le> length input
      then (let idx = sint (DecodeFixed32 input); m = (case m idx of None \<Rightarrow> m(idx \<mapsto> []) | Some _ \<Rightarrow> m)
            in (Okay, the (m idx), m))
      else (InvalidArgument ''Bad req fmt'', [], m))"

section \<open>Client side\<close>

record LokupOptions =
  lo_parent :: LookupStat
  lo_name :: slice
  lo_me :: User

record MkdirOptions = LokupOptions +
  mo_mode :: u32

record MkflsOptions = MkdirOptions +
  mo_n :: u32

type_synonym 'n rpc = "slice \<Rightarrow> 'n \<Rightarrow> (status \<times> slice \<times> 'n) option"

text \<open>A request is built in the 200 bytes of \<^verbatim>\<open>If::Message::buf\<close>, except that of \<^verbatim>\<open>MkflsCli\<close>.\<close>

definition PutRequest :: "op \<Rightarrow> LookupStat \<Rightarrow> slice \<Rightarrow> User \<Rightarrow> slice" where
  "PutRequest op parent name me =
     EncodeFixed32 (word_of_nat (op_value op)) @ EncodeLookupStat parent @ EncodeLengthPrefixedSlice name @ EncodeUser me"

definition kBufSize :: nat where
  "kBufSize = 200"

definition GetReply :: "'a reader \<Rightarrow> slice \<Rightarrow> (status \<times> 'a option) option" where
  "GetReply get out =
     (case GetFixed32 out of
        None \<Rightarrow> Some (Corruption ''Bad rpc reply header'', None)
      | Some (rv, input) \<Rightarrow>
          if rv \<noteq> 0 then map_option (\<lambda>st. (st, None)) (FromCode (unat rv))
          else case get input of None \<Rightarrow> Some (Corruption ''Bad rpc reply'', None) | Some (x, _) \<Rightarrow> Some (Okay, Some x))"

definition stub :: "'a reader \<Rightarrow> slice \<Rightarrow> 'n rpc \<Rightarrow> 'n \<Rightarrow> (status \<times> 'a option \<times> 'n) option" where
  "stub get contents call s = do {
     (st, out, s) \<leftarrow> call contents s;
     if \<not> ok st then Some (st, None, s) else do { (st, r) \<leftarrow> GetReply get out; Some (st, r, s) }}"

definition in_buf :: "slice \<Rightarrow> slice option" where
  "in_buf contents = (if length contents \<le> kBufSize then Some contents else None)"

definition LokupCli :: "'n rpc \<Rightarrow> LokupOptions \<Rightarrow> 'n \<Rightarrow> (status \<times> LookupStat option \<times> 'n) option" where
  "LokupCli call opts s = do {
     contents \<leftarrow> in_buf (PutRequest kLokup (lo_parent opts) (lo_name opts) (lo_me opts));
     stub GetLookupStat contents call s}"

text \<open>\<open>stat\<close> is \<^verbatim>\<open>*ret->stat\<close>; without a reply it stays as it is.\<close>

definition MkdirCli :: "'n rpc \<Rightarrow> MkdirOptions \<Rightarrow> Stat \<Rightarrow> 'n \<Rightarrow> (status \<times> Stat option \<times> 'n) option" where
  "MkdirCli call opts stat s = do {
     contents \<leftarrow> in_buf (PutRequest kMkdir (lo_parent opts) (lo_name opts) (lo_me opts) @ EncodeFixed32 (mo_mode opts));
     stub (GetStat stat) contents call s}"

definition MkfleCli :: "'n rpc \<Rightarrow> MkdirOptions \<Rightarrow> Stat \<Rightarrow> 'n \<Rightarrow> (status \<times> Stat option \<times> 'n) option" where
  "MkfleCli call opts stat s = do {
     contents \<leftarrow> in_buf (PutRequest kMkfle (lo_parent opts) (lo_name opts) (lo_me opts) @ EncodeFixed32 (mo_mode opts));
     stub (GetStat stat) contents call s}"

definition MkflsCli :: "'n rpc \<Rightarrow> MkflsOptions \<Rightarrow> 'n \<Rightarrow> (status \<times> u32 option \<times> 'n) option" where
  "MkflsCli call opts s =
     stub GetFixed32
       (PutFixed32 (PutFixed32 (PutUser (PutLengthPrefixedSlice (PutLookupStat (PutFixed32 [] (word_of_nat (op_value kMkfls)))
          (lo_parent opts)) (lo_name opts)) (lo_me opts)) (mo_n opts)) (mo_mode opts))
       call s"

definition BukinCli :: "'n rpc \<Rightarrow> LokupOptions \<Rightarrow> 'n \<Rightarrow> (status \<times> 'n) option" where
  "BukinCli call opts s = do {
     contents \<leftarrow> in_buf (PutRequest kBukin (lo_parent opts) (lo_name opts) (lo_me opts));
     (st, _, s) \<leftarrow> stub GetNothing contents call s;
     Some (st, s)}"

definition LstatCli :: "'n rpc \<Rightarrow> LokupOptions \<Rightarrow> Stat \<Rightarrow> 'n \<Rightarrow> (status \<times> Stat option \<times> 'n) option" where
  "LstatCli call opts stat s = do {
     contents \<leftarrow> in_buf (PutRequest kLstat (lo_parent opts) (lo_name opts) (lo_me opts));
     stub (GetStat stat) contents call s}"

section \<open>The messages as codecs\<close>

lemma length_codes [simp]:
  "length (EncodeFixed32 v) = 4" "length (EncodeFixed64 w) = 8" "length (EncodeLookupStat l) = 40" "length (EncodeStat st) = 28"
  "length (EncodeUser u) = 8"
  by (simp_all add: EncodeLookupStat_def EncodeStat_def EncodeUser_def codec_defs)

lemma GetFixed32_enc [codec_simps]: "GetFixed32 (EncodeFixed32 v @ r) = Some (v, r)"
  by (simp add: GetFixed32_def codec_simps)

lemma GetLookupStat_enc [codec_simps]: "GetLookupStat (EncodeLookupStat l @ r) = Some (l, r)"
  by (simp add: GetLookupStat_def EncodeLookupStat_def codec_simps)

lemma GetUser_enc [codec_simps]: "GetUser (EncodeUser u @ r) = Some (u, r)"
  by (simp add: GetUser_def EncodeUser_def codec_simps)

text \<open>What a client sees of a \<^verbatim>\<open>Stat\<close> that was sent: the other fields are as they were.\<close>

definition received :: "Stat \<Rightarrow> Stat \<Rightarrow> Stat" where
  "received stat x = stat\<lparr>DnodeNo := DnodeNo x, InodeNo := InodeNo x, FileMode := FileMode x, UserId := UserId x, GroupId := GroupId x\<rparr>"

lemma GetStat_enc [codec_simps]: "GetStat stat (EncodeStat x @ r) = Some (received stat x, r)"
  by (simp add: GetStat_def EncodeStat_def received_def codec_simps)

interpretation fixed32_codec: prefix_codec EncodeFixed32 GetFixed32 "\<lambda>_. True"
  by unfold_locales (rule GetFixed32_enc)

interpretation wire_lookup_codec: prefix_codec EncodeLookupStat GetLookupStat "\<lambda>_. True"
  by unfold_locales (rule GetLookupStat_enc)

interpretation user_codec: prefix_codec EncodeUser GetUser "\<lambda>_. True"
  by unfold_locales (rule GetUser_enc)

lemma GetRequest_enc:
  assumes "length name < 2 ^ 32"
  shows "GetRequest extra (PutRequest op parent name me @ x) =
    Option.bind (extra x) (\<lambda>(v, r). Some ((parent, name, me, v), r))"
  using assms by (simp add: GetRequest_def PutRequest_def codec_simps)

section \<open>Truncated messages\<close>

text \<open>A reader that does not look past what it takes.\<close>

locale stable_reader =
  fixes dec :: "'a reader"
  assumes dec_append: "dec i = Some (x, r) \<Longrightarrow> dec (i @ t) = Some (x, r @ t)"
begin

lemma strict_prefix_refused: "dec (p @ t) = Some (x, []) \<Longrightarrow> t \<noteq> [] \<Longrightarrow> dec p = None"
  using dec_append [of p _ _ t] by (cases "dec p") auto

end

lemma DecodeFixed32_append: "4 \<le> length i \<Longrightarrow> DecodeFixed32 (i @ t) = DecodeFixed32 i"
  by (auto simp: DecodeFixed32_def nth_append)

lemma DecodeFixed64_append: "8 \<le> length i \<Longrightarrow> DecodeFixed64 (i @ t) = DecodeFixed64 i"
  by (simp add: DecodeFixed64_def DecodeFixed32_append)

lemma varint32_loop_append:
  "GetVarint32PtrFallback_loop shift acc i = Some (v, r) \<Longrightarrow> GetVarint32PtrFallback_loop shift acc (i @ t) = Some (v, r @ t)"
proof (induction i arbitrary: shift acc)
  case Nil
  then show ?case by (simp add: GetVarint32PtrFallback_loop.simps [of shift] split: if_splits)
next
  case (Cons c i)
  then show ?case
    by (cases "(ucast c :: u32) AND 128 = 0")
      (auto simp: GetVarint32PtrFallback_loop.simps [of shift acc "c # i"] GetVarint32PtrFallback_loop.simps [of shift acc "c # i @ t"] Let_def
        split: if_splits)
qed

lemma GetLengthPrefixedSlice_append:
  assumes "GetLengthPrefixedSlice i = Some (x, r)"
  shows "GetLengthPrefixedSlice (i @ t) = Some (x, r @ t)"
proof -
  obtain len p where p: "GetVarint32 i = Some (len, p)" "unat len \<le> length p" "x = take (unat len) p" "r = drop (unat len) p"
    using assms by (auto simp: GetLengthPrefixedSlice_def split: option.splits if_splits)
  have "GetVarint32 (i @ t) = Some (len, p @ t)"
    using p(1) varint32_loop_append by (simp add: GetVarint32_def GetVarint32Ptr_fast_path GetVarint32PtrFallback_def)
  then show ?thesis using p by (simp add: GetLengthPrefixedSlice_def)
qed

interpretation fixed32_stable: stable_reader GetFixed32
  by unfold_locales (auto simp: GetFixed32_def DecodeFixed32_append split: if_splits)

interpretation user_stable: stable_reader GetUser
  by unfold_locales (auto simp: GetUser_def DecodeFixed32_append split: if_splits)

interpretation lookup_stable: stable_reader GetLookupStat
  by unfold_locales (auto simp: GetLookupStat_def DecodeFixed32_append DecodeFixed64_append split: if_splits)

interpretation lpslice_stable: stable_reader GetLengthPrefixedSlice
  by unfold_locales (rule GetLengthPrefixedSlice_append)

interpretation nothing_stable: stable_reader GetNothing
  by unfold_locales (simp add: GetNothing_def)

lemma stable_bind:
  assumes "stable_reader d" and "\<And>x. stable_reader (f x)"
  shows "stable_reader (\<lambda>i. Option.bind (d i) (\<lambda>(x, r). f x r))"
proof
  fix i x r t assume "Option.bind (d i) (\<lambda>(x, r). f x r) = Some (x, r)"
  then obtain y u where y: "d i = Some (y, u)" "f y u = Some (x, r)" by (auto simp: bind_eq_Some_conv)
  show "Option.bind (d (i @ t)) (\<lambda>(x, r). f x r) = Some (x, r @ t)"
    using stable_reader.dec_append [OF assms(1) y(1)] stable_reader.dec_append [OF assms(2) y(2)] by simp
qed

lemma stable_return: "stable_reader (\<lambda>i. Some (x, i))"
  by unfold_locales simp

lemmas stable_intros = stable_bind stable_return fixed32_stable.stable_reader_axioms user_stable.stable_reader_axioms
  lookup_stable.stable_reader_axioms lpslice_stable.stable_reader_axioms nothing_stable.stable_reader_axioms

lemma stable_two: "stable_reader GetTwo"
  unfolding GetTwo_def [abs_def] by (intro stable_intros)

lemma stable_request: "stable_reader extra \<Longrightarrow> stable_reader (GetRequest extra)"
  unfolding GetRequest_def [abs_def] by (intro stable_intros)

interpretation request0_stable: stable_reader "GetRequest GetNothing"
  by (intro stable_request stable_intros)

interpretation request1_stable: stable_reader "GetRequest GetFixed32"
  by (intro stable_request stable_intros)

interpretation request2_stable: stable_reader "GetRequest GetTwo"
  by (intro stable_request stable_two)

section \<open>Calls across the wire\<close>

abbreviation server :: "'fs FilesystemIf option \<Rightarrow> 'fs rpc" where
  "server fs \<equiv> FilesystemServer_Call (SetFs fs new_FilesystemServer)"

lemma op_le: "op_value op < 6"
  by (cases op) simp_all

lemma op_of_request: "unat (DecodeFixed32 (EncodeFixed32 (word_of_nat (op_value op)) @ r)) = op_value op"
  using op_le [of op] by (simp add: codec_simps unsigned_of_nat take_bit_nat_eq_self)

fun operation :: "op \<Rightarrow> 'fs RequestHandler" where
  "operation kLokup = LokupOperation"
| "operation kMkdir = MkdirOperation"
| "operation kMkfle = MkfleOperation"
| "operation kMkfls = MkflsOperation"
| "operation kBukin = BukinOperation"
| "operation kLstat = LstatOperation"

lemma hmap_new: "length (hmap new_FilesystemServer) = 6" "hmap new_FilesystemServer ! op_value op = Some (operation op)"
proof -
  show "length (hmap new_FilesystemServer) = 6" by (simp add: new_FilesystemServer_def kNumOps_def)
  show "hmap new_FilesystemServer ! op_value op = Some (operation op)"
    by (cases op) (simp_all add: new_FilesystemServer_def kNumOps_def)
qed

lemma server_dispatch:
  "server fs (EncodeFixed32 (word_of_nat (op_value op)) @ r) s = operation op fs (EncodeFixed32 (word_of_nat (op_value op)) @ r) s"
  using op_le [of op] by (simp add: FilesystemServer_Call_def SetFs_def hmap_new op_of_request Let_def)

text \<open>Only the code of an error is sent.\<close>

fun code_only :: "status \<Rightarrow> status" where
  "code_only Okay = Okay"
| "code_only (Err c m) = Err c []"

lemma GetReply_Reply:
  assumes "valid_status ss" and "ok ss \<Longrightarrow> get body = Some (x, r)"
  shows "GetReply get (Reply ss body) = Some (code_only ss, if ok ss then Some x else None)"
proof (cases ss)
  case Okay
  then show ?thesis using assms(2) by (simp add: GetReply_def Reply_def err_code_def codec_simps)
next
  case (Err c m)
  have c: "c \<noteq> kOk" "c \<noteq> kUnknownError" using assms(1) Err by (simp_all add: valid_status_def)
  have less: "err_code ss < 25" using err_code_less [OF assms(1)] .
  then have u: "unat (word_of_nat (err_code ss) :: u32) = err_code ss" by (simp add: unsigned_of_nat take_bit_nat_eq_self)
  have "err_code ss \<noteq> 0" using err_code_0_iff [OF assms(1)] Err by simp
  then have "(word_of_nat (err_code ss) :: u32) \<noteq> 0" using u by (metis unsigned_0)
  then show ?thesis using FromCode_err_code [OF c, of m] Err u GetFixed32_enc [of _ "[]"] by (simp add: GetReply_def Reply_def)
qed

text \<open>A local call and the call across the wire: the same effect, and the same result up to the message of an error.\<close>

definition carried :: "(status \<times> 'a option \<times> 's) option \<Rightarrow> (status \<times> 'a option \<times> 's) option \<Rightarrow> bool" where
  "carried here there \<longleftrightarrow>
     (\<forall>ss v s. here = Some (ss, v, s) \<longrightarrow> valid_status ss \<longrightarrow> (ok ss \<longrightarrow> v \<noteq> None) \<longrightarrow>
        there = Some (code_only ss, if ok ss then v else None, s))"

lemma carriedI:
  assumes "\<And>ss v s. here = Some (ss, v, s) \<Longrightarrow> valid_status ss \<Longrightarrow> (ok ss \<Longrightarrow> v \<noteq> None) \<Longrightarrow>
    there = Some (code_only ss, if ok ss then v else None, s)"
  shows "carried here there"
  using assms unfolding carried_def by blast

lemma stub_Reply:
  assumes "call contents s = Some (Okay, Reply ss body, s')" and "valid_status ss" and "ok ss \<Longrightarrow> get body = Some (x, r)"
  shows "stub get contents call s = Some (code_only ss, if ok ss then Some x else None, s')"
  using GetReply_Reply [of ss get body x r] assms by (simp add: stub_def)

lemma length_lpslice: "length name < 2 ^ 32 \<Longrightarrow> length (EncodeLengthPrefixedSlice name) \<le> 5 + length name"
  "length name < 128 \<Longrightarrow> length (EncodeLengthPrefixedSlice name) = 1 + length name"
  "128 \<le> length name \<Longrightarrow> length name < 2 ^ 14 \<Longrightarrow> length (EncodeLengthPrefixedSlice name) = 2 + length name"
  using length_EncodeVarint32 [of "word_of_nat (length name)"]
  by (simp_all add: EncodeLengthPrefixedSlice_def EncodeVarint32_def word_less_nat_alt unsigned_of_nat take_bit_nat_eq_self)

lemma length_PutRequest: "length (PutRequest op p name me) = 52 + length (EncodeLengthPrefixedSlice name)"
  by (simp add: PutRequest_def)

lemma operation_request:
  "length name < 2 ^ 32 \<Longrightarrow> server fs (PutRequest op p name me @ x) s = operation op fs (PutRequest op p name me @ x) s"
  unfolding PutRequest_def append_assoc by (rule server_dispatch)

lemma carried_Lokup:
  assumes "length name < 2 ^ 32" and "length (EncodeLengthPrefixedSlice name) \<le> 148"
  shows "carried (if_Lokup F me p name s) (LokupCli (server (Some F)) \<lparr>lo_parent = p, lo_name = name, lo_me = me\<rparr> s)"
proof (rule carriedI)
  fix ss v s'
  assume a: "if_Lokup F me p name s = Some (ss, v, s')" "valid_status ss" "ok ss \<Longrightarrow> v \<noteq> None"
  let ?c = "PutRequest kLokup p name me"
  let ?b = "if ok ss then EncodeLookupStat (the v) else []"
  have call: "server (Some F) ?c s = Some (Okay, Reply ss ?b, s')"
    using operation_request [OF assms(1), of "Some F" kLokup p me "[]" s] GetRequest_enc [OF assms(1), of GetNothing kLokup p me "[]"] a
    by (auto simp: LokupOperation_def GetNothing_def)
  have "stub GetLookupStat ?c (server (Some F)) s = Some (code_only ss, if ok ss then Some (the v) else None, s')"
    by (rule stub_Reply [where r = "[]" and body = ?b]) (use call a(2) GetLookupStat_enc [of _ "[]"] in simp_all)
  then show "LokupCli (server (Some F)) \<lparr>lo_parent = p, lo_name = name, lo_me = me\<rparr> s = Some (code_only ss, if ok ss then v else None, s')"
    using a(3) assms(2) by (auto simp: LokupCli_def in_buf_def kBufSize_def length_PutRequest)
qed

lemma carried_Lstat:
  assumes "length name < 2 ^ 32" and "length (EncodeLengthPrefixedSlice name) \<le> 148"
  shows "carried (map_option (\<lambda>(ss, v, s). (ss, map_option (received stat) v, s)) (if_Lstat F me p name s))
    (LstatCli (server (Some F)) \<lparr>lo_parent = p, lo_name = name, lo_me = me\<rparr> stat s)"
proof (rule carriedI)
  fix ss w s'
  assume "map_option (\<lambda>(ss, v, s). (ss, map_option (received stat) v, s)) (if_Lstat F me p name s) = Some (ss, w, s')"
    and ok: "valid_status ss" "ok ss \<Longrightarrow> w \<noteq> None"
  then obtain v where a: "if_Lstat F me p name s = Some (ss, v, s')" "w = map_option (received stat) v" by auto
  let ?c = "PutRequest kLstat p name me"
  let ?b = "if ok ss then EncodeStat (the v) else []"
  have call: "server (Some F) ?c s = Some (Okay, Reply ss ?b, s')"
    using operation_request [OF assms(1), of "Some F" kLstat p me "[]" s] GetRequest_enc [OF assms(1), of GetNothing kLstat p me "[]"] a ok
    by (auto simp: LstatOperation_def GetNothing_def)
  have "stub (GetStat stat) ?c (server (Some F)) s = Some (code_only ss, if ok ss then Some (received stat (the v)) else None, s')"
    by (rule stub_Reply [where r = "[]" and body = ?b]) (use call ok(1) GetStat_enc [of _ _ "[]"] in simp_all)
  then show "LstatCli (server (Some F)) \<lparr>lo_parent = p, lo_name = name, lo_me = me\<rparr> stat s = Some (code_only ss, if ok ss then w else None, s')"
    using a ok(2) assms(2) by (auto simp: LstatCli_def in_buf_def kBufSize_def length_PutRequest)
qed

lemma carried_mknod:
  assumes "length name < 2 ^ 32" and "length (EncodeLengthPrefixedSlice name) \<le> 144"
  shows "carried (map_option (\<lambda>(ss, x, s). (ss, Some (received stat x), s)) (if_Mkfle F me p name mode s))
      (MkfleCli (server (Some F)) \<lparr>lo_parent = p, lo_name = name, lo_me = me, mo_mode = mode\<rparr> stat s)"
    and "carried (map_option (\<lambda>(ss, x, s). (ss, Some (received stat x), s)) (if_Mkdir F me p name mode s))
      (MkdirCli (server (Some F)) \<lparr>lo_parent = p, lo_name = name, lo_me = me, mo_mode = mode\<rparr> stat s)"
proof -
  have request: "GetRequest GetFixed32 (PutRequest op p name me @ EncodeFixed32 mode) = Some ((p, name, me, mode), [])" for op
    using GetRequest_enc [OF assms(1), of GetFixed32 op p me "EncodeFixed32 mode"] GetFixed32_enc [of mode "[]"] by simp
  have len: "length (PutRequest op p name me @ EncodeFixed32 mode) \<le> kBufSize" for op
    using assms(2) by (simp add: length_PutRequest kBufSize_def)
  have reply: "stub (GetStat stat) c (server (Some F)) s = Some (code_only ss, if ok ss then Some (received stat x) else None, s')"
    if "server (Some F) c s = Some (Okay, Reply ss (EncodeStat x), s')" "valid_status ss" for c ss x s'
    by (rule stub_Reply [where r = "[]" and body = "EncodeStat x"]) (use that GetStat_enc [of _ _ "[]"] in simp_all)
  show "carried (map_option (\<lambda>(ss, x, s). (ss, Some (received stat x), s)) (if_Mkfle F me p name mode s))
      (MkfleCli (server (Some F)) \<lparr>lo_parent = p, lo_name = name, lo_me = me, mo_mode = mode\<rparr> stat s)"
  proof (rule carriedI)
    fix ss w s'
    assume "map_option (\<lambda>(ss, x, s). (ss, Some (received stat x), s)) (if_Mkfle F me p name mode s) = Some (ss, w, s')" and v: "valid_status ss"
    then obtain x where x: "if_Mkfle F me p name mode s = Some (ss, x, s')" "w = Some (received stat x)" by auto
    have "server (Some F) (PutRequest kMkfle p name me @ EncodeFixed32 mode) s = Some (Okay, Reply ss (EncodeStat x), s')"
      using x by (simp add: operation_request [OF assms(1)] MkfleOperation_def request)
    from reply [OF this v]
    show "MkfleCli (server (Some F)) \<lparr>lo_parent = p, lo_name = name, lo_me = me, mo_mode = mode\<rparr> stat s =
        Some (code_only ss, if ok ss then w else None, s')"
      using len x by (simp add: MkfleCli_def in_buf_def)
  qed
  show "carried (map_option (\<lambda>(ss, x, s). (ss, Some (received stat x), s)) (if_Mkdir F me p name mode s))
      (MkdirCli (server (Some F)) \<lparr>lo_parent = p, lo_name = name, lo_me = me, mo_mode = mode\<rparr> stat s)"
  proof (rule carriedI)
    fix ss w s'
    assume "map_option (\<lambda>(ss, x, s). (ss, Some (received stat x), s)) (if_Mkdir F me p name mode s) = Some (ss, w, s')" and v: "valid_status ss"
    then obtain x where x: "if_Mkdir F me p name mode s = Some (ss, x, s')" "w = Some (received stat x)" by auto
    have "server (Some F) (PutRequest kMkdir p name me @ EncodeFixed32 mode) s = Some (Okay, Reply ss (EncodeStat x), s')"
      using x by (simp add: operation_request [OF assms(1)] MkdirOperation_def request)
    from reply [OF this v]
    show "MkdirCli (server (Some F)) \<lparr>lo_parent = p, lo_name = name, lo_me = me, mo_mode = mode\<rparr> stat s =
        Some (code_only ss, if ok ss then w else None, s')"
      using len x by (simp add: MkdirCli_def in_buf_def)
  qed
qed

lemma MkflsCli_request:
  "PutFixed32 (PutFixed32 (PutUser (PutLengthPrefixedSlice (PutLookupStat (PutFixed32 [] (word_of_nat (op_value op))) p) name) me) n) mode =
   PutRequest op p name me @ EncodeFixed32 n @ EncodeFixed32 mode"
  by (simp add: PutRequest_def PutUser_def PutLookupStat_def PutFixed32_def PutFixed64_def PutLengthPrefixedSlice_eq
      EncodeLookupStat_def EncodeUser_def)

lemma carried_Mkfls:
  assumes "length namearr < 2 ^ 32"
  shows "carried (map_option (\<lambda>(ss, n, s). (ss, Some n, s)) (if_Mkfls F me p namearr mode n s))
    (MkflsCli (server (Some F)) \<lparr>lo_parent = p, lo_name = namearr, lo_me = me, mo_mode = mode, mo_n = n\<rparr> s)"
proof (rule carriedI)
  fix ss w s'
  assume "map_option (\<lambda>(ss, n, s). (ss, Some n, s)) (if_Mkfls F me p namearr mode n s) = Some (ss, w, s')" and v: "valid_status ss"
  then obtain m where m: "if_Mkfls F me p namearr mode n s = Some (ss, m, s')" "w = Some m" by auto
  let ?c = "PutRequest kMkfls p namearr me @ EncodeFixed32 n @ EncodeFixed32 mode"
  have "GetRequest GetTwo ?c = Some ((p, namearr, me, n, mode), [])"
    using GetRequest_enc [OF assms, of GetTwo kMkfls p me "EncodeFixed32 n @ EncodeFixed32 mode"] GetFixed32_enc [of mode "[]"]
    by (simp add: GetTwo_def GetFixed32_enc)
  then have call: "server (Some F) ?c s = Some (Okay, Reply ss (EncodeFixed32 m), s')"
    using m by (simp add: operation_request [OF assms] MkflsOperation_def)
  have "stub GetFixed32 ?c (server (Some F)) s = Some (code_only ss, if ok ss then Some m else None, s')"
    by (rule stub_Reply [where r = "[]" and body = "EncodeFixed32 m"]) (use call v GetFixed32_enc [of _ "[]"] in simp_all)
  then show "MkflsCli (server (Some F)) \<lparr>lo_parent = p, lo_name = namearr, lo_me = me, mo_mode = mode, mo_n = n\<rparr> s =
      Some (code_only ss, if ok ss then w else None, s')"
    using m by (simp add: MkflsCli_def MkflsCli_request [of kMkfls, simplified])
qed

lemma carried_Bukin:
  assumes "length dir < 2 ^ 32" and "length (EncodeLengthPrefixedSlice dir) \<le> 148"
  shows "carried (map_option (\<lambda>(ss, s). (ss, Some (), s)) (if_Bukin F me p (string_of_slice dir) s))
    (map_option (\<lambda>(st, s). (st, if ok st then Some () else None, s))
      (BukinCli (server (Some F)) \<lparr>lo_parent = p, lo_name = dir, lo_me = me\<rparr> s))"
proof (rule carriedI)
  fix ss w s'
  assume "map_option (\<lambda>(ss, s). (ss, Some (), s)) (if_Bukin F me p (string_of_slice dir) s) = Some (ss, w, s')" and v: "valid_status ss"
  then have m: "if_Bukin F me p (string_of_slice dir) s = Some (ss, s')" "w = Some ()" by auto
  let ?c = "PutRequest kBukin p dir me"
  have call: "server (Some F) ?c s = Some (Okay, Reply ss [], s')"
    using operation_request [OF assms(1), of "Some F" kBukin p me "[]" s] GetRequest_enc [OF assms(1), of GetNothing kBukin p me "[]"] m
    by (simp add: BukinOperation_def GetNothing_def)
  have "stub GetNothing ?c (server (Some F)) s = Some (code_only ss, if ok ss then Some () else None, s')"
    by (rule stub_Reply [where r = "[]" and body = "[]"]) (use call v in \<open>simp_all add: GetNothing_def\<close>)
  moreover have "ok (code_only ss) = ok ss" by (cases ss) simp_all
  ultimately show "map_option (\<lambda>(st, s). (st, if ok st then Some () else None, s))
      (BukinCli (server (Some F)) \<lparr>lo_parent = p, lo_name = dir, lo_me = me\<rparr> s) = Some (code_only ss, if ok ss then w else None, s')"
    using m assms(2) by (simp add: BukinCli_def in_buf_def kBufSize_def length_PutRequest)
qed

section \<open>Properties\<close>

text \<open>
  C11. A remote call is the local call. Over a server that dispatches to \<open>F\<close>, each of the six client stubs has the effect
  of the call on \<open>F\<close> and returns what it returns: on success the same result (of a \<^verbatim>\<open>Stat\<close> the five fields that are sent;
  the caller's other fields stay), on an error the same code without its message. Names have at most 142 bytes.
\<close>

theorem remote_call_is_local_call:
  assumes "length name \<le> 142" and "length namearr < 2 ^ 32"
  shows "let o1 = \<lparr>lo_parent = p, lo_name = name, lo_me = me\<rparr>; o2 = \<lparr>lo_parent = p, lo_name = name, lo_me = me, mo_mode = mode\<rparr>;
      o3 = \<lparr>lo_parent = p, lo_name = namearr, lo_me = me, mo_mode = mode, mo_n = n\<rparr>; net = server (Some F)
    in carried (if_Lokup F me p name s) (LokupCli net o1 s) \<and>
       carried (map_option (\<lambda>(ss, v, s). (ss, map_option (received stat) v, s)) (if_Lstat F me p name s)) (LstatCli net o1 stat s) \<and>
       carried (map_option (\<lambda>(ss, x, s). (ss, Some (received stat x), s)) (if_Mkfle F me p name mode s)) (MkfleCli net o2 stat s) \<and>
       carried (map_option (\<lambda>(ss, x, s). (ss, Some (received stat x), s)) (if_Mkdir F me p name mode s)) (MkdirCli net o2 stat s) \<and>
       carried (map_option (\<lambda>(ss, n, s). (ss, Some n, s)) (if_Mkfls F me p namearr mode n s)) (MkflsCli net o3 s) \<and>
       carried (map_option (\<lambda>(ss, s). (ss, Some (), s)) (if_Bukin F me p (string_of_slice name) s))
         (map_option (\<lambda>(st, s). (st, if ok st then Some () else None, s)) (BukinCli net o1 s))"
proof -
  have l: "length name < 2 ^ 32" "length (EncodeLengthPrefixedSlice name) \<le> 144"
    using assms(1) length_lpslice(2,3) [of name] by (cases "length name < 128"; simp)+
  have l': "length (EncodeLengthPrefixedSlice name) \<le> 148" using l(2) by simp
  show ?thesis
    unfolding Let_def
    by (intro conjI carried_Lokup carried_Lstat carried_mknod carried_Mkfls carried_Bukin l l' assms(2))
qed

lemma remote_call_is_local_call_witness:
  "\<forall>st p u (s :: nat). LokupCli (server (Some (FilesystemWrapper st))) \<lparr>lo_parent = p, lo_name = [97], lo_me = u\<rparr> s =
     Some (NotSupported [], None, s)"
proof (intro allI)
  fix st p u and s :: nat
  have "carried (if_Lokup (FilesystemWrapper st) u p [97] s) (LokupCli (server (Some (FilesystemWrapper st))) \<lparr>lo_parent = p, lo_name = [97], lo_me = u\<rparr> s)"
    using remote_call_is_local_call [where name = "[97]" and namearr = "[]" and p = p and me = u and F = "FilesystemWrapper st" and s = s]
    unfolding Let_def by simp
  then show "LokupCli (server (Some (FilesystemWrapper st))) \<lparr>lo_parent = p, lo_name = [97], lo_me = u\<rparr> s = Some (NotSupported [], None, s)"
    by (simp add: carried_def FilesystemWrapper_def valid_status_def)
qed

text \<open>
  C15. Damaged requests. A message too short for an operation is refused, and so is every strict prefix of a request, by
  each of the six handlers: without a reply and without touching the file system, whether or not one is set. But an
  operation that the table does not have makes the server read outside of it.
\<close>

theorem damaged_requests_refused:
  assumes "length name < 2 ^ 32"
  shows "(\<forall>m. length m < 4 \<longrightarrow> server fs m s = Some (InvalidArgument ''Bad rpc req'', [], s)) \<and>
    (\<forall>op x m t. m @ t = PutRequest op p name me @ x \<longrightarrow> t \<noteq> [] \<longrightarrow>
        length x = (case op of kMkdir \<Rightarrow> 4 | kMkfle \<Rightarrow> 4 | kMkfls \<Rightarrow> 8 | _ \<Rightarrow> 0) \<longrightarrow>
        (\<exists>e. server fs m s = Some (InvalidArgument e, [], s))) \<and>
    (\<forall>m. 4 \<le> length m \<longrightarrow> kNumOps \<le> unat (DecodeFixed32 m) \<longrightarrow> server fs m s = None)"
proof (intro conjI allI impI)
  show short: "server fs m s = Some (InvalidArgument ''Bad rpc req'', [], s)" if "length m < 4" for m
    using that by (simp add: FilesystemServer_Call_def)
  show "server fs m s = None" if "4 \<le> length m" "kNumOps \<le> unat (DecodeFixed32 m)" for m
    using that by (simp add: FilesystemServer_Call_def SetFs_def hmap_new kNumOps_def Let_def)
  fix op x m t
  assume m: "m @ t = PutRequest op p name me @ x" "t \<noteq> []"
    and x: "length x = (case op of kMkdir \<Rightarrow> 4 | kMkfle \<Rightarrow> 4 | kMkfls \<Rightarrow> 8 | _ \<Rightarrow> 0)"
  show "\<exists>e. server fs m s = Some (InvalidArgument e, [], s)"
  proof (cases "length m < 4")
    case True
    then show ?thesis using short by blast
  next
    case False
    have "take 4 (m @ t) = EncodeFixed32 (word_of_nat (op_value op))" unfolding m(1) PutRequest_def by simp
    then have "take 4 m = EncodeFixed32 (word_of_nat (op_value op))" using False by simp
    then have "m = EncodeFixed32 (word_of_nat (op_value op)) @ drop 4 m" by (metis append_take_drop_id)
    then have call: "server fs m s = operation op fs m s" using server_dispatch by metis
    have r0: "GetRequest GetNothing m = None" if "x = []"
      using request0_stable.strict_prefix_refused [OF _ m(2)] GetRequest_enc [OF assms, of GetNothing op p me "[]"] m(1) that
      by (simp add: GetNothing_def)
    have r1: "GetRequest GetFixed32 m = None" if "length x = 4"
      using request1_stable.strict_prefix_refused [OF _ m(2)] GetRequest_enc [OF assms, of GetFixed32 op p me x] m(1) that
      by (simp add: GetFixed32_def)
    have r2: "GetRequest GetTwo m = None" if "length x = 8"
      using request2_stable.strict_prefix_refused [OF _ m(2)] GetRequest_enc [OF assms, of GetTwo op p me x] m(1) that
      by (simp add: GetTwo_def GetFixed32_def)
    show ?thesis
      unfolding call using x r0 r1 r2
      by (cases op) (simp_all add: LokupOperation_def MkdirOperation_def MkfleOperation_def MkflsOperation_def BukinOperation_def
          LstatOperation_def bad_input_def)
  qed
qed

lemma damaged_requests_refused_witness:
  "\<forall>p me (s :: nat). \<exists>e. server None (butlast (PutRequest kLokup p [97] me)) s = Some (InvalidArgument e, [], s)"
proof (intro allI)
  fix p me and s :: nat
  let ?r = "PutRequest kLokup p [97] me"
  have "?r \<noteq> []" by (metis length_PutRequest add_is_0 list.size(3) zero_neq_numeral)
  then have "butlast ?r @ [last ?r] = ?r @ []" by simp
  then show "\<exists>e. server None (butlast ?r) s = Some (InvalidArgument e, [], s)"
    by (intro damaged_requests_refused [THEN conjunct2, THEN conjunct1, rule_format, where name = "[97]" and op = kLokup and x = "[]" and
          t = "[last ?r]" and p = p and me = me]) simp_all
qed

text \<open>
  C16. The request buffer. The stubs build a request in a buffer of 200 bytes and check its length only afterwards: a name of
  147 bytes or more in \<^verbatim>\<open>LokupCli\<close> and \<^verbatim>\<open>LstatCli\<close>, of 143 or more in \<^verbatim>\<open>MkfleCli\<close> and \<^verbatim>\<open>MkdirCli\<close>, fails the assertion
  (and without assertions has overrun the buffer), although file names have up to 255 bytes.
\<close>

theorem long_names_overrun_request_buffer:
  assumes "length name \<le> 255"
  shows "let o1 = \<lparr>lo_parent = p, lo_name = name, lo_me = me\<rparr>; o2 = \<lparr>lo_parent = p, lo_name = name, lo_me = me, mo_mode = mode\<rparr>
    in (147 \<le> length name \<longrightarrow> LokupCli call o1 s = None \<and> LstatCli call o1 stat s = None) \<and>
       (143 \<le> length name \<longrightarrow> MkfleCli call o2 stat s = None \<and> MkdirCli call o2 stat s = None) \<and>
       (length name \<le> 146 \<longrightarrow> LokupCli call o1 s = stub GetLookupStat (PutRequest kLokup p name me) call s) \<and>
       (length name \<le> 142 \<longrightarrow> MkfleCli call o2 stat s = stub (GetStat stat) (PutRequest kMkfle p name me @ EncodeFixed32 mode) call s)"
  using assms length_lpslice(2,3) [of name]
  by (cases "length name < 128")
    (simp_all add: Let_def LokupCli_def LstatCli_def MkfleCli_def MkdirCli_def in_buf_def length_PutRequest kBufSize_def)

lemma long_names_overrun_request_buffer_witness:
  "\<forall>call p me (s :: nat). LokupCli call \<lparr>lo_parent = p, lo_name = replicate 150 97, lo_me = me\<rparr> s = None"
proof (intro allI)
  fix call p me and s :: nat
  show "LokupCli call \<lparr>lo_parent = p, lo_name = replicate 150 97, lo_me = me\<rparr> s = None"
    using long_names_overrun_request_buffer [where name = "replicate 150 97" and p = p and me = me and call = call and s = s]
    by (simp add: Let_def)
qed

end
