(* ===== verification/Fscli.thy ===== *)
theory Fscli
  imports Fscom Fs_Close Prng
begin

text \<open>
  \<^verbatim>\<open>fscli.h\<close> and \<^verbatim>\<open>fscli.cc\<close>: \<^verbatim>\<open>FilesystemCli\<close>, the client. It resolves path names one component at a time, keeps the
  results of its lookups as leases, and sends requests to a local \<^verbatim>\<open>Filesystem\<close> or to the server a name belongs to.
  Every object of the client lives in a heap and is named by its address; \<open>world\<close> is what the client talks to (the state of
  the local file system or the network and its servers). A call is modelled as it runs alone; \<open>None\<close> is a failed
  assertion, the use of an object that is not live or not set, or a wait that nobody ends.
\<close>

section \<open>State\<close>

datatype LokupMode = kRegular | kBatchedCreats | kBulkIn

record FilesystemCliOptions =
  per_partition_lease_lru_size :: nat
  partition_lru_size :: nat
  batch_size :: nat
  cli_skip_perm_checks :: bool

definition default_FilesystemCliOptions :: FilesystemCliOptions where
  "default_FilesystemCliOptions =
     \<lparr>per_partition_lease_lru_size = 4096, partition_lru_size = 4096, batch_size = 16, cli_skip_perm_checks = False\<rparr>"

text \<open>The options of a table for bulk insertion (\<^verbatim>\<open>fsbuk.h\<close>).\<close>

record BukDbOptions =
  bk_write_ahead_log_buffer :: u64
  bk_manifest_buffer :: u64
  bk_table_buffer :: u64
  bk_memtable_size :: nat
  bk_block_size :: nat
  bk_filter_bits_per_key :: nat
  bk_block_restart_interval :: int
  bk_detach_dir_on_close :: bool
  bk_use_default_logger :: bool
  bk_disable_write_ahead_logging :: bool
  bk_compression :: bool

definition default_BukDbOptions :: BukDbOptions where
  "default_BukDbOptions =
     \<lparr>bk_write_ahead_log_buffer = 4096, bk_manifest_buffer = 4096, bk_table_buffer = 262144, bk_memtable_size = 8388608,
      bk_block_size = 4096, bk_filter_bits_per_key = 10, bk_block_restart_interval = 16, bk_detach_dir_on_close = False,
      bk_use_default_logger = False, bk_disable_write_ahead_logging = False, bk_compression = False\<rparr>"

text \<open>The class \<^verbatim>\<open>BukDb\<close>, the table of one bulk insertion; environments are numbers.\<close>

record ('w, 'b) BukDbIf =
  bk_DestroyDb :: "string \<Rightarrow> nat \<Rightarrow> 'w \<Rightarrow> 'w"
  bk_new :: "BukDbOptions \<Rightarrow> nat \<Rightarrow> 'b"
  bk_Open :: "string \<Rightarrow> 'b \<Rightarrow> 'w \<Rightarrow> (status \<times> 'b \<times> 'w) option"
  bk_Put :: "DirId \<Rightarrow> slice \<Rightarrow> Stat \<Rightarrow> 'b \<Rightarrow> 'w \<Rightarrow> (status \<times> 'b \<times> 'w) option"
  bk_Flush :: "'b \<Rightarrow> 'w \<Rightarrow> (status \<times> 'b \<times> 'w) option"
  bk_delete :: "'b \<Rightarrow> 'w \<Rightarrow> 'w"

text \<open>The context of a caller; \<open>stubs\<close> is \<^verbatim>\<open>stubs_\<close>, null until the first remote call.\<close>

record 'w FilesystemCliCtx =
  bkid :: int
  bkenv :: nat
  bkoptions :: BukDbOptions
  bkrt :: string
  ctx_who :: User
  ctx_rnd :: u32
  stubs :: "'w rpc option list option"

definition new_FilesystemCliCtx :: "u32 \<Rightarrow> User \<Rightarrow> 'w FilesystemCliCtx" where
  "new_FilesystemCliCtx seed u =
     \<lparr>bkid = 0, bkenv = 0, bkoptions = default_BukDbOptions, bkrt = [], ctx_who = u, ctx_rnd = mk_Random seed, stubs = None\<rparr>"

text \<open>The control block of a directory. The giga options are those of the index.\<close>

record CliDir =
  d_id :: DirId
  d_key :: slice
  d_hash :: u32
  d_refs :: nat
  d_giga :: "DirIndex option"
  d_fetched :: bool

record Partition =
  p_dir :: nat
  p_key :: slice
  p_hash :: u32
  p_index :: nat
  p_handle :: "nat option"
  cached_leases :: "nat LRUCache"
  leases :: "nat HashTable"
  p_busy :: "bool list"

record Lease =
  le_rep :: LookupStat
  le_key :: slice
  le_hash :: u32
  le_mode :: LokupMode
  le_part :: nat
  le_handle :: "nat option"
  le_out :: bool
  le_batch :: "nat option"
  le_bk :: "nat option"

text \<open>\<^verbatim>\<open>commit_status\<close>: 0 if not committed, 1 if being committed, 2 if committed.\<close>

record WriBuf =
  wb_namearr :: slice
  wb_n :: u32

record BatchedCreates =
  bc_ctx :: nat
  wribufs :: "WriBuf list"
  bc_mode :: u32
  bc_refs :: nat
  bc_commit :: nat
  bc_status :: status
  bc_dir :: nat

record 'b BulkIn =
  bi_dbloc :: string
  bi_db :: "'b option"
  bi_stat :: Stat

record 'b BulkInserts =
  in_ctx :: nat
  bulks :: "'b BulkIn list"
  in_refs :: nat
  in_commit :: nat
  in_status :: status
  in_dir :: nat

text \<open>\<open>clock\<close> is the sequence of the results of \<^verbatim>\<open>CurrentMicros()\<close> and \<open>ticks\<close> the number of calls so far.\<close>

record ('w, 'b) FilesystemCli =
  cdirs :: "nat HashTable"
  dirlist :: "nat list"
  dir_mem :: "nat \<Rightarrow> CliDir option"
  plru :: "nat LRUCache"
  pars :: "nat HashTable"
  part_mem :: "nat \<Rightarrow> Partition option"
  lease_mem :: "nat \<Rightarrow> Lease option"
  batch_mem :: "nat \<Rightarrow> BatchedCreates option"
  bulk_mem :: "nat \<Rightarrow> 'b BulkInserts option"
  ctx_mem :: "nat \<Rightarrow> 'w FilesystemCliCtx option"
  next_addr :: nat
  rtstat :: Stat
  rtlokupstat :: LookupStat
  cli_options :: FilesystemCliOptions
  cli_bukdb :: "('w, 'b) BukDbIf"
  cli_fs :: "'w FilesystemIf option"
  cli_rpc :: "(string \<Rightarrow> 'w rpc) option"
  uri_mapper :: "nat \<Rightarrow> nat \<Rightarrow> string"
  srvs :: nat
  ports_per_srv :: nat
  world :: 'w
  clock :: "nat \<Rightarrow> u64"
  ticks :: nat

type_synonym ('w, 'b, 'a) cli_op = "('w, 'b) FilesystemCli \<Rightarrow> ('a \<times> ('w, 'b) FilesystemCli) option"

text \<open>A lease pointer; \<open>None\<close> is \<^verbatim>\<open>&rtlease_\<close>.\<close>

type_synonym lease_ptr = "nat option"

definition lease_rep :: "('w, 'b) FilesystemCli \<Rightarrow> lease_ptr \<Rightarrow> LookupStat option" where
  "lease_rep s l = (case l of None \<Rightarrow> Some (rtlokupstat s) | Some a \<Rightarrow> map_option le_rep (lease_mem s a))"

definition CurrentMicros :: "('w, 'b) FilesystemCli \<Rightarrow> u64 \<times> ('w, 'b) FilesystemCli" where
  "CurrentMicros s = (clock s (ticks s), s\<lparr>ticks := ticks s + 1\<rparr>)"

section \<open>Directories\<close>

definition DirKey :: "DirId \<Rightarrow> slice" where
  "DirKey i = EncodeFixed64 (dno i) @ EncodeFixed64 (ino i)"

definition PartKey :: "DirId \<Rightarrow> nat \<Rightarrow> slice" where
  "PartKey i ix = EncodeFixed64 (dno i) @ EncodeFixed64 (ino i) @ EncodeFixed32 (word_of_nat ix)"

definition HashKey :: "slice \<Rightarrow> u32" where
  "HashKey k = Hash k 0"

definition dir_ent :: "nat \<Rightarrow> CliDir \<Rightarrow> nat HashEnt" where
  "dir_ent a d = \<lparr>e_hash = d_hash d, e_key = d_key d, e_ptr = a\<rparr>"

definition AcquireDir_cli :: "DirId \<Rightarrow> ('w, 'b, nat) cli_op" where
  "AcquireDir_cli i s =
     (let key = DirKey i; hash = HashKey key; pos = FindPointer (cdirs s) key hash
      in case slot_entry (cdirs s) pos of
           Some ent \<Rightarrow> do {
             d \<leftarrow> dir_mem s (e_ptr ent);
             if d_id d = i
             then Some (e_ptr ent, s\<lparr>dir_mem := (dir_mem s)(e_ptr ent \<mapsto> d\<lparr>d_refs := d_refs d + 1\<rparr>)\<rparr>) else None}
         | None \<Rightarrow>
             (let a = next_addr s;
                  d = \<lparr>d_id = i, d_key = key, d_hash = hash, d_refs = 1, d_giga = None, d_fetched = False\<rparr>
              in Some (a, s\<lparr>next_addr := a + 1, dir_mem := (dir_mem s)(a \<mapsto> d), dirlist := dirlist s @ [a],
                            cdirs := fst (Inject (cdirs s) (dir_ent a d) pos)\<rparr>)))"

definition ReleaseDir :: "nat \<Rightarrow> ('w, 'b) FilesystemCli \<Rightarrow> ('w, 'b) FilesystemCli option" where
  "ReleaseDir a s = do {
     d \<leftarrow> dir_mem s a;
     if d_refs d = 0 then None
     else if d_refs d = 1
          then Some (s\<lparr>cdirs := fst (Remove_key (cdirs s) (d_key d) (d_hash d)), dirlist := removeAll a (dirlist s),
                       dir_mem := (dir_mem s)(a := None)\<rparr>)
          else Some (s\<lparr>dir_mem := (dir_mem s)(a \<mapsto> d\<lparr>d_refs := d_refs d - 1\<rparr>)\<rparr>)}"

text \<open>The index is made locally: there are as many virtual servers as servers.\<close>

definition FetchDir :: "nat \<Rightarrow> ('w, 'b, status) cli_op" where
  "FetchDir a s = do {
     d \<leftarrow> dir_mem s a;
     if d_fetched d then Some (Okay, s)
     else do {
       let giga_opts = \<lparr>num_servers = srvs s, num_virtual_servers = srvs s, paranoid_checks = False\<rparr>;
       giga \<leftarrow> new_DirIndex (ucast (PickupServer (d_id d))) giga_opts;
       giga \<leftarrow> SetAll giga;
       Some (Okay, s\<lparr>dir_mem := (dir_mem s)(a \<mapsto> d\<lparr>d_giga := Some giga, d_fetched := True\<rparr>)\<rparr>)}}"

definition select_server :: "nat \<Rightarrow> slice \<Rightarrow> ('w, 'b) FilesystemCli \<Rightarrow> nat option" where
  "select_server a name s = do { d \<leftarrow> dir_mem s a; giga \<leftarrow> d_giga d; SelectServer giga name }"

text \<open>\<^verbatim>\<open>*rv\<close> is set only when there is a name.\<close>

definition Fetch1 :: "slice \<Rightarrow> nat \<Rightarrow> ('w, 'b, status \<times> nat option) cli_op" where
  "Fetch1 name a s = do {
     (st, s) \<leftarrow> FetchDir a s;
     if ok st \<and> name \<noteq> [] then do { i \<leftarrow> select_server a name s; Some ((st, Some i), s) }
     else Some ((st, None), s)}"

definition AcquireAndFetch :: "LookupStat \<Rightarrow> slice \<Rightarrow> ('w, 'b, status \<times> nat \<times> nat option) cli_op" where
  "AcquireAndFetch parent name s = do {
     (a, s) \<leftarrow> AcquireDir_cli (DirId_LookupStat parent) s;
     ((st, i), s) \<leftarrow> Fetch1 name a s;
     if \<not> ok st then do { s \<leftarrow> ReleaseDir a s; Some ((st, a, i), s) } else Some ((st, a, i), s)}"

section \<open>Leases and partitions\<close>

definition lease_ent :: "nat \<Rightarrow> Lease \<Rightarrow> nat HashEnt" where
  "lease_ent a l = \<lparr>e_hash = le_hash l, e_key = le_key l, e_ptr = a\<rparr>"

definition part_ent :: "nat \<Rightarrow> Partition \<Rightarrow> nat HashEnt" where
  "part_ent a p = \<lparr>e_hash = p_hash p, e_key = p_key p, e_ptr = a\<rparr>"

definition set_part :: "nat \<Rightarrow> Partition \<Rightarrow> ('w, 'b) FilesystemCli \<Rightarrow> ('w, 'b) FilesystemCli" where
  "set_part pa p s = s\<lparr>part_mem := (part_mem s)(pa \<mapsto> p)\<rparr>"

definition set_lease :: "nat \<Rightarrow> Lease \<Rightarrow> ('w, 'b) FilesystemCli \<Rightarrow> ('w, 'b) FilesystemCli" where
  "set_lease a l s = s\<lparr>lease_mem := (lease_mem s)(a \<mapsto> l)\<rparr>"

text \<open>Take a lease out of the table of its partition.\<close>

definition unlist_lease :: "nat \<Rightarrow> Lease \<Rightarrow> ('w, 'b) FilesystemCli \<Rightarrow> ('w, 'b) FilesystemCli option" where
  "unlist_lease a l s = do {
     p \<leftarrow> part_mem s (le_part l);
     Some (set_part (le_part l) (p\<lparr>leases := fst (Remove_ent (leases p) (lease_ent a l))\<rparr>) s)}"

definition DeleteLease :: "slice \<Rightarrow> nat \<Rightarrow> ('w, 'b) FilesystemCli \<Rightarrow> ('w, 'b) FilesystemCli option" where
  "DeleteLease key a s = do {
     l \<leftarrow> lease_mem s a;
     if le_key l \<noteq> key \<or> le_bk l \<noteq> None \<or> le_batch l \<noteq> None then None
     else do {
       s \<leftarrow> (if \<not> le_out l then unlist_lease a l s else Some s);
       Some (s\<lparr>lease_mem := (lease_mem s)(a := None)\<rparr>)}}"

fun DeleteLeases :: "(slice \<times> nat) list \<Rightarrow> ('w, 'b) FilesystemCli \<Rightarrow> ('w, 'b) FilesystemCli option" where
  "DeleteLeases [] s = Some s"
| "DeleteLeases ((k, a) # xs) s = (case DeleteLease k a s of None \<Rightarrow> None | Some s \<Rightarrow> DeleteLeases xs s)"

text \<open>An operation of the lease cache of a partition made it \<open>c\<close>: the deleters it calls run.\<close>

definition put_cache :: "nat \<Rightarrow> nat LRUCache \<Rightarrow> ('w, 'b) FilesystemCli \<Rightarrow> ('w, 'b) FilesystemCli option" where
  "put_cache pa c s = do {
     p \<leftarrow> part_mem s pa;
     DeleteLeases (drop (length (deleter_calls (cached_leases p))) (deleter_calls c)) (set_part pa (p\<lparr>cached_leases := c\<rparr>) s)}"

definition lease_cache_op :: "nat \<Rightarrow> (nat LRUCache \<Rightarrow> nat LRUCache option) \<Rightarrow> ('w, 'b) FilesystemCli \<Rightarrow> ('w, 'b) FilesystemCli option" where
  "lease_cache_op pa f s = do { p \<leftarrow> part_mem s pa; c \<leftarrow> f (cached_leases p); put_cache pa c s }"

text \<open>\<^verbatim>\<open>DeletePartition\<close> frees the leases that are cached, then the partition and its reference to the directory.\<close>

definition DeletePartition :: "slice \<Rightarrow> nat \<Rightarrow> ('w, 'b) FilesystemCli \<Rightarrow> ('w, 'b) FilesystemCli option" where
  "DeletePartition key pa s = do {
     p \<leftarrow> part_mem s pa;
     if p_key p \<noteq> key then None
     else do {
       s \<leftarrow> lease_cache_op pa delete_LRUCache (s\<lparr>pars := fst (Remove_key (pars s) key (p_hash p))\<rparr>);
       p \<leftarrow> part_mem s pa;
       if \<not> HashTable_Empty (leases p) then None
       else do { s \<leftarrow> ReleaseDir (p_dir p) s; Some (s\<lparr>part_mem := (part_mem s)(pa := None)\<rparr>) }}}"

fun DeletePartitions :: "(slice \<times> nat) list \<Rightarrow> ('w, 'b) FilesystemCli \<Rightarrow> ('w, 'b) FilesystemCli option" where
  "DeletePartitions [] s = Some s"
| "DeletePartitions ((k, a) # xs) s = (case DeletePartition k a s of None \<Rightarrow> None | Some s \<Rightarrow> DeletePartitions xs s)"

definition put_plru :: "nat LRUCache \<Rightarrow> ('w, 'b) FilesystemCli \<Rightarrow> ('w, 'b) FilesystemCli option" where
  "put_plru c s = DeletePartitions (drop (length (deleter_calls (plru s))) (deleter_calls c)) (s\<lparr>plru := c\<rparr>)"

definition part_handle_op :: "(nat LRUCache \<Rightarrow> nat \<Rightarrow> nat LRUCache option) \<Rightarrow> nat \<Rightarrow> ('w, 'b) FilesystemCli \<Rightarrow> ('w, 'b) FilesystemCli option" where
  "part_handle_op f pa s = do { p \<leftarrow> part_mem s pa; h \<leftarrow> p_handle p; c \<leftarrow> f (plru s) h; put_plru c s }"

definition ReleasePartition :: "nat \<Rightarrow> ('w, 'b) FilesystemCli \<Rightarrow> ('w, 'b) FilesystemCli option" where
  "ReleasePartition = part_handle_op lru_Release"

definition RefPartition :: "nat \<Rightarrow> ('w, 'b) FilesystemCli \<Rightarrow> ('w, 'b) FilesystemCli option" where
  "RefPartition = part_handle_op lru_Ref"

definition new_Partition :: "FilesystemCliOptions \<Rightarrow> nat \<Rightarrow> nat \<Rightarrow> slice \<Rightarrow> u32 \<Rightarrow> Partition" where
  "new_Partition opts da ix key hash =
     \<lparr>p_dir = da, p_key = key, p_hash = hash, p_index = ix, p_handle = None,
      cached_leases = new_LRUCache (per_partition_lease_lru_size opts), leases = new_HashTable, p_busy = replicate kWays False\<rparr>"

definition create_partition :: "nat \<Rightarrow> nat \<Rightarrow> slice \<Rightarrow> u32 \<Rightarrow> slot \<Rightarrow> ('w, 'b, nat) cli_op" where
  "create_partition da ix key hash pos s = do {
     d \<leftarrow> dir_mem s da;
     let pa = next_addr s;
     let p = new_Partition (cli_options s) da ix key hash;
     let s = s\<lparr>next_addr := pa + 1, part_mem := (part_mem s)(pa \<mapsto> p), pars := fst (Inject (pars s) (part_ent pa p) pos),
               dir_mem := (dir_mem s)(da \<mapsto> d\<lparr>d_refs := d_refs d + 1\<rparr>)\<rparr>;
     (c, h) \<leftarrow> lru_Insert (plru s) key hash pa 1;
     s \<leftarrow> put_plru c s;
     Some (pa, set_part pa (p\<lparr>p_handle := Some h\<rparr>) s)}"

definition AcquirePartition :: "nat \<Rightarrow> nat \<Rightarrow> ('w, 'b, nat) cli_op" where
  "AcquirePartition da ix s = do {
     d \<leftarrow> dir_mem s da;
     let key = PartKey (d_id d) ix;
     let hash = HashKey key;
     (c, found) \<leftarrow> lru_Lookup (plru s) key hash;
     let s = s\<lparr>plru := c\<rparr>;
     case found of
       Some h \<Rightarrow> do {
         e \<leftarrow> entries c h;
         p \<leftarrow> part_mem s (l_value e);
         if p_handle p = Some h then Some (l_value e, s) else None}
     | None \<Rightarrow>
         (let pos = FindPointer (pars s) key hash
          in case slot_entry (pars s) pos of
               None \<Rightarrow> create_partition da ix key hash pos s
             | Some ent \<Rightarrow> do {
                 p \<leftarrow> part_mem s (e_ptr ent);
                 h \<leftarrow> p_handle p;
                 e \<leftarrow> entries (plru s) h;
                 if l_value e \<noteq> e_ptr ent then None
                 else do { c \<leftarrow> lru_Ref (plru s) h; Some (e_ptr ent, s\<lparr>plru := c\<rparr>) }})}"

text \<open>\<^verbatim>\<open>Release(Lease* )\<close>: the reference to the lease and the one to its partition.\<close>

definition release_lease_handle :: "nat \<Rightarrow> ('w, 'b) FilesystemCli \<Rightarrow> ('w, 'b) FilesystemCli option" where
  "release_lease_handle a s = do {
     l \<leftarrow> lease_mem s a;
     h \<leftarrow> le_handle l;
     lease_cache_op (le_part l) (\<lambda>c. lru_Release c h) s}"

definition ReleaseLease :: "lease_ptr \<Rightarrow> ('w, 'b) FilesystemCli \<Rightarrow> ('w, 'b) FilesystemCli option" where
  "ReleaseLease lp s =
     (case lp of
        None \<Rightarrow> Some s
      | Some a \<Rightarrow> do {
          l \<leftarrow> lease_mem s a;
          s \<leftarrow> release_lease_handle a s;
          ReleasePartition (le_part l) s})"

section \<open>Requests\<close>

text \<open>
  The stub of a server; with several ports per server one of them is drawn. What \<^verbatim>\<open>Next()\<close> returns is below 2147483647, so it is
  the same as an \<^verbatim>\<open>int\<close>.
\<close>

definition PrepareStub :: "nat \<Rightarrow> nat \<Rightarrow> ('w, 'b, 'w rpc) cli_op" where
  "PrepareStub ca srv_idx s = do {
     ctx \<leftarrow> ctx_mem s ca;
     open_stub \<leftarrow> cli_rpc s;
     if srvs s \<le> srv_idx then None
     else do {
       let sts = (case stubs ctx of None \<Rightarrow> replicate (srvs s * ports_per_srv s) None | Some sts \<Rightarrow> sts);
       let rnd = (if 1 < ports_per_srv s then Random_Next (ctx_rnd ctx) else ctx_rnd ctx);
       let port_idx = (if 1 < ports_per_srv s then unat rnd mod ports_per_srv s else 0);
       let i = srv_idx * ports_per_srv s + port_idx;
       if length sts \<le> i then None
       else do {
         let r = (case sts ! i of None \<Rightarrow> open_stub (uri_mapper s srv_idx port_idx) | Some r \<Rightarrow> r);
         Some (r, s\<lparr>ctx_mem := (ctx_mem s)(ca \<mapsto> ctx\<lparr>ctx_rnd := rnd, stubs := Some (sts[i := Some r])\<rparr>)\<rparr>)}}}"

definition Nofs :: status where
  "Nofs = AssertionFailed ''No filesystem backend''"

text \<open>
  The switch that ends every request: the local file system if there is one, else the stub of server \<open>i\<close>, else nothing.
  \<open>dflt\<close> is what the output of the call is when it is not set.
\<close>

definition backend :: "nat \<Rightarrow> nat \<Rightarrow> 'a \<Rightarrow> ('w FilesystemIf \<Rightarrow> 'w \<Rightarrow> (status \<times> 'a \<times> 'w) option) \<Rightarrow>
    ('w rpc \<Rightarrow> 'w \<Rightarrow> (status \<times> 'a \<times> 'w) option) \<Rightarrow> ('w, 'b, status \<times> 'a) cli_op" where
  "backend ca i dflt local remote s =
     (case cli_fs s of
        Some F \<Rightarrow> map_option (\<lambda>(st, x, w). ((st, x), s\<lparr>world := w\<rparr>)) (local F (world s))
      | None \<Rightarrow>
          if cli_rpc s \<noteq> None
          then do { (r, s) \<leftarrow> PrepareStub ca i s; (st, x, w) \<leftarrow> remote r (world s); Some ((st, x), s\<lparr>world := w\<rparr>) }
          else Some ((Nofs, dflt), s))"

definition lokup_opts :: "LookupStat \<Rightarrow> slice \<Rightarrow> User \<Rightarrow> LokupOptions" where
  "lokup_opts p name me = \<lparr>lo_parent = p, lo_name = name, lo_me = me\<rparr>"

definition mkdir_opts :: "LookupStat \<Rightarrow> slice \<Rightarrow> User \<Rightarrow> u32 \<Rightarrow> MkdirOptions" where
  "mkdir_opts p name me mode = \<lparr>lo_parent = p, lo_name = name, lo_me = me, mo_mode = mode\<rparr>"

definition mkfls_opts :: "LookupStat \<Rightarrow> slice \<Rightarrow> User \<Rightarrow> u32 \<Rightarrow> u32 \<Rightarrow> MkflsOptions" where
  "mkfls_opts p name me mode n = \<lparr>lo_parent = p, lo_name = name, lo_me = me, mo_mode = mode, mo_n = n\<rparr>"

definition set_out :: "'a \<Rightarrow> (status \<times> 'a option \<times> 'w) option \<Rightarrow> (status \<times> 'a \<times> 'w) option" where
  "set_out dflt = map_option (\<lambda>(st, x, w). (st, case x of None \<Rightarrow> dflt | Some v \<Rightarrow> v, w))"

text \<open>The request of \<^verbatim>\<open>Lokup2\<close>.\<close>

definition remote_Lokup :: "nat \<Rightarrow> LookupStat \<Rightarrow> slice \<Rightarrow> nat \<Rightarrow> ('w, 'b, status \<times> LookupStat option) cli_op" where
  "remote_Lokup ca p name i s = do {
     ctx \<leftarrow> ctx_mem s ca;
     backend ca i None (\<lambda>F. if_Lokup F (ctx_who ctx) p name) (\<lambda>r. LokupCli r (lokup_opts p name (ctx_who ctx))) s}"

text \<open>The permission checks; they are those of the server, with the option of the client.\<close>

definition IsDirWriteOk_cli :: "FilesystemCliOptions \<Rightarrow> LookupStat \<Rightarrow> User \<Rightarrow> bool" where
  "IsDirWriteOk_cli opts parent u =
     (let mode = DirMode parent
      in if cli_skip_perm_checks opts then True
         else if uid u = 0 then True
         else if uid u = lUserId parent \<and> mode AND S_IWUSR = S_IWUSR then True
         else if gid u = lGroupId parent \<and> mode AND S_IWGRP = S_IWGRP then True
         else mode AND S_IWOTH = S_IWOTH)"

definition IsLookupOk_cli :: "FilesystemCliOptions \<Rightarrow> LookupStat \<Rightarrow> User \<Rightarrow> bool" where
  "IsLookupOk_cli opts parent u =
     (let mode = DirMode parent
      in if cli_skip_perm_checks opts then True
         else if uid u = 0 then True
         else if uid u = lUserId parent \<and> mode AND S_IXUSR = S_IXUSR then True
         else if gid u = lGroupId parent \<and> mode AND S_IXGRP = S_IXGRP then True
         else mode AND S_IXOTH = S_IXOTH)"

definition Mkfle2 :: "nat \<Rightarrow> LookupStat \<Rightarrow> slice \<Rightarrow> u32 \<Rightarrow> nat \<Rightarrow> Stat \<Rightarrow> ('w, 'b, status \<times> Stat) cli_op" where
  "Mkfle2 ca p name mode i stat s = do {
     ctx \<leftarrow> ctx_mem s ca;
     if \<not> IsDirWriteOk_cli (cli_options s) p (ctx_who ctx) then Some ((AccessDenied ''No write perm'', stat), s)
     else backend ca i stat (\<lambda>F. if_Mkfle F (ctx_who ctx) p name mode)
            (\<lambda>r w. set_out stat (MkfleCli r (mkdir_opts p name (ctx_who ctx) mode) stat w)) s}"

definition Mkdir2 :: "nat \<Rightarrow> LookupStat \<Rightarrow> slice \<Rightarrow> u32 \<Rightarrow> nat \<Rightarrow> Stat \<Rightarrow> ('w, 'b, status \<times> Stat) cli_op" where
  "Mkdir2 ca p name mode i stat s = do {
     ctx \<leftarrow> ctx_mem s ca;
     if \<not> IsDirWriteOk_cli (cli_options s) p (ctx_who ctx) then Some ((AccessDenied ''No write perm'', stat), s)
     else backend ca i stat (\<lambda>F. if_Mkdir F (ctx_who ctx) p name mode)
            (\<lambda>r w. set_out stat (MkdirCli r (mkdir_opts p name (ctx_who ctx) mode) stat w)) s}"

definition Lstat2 :: "nat \<Rightarrow> LookupStat \<Rightarrow> slice \<Rightarrow> nat \<Rightarrow> Stat \<Rightarrow> ('w, 'b, status \<times> Stat) cli_op" where
  "Lstat2 ca p name i stat s = do {
     ctx \<leftarrow> ctx_mem s ca;
     if \<not> IsLookupOk_cli (cli_options s) p (ctx_who ctx) then Some ((AccessDenied ''No x perm'', stat), s)
     else backend ca i stat (\<lambda>F w. set_out stat (if_Lstat F (ctx_who ctx) p name w))
            (\<lambda>r w. set_out stat (LstatCli r (lokup_opts p name (ctx_who ctx)) stat w)) s}"

text \<open>The number of files that were made is dropped.\<close>

definition Mkfls2 :: "nat \<Rightarrow> LookupStat \<Rightarrow> slice \<Rightarrow> u32 \<Rightarrow> u32 \<Rightarrow> nat \<Rightarrow> ('w, 'b, status) cli_op" where
  "Mkfls2 ca p namearr n mode i s = do {
     ctx \<leftarrow> ctx_mem s ca;
     if \<not> IsDirWriteOk_cli (cli_options s) p (ctx_who ctx) then Some (AccessDenied ''No write perm'', s)
     else do {
       ((st, _), s) \<leftarrow> backend ca i n (\<lambda>F. if_Mkfls F (ctx_who ctx) p namearr mode n)
         (\<lambda>r w. set_out n (MkflsCli r (mkfls_opts p namearr (ctx_who ctx) mode n) w)) s;
       Some (st, s)}}"

text \<open>The name of a table crosses the interface as bytes.\<close>

definition slice_of_string :: "string \<Rightarrow> slice" where
  "slice_of_string xs = map (\<lambda>c. word_of_nat (of_char c)) xs"

definition Bukin2 :: "nat \<Rightarrow> LookupStat \<Rightarrow> string \<Rightarrow> nat \<Rightarrow> ('w, 'b, status) cli_op" where
  "Bukin2 ca p bkdir i s = do {
     ctx \<leftarrow> ctx_mem s ca;
     if \<not> IsDirWriteOk_cli (cli_options s) p (ctx_who ctx) then Some (AccessDenied ''No write perm'', s)
     else do {
       ((st, _), s) \<leftarrow> backend ca i () (\<lambda>F w. map_option (\<lambda>(st, w). (st, (), w)) (if_Bukin F (ctx_who ctx) p bkdir w))
         (\<lambda>r w. map_option (\<lambda>(st, w). (st, (), w)) (BukinCli r (lokup_opts p (slice_of_string bkdir) (ctx_who ctx)) w)) s;
       Some (st, s)}}"

section \<open>Batches\<close>

definition CreateBatch :: "nat \<Rightarrow> LookupStat \<Rightarrow> ('w, 'b, status \<times> nat option) cli_op" where
  "CreateBatch ca parent s = do {
     ((st, da, _), s) \<leftarrow> AcquireAndFetch parent [] s;
     if \<not> ok st then Some ((st, None), s)
     else do {
       let a = next_addr s;
       let bc = \<lparr>bc_ctx = ca, wribufs = replicate (srvs s) \<lparr>wb_namearr = [], wb_n = 0\<rparr>, bc_mode = 0x1B0, bc_refs = 0,
                 bc_commit = 0, bc_status = Okay, bc_dir = da\<rparr>;
       Some ((st, Some a), s\<lparr>next_addr := a + 1, batch_mem := (batch_mem s)(a \<mapsto> bc)\<rparr>)}}"

text \<open>A number, as \<^verbatim>\<open>%d\<close> prints it; \<^verbatim>\<open>snprintf\<close> cuts the name at 49 characters.\<close>

definition decimal_int :: "int \<Rightarrow> string" where
  "decimal_int i = (if i < 0 then CHR ''-'' # decimal (nat (- i)) else decimal (nat i))"

definition bulk_name :: "int \<Rightarrow> DirId \<Rightarrow> nat \<Rightarrow> string" where
  "bulk_name k i n =
     take 49 (''/b'' @ decimal_int k @ ''-'' @ decimal (unat (dno i)) @ ''-'' @ decimal (unat (ino i)) @ ''-'' @ decimal n)"

definition bulk_stat :: "User \<Rightarrow> Stat" where
  "bulk_stat u = \<lparr>DnodeNo = 0, InodeNo = 0, FileSize = 0, ModifyTime = 0, ChangeTime = 0, FileMode = file_mode 0x1B0,
     ZerothServer = - 1, UserId = uid u, GroupId = gid u\<rparr>"

definition CreateBulkContext :: "nat \<Rightarrow> LookupStat \<Rightarrow> ('w, 'b, status \<times> nat option) cli_op" where
  "CreateBulkContext ca parent s = do {
     ((st, da, _), s) \<leftarrow> AcquireAndFetch parent [] s;
     if \<not> ok st then Some ((st, None), s)
     else do {
       ctx \<leftarrow> ctx_mem s ca;
       d \<leftarrow> dir_mem s da;
       let a = next_addr s;
       let bk = \<lparr>in_ctx = ca,
                 bulks = map (\<lambda>i. \<lparr>bi_dbloc = bkrt ctx @ bulk_name (bkid ctx) (d_id d) i, bi_db = None,
                                   bi_stat = bulk_stat (ctx_who ctx)\<rparr>) [0..<srvs s],
                 in_refs = 0, in_commit = 0, in_status = Okay, in_dir = da\<rparr>;
       Some ((st, Some a), s\<lparr>next_addr := a + 1, bulk_mem := (bulk_mem s)(a \<mapsto> bk)\<rparr>)}}"

section \<open>Lookups\<close>

text \<open>
  The search for a lease that has not expired, in the cache of the partition and then in its table. A lease that has
  expired leaves both.
\<close>

definition expire :: "nat \<Rightarrow> nat option \<Rightarrow> ('w, 'b) FilesystemCli \<Rightarrow> ('w, 'b) FilesystemCli option" where
  "expire a cached s = do {
     l \<leftarrow> lease_mem s a;
     s \<leftarrow> unlist_lease a l s;
     s \<leftarrow> (case cached of None \<Rightarrow> Some s | Some h \<Rightarrow> lease_cache_op (le_part l) (\<lambda>c. lru_Erase_entry c h) s);
     l \<leftarrow> lease_mem s a;
     let s = set_lease a (l\<lparr>le_out := True\<rparr>) s;
     case cached of None \<Rightarrow> Some s | Some h \<Rightarrow> lease_cache_op (le_part l) (\<lambda>c. lru_Release c h) s}"

definition find_lease :: "nat \<Rightarrow> slice \<Rightarrow> u32 \<Rightarrow> ('w, 'b, nat option) cli_op" where
  "find_lease pa name hash s = do {
     p \<leftarrow> part_mem s pa;
     (c, found) \<leftarrow> lru_Lookup (cached_leases p) name hash;
     let s = set_part pa (p\<lparr>cached_leases := c\<rparr>) s;
     case found of
       Some h \<Rightarrow> do {
         e \<leftarrow> entries c h;
         l \<leftarrow> lease_mem s (l_value e);
         let (now, s) = CurrentMicros s;
         if LeaseDue (le_rep l) < now then do { s \<leftarrow> expire (l_value e) (Some h) s; Some (None, s) }
         else if le_handle l = Some h then Some (Some (l_value e), s)
         else None}
     | None \<Rightarrow>
         (case ht_lookup (leases p) name hash of
            None \<Rightarrow> Some (None, s)
          | Some ent \<Rightarrow> do {
              l \<leftarrow> lease_mem s (e_ptr ent);
              let (now, s) = CurrentMicros s;
              if LeaseDue (le_rep l) < now then do { s \<leftarrow> expire (e_ptr ent) None s; Some (None, s) }
              else do {
                h \<leftarrow> le_handle l;
                e \<leftarrow> entries c h;
                if l_value e \<noteq> e_ptr ent then None
                else do { s \<leftarrow> lease_cache_op pa (\<lambda>c. lru_Ref c h) s; Some (Some (e_ptr ent), s) }}})}"

definition create_context :: "LokupMode \<Rightarrow> nat \<Rightarrow> LookupStat \<Rightarrow> ('w, 'b, status \<times> nat option \<times> nat option) cli_op" where
  "create_context mode ca tmp s =
     (case mode of
        kBulkIn \<Rightarrow> do { ((st, bk), s) \<leftarrow> CreateBulkContext ca tmp s; Some ((st, None, bk), s) }
      | kBatchedCreats \<Rightarrow> do { ((st, bc), s) \<leftarrow> CreateBatch ca tmp s; Some ((st, bc, None), s) }
      | kRegular \<Rightarrow> Some ((Okay, None, None), s))"

text \<open>A lease whose due date is 0 is not kept.\<close>

definition insert_lease :: "nat \<Rightarrow> slice \<Rightarrow> u32 \<Rightarrow> LokupMode \<Rightarrow> LookupStat \<Rightarrow> nat option \<Rightarrow> nat option \<Rightarrow> ('w, 'b, nat) cli_op" where
  "insert_lease pa name hash mode tmp bc bk s = do {
     let a = next_addr s;
     let l = \<lparr>le_rep = tmp, le_key = name, le_hash = hash, le_mode = mode, le_part = pa, le_handle = None, le_out = False,
              le_batch = bc, le_bk = bk\<rparr>;
     p \<leftarrow> part_mem s pa;
     let (t, old) = HashTable_Insert (leases p) (lease_ent a l);
     if old \<noteq> None then None
     else do {
       let s = set_lease a l (set_part pa (p\<lparr>leases := t\<rparr>) (s\<lparr>next_addr := a + 1\<rparr>));
       (c, h) \<leftarrow> lru_Insert (cached_leases p) name hash a 1;
       s \<leftarrow> put_cache pa c s;
       let l = l\<lparr>le_handle := Some h\<rparr>;
       let s = set_lease a l s;
       if LeaseDue tmp = 0
       then do {
         s \<leftarrow> unlist_lease a l s;
         s \<leftarrow> lease_cache_op pa (\<lambda>c. lru_Erase_entry c h) (set_lease a (l\<lparr>le_out := True\<rparr>) s);
         Some (a, s)}
       else Some (a, s)}}"

definition fresh_lease :: "nat \<Rightarrow> LookupStat \<Rightarrow> slice \<Rightarrow> u32 \<Rightarrow> LokupMode \<Rightarrow> nat \<Rightarrow> ('w, 'b, status \<times> nat option) cli_op" where
  "fresh_lease ca p name hash mode pa s = do {
     b \<leftarrow> part_mem s pa;
     ((st, tmp), s) \<leftarrow> remote_Lokup ca p name (p_index b) s;
     if \<not> ok st then Some ((st, None), s)
     else do {
       tmp \<leftarrow> tmp;
       ((st, bc, bk), s) \<leftarrow> create_context mode ca tmp s;
       if \<not> ok st then Some ((st, None), s)
       else do { (a, s) \<leftarrow> insert_lease pa name hash mode tmp bc bk s; Some ((st, Some a), s) }}}"

definition cli_way :: "u32 \<Rightarrow> nat" where
  "cli_way hash = unat (hash AND (word_of_nat kWays - 1))"

definition set_busy :: "nat \<Rightarrow> nat \<Rightarrow> bool \<Rightarrow> ('w, 'b) FilesystemCli \<Rightarrow> ('w, 'b) FilesystemCli option" where
  "set_busy pa i b s = do { p \<leftarrow> part_mem s pa; Some (set_part pa (p\<lparr>p_busy := (p_busy p)[i := b]\<rparr>) s) }"

definition way_is_busy :: "nat \<Rightarrow> nat \<Rightarrow> ('w, 'b) FilesystemCli \<Rightarrow> bool option" where
  "way_is_busy pa i s = map_option (\<lambda>p. p_busy p ! i) (part_mem s pa)"

definition Lokup2 :: "nat \<Rightarrow> LookupStat \<Rightarrow> slice \<Rightarrow> u32 \<Rightarrow> LokupMode \<Rightarrow> nat \<Rightarrow> ('w, 'b, status \<times> nat option) cli_op" where
  "Lokup2 ca p name hash mode pa s = do {
     (found, s) \<leftarrow> find_lease pa name hash s;
     if found \<noteq> None then Some ((Okay, found), s)
     else do {
       busy \<leftarrow> way_is_busy pa (cli_way hash) s;
       if busy then None
       else do {
         s \<leftarrow> set_busy pa (cli_way hash) True s;
         (found, s) \<leftarrow> find_lease pa name hash s;
         (r, s) \<leftarrow> (if found \<noteq> None then Some ((Okay, found), s) else fresh_lease ca p name hash mode pa s);
         s \<leftarrow> set_busy pa (cli_way hash) False s;
         Some (r, s)}}}"

definition mode_mismatch :: status where
  "mode_mismatch = AccessDenied
     (''Lease mode mismatch: '' @ ''Dir locked for regular operations, batched creates, or bulk insertion'')"

text \<open>The reference to the batch or bulk context that goes with the lease.\<close>

definition ref_context :: "LokupMode \<Rightarrow> Lease \<Rightarrow> ('w, 'b) FilesystemCli \<Rightarrow> ('w, 'b) FilesystemCli option" where
  "ref_context mode l s =
     (case mode of
        kRegular \<Rightarrow> Some s
      | kBulkIn \<Rightarrow> do { a \<leftarrow> le_bk l; b \<leftarrow> bulk_mem s a; Some (s\<lparr>bulk_mem := (bulk_mem s)(a \<mapsto> b\<lparr>in_refs := in_refs b + 1\<rparr>)\<rparr>) }
      | kBatchedCreats \<Rightarrow> do { a \<leftarrow> le_batch l; b \<leftarrow> batch_mem s a; Some (s\<lparr>batch_mem := (batch_mem s)(a \<mapsto> b\<lparr>bc_refs := bc_refs b + 1\<rparr>)\<rparr>) })"

definition Lokup1_cli :: "nat \<Rightarrow> LookupStat \<Rightarrow> slice \<Rightarrow> LokupMode \<Rightarrow> nat \<Rightarrow> ('w, 'b, status \<times> nat option) cli_op" where
  "Lokup1_cli ca p name mode pa s = do {
     ctx \<leftarrow> ctx_mem s ca;
     if \<not> IsLookupOk_cli (cli_options s) p (ctx_who ctx) then Some ((AccessDenied ''No x perm'', None), s)
     else do {
       ((st, la), s) \<leftarrow> Lokup2 ca p name (Hash name 0) mode pa s;
       if \<not> ok st then Some ((st, None), s)
       else do {
         a \<leftarrow> la;
         l \<leftarrow> lease_mem s a;
         if le_mode l \<noteq> mode
         then do { s \<leftarrow> release_lease_handle a s; Some ((mode_mismatch, None), s) }
         else do { s \<leftarrow> ref_context mode l s; Some ((Okay, Some a), s) }}}}"

definition Lokup_cli :: "nat \<Rightarrow> LookupStat \<Rightarrow> slice \<Rightarrow> LokupMode \<Rightarrow> ('w, 'b, status \<times> nat option) cli_op" where
  "Lokup_cli ca parent name mode s = do {
     ((st, da, ix), s) \<leftarrow> AcquireAndFetch parent name s;
     if \<not> ok st then Some ((st, None), s)
     else do {
       i \<leftarrow> ix;
       (pa, s) \<leftarrow> AcquirePartition da i s;
       ((st, l), s) \<leftarrow> Lokup1_cli ca parent name mode pa s;
       s \<leftarrow> (if ok st then RefPartition pa s else Some s);
       s \<leftarrow> ReleasePartition pa s;
       s \<leftarrow> ReleaseDir da s;
       Some ((st, l), s)}}"

section \<open>Path names\<close>

text \<open>
  A path name is the bytes of a C string without the null that ends it; a pointer into it is the rest of the string from
  there. \<open>resolv_loop\<close> is the loop of \<^verbatim>\<open>Resolv\<close>: \<open>path\<close> is \<^verbatim>\<open>p\<close>, which points to a slash, \<open>nm\<close> the bytes between
  \<^verbatim>\<open>p\<close> and \<^verbatim>\<open>q\<close>, \<open>q\<close> and \<open>c\<close> the pointers of the same names. The result is the status, the parent, the last
  component, what follows it, and the remaining path when a lookup failed.
\<close>

definition slash :: byte where
  "slash = 0x2F"

type_synonym resolved = "status \<times> lease_ptr \<times> slice \<times> slice \<times> slice option"

lemma dropWhile_length_le: "length (dropWhile P xs) \<le> length xs"
  by (induction xs) auto

lemma path_shorter:
  fixes path :: slice
  assumes "nm = takeWhile (\<lambda>b. b \<noteq> slash) (tl path)" and "q = dropWhile (\<lambda>b. b \<noteq> slash) (tl path)"
    and "c = dropWhile (\<lambda>b. b = slash) (tl q)" and "path \<noteq> []" "q \<noteq> []" "nm \<noteq> []"
  shows "length (slash # c) < length path"
proof -
  have "length c \<le> length (tl q)" unfolding assms(3) by (rule dropWhile_length_le)
  moreover have "length q + length nm = length (tl path)"
    unfolding assms(1,2) using length_append [of "takeWhile (\<lambda>b. b \<noteq> slash) (tl path)" "dropWhile (\<lambda>b. b \<noteq> slash) (tl path)"]
    by (simp only: takeWhile_dropWhile_id)
  moreover have "0 < length nm" "0 < length q" "0 < length path" using assms(4-6) by simp_all
  ultimately show ?thesis by (simp only: length_tl length_Cons)
qed

function resolv_loop :: "nat \<Rightarrow> lease_ptr \<Rightarrow> slice \<Rightarrow> ('w, 'b, resolved) cli_op" where
  "resolv_loop ca parent path s =
     (let nm = takeWhile (\<lambda>b. b \<noteq> slash) (tl path); q = dropWhile (\<lambda>b. b \<noteq> slash) (tl path)
      in if path = [] then None
         else if q = [] then Some ((Okay, parent, nm, q, None), s)
         else if nm = [] then resolv_loop ca parent q s
         else
           (let c = dropWhile (\<lambda>b. b = slash) (tl q)
            in if c = [] then Some ((Okay, parent, nm, q, None), s)
               else
                 (case lease_rep s parent of
                    None \<Rightarrow> None
                  | Some lrep \<Rightarrow>
                      (case Lokup_cli ca lrep nm kRegular s of
                         None \<Rightarrow> None
                       | Some ((st, l), s) \<Rightarrow>
                           if ok st
                           then (case l of
                                   None \<Rightarrow> None
                                 | Some a \<Rightarrow>
                                     (case ReleaseLease parent s of
                                        None \<Rightarrow> None
                                      | Some s \<Rightarrow> resolv_loop ca (Some a) (slash # c) s))
                           else Some ((st, parent, nm, [], Some (slash # c)), s)))))"
  by pat_completeness auto
termination
proof (relation "measure (\<lambda>(ca, parent, path, s). length path)", goal_cases)
  case 1
  show ?case by simp
next
  case (2 ca parent path s nm q)
  then show ?case using dropWhile_length_le [of "\<lambda>b. b \<noteq> slash" "tl path"] by (cases path) auto
next
  case 3
  note 3 = path_shorter [OF 3(1,2,6,3,4,5)]
  show ?case using 3 by (simp only: in_measure prod.case)
qed

declare resolv_loop.simps [simp del]

definition Resolv :: "nat \<Rightarrow> lease_ptr \<Rightarrow> slice \<Rightarrow> ('w, 'b, resolved) cli_op" where
  "Resolv ca root pathname s =
     (case pathname of [] \<Rightarrow> None | b # _ \<Rightarrow> if b = slash then resolv_loop ca root pathname s else None)"

text \<open>The relative root of a path name.\<close>

record AT =
  parent_of_root :: LookupStat
  at_name :: slice

text \<open>
  \<^verbatim>\<open>Resolu\<close> returns the status, the parent directory (\<open>None\<close> is a null pointer), the last component and whether
  slashes follow it. The last component is followed by the null of the string or by a slash.
\<close>

definition path_prefix :: "slice \<Rightarrow> slice \<Rightarrow> string" where
  "path_prefix pathname rp = string_of_slice (take (length pathname - length rp) pathname)"

definition Resolu :: "nat \<Rightarrow> AT option \<Rightarrow> slice \<Rightarrow> ('w, 'b, status \<times> lease_ptr option \<times> slice \<times> bool) cli_op" where
  "Resolu ca at pathname s = do {
     ((st, rr), s) \<leftarrow> (case at of
        None \<Rightarrow> Some ((Okay, Some None), s)
      | Some at \<Rightarrow> map_option (\<lambda>((st, l), s). ((st, map_option Some l), s)) (Lokup_cli ca (parent_of_root at) (at_name at) kRegular s));
     if \<not> ok st then Some ((st, None, [], False), s)
     else do {
       root \<leftarrow> rr;
       ((st, parent, nm, follows, rp), s) \<leftarrow> Resolv ca root pathname s;
       let st = (if IsDirExpected st \<and> rp \<noteq> None then DirExpected (path_prefix pathname (the rp))
                 else if IsNotFound st \<and> rp \<noteq> None then NotFound (path_prefix pathname (the rp)) else st);
       Some ((st, Some parent, nm, ok st \<and> follows \<noteq> [] \<and> hd follows = slash), s)}}"

section \<open>Calls\<close>

text \<open>Release the parent directory after a call, when there is one.\<close>

definition release_parent :: "lease_ptr option \<Rightarrow> ('w, 'b) FilesystemCli \<Rightarrow> ('w, 'b) FilesystemCli option" where
  "release_parent parent s = (case parent of None \<Rightarrow> Some s | Some l \<Rightarrow> ReleaseLease l s)"

text \<open>
  The frame of every call with a path name: resolve the path, do \<open>f\<close> with the lookup stat of the parent directory, the
  last component and whether slashes follow it, and release the parent directory. Without a parent the result is \<open>dflt\<close>.
\<close>

definition with_path :: "nat \<Rightarrow> AT option \<Rightarrow> slice \<Rightarrow> 'a \<Rightarrow> (LookupStat \<Rightarrow> slice \<Rightarrow> bool \<Rightarrow> ('w, 'b, status \<times> 'a) cli_op) \<Rightarrow>
    ('w, 'b, status \<times> 'a) cli_op" where
  "with_path ca at pathname dflt f s = do {
     ((st, parent, tgt, slashes), s) \<leftarrow> Resolu ca at pathname s;
     ((st, x), s) \<leftarrow> (if ok st then do { l \<leftarrow> parent; lrep \<leftarrow> lease_rep s l; f lrep tgt slashes s } else Some ((st, dflt), s));
     s \<leftarrow> release_parent parent s;
     Some ((st, x), s)}"

text \<open>The frame of the operations on a name in a directory.\<close>

definition with_partition :: "LookupStat \<Rightarrow> slice \<Rightarrow> 'a \<Rightarrow> (nat \<Rightarrow> ('w, 'b, status \<times> 'a) cli_op) \<Rightarrow> ('w, 'b, status \<times> 'a) cli_op" where
  "with_partition p name dflt f s = do {
     ((st, da, ix), s) \<leftarrow> AcquireAndFetch p name s;
     if \<not> ok st then Some ((st, dflt), s)
     else do {
       i \<leftarrow> ix;
       (pa, s) \<leftarrow> AcquirePartition da i s;
       (r, s) \<leftarrow> f i s;
       s \<leftarrow> ReleasePartition pa s;
       s \<leftarrow> ReleaseDir da s;
       Some (r, s)}}"

definition Mkfle1 :: "nat \<Rightarrow> LookupStat \<Rightarrow> slice \<Rightarrow> u32 \<Rightarrow> Stat \<Rightarrow> ('w, 'b, status \<times> Stat) cli_op" where
  "Mkfle1 ca p name mode stat = with_partition p name stat (\<lambda>i. Mkfle2 ca p name mode i stat)"

definition Mkdir1 :: "nat \<Rightarrow> LookupStat \<Rightarrow> slice \<Rightarrow> u32 \<Rightarrow> Stat \<Rightarrow> ('w, 'b, status \<times> Stat) cli_op" where
  "Mkdir1 ca p name mode stat = with_partition p name stat (\<lambda>i. Mkdir2 ca p name mode i stat)"

definition Lstat1_cli :: "nat \<Rightarrow> LookupStat \<Rightarrow> slice \<Rightarrow> Stat \<Rightarrow> ('w, 'b, status \<times> Stat) cli_op" where
  "Lstat1_cli ca p name stat = with_partition p name stat (\<lambda>i. Lstat2 ca p name i stat)"

definition Mkfle_cli :: "nat \<Rightarrow> AT option \<Rightarrow> slice \<Rightarrow> u32 \<Rightarrow> Stat \<Rightarrow> ('w, 'b, status \<times> Stat) cli_op" where
  "Mkfle_cli ca at pathname mode stat = with_path ca at pathname stat (\<lambda>p tgt slashes s.
     if tgt \<noteq> [] \<and> \<not> slashes then Mkfle1 ca p tgt mode stat s else Some ((FileExpected ''Path is dir'', stat), s))"

definition Mkdir_cli :: "nat \<Rightarrow> AT option \<Rightarrow> slice \<Rightarrow> u32 \<Rightarrow> Stat \<Rightarrow> ('w, 'b, status \<times> Stat) cli_op" where
  "Mkdir_cli ca at pathname mode stat = with_path ca at pathname stat (\<lambda>p tgt slashes s.
     if tgt \<noteq> [] then Mkdir1 ca p tgt mode stat s else Some ((AlreadyExists [], stat), s))"

text \<open>With slashes after the name the result of the request is looked at even when the request failed.\<close>

definition Lstat_cli :: "nat \<Rightarrow> AT option \<Rightarrow> slice \<Rightarrow> Stat \<Rightarrow> ('w, 'b, status \<times> Stat) cli_op" where
  "Lstat_cli ca at pathname stat = with_path ca at pathname stat (\<lambda>p tgt slashes s.
     if tgt \<noteq> []
     then do {
       ((st, stat), s) \<leftarrow> Lstat1_cli ca p tgt stat s;
       Some ((if slashes \<and> \<not> S_ISDIR (FileMode stat) then DirExpected ''Not a dir'' else st, stat), s)}
     else Some ((Okay, rtstat s), s))"

definition Atdir :: "nat \<Rightarrow> AT option \<Rightarrow> slice \<Rightarrow> ('w, 'b, status \<times> AT option) cli_op" where
  "Atdir ca at pathname = with_path ca at pathname None (\<lambda>p tgt slashes s.
     Some ((Okay, if tgt \<noteq> [] then Some \<lparr>parent_of_root = p, at_name = tgt\<rparr> else None), s))"

section \<open>Batched creates\<close>

text \<open>Names are gathered in one buffer per server; a full buffer is sent before the next name enters it.\<close>

definition Mkfls1 :: "nat \<Rightarrow> LookupStat \<Rightarrow> slice \<Rightarrow> u32 \<Rightarrow> bool \<Rightarrow> nat \<Rightarrow> WriBuf \<Rightarrow> ('w, 'b, status \<times> WriBuf) cli_op" where
  "Mkfls1 ca p name mode force_flush i buf s = do {
     ((st, buf), s) \<leftarrow>
       (if force_flush \<or> batch_size (cli_options s) \<le> unat (wb_n buf)
        then do {
          (st, s) \<leftarrow> Mkfls2 ca p (wb_namearr buf) (wb_n buf) mode i s;
          Some ((st, if ok st then buf\<lparr>wb_namearr := [], wb_n := 0\<rparr> else buf), s)}
        else Some ((Okay, buf), s));
     Some ((st, if ok st \<and> name \<noteq> []
                then buf\<lparr>wb_namearr := PutLengthPrefixedSlice (wb_namearr buf) name, wb_n := wb_n buf + 1\<rparr> else buf), s)}"

text \<open>A handle (\<^verbatim>\<open>BAT\<close>) is the address of its lease.\<close>

definition BatchInit :: "nat \<Rightarrow> AT option \<Rightarrow> slice \<Rightarrow> ('w, 'b, status \<times> nat option) cli_op" where
  "BatchInit ca at pathname = with_path ca at pathname None (\<lambda>p tgt slashes s.
     if tgt \<noteq> []
     then do {
       ((st, la), s) \<leftarrow> Lokup_cli ca p tgt kBatchedCreats s;
       if \<not> ok st then Some ((st, None), s)
       else do {
         a \<leftarrow> la;
         l \<leftarrow> lease_mem s a;
         if le_mode l = kBatchedCreats \<and> le_batch l \<noteq> None then Some ((st, Some a), s) else None}}
     else Some ((NotSupported [], None), s))"

definition lease_batch :: "nat \<Rightarrow> ('w, 'b) FilesystemCli \<Rightarrow> (Lease \<times> nat \<times> BatchedCreates) option" where
  "lease_batch bat s = do { l \<leftarrow> lease_mem s bat; b \<leftarrow> le_batch l; bc \<leftarrow> batch_mem s b; Some (l, b, bc) }"

definition set_batch :: "nat \<Rightarrow> BatchedCreates \<Rightarrow> ('w, 'b) FilesystemCli \<Rightarrow> ('w, 'b) FilesystemCli" where
  "set_batch b bc s = s\<lparr>batch_mem := (batch_mem s)(b \<mapsto> bc)\<rparr>"

text \<open>\<^verbatim>\<open>Mkfls1\<close> on the buffer of server \<open>i\<close> of a batch.\<close>

definition batch_server :: "nat \<Rightarrow> slice \<Rightarrow> bool \<Rightarrow> nat \<Rightarrow> ('w, 'b, status) cli_op" where
  "batch_server bat name force_flush i s = do {
     (l, b, bc) \<leftarrow> lease_batch bat s;
     if length (wribufs bc) \<le> i then None
     else do {
       ((st, buf), s) \<leftarrow> Mkfls1 (bc_ctx bc) (le_rep l) name (bc_mode bc) force_flush i (wribufs bc ! i) s;
       Some (st, set_batch b (bc\<lparr>wribufs := (wribufs bc)[i := buf]\<rparr>) s)}}"

definition keep_error :: "status \<Rightarrow> status \<Rightarrow> status" where
  "keep_error bg s = (if \<not> ok s \<and> ok bg then s else bg)"

definition BatchInsert :: "nat \<Rightarrow> slice \<Rightarrow> ('w, 'b, status) cli_op" where
  "BatchInsert bat name s = do {
     (l, b, bc) \<leftarrow> lease_batch bat s;
     if bc_commit bc \<noteq> 0 then Some (AssertionFailed ''Already committed'', s)
     else if \<not> ok (bc_status bc) then Some (bc_status bc, s)
     else do {
       i \<leftarrow> select_server (bc_dir bc) name s;
       (st, s) \<leftarrow> batch_server bat name False i s;
       (l, b, bc) \<leftarrow> lease_batch bat s;
       Some (st, set_batch b (bc\<lparr>bc_status := keep_error (bc_status bc) st\<rparr>) s)}}"

fun commit_servers :: "(nat \<Rightarrow> ('w, 'b, status) cli_op) \<Rightarrow> nat list \<Rightarrow> ('w, 'b, status) cli_op" where
  "commit_servers f [] s = Some (Okay, s)"
| "commit_servers f (i # is) s =
     (case f i s of
        None \<Rightarrow> None
      | Some (st, s) \<Rightarrow> if ok st then commit_servers f is s else Some (st, s))"

definition BatchCommit :: "nat \<Rightarrow> ('w, 'b, status) cli_op" where
  "BatchCommit bat s = do {
     (l, b, bc) \<leftarrow> lease_batch bat s;
     if bc_commit bc = 1 then Some (AssertionFailed ''Batch is being committed'', s)
     else if bc_commit bc = 2 \<or> \<not> ok (bc_status bc) then Some (bc_status bc, s)
     else do {
       let s = set_batch b (bc\<lparr>bc_commit := 1\<rparr>) s;
       (st, s) \<leftarrow> commit_servers (batch_server bat [] True) [0..<srvs s] s;
       (l, b, bc) \<leftarrow> lease_batch bat s;
       Some (st, set_batch b (bc\<lparr>bc_commit := 2, bc_status := keep_error (bc_status bc) st\<rparr>) s)}}"

definition DestroyBatch :: "nat \<Rightarrow> ('w, 'b) FilesystemCli \<Rightarrow> ('w, 'b) FilesystemCli option" where
  "DestroyBatch bat s = do {
     (l, b, bc) \<leftarrow> lease_batch bat s;
     h \<leftarrow> le_handle l;
     if bc_refs bc = 0 then None
     else do {
       let r = bc_refs bc - 1;
       let s = set_batch b (bc\<lparr>bc_refs := r\<rparr>) s;
       s \<leftarrow> (if r = 0
             then do {
               s \<leftarrow> lease_cache_op (le_part l) (\<lambda>c. lru_Erase_entry c h) s;
               s \<leftarrow> unlist_lease bat l s;
               Some (set_lease bat (l\<lparr>le_out := True, le_batch := None\<rparr>) s)}
             else Some s);
       s \<leftarrow> release_lease_handle bat s;
       s \<leftarrow> (if r = 0 then ReleaseDir (bc_dir bc) s else Some s);
       s \<leftarrow> ReleasePartition (le_part l) s;
       Some (if r = 0 then s\<lparr>batch_mem := (batch_mem s)(b := None)\<rparr> else s)}}"

section \<open>Bulk insertion\<close>

definition Bukin1_cli :: "nat \<Rightarrow> LookupStat \<Rightarrow> slice \<Rightarrow> bool \<Rightarrow> nat \<Rightarrow> 'b BulkIn \<Rightarrow> ('w, 'b, status \<times> 'b BulkIn) cli_op" where
  "Bukin1_cli ca p name force_flush i buk s = do {
     ctx \<leftarrow> ctx_mem s ca;
     let B = cli_bukdb s;
     ((st, db), w) \<leftarrow> (case bi_db buk of
        Some db \<Rightarrow> Some ((Okay, db), world s)
      | None \<Rightarrow> do {
          (st, db, w) \<leftarrow> bk_Open B (bi_dbloc buk) (bk_new B (bkoptions ctx) (bkenv ctx)) (bk_DestroyDb B (bi_dbloc buk) (bkenv ctx) (world s));
          Some ((st, db), w)});
     ((st, db), w) \<leftarrow> (if ok st \<and> name \<noteq> []
        then do { (st, db, w) \<leftarrow> bk_Put B (DirId_LookupStat p) name (bi_stat buk) db w; Some ((st, db), w) }
        else Some ((st, db), w));
     if ok st \<and> force_flush
     then do {
       (st, db, w) \<leftarrow> bk_Flush B db w;
       if \<not> ok st then Some ((st, buk\<lparr>bi_db := Some db\<rparr>), s\<lparr>world := w\<rparr>)
       else do {
         (st, s) \<leftarrow> Bukin2 ca p (bi_dbloc buk) i (s\<lparr>world := bk_delete B db w\<rparr>);
         Some ((st, buk\<lparr>bi_db := None\<rparr>), s)}}
     else Some ((st, buk\<lparr>bi_db := Some db\<rparr>), s\<lparr>world := w\<rparr>)}"

definition BulkInit :: "nat \<Rightarrow> AT option \<Rightarrow> slice \<Rightarrow> ('w, 'b, status \<times> nat option) cli_op" where
  "BulkInit ca at pathname = with_path ca at pathname None (\<lambda>p tgt slashes s.
     if tgt \<noteq> []
     then do {
       ((st, la), s) \<leftarrow> Lokup_cli ca p tgt kBulkIn s;
       if \<not> ok st then Some ((st, None), s)
       else do {
         a \<leftarrow> la;
         l \<leftarrow> lease_mem s a;
         if le_mode l = kBulkIn \<and> le_bk l \<noteq> None then Some ((st, Some a), s) else None}}
     else Some ((NotSupported [], None), s))"

definition lease_bulk :: "nat \<Rightarrow> ('w, 'b) FilesystemCli \<Rightarrow> (Lease \<times> nat \<times> 'b BulkInserts) option" where
  "lease_bulk hdl s = do { l \<leftarrow> lease_mem s hdl; b \<leftarrow> le_bk l; bk \<leftarrow> bulk_mem s b; Some (l, b, bk) }"

definition set_bulk :: "nat \<Rightarrow> 'b BulkInserts \<Rightarrow> ('w, 'b) FilesystemCli \<Rightarrow> ('w, 'b) FilesystemCli" where
  "set_bulk b bk s = s\<lparr>bulk_mem := (bulk_mem s)(b \<mapsto> bk)\<rparr>"

definition bulk_server :: "nat \<Rightarrow> slice \<Rightarrow> bool \<Rightarrow> nat \<Rightarrow> ('w, 'b, status) cli_op" where
  "bulk_server hdl name force_flush i s = do {
     (l, b, bk) \<leftarrow> lease_bulk hdl s;
     if length (bulks bk) \<le> i then None
     else do {
       ((st, buk), s) \<leftarrow> Bukin1_cli (in_ctx bk) (le_rep l) name force_flush i (bulks bk ! i) s;
       Some (st, set_bulk b (bk\<lparr>bulks := (bulks bk)[i := buk]\<rparr>) s)}}"

definition BulkInsert :: "nat \<Rightarrow> slice \<Rightarrow> ('w, 'b, status) cli_op" where
  "BulkInsert hdl name s = do {
     (l, b, bk) \<leftarrow> lease_bulk hdl s;
     if in_commit bk \<noteq> 0 then Some (AssertionFailed ''Already committed'', s)
     else if \<not> ok (in_status bk) then Some (in_status bk, s)
     else do {
       i \<leftarrow> select_server (in_dir bk) name s;
       (st, s) \<leftarrow> bulk_server hdl name False i s;
       (l, b, bk) \<leftarrow> lease_bulk hdl s;
       Some (st, set_bulk b (bk\<lparr>in_status := keep_error (in_status bk) st\<rparr>) s)}}"

definition BulkCommit :: "nat \<Rightarrow> ('w, 'b, status) cli_op" where
  "BulkCommit hdl s = do {
     (l, b, bk) \<leftarrow> lease_bulk hdl s;
     if in_commit bk = 1 then Some (AssertionFailed ''Bulk context is being committed'', s)
     else if in_commit bk = 2 \<or> \<not> ok (in_status bk) then Some (in_status bk, s)
     else do {
       let s = set_bulk b (bk\<lparr>in_commit := 1\<rparr>) s;
       (st, s) \<leftarrow> commit_servers (bulk_server hdl [] True) [0..<srvs s] s;
       (l, b, bk) \<leftarrow> lease_bulk hdl s;
       Some (st, set_bulk b (bk\<lparr>in_commit := 2, in_status := keep_error (in_status bk) st\<rparr>) s)}}"

text \<open>The tables of the bulk context that are still open are deleted.\<close>

definition delete_bulks :: "('w, 'b) BukDbIf \<Rightarrow> 'b BulkIn list \<Rightarrow> 'w \<Rightarrow> 'w" where
  "delete_bulks B bs w = foldl (\<lambda>w buk. case bi_db buk of None \<Rightarrow> w | Some db \<Rightarrow> bk_delete B db w) w bs"

text \<open>Other than \<open>DestroyBatch\<close>, a lease that is out already keeps its pointer to the bulk context.\<close>

definition DestroyBulk :: "nat \<Rightarrow> ('w, 'b) FilesystemCli \<Rightarrow> ('w, 'b) FilesystemCli option" where
  "DestroyBulk hdl s = do {
     (l, b, bk) \<leftarrow> lease_bulk hdl s;
     h \<leftarrow> le_handle l;
     if in_refs bk = 0 then None
     else do {
       let r = in_refs bk - 1;
       let s = set_bulk b (bk\<lparr>in_refs := r\<rparr>) s;
       s \<leftarrow> (if r = 0 \<and> \<not> le_out l
             then do {
               s \<leftarrow> lease_cache_op (le_part l) (\<lambda>c. lru_Erase_entry c h) s;
               s \<leftarrow> unlist_lease hdl l s;
               Some (set_lease hdl (l\<lparr>le_out := True, le_bk := None\<rparr>) s)}
             else Some s);
       s \<leftarrow> release_lease_handle hdl s;
       s \<leftarrow> (if r = 0 then ReleaseDir (in_dir bk) s else Some s);
       s \<leftarrow> ReleasePartition (le_part l) s;
       Some (if r = 0
             then s\<lparr>world := delete_bulks (cli_bukdb s) (bulks bk) (world s), bulk_mem := (bulk_mem s)(b := None)\<rparr> else s)}}"

section \<open>The client\<close>

definition root_stat :: Stat where
  "root_stat = \<lparr>DnodeNo = 0, InodeNo = 0, FileSize = 0, ModifyTime = 0, ChangeTime = 0, FileMode = 0x1FF, ZerothServer = 0,
     UserId = 0, GroupId = 0\<rparr>"

definition new_FilesystemCli :: "('w, 'b) BukDbIf \<Rightarrow> FilesystemCliOptions \<Rightarrow> (nat \<Rightarrow> 'w FilesystemCliCtx option) \<Rightarrow> 'w \<Rightarrow> (nat \<Rightarrow> u64) \<Rightarrow>
    ('w, 'b) FilesystemCli" where
  "new_FilesystemCli B opts ctxs w clk =
     \<lparr>cdirs = new_HashTable, dirlist = [], dir_mem = (\<lambda>_. None), plru = new_LRUCache (partition_lru_size opts),
      pars = new_HashTable, part_mem = (\<lambda>_. None), lease_mem = (\<lambda>_. None), batch_mem = (\<lambda>_. None), bulk_mem = (\<lambda>_. None),
      ctx_mem = ctxs, next_addr = 0, rtstat = root_stat, rtlokupstat = lookup_of root_stat, cli_options = opts, cli_bukdb = B, cli_fs = None,
      cli_rpc = None, uri_mapper = (\<lambda>_ _. []), srvs = 1, ports_per_srv = 1, world = w, clock = clk, ticks = 0\<rparr>"

definition RegisterFsSrvUris :: "(string \<Rightarrow> 'w rpc) \<Rightarrow> (nat \<Rightarrow> nat \<Rightarrow> string) \<Rightarrow> nat \<Rightarrow> nat \<Rightarrow> ('w, 'b) FilesystemCli \<Rightarrow> ('w, 'b) FilesystemCli" where
  "RegisterFsSrvUris rpc mapper n ports s = s\<lparr>cli_rpc := Some rpc, uri_mapper := mapper, ports_per_srv := ports, srvs := n\<rparr>"

definition SetLocalFs :: "'w FilesystemIf option \<Rightarrow> ('w, 'b) FilesystemCli \<Rightarrow> ('w, 'b) FilesystemCli" where
  "SetLocalFs fs s = s\<lparr>cli_fs := fs\<rparr>"

definition delete_FilesystemCli :: "('w, 'b) FilesystemCli \<Rightarrow> ('w, 'b) FilesystemCli option" where
  "delete_FilesystemCli s = do {
     c \<leftarrow> delete_LRUCache (plru s);
     s \<leftarrow> put_plru c s;
     if HashTable_Empty (pars s) \<and> dirlist s = [] \<and> HashTable_Empty (cdirs s) then Some s else None}"

section \<open>Test functions\<close>

definition with_test_dir :: "DirId \<Rightarrow> (nat \<Rightarrow> ('w, 'b, 'a) cli_op) \<Rightarrow> ('w, 'b, 'a) cli_op" where
  "with_test_dir at f s = do { (da, s) \<leftarrow> AcquireDir_cli at s; (x, s) \<leftarrow> f da s; s \<leftarrow> ReleaseDir da s; Some (x, s) }"

definition TEST_TotalLeasesAtPartition :: "DirId \<Rightarrow> nat \<Rightarrow> ('w, 'b, nat) cli_op" where
  "TEST_TotalLeasesAtPartition at ix = with_test_dir at (\<lambda>da s. do {
     (pa, s) \<leftarrow> AcquirePartition da ix s;
     p \<leftarrow> part_mem s pa;
     s \<leftarrow> ReleasePartition pa s;
     Some (HashTable_Size (leases p), s)})"

definition TEST_ProbePartition :: "DirId \<Rightarrow> nat \<Rightarrow> ('w, 'b, status) cli_op" where
  "TEST_ProbePartition at ix = with_test_dir at (\<lambda>da s. do {
     (pa, s) \<leftarrow> AcquirePartition da ix s;
     s \<leftarrow> ReleasePartition pa s;
     Some (Okay, s)})"

definition TEST_ProbeDir_cli :: "DirId \<Rightarrow> ('w, 'b, status) cli_op" where
  "TEST_ProbeDir_cli at = with_test_dir at (\<lambda>da s. Some (Okay, s))"

definition TEST_TotalPartitionsInMemory :: "('w, 'b) FilesystemCli \<Rightarrow> nat" where
  "TEST_TotalPartitionsInMemory s = HashTable_Size (pars s)"

definition TEST_TotalDirsInMemory_cli :: "('w, 'b) FilesystemCli \<Rightarrow> nat" where
  "TEST_TotalDirsInMemory_cli s = HashTable_Size (cdirs s)"

end
