(* ===== verification/Fscli_Paths.thy ===== *)
theory Fscli_Paths
  imports Fscli
begin

text \<open>
  Path names: the pointer loop of \<^verbatim>\<open>FilesystemCli::Resolv\<close> against a specification that splits the path at its slashes,
  drops the empty names and looks the remaining ones up from left to right.
\<close>

section \<open>Specification\<close>

fun split_path :: "slice \<Rightarrow> slice list" where
  "split_path [] = [[]]"
| "split_path (b # bs) = (if b = slash then [] # split_path bs else case split_path bs of [] \<Rightarrow> [[b]] | x # xs \<Rightarrow> (b # x) # xs)"

definition path_names :: "slice \<Rightarrow> slice list" where
  "path_names path = filter (\<lambda>nm. nm \<noteq> []) (split_path path)"

text \<open>A lookup of each name in the directory of the one before.\<close>

fun walk_names :: "nat \<Rightarrow> lease_ptr \<Rightarrow> slice list \<Rightarrow> ('w, 'b, status \<times> lease_ptr) cli_op" where
  "walk_names ca dir [] s = Some ((Okay, dir), s)"
| "walk_names ca dir (nm # nms) s = do {
     p \<leftarrow> lease_rep s dir;
     ((st, l), s) \<leftarrow> Lokup_cli ca p nm kRegular s;
     if \<not> ok st then Some ((st, dir), s)
     else do { a \<leftarrow> l; s \<leftarrow> ReleaseLease dir s; walk_names ca (Some a) nms s }}"

section \<open>Splitting\<close>

lemma split_path_nonempty: "split_path bs \<noteq> []"
  by (cases bs) (auto split: list.split)

lemma split_path_name:
  "slash \<notin> set nm \<Longrightarrow> split_path (nm @ bs) = (case split_path bs of x # xs \<Rightarrow> (nm @ x) # xs)"
proof (induction nm)
  case Nil
  then show ?case using split_path_nonempty [of bs] by (cases "split_path bs") auto
next
  case (Cons b nm)
  then show ?case using split_path_nonempty [of bs] by (cases "split_path bs") auto
qed

lemma path_names_simps:
  "path_names [] = []" "path_names (slash # bs) = path_names bs"
  "slash \<notin> set nm \<Longrightarrow> nm \<noteq> [] \<Longrightarrow> path_names nm = [nm]"
  "slash \<notin> set nm \<Longrightarrow> nm \<noteq> [] \<Longrightarrow> path_names (nm @ slash # bs) = nm # path_names bs"
  using split_path_name [of nm "[]"] split_path_name [of nm "slash # bs"]
  by (auto simp: path_names_def)

lemma path_names_slashes: "\<forall>b \<in> set xs. b = slash \<Longrightarrow> path_names (xs @ bs) = path_names bs"
  by (induction xs) (auto simp: path_names_simps)

lemma path_names_skip: "path_names (dropWhile (\<lambda>b. b = slash) bs) = path_names bs"
  using path_names_slashes [of "takeWhile (\<lambda>b. b = slash) bs" "dropWhile (\<lambda>b. b = slash) bs"]
  by (metis set_takeWhileD takeWhile_dropWhile_id)

lemma path_names_none: "path_names bs = [] \<longleftrightarrow> (\<forall>b \<in> set bs. b = slash)"
proof
  assume p: "path_names bs = []"
  let ?c = "dropWhile (\<lambda>b. b = slash) bs"
  have c: "path_names ?c = []" using p by (simp add: path_names_skip)
  have "?c = []"
  proof (rule ccontr)
    assume n: "?c \<noteq> []"
    let ?nm = "takeWhile (\<lambda>b. b \<noteq> slash) ?c" and ?q = "dropWhile (\<lambda>b. b \<noteq> slash) ?c"
    have "hd ?c \<noteq> slash" using n hd_dropWhile [of "\<lambda>b. b = slash" bs] by auto
    then have nm: "slash \<notin> set ?nm" "?nm \<noteq> []" using n by (cases ?c; auto dest: set_takeWhileD)+
    show False
    proof (cases ?q)
      case Nil
      then have "?c = ?nm" by (metis append_Nil2 takeWhile_dropWhile_id)
      then show False using c path_names_simps(3) [OF nm] by simp
    next
      case (Cons b q)
      then have "b = slash" using hd_dropWhile [of "\<lambda>b. b \<noteq> slash" ?c] by simp
      then have "?c = ?nm @ slash # q" using Cons by (metis takeWhile_dropWhile_id)
      then show False using c path_names_simps(4) [OF nm, of q] by simp
    qed
  qed
  then show "\<forall>b \<in> set bs. b = slash" by (simp add: dropWhile_eq_Nil_conv)
next
  assume "\<forall>b \<in> set bs. b = slash"
  then show "path_names bs = []" using path_names_slashes [of bs "[]"] by (simp add: path_names_simps)
qed

section \<open>The loop\<close>

text \<open>What the loop returns besides the status and the parent, which are those of \<open>walk_names\<close>.\<close>

definition last_name :: "slice list \<Rightarrow> slice" where
  "last_name nms = (if nms = [] then [] else last nms)"

definition outcome :: "slice \<Rightarrow> ('a \<times> slice \<times> slice \<times> slice option) \<Rightarrow> status \<Rightarrow> bool" where
  "outcome path r st \<longleftrightarrow> (case r of (_, nm, follows, rp) \<Rightarrow>
     (ok st \<longrightarrow> nm = last_name (path_names path) \<and> rp = None \<and>
        (follows \<noteq> [] \<and> hd follows = slash \<longleftrightarrow> path_names path \<noteq> [] \<and> last path = slash)) \<and>
     (\<not> ok st \<longrightarrow> rp \<noteq> None))"

lemma path_last:
  assumes "dropWhile P (tl path) \<noteq> []"
  shows "last path = last (dropWhile P (tl path))"
proof -
  have "tl path \<noteq> []" using assms by auto
  then have "last path = last (tl path)" by (simp add: last_tl)
  also have "\<dots> = last (takeWhile P (tl path) @ dropWhile P (tl path))" by simp
  finally show ?thesis using assms by (simp del: takeWhile_dropWhile_id)
qed

lemma last_slash: "q \<noteq> [] \<Longrightarrow> q = slash # r \<Longrightarrow> \<forall>b \<in> set r. b = slash \<Longrightarrow> last q = slash"
  by (induction r arbitrary: q) auto

lemma last_skip:
  assumes "q = slash # r" and "dropWhile (\<lambda>b. b = slash) r \<noteq> []"
  shows "last q = last (dropWhile (\<lambda>b. b = slash) r)"
  using path_last [of "\<lambda>b. b = slash" q] assms by simp

lemma resolv_loop_walk:
  "path \<noteq> [] \<Longrightarrow> hd path = slash \<Longrightarrow>
   (\<forall>st l s'. walk_names ca dir (butlast (path_names path)) s = Some ((st, l), s') \<longrightarrow>
     (\<exists>nm follows rp. resolv_loop ca dir path s = Some ((st, l, nm, follows, rp), s') \<and> outcome path (l, nm, follows, rp) st)) \<and>
   (walk_names ca dir (butlast (path_names path)) s = None \<longrightarrow> resolv_loop ca dir path s = None)"
proof (induction ca dir path s rule: resolv_loop.induct)
  case (1 ca dir path s)
  let ?nm = "takeWhile (\<lambda>b. b \<noteq> slash) (tl path)" and ?q = "dropWhile (\<lambda>b. b \<noteq> slash) (tl path)"
  let ?c = "dropWhile (\<lambda>b. b = slash) (tl ?q)"
  have path: "path = slash # tl path" using "1.prems" by (cases path) auto
  have nms: "path_names path = path_names (tl path)" using path path_names_simps(2) by metis
  have tl: "tl path = ?nm @ ?q" by simp
  have sl: "slash \<notin> set ?nm" by (auto dest: set_takeWhileD)
  consider (stop) "?q = []" | (empty) "?q \<noteq> []" "?nm = []" | (last) "?q \<noteq> []" "?nm \<noteq> []" "?c = []"
    | (more) "?q \<noteq> []" "?nm \<noteq> []" "?c \<noteq> []" by blast
  then show ?case
  proof cases
    case stop
    have "tl path = ?nm" using tl stop by simp
    then have n: "path_names path = (if ?nm = [] then [] else [?nm])"
      using nms path_names_simps(1) path_names_simps(3) [OF sl] by metis
    have "resolv_loop ca dir path s = Some ((Okay, dir, ?nm, ?q, None), s)"
      using "1.prems"(1) stop by (subst resolv_loop.simps) (simp add: Let_def)
    moreover have "last path \<noteq> slash" if "?nm \<noteq> []"
    proof -
      have "tl path \<noteq> []" using that by auto
      then have "last path = last (tl path)" by (simp add: last_tl)
      then show ?thesis using \<open>tl path = ?nm\<close> \<open>tl path \<noteq> []\<close> sl by (metis last_in_set)
    qed
    ultimately show ?thesis using n stop by (cases "?nm = []") (simp_all add: outcome_def last_name_def)
  next
    case empty
    have q: "?q = tl path" using tl empty(2) by simp
    have "hd ?q = slash" using hd_dropWhile [OF empty(1)] by simp
    moreover have "resolv_loop ca dir path s = resolv_loop ca dir ?q s"
      unfolding resolv_loop.simps [of ca dir path s] Let_def by (simp only: empty "1.prems"(1) if_False if_True refl)
    moreover have "path_names ?q = path_names path" using nms q by simp
    moreover have "last ?q = last path" using empty(1) unfolding q by (simp add: last_tl)
    ultimately show ?thesis using "1.IH"(1) [OF refl refl "1.prems"(1) empty] empty(1) by (simp add: outcome_def)
  next
    case last
    have q: "?q = slash # tl ?q" using last(1) hd_dropWhile [OF last(1)] by (metis (mono_tags) list.collapse)
    have sls: "\<forall>b \<in> set (tl ?q). b = slash" using last(3) by (simp only: dropWhile_eq_Nil_conv)
    have "path_names (tl path) = ?nm # path_names (tl ?q)"
      using tl q path_names_simps(4) [OF sl last(2), of "tl ?q"] by metis
    moreover have "path_names (tl ?q) = []" using sls path_names_none by blast
    ultimately have n: "path_names path = [?nm]" using nms by simp
    have "last path = last ?q" using path_last [OF last(1)] .
    moreover have "last ?q = slash" by (rule last_slash [OF last(1) q sls])
    ultimately have l: "last path = slash" by simp
    have "resolv_loop ca dir path s = Some ((Okay, dir, ?nm, ?q, None), s)"
      unfolding resolv_loop.simps [of ca dir path s] Let_def by (simp only: last "1.prems"(1) if_False if_True refl)
    then show ?thesis using n l last(1) hd_dropWhile [OF last(1)] by (simp add: outcome_def last_name_def)
  next
    case more
    have q: "?q = slash # tl ?q" using more(1) hd_dropWhile [OF more(1)] by (metis (mono_tags) list.collapse)
    have "path_names (tl path) = ?nm # path_names (tl ?q)"
      using tl q path_names_simps(4) [OF sl more(2), of "tl ?q"] by metis
    then have n: "path_names path = ?nm # path_names ?c" using nms by (simp add: path_names_skip)
    have "\<exists>b \<in> set (tl ?q). b \<noteq> slash" using more(3) by (simp only: dropWhile_eq_Nil_conv) blast
    then have ne: "path_names ?c \<noteq> []" using path_names_none [of "tl ?q"] by (auto simp: path_names_skip)
    have pc: "path_names (slash # ?c) = path_names ?c" by (rule path_names_simps(2))
    have lc: "last path = last ?c" by (rule trans [OF path_last [OF more(1)] last_skip [OF q more(3)]])
    have l: "last (slash # ?c) = last path" unfolding lc last.simps by (simp only: more(3) if_False)
    have step: "resolv_loop ca dir path s =
        (case lease_rep s dir of None \<Rightarrow> None
         | Some lrep \<Rightarrow> (case Lokup_cli ca lrep ?nm kRegular s of None \<Rightarrow> None
             | Some ((st, l), s) \<Rightarrow>
                 if ok st
                 then (case l of None \<Rightarrow> None
                       | Some a \<Rightarrow> (case ReleaseLease dir s of None \<Rightarrow> None | Some s \<Rightarrow> resolv_loop ca (Some a) (slash # ?c) s))
                 else Some ((st, dir, ?nm, [], Some (slash # ?c)), s)))"
      unfolding resolv_loop.simps [of ca dir path s] Let_def by (simp only: more "1.prems"(1) if_False if_True refl)
    have bl: "butlast (path_names path) = ?nm # butlast (path_names ?c)" using n ne by simp
    have ln: "last_name (path_names path) = last_name (path_names ?c)" using n ne by (simp add: last_name_def)
    show ?thesis
    proof (cases "lease_rep s dir")
      case None
      then show ?thesis using step bl by simp
    next
      case (Some p)
      show ?thesis
      proof (cases "Lokup_cli ca p ?nm kRegular s")
        case None
        then show ?thesis using step bl Some by simp
      next
        case (Some r)
        obtain st x s1 where r: "r = ((st, x), s1)" by (metis surj_pair)
        note L = \<open>lease_rep s dir = Some p\<close> Some [unfolded r]
        show ?thesis
        proof (cases "ok st")
          case False
          then show ?thesis using step bl L by (simp add: outcome_def)
        next
          case True
          show ?thesis
          proof (cases "x = None \<or> ReleaseLease dir s1 = None")
            case True
            then show ?thesis using step bl L \<open>ok st\<close> by (cases x) auto
          next
            case False
            then obtain a s2 where a: "x = Some a" "ReleaseLease dir s1 = Some s2" by auto
            have "resolv_loop ca dir path s = resolv_loop ca (Some a) (slash # ?c) s2" using step L \<open>ok st\<close> a by simp
            moreover have "walk_names ca dir (butlast (path_names path)) s = walk_names ca (Some a) (butlast (path_names ?c)) s2"
              using bl L \<open>ok st\<close> a by simp
            moreover note IH = "1.IH"(2) [OF refl refl "1.prems"(1) more(1,2) refl more(3) L(1) L(2) refl refl \<open>ok st\<close> a]
            ultimately show ?thesis using IH ln l n ne pc by (simp add: outcome_def)
          qed
        qed
      qed
    qed
  qed
qed

section \<open>Resolution\<close>

text \<open>The walk from a relative root, which is looked up first; \<open>None\<close> for the directory when that fails.\<close>

definition walk_at :: "nat \<Rightarrow> AT option \<Rightarrow> slice list \<Rightarrow> ('w, 'b, status \<times> lease_ptr option) cli_op" where
  "walk_at ca at nms s = do {
     ((st, root), s) \<leftarrow> (case at of
        None \<Rightarrow> Some ((Okay, Some None), s)
      | Some at \<Rightarrow> map_option (\<lambda>((st, l), s). ((st, map_option Some l), s)) (Lokup_cli ca (parent_of_root at) (at_name at) kRegular s));
     if \<not> ok st then Some ((st, None), s)
     else do { dir \<leftarrow> root; ((st, l), s) \<leftarrow> walk_names ca dir nms s; Some ((st, Some l), s) }}"

lemma with_prefix:
  "st' = (if IsDirExpected st \<and> b then DirExpected m else if IsNotFound st \<and> b then NotFound m' else st) \<Longrightarrow>
   status_code st' = status_code st \<and> ok st' = ok st"
  by (cases st) auto

lemma ex_False: "\<exists>b. \<not> b"
  by (rule exI [of _ False]) simp

text \<open>
  C12. Path names. The pointer loop of \<^verbatim>\<open>Resolv\<close>, from the root or from the relative root of the caller, does exactly
  the lookups of the specification: the names of the path that are not empty, without the last one, one after the other,
  each in the directory found before, each parent released. It ends in the same state with the same directory and the same
  status code, and when it succeeds it returns the last name (none for the root, however many slashes are written) and
  whether slashes follow it. It ends for every path, since each turn drops a part of it.
\<close>

theorem path_resolution:
  assumes "path \<noteq> []" and "hd path = slash"
  shows "case walk_at ca at (butlast (path_names path)) s of
      None \<Rightarrow> Resolu ca at path s = None
    | Some ((st, dir), s') \<Rightarrow> \<exists>st' nm slashes. Resolu ca at path s = Some ((st', dir, nm, slashes), s') \<and>
        status_code st' = status_code st \<and> ok st' = ok st \<and>
        (ok st \<longrightarrow> nm = last_name (path_names path) \<and> (slashes \<longleftrightarrow> path_names path \<noteq> [] \<and> last path = slash))"
proof -
  have loop: "Resolv ca dir path s = resolv_loop ca dir path s" for dir and s :: "('a, 'b) FilesystemCli"
    using assms by (cases path) (simp_all add: Resolv_def)
  let ?f = "\<lambda>(st, parent, nm, follows, rp) s.
    let st = (if IsDirExpected st \<and> rp \<noteq> None then DirExpected (path_prefix path (the rp))
              else if IsNotFound st \<and> rp \<noteq> None then NotFound (path_prefix path (the rp)) else st)
    in Some ((st, Some parent, nm, ok st \<and> follows \<noteq> [] \<and> hd follows = slash), s)"
  let ?goal = "\<lambda>w (R :: ((status \<times> lease_ptr option \<times> slice \<times> bool) \<times> ('a, 'b) FilesystemCli) option). case w of None \<Rightarrow> R = None
    | Some ((st, dir), s') \<Rightarrow> \<exists>st' nm slashes. R = Some ((st', dir, nm, slashes), s') \<and>
        status_code st' = status_code st \<and> ok st' = ok st \<and>
        (ok st \<longrightarrow> nm = last_name (path_names path) \<and> (slashes \<longleftrightarrow> path_names path \<noteq> [] \<and> last path = slash))"
  have core: "?goal (do { ((st, l), s') \<leftarrow> walk_names ca dir (butlast (path_names path)) s; Some ((st, Some l), s') })
      (do { (r, s) \<leftarrow> Resolv ca dir path s; ?f r s })" for dir s
  proof (cases "walk_names ca dir (butlast (path_names path)) s")
    case None
    then show ?thesis using resolv_loop_walk [OF assms, of ca dir s] loop by simp
  next
    case (Some r)
    obtain st l s' where r: "r = ((st, l), s')" by (metis surj_pair)
    obtain nm follows rp where R: "Resolv ca dir path s = Some ((st, l, nm, follows, rp), s')" and
      o: "outcome path (l, nm, follows, rp) st"
      using resolv_loop_walk [OF assms, of ca dir s] Some r loop by force
    note P = with_prefix [OF refl, of st "rp \<noteq> None" "path_prefix path (the rp)" "path_prefix path (the rp)"]
    show ?thesis unfolding Some r R using o P by (simp add: Let_def outcome_def)
  qed
  have R: "Resolu ca at path s = do {
     ((st, rr), s) \<leftarrow> (case at of
        None \<Rightarrow> Some ((Okay, Some None), s)
      | Some at \<Rightarrow> map_option (\<lambda>((st, l), s). ((st, map_option Some l), s)) (Lokup_cli ca (parent_of_root at) (at_name at) kRegular s));
     if \<not> ok st then Some ((st, None, [], False), s)
     else do { root \<leftarrow> rr; (r, s) \<leftarrow> Resolv ca root path s; ?f r s }}"
    by (simp add: Resolu_def Let_def split_def)
  show ?thesis
  proof (cases at)
    case None
    have "walk_at ca at (butlast (path_names path)) s = do { ((st, l), s') \<leftarrow> walk_names ca None (butlast (path_names path)) s; Some ((st, Some l), s') }"
      by (simp add: walk_at_def None)
    moreover have "Resolu ca at path s = do { (r, s) \<leftarrow> Resolv ca None path s; ?f r s }"
      unfolding R unfolding None by (simp add: split_def)
    ultimately show ?thesis using core [of None s] by (simp only:)
  next
    case (Some x)
    show ?thesis
    proof (cases "Lokup_cli ca (parent_of_root x) (at_name x) kRegular s")
      case None
      then show ?thesis using Some by (simp add: walk_at_def Resolu_def)
    next
      case L: (Some r)
      obtain st l s1 where r: "r = ((st, l), s1)" by (metis surj_pair)
      show ?thesis
      proof (cases "ok st \<and> l \<noteq> None")
        case True
        then obtain a where "l = Some a" by auto
        then have "walk_at ca at (butlast (path_names path)) s =
            do { ((st, l), s') \<leftarrow> walk_names ca (Some a) (butlast (path_names path)) s1; Some ((st, Some l), s') }"
          using True by (simp add: walk_at_def Some L r)
        moreover have "Resolu ca at path s = do { (r, s) \<leftarrow> Resolv ca (Some a) path s1; ?f r s }"
          using True \<open>l = Some a\<close> unfolding R unfolding Some by (simp add: L r split_def)
        ultimately show ?thesis using core [of "Some a" s1] by (simp only:)
      next
        case False
        then show ?thesis unfolding R walk_at_def unfolding Some L r by (cases "ok st") (simp_all add: L r ex_False)
      qed
    qed
  qed
qed

lemma path_names_example: "path_names [47, 47, 97, 47, 47, 98, 47] = [[97], [98]]"
  by code_simp

lemma path_resolution_witness:
  "\<forall>ca at (s :: ('w, 'b) FilesystemCli). case walk_at ca at [[0x61]] s of
      None \<Rightarrow> Resolu ca at [0x2F, 0x2F, 0x61, 0x2F, 0x2F, 0x62, 0x2F] s = None
    | Some ((st, dir), s') \<Rightarrow> \<exists>st' nm slashes.
        Resolu ca at [0x2F, 0x2F, 0x61, 0x2F, 0x2F, 0x62, 0x2F] s = Some ((st', dir, nm, slashes), s') \<and>
        status_code st' = status_code st \<and> ok st' = ok st \<and> (ok st \<longrightarrow> nm = [0x62] \<and> slashes)"
proof (intro allI)
  fix ca at and s :: "('w, 'b) FilesystemCli"
  show "case walk_at ca at [[0x61]] s of
      None \<Rightarrow> Resolu ca at [0x2F, 0x2F, 0x61, 0x2F, 0x2F, 0x62, 0x2F] s = None
    | Some ((st, dir), s') \<Rightarrow> \<exists>st' nm slashes.
        Resolu ca at [0x2F, 0x2F, 0x61, 0x2F, 0x2F, 0x62, 0x2F] s = Some ((st', dir, nm, slashes), s') \<and>
        status_code st' = status_code st \<and> ok st' = ok st \<and> (ok st \<longrightarrow> nm = [0x62] \<and> slashes)"
    using path_resolution [of "[0x2F, 0x2F, 0x61, 0x2F, 0x2F, 0x62, 0x2F]" ca at s]
    by (simp add: path_names_example last_name_def slash_def cong: option.case_cong prod.case_cong)
qed

end
