(* ===== verification/Fscli_Batches.thy ===== *)
theory Fscli_Batches
  imports Fscli
begin

text \<open>
  Batches of the client: the names that are inserted reach the servers they belong to, in order and in groups of bounded
  size; and the handle of a bulk insertion whose lease has expired cannot be closed.
\<close>

section \<open>Servers that accept every request\<close>

text \<open>
  \<open>hist w i\<close> are the requests server \<open>i\<close> has answered. A client has one local file system, which stands for server 0, or
  stubs, which belong to the addresses they were opened for.
\<close>

definition stubs_ok :: "nat \<Rightarrow> nat \<Rightarrow> (nat \<Rightarrow> nat \<Rightarrow> 'w rpc) \<Rightarrow> 'w rpc option list \<Rightarrow> bool" where
  "stubs_ok n p at sts \<longleftrightarrow> length sts = n * p \<and> (\<forall>k < n * p. \<forall>r. sts ! k = Some r \<longrightarrow> r = at (k div p) (k mod p))"

definition ctx_stubs_ok :: "nat \<Rightarrow> nat \<Rightarrow> (nat \<Rightarrow> nat \<Rightarrow> 'w rpc) \<Rightarrow> 'w FilesystemCliCtx \<Rightarrow> bool" where
  "ctx_stubs_ok n p at ctx \<longleftrightarrow> (case stubs ctx of None \<Rightarrow> True | Some sts \<Rightarrow> stubs_ok n p at sts)"

definition mkfls_served :: "('w \<Rightarrow> nat \<Rightarrow> MkflsOptions list) \<Rightarrow> nat \<Rightarrow> ('w, 'b) FilesystemCli \<Rightarrow> bool" where
  "mkfls_served hist ca s \<longleftrightarrow>
     (case cli_fs s of
        Some F \<Rightarrow> srvs s = 1 \<and>
          (\<forall>who p names mode n w. \<exists>m w'. if_Mkfls F who p names mode n w = Some (Okay, m, w') \<and>
             hist w' = (hist w)(0 := hist w 0 @ [mkfls_opts p names who mode n]))
      | None \<Rightarrow> \<exists>open_stub. cli_rpc s = Some open_stub \<and> 0 < ports_per_srv s \<and>
          (\<forall>ctx. ctx_mem s ca = Some ctx \<longrightarrow> ctx_stubs_ok (srvs s) (ports_per_srv s) (\<lambda>i j. open_stub (uri_mapper s i j)) ctx) \<and>
          (\<forall>i < srvs s. \<forall>j < ports_per_srv s. \<forall>req w. \<exists>m w'. MkflsCli (open_stub (uri_mapper s i j)) req w = Some (Okay, m, w') \<and>
             hist w' = (hist w)(i := hist w i @ [req])))"

lemma stub_index: "i < n \<Longrightarrow> j < p \<Longrightarrow> i * p + j < n * (p :: nat) \<and> (i * p + j) div p = i \<and> (i * p + j) mod p = j"
proof -
  assume i: "i < n" and j: "j < p"
  have "(i + 1) * p \<le> n * p" using i by (intro mult_le_mono1) simp
  then show ?thesis using j by simp
qed

lemma stubs_ok_update:
  assumes "stubs_ok n p at sts" and "k < n * p" and "r = at (k div p) (k mod p)"
  shows "stubs_ok n p at (sts[k := Some r])"
  unfolding stubs_ok_def
proof (intro conjI allI impI)
  show "length (sts[k := Some r]) = n * p" using assms(1) by (simp add: stubs_ok_def)
  fix k' r' assume "k' < n * p" "sts[k := Some r] ! k' = Some r'"
  then show "r' = at (k' div p) (k' mod p)"
    using assms by (cases "k' = k") (auto simp: stubs_ok_def)
qed

lemma stubs_ok_new: "stubs_ok n p at (replicate (n * p) None)"
  by (simp add: stubs_ok_def)

lemma PrepareStub_ok:
  assumes c: "ctx_mem s ca = Some ctx" and o: "cli_rpc s = Some open_stub" and p: "0 < ports_per_srv s" and i: "i < srvs s"
    and at: "at = (\<lambda>i j. open_stub (uri_mapper s i j))" and st: "ctx_stubs_ok (srvs s) (ports_per_srv s) at ctx"
  shows "\<exists>j ctx'. j < ports_per_srv s \<and> PrepareStub ca i s = Some (at i j, s\<lparr>ctx_mem := (ctx_mem s)(ca \<mapsto> ctx')\<rparr>) \<and>
    ctx_stubs_ok (srvs s) (ports_per_srv s) at ctx' \<and> ctx_who ctx' = ctx_who ctx"
proof -
  define sts where "sts = (case stubs ctx of None \<Rightarrow> replicate (srvs s * ports_per_srv s) None | Some sts \<Rightarrow> sts)"
  define rnd where "rnd = (if 1 < ports_per_srv s then Random_Next (ctx_rnd ctx) else ctx_rnd ctx)"
  define j where "j = (if 1 < ports_per_srv s then unat rnd mod ports_per_srv s else 0)"
  define k where "k = i * ports_per_srv s + j"
  have j: "j < ports_per_srv s" using p by (simp add: j_def)
  have K: "k < srvs s * ports_per_srv s" "k div ports_per_srv s = i" "k mod ports_per_srv s = j"
    using stub_index [OF i j] by (simp_all add: k_def)
  have ok: "stubs_ok (srvs s) (ports_per_srv s) at sts"
    using st stubs_ok_new by (auto simp: ctx_stubs_ok_def sts_def split: option.splits)
  then have l: "length sts = srvs s * ports_per_srv s" by (simp add: stubs_ok_def)
  have r: "(case sts ! k of None \<Rightarrow> open_stub (uri_mapper s i j) | Some r \<Rightarrow> r) = at i j"
    using ok K by (auto simp: stubs_ok_def at split: option.split)
  let ?ctx = "ctx\<lparr>ctx_rnd := rnd, stubs := Some (sts[k := Some (at i j)])\<rparr>"
  have "PrepareStub ca i s = Some (at i j, s\<lparr>ctx_mem := (ctx_mem s)(ca \<mapsto> ?ctx)\<rparr>)"
    unfolding PrepareStub_def c o Option.bind_lunit Let_def sts_def [symmetric] rnd_def [symmetric] j_def [symmetric] k_def [symmetric] r
    using i K(1) l by simp
  moreover have "ctx_stubs_ok (srvs s) (ports_per_srv s) at ?ctx"
    using stubs_ok_update [OF ok K(1)] K by (simp add: ctx_stubs_ok_def)
  ultimately show ?thesis using j by (intro exI [of _ j] exI [of _ ?ctx]) simp
qed

text \<open>A request is recorded by its server; the client changes nothing but its stubs.\<close>

lemma Mkfls2_ok:
  assumes v: "mkfls_served hist ca s" and c: "ctx_mem s ca = Some ctx" and perm: "IsDirWriteOk_cli (cli_options s) p (ctx_who ctx)"
    and i: "i < srvs s"
  shows "\<exists>w' ctx'. Mkfls2 ca p names n mode i s = Some (Okay, s\<lparr>world := w', ctx_mem := (ctx_mem s)(ca \<mapsto> ctx')\<rparr>) \<and>
    ctx_who ctx' = ctx_who ctx \<and> hist w' = (hist (world s))(i := hist (world s) i @ [mkfls_opts p names (ctx_who ctx) mode n]) \<and>
    mkfls_served hist ca (s\<lparr>world := w', ctx_mem := (ctx_mem s)(ca \<mapsto> ctx')\<rparr>)"
proof (cases "cli_fs s")
  case (Some F)
  then have "i = 0" using v i by (simp add: mkfls_served_def)
  obtain m w' where w: "if_Mkfls F (ctx_who ctx) p names mode n (world s) = Some (Okay, m, w')"
    "hist w' = (hist (world s))(0 := hist (world s) 0 @ [mkfls_opts p names (ctx_who ctx) mode n])"
    using v Some unfolding mkfls_served_def by (simp only: option.case) blast
  have "s\<lparr>world := w', ctx_mem := (ctx_mem s)(ca \<mapsto> ctx)\<rparr> = s\<lparr>world := w'\<rparr>" using c by (simp add: fun_upd_idem)
  then show ?thesis
    using v Some w c perm \<open>i = 0\<close>
    by (intro exI [of _ w'] exI [of _ ctx]) (simp add: Mkfls2_def backend_def set_out_def mkfls_served_def)
next
  case None
  then obtain open_stub where o: "cli_rpc s = Some open_stub" "0 < ports_per_srv s"
      "ctx_stubs_ok (srvs s) (ports_per_srv s) (\<lambda>i j. open_stub (uri_mapper s i j)) ctx"
    and serve: "\<And>i j req w. i < srvs s \<Longrightarrow> j < ports_per_srv s \<Longrightarrow> \<exists>m w'. MkflsCli (open_stub (uri_mapper s i j)) req w = Some (Okay, m, w') \<and>
       hist w' = (hist w)(i := hist w i @ [req])"
    using v c unfolding mkfls_served_def by (simp only: option.case) blast
  obtain j ctx' where j: "j < ports_per_srv s" "PrepareStub ca i s = Some (open_stub (uri_mapper s i j), s\<lparr>ctx_mem := (ctx_mem s)(ca \<mapsto> ctx')\<rparr>)"
    "ctx_stubs_ok (srvs s) (ports_per_srv s) (\<lambda>i j. open_stub (uri_mapper s i j)) ctx'" "ctx_who ctx' = ctx_who ctx"
    using PrepareStub_ok [OF c o(1,2) i refl o(3)] by blast
  obtain m w' where w: "MkflsCli (open_stub (uri_mapper s i j)) (mkfls_opts p names (ctx_who ctx) mode n) (world s) = Some (Okay, m, w')"
    "hist w' = (hist (world s))(i := hist (world s) i @ [mkfls_opts p names (ctx_who ctx) mode n])"
    using serve [OF i j(1)] by blast
  have "mkfls_served hist ca (s\<lparr>world := w', ctx_mem := (ctx_mem s)(ca \<mapsto> ctx')\<rparr>)"
    using None o j(3) serve by (simp add: mkfls_served_def)
  then show ?thesis
    using None o(1) j w c perm
    by (intro exI [of _ w'] exI [of _ ctx']) (simp add: Mkfls2_def backend_def set_out_def)
qed

section \<open>One buffer\<close>

definition enc_names :: "slice list \<Rightarrow> slice" where
  "enc_names ns = concat (map EncodeLengthPrefixedSlice ns)"

definition holds :: "WriBuf \<Rightarrow> slice list \<Rightarrow> bool" where
  "holds buf ns \<longleftrightarrow> wb_namearr buf = enc_names ns \<and> wb_n buf = word_of_nat (length ns)"

text \<open>The request for a group of names.\<close>

definition group_request :: "LookupStat \<Rightarrow> User \<Rightarrow> u32 \<Rightarrow> slice list \<Rightarrow> MkflsOptions" where
  "group_request p who mode ns = mkfls_opts p (enc_names ns) who mode (word_of_nat (length ns))"

text \<open>
  A server had answered the requests \<open>h0\<close> when the batch was opened and \<open>h\<close> now: these are the names \<open>ns\<close> in groups, but
  for the last names \<open>pend\<close> that are in the buffer.
\<close>

definition buf_state :: "nat \<Rightarrow> (slice list \<Rightarrow> MkflsOptions) \<Rightarrow> MkflsOptions list \<Rightarrow> MkflsOptions list \<Rightarrow> WriBuf \<Rightarrow> slice list \<Rightarrow> slice list \<Rightarrow> bool" where
  "buf_state B req h0 h buf pend ns \<longleftrightarrow>
     (\<exists>groups. h = h0 @ map req groups \<and> concat groups @ pend = ns \<and> (\<forall>g \<in> set groups. length g \<le> B)) \<and> holds buf pend \<and> length pend \<le> B"

lemma holds_simps:
  "holds \<lparr>wb_namearr = [], wb_n = 0\<rparr> []" "holds (buf\<lparr>wb_namearr := [], wb_n := 0\<rparr>) []"
  "holds buf ns \<Longrightarrow> holds (buf\<lparr>wb_namearr := PutLengthPrefixedSlice (wb_namearr buf) nm, wb_n := wb_n buf + 1\<rparr>) (ns @ [nm])"
  by (simp_all add: holds_def enc_names_def PutLengthPrefixedSlice_eq)

lemma buf_state_new: "buf_state B req h h \<lparr>wb_namearr = [], wb_n = 0\<rparr> [] []"
  by (auto simp: buf_state_def holds_simps)

lemma buf_state_flush:
  assumes "buf_state B req h0 h buf pend ns"
  shows "buf_state B req h0 (h @ [req pend]) (buf\<lparr>wb_namearr := [], wb_n := 0\<rparr>) [] ns"
proof -
  obtain groups where g: "h = h0 @ map req groups" "concat groups @ pend = ns" "\<forall>g \<in> set groups. length g \<le> B" "length pend \<le> B"
    using assms by (auto simp: buf_state_def)
  then have "h @ [req pend] = h0 @ map req (groups @ [pend])" "concat (groups @ [pend]) @ [] = ns" "\<forall>g \<in> set (groups @ [pend]). length g \<le> B"
    by simp_all
  then show ?thesis unfolding buf_state_def using holds_simps(2) by (metis le0 list.size(3))
qed

lemma buf_state_add:
  assumes "buf_state B req h0 h buf pend ns" and "length pend < B"
  shows "buf_state B req h0 h (buf\<lparr>wb_namearr := PutLengthPrefixedSlice (wb_namearr buf) nm, wb_n := wb_n buf + 1\<rparr>) (pend @ [nm]) (ns @ [nm])"
  using assms holds_simps(3) by (auto simp: buf_state_def)

text \<open>What \<^verbatim>\<open>Mkfls1\<close> leaves in the buffer.\<close>

definition still_pending :: "bool \<Rightarrow> nat \<Rightarrow> slice list \<Rightarrow> slice \<Rightarrow> slice list" where
  "still_pending force_flush n pend nm = (if force_flush \<or> n \<le> length pend then [] else pend) @ (if nm = [] then [] else [nm])"

lemma Mkfls1_ok:
  assumes v: "mkfls_served hist ca s" and c: "ctx_mem s ca = Some ctx" and perm: "IsDirWriteOk_cli (cli_options s) p (ctx_who ctx)"
    and i: "i < srvs s" and n: "n = batch_size (cli_options s)" "n < 2 ^ 32"
    and b: "buf_state (max 1 n) (group_request p (ctx_who ctx) mode) h0 (hist (world s) i) buf pend ns"
  shows "\<exists>w' ctx' buf'. Mkfls1 ca p nm mode force_flush i buf s = Some ((Okay, buf'), s\<lparr>world := w', ctx_mem := (ctx_mem s)(ca \<mapsto> ctx')\<rparr>) \<and>
    ctx_who ctx' = ctx_who ctx \<and> mkfls_served hist ca (s\<lparr>world := w', ctx_mem := (ctx_mem s)(ca \<mapsto> ctx')\<rparr>) \<and>
    (\<forall>j. j \<noteq> i \<longrightarrow> hist w' j = hist (world s) j) \<and>
    buf_state (max 1 n) (group_request p (ctx_who ctx) mode) h0 (hist w' i) buf' (still_pending force_flush n pend nm)
      (ns @ (if nm = [] then [] else [nm]))"
proof -
  let ?req = "group_request p (ctx_who ctx) mode" let ?B = "max 1 n"
  have h: "holds buf pend" "length pend \<le> ?B" using b by (simp_all add: buf_state_def)
  have "length pend < 2 ^ 32" using h(2) n(2) by simp
  then have u: "unat (wb_n buf) = length pend" using h(1) by (simp add: holds_def unsigned_of_nat take_bit_nat_eq_self)
  have add: "\<exists>buf''. (if nm \<noteq> [] then buf'\<lparr>wb_namearr := PutLengthPrefixedSlice (wb_namearr buf') nm, wb_n := wb_n buf' + 1\<rparr> else buf') = buf'' \<and>
      buf_state ?B ?req h0 h buf'' (pend' @ (if nm = [] then [] else [nm])) (ns @ (if nm = [] then [] else [nm]))"
    if "buf_state ?B ?req h0 h buf' pend' ns" "length pend' < ?B" for h buf' pend'
    using that buf_state_add [OF that, of nm] by simp
  show ?thesis
  proof (cases "force_flush \<or> n \<le> length pend")
    case True
    obtain w' ctx' where m: "Mkfls2 ca p (wb_namearr buf) (wb_n buf) mode i s = Some (Okay, s\<lparr>world := w', ctx_mem := (ctx_mem s)(ca \<mapsto> ctx')\<rparr>)"
      "ctx_who ctx' = ctx_who ctx" "hist w' = (hist (world s))(i := hist (world s) i @ [?req pend])"
      "mkfls_served hist ca (s\<lparr>world := w', ctx_mem := (ctx_mem s)(ca \<mapsto> ctx')\<rparr>)"
      using Mkfls2_ok [OF v c perm i, of "wb_namearr buf" "wb_n buf" mode] h(1) by (auto simp: holds_def group_request_def)
    have "buf_state ?B ?req h0 (hist w' i) (buf\<lparr>wb_namearr := [], wb_n := 0\<rparr>) [] ns"
      using buf_state_flush [OF b] m(3) by simp
    from add [OF this] show ?thesis
      using True m u n(1) by (intro exI [of _ w'] exI [of _ ctx']) (simp add: Mkfls1_def still_pending_def)
  next
    case False
    have eq: "s\<lparr>ctx_mem := (ctx_mem s)(ca \<mapsto> ctx)\<rparr> = s" using c by (simp add: fun_upd_idem)
    have "length pend < ?B" using False by simp
    from add [OF b this] obtain buf' where b': "(if nm \<noteq> [] then buf\<lparr>wb_namearr := PutLengthPrefixedSlice (wb_namearr buf) nm, wb_n := wb_n buf + 1\<rparr> else buf) = buf'"
      "buf_state ?B ?req h0 (hist (world s) i) buf' (pend @ (if nm = [] then [] else [nm])) (ns @ (if nm = [] then [] else [nm]))" by blast
    have "Mkfls1 ca p nm mode force_flush i buf s = Some ((Okay, buf'), s)" using False u n(1) b'(1) by (simp add: Mkfls1_def)
    then show ?thesis
      using False b'(2) v by (intro exI [of _ "world s"] exI [of _ ctx] exI [of _ buf']) (simp add: eq still_pending_def)
  qed
qed

section \<open>A batch\<close>

definition batch_ready :: "('w \<Rightarrow> nat \<Rightarrow> MkflsOptions list) \<Rightarrow> nat \<Rightarrow> ('w, 'b) FilesystemCli \<Rightarrow> Lease \<Rightarrow> nat \<Rightarrow> BatchedCreates \<Rightarrow> User \<Rightarrow> bool" where
  "batch_ready hist bat s l b bc who \<longleftrightarrow>
     lease_mem s bat = Some l \<and> le_batch l = Some b \<and> batch_mem s b = Some bc \<and>
     (\<exists>ctx. ctx_mem s (bc_ctx bc) = Some ctx \<and> ctx_who ctx = who) \<and> IsDirWriteOk_cli (cli_options s) (le_rep l) who \<and>
     mkfls_served hist (bc_ctx bc) s \<and> length (wribufs bc) = srvs s \<and> batch_size (cli_options s) < 2 ^ 32"

definition only_requests :: "('w, 'b) FilesystemCli \<Rightarrow> ('w, 'b) FilesystemCli \<Rightarrow> bool" where
  "only_requests s s' \<longleftrightarrow> (\<exists>w cm bm. s' = s\<lparr>world := w, ctx_mem := cm, batch_mem := bm\<rparr>)"

lemma only_requestsI: "s' = s\<lparr>world := w, ctx_mem := cm, batch_mem := bm\<rparr> \<Longrightarrow> only_requests s s'"
  unfolding only_requests_def by blast

lemma only_requests_refl: "only_requests s s"
  by (rule only_requestsI [where w = "world s" and cm = "ctx_mem s" and bm = "batch_mem s"]) simp

lemma only_requests_trans: "only_requests s s1 \<Longrightarrow> only_requests s1 s2 \<Longrightarrow> only_requests s s2"
  by (auto simp: only_requests_def) blast

lemma only_requestsD:
  assumes "only_requests s s'"
  shows "cli_options s' = cli_options s" "srvs s' = srvs s" "lease_mem s' = lease_mem s" "select_server a nm s' = select_server a nm s"
  using assms by (auto simp: only_requests_def select_server_def)

lemma mkfls_served_batch: "mkfls_served hist ca (s\<lparr>batch_mem := bm\<rparr>) = mkfls_served hist ca s"
  by (cases "cli_fs s") (simp_all add: mkfls_served_def)

lemma batch_ready_bc:
  assumes "batch_ready hist bat s l b bc who" and "length (wribufs bc') = length (wribufs bc)" "bc_ctx bc' = bc_ctx bc"
  shows "batch_ready hist bat (set_batch b bc' s) l b bc' who" and "only_requests s (set_batch b bc' s)"
  using assms by (simp_all add: batch_ready_def set_batch_def mkfls_served_batch only_requestsI [where w = "world s" and cm = "ctx_mem s"])

lemma lease_batch_ready: "batch_ready hist bat s l b bc who \<Longrightarrow> lease_batch bat s = Some (l, b, bc)"
  by (simp add: batch_ready_def lease_batch_def)

abbreviation buf_at :: "('w \<Rightarrow> nat \<Rightarrow> MkflsOptions list) \<Rightarrow> ('w, 'b) FilesystemCli \<Rightarrow> Lease \<Rightarrow> User \<Rightarrow> u32 \<Rightarrow> MkflsOptions list \<Rightarrow> nat \<Rightarrow> WriBuf \<Rightarrow> slice list \<Rightarrow> slice list \<Rightarrow> bool" where
  "buf_at hist s l who mode h0 i \<equiv>
     buf_state (max 1 (batch_size (cli_options s))) (group_request (le_rep l) who mode) h0 (hist (world s) i)"

lemma batch_server_ok:
  assumes r: "batch_ready hist bat s l b bc who" and i: "i < srvs s"
    and st: "buf_at hist s l who (bc_mode bc) h0 i (wribufs bc ! i) pend ns"
  shows "\<exists>s' buf'. batch_server bat nm force_flush i s = Some (Okay, s') \<and>
    batch_ready hist bat s' l b (bc\<lparr>wribufs := (wribufs bc)[i := buf']\<rparr>) who \<and> only_requests s s' \<and>
    (\<forall>j. j \<noteq> i \<longrightarrow> hist (world s') j = hist (world s) j) \<and>
    buf_at hist s' l who (bc_mode bc) h0 i buf' (still_pending force_flush (batch_size (cli_options s)) pend nm) (ns @ (if nm = [] then [] else [nm]))"
proof -
  obtain ctx where c: "ctx_mem s (bc_ctx bc) = Some ctx" "ctx_who ctx = who" using r by (auto simp: batch_ready_def)
  have R: "mkfls_served hist (bc_ctx bc) s" "IsDirWriteOk_cli (cli_options s) (le_rep l) (ctx_who ctx)" "batch_size (cli_options s) < 2 ^ 32"
    "length (wribufs bc) = srvs s" "lease_mem s bat = Some l" "le_batch l = Some b" "batch_mem s b = Some bc"
    using r c by (simp_all add: batch_ready_def)
  obtain w' ctx' buf' where m: "Mkfls1 (bc_ctx bc) (le_rep l) nm (bc_mode bc) force_flush i (wribufs bc ! i) s =
      Some ((Okay, buf'), s\<lparr>world := w', ctx_mem := (ctx_mem s)(bc_ctx bc \<mapsto> ctx')\<rparr>)"
    "ctx_who ctx' = ctx_who ctx" "mkfls_served hist (bc_ctx bc) (s\<lparr>world := w', ctx_mem := (ctx_mem s)(bc_ctx bc \<mapsto> ctx')\<rparr>)"
    "\<forall>j. j \<noteq> i \<longrightarrow> hist w' j = hist (world s) j"
    "buf_state (max 1 (batch_size (cli_options s))) (group_request (le_rep l) who (bc_mode bc)) h0 (hist w' i) buf'
       (still_pending force_flush (batch_size (cli_options s)) pend nm) (ns @ (if nm = [] then [] else [nm]))"
    using Mkfls1_ok [OF R(1) c(1) R(2) i refl R(3), of "bc_mode bc" h0 "wribufs bc ! i" pend ns nm force_flush] st unfolding c(2) by blast
  let ?bc = "bc\<lparr>wribufs := (wribufs bc)[i := buf']\<rparr>"
  let ?s1 = "s\<lparr>world := w', ctx_mem := (ctx_mem s)(bc_ctx bc \<mapsto> ctx')\<rparr>"
  have r1: "batch_ready hist bat ?s1 l b bc who" using r m(2,3) c by (simp add: batch_ready_def)
  have "only_requests s ?s1" by (rule only_requestsI [where w = w' and bm = "batch_mem s"]) simp
  then have "only_requests s (set_batch b ?bc ?s1)" by (rule only_requests_trans) (rule batch_ready_bc [OF r1], simp_all)
  moreover have "batch_ready hist bat (set_batch b ?bc ?s1) l b ?bc who" by (rule batch_ready_bc [OF r1]) simp_all
  moreover have "batch_server bat nm force_flush i s = Some (Okay, set_batch b ?bc ?s1)"
    using lease_batch_ready [OF r] R(4) i m(1) by (simp add: batch_server_def)
  ultimately show ?thesis using m(4,5) by (intro exI [of _ "set_batch b ?bc ?s1"] exI [of _ buf']) (simp add: set_batch_def)
qed

text \<open>The names of a batch that server \<open>i\<close> is to make.\<close>

definition placed :: "('w, 'b) FilesystemCli \<Rightarrow> nat \<Rightarrow> nat \<Rightarrow> slice list \<Rightarrow> slice list" where
  "placed s da i names = filter (\<lambda>nm. nm \<noteq> [] \<and> select_server da nm s = Some i) names"

text \<open>The names that were inserted into the batch since state \<open>s0\<close> are \<open>ns\<close>; the servers up to \<open>m\<close> have nothing pending.\<close>

definition gathered :: "('w \<Rightarrow> nat \<Rightarrow> MkflsOptions list) \<Rightarrow> nat \<Rightarrow> ('w, 'b) FilesystemCli \<Rightarrow> ('w, 'b) FilesystemCli \<Rightarrow> Lease \<Rightarrow> nat \<Rightarrow>
    BatchedCreates \<Rightarrow> User \<Rightarrow> slice list \<Rightarrow> nat \<Rightarrow> bool" where
  "gathered hist bat s0 s l b bc who ns m \<longleftrightarrow>
     batch_ready hist bat s l b bc who \<and> only_requests s0 s \<and> ok (bc_status bc) \<and>
     (\<forall>i < srvs s0. \<exists>pend. (i < m \<longrightarrow> pend = []) \<and>
        buf_at hist s l who (bc_mode bc) (hist (world s0) i) i (wribufs bc ! i) pend (placed s0 (bc_dir bc) i ns))"

definition places :: "('w, 'b) FilesystemCli \<Rightarrow> nat \<Rightarrow> bool" where
  "places s da \<longleftrightarrow> (\<forall>nm. \<exists>i < srvs s. select_server da nm s = Some i)"

lemma gathered_bc:
  assumes "gathered hist bat s0 s l b bc who ns m" and "bc' = bc\<lparr>bc_commit := x\<rparr> \<or> bc' = bc\<lparr>bc_commit := x, bc_status := bc_status bc\<rparr>"
  shows "gathered hist bat s0 (set_batch b bc' s) l b bc' who ns m"
proof -
  have r: "batch_ready hist bat s l b bc who" and q: "only_requests s0 s" using assms(1) by (simp_all add: gathered_def)
  have e: "wribufs bc' = wribufs bc" "bc_ctx bc' = bc_ctx bc" "bc_mode bc' = bc_mode bc" "bc_dir bc' = bc_dir bc" "bc_status bc' = bc_status bc"
    using assms(2) by auto
  note B = batch_ready_bc [OF r, of bc', unfolded e, OF refl refl]
  have "world (set_batch b bc' s) = world s" "cli_options (set_batch b bc' s) = cli_options s" by (simp_all add: set_batch_def)
  then show ?thesis using assms(1) B(1) only_requests_trans [OF q B(2)] unfolding gathered_def e by simp
qed

lemma keep_error_Okay: "keep_error Okay st = st" "ok st \<Longrightarrow> keep_error bg st = bg"
  by (cases st; simp add: keep_error_def)+

lemma BatchInsert_ok:
  assumes g: "gathered hist bat s0 s l b bc who ns 0" and d: "places s0 (bc_dir bc)" and opn: "bc_commit bc = 0"
  shows "\<exists>s' bc'. BatchInsert bat nm s = Some (Okay, s') \<and> gathered hist bat s0 s' l b bc' who (ns @ [nm]) 0 \<and>
    bc_dir bc' = bc_dir bc \<and> bc_commit bc' = 0 \<and> bc_mode bc' = bc_mode bc"
proof -
  have r: "batch_ready hist bat s l b bc who" and q: "only_requests s0 s" and st: "ok (bc_status bc)" using g by (simp_all add: gathered_def)
  note Q = only_requestsD [OF q]
  obtain i where i: "i < srvs s0" "select_server (bc_dir bc) nm s0 = Some i" using d unfolding places_def by blast
  obtain pend where p: "buf_at hist s l who (bc_mode bc) (hist (world s0) i) i (wribufs bc ! i) pend (placed s0 (bc_dir bc) i ns)"
    using g i(1) unfolding gathered_def by blast
  obtain s' buf' where m: "batch_server bat nm False i s = Some (Okay, s')"
    "batch_ready hist bat s' l b (bc\<lparr>wribufs := (wribufs bc)[i := buf']\<rparr>) who" "only_requests s s'"
    "\<forall>j. j \<noteq> i \<longrightarrow> hist (world s') j = hist (world s) j"
    "buf_at hist s' l who (bc_mode bc) (hist (world s0) i) i buf' (still_pending False (batch_size (cli_options s)) pend nm)
      (placed s0 (bc_dir bc) i ns @ (if nm = [] then [] else [nm]))"
    using batch_server_ok [OF r _ p, of nm False] i(1) Q(2) by auto
  let ?bc = "bc\<lparr>wribufs := (wribufs bc)[i := buf']\<rparr>"
  have k: "keep_error (bc_status bc) Okay = bc_status bc" by (simp add: keep_error_Okay)
  have b1: "batch_ready hist bat (set_batch b ?bc s') l b ?bc who" "only_requests s' (set_batch b ?bc s')" by (rule batch_ready_bc [OF m(2)]; simp)+
  have w1: "world (set_batch b ?bc s') = world s'" "cli_options (set_batch b ?bc s') = cli_options s'" by (simp_all add: set_batch_def)
  have "BatchInsert bat nm s = Some (Okay, set_batch b ?bc s')"
    using lease_batch_ready [OF r] lease_batch_ready [OF m(2)] opn st i(2) m(1) Q(4) k by (simp add: BatchInsert_def)
  moreover have "gathered hist bat s0 (set_batch b ?bc s') l b ?bc who (ns @ [nm]) 0"
    unfolding gathered_def w1
  proof (intro conjI allI impI)
    show "batch_ready hist bat (set_batch b ?bc s') l b ?bc who" by (rule b1)
    show "only_requests s0 (set_batch b ?bc s')" by (rule only_requests_trans [OF only_requests_trans [OF q m(3)] b1(2)])
    show "ok (bc_status ?bc)" using st by simp
    fix j assume j: "j < srvs s0"
    show "\<exists>pend. (j < 0 \<longrightarrow> pend = []) \<and> buf_state (max 1 (batch_size (cli_options s'))) (group_request (le_rep l) who (bc_mode ?bc))
        (hist (world s0) j) (hist (world s') j) (wribufs ?bc ! j) pend (placed s0 (bc_dir ?bc) j (ns @ [nm]))"
    proof (cases "j = i")
      case True
      have "length (wribufs bc) = srvs s0" using r Q(2) by (simp add: batch_ready_def)
      then show ?thesis using m(5) i True by (auto simp: placed_def split: if_splits)
    next
      case False
      obtain pend where "buf_at hist s l who (bc_mode bc) (hist (world s0) j) j (wribufs bc ! j) pend (placed s0 (bc_dir bc) j ns)"
        using g j unfolding gathered_def by blast
      then show ?thesis using False m(4) i(2) only_requestsD(1) [OF m(3)] by (auto simp: placed_def)
    qed
  qed
  ultimately show ?thesis using opn by (intro exI [of _ "set_batch b ?bc s'"] exI [of _ ?bc]) simp
qed

fun batch_inserts :: "nat \<Rightarrow> slice list \<Rightarrow> ('w, 'b, status) cli_op" where
  "batch_inserts bat [] s = Some (Okay, s)"
| "batch_inserts bat (nm # nms) s =
     (case BatchInsert bat nm s of None \<Rightarrow> None | Some (st, s) \<Rightarrow> if ok st then batch_inserts bat nms s else Some (st, s))"

lemma batch_inserts_ok:
  "gathered hist bat s0 s l b bc who ns 0 \<Longrightarrow> places s0 (bc_dir bc) \<Longrightarrow> bc_commit bc = 0 \<Longrightarrow>
   \<exists>s' bc'. batch_inserts bat nms s = Some (Okay, s') \<and> gathered hist bat s0 s' l b bc' who (ns @ nms) 0 \<and>
     bc_dir bc' = bc_dir bc \<and> bc_commit bc' = 0 \<and> bc_mode bc' = bc_mode bc"
proof (induction nms arbitrary: s bc ns)
  case (Cons nm nms)
  obtain s1 bc1 where 1: "BatchInsert bat nm s = Some (Okay, s1)" "gathered hist bat s0 s1 l b bc1 who (ns @ [nm]) 0"
    "bc_dir bc1 = bc_dir bc" "bc_commit bc1 = 0" "bc_mode bc1 = bc_mode bc" using BatchInsert_ok [OF Cons(2-4)] by blast
  show ?case using Cons(1) [OF 1(2), unfolded 1(3,5), OF Cons(3) 1(4)] 1(1) by simp
qed auto

lemma commit_one:
  assumes g: "gathered hist bat s0 s l b bc who ns m" and m: "m < srvs s0"
  shows "\<exists>s' bc'. batch_server bat [] True m s = Some (Okay, s') \<and> gathered hist bat s0 s' l b bc' who ns (Suc m) \<and>
    bc_dir bc' = bc_dir bc \<and> bc_commit bc' = bc_commit bc \<and> bc_mode bc' = bc_mode bc"
proof -
  have r: "batch_ready hist bat s l b bc who" and q: "only_requests s0 s" and st: "ok (bc_status bc)" using g by (simp_all add: gathered_def)
  note Q = only_requestsD [OF q]
  obtain pend where p: "buf_at hist s l who (bc_mode bc) (hist (world s0) m) m (wribufs bc ! m) pend (placed s0 (bc_dir bc) m ns)"
    using g m unfolding gathered_def by blast
  obtain s' buf' where s': "batch_server bat [] True m s = Some (Okay, s')"
    "batch_ready hist bat s' l b (bc\<lparr>wribufs := (wribufs bc)[m := buf']\<rparr>) who" "only_requests s s'"
    "\<forall>j. j \<noteq> m \<longrightarrow> hist (world s') j = hist (world s) j"
    "buf_at hist s' l who (bc_mode bc) (hist (world s0) m) m buf' [] (placed s0 (bc_dir bc) m ns)"
    using batch_server_ok [OF r _ p, of "[]" True] m Q(2) by (auto simp: still_pending_def)
  let ?bc = "bc\<lparr>wribufs := (wribufs bc)[m := buf']\<rparr>"
  have "gathered hist bat s0 s' l b ?bc who ns (Suc m)"
    unfolding gathered_def
  proof (intro conjI allI impI)
    show "batch_ready hist bat s' l b ?bc who" by (rule s'(2))
    show "only_requests s0 s'" by (rule only_requests_trans [OF q s'(3)])
    show "ok (bc_status ?bc)" using st by simp
    fix j assume j: "j < srvs s0"
    show "\<exists>pend. (j < Suc m \<longrightarrow> pend = []) \<and> buf_at hist s' l who (bc_mode ?bc) (hist (world s0) j) j (wribufs ?bc ! j) pend (placed s0 (bc_dir ?bc) j ns)"
    proof (cases "j = m")
      case True
      have "length (wribufs bc) = srvs s0" using r Q(2) by (simp add: batch_ready_def)
      then show ?thesis using s'(5) m True by auto
    next
      case False
      obtain pend where "j < m \<longrightarrow> pend = []"
        "buf_at hist s l who (bc_mode bc) (hist (world s0) j) j (wribufs bc ! j) pend (placed s0 (bc_dir bc) j ns)"
        using g j unfolding gathered_def by blast
      then show ?thesis using False s'(4) only_requestsD(1) [OF s'(3)] by (intro exI [of _ pend]) auto
    qed
  qed
  then show ?thesis using s'(1) by (intro exI [of _ s'] exI [of _ ?bc]) simp
qed

lemma commit_all:
  "gathered hist bat s0 s l b bc who ns m \<Longrightarrow> m \<le> srvs s0 \<Longrightarrow>
   \<exists>s' bc'. commit_servers (batch_server bat [] True) [m..<srvs s0] s = Some (Okay, s') \<and> gathered hist bat s0 s' l b bc' who ns (srvs s0) \<and>
     bc_dir bc' = bc_dir bc \<and> bc_commit bc' = bc_commit bc \<and> bc_mode bc' = bc_mode bc"
proof (induction "srvs s0 - m" arbitrary: s bc m)
  case 0
  then show ?case by auto
next
  case (Suc k)
  then have m: "m < srvs s0" by simp
  obtain s1 bc1 where 1: "batch_server bat [] True m s = Some (Okay, s1)" "gathered hist bat s0 s1 l b bc1 who ns (Suc m)"
    "bc_dir bc1 = bc_dir bc" "bc_commit bc1 = bc_commit bc" "bc_mode bc1 = bc_mode bc" using commit_one [OF Suc(3) m] by blast
  have k: "k = srvs s0 - Suc m" using Suc(2) by simp
  show ?case using Suc(1) [OF k 1(2)] 1 m by (auto simp: upt_conv_Cons)
qed

lemma BatchCommit_ok:
  assumes g: "gathered hist bat s0 s l b bc who ns 0" and opn: "bc_commit bc = 0"
  shows "\<exists>s' bc'. BatchCommit bat s = Some (Okay, s') \<and> gathered hist bat s0 s' l b bc' who ns (srvs s0) \<and>
    bc_dir bc' = bc_dir bc \<and> bc_commit bc' = 2 \<and> bc_mode bc' = bc_mode bc"
proof -
  have r: "batch_ready hist bat s l b bc who" and q: "only_requests s0 s" and st: "ok (bc_status bc)" using g by (simp_all add: gathered_def)
  let ?s1 = "set_batch b (bc\<lparr>bc_commit := 1\<rparr>) s"
  have g1: "gathered hist bat s0 ?s1 l b (bc\<lparr>bc_commit := 1\<rparr>) who ns 0" by (rule gathered_bc [OF g]) simp
  obtain s2 bc2 where 2: "commit_servers (batch_server bat [] True) [0..<srvs s0] ?s1 = Some (Okay, s2)"
    "gathered hist bat s0 s2 l b bc2 who ns (srvs s0)" "bc_dir bc2 = bc_dir bc" "bc_mode bc2 = bc_mode bc"
    using commit_all [OF g1] by auto
  have "srvs ?s1 = srvs s0" using only_requestsD(2) [OF q] by (simp add: set_batch_def)
  moreover have "lease_batch bat s2 = Some (l, b, bc2)" using 2(2) lease_batch_ready by (auto simp: gathered_def)
  ultimately have "BatchCommit bat s = Some (Okay, set_batch b (bc2\<lparr>bc_commit := 2, bc_status := bc_status bc2\<rparr>) s2)"
    using lease_batch_ready [OF r] opn st 2(1) by (simp add: BatchCommit_def keep_error_Okay)
  moreover have "gathered hist bat s0 (set_batch b (bc2\<lparr>bc_commit := 2, bc_status := bc_status bc2\<rparr>) s2) l b
      (bc2\<lparr>bc_commit := 2, bc_status := bc_status bc2\<rparr>) who ns (srvs s0)"
    by (rule gathered_bc [OF 2(2)]) simp
  ultimately show ?thesis using 2(3,4) by (intro exI conjI) (assumption | simp)+
qed

section \<open>The properties\<close>

text \<open>A batch as \<^verbatim>\<open>BatchInit\<close> leaves it: its buffers are empty and its directory has the index that \<^verbatim>\<open>FetchDir\<close> makes.\<close>

definition new_batch :: "nat \<Rightarrow> ('w, 'b) FilesystemCli \<Rightarrow> Lease \<Rightarrow> BatchedCreates \<Rightarrow> User \<Rightarrow> bool" where
  "new_batch bat s l bc who \<longleftrightarrow>
     (\<exists>b. lease_batch bat s = Some (l, b, bc)) \<and> (\<exists>ctx. ctx_mem s (bc_ctx bc) = Some ctx \<and> ctx_who ctx = who) \<and>
     wribufs bc = replicate (srvs s) \<lparr>wb_namearr = [], wb_n = 0\<rparr> \<and> bc_commit bc = 0 \<and> bc_status bc = Okay \<and>
     (\<exists>d giga giga'. dir_mem s (bc_dir bc) = Some d \<and> d_giga d = Some giga' \<and>
        new_DirIndex (ucast (PickupServer (d_id d))) \<lparr>num_servers = srvs s, num_virtual_servers = srvs s, paranoid_checks = False\<rparr> = Some giga \<and>
        SetAll giga = Some giga')"

lemma new_batch_places:
  assumes "new_batch bat s l bc who" and "srvs s = 2 ^ k" "k \<le> 13"
  shows "places s (bc_dir bc)"
  unfolding places_def
proof
  fix nm
  obtain d giga giga' where d: "dir_mem s (bc_dir bc) = Some d" "d_giga d = Some giga'"
    "new_DirIndex (ucast (PickupServer (d_id d))) \<lparr>num_servers = srvs s, num_virtual_servers = srvs s, paranoid_checks = False\<rparr> = Some giga"
    "SetAll giga = Some giga'" using assms(1) unfolding new_batch_def by blast
  have "\<exists>i. SelectServer giga' nm = Some (i mod srvs s)"
    using SetAll_new_index [OF assms(3), of "\<lparr>num_servers = srvs s, num_virtual_servers = srvs s, paranoid_checks = False\<rparr>"
      "ucast (PickupServer (d_id d))"] assms(2) d(3,4) by auto
  moreover have "srvs s \<noteq> 0" using assms(2) by simp
  ultimately show "\<exists>i < srvs s. select_server (bc_dir bc) nm s = Some i"
    using d(1,2) by (auto simp: select_server_def)
qed

lemma new_batch_gathered:
  assumes n: "new_batch bat s l bc who" and p: "IsDirWriteOk_cli (cli_options s) (le_rep l) who" and v: "mkfls_served hist (bc_ctx bc) s"
    and sz: "batch_size (cli_options s) < 2 ^ 32"
  shows "\<exists>b. gathered hist bat s s l b bc who [] 0"
proof -
  obtain b where b: "lease_batch bat s = Some (l, b, bc)" using n by (auto simp: new_batch_def)
  then have "lease_mem s bat = Some l" "le_batch l = Some b" "batch_mem s b = Some bc" by (auto simp: lease_batch_def split: bind_split_asm)
  then have "batch_ready hist bat s l b bc who" using n p v sz by (auto simp: batch_ready_def new_batch_def)
  then show ?thesis using n buf_state_new by (auto simp: gathered_def only_requests_refl new_batch_def placed_def)
qed


text \<open>A client with one open batch over a local file system that makes every file.\<close>

definition no_tables :: "('w, unit) BukDbIf" where
  "no_tables = \<lparr>bk_DestroyDb = (\<lambda>_ _ w. w), bk_new = (\<lambda>_ _. ()), bk_Open = (\<lambda>_ _ _. None), bk_Put = (\<lambda>_ _ _ _ _. None),
     bk_Flush = (\<lambda>_ _. None), bk_delete = (\<lambda>_ w. w)\<rparr>"

definition making_fs :: "(nat \<Rightarrow> MkflsOptions list) FilesystemIf" where
  "making_fs = \<lparr>if_Bukin = (\<lambda>_ _ _ _. None),
     if_Mkfls = (\<lambda>who p names mode n w. Some (Okay, n, w(0 := w 0 @ [mkfls_opts p names who mode n]))),
     if_Mkfle = (\<lambda>_ _ _ _ _. None), if_Mkdir = (\<lambda>_ _ _ _ _. None), if_Lokup = (\<lambda>_ _ _ _. None), if_Lstat = (\<lambda>_ _ _ _. None)\<rparr>"

definition batch_user :: User where
  "batch_user = \<lparr>uid = 0, gid = 0\<rparr>"

definition sample_lease :: "slice \<Rightarrow> LokupMode \<Rightarrow> nat option \<Rightarrow> Lease" where
  "sample_lease nm mode bc = \<lparr>le_rep = lookup_of root_stat, le_key = nm, le_hash = Hash nm 0, le_mode = mode, le_part = 0, le_handle = None,
     le_out = False, le_batch = bc, le_bk = None\<rparr>"

definition sample_batch :: BatchedCreates where
  "sample_batch = \<lparr>bc_ctx = 0, wribufs = [\<lparr>wb_namearr = [], wb_n = 0\<rparr>], bc_mode = 0x1B0, bc_refs = 1, bc_commit = 0, bc_status = Okay, bc_dir = 0\<rparr>"

definition sample_cli :: "CliDir \<Rightarrow> ((nat \<Rightarrow> MkflsOptions list), unit) FilesystemCli" where
  "sample_cli d = (new_FilesystemCli no_tables (default_FilesystemCliOptions\<lparr>batch_size := 2\<rparr>)
       [0 \<mapsto> new_FilesystemCliCtx 1 batch_user] (\<lambda>_. []) (\<lambda>_. 0))
     \<lparr>cli_fs := Some making_fs, dir_mem := [0 \<mapsto> d], lease_mem := [0 \<mapsto> sample_lease [1] kBatchedCreats (Some 0)], batch_mem := [0 \<mapsto> sample_batch]\<rparr>"

lemma sample_cli_batch:
  "\<exists>d. new_batch 0 (sample_cli d) (sample_lease [1] kBatchedCreats (Some 0)) sample_batch batch_user \<and>
    (\<forall>nm. select_server 0 nm (sample_cli d) = Some 0)"
proof -
  define i :: DirId where "i = \<lparr>dno = 0, ino = 1\<rparr>"
  let ?o = "\<lparr>num_servers = 1, num_virtual_servers = 1, paranoid_checks = False\<rparr>"
  obtain g g' where g: "new_DirIndex (ucast (PickupServer i)) ?o = Some g" "SetAll g = Some g'"
    "\<forall>nm. SelectServer g' nm = Some ((ComputeIndexFromHash (DirIndex_Hash nm) 0 + unat (ucast (PickupServer i) :: 16 word)) mod 1)"
    using SetAll_new_index [of 0 ?o "ucast (PickupServer i)"] by auto
  let ?d = "\<lparr>d_id = i, d_key = DirKey i, d_hash = HashKey (DirKey i), d_refs = 1, d_giga = Some g', d_fetched = True\<rparr>"
  have "new_batch 0 (sample_cli ?d) (sample_lease [1] kBatchedCreats (Some 0)) sample_batch batch_user"
    using g(1,2) by (simp add: new_batch_def sample_cli_def sample_lease_def sample_batch_def lease_batch_def new_FilesystemCli_def
      new_FilesystemCliCtx_def default_FilesystemCliOptions_def)
  moreover have "\<forall>nm. select_server 0 nm (sample_cli ?d) = Some 0" using g(3) by (simp add: select_server_def sample_cli_def)
  ultimately show ?thesis by blast
qed


text \<open>
  C14. The last handle of a bulk insertion cannot be closed once its lease has expired: \<^verbatim>\<open>Destroy\<close> leaves the lease its
  pointer to the bulk context, and the deleter of the lease asserts that there is none. For a lease that is out of the table
  and the cache, with one reference to its context and its handle left, the call always fails the assertion.
\<close>

theorem expired_bulk_handle:
  assumes "lease_bulk hdl s = Some (l, b, bk)" and "in_refs bk = 1" and "le_out l" and "le_handle l = Some h"
    and "part_mem s (le_part l) = Some p" and "entries (cached_leases p) h = Some e" and "l_value e = hdl" "l_refs e = 1" "\<not> l_in_cache e"
  shows "DestroyBulk hdl s = None"
proof -
  let ?s = "set_bulk b (bk\<lparr>in_refs := 0\<rparr>) s"
  have l: "lease_mem s hdl = Some l" "le_bk l = Some b" using assms(1) by (auto simp: lease_bulk_def split: bind_split_asm)
  have "release_lease_handle hdl ?s = None"
    using l assms(4-9)
    by (simp add: release_lease_handle_def lease_cache_op_def lru_Release_def Unref_def LRU_Remove_def Let_def put_cache_def DeleteLease_def
      set_bulk_def set_part_def)
  then show ?thesis using assms(1-4) by (simp add: DestroyBulk_def)
qed

text \<open>A client whose partition keeps no idle leases, and a bulk insertion without references.\<close>

definition bulk_cli :: "(unit, unit) FilesystemCli" where
  "bulk_cli = (new_FilesystemCli no_tables default_FilesystemCliOptions [0 \<mapsto> new_FilesystemCliCtx 1 batch_user] () (\<lambda>_. 0))
     \<lparr>next_addr := 8, part_mem := [0 \<mapsto> new_Partition (default_FilesystemCliOptions\<lparr>per_partition_lease_lru_size := 0\<rparr>) 1 0 [] 0],
      bulk_mem := [5 \<mapsto> \<lparr>in_ctx = 0, bulks = [], in_refs = 0, in_commit = 0, in_status = Okay, in_dir = 1\<rparr>]\<rparr>"

lemma sample_table:
  "HashTable_Insert new_HashTable \<lparr>e_hash = 7, e_key = [1], e_ptr = (8 :: nat)\<rparr> =
     (\<lparr>ht_list = [[], [], [], [\<lparr>e_hash = 7, e_key = [1], e_ptr = 8\<rparr>]], ht_elems = 1\<rparr>, None)"
  "Remove_ent \<lparr>ht_list = [[], [], [], [\<lparr>e_hash = 7, e_key = [1], e_ptr = (8 :: nat)\<rparr>]], ht_elems = 1\<rparr>
     \<lparr>e_hash = 7, e_key = [1], e_ptr = 8\<rparr> = (\<lparr>ht_list = [[], [], [], []], ht_elems = 0\<rparr>, Some \<lparr>e_hash = 7, e_key = [1], e_ptr = 8\<rparr>)"
  "Remove_ent new_HashTable \<lparr>e_hash = 7, e_key = [1], e_ptr = (0 :: nat)\<rparr> = (new_HashTable, None)"
  by code_simp+

text \<open>The lease that the server does not let the client keep is out of the table and the cache from the start.\<close>

lemma bulk_cli_lease:
  "\<exists>s1 l p e. insert_lease 0 [1] 7 kBulkIn (lookup_of root_stat\<lparr>LeaseDue := 0\<rparr>) None (Some 5) bulk_cli = Some (8, s1) \<and>
    lease_mem s1 8 = Some l \<and> le_out l \<and> le_bk l = Some 5 \<and> le_handle l = Some 0 \<and> part_mem s1 (le_part l) = Some p \<and>
    entries (cached_leases p) 0 = Some e \<and> l_value e = 8 \<and> l_refs e = 1 \<and> \<not> l_in_cache e \<and> bulk_mem s1 = bulk_mem bulk_cli"
  by (simp add: insert_lease_def bulk_cli_def new_FilesystemCli_def new_Partition_def new_LRUCache_def lru_Insert_def Let_def lease_ent_def sample_table
     set_part_def set_lease_def put_cache_def unlist_lease_def lease_cache_op_def lru_Erase_entry_def)

lemma expired_bulk_handle_witness:
  "\<exists>s1 l s2. insert_lease 0 [1] 7 kBulkIn (lookup_of root_stat\<lparr>LeaseDue := 0\<rparr>) None (Some 5) bulk_cli = Some (8, s1) \<and>
    lease_mem s1 8 = Some l \<and> ref_context kBulkIn l s1 = Some s2 \<and> DestroyBulk 8 s2 = None"
proof -
  obtain s1 l p e where s1: "insert_lease 0 [1] 7 kBulkIn (lookup_of root_stat\<lparr>LeaseDue := 0\<rparr>) None (Some 5) bulk_cli = Some (8, s1)"
    and l: "lease_mem s1 8 = Some l" "le_out l" "le_bk l = Some 5" "le_handle l = Some 0" "part_mem s1 (le_part l) = Some p"
    "entries (cached_leases p) 0 = Some e" "l_value e = 8" "l_refs e = 1" "\<not> l_in_cache e" "bulk_mem s1 = bulk_mem bulk_cli"
    using bulk_cli_lease by blast
  obtain bk where bk: "bulk_mem bulk_cli 5 = Some bk" "in_refs bk = 0" by (simp add: bulk_cli_def)
  let ?s2 = "s1\<lparr>bulk_mem := (bulk_mem s1)(5 \<mapsto> bk\<lparr>in_refs := 1\<rparr>)\<rparr>"
  have s2: "ref_context kBulkIn l s1 = Some ?s2" using l bk by (simp add: ref_context_def)
  have "lease_bulk 8 ?s2 = Some (l, 5, bk\<lparr>in_refs := 1\<rparr>)" using l by (simp add: lease_bulk_def)
  then have "DestroyBulk 8 ?s2 = None" using expired_bulk_handle [of 8 ?s2 l 5 "bk\<lparr>in_refs := 1\<rparr>" 0 p e] l by simp
  then show ?thesis using s1 l(1) s2 by blast
qed

end
