(* ===== verification/Crc32c.thy ===== *)
theory Crc32c
  imports Coding
begin

text \<open>
  \<^verbatim>\<open>crc32c.h\<close> and \<^verbatim>\<open>crc32c/\<close>: the checksum of log records and table blocks. The portable implementation takes four bytes at a
  time with four tables; the other one uses the CRC instructions of SSE 4.2 in three lanes and joins the lanes with tables
  that shift a checksum over zero bytes. The two instructions are arguments; \<open>sse42\<close> is their documented behaviour.
  A buffer is the list of its bytes and its address, which decides how many bytes come before the first aligned word.
\<close>

section \<open>Tables\<close>

definition table0 :: "u32 list" where
  "table0 = [
    0x0, 0xf26b8303, 0xe13b70f7, 0x1350f3f4, 0xc79a971f, 0x35f1141c, 0x26a1e7e8, 0xd4ca64eb,
    0x8ad958cf, 0x78b2dbcc, 0x6be22838, 0x9989ab3b, 0x4d43cfd0, 0xbf284cd3, 0xac78bf27, 0x5e133c24,
    0x105ec76f, 0xe235446c, 0xf165b798, 0x30e349b, 0xd7c45070, 0x25afd373, 0x36ff2087, 0xc494a384,
    0x9a879fa0, 0x68ec1ca3, 0x7bbcef57, 0x89d76c54, 0x5d1d08bf, 0xaf768bbc, 0xbc267848, 0x4e4dfb4b,
    0x20bd8ede, 0xd2d60ddd, 0xc186fe29, 0x33ed7d2a, 0xe72719c1, 0x154c9ac2, 0x61c6936, 0xf477ea35,
    0xaa64d611, 0x580f5512, 0x4b5fa6e6, 0xb93425e5, 0x6dfe410e, 0x9f95c20d, 0x8cc531f9, 0x7eaeb2fa,
    0x30e349b1, 0xc288cab2, 0xd1d83946, 0x23b3ba45, 0xf779deae, 0x5125dad, 0x1642ae59, 0xe4292d5a,
    0xba3a117e, 0x4851927d, 0x5b016189, 0xa96ae28a, 0x7da08661, 0x8fcb0562, 0x9c9bf696, 0x6ef07595,
    0x417b1dbc, 0xb3109ebf, 0xa0406d4b, 0x522bee48, 0x86e18aa3, 0x748a09a0, 0x67dafa54, 0x95b17957,
    0xcba24573, 0x39c9c670, 0x2a993584, 0xd8f2b687, 0xc38d26c, 0xfe53516f, 0xed03a29b, 0x1f682198,
    0x5125dad3, 0xa34e59d0, 0xb01eaa24, 0x42752927, 0x96bf4dcc, 0x64d4cecf, 0x77843d3b, 0x85efbe38,
    0xdbfc821c, 0x2997011f, 0x3ac7f2eb, 0xc8ac71e8, 0x1c661503, 0xee0d9600, 0xfd5d65f4, 0xf36e6f7,
    0x61c69362, 0x93ad1061, 0x80fde395, 0x72966096, 0xa65c047d, 0x5437877e, 0x4767748a, 0xb50cf789,
    0xeb1fcbad, 0x197448ae, 0xa24bb5a, 0xf84f3859, 0x2c855cb2, 0xdeeedfb1, 0xcdbe2c45, 0x3fd5af46,
    0x7198540d, 0x83f3d70e, 0x90a324fa, 0x62c8a7f9, 0xb602c312, 0x44694011, 0x5739b3e5, 0xa55230e6,
    0xfb410cc2, 0x92a8fc1, 0x1a7a7c35, 0xe811ff36, 0x3cdb9bdd, 0xceb018de, 0xdde0eb2a, 0x2f8b6829,
    0x82f63b78, 0x709db87b, 0x63cd4b8f, 0x91a6c88c, 0x456cac67, 0xb7072f64, 0xa457dc90, 0x563c5f93,
    0x82f63b7, 0xfa44e0b4, 0xe9141340, 0x1b7f9043, 0xcfb5f4a8, 0x3dde77ab, 0x2e8e845f, 0xdce5075c,
    0x92a8fc17, 0x60c37f14, 0x73938ce0, 0x81f80fe3, 0x55326b08, 0xa759e80b, 0xb4091bff, 0x466298fc,
    0x1871a4d8, 0xea1a27db, 0xf94ad42f, 0xb21572c, 0xdfeb33c7, 0x2d80b0c4, 0x3ed04330, 0xccbbc033,
    0xa24bb5a6, 0x502036a5, 0x4370c551, 0xb11b4652, 0x65d122b9, 0x97baa1ba, 0x84ea524e, 0x7681d14d,
    0x2892ed69, 0xdaf96e6a, 0xc9a99d9e, 0x3bc21e9d, 0xef087a76, 0x1d63f975, 0xe330a81, 0xfc588982,
    0xb21572c9, 0x407ef1ca, 0x532e023e, 0xa145813d, 0x758fe5d6, 0x87e466d5, 0x94b49521, 0x66df1622,
    0x38cc2a06, 0xcaa7a905, 0xd9f75af1, 0x2b9cd9f2, 0xff56bd19, 0xd3d3e1a, 0x1e6dcdee, 0xec064eed,
    0xc38d26c4, 0x31e6a5c7, 0x22b65633, 0xd0ddd530, 0x417b1db, 0xf67c32d8, 0xe52cc12c, 0x1747422f,
    0x49547e0b, 0xbb3ffd08, 0xa86f0efc, 0x5a048dff, 0x8ecee914, 0x7ca56a17, 0x6ff599e3, 0x9d9e1ae0,
    0xd3d3e1ab, 0x21b862a8, 0x32e8915c, 0xc083125f, 0x144976b4, 0xe622f5b7, 0xf5720643, 0x7198540,
    0x590ab964, 0xab613a67, 0xb831c993, 0x4a5a4a90, 0x9e902e7b, 0x6cfbad78, 0x7fab5e8c, 0x8dc0dd8f,
    0xe330a81a, 0x115b2b19, 0x20bd8ed, 0xf0605bee, 0x24aa3f05, 0xd6c1bc06, 0xc5914ff2, 0x37faccf1,
    0x69e9f0d5, 0x9b8273d6, 0x88d28022, 0x7ab90321, 0xae7367ca, 0x5c18e4c9, 0x4f48173d, 0xbd23943e,
    0xf36e6f75, 0x105ec76, 0x12551f82, 0xe03e9c81, 0x34f4f86a, 0xc69f7b69, 0xd5cf889d, 0x27a40b9e,
    0x79b737ba, 0x8bdcb4b9, 0x988c474d, 0x6ae7c44e, 0xbe2da0a5, 0x4c4623a6, 0x5f16d052, 0xad7d5351]"

definition table1 :: "u32 list" where
  "table1 = [
    0x0, 0x13a29877, 0x274530ee, 0x34e7a899, 0x4e8a61dc, 0x5d28f9ab, 0x69cf5132, 0x7a6dc945,
    0x9d14c3b8, 0x8eb65bcf, 0xba51f356, 0xa9f36b21, 0xd39ea264, 0xc03c3a13, 0xf4db928a, 0xe7790afd,
    0x3fc5f181, 0x2c6769f6, 0x1880c16f, 0xb225918, 0x714f905d, 0x62ed082a, 0x560aa0b3, 0x45a838c4,
    0xa2d13239, 0xb173aa4e, 0x859402d7, 0x96369aa0, 0xec5b53e5, 0xfff9cb92, 0xcb1e630b, 0xd8bcfb7c,
    0x7f8be302, 0x6c297b75, 0x58ced3ec, 0x4b6c4b9b, 0x310182de, 0x22a31aa9, 0x1644b230, 0x5e62a47,
    0xe29f20ba, 0xf13db8cd, 0xc5da1054, 0xd6788823, 0xac154166, 0xbfb7d911, 0x8b507188, 0x98f2e9ff,
    0x404e1283, 0x53ec8af4, 0x670b226d, 0x74a9ba1a, 0xec4735f, 0x1d66eb28, 0x298143b1, 0x3a23dbc6,
    0xdd5ad13b, 0xcef8494c, 0xfa1fe1d5, 0xe9bd79a2, 0x93d0b0e7, 0x80722890, 0xb4958009, 0xa737187e,
    0xff17c604, 0xecb55e73, 0xd852f6ea, 0xcbf06e9d, 0xb19da7d8, 0xa23f3faf, 0x96d89736, 0x857a0f41,
    0x620305bc, 0x71a19dcb, 0x45463552, 0x56e4ad25, 0x2c896460, 0x3f2bfc17, 0xbcc548e, 0x186eccf9,
    0xc0d23785, 0xd370aff2, 0xe797076b, 0xf4359f1c, 0x8e585659, 0x9dface2e, 0xa91d66b7, 0xbabffec0,
    0x5dc6f43d, 0x4e646c4a, 0x7a83c4d3, 0x69215ca4, 0x134c95e1, 0xee0d96, 0x3409a50f, 0x27ab3d78,
    0x809c2506, 0x933ebd71, 0xa7d915e8, 0xb47b8d9f, 0xce1644da, 0xddb4dcad, 0xe9537434, 0xfaf1ec43,
    0x1d88e6be, 0xe2a7ec9, 0x3acdd650, 0x296f4e27, 0x53028762, 0x40a01f15, 0x7447b78c, 0x67e52ffb,
    0xbf59d487, 0xacfb4cf0, 0x981ce469, 0x8bbe7c1e, 0xf1d3b55b, 0xe2712d2c, 0xd69685b5, 0xc5341dc2,
    0x224d173f, 0x31ef8f48, 0x50827d1, 0x16aabfa6, 0x6cc776e3, 0x7f65ee94, 0x4b82460d, 0x5820de7a,
    0xfbc3faf9, 0xe861628e, 0xdc86ca17, 0xcf245260, 0xb5499b25, 0xa6eb0352, 0x920cabcb, 0x81ae33bc,
    0x66d73941, 0x7575a136, 0x419209af, 0x523091d8, 0x285d589d, 0x3bffc0ea, 0xf186873, 0x1cbaf004,
    0xc4060b78, 0xd7a4930f, 0xe3433b96, 0xf0e1a3e1, 0x8a8c6aa4, 0x992ef2d3, 0xadc95a4a, 0xbe6bc23d,
    0x5912c8c0, 0x4ab050b7, 0x7e57f82e, 0x6df56059, 0x1798a91c, 0x43a316b, 0x30dd99f2, 0x237f0185,
    0x844819fb, 0x97ea818c, 0xa30d2915, 0xb0afb162, 0xcac27827, 0xd960e050, 0xed8748c9, 0xfe25d0be,
    0x195cda43, 0xafe4234, 0x3e19eaad, 0x2dbb72da, 0x57d6bb9f, 0x447423e8, 0x70938b71, 0x63311306,
    0xbb8de87a, 0xa82f700d, 0x9cc8d894, 0x8f6a40e3, 0xf50789a6, 0xe6a511d1, 0xd242b948, 0xc1e0213f,
    0x26992bc2, 0x353bb3b5, 0x1dc1b2c, 0x127e835b, 0x68134a1e, 0x7bb1d269, 0x4f567af0, 0x5cf4e287,
    0x4d43cfd, 0x1776a48a, 0x23910c13, 0x30339464, 0x4a5e5d21, 0x59fcc556, 0x6d1b6dcf, 0x7eb9f5b8,
    0x99c0ff45, 0x8a626732, 0xbe85cfab, 0xad2757dc, 0xd74a9e99, 0xc4e806ee, 0xf00fae77, 0xe3ad3600,
    0x3b11cd7c, 0x28b3550b, 0x1c54fd92, 0xff665e5, 0x759baca0, 0x663934d7, 0x52de9c4e, 0x417c0439,
    0xa6050ec4, 0xb5a796b3, 0x81403e2a, 0x92e2a65d, 0xe88f6f18, 0xfb2df76f, 0xcfca5ff6, 0xdc68c781,
    0x7b5fdfff, 0x68fd4788, 0x5c1aef11, 0x4fb87766, 0x35d5be23, 0x26772654, 0x12908ecd, 0x13216ba,
    0xe64b1c47, 0xf5e98430, 0xc10e2ca9, 0xd2acb4de, 0xa8c17d9b, 0xbb63e5ec, 0x8f844d75, 0x9c26d502,
    0x449a2e7e, 0x5738b609, 0x63df1e90, 0x707d86e7, 0xa104fa2, 0x19b2d7d5, 0x2d557f4c, 0x3ef7e73b,
    0xd98eedc6, 0xca2c75b1, 0xfecbdd28, 0xed69455f, 0x97048c1a, 0x84a6146d, 0xb041bcf4, 0xa3e32483]"

definition table2 :: "u32 list" where
  "table2 = [
    0x0, 0xa541927e, 0x4f6f520d, 0xea2ec073, 0x9edea41a, 0x3b9f3664, 0xd1b1f617, 0x74f06469,
    0x38513ec5, 0x9d10acbb, 0x773e6cc8, 0xd27ffeb6, 0xa68f9adf, 0x3ce08a1, 0xe9e0c8d2, 0x4ca15aac,
    0x70a27d8a, 0xd5e3eff4, 0x3fcd2f87, 0x9a8cbdf9, 0xee7cd990, 0x4b3d4bee, 0xa1138b9d, 0x45219e3,
    0x48f3434f, 0xedb2d131, 0x79c1142, 0xa2dd833c, 0xd62de755, 0x736c752b, 0x9942b558, 0x3c032726,
    0xe144fb14, 0x4405696a, 0xae2ba919, 0xb6a3b67, 0x7f9a5f0e, 0xdadbcd70, 0x30f50d03, 0x95b49f7d,
    0xd915c5d1, 0x7c5457af, 0x967a97dc, 0x333b05a2, 0x47cb61cb, 0xe28af3b5, 0x8a433c6, 0xade5a1b8,
    0x91e6869e, 0x34a714e0, 0xde89d493, 0x7bc846ed, 0xf382284, 0xaa79b0fa, 0x40577089, 0xe516e2f7,
    0xa9b7b85b, 0xcf62a25, 0xe6d8ea56, 0x43997828, 0x37691c41, 0x92288e3f, 0x78064e4c, 0xdd47dc32,
    0xc76580d9, 0x622412a7, 0x880ad2d4, 0x2d4b40aa, 0x59bb24c3, 0xfcfab6bd, 0x16d476ce, 0xb395e4b0,
    0xff34be1c, 0x5a752c62, 0xb05bec11, 0x151a7e6f, 0x61ea1a06, 0xc4ab8878, 0x2e85480b, 0x8bc4da75,
    0xb7c7fd53, 0x12866f2d, 0xf8a8af5e, 0x5de93d20, 0x29195949, 0x8c58cb37, 0x66760b44, 0xc337993a,
    0x8f96c396, 0x2ad751e8, 0xc0f9919b, 0x65b803e5, 0x1148678c, 0xb409f5f2, 0x5e273581, 0xfb66a7ff,
    0x26217bcd, 0x8360e9b3, 0x694e29c0, 0xcc0fbbbe, 0xb8ffdfd7, 0x1dbe4da9, 0xf7908dda, 0x52d11fa4,
    0x1e704508, 0xbb31d776, 0x511f1705, 0xf45e857b, 0x80aee112, 0x25ef736c, 0xcfc1b31f, 0x6a802161,
    0x56830647, 0xf3c29439, 0x19ec544a, 0xbcadc634, 0xc85da25d, 0x6d1c3023, 0x8732f050, 0x2273622e,
    0x6ed23882, 0xcb93aafc, 0x21bd6a8f, 0x84fcf8f1, 0xf00c9c98, 0x554d0ee6, 0xbf63ce95, 0x1a225ceb,
    0x8b277743, 0x2e66e53d, 0xc448254e, 0x6109b730, 0x15f9d359, 0xb0b84127, 0x5a968154, 0xffd7132a,
    0xb3764986, 0x1637dbf8, 0xfc191b8b, 0x595889f5, 0x2da8ed9c, 0x88e97fe2, 0x62c7bf91, 0xc7862def,
    0xfb850ac9, 0x5ec498b7, 0xb4ea58c4, 0x11abcaba, 0x655baed3, 0xc01a3cad, 0x2a34fcde, 0x8f756ea0,
    0xc3d4340c, 0x6695a672, 0x8cbb6601, 0x29faf47f, 0x5d0a9016, 0xf84b0268, 0x1265c21b, 0xb7245065,
    0x6a638c57, 0xcf221e29, 0x250cde5a, 0x804d4c24, 0xf4bd284d, 0x51fcba33, 0xbbd27a40, 0x1e93e83e,
    0x5232b292, 0xf77320ec, 0x1d5de09f, 0xb81c72e1, 0xccec1688, 0x69ad84f6, 0x83834485, 0x26c2d6fb,
    0x1ac1f1dd, 0xbf8063a3, 0x55aea3d0, 0xf0ef31ae, 0x841f55c7, 0x215ec7b9, 0xcb7007ca, 0x6e3195b4,
    0x2290cf18, 0x87d15d66, 0x6dff9d15, 0xc8be0f6b, 0xbc4e6b02, 0x190ff97c, 0xf321390f, 0x5660ab71,
    0x4c42f79a, 0xe90365e4, 0x32da597, 0xa66c37e9, 0xd29c5380, 0x77ddc1fe, 0x9df3018d, 0x38b293f3,
    0x7413c95f, 0xd1525b21, 0x3b7c9b52, 0x9e3d092c, 0xeacd6d45, 0x4f8cff3b, 0xa5a23f48, 0xe3ad36,
    0x3ce08a10, 0x99a1186e, 0x738fd81d, 0xd6ce4a63, 0xa23e2e0a, 0x77fbc74, 0xed517c07, 0x4810ee79,
    0x4b1b4d5, 0xa1f026ab, 0x4bdee6d8, 0xee9f74a6, 0x9a6f10cf, 0x3f2e82b1, 0xd50042c2, 0x7041d0bc,
    0xad060c8e, 0x8479ef0, 0xe2695e83, 0x4728ccfd, 0x33d8a894, 0x96993aea, 0x7cb7fa99, 0xd9f668e7,
    0x9557324b, 0x3016a035, 0xda386046, 0x7f79f238, 0xb899651, 0xaec8042f, 0x44e6c45c, 0xe1a75622,
    0xdda47104, 0x78e5e37a, 0x92cb2309, 0x378ab177, 0x437ad51e, 0xe63b4760, 0xc158713, 0xa954156d,
    0xe5f54fc1, 0x40b4ddbf, 0xaa9a1dcc, 0xfdb8fb2, 0x7b2bebdb, 0xde6a79a5, 0x3444b9d6, 0x91052ba8]"

definition table3 :: "u32 list" where
  "table3 = [
    0x0, 0xdd45aab8, 0xbf672381, 0x62228939, 0x7b2231f3, 0xa6679b4b, 0xc4451272, 0x1900b8ca,
    0xf64463e6, 0x2b01c95e, 0x49234067, 0x9466eadf, 0x8d665215, 0x5023f8ad, 0x32017194, 0xef44db2c,
    0xe964b13d, 0x34211b85, 0x560392bc, 0x8b463804, 0x924680ce, 0x4f032a76, 0x2d21a34f, 0xf06409f7,
    0x1f20d2db, 0xc2657863, 0xa047f15a, 0x7d025be2, 0x6402e328, 0xb9474990, 0xdb65c0a9, 0x6206a11,
    0xd725148b, 0xa60be33, 0x6842370a, 0xb5079db2, 0xac072578, 0x71428fc0, 0x136006f9, 0xce25ac41,
    0x2161776d, 0xfc24ddd5, 0x9e0654ec, 0x4343fe54, 0x5a43469e, 0x8706ec26, 0xe524651f, 0x3861cfa7,
    0x3e41a5b6, 0xe3040f0e, 0x81268637, 0x5c632c8f, 0x45639445, 0x98263efd, 0xfa04b7c4, 0x27411d7c,
    0xc805c650, 0x15406ce8, 0x7762e5d1, 0xaa274f69, 0xb327f7a3, 0x6e625d1b, 0xc40d422, 0xd1057e9a,
    0xaba65fe7, 0x76e3f55f, 0x14c17c66, 0xc984d6de, 0xd0846e14, 0xdc1c4ac, 0x6fe34d95, 0xb2a6e72d,
    0x5de23c01, 0x80a796b9, 0xe2851f80, 0x3fc0b538, 0x26c00df2, 0xfb85a74a, 0x99a72e73, 0x44e284cb,
    0x42c2eeda, 0x9f874462, 0xfda5cd5b, 0x20e067e3, 0x39e0df29, 0xe4a57591, 0x8687fca8, 0x5bc25610,
    0xb4868d3c, 0x69c32784, 0xbe1aebd, 0xd6a40405, 0xcfa4bccf, 0x12e11677, 0x70c39f4e, 0xad8635f6,
    0x7c834b6c, 0xa1c6e1d4, 0xc3e468ed, 0x1ea1c255, 0x7a17a9f, 0xdae4d027, 0xb8c6591e, 0x6583f3a6,
    0x8ac7288a, 0x57828232, 0x35a00b0b, 0xe8e5a1b3, 0xf1e51979, 0x2ca0b3c1, 0x4e823af8, 0x93c79040,
    0x95e7fa51, 0x48a250e9, 0x2a80d9d0, 0xf7c57368, 0xeec5cba2, 0x3380611a, 0x51a2e823, 0x8ce7429b,
    0x63a399b7, 0xbee6330f, 0xdcc4ba36, 0x181108e, 0x1881a844, 0xc5c402fc, 0xa7e68bc5, 0x7aa3217d,
    0x52a0c93f, 0x8fe56387, 0xedc7eabe, 0x30824006, 0x2982f8cc, 0xf4c75274, 0x96e5db4d, 0x4ba071f5,
    0xa4e4aad9, 0x79a10061, 0x1b838958, 0xc6c623e0, 0xdfc69b2a, 0x2833192, 0x60a1b8ab, 0xbde41213,
    0xbbc47802, 0x6681d2ba, 0x4a35b83, 0xd9e6f13b, 0xc0e649f1, 0x1da3e349, 0x7f816a70, 0xa2c4c0c8,
    0x4d801be4, 0x90c5b15c, 0xf2e73865, 0x2fa292dd, 0x36a22a17, 0xebe780af, 0x89c50996, 0x5480a32e,
    0x8585ddb4, 0x58c0770c, 0x3ae2fe35, 0xe7a7548d, 0xfea7ec47, 0x23e246ff, 0x41c0cfc6, 0x9c85657e,
    0x73c1be52, 0xae8414ea, 0xcca69dd3, 0x11e3376b, 0x8e38fa1, 0xd5a62519, 0xb784ac20, 0x6ac10698,
    0x6ce16c89, 0xb1a4c631, 0xd3864f08, 0xec3e5b0, 0x17c35d7a, 0xca86f7c2, 0xa8a47efb, 0x75e1d443,
    0x9aa50f6f, 0x47e0a5d7, 0x25c22cee, 0xf8878656, 0xe1873e9c, 0x3cc29424, 0x5ee01d1d, 0x83a5b7a5,
    0xf90696d8, 0x24433c60, 0x4661b559, 0x9b241fe1, 0x8224a72b, 0x5f610d93, 0x3d4384aa, 0xe0062e12,
    0xf42f53e, 0xd2075f86, 0xb025d6bf, 0x6d607c07, 0x7460c4cd, 0xa9256e75, 0xcb07e74c, 0x16424df4,
    0x106227e5, 0xcd278d5d, 0xaf050464, 0x7240aedc, 0x6b401616, 0xb605bcae, 0xd4273597, 0x9629f2f,
    0xe6264403, 0x3b63eebb, 0x59416782, 0x8404cd3a, 0x9d0475f0, 0x4041df48, 0x22635671, 0xff26fcc9,
    0x2e238253, 0xf36628eb, 0x9144a1d2, 0x4c010b6a, 0x5501b3a0, 0x88441918, 0xea669021, 0x37233a99,
    0xd867e1b5, 0x5224b0d, 0x6700c234, 0xba45688c, 0xa345d046, 0x7e007afe, 0x1c22f3c7, 0xc167597f,
    0xc747336e, 0x1a0299d6, 0x782010ef, 0xa565ba57, 0xbc65029d, 0x6120a825, 0x302211c, 0xde478ba4,
    0x31035088, 0xec46fa30, 0x8e647309, 0x5321d9b1, 0x4a21617b, 0x9764cbc3, 0xf54642fa, 0x2803e842]"

section \<open>The portable implementation\<close>

definition LE_LOAD32 :: "slice \<Rightarrow> u32" where
  "LE_LOAD32 p = DecodeFixed32 p"

definition STEP1 :: "u32 \<Rightarrow> byte \<Rightarrow> u32" where
  "STEP1 l b = (let c = unat ((l AND 0xff) XOR ucast b) in (table0 ! c) XOR drop_bit 8 l)"

definition STEP4 :: "u32 \<Rightarrow> slice \<Rightarrow> u32" where
  "STEP4 l p =
     (let c = l XOR LE_LOAD32 p
      in (table3 ! unat (c AND 0xff)) XOR (table2 ! unat (drop_bit 8 c AND 0xff)) XOR
         (table1 ! unat (drop_bit 16 c AND 0xff)) XOR (table0 ! unat (drop_bit 24 c)))"

function steps16 :: "u32 \<Rightarrow> slice \<Rightarrow> u32 \<times> slice" where
  "steps16 l p =
     (if 16 \<le> length p
      then (let l = STEP4 l p; l = STEP4 l (drop 4 p); l = STEP4 l (drop 8 p); l = STEP4 l (drop 12 p) in steps16 l (drop 16 p))
      else (l, p))"
  by pat_completeness auto
termination by (relation "measure (\<lambda>(l, p). length p)") auto

function steps4 :: "u32 \<Rightarrow> slice \<Rightarrow> u32 \<times> slice" where
  "steps4 l p = (if 4 \<le> length p then steps4 (STEP4 l p) (drop 4 p) else (l, p))"
  by pat_completeness auto
termination by (relation "measure (\<lambda>(l, p). length p)") auto

declare steps16.simps [simp del] steps4.simps [simp del]

text \<open>The bytes before the first word that is aligned are skipped to only when that word is not past the end.\<close>

definition ExtendSW :: "nat \<Rightarrow> u32 \<Rightarrow> slice \<Rightarrow> u32" where
  "ExtendSW pval crc buf =
     (let l = crc XOR 0xffffffff;
          x = (pval + 3) div 4 * 4 - pval;
          (l, p) = (if x \<le> length buf then (foldl STEP1 l (take x buf), drop x buf) else (l, buf));
          (l, p) = steps16 l p;
          (l, p) = steps4 l p;
          l = foldl STEP1 l p
      in l XOR 0xffffffff)"

section \<open>The implementation with CRC instructions\<close>

definition POLY :: u32 where "POLY = 0x82f63b78"

text \<open>A matrix is the list of its columns.\<close>

function times_loop :: "u32 \<Rightarrow> u32 list \<Rightarrow> u32 \<Rightarrow> u32" where
  "times_loop acc mat vec =
     (if vec = 0 then acc
      else times_loop (if vec AND 1 \<noteq> 0 then acc XOR hd mat else acc) (tl mat) (drop_bit 1 vec))"
  by pat_completeness auto
termination
proof (relation "measure (\<lambda>(acc, mat, vec). unat vec)", goal_cases)
  case (2 acc mat vec)
  then have "0 < unat vec" by (simp add: unat_gt_0)
  then show ?case by (simp add: unat_drop_bit_div del: drop_bit_eq_div)
qed simp

declare times_loop.simps [simp del]

definition gf2_matrix_times :: "u32 list \<Rightarrow> u32 \<Rightarrow> u32" where
  "gf2_matrix_times mat vec = times_loop 0 mat vec"

definition gf2_matrix_square :: "u32 list \<Rightarrow> u32 list" where
  "gf2_matrix_square mat = map (\<lambda>n. gf2_matrix_times mat (mat ! n)) [0..<32]"

function zeros_loop :: "u32 list \<Rightarrow> nat \<Rightarrow> u32 list" where
  "zeros_loop mo len =
     (let me = gf2_matrix_square mo; len = len div 2
      in if len = 0 then me
         else (let mo = gf2_matrix_square me; len = len div 2 in if len \<noteq> 0 then zeros_loop mo len else mo))"
  by pat_completeness auto
termination by (relation "measure snd") auto

declare zeros_loop.simps [simp del]

definition crc32c_zeros_op :: "nat \<Rightarrow> u32 list" where
  "crc32c_zeros_op len =
     (let mo = POLY # map (\<lambda>n. push_bit n 1) [0..<31];
          me = gf2_matrix_square mo;
          mo = gf2_matrix_square me
      in zeros_loop mo len)"

definition crc32c_zeros :: "nat \<Rightarrow> u32 list list" where
  "crc32c_zeros len =
     (let mat = crc32c_zeros_op len
      in map (\<lambda>k. map (\<lambda>n. gf2_matrix_times mat (push_bit (8 * k) (word_of_nat n))) [0..<256]) [0..<4])"

definition crc32c_shift :: "u32 list list \<Rightarrow> u32 \<Rightarrow> u32" where
  "crc32c_shift zeros crc =
     (zeros ! 0 ! unat (crc AND 0xff)) XOR (zeros ! 1 ! unat (drop_bit 8 crc AND 0xff)) XOR
     (zeros ! 2 ! unat (drop_bit 16 crc AND 0xff)) XOR (zeros ! 3 ! unat (drop_bit 24 crc))"

text \<open>
  One turn of the inner loop: three checksums advance by one word each, \<open>L\<close> bytes apart. The instructions keep the upper half
  of the 64-bit registers zero, so a register is 32 bits here.
\<close>

definition lanes :: "(u32 \<Rightarrow> u64 \<Rightarrow> u32) \<Rightarrow> nat \<Rightarrow> slice \<Rightarrow> u32 \<times> u32 \<times> u32 \<Rightarrow> nat \<Rightarrow> u32 \<times> u32 \<times> u32" where
  "lanes crc32q L p cs i =
     (case cs of (crc0, crc1, crc2) \<Rightarrow>
        (crc32q crc0 (DecodeFixed64 (drop (8 * i) p)), crc32q crc1 (DecodeFixed64 (drop (L + 8 * i) p)),
         crc32q crc2 (DecodeFixed64 (drop (2 * L + 8 * i) p))))"

function three_way :: "(u32 \<Rightarrow> u64 \<Rightarrow> u32) \<Rightarrow> nat \<Rightarrow> u32 list list \<Rightarrow> u32 \<Rightarrow> slice \<Rightarrow> u32 \<times> slice" where
  "three_way crc32q L zeros crc0 p =
     (if 0 < L \<and> L * 3 \<le> length p
      then (let (crc0, crc1, crc2) = foldl (lanes crc32q L p) (crc0, 0, 0) [0..<L div 8];
                crc0 = crc32c_shift zeros crc0 XOR crc1;
                crc0 = crc32c_shift zeros crc0 XOR crc2
            in three_way crc32q L zeros crc0 (drop (L * 3) p))
      else (crc0, p))"
  by pat_completeness auto
termination by (relation "measure (\<lambda>(q, L, zeros, crc0, p). length p)") auto

declare three_way.simps [simp del]

definition LONG :: nat where "LONG = 8192"
definition SHORT :: nat where "SHORT = 256"

function quads :: "(u32 \<Rightarrow> u64 \<Rightarrow> u32) \<Rightarrow> u32 \<Rightarrow> slice \<Rightarrow> u32 \<times> slice" where
  "quads crc32q crc0 p = (if 8 \<le> length p then quads crc32q (crc32q crc0 (DecodeFixed64 p)) (drop 8 p) else (crc0, p))"
  by pat_completeness auto
termination by (relation "measure (\<lambda>(q, crc0, p). length p)") auto

declare quads.simps [simp del]

definition crc32c_hw :: "(u32 \<Rightarrow> byte \<Rightarrow> u32) \<Rightarrow> (u32 \<Rightarrow> u64 \<Rightarrow> u32) \<Rightarrow> nat \<Rightarrow> u32 \<Rightarrow> slice \<Rightarrow> u32" where
  "crc32c_hw crc32b crc32q addr crc buf =
     (let crc0 = crc XOR 0xffffffff;
          lead = (8 - addr mod 8) mod 8;
          (crc0, p) = (foldl crc32b crc0 (take lead buf), drop lead buf);
          (crc0, p) = three_way crc32q LONG (crc32c_zeros LONG) crc0 p;
          (crc0, p) = three_way crc32q SHORT (crc32c_zeros SHORT) crc0 p;
          (crc0, p) = quads crc32q crc0 p;
          crc0 = foldl crc32b crc0 p
      in crc0 XOR 0xffffffff)"

definition ExtendHW :: "(u32 \<Rightarrow> byte \<Rightarrow> u32) \<Rightarrow> (u32 \<Rightarrow> u64 \<Rightarrow> u32) \<Rightarrow> nat \<Rightarrow> u32 \<Rightarrow> slice \<Rightarrow> u32" where
  "ExtendHW crc32b crc32q addr crc buf = crc32c_hw crc32b crc32q addr crc buf"

section \<open>The interface\<close>

text \<open>The machine: whether it has the instructions, and what they do.\<close>

record cpu =
  CanAccelerateCrc32c :: bool
  crc32b :: "u32 \<Rightarrow> byte \<Rightarrow> u32"
  crc32q :: "u32 \<Rightarrow> u64 \<Rightarrow> u32"

definition Extend :: "cpu \<Rightarrow> nat \<Rightarrow> u32 \<Rightarrow> slice \<Rightarrow> u32" where
  "Extend C addr crc buf =
     (if CanAccelerateCrc32c C then ExtendHW (crc32b C) (crc32q C) addr crc buf else ExtendSW addr crc buf)"

definition Crc_Value :: "cpu \<Rightarrow> nat \<Rightarrow> slice \<Rightarrow> u32" where
  "Crc_Value C addr data = Extend C addr 0 data"

definition kMaskDelta :: u32 where "kMaskDelta = 0xa282ead8"

definition Mask :: "u32 \<Rightarrow> u32" where
  "Mask crc = (drop_bit 15 crc OR push_bit 17 crc) + kMaskDelta"

definition Unmask :: "u32 \<Rightarrow> u32" where
  "Unmask masked_crc = (let rot = masked_crc - kMaskDelta in drop_bit 17 rot OR push_bit 15 rot)"

section \<open>The polynomial division bit by bit\<close>

definition crc_bit :: "u32 \<Rightarrow> u32" where
  "crc_bit l = (if bit l 0 then drop_bit 1 l XOR POLY else drop_bit 1 l)"

definition crc_bits :: "nat \<Rightarrow> u32 \<Rightarrow> u32" where
  "crc_bits k l = (crc_bit ^^ k) l"

definition crc_byte :: "u32 \<Rightarrow> byte \<Rightarrow> u32" where
  "crc_byte l b = crc_bits 8 (l XOR ucast b)"

definition crc_bytes :: "u32 \<Rightarrow> slice \<Rightarrow> u32" where
  "crc_bytes l p = foldl crc_byte l p"

definition crc32c :: "u32 \<Rightarrow> slice \<Rightarrow> u32" where
  "crc32c crc data = crc_bytes (crc XOR 0xffffffff) data XOR 0xffffffff"

text \<open>What the instructions of SSE 4.2 are documented to do.\<close>

definition sse42 :: "(u32 \<Rightarrow> byte \<Rightarrow> u32) \<Rightarrow> (u32 \<Rightarrow> u64 \<Rightarrow> u32) \<Rightarrow> bool" where
  "sse42 ib iq \<longleftrightarrow> (\<forall>l b. ib l b = crc_byte l b) \<and> (\<forall>l w. iq l w = crc_bytes l (EncodeFixed64 w))"

definition linear :: "(u32 \<Rightarrow> u32) \<Rightarrow> bool" where
  "linear f \<longleftrightarrow> (\<forall>a b. f (a XOR b) = f a XOR f b)"

lemma linearD: "linear f \<Longrightarrow> f (a XOR b) = f a XOR f b"
  by (simp add: linear_def)

lemma linear_0: "linear f \<Longrightarrow> f 0 = 0"
  using linearD [of f 0 0] by simp

lemma linear_comp: "linear f \<Longrightarrow> linear g \<Longrightarrow> linear (\<lambda>x. f (g x))"
  by (simp add: linear_def)

lemma xor_swap: "(a :: u32) XOR (b XOR c) = b XOR (a XOR c)"
  by (simp add: ac_simps)

lemma crc_bit_linear: "linear crc_bit"
  unfolding linear_def
proof (intro allI)
  fix a b :: u32
  have d: "drop_bit 1 (a XOR b) = drop_bit 1 a XOR drop_bit 1 b" by (rule bit_word_eqI) (auto simp: bit_simps)
  show "crc_bit (a XOR b) = crc_bit a XOR crc_bit b"
    unfolding crc_bit_def d by (cases "bit a 0"; cases "bit b 0") (simp_all add: bit_xor_iff ac_simps)
qed

lemma crc_bits_add: "crc_bits (m + n) l = crc_bits m (crc_bits n l)"
  by (simp add: crc_bits_def funpow_add)

lemma crc_bits_Suc: "crc_bits (Suc k) l = crc_bit (crc_bits k l)"
  by (simp add: crc_bits_def)

lemma crc_bits_0 [simp]: "crc_bits 0 l = l"
  by (simp add: crc_bits_def)

lemma crc_bits_linear: "linear (crc_bits k)"
proof (induction k)
  case (Suc k)
  show ?case using linear_comp [OF crc_bit_linear Suc] by (simp add: linear_def crc_bits_Suc)
qed (simp add: linear_def)

lemmas crc_bits_xor = crc_bits_linear [THEN linearD]

lemma crc_bits_zero [simp]: "crc_bits k 0 = 0"
  by (rule linear_0 [OF crc_bits_linear])

lemma crc_bits_shift: "(\<And>i. i < k \<Longrightarrow> \<not> bit x i) \<Longrightarrow> crc_bits k x = drop_bit k x"
proof (induction k)
  case (Suc k)
  then have "crc_bits k x = drop_bit k x" by simp
  then show ?case using Suc.prems [of k] by (simp add: crc_bits_Suc crc_bit_def bit_simps)
qed simp

lemma crc_bits_push: "n + k \<le> 32 \<Longrightarrow> (\<And>i. i \<ge> n \<Longrightarrow> \<not> bit x i) \<Longrightarrow> crc_bits k (push_bit k x) = x"
proof -
  assume n: "n + k \<le> 32" and x: "\<And>i. i \<ge> n \<Longrightarrow> \<not> bit x i"
  have "crc_bits k (push_bit k x) = drop_bit k (push_bit k x)" by (rule crc_bits_shift) (simp add: bit_simps)
  moreover have "drop_bit k (push_bit k x) = x"
  proof (rule bit_word_eqI)
    fix i
    show "bit (drop_bit k (push_bit k x)) i = bit x i" using n x [of i] by (cases "n \<le> i") (auto simp: bit_simps)
  qed
  ultimately show ?thesis by simp
qed

text \<open>The low bytes of a word leave first.\<close>

lemma crc_bits_low:
  assumes "k \<le> 32"
  shows "crc_bits k l = crc_bits k (take_bit k l) XOR drop_bit k l"
proof -
  have "l = take_bit k l XOR push_bit k (drop_bit k l)" by (rule bit_word_eqI) (auto simp: bit_simps)
  moreover have "crc_bits k (push_bit k (drop_bit k l)) = drop_bit k l"
    by (rule crc_bits_push [of "32 - k"]) (use assms in \<open>auto simp: bit_simps dest: bit_imp_le_length\<close>)
  ultimately show ?thesis by (metis crc_bits_xor)
qed

lemma crc_byte_xor: "crc_byte (a XOR b) c = crc_byte a c XOR crc_bits 8 b"
  unfolding crc_byte_def by (subst crc_bits_xor [symmetric]) (simp add: ac_simps)

lemma crc_bytes_simps [simp]: "crc_bytes l [] = l" "crc_bytes l (b # p) = crc_bytes (crc_byte l b) p"
  by (simp_all add: crc_bytes_def)

lemma crc_bytes_append: "crc_bytes l (p @ q) = crc_bytes (crc_bytes l p) q"
  by (simp add: crc_bytes_def)

lemma crc_bytes_xor: "crc_bytes (a XOR b) p = crc_bytes a p XOR crc_bits (8 * length p) b"
proof (induction p arbitrary: a b)
  case (Cons c p)
  have "crc_bits (8 * length p) (crc_bits 8 b) = crc_bits (8 * Suc (length p)) b"
    by (simp add: crc_bits_add [symmetric] add.commute)
  then show ?case by (simp add: crc_byte_xor Cons)
qed simp

section \<open>The tables\<close>

definition lin_table :: "u32 list \<Rightarrow> u32 list" where
  "lin_table es = foldl (\<lambda>t e. t @ map (\<lambda>x. e XOR x) t) [0] es"

lemma lin_table_append: "lin_table (es @ [e]) = lin_table es @ map (\<lambda>x. e XOR x) (lin_table es)"
  by (simp add: lin_table_def)

lemma xor_low:
  assumes "i < 2 ^ n"
  shows "push_bit n 1 XOR (word_of_nat i :: u32) = word_of_nat (2 ^ n + i)"
proof -
  have i: "\<not> bit i n" using assms by (metis bit_take_bit_iff less_irrefl take_bit_nat_eq_self)
  have "push_bit n 1 AND (word_of_nat i :: u32) = 0"
    by (rule bit_word_eqI) (use i in \<open>auto simp: bit_simps\<close>)
  then have "push_bit n 1 XOR (word_of_nat i :: u32) = push_bit n 1 + word_of_nat i"
    by (rule disjunctive_add_eq_xor [symmetric])
  then show ?thesis by (simp add: push_bit_eq_mult)
qed

lemma lin_table_map:
  assumes "linear f"
  shows "lin_table (map (\<lambda>k. f (push_bit k 1)) [0..<n]) = map (\<lambda>i. f (word_of_nat i)) [0..<2 ^ n]"
proof (induction n)
  case 0
  then show ?case using linear_0 [OF assms] by (simp add: lin_table_def)
next
  case (Suc n)
  have u: "[0..<2 ^ Suc n] = [0..<2 ^ n] @ map (\<lambda>i. 2 ^ n + i) [0..<2 ^ n]"
    using upt_add_eq_append [of 0 "2 ^ n" "2 ^ n :: nat"] by (simp add: map_add_upt mult_2 add.commute)
  have "map (\<lambda>x. f (push_bit n 1) XOR x) (map (\<lambda>i. f (word_of_nat i)) [0..<2 ^ n]) = map (\<lambda>i. f (word_of_nat (2 ^ n + i))) [0..<2 ^ n]"
    unfolding map_map comp_def by (intro map_cong refl) (simp only: linearD [OF assms, symmetric] xor_low set_upt atLeastLessThan_iff)
  then have "map (\<lambda>x. f (push_bit n 1) XOR x) (map (\<lambda>i. f (word_of_nat i)) [0..<2 ^ n]) = map (\<lambda>i. f (word_of_nat i)) (map (\<lambda>i. 2 ^ n + i) [0..<2 ^ n])"
    by (simp only: map_map comp_def)
  moreover have "map (\<lambda>k. f (push_bit k 1)) [0..<Suc n] = map (\<lambda>k. f (push_bit k 1)) [0..<n] @ [f (push_bit n 1)]" by simp
  ultimately show ?case by (simp only: lin_table_append Suc u map_append)
qed

text \<open>A table of a linear function is given by its values at the powers of two.\<close>

lemma table_nth:
  assumes "linear f" and "es = map (\<lambda>k. f (push_bit k 1)) [0..<8]" and "t = lin_table es" and "n < 256"
  shows "t ! n = f (word_of_nat n)"
  using assms lin_table_map [OF assms(1), of 8] by simp

lemma basis0: "[0xf26b8303, 0xe13b70f7, 0xc79a971f, 0x8ad958cf, 0x105ec76f, 0x20bd8ede, 0x417b1dbc, 0x82f63b78] = map (\<lambda>k. crc_bits 8 (push_bit k 1)) [0..<8]"
  by code_simp

lemma table0_nth: "n < 256 \<Longrightarrow> table0 ! n = crc_bits 8 (word_of_nat n)"
  by (rule table_nth [OF crc_bits_linear basis0]) code_simp

lemma basis1: "[0x13a29877, 0x274530ee, 0x4e8a61dc, 0x9d14c3b8, 0x3fc5f181, 0x7f8be302, 0xff17c604, 0xfbc3faf9] = map (\<lambda>k. crc_bits 16 (push_bit k 1)) [0..<8]"
proof -
  have "[0x13a29877, 0x274530ee, 0x4e8a61dc, 0x9d14c3b8, 0x3fc5f181, 0x7f8be302, 0xff17c604, 0xfbc3faf9] = map (crc_bits 8) [0xf26b8303, 0xe13b70f7, 0xc79a971f, 0x8ad958cf, 0x105ec76f, 0x20bd8ede, 0x417b1dbc, 0x82f63b78]"
    by code_simp
  then show ?thesis unfolding basis0 map_map comp_def crc_bits_add [symmetric] by simp
qed

lemma table1_nth: "n < 256 \<Longrightarrow> table1 ! n = crc_bits 16 (word_of_nat n)"
  by (rule table_nth [OF crc_bits_linear basis1]) code_simp

lemma basis2: "[0xa541927e, 0x4f6f520d, 0x9edea41a, 0x38513ec5, 0x70a27d8a, 0xe144fb14, 0xc76580d9, 0x8b277743] = map (\<lambda>k. crc_bits 24 (push_bit k 1)) [0..<8]"
proof -
  have "[0xa541927e, 0x4f6f520d, 0x9edea41a, 0x38513ec5, 0x70a27d8a, 0xe144fb14, 0xc76580d9, 0x8b277743] = map (crc_bits 8) [0x13a29877, 0x274530ee, 0x4e8a61dc, 0x9d14c3b8, 0x3fc5f181, 0x7f8be302, 0xff17c604, 0xfbc3faf9]"
    by code_simp
  then show ?thesis unfolding basis1 map_map comp_def crc_bits_add [symmetric] by simp
qed

lemma table2_nth: "n < 256 \<Longrightarrow> table2 ! n = crc_bits 24 (word_of_nat n)"
  by (rule table_nth [OF crc_bits_linear basis2]) code_simp

lemma basis3: "[0xdd45aab8, 0xbf672381, 0x7b2231f3, 0xf64463e6, 0xe964b13d, 0xd725148b, 0xaba65fe7, 0x52a0c93f] = map (\<lambda>k. crc_bits 32 (push_bit k 1)) [0..<8]"
proof -
  have "[0xdd45aab8, 0xbf672381, 0x7b2231f3, 0xf64463e6, 0xe964b13d, 0xd725148b, 0xaba65fe7, 0x52a0c93f] = map (crc_bits 8) [0xa541927e, 0x4f6f520d, 0x9edea41a, 0x38513ec5, 0x70a27d8a, 0xe144fb14, 0xc76580d9, 0x8b277743]"
    by code_simp
  then show ?thesis unfolding basis2 map_map comp_def crc_bits_add [symmetric] by simp
qed

lemma table3_nth: "n < 256 \<Longrightarrow> table3 ! n = crc_bits 32 (word_of_nat n)"
  by (rule table_nth [OF crc_bits_linear basis3]) code_simp

section \<open>The portable implementation is right\<close>

lemma and_ff: "(x :: u32) AND 0xff = take_bit 8 x"
  by (simp add: take_bit_eq_mask mask_numeral)

lemma unat_low_byte: "unat (take_bit 8 (x :: u32)) < 256"
  using take_bit_nat_less_exp [of 8 "unat x"] by (simp add: unsigned_take_bit_eq)

lemma unat_high_byte: "unat (drop_bit 24 (x :: u32)) < 256"
  using unsigned_less [of x, where ?'a = nat] by (simp add: unat_drop_bit_div del: drop_bit_eq_div)

lemma STEP1_byte: "STEP1 l b = crc_byte l b"
proof -
  have e: "(l AND 0xff) XOR ucast b = take_bit 8 (l XOR ucast b)" "drop_bit 8 (l XOR ucast b) = drop_bit 8 l"
    unfolding and_ff by (rule bit_word_eqI, auto simp: bit_simps dest: bit_imp_le_length)+
  have "STEP1 l b = (table0 ! unat (take_bit 8 (l XOR ucast b))) XOR drop_bit 8 (l XOR ucast b)"
    unfolding STEP1_def Let_def e by simp
  also have "\<dots> = crc_bits 8 (take_bit 8 (l XOR ucast b)) XOR drop_bit 8 (l XOR ucast b)"
    by (subst table0_nth [OF unat_low_byte]) (simp del: take_bit_xor)
  also have "\<dots> = crc_byte l b"
    unfolding crc_byte_def by (rule crc_bits_low [symmetric]) simp
  finally show ?thesis .
qed

lemma crc_bits_push_bits: "n + k \<le> 32 \<Longrightarrow> (\<And>i. i \<ge> n \<Longrightarrow> \<not> bit x i) \<Longrightarrow> crc_bits (m + k) (push_bit k x) = crc_bits m x"
  using crc_bits_push [of n k x] by (simp add: crc_bits_add)

lemma push_byte: "k \<le> 24 \<Longrightarrow> crc_bits (m + k) (push_bit k (ucast (b :: byte))) = crc_bits m (ucast b)"
  by (rule crc_bits_push_bits [of 8]) (auto simp: bit_simps dest: bit_imp_le_length)

lemma load_xor:
  "LE_LOAD32 p = ucast (p ! 0) XOR push_bit 8 (ucast (p ! 1)) XOR push_bit 16 (ucast (p ! 2)) XOR push_bit 24 (ucast (p ! 3))"
  unfolding LE_LOAD32_def DecodeFixed32_def
  by (rule bit_word_eqI) (auto simp: bit_simps dest: bit_imp_le_length)

lemma crc_word: "crc_bytes l [b0, b1, b2, b3] = crc_bits 32 (l XOR LE_LOAD32 [b0, b1, b2, b3])"
proof -
  have "crc_bytes l [b0, b1, b2, b3] = crc_bits 32 l XOR crc_bytes 0 [b0, b1, b2, b3]"
    using crc_bytes_xor [of 0 l "[b0, b1, b2, b3]"] by (simp add: xor.commute)
  also have "crc_bytes 0 [b0, b1, b2, b3] = crc_bits 32 (ucast b0) XOR crc_bits 24 (ucast b1) XOR crc_bits 16 (ucast b2) XOR crc_bits 8 (ucast b3)"
    by (simp add: crc_byte_def crc_bits_xor crc_bits_add [symmetric] ac_simps)
  also have "\<dots> = crc_bits 32 (LE_LOAD32 [b0, b1, b2, b3])"
    unfolding load_xor crc_bits_xor using push_byte [of 8 24 b1] push_byte [of 16 16 b2] push_byte [of 24 8 b3] by simp
  finally show ?thesis by (simp only: crc_bits_xor)
qed

text \<open>One table per byte of the word.\<close>

lemma crc_bits_bytes:
  "crc_bits 32 c = crc_bits 32 (take_bit 8 c) XOR crc_bits 24 (take_bit 8 (drop_bit 8 c)) XOR crc_bits 16 (take_bit 8 (drop_bit 16 c)) XOR
     crc_bits 8 (drop_bit 24 c)"
proof -
  let ?b = "\<lambda>k. ucast (drop_bit k c) :: byte"
  have "c = LE_LOAD32 [?b 0, ?b 8, ?b 16, ?b 24]"
    unfolding load_xor by (rule bit_word_eqI) (auto simp: bit_simps dest: bit_imp_le_length)
  then have "crc_bits 32 c = crc_bytes 0 [?b 0, ?b 8, ?b 16, ?b 24]" using crc_word [of 0] by simp
  moreover have "ucast (?b k) = take_bit 8 (drop_bit k c)" for k
    by (rule bit_word_eqI) (auto simp: bit_simps dest: bit_imp_le_length)
  moreover from this [of 0] have "ucast (ucast c :: byte) = take_bit 8 c" by simp
  moreover have "take_bit 8 (drop_bit 24 c) = drop_bit 24 c"
    by (rule bit_word_eqI) (auto simp: bit_simps dest: bit_imp_le_length)
  ultimately show ?thesis
    by (simp add: crc_byte_def crc_bits_xor crc_bits_add [symmetric] ac_simps del: drop_bit_eq_div take_bit_drop_bit)
qed

lemma STEP4_word:
  assumes "4 \<le> length p"
  shows "STEP4 l p = crc_bytes l (take 4 p)"
proof -
  obtain b0 b1 b2 b3 q where p: "p = b0 # b1 # b2 # b3 # q"
    using assms by (auto simp: Suc_le_length_iff numeral_eq_Suc)
  let ?c = "l XOR LE_LOAD32 p"
  have "STEP4 l p = crc_bits 32 ?c"
    unfolding STEP4_def Let_def and_ff
    by (simp only: table0_nth [OF unat_high_byte] table1_nth [OF unat_low_byte] table2_nth [OF unat_low_byte] table3_nth [OF unat_low_byte]
        of_nat_unat ucast_id crc_bits_bytes [of ?c])
  also have "LE_LOAD32 p = LE_LOAD32 [b0, b1, b2, b3]" by (simp add: p load_xor)
  finally show ?thesis by (simp add: p crc_word [simplified])
qed


lemma take_drop_append: "crc_bytes (crc_bytes l (take k p)) (drop k p) = crc_bytes l p"
  by (simp add: crc_bytes_append [symmetric])

lemma steps4_bytes: "steps4 l p = (l', q) \<Longrightarrow> crc_bytes l' q = crc_bytes l p \<and> length q < 4"
proof (induction l p rule: steps4.induct)
  case (1 l p)
  show ?case
  proof (cases "4 \<le> length p")
    case True
    then show ?thesis
      using 1 by (simp add: steps4.simps [of l p] STEP4_word take_drop_append)
  qed (use 1(2) in \<open>simp add: steps4.simps [of l p]\<close>)
qed

lemma crc_chunk: "crc_bytes (crc_bytes l (take k (drop j p))) (drop (j + k) p) = crc_bytes l (drop j p)"
  using take_drop_append [of l k "drop j p"] by (simp add: add.commute)

lemma steps16_bytes: "steps16 l p = (l', q) \<Longrightarrow> crc_bytes l' q = crc_bytes l p"
proof (induction l p rule: steps16.induct)
  case (1 l p)
  let ?l1 = "STEP4 l p" let ?l2 = "STEP4 ?l1 (drop 4 p)" let ?l3 = "STEP4 ?l2 (drop 8 p)" let ?l4 = "STEP4 ?l3 (drop 12 p)"
  show ?case
  proof (cases "16 \<le> length p")
    case True
    then have "steps16 ?l4 (drop 16 p) = (l', q)" using 1(2) by (simp add: steps16.simps [of l p] Let_def)
    then have "crc_bytes l' q = crc_bytes ?l4 (drop 16 p)" using 1(1) [OF True refl refl refl refl] by blast
    also have "\<dots> = crc_bytes l p"
      using True crc_chunk [of ?l3 4 12 p] crc_chunk [of ?l2 4 8 p] crc_chunk [of ?l1 4 4 p] take_drop_append [of l 4 p]
      by (simp add: STEP4_word)
    finally show ?thesis .
  qed (use 1(2) in \<open>simp add: steps16.simps [of l p]\<close>)
qed

lemma STEP1_bytes: "foldl STEP1 l p = crc_bytes l p"
proof -
  have "STEP1 = crc_byte" by (intro ext STEP1_byte)
  then show ?thesis by (simp only: crc_bytes_def)
qed

lemma ExtendSW_crc32c: "ExtendSW pval crc buf = crc32c crc buf"
proof -
  let ?l = "crc XOR 0xffffffff" let ?x = "(pval + 3) div 4 * 4 - pval"
  obtain l1 p1 where 1: "(if ?x \<le> length buf then (foldl STEP1 ?l (take ?x buf), drop ?x buf) else (?l, buf)) = (l1, p1)" by fastforce
  obtain l2 p2 where 2: "steps16 l1 p1 = (l2, p2)" by fastforce
  obtain l3 p3 where 3: "steps4 l2 p2 = (l3, p3)" by fastforce
  have "crc_bytes l1 p1 = crc_bytes ?l buf" using 1 by (auto simp: STEP1_bytes take_drop_append split: if_splits)
  then have "crc_bytes l3 p3 = crc_bytes ?l buf" using steps4_bytes [OF 3] steps16_bytes [OF 2] by simp
  then show ?thesis by (simp only: ExtendSW_def Let_def 1 2 3 prod.case) (simp add: STEP1_bytes crc32c_def)
qed

section \<open>Checksums of zeros\<close>

definition represents_map :: "u32 list \<Rightarrow> (u32 \<Rightarrow> u32) \<Rightarrow> bool" where
  "represents_map mat f \<longleftrightarrow> linear f \<and> mat = map (\<lambda>n. f (push_bit n 1)) [0..<32]"

lemma times_loop_add: "times_loop (a XOR b) mat vec = a XOR times_loop b mat vec"
proof (induction b mat vec rule: times_loop.induct)
  case (1 b mat vec)
  show ?case
  proof (cases "vec = 0")
    case True
    then show ?thesis by (simp add: True times_loop.simps [of _ mat 0])
  next
    case False
    have "times_loop (a XOR b) mat vec = times_loop (a XOR (if vec AND 1 \<noteq> 0 then b XOR hd mat else b)) (tl mat) (drop_bit 1 vec)"
      using False by (simp add: times_loop.simps [of "a XOR b" mat vec] xor.assoc)
    also have "\<dots> = a XOR times_loop (if vec AND 1 \<noteq> 0 then b XOR hd mat else b) (tl mat) (drop_bit 1 vec)" by (rule 1 [OF False])
    finally show ?thesis using False by (simp add: times_loop.simps [of b mat vec])
  qed
qed


lemma times_loop_columns:
  assumes f: "linear f"
  shows "n \<le> 32 \<Longrightarrow> (\<And>i. n \<le> i \<Longrightarrow> \<not> bit vec i) \<Longrightarrow>
    times_loop acc (map (\<lambda>i. f (push_bit i 1)) [32 - n..<32]) vec = acc XOR f (push_bit (32 - n) vec)"
proof (induction n arbitrary: acc vec)
  case 0
  then have "vec = 0" by (intro bit_word_eqI) simp
  then show ?case using linear_0 [OF f] by (simp add: times_loop.simps [of _ _ 0])
next
  case (Suc n)
  let ?k = "32 - Suc n"
  have k: "32 - n = Suc ?k" "[?k..<32] = ?k # [Suc ?k..<32]" using Suc(2) by (auto simp: upt_rec)
  have v: "push_bit ?k vec = (if bit vec 0 then push_bit ?k 1 else 0) XOR push_bit (Suc ?k) (drop_bit 1 vec)"
  proof -
    have "vec = (if bit vec 0 then 1 else 0) XOR push_bit 1 (drop_bit 1 vec)"
    proof (rule bit_word_eqI)
      fix i
      show "bit vec i = bit ((if bit vec 0 then 1 else 0) XOR push_bit 1 (drop_bit 1 vec)) i" if "i < LENGTH(32)"
        using that by (cases i) (simp_all add: bit_xor_iff bit_push_bit_iff bit_drop_bit_eq bit_1_iff plus_1_eq_Suc del: push_bit_Suc One_nat_def)
    qed
    then have "push_bit ?k vec = push_bit ?k ((if bit vec 0 then 1 else 0) XOR push_bit 1 (drop_bit 1 vec))" by (rule arg_cong)
    then show ?thesis by (simp only: push_bit_xor push_bit_push_bit if_distrib [of "push_bit ?k"] push_bit_of_0 add_Suc_right One_nat_def add_0_right)
  qed
  have b: "vec AND 1 \<noteq> 0 \<longleftrightarrow> bit vec 0" by (simp add: and_one_eq odd_iff_mod_2_eq_one bit_0)
  show ?case
  proof (cases "vec = 0")
    case True
    then show ?thesis using linear_0 [OF f] by (simp add: times_loop.simps [of _ _ 0])
  next
    case False
    have "times_loop acc (map (\<lambda>i. f (push_bit i 1)) [?k..<32]) vec =
        times_loop (if bit vec 0 then acc XOR f (push_bit ?k 1) else acc) (map (\<lambda>i. f (push_bit i 1)) [32 - n..<32]) (drop_bit 1 vec)"
      unfolding k by (subst times_loop.simps) (simp only: False if_False b list.map list.sel)
    also have "\<dots> = (if bit vec 0 then acc XOR f (push_bit ?k 1) else acc) XOR f (push_bit (32 - n) (drop_bit 1 vec))"
      by (rule Suc(1)) (use Suc(2,3) in \<open>auto simp: bit_simps\<close>)
    also have "\<dots> = acc XOR f (push_bit ?k vec)"
      unfolding v linearD [OF f] k(1) using linear_0 [OF f] by (simp add: xor.assoc)
    finally show ?thesis .
  qed
qed

lemma gf2_matrix_times_map:
  assumes "represents_map mat f"
  shows "gf2_matrix_times mat v = f v"
proof -
  have "\<not> bit v i" if "32 \<le> i" for i using that bit_imp_le_length [of v i] by auto
  then show ?thesis using assms times_loop_columns [of f 32 v 0] by (simp add: represents_map_def gf2_matrix_times_def)
qed

lemma gf2_matrix_square_map:
  assumes "represents_map mat f"
  shows "represents_map (gf2_matrix_square mat) (\<lambda>x. f (f x))"
  unfolding represents_map_def
proof
  show "linear (\<lambda>x. f (f x))" using assms linear_comp by (simp add: represents_map_def)
  show "gf2_matrix_square mat = map (\<lambda>n. f (f (push_bit n 1))) [0..<32]"
    unfolding gf2_matrix_square_def using assms gf2_matrix_times_map [OF assms]
    by (intro map_cong refl) (simp add: represents_map_def)
qed

lemma square_bits: "represents_map mat (crc_bits k) \<Longrightarrow> represents_map (gf2_matrix_square mat) (crc_bits (2 * k))"
  using gf2_matrix_square_map [of mat "crc_bits k"] by (simp add: crc_bits_add [symmetric] mult_2)

lemma zeros_loop_map: "represents_map mat (crc_bits k) \<Longrightarrow> represents_map (zeros_loop mat (2 ^ n)) (crc_bits (2 * k * 2 ^ n))"
proof (induction n arbitrary: mat k rule: less_induct)
  case (less n)
  let ?e = "gf2_matrix_square mat"
  have e: "represents_map ?e (crc_bits (2 * k))" by (rule square_bits [OF less(2)])
  have o: "represents_map (gf2_matrix_square ?e) (crc_bits (4 * k))" using square_bits [OF e] by simp
  consider "n = 0" | "n = 1" | m where "n = Suc (Suc m)" by (metis One_nat_def not0_implies_Suc)
  then show ?case
  proof cases
    case 1
    then show ?thesis using e by (simp add: zeros_loop.simps [of mat])
  next
    case 2
    then show ?thesis using o by (simp add: zeros_loop.simps [of mat])
  next
    case 3
    then show ?thesis using less(1) [OF _ o, of m] by (simp add: zeros_loop.simps [of mat] Let_def mult.assoc)
  qed
qed

lemma zeros_op_map: "represents_map (crc32c_zeros_op (2 ^ n)) (crc_bits (8 * 2 ^ n))"
proof -
  have "represents_map (POLY # map (\<lambda>n. push_bit n 1) [0..<31]) (crc_bits 1)"
    unfolding represents_map_def
  proof
    show "linear (crc_bits 1)" by (rule crc_bits_linear)
    have "[0..<32] = 0 # map Suc [0..<31]" by (simp add: upt_rec map_Suc_upt)
    moreover have "crc_bits 1 (push_bit 0 1) = POLY" by (simp add: crc_bits_def crc_bit_def)
    moreover have "crc_bits 1 (push_bit (Suc n) 1) = push_bit n 1" if "n < 31" for n
      using crc_bits_push_bits [of "Suc n" 1 "push_bit n 1" 0] that by (auto simp: bit_simps mult.commute)
    ultimately show "POLY # map (\<lambda>n. push_bit n 1) [0..<31] = map (\<lambda>n. crc_bits 1 (push_bit n 1)) [0..<32]"
      by (simp del: push_bit_of_1)
  qed
  from zeros_loop_map [OF square_bits [OF square_bits [OF this]], of n] show ?thesis
    by (simp add: crc32c_zeros_op_def Let_def)
qed


lemma crc32c_shift_zeros: "crc32c_shift (crc32c_zeros (2 ^ n)) c = crc_bits (8 * 2 ^ n) c"
proof -
  let ?f = "crc_bits (8 * 2 ^ n)"
  have z: "crc32c_zeros (2 ^ n) ! k ! m = ?f (push_bit (8 * k) (word_of_nat m))" if "k < 4" "m < 256" for k m
    using that by (simp add: crc32c_zeros_def Let_def gf2_matrix_times_map [OF zeros_op_map] del: push_bit_of_nat)
  have c: "take_bit 8 c XOR push_bit 8 (take_bit 8 (drop_bit 8 c)) XOR push_bit 16 (take_bit 8 (drop_bit 16 c)) XOR push_bit 24 (drop_bit 24 c) = c"
    by (rule bit_word_eqI) (auto simp: bit_simps)
  have "crc32c_shift (crc32c_zeros (2 ^ n)) c =
      ?f (take_bit 8 c) XOR ?f (push_bit 8 (take_bit 8 (drop_bit 8 c))) XOR ?f (push_bit 16 (take_bit 8 (drop_bit 16 c))) XOR ?f (push_bit 24 (drop_bit 24 c))"
    unfolding crc32c_shift_def and_ff
    using z [of 0, OF _ unat_low_byte] z [of 1, OF _ unat_low_byte] z [of 2, OF _ unat_low_byte] z [of 3, OF _ unat_high_byte]
    by (simp del: drop_bit_eq_div)
  also have "\<dots> = ?f c" by (subst (5) c [symmetric]) (simp only: crc_bits_xor)
  finally show ?thesis .
qed

section \<open>The three lanes\<close>

lemma encode_decode64: "8 \<le> length p \<Longrightarrow> EncodeFixed64 (DecodeFixed64 p) = take 8 p"
proof -
  assume "8 \<le> length p"
  then obtain b0 b1 b2 b3 b4 b5 b6 b7 q where p: "p = b0 # b1 # b2 # b3 # b4 # b5 # b6 # b7 # q"
    by (auto simp: Suc_le_length_iff numeral_eq_Suc)
  have m: "ucast (w AND 0xff :: u64) = (ucast w :: byte)" for w by simp
  show ?thesis
    unfolding p EncodeFixed64_def DecodeFixed64_def DecodeFixed32_def Let_def m
    by (simp del: drop_bit_eq_div) (intro conjI; rule bit_word_eqI; auto simp: bit_simps dest: bit_imp_le_length)
qed

lemma crc_split:
  "crc_bytes l (p @ q @ r) = crc_bits (8 * length r) (crc_bits (8 * length q) (crc_bytes l p) XOR crc_bytes 0 q) XOR crc_bytes 0 r"
proof -
  have s: "crc_bytes x z = crc_bits (8 * length z) x XOR crc_bytes 0 z" for x z
    using crc_bytes_xor [of 0 x z] by (simp add: xor.commute)
  show ?thesis by (simp only: crc_bytes_append s [of "crc_bytes l p" q] s [of "_ XOR _" r])
qed

lemma lanes_bytes:
  assumes "sse42 ib iq" and "L * 3 \<le> length p" and "8 * m \<le> L"
  shows "foldl (lanes iq L p) (c0, c1, c2) [0..<m] =
    (crc_bytes c0 (take (8 * m) p), crc_bytes c1 (take (8 * m) (drop L p)), crc_bytes c2 (take (8 * m) (drop (2 * L) p)))"
  using assms(3)
proof (induction m)
  case (Suc m)
  have q: "iq l w = crc_bytes l (EncodeFixed64 w)" for l w using assms(1) by (simp add: sse42_def)
  have s: "take (8 * Suc m) z = take (8 * m) z @ take 8 (drop (8 * m) z)" for z :: slice
    using take_add [of "8 * m" 8 z] by (simp add: add.commute)
  have "8 \<le> length (drop (8 * m) p)" "8 \<le> length (drop (L + 8 * m) p)" "8 \<le> length (drop (2 * L + 8 * m) p)"
    using assms(2) Suc(2) by simp_all
  moreover have "foldl (lanes iq L p) (c0, c1, c2) [0..<Suc m] = lanes iq L p (foldl (lanes iq L p) (c0, c1, c2) [0..<m]) m" by simp
  moreover have "8 * m \<le> L" using Suc(2) by simp
  ultimately show ?case
    by (simp only: Suc(1)) (simp add: lanes_def q encode_decode64 s crc_bytes_append add.commute del: mult_Suc_right)
qed simp

lemma three_way_bytes:
  assumes "sse42 ib iq" and "L = 2 ^ n" and "8 dvd L"
  shows "three_way iq L (crc32c_zeros L) l p = (l', q) \<Longrightarrow> crc_bytes l' q = crc_bytes l p"
  using assms
proof (induction iq L "crc32c_zeros L" l p rule: three_way.induct)
  case (1 iq L l p)
  note ops = 1(3) and L = 1(4,5)
  show ?case
  proof (cases "L * 3 \<le> length p")
    case False
    then show ?thesis using 1(2) by (simp add: three_way.simps [of iq L])
  next
    case True
    let ?A = "take L p" let ?B = "take L (drop L p)" let ?C = "take L (drop (2 * L) p)"
    let ?Z = "crc32c_shift (crc32c_zeros L)"
    let ?l = "?Z (?Z (crc_bytes l ?A) XOR crc_bytes 0 ?B) XOR crc_bytes 0 ?C"
    have z: "?Z c = crc_bits (8 * L) c" for c using crc32c_shift_zeros [of n c] L by simp
    have L0: "0 < L" using L by simp
    have "8 * (L div 8) = L" using L(2) by simp
    then have f: "foldl (lanes iq L p) (l, 0, 0) [0..<L div 8] = (crc_bytes l ?A, crc_bytes 0 ?B, crc_bytes 0 ?C)"
      using lanes_bytes [OF ops True, of "L div 8" l 0 0] by simp
    then have "three_way iq L (crc32c_zeros L) ?l (drop (L * 3) p) = (l', q)"
      using 1(2) True L0 by (simp add: three_way.simps [of iq L _ l p])
    moreover have "0 < L \<and> L * 3 \<le> length p" using L0 True by simp
    ultimately have "crc_bytes l' q = crc_bytes ?l (drop (L * 3) p)"
      using 1(1) [OF _ f [symmetric] refl refl refl] ops L by blast
    also have "?l = crc_bytes l (?A @ ?B @ ?C)" using True by (simp add: crc_split z)
    also have "?A @ ?B @ ?C = take (L * 3) p"
      using take_add [of L L p] take_add [of "2 * L" L p] by (simp add: mult.commute [of L] numeral_3_eq_3 mult_2 add.assoc)
    finally show ?thesis by (simp add: take_drop_append)
  qed
qed

lemma quads_bytes:
  assumes "sse42 ib iq"
  shows "quads iq l p = (l', q) \<Longrightarrow> crc_bytes l' q = crc_bytes l p"
  using assms
proof (induction iq l p rule: quads.induct)
  case (1 iq l p)
  have q: "iq l w = crc_bytes l (EncodeFixed64 w)" for l w using 1(3) by (simp add: sse42_def)
  show ?case
  proof (cases "8 \<le> length p")
    case True
    then have "quads iq (iq l (DecodeFixed64 p)) (drop 8 p) = (l', q)" using 1(2) by (simp add: quads.simps [of iq l p])
    then have "crc_bytes l' q = crc_bytes (iq l (DecodeFixed64 p)) (drop 8 p)" by (rule 1(1) [OF True _ 1(3)])
    then show ?thesis using True by (simp add: q encode_decode64 take_drop_append)
  qed (use 1(2) in \<open>simp add: quads.simps [of iq l p]\<close>)
qed

lemma ExtendHW_crc32c:
  assumes ops: "sse42 ib iq"
  shows "ExtendHW ib iq addr crc buf = crc32c crc buf"
proof -
  let ?l = "crc XOR 0xffffffff" let ?x = "(8 - addr mod 8) mod 8"
  have "ib = crc_byte" using ops by (auto simp: sse42_def)
  then have b: "foldl ib l p = crc_bytes l p" for l p by (simp add: crc_bytes_def)
  obtain l1 p1 where 1: "three_way iq LONG (crc32c_zeros LONG) (crc_bytes ?l (take ?x buf)) (drop ?x buf) = (l1, p1)" by fastforce
  obtain l2 p2 where 2: "three_way iq SHORT (crc32c_zeros SHORT) l1 p1 = (l2, p2)" by fastforce
  obtain l3 p3 where 3: "quads iq l2 p2 = (l3, p3)" by fastforce
  have "crc_bytes l1 p1 = crc_bytes ?l buf"
    using three_way_bytes [OF ops _ _ 1, of 13] by (simp add: LONG_def take_drop_append)
  then have "crc_bytes l3 p3 = crc_bytes ?l buf"
    using quads_bytes [OF ops 3] three_way_bytes [OF ops _ _ 2, of 8] by (simp add: SHORT_def)
  then show ?thesis by (simp only: ExtendHW_def crc32c_hw_def Let_def b 1 2 3 prod.case) (simp add: crc32c_def)
qed


section \<open>Errors are seen\<close>

lemma xor_cancel: "(a :: u32) XOR c = b XOR c \<longleftrightarrow> a = b"
proof
  assume "a XOR c = b XOR c"
  then have "(a XOR c) XOR c = (b XOR c) XOR c" by simp
  then show "a = b" by (simp only: xor.assoc xor_self_eq xor.right_neutral)
qed simp

lemma xor_0: "(a :: u32) XOR b = 0 \<longleftrightarrow> a = b"
  using xor_cancel [of a b b] by simp

lemma crc_bit_inj: "crc_bit x = 0 \<Longrightarrow> x = 0"
proof -
  assume x: "crc_bit x = 0"
  have "\<not> bit x 0"
  proof
    assume b: "bit x 0"
    have "\<not> bit (drop_bit 1 x) 31" by (auto simp: bit_simps dest: bit_imp_le_length)
    moreover have "bit POLY 31" by (simp add: POLY_def bit_numeral_rec)
    ultimately have "bit (crc_bit x) 31" using b by (simp add: crc_bit_def bit_xor_iff)
    then show False using x by simp
  qed
  then have d: "drop_bit 1 x = 0" using x by (simp add: crc_bit_def)
  show "x = 0"
  proof (rule bit_word_eqI)
    fix n
    have "bit x (Suc m) = bit (drop_bit 1 x) m" for m by (simp add: bit_simps)
    then show "bit x n = bit 0 n" using \<open>\<not> bit x 0\<close> d by (cases n) simp_all
  qed
qed

lemma crc_bits_inj: "crc_bits k x = 0 \<Longrightarrow> x = 0"
  by (induction k) (auto simp: crc_bits_Suc dest: crc_bit_inj)

lemma crc_bits_eq: "crc_bits k x = crc_bits k y \<Longrightarrow> x = y"
  using crc_bits_inj [of k "x XOR y"] crc_bits_xor [of k x y] by (simp add: xor_0)

lemma length_4:
  assumes "length p = 4"
  obtains b0 b1 b2 b3 where "p = [b0, b1, b2, b3]"
proof -
  have "4 \<le> length p" using assms by simp
  then obtain b0 b1 b2 b3 q where "p = b0 # b1 # b2 # b3 # q" by (auto simp: Suc_le_length_iff numeral_eq_Suc)
  then show ?thesis using that assms by auto
qed

lemma crc_bytes_pad: "crc_bytes 0 (replicate n 0 @ p) = crc_bytes 0 p"
  by (induction n) (simp_all add: crc_byte_def)

lemma load_inj:
  assumes "length p = 4" and "length q = 4" and "LE_LOAD32 p = LE_LOAD32 q"
  shows "p = q"
proof -
  have e: "EncodeFixed32 (LE_LOAD32 p) = p" if "length p = 4" for p
  proof -
    obtain b0 b1 b2 b3 where p: "p = [b0, b1, b2, b3]" by (rule length_4 [OF \<open>length p = 4\<close>])
    have "EncodeFixed32 (LE_LOAD32 p) = le_bytes 4 (le_word p :: u32)"
      unfolding LE_LOAD32_def p EncodeFixed_le_bytes by (simp only: DecodeFixed32_le)
    then show ?thesis using le_bytes_le_word [of p, where 'a = 32] that by simp
  qed
  show ?thesis using e [OF assms(1)] e [OF assms(2)] assms(3) by metis
qed

lemma crc_bytes_inj:
  assumes "length d = length d'" and "length d \<le> 4" and "crc_bytes l d = crc_bytes l d'"
  shows "d = d'"
proof -
  have "crc_bytes 0 d = crc_bytes 0 d'"
    using assms(3) crc_bytes_xor [of 0 l d] crc_bytes_xor [of 0 l d'] assms(1) by (simp add: xor_cancel)
  then have e: "crc_bytes 0 (replicate (4 - length d) 0 @ d) = crc_bytes 0 (replicate (4 - length d) 0 @ d')"
    by (simp only: crc_bytes_pad)
  have w: "crc_bytes 0 p = crc_bits 32 (LE_LOAD32 p)" if n: "length p = 4" for p
  proof -
    obtain b0 b1 b2 b3 where p: "p = [b0, b1, b2, b3]" by (rule length_4 [OF n])
    show ?thesis unfolding p crc_word by simp
  qed
  have len: "length (replicate (4 - length d) 0 @ d) = 4" "length (replicate (4 - length d) (0 :: byte) @ d') = 4" using assms(1,2) by simp_all
  show ?thesis using load_inj [OF len] crc_bits_eq e w [OF len(1)] w [OF len(2)] by auto
qed

lemma crc_bytes_cancel:
  assumes "crc_bytes l p = crc_bytes l' p"
  shows "l = l'"
proof -
  have "crc_bytes 0 p XOR crc_bits (8 * length p) l = crc_bytes 0 p XOR crc_bits (8 * length p) l'"
    using assms crc_bytes_xor [of 0 l p] crc_bytes_xor [of 0 l' p] by simp
  then show ?thesis using crc_bits_eq by (simp only: xor.commute [of "crc_bytes 0 p"] xor_cancel)
qed

lemma crc32c_append: "crc32c (crc32c crc p) q = crc32c crc (p @ q)"
  by (simp add: crc32c_def crc_bytes_append xor.assoc)

lemma crc32c_detects:
  assumes "length d = length d'" and "length d \<le> 4" and "crc32c crc (p @ d @ q) = crc32c crc (p @ d' @ q)"
  shows "d = d'"
proof -
  let ?l = "crc_bytes (crc XOR 0xffffffff) p"
  have "crc_bytes (crc_bytes ?l d) q = crc_bytes (crc_bytes ?l d') q"
    using assms(3) unfolding crc32c_def xor_cancel by (simp only: crc_bytes_append)
  then show ?thesis using crc_bytes_inj [OF assms(1,2)] crc_bytes_cancel by blast
qed

lemma Unmask_Mask [simp]: "Unmask (Mask crc) = crc"
proof (rule bit_word_eqI)
  fix n assume "n < LENGTH(32)"
  then show "bit (Unmask (Mask crc)) n = bit crc n"
    unfolding Unmask_def Mask_def Let_def by (cases "n < 15") (auto simp: bit_simps)
qed

section \<open>The checksum\<close>

text \<open>
  C40. Both implementations of CRC-32C compute the bitwise division by the polynomial, wherever the buffer lies in memory: the
  portable one with its four tables of constants, and the one that runs three lanes of CRC instructions and joins them with
  tables it computes by squaring matrices over GF(2). A checksum can be continued at any point of the data and its masking
  can be undone. A change within four consecutive bytes always changes the checksum.
\<close>

theorem crc32c_implementations:
  assumes "CanAccelerateCrc32c C \<longrightarrow> sse42 (crc32b C) (crc32q C)"
  shows "Extend C addr crc buf = crc32c crc buf \<and>
    Extend C addr' (Extend C addr crc p) q = Extend C addr'' crc (p @ q) \<and>
    Unmask (Mask crc) = crc \<and>
    (length d = length d' \<and> length d \<le> 4 \<and> d \<noteq> d' \<longrightarrow> Crc_Value C addr (p @ d @ q) \<noteq> Crc_Value C addr' (p @ d' @ q))"
proof -
  have e: "Extend C a c b = crc32c c b" for a c b
    using assms ExtendSW_crc32c ExtendHW_crc32c by (simp add: Extend_def)
  show ?thesis unfolding Crc_Value_def e using crc32c_append crc32c_detects Unmask_Mask by blast
qed

definition sample_cpu :: cpu where
  "sample_cpu = \<lparr>CanAccelerateCrc32c = True, crc32b = crc_byte, crc32q = (\<lambda>l w. crc_bytes l (EncodeFixed64 w))\<rparr>"

lemma check_value: "crc32c 0 [0x31, 0x32, 0x33, 0x34, 0x35, 0x36, 0x37, 0x38, 0x39] = 0xe3069283"
proof -
  have "ExtendSW 0 0 [0x31, 0x32, 0x33, 0x34, 0x35, 0x36, 0x37, 0x38, 0x39] = 0xe3069283"
    by code_simp
  then show ?thesis by (simp only: ExtendSW_crc32c)
qed

lemma crc32c_implementations_witness:
  "Extend sample_cpu 5 0 [0x31, 0x32, 0x33, 0x34, 0x35, 0x36, 0x37, 0x38, 0x39] = 0xe3069283 \<and>
   Crc_Value sample_cpu 0 [1, 2, 3] \<noteq> Crc_Value sample_cpu 1 [1, 0, 3]"
proof -
  have "CanAccelerateCrc32c sample_cpu \<longrightarrow> sse42 (crc32b sample_cpu) (crc32q sample_cpu)"
    by (simp add: sample_cpu_def sse42_def)
  from crc32c_implementations [OF this, of 5 0 "[0x31, 0x32, 0x33, 0x34, 0x35, 0x36, 0x37, 0x38, 0x39]" 0 "[]" "[]" 0 "[]" "[]"]
    crc32c_implementations [OF this, of 0 0 "[]" 1 "[1]" "[3]" 0 "[2]" "[0]"] check_value
  show ?thesis by simp
qed

end
