(* ===== verification/Env_Files.thy ===== *)
theory Env_Files
  imports Status "HOL-Library.Monad_Syntax"
begin

text \<open>
  The file interfaces of \<^verbatim>\<open>env.h\<close> and the files of \<^verbatim>\<open>env_files.h\<close> and \<^verbatim>\<open>env_files.cc\<close> that are built from other
  files: the buffered writable file behind the logs and tables of the bulk stores, the files that count what goes through
  them, and the file that is read into memory as a whole. A file is a state with operations on it; \<open>None\<close> is a failed
  assertion, the use of a null pointer or a loop without end. The locales \<open>writable_file\<close> and \<open>sequential_file\<close> say
  what the documentation of the interfaces promises.
\<close>

section \<open>Interfaces\<close>

record 'f WritableFile =
  wf_Append :: "slice \<Rightarrow> 'f \<Rightarrow> (status \<times> 'f) option"
  wf_Close :: "'f \<Rightarrow> (status \<times> 'f) option"
  wf_Flush :: "'f \<Rightarrow> (status \<times> 'f) option"
  wf_Sync :: "'f \<Rightarrow> (status \<times> 'f) option"

record 'g SequentialFile =
  sf_Read :: "nat \<Rightarrow> 'g \<Rightarrow> (status \<times> slice \<times> 'g) option"
  sf_Skip :: "nat \<Rightarrow> 'g \<Rightarrow> (status \<times> 'g) option"

record 'r RandomAccessFile =
  rf_Read :: "u64 \<Rightarrow> nat \<Rightarrow> 'r \<Rightarrow> (status \<times> slice) option"

text \<open>\<open>contents\<close> is what was written so far, whether it is still in a buffer or not.\<close>

locale writable_file =
  fixes F :: "'f WritableFile" and contents :: "'f \<Rightarrow> slice"
  assumes Append: "wf_Append F d f = Some (Okay, f') \<Longrightarrow> contents f' = contents f @ d"
    and Flush: "wf_Flush F f = Some (Okay, f') \<Longrightarrow> contents f' = contents f"
    and Sync: "wf_Sync F f = Some (Okay, f') \<Longrightarrow> contents f' = contents f"

text \<open>\<open>rest\<close> is what is still to be read. A read is short only at the end of the file, which the log reader relies on.\<close>

locale sequential_file =
  fixes S :: "'g SequentialFile" and rest :: "'g \<Rightarrow> slice"
  assumes Read: "sf_Read S n g = Some (Okay, d, g') \<Longrightarrow> d = take n (rest g) \<and> rest g' = drop n (rest g)"
    and Skip: "sf_Skip S n g = Some (Okay, g') \<Longrightarrow> rest g' = drop n (rest g)"

section \<open>The buffered file\<close>

record 'f MinMaxBufferedWritableFile =
  mm_base :: "'f option"
  mm_offset :: u64
  min_buf_size :: nat
  max_buf_size :: nat
  mm_buf :: slice

definition new_MinMaxBufferedWritableFile :: "'f \<Rightarrow> nat \<Rightarrow> nat \<Rightarrow> 'f MinMaxBufferedWritableFile option" where
  "new_MinMaxBufferedWritableFile base mn mx =
     (if mn \<le> mx then Some \<lparr>mm_base = Some base, mm_offset = 0, min_buf_size = mn, max_buf_size = mx, mm_buf = []\<rparr> else None)"

definition EmptyBuffer :: "'f WritableFile \<Rightarrow> 'f MinMaxBufferedWritableFile \<Rightarrow> (status \<times> 'f MinMaxBufferedWritableFile) option" where
  "EmptyBuffer F m =
     (let buf_size = length (mm_buf m)
      in if max_buf_size m < buf_size then None
         else if buf_size \<noteq> 0
         then do {
           base \<leftarrow> mm_base m;
           (st, base) \<leftarrow> wf_Append F (mm_buf m) base;
           (st, base) \<leftarrow> (if ok st then wf_Flush F base else Some (st, base));
           let m = m\<lparr>mm_base := Some base\<rparr>;
           Some (st, if ok st then m\<lparr>mm_offset := mm_offset m + word_of_nat buf_size, mm_buf := []\<rparr> else m)}
         else Some (Okay, m))"

text \<open>The loop fills the buffer and empties it; it does not end when the buffer may hold nothing.\<close>

partial_function (option) fill_loop :: "'f WritableFile \<Rightarrow> slice \<Rightarrow> 'f MinMaxBufferedWritableFile \<Rightarrow>
    (status \<times> slice \<times> 'f MinMaxBufferedWritableFile) option" where
  "fill_loop F chunk m =
     (if max_buf_size m \<le> length (mm_buf m) + length chunk
      then (let left = max_buf_size m - length (mm_buf m)
            in case EmptyBuffer F (m\<lparr>mm_buf := mm_buf m @ take left chunk\<rparr>) of
                 None \<Rightarrow> None
               | Some (st, m) \<Rightarrow> if ok st then fill_loop F (drop left chunk) m else Some (st, chunk, m))
      else Some (Okay, chunk, m))"

definition MinMax_Append :: "'f WritableFile \<Rightarrow> slice \<Rightarrow> 'f MinMaxBufferedWritableFile \<Rightarrow> (status \<times> 'f MinMaxBufferedWritableFile) option" where
  "MinMax_Append F data m = do {
     (st, chunk, m) \<leftarrow> fill_loop F data m;
     if ok st
     then (let m = (if chunk \<noteq> [] then m\<lparr>mm_buf := mm_buf m @ chunk\<rparr> else m)
           in if min_buf_size m \<le> length (mm_buf m) then EmptyBuffer F m else Some (st, m))
     else Some (st, m)}"

definition MinMax_Close :: "'f WritableFile \<Rightarrow> 'f MinMaxBufferedWritableFile \<Rightarrow> (status \<times> 'f MinMaxBufferedWritableFile) option" where
  "MinMax_Close F m = do {
     (st, m) \<leftarrow> EmptyBuffer F m;
     st \<leftarrow> (if ok st then do { base \<leftarrow> mm_base m; (st, _) \<leftarrow> wf_Close F base; Some st } else Some st);
     Some (st, m\<lparr>mm_base := None\<rparr>)}"

definition SyncBefore :: "'f WritableFile \<Rightarrow> u64 \<Rightarrow> 'f MinMaxBufferedWritableFile \<Rightarrow> (status \<times> 'f MinMaxBufferedWritableFile) option" where
  "SyncBefore F offset m = (if offset \<le> mm_offset m then Some (Okay, m) else EmptyBuffer F m)"

definition MinMax_Sync :: "'f WritableFile \<Rightarrow> 'f MinMaxBufferedWritableFile \<Rightarrow> (status \<times> 'f MinMaxBufferedWritableFile) option" where
  "MinMax_Sync F m = do {
     (st, m) \<leftarrow> EmptyBuffer F m;
     if ok st then do { base \<leftarrow> mm_base m; (st, base) \<leftarrow> wf_Sync F base; Some (st, m\<lparr>mm_base := Some base\<rparr>) } else Some (st, m)}"

definition MinMax_Flush :: "'f MinMaxBufferedWritableFile \<Rightarrow> (status \<times> 'f MinMaxBufferedWritableFile) option" where
  "MinMax_Flush m = Some (Okay, m)"

definition MinMax_file :: "'f WritableFile \<Rightarrow> 'f MinMaxBufferedWritableFile WritableFile" where
  "MinMax_file F = \<lparr>wf_Append = MinMax_Append F, wf_Close = MinMax_Close F, wf_Flush = MinMax_Flush, wf_Sync = MinMax_Sync F\<rparr>"

section \<open>Files that are counted\<close>

record WritableFileStats =
  num_syncs :: u32
  num_flushes :: u32
  ws_bytes :: u64
  ws_ops :: u64

definition WritableFileStats_Reset :: WritableFileStats where
  "WritableFileStats_Reset = \<lparr>num_syncs = 0, num_flushes = 0, ws_bytes = 0, ws_ops = 0\<rparr>"

record 'f MonitoredWritableFile =
  mw_stats :: WritableFileStats
  mw_base :: "'f option"

definition new_MonitoredWritableFile :: "'f \<Rightarrow> 'f MonitoredWritableFile" where
  "new_MonitoredWritableFile base = \<lparr>mw_stats = WritableFileStats_Reset, mw_base = Some base\<rparr>"

definition monitored :: "status \<Rightarrow> ('f \<Rightarrow> (status \<times> 'f) option) \<Rightarrow> (WritableFileStats \<Rightarrow> WritableFileStats) \<Rightarrow> 'f MonitoredWritableFile \<Rightarrow>
    (status \<times> 'f MonitoredWritableFile) option" where
  "monitored gone f upd m =
     (case mw_base m of
        None \<Rightarrow> Some (gone, m)
      | Some base \<Rightarrow> do {
          (st, base) \<leftarrow> f base;
          Some (st, m\<lparr>mw_base := Some base, mw_stats := (if ok st then upd (mw_stats m) else mw_stats m)\<rparr>)})"

definition Monitored_Flush :: "'f WritableFile \<Rightarrow> 'f MonitoredWritableFile \<Rightarrow> (status \<times> 'f MonitoredWritableFile) option" where
  "Monitored_Flush F = monitored (AssertionFailed ''base_ is empty'') (wf_Flush F) (\<lambda>s. s\<lparr>num_flushes := num_flushes s + 1\<rparr>)"

definition Monitored_Sync :: "'f WritableFile \<Rightarrow> 'f MonitoredWritableFile \<Rightarrow> (status \<times> 'f MonitoredWritableFile) option" where
  "Monitored_Sync F = monitored (AssertionFailed ''base_ is empty'') (wf_Sync F) (\<lambda>s. s\<lparr>num_syncs := num_syncs s + 1\<rparr>)"

definition Monitored_Append :: "'f WritableFile \<Rightarrow> slice \<Rightarrow> 'f MonitoredWritableFile \<Rightarrow> (status \<times> 'f MonitoredWritableFile) option" where
  "Monitored_Append F data = monitored (Err kDisconnected []) (wf_Append F data)
     (\<lambda>s. s\<lparr>ws_bytes := ws_bytes s + word_of_nat (length data), ws_ops := ws_ops s + 1\<rparr>)"

definition Monitored_Close :: "'f WritableFile \<Rightarrow> 'f MonitoredWritableFile \<Rightarrow> (status \<times> 'f MonitoredWritableFile) option" where
  "Monitored_Close F m =
     (case mw_base m of
        None \<Rightarrow> Some (Okay, m)
      | Some base \<Rightarrow> do { (st, _) \<leftarrow> wf_Close F base; Some (st, m\<lparr>mw_base := None\<rparr>) })"

definition Monitored_file :: "'f WritableFile \<Rightarrow> 'f MonitoredWritableFile WritableFile" where
  "Monitored_file F = \<lparr>wf_Append = Monitored_Append F, wf_Close = Monitored_Close F, wf_Flush = Monitored_Flush F, wf_Sync = Monitored_Sync F\<rparr>"

record 'g MonitoredSequentialFile =
  ss_bytes :: u64
  ss_ops :: u64
  ms_base :: "'g option"

definition new_MonitoredSequentialFile :: "'g \<Rightarrow> 'g MonitoredSequentialFile" where
  "new_MonitoredSequentialFile base = \<lparr>ss_bytes = 0, ss_ops = 0, ms_base = Some base\<rparr>"

definition Monitored_Read :: "'g SequentialFile \<Rightarrow> nat \<Rightarrow> 'g MonitoredSequentialFile \<Rightarrow> (status \<times> slice \<times> 'g MonitoredSequentialFile) option" where
  "Monitored_Read S n m =
     (case ms_base m of
        None \<Rightarrow> Some (AssertionFailed ''base_ is empty'', [], m)
      | Some base \<Rightarrow> do {
          (st, d, base) \<leftarrow> sf_Read S n base;
          let m = m\<lparr>ms_base := Some base\<rparr>;
          Some (st, d, if ok st then m\<lparr>ss_bytes := ss_bytes m + word_of_nat (length d), ss_ops := ss_ops m + 1\<rparr> else m)})"

definition Monitored_Skip :: "'g SequentialFile \<Rightarrow> nat \<Rightarrow> 'g MonitoredSequentialFile \<Rightarrow> (status \<times> 'g MonitoredSequentialFile) option" where
  "Monitored_Skip S n m =
     (case ms_base m of
        None \<Rightarrow> Some (AssertionFailed ''base_ is empty'', m)
      | Some base \<Rightarrow> do { (st, base) \<leftarrow> sf_Skip S n base; Some (st, m\<lparr>ms_base := Some base\<rparr>) })"

definition Monitored_seq_file :: "'g SequentialFile \<Rightarrow> 'g MonitoredSequentialFile SequentialFile" where
  "Monitored_seq_file S = \<lparr>sf_Read = Monitored_Read S, sf_Skip = Monitored_Skip S\<rparr>"

section \<open>The file in memory\<close>

record 'g WholeFile =
  wh_base :: "'g option"
  max_whole :: nat
  io_size :: nat
  wh_buf :: slice

definition new_WholeFile :: "'g \<Rightarrow> nat \<Rightarrow> nat \<Rightarrow> 'g WholeFile" where
  "new_WholeFile base buf_size io = \<lparr>wh_base = Some base, max_whole = buf_size, io_size = io, wh_buf = []\<rparr>"

text \<open>A read that returns more than it was asked for would run over the buffer.\<close>

function load_loop :: "'g SequentialFile \<Rightarrow> nat \<Rightarrow> nat \<Rightarrow> slice \<Rightarrow> 'g \<Rightarrow> (status \<times> slice) option" where
  "load_loop S io mx buf base =
     (if length buf < mx
      then (let n = min io (mx - length buf)
            in case sf_Read S n base of
                 None \<Rightarrow> None
               | Some (st, sli, base) \<Rightarrow>
                   if n < length sli then None
                   else if \<not> ok st \<or> sli = [] then Some (st, buf) else load_loop S io mx (buf @ sli) base)
      else Some (Okay, buf))"
  by pat_completeness auto
termination
proof (relation "measure (\<lambda>(S, io, mx, buf, base). mx - length buf)", goal_cases)
  case (2 S io mx buf base n a st b sli base')
  then have "0 < length sli" by simp
  then show ?case using 2(1) by (simp only: in_measure prod.case length_append)
qed simp

declare load_loop.simps [simp del]

definition Load :: "'g SequentialFile \<Rightarrow> 'g WholeFile \<Rightarrow> (status \<times> 'g WholeFile) option" where
  "Load S w = do {
     base \<leftarrow> wh_base w;
     (st, buf) \<leftarrow> load_loop S (io_size w) (max_whole w) [] base;
     Some (st, w\<lparr>wh_buf := buf, wh_base := None\<rparr>)}"

definition Whole_Read :: "u64 \<Rightarrow> nat \<Rightarrow> 'g WholeFile \<Rightarrow> (status \<times> slice) option" where
  "Whole_Read offset n w =
     (if unat offset < length (wh_buf w)
      then (let n = (if length (wh_buf w) - unat offset < n then length (wh_buf w) - unat offset else n)
            in Some (Okay, take n (drop (unat offset) (wh_buf w))))
      else Some (Okay, []))"

definition Whole_file :: "'g WholeFile RandomAccessFile" where
  "Whole_file = \<lparr>rf_Read = Whole_Read\<rparr>"

section \<open>The wrappers keep the promise\<close>

definition whole :: "('f \<Rightarrow> slice) \<Rightarrow> 'f MinMaxBufferedWritableFile \<Rightarrow> slice" where
  "whole c m = (case mm_base m of None \<Rightarrow> [] | Some b \<Rightarrow> c b) @ mm_buf m"

context writable_file
begin

lemma EmptyBuffer_ok:
  assumes "EmptyBuffer F m = Some (Okay, m')"
  shows "whole contents m' = whole contents m" and "mm_buf m' = []"
    and "min_buf_size m' = min_buf_size m" and "max_buf_size m' = max_buf_size m"
  using assms
  by (auto simp: EmptyBuffer_def whole_def Let_def ok_iff split: bind_split_asm if_splits option.splits prod.splits dest!: Append Flush)

definition filled :: "slice \<Rightarrow> 'f MinMaxBufferedWritableFile \<Rightarrow> status \<times> slice \<times> 'f MinMaxBufferedWritableFile \<Rightarrow> bool" where
  "filled chunk m r \<longleftrightarrow> (case r of (st, chunk', m') \<Rightarrow> st = Okay \<longrightarrow>
     whole contents m' @ chunk' = whole contents m @ chunk \<and> length (mm_buf m') + length chunk' < max_buf_size m' \<and>
     min_buf_size m' = min_buf_size m \<and> max_buf_size m' = max_buf_size m)"

lemma fill_loop_ok: "fill_loop F chunk m = Some r \<Longrightarrow> filled chunk m r"
proof -
  assume r: "fill_loop F chunk m = Some r"
  have "F = F \<longrightarrow> filled chunk m r"
  proof (rule fill_loop.raw_induct [where P = "\<lambda>G chunk m r. G = F \<longrightarrow> filled chunk m r", OF _ r], intro impI)
    fix fl G chunk m r
    assume IH: "\<And>G chunk m r. fl G chunk m = Some r \<Longrightarrow> G = F \<longrightarrow> filled chunk m r" and G: "G = F"
      and b: "(if max_buf_size m \<le> length (mm_buf m) + length chunk
      then let left = max_buf_size m - length (mm_buf m)
           in case EmptyBuffer G (m\<lparr>mm_buf := mm_buf m @ take left chunk\<rparr>) of None \<Rightarrow> None
              | Some (st, m) \<Rightarrow> if ok st then fl G (drop left chunk) m else Some (st, chunk, m)
      else Some (Okay, chunk, m)) = Some r"
    show "filled chunk m r"
    proof (cases "max_buf_size m \<le> length (mm_buf m) + length chunk")
      case False
      then show ?thesis using b by (auto simp: filled_def)
    next
      case True
      let ?l = "max_buf_size m - length (mm_buf m)" let ?m = "m\<lparr>mm_buf := mm_buf m @ take ?l chunk\<rparr>"
      obtain st m1 where e: "EmptyBuffer F ?m = Some (st, m1)" using b True G by (auto simp: Let_def split: option.splits)
      show ?thesis
      proof (cases "ok st")
        case False
        then have "r = (st, chunk, m1)" using b True G e by simp
        then show ?thesis using False by (auto simp: filled_def)
      next
        case ok: True
        then have "EmptyBuffer F ?m = Some (Okay, m1)" using e by (simp add: ok_iff)
        note E = EmptyBuffer_ok [OF this]
        have "filled (drop ?l chunk) m1 r" using IH [of G "drop ?l chunk" m1 r] b True G e ok by simp
        moreover have "whole contents ?m @ drop ?l chunk = whole contents m @ chunk" by (simp add: whole_def split: option.splits)
        ultimately show ?thesis using E by (auto simp: filled_def)
      qed
    qed
  qed
  then show ?thesis by simp
qed

lemma MinMax_Append_ok:
  assumes "MinMax_Append F d m = Some (Okay, m')"
  shows "whole contents m' = whole contents m @ d" and "mm_buf m' = [] \<or> length (mm_buf m') < min_buf_size m'"
    and "min_buf_size m' = min_buf_size m" and "max_buf_size m' = max_buf_size m"
proof -
  obtain st chunk m1 where f: "fill_loop F d m = Some (st, chunk, m1)" using assms by (auto simp: MinMax_Append_def split: bind_split_asm)
  have st: "ok st" using assms f by (auto simp: MinMax_Append_def split: if_splits)
  let ?m = "if chunk \<noteq> [] then m1\<lparr>mm_buf := mm_buf m1 @ chunk\<rparr> else m1"
  have w: "whole contents ?m = whole contents m @ d" "min_buf_size ?m = min_buf_size m" "max_buf_size ?m = max_buf_size m"
    using fill_loop_ok [OF f] st by (auto simp: filled_def whole_def ok_iff split: option.splits)
  have r: "(if min_buf_size ?m \<le> length (mm_buf ?m) then EmptyBuffer F ?m else Some (st, ?m)) = Some (Okay, m')"
    using assms f st by (simp add: MinMax_Append_def Let_def)
  show "whole contents m' = whole contents m @ d" "mm_buf m' = [] \<or> length (mm_buf m') < min_buf_size m'"
    "min_buf_size m' = min_buf_size m" "max_buf_size m' = max_buf_size m"
    using r w EmptyBuffer_ok [of ?m m'] by (cases "min_buf_size ?m \<le> length (mm_buf ?m)"; simp)+
qed

end

text \<open>The buffered and the counted file are writable files again.\<close>

theorem buffered_writable:
  assumes "writable_file F c"
  shows "writable_file (MinMax_file F) (whole c)"
proof unfold_locales
  fix d m m' assume "wf_Append (MinMax_file F) d m = Some (Okay, m')"
  then show "whole c m' = whole c m @ d" using writable_file.MinMax_Append_ok(1) [OF assms] by (simp add: MinMax_file_def)
next
  fix m m' assume "wf_Flush (MinMax_file F) m = Some (Okay, m')"
  then show "whole c m' = whole c m" by (simp add: MinMax_file_def MinMax_Flush_def)
next
  fix m m' assume "wf_Sync (MinMax_file F) m = Some (Okay, m')"
  then obtain m1 where e: "EmptyBuffer F m = Some (Okay, m1)"
    and "(do { base \<leftarrow> mm_base m1; (st, base) \<leftarrow> wf_Sync F base; Some (st, m1\<lparr>mm_base := Some base\<rparr>) }) = Some (Okay, m')"
    by (auto simp: MinMax_file_def MinMax_Sync_def ok_iff split: bind_split_asm if_splits)
  then have "whole c m' = whole c m1" by (auto simp: whole_def split: bind_split_asm dest: writable_file.Sync [OF assms])
  then show "whole c m' = whole c m" using writable_file.EmptyBuffer_ok(1) [OF assms e] by simp
qed

definition behind :: "('f \<Rightarrow> slice) \<Rightarrow> 'f MonitoredWritableFile \<Rightarrow> slice" where
  "behind c m = (case mw_base m of None \<Rightarrow> [] | Some b \<Rightarrow> c b)"

theorem counted_writable:
  assumes "writable_file F c"
  shows "writable_file (Monitored_file F) (behind c)"
  by unfold_locales
    (auto simp: Monitored_file_def Monitored_Append_def Monitored_Flush_def Monitored_Sync_def monitored_def behind_def
      split: option.splits bind_split_asm
      dest!: writable_file.Append [OF assms] writable_file.Flush [OF assms] writable_file.Sync [OF assms])

definition ahead :: "('g \<Rightarrow> slice) \<Rightarrow> 'g MonitoredSequentialFile \<Rightarrow> slice" where
  "ahead r m = (case ms_base m of None \<Rightarrow> [] | Some b \<Rightarrow> r b)"

theorem counted_sequential:
  assumes "sequential_file S r"
  shows "sequential_file (Monitored_seq_file S) (ahead r)"
  by unfold_locales
    (auto simp: Monitored_seq_file_def Monitored_Read_def Monitored_Skip_def ahead_def Let_def
      split: option.splits bind_split_asm if_splits dest!: sequential_file.Read [OF assms] sequential_file.Skip [OF assms])

section \<open>Files in memory\<close>

text \<open>The bytes that were written; the bytes still to be read.\<close>

definition mem_file :: "slice WritableFile" where
  "mem_file = \<lparr>wf_Append = (\<lambda>d f. Some (Okay, f @ d)), wf_Close = (\<lambda>f. Some (Okay, f)), wf_Flush = (\<lambda>f. Some (Okay, f)),
     wf_Sync = (\<lambda>f. Some (Okay, f))\<rparr>"

definition mem_seq_file :: "slice SequentialFile" where
  "mem_seq_file = \<lparr>sf_Read = (\<lambda>n g. Some (Okay, take n g, drop n g)), sf_Skip = (\<lambda>n g. Some (Okay, drop n g))\<rparr>"

interpretation mem: writable_file mem_file "\<lambda>f. f"
  by unfold_locales (auto simp: mem_file_def)

interpretation buffered: writable_file "MinMax_file mem_file" "whole (\<lambda>f. f)"
  by (rule buffered_writable) (rule mem.writable_file_axioms)

interpretation counted: writable_file "Monitored_file mem_file" "behind (\<lambda>f. f)"
  by (rule counted_writable) (rule mem.writable_file_axioms)

interpretation mem_seq: sequential_file mem_seq_file "\<lambda>g. g"
  by unfold_locales (auto simp: mem_seq_file_def)

interpretation counted_seq: sequential_file "Monitored_seq_file mem_seq_file" "ahead (\<lambda>g. g)"
  by (rule counted_sequential) (rule mem_seq.sequential_file_axioms)

end
