(* ===== verification/Log_File.thy ===== *)
theory Log_File
  imports Crc32c Env_Files
begin

text \<open>
  \<^verbatim>\<open>log_format.h\<close>, \<^verbatim>\<open>log_writer.cc\<close>, \<^verbatim>\<open>log_reader.cc\<close> and \<^verbatim>\<open>log_scanner.h\<close>: logs of records, in blocks of 32768 bytes. A
  record is written as fragments that do not cross a block; a block ends with zeros when there is no room for a header.
  Checksums do not depend on where a buffer lies (\<open>Crc32c.crc32c_implementations\<close>), so the address is 0 here.
\<close>

section \<open>Format\<close>

datatype RecordType = kZeroType | kFullType | kFirstType | kMiddleType | kLastType

fun type_value :: "RecordType \<Rightarrow> nat" where
  "type_value kZeroType = 0"
| "type_value kFullType = 1"
| "type_value kFirstType = 2"
| "type_value kMiddleType = 3"
| "type_value kLastType = 4"

definition kMaxRecordType :: nat where "kMaxRecordType = type_value kLastType"

definition kBlockSize :: nat where "kBlockSize = 32768"

definition kHeaderSize :: nat where "kHeaderSize = 4 + 2 + 1"

section \<open>Writer\<close>

text \<open>\<^verbatim>\<open>offset_\<close> is an \<^verbatim>\<open>int\<close>.\<close>

record log_writer =
  block_offset :: nat
  w_offset :: int
  type_crc :: "u32 list"

definition InitTypeCrc :: "cpu \<Rightarrow> u32 list" where
  "InitTypeCrc C = map (\<lambda>i. Crc_Value C 0 [word_of_nat i]) [0..<kMaxRecordType + 1]"

text \<open>The first constructor leaves \<^verbatim>\<open>offset_\<close> as it is found, which is the argument \<open>u\<close>.\<close>

definition new_Writer :: "cpu \<Rightarrow> int \<Rightarrow> log_writer" where
  "new_Writer C u = \<lparr>block_offset = 0, w_offset = u, type_crc = InitTypeCrc C\<rparr>"

definition new_Writer_at :: "cpu \<Rightarrow> u64 \<Rightarrow> log_writer" where
  "new_Writer_at C dest_length =
     \<lparr>block_offset = unat dest_length mod kBlockSize, w_offset = sint (ucast dest_length :: u32), type_crc = InitTypeCrc C\<rparr>"

definition CurrentOffset :: "log_writer \<Rightarrow> u64" where
  "CurrentOffset w = word_of_int (w_offset w)"

definition log_header :: "u32 \<Rightarrow> RecordType \<Rightarrow> nat \<Rightarrow> slice" where
  "log_header crc t n = EncodeFixed32 crc @ [word_of_nat (n mod 256), word_of_nat (n div 256), word_of_nat (type_value t)]"

definition EmitPhysicalRecord :: "cpu \<Rightarrow> 'f WritableFile \<Rightarrow> RecordType \<Rightarrow> slice \<Rightarrow> log_writer \<Rightarrow> 'f \<Rightarrow> (status \<times> log_writer \<times> 'f) option" where
  "EmitPhysicalRecord C F t ptr w f =
     (let n = length ptr
      in if 0xffff < n \<or> kBlockSize < block_offset w + kHeaderSize + n then None
         else do {
           let crc = Mask (Extend C 0 (type_crc w ! type_value t) ptr);
           (st, f) \<leftarrow> wf_Append F (log_header crc t n) f;
           (st, f) \<leftarrow> (if ok st
             then do { (st, f) \<leftarrow> wf_Append F ptr f; if ok st then wf_Flush F f else Some (st, f) }
             else Some (st, f));
           Some (st, w\<lparr>block_offset := block_offset w + kHeaderSize + n, w_offset := w_offset w + int (kHeaderSize + n)\<rparr>, f)})"

text \<open>The first part of a turn of the loop: a block without room for a header is filled up.\<close>

definition switch_block :: "'f WritableFile \<Rightarrow> log_writer \<Rightarrow> 'f \<Rightarrow> (status \<times> log_writer \<times> 'f) option" where
  "switch_block F w f =
     (if kBlockSize < block_offset w then None
      else
        (let leftover = kBlockSize - block_offset w
         in if leftover < kHeaderSize
            then do {
              (st, f) \<leftarrow> (if 0 < leftover then wf_Append F (replicate leftover 0) f else Some (Okay, f));
              Some (st, w\<lparr>block_offset := 0, w_offset := w_offset w + int leftover\<rparr>, f)}
            else Some (Okay, w, f)))"

definition fragment_type :: "bool \<Rightarrow> bool \<Rightarrow> RecordType" where
  "fragment_type begins ends =
     (if begins \<and> ends then kFullType else if begins then kFirstType else if ends then kLastType else kMiddleType)"

lemma switch_block_room: "switch_block F w f = Some (st, w', f') \<Longrightarrow>
    block_offset w' = (if kBlockSize - block_offset w < kHeaderSize then 0 else block_offset w) \<and> block_offset w \<le> kBlockSize"
  by (auto simp: switch_block_def Let_def split: if_splits bind_split_asm)

lemma EmitPhysicalRecord_offset: "EmitPhysicalRecord C F t ptr w f = Some (st, w', f') \<Longrightarrow>
    block_offset w' = block_offset w + kHeaderSize + length ptr \<and> block_offset w' \<le> kBlockSize"
  by (auto simp: EmitPhysicalRecord_def Let_def split: if_splits bind_split_asm)

function add_loop :: "cpu \<Rightarrow> 'f WritableFile \<Rightarrow> bool \<Rightarrow> slice \<Rightarrow> log_writer \<Rightarrow> 'f \<Rightarrow> (status \<times> log_writer \<times> 'f) option" where
  "add_loop C F begins ptr w f =
     (case switch_block F w f of
        None \<Rightarrow> None
      | Some (st, w, f) \<Rightarrow>
          if \<not> ok st then Some (st, w, f)
          else if kBlockSize < block_offset w + kHeaderSize then None
          else
            (let avail = kBlockSize - block_offset w - kHeaderSize;
                 fragment_length = (if length ptr < avail then length ptr else avail);
                 t = fragment_type begins (length ptr = fragment_length)
             in case EmitPhysicalRecord C F t (take fragment_length ptr) w f of
                  None \<Rightarrow> None
                | Some (st, w, f) \<Rightarrow>
                    if ok st \<and> drop fragment_length ptr \<noteq> [] then add_loop C F False (drop fragment_length ptr) w f
                    else Some (st, w, f)))"
  by pat_completeness auto
termination
proof (relation "measure (\<lambda>(C, F, begins, ptr, w, f). 2 * length ptr + (if kBlockSize - block_offset w = kHeaderSize then 1 else 0))",
    goal_cases)
  case (2 C F begins ptr w f r st wf w1 f1 avail n t r2 st2 wf2 w2 f2)
  have s: "block_offset w1 = (if kBlockSize - block_offset w < kHeaderSize then 0 else block_offset w)"
    using switch_block_room [of F w f st w1 f1] 2 by auto
  have e: "block_offset w2 = block_offset w1 + kHeaderSize + length (take n ptr)" "block_offset w2 \<le> kBlockSize"
    using EmitPhysicalRecord_offset [of C F t "take n ptr" w1 f1 st2 w2 f2] 2 by auto
  have n: "n < length ptr" "n = avail" "avail = kBlockSize - block_offset w1 - kHeaderSize" using 2 by (auto split: if_splits)
  then have "block_offset w2 = kBlockSize" using e 2 by (simp add: min_def)
  then have l: "(if kBlockSize - block_offset w2 = kHeaderSize then 1 else 0) = (0 :: nat)" by (simp add: kHeaderSize_def)
  show ?case
  proof (cases "n = 0")
    case True
    then have "kBlockSize - block_offset w = kHeaderSize"
      using n s 2 by (auto simp: kBlockSize_def kHeaderSize_def split: if_splits)
    then show ?thesis using l True n by simp
  next
    case False
    then show ?thesis using l n by (simp split: if_splits)
  qed
qed simp

declare add_loop.simps [simp del]

definition AddRecord :: "cpu \<Rightarrow> 'f WritableFile \<Rightarrow> slice \<Rightarrow> log_writer \<Rightarrow> 'f \<Rightarrow> (status \<times> log_writer \<times> 'f) option" where
  "AddRecord C F s w f = add_loop C F True s w f"

definition Writer_Sync :: "'f WritableFile \<Rightarrow> 'f \<Rightarrow> (status \<times> 'f) option" where
  "Writer_Sync F f = wf_Sync F f"

section \<open>Reader\<close>

text \<open>
  The reader with its file; \<open>reports\<close> is what the reporter was told, \<open>None\<close> when there is no reporter. A type read from
  the file is a \<^verbatim>\<open>char\<close> that is made an \<^verbatim>\<open>unsigned int\<close>.
\<close>

record 'g log_reader =
  lr_file :: 'g
  reports :: "(nat \<times> status) list option"
  lr_checksum :: bool
  lr_buffer :: slice
  lr_eof :: bool
  last_record_offset :: u64
  end_of_buffer_offset :: u64
  initial_offset :: u64
  resyncing :: bool

definition new_Reader :: "'g \<Rightarrow> bool \<Rightarrow> bool \<Rightarrow> u64 \<Rightarrow> 'g log_reader" where
  "new_Reader file reporter checksum initial =
     \<lparr>lr_file = file, reports = (if reporter then Some [] else None), lr_checksum = checksum, lr_buffer = [], lr_eof = False,
      last_record_offset = 0, end_of_buffer_offset = 0, initial_offset = initial, resyncing = (0 < initial)\<rparr>"

definition kEof :: u32 where "kEof = word_of_nat (kMaxRecordType + 1)"

definition kBadRecord :: u32 where "kBadRecord = word_of_nat (kMaxRecordType + 2)"

definition ReportDrop :: "nat \<Rightarrow> status \<Rightarrow> 'g log_reader \<Rightarrow> 'g log_reader" where
  "ReportDrop bytes reason r =
     (case reports r of
        None \<Rightarrow> r
      | Some rs \<Rightarrow>
          if initial_offset r \<le> end_of_buffer_offset r - word_of_nat (length (lr_buffer r)) - word_of_nat bytes
          then r\<lparr>reports := Some (rs @ [(bytes, reason)])\<rparr> else r)"

definition ReportCorruption :: "nat \<Rightarrow> string \<Rightarrow> 'g log_reader \<Rightarrow> 'g log_reader" where
  "ReportCorruption bytes reason r = ReportDrop bytes (Corruption reason) r"

definition SetReporter :: "bool \<Rightarrow> 'g log_reader \<Rightarrow> 'g log_reader" where
  "SetReporter reporter r = r\<lparr>reports := (if reporter then Some [] else None)\<rparr>"

definition LastRecordOffset :: "'g log_reader \<Rightarrow> u64" where
  "LastRecordOffset r = last_record_offset r"

definition SkipToInitialBlock :: "'g SequentialFile \<Rightarrow> 'g log_reader \<Rightarrow> (bool \<times> 'g log_reader) option" where
  "SkipToInitialBlock S r =
     (let offset_in_block = unat (initial_offset r) mod kBlockSize;
          start = initial_offset r - word_of_nat offset_in_block;
          start = (if kBlockSize - 6 < offset_in_block then start + word_of_nat kBlockSize else start);
          r = r\<lparr>end_of_buffer_offset := start\<rparr>
      in if 0 < start
         then do {
           (st, f) \<leftarrow> sf_Skip S (unat start) (lr_file r);
           let r = r\<lparr>lr_file := f\<rparr>;
           Some (if ok st then (True, r) else (False, ReportDrop (unat start) st r))}
         else Some (True, r))"

text \<open>What happens when the buffer holds a header.\<close>

definition parse_physical :: "cpu \<Rightarrow> slice \<Rightarrow> 'g log_reader \<Rightarrow> (u32 \<times> slice) \<times> 'g log_reader" where
  "parse_physical C result r =
     (let header = lr_buffer r;
          a = (ucast (header ! 4) :: u32); b = ucast (header ! 5);
          type = (scast (header ! 6) :: u32);
          len = unat (a OR push_bit 8 b)
      in if length (lr_buffer r) < kHeaderSize + len
         then (let drop_size = length (lr_buffer r); r = r\<lparr>lr_buffer := []\<rparr>
               in if \<not> lr_eof r then ((kBadRecord, result), ReportCorruption drop_size ''bad record length'' r) else ((kEof, result), r))
         else if type = 0 \<and> len = 0 then ((kBadRecord, result), r\<lparr>lr_buffer := []\<rparr>)
         else if lr_checksum r \<and> Crc_Value C 0 (take (1 + len) (drop 6 header)) \<noteq> Unmask (DecodeFixed32 header)
         then (let drop_size = length (lr_buffer r); r = r\<lparr>lr_buffer := []\<rparr>
               in ((kBadRecord, result), ReportCorruption drop_size ''checksum mismatch'' r))
         else
           (let r = r\<lparr>lr_buffer := drop (kHeaderSize + len) (lr_buffer r)\<rparr>
            in if end_of_buffer_offset r - word_of_nat (length (lr_buffer r)) - word_of_nat kHeaderSize - word_of_nat len < initial_offset r
               then ((kBadRecord, []), r)
               else ((type, take len (drop kHeaderSize header)), r)))"

text \<open>A turn that reads a block either fills the buffer or sets \<^verbatim>\<open>eof_\<close>. \<open>result\<close> is the argument that some results leave as it is.\<close>

function ReadPhysicalRecord :: "cpu \<Rightarrow> 'g SequentialFile \<Rightarrow> slice \<Rightarrow> 'g log_reader \<Rightarrow> ((u32 \<times> slice) \<times> 'g log_reader) option" where
  "ReadPhysicalRecord C S result r =
     (if length (lr_buffer r) < kHeaderSize
      then (if \<not> lr_eof r
            then (case sf_Read S kBlockSize (lr_file r) of
                    None \<Rightarrow> None
                  | Some (st, buf, f) \<Rightarrow>
                      (let r = r\<lparr>lr_file := f, lr_buffer := buf, end_of_buffer_offset := end_of_buffer_offset r + word_of_nat (length buf)\<rparr>
                       in if \<not> ok st
                          then Some ((kEof, result), (ReportDrop kBlockSize st (r\<lparr>lr_buffer := []\<rparr>))\<lparr>lr_eof := True\<rparr>)
                          else ReadPhysicalRecord C S result (if length buf < kBlockSize then r\<lparr>lr_eof := True\<rparr> else r)))
            else Some ((kEof, result), r\<lparr>lr_buffer := []\<rparr>))
      else Some (parse_physical C result r))"
  by pat_completeness auto
termination
  by (relation "measure (\<lambda>(C, S, res, r). if length (lr_buffer r) < kHeaderSize then if lr_eof r then 1 else 2 else 0)")
    (auto simp: Let_def kBlockSize_def kHeaderSize_def)

declare ReadPhysicalRecord.simps [simp del]

text \<open>
  The loop over the fragments of a record. A turn ends the loop with its result or goes on with new values of
  \<^verbatim>\<open>in_fragmented_record\<close>, \<^verbatim>\<open>*scratch\<close>, \<^verbatim>\<open>prospective_record_offset\<close> and \<^verbatim>\<open>fragment\<close>. Each turn takes something from
  the file, but a file may have no end.
\<close>

type_synonym loop_vars = "bool \<times> slice \<times> u64 \<times> slice"

definition record_turn :: "u32 \<Rightarrow> bool \<Rightarrow> slice \<Rightarrow> u64 \<Rightarrow> slice \<Rightarrow> 'g log_reader \<Rightarrow> (loop_vars + (bool \<times> slice)) \<times> 'g log_reader" where
  "record_turn t in_fragmented scratch prospective fragment r =
     (let physical = end_of_buffer_offset r - word_of_nat (length (lr_buffer r)) - word_of_nat kHeaderSize - word_of_nat (length fragment)
      in if resyncing r \<and> t = word_of_nat (type_value kMiddleType) then (Inl (in_fragmented, scratch, prospective, fragment), r)
         else if resyncing r \<and> t = word_of_nat (type_value kLastType)
         then (Inl (in_fragmented, scratch, prospective, fragment), r\<lparr>resyncing := False\<rparr>)
         else
           (let r = r\<lparr>resyncing := False\<rparr>
            in if t = word_of_nat (type_value kFullType)
               then (let r = (if in_fragmented \<and> scratch \<noteq> [] then ReportCorruption (length scratch) ''partial record without end(1)'' r else r)
                     in (Inr (True, fragment), r\<lparr>last_record_offset := physical\<rparr>))
               else if t = word_of_nat (type_value kFirstType)
               then (let r = (if in_fragmented \<and> scratch \<noteq> [] then ReportCorruption (length scratch) ''partial record without end(2)'' r else r)
                     in (Inl (True, fragment, physical, fragment), r))
               else if t = word_of_nat (type_value kMiddleType)
               then (if \<not> in_fragmented
                     then (Inl (in_fragmented, scratch, prospective, fragment),
                           ReportCorruption (length fragment) ''missing start of fragmented record(1)'' r)
                     else (Inl (in_fragmented, scratch @ fragment, prospective, fragment), r))
               else if t = word_of_nat (type_value kLastType)
               then (if \<not> in_fragmented
                     then (Inl (in_fragmented, scratch, prospective, fragment),
                           ReportCorruption (length fragment) ''missing start of fragmented record(2)'' r)
                     else (Inr (True, scratch @ fragment), r\<lparr>last_record_offset := prospective\<rparr>))
               else if t = kEof then (Inr (False, []), r)
               else if t = kBadRecord
               then (if in_fragmented
                     then (Inl (False, [], prospective, fragment), ReportCorruption (length scratch) ''error in middle of record'' r)
                     else (Inl (in_fragmented, scratch, prospective, fragment), r))
               else (Inl (False, [], prospective, fragment),
                     ReportCorruption (length fragment + (if in_fragmented then length scratch else 0))
                       (''unknown record type '' @ decimal (unat t)) r)))"

partial_function (option) record_loop :: "cpu \<Rightarrow> 'g SequentialFile \<Rightarrow> loop_vars \<Rightarrow> 'g log_reader \<Rightarrow> ((bool \<times> slice) \<times> 'g log_reader) option" where
  "record_loop C S v r =
     (case v of (in_fragmented, scratch, prospective, fragment) \<Rightarrow>
        (case ReadPhysicalRecord C S fragment r of
           None \<Rightarrow> None
         | Some x \<Rightarrow>
             (case record_turn (fst (fst x)) in_fragmented scratch prospective (snd (fst x)) (snd x) of
                (Inr result, r) \<Rightarrow> Some (result, r)
              | (Inl v, r) \<Rightarrow> record_loop C S v r)))"

text \<open>When the file cannot be skipped forward, \<^verbatim>\<open>*record\<close> stays as it is.\<close>

definition ReadRecord :: "cpu \<Rightarrow> 'g SequentialFile \<Rightarrow> bool \<Rightarrow> slice \<Rightarrow> 'g log_reader \<Rightarrow> ((bool \<times> slice) \<times> 'g log_reader) option" where
  "ReadRecord C S clean_eof record r = do {
     (go, r) \<leftarrow> (if last_record_offset r < initial_offset r then SkipToInitialBlock S r else Some (True, r));
     if \<not> go then Some ((False, record), r)
     else record_loop C S (False, [], 0, []) (if clean_eof then r\<lparr>lr_eof := False\<rparr> else r)}"

section \<open>Scanner\<close>

text \<open>The reporter of a scanner keeps the first status it is told.\<close>

record 'g log_scanner =
  sc_status :: status
  sc_record :: slice
  sc_reader :: "'g log_reader"
  sc_eof :: bool

definition first_report :: "status \<Rightarrow> (nat \<times> status) list option \<Rightarrow> status" where
  "first_report st rs = foldl (\<lambda>st r. if ok st then snd r else st) st (case rs of None \<Rightarrow> [] | Some rs \<Rightarrow> rs)"

definition Scanner_Next :: "cpu \<Rightarrow> 'g SequentialFile \<Rightarrow> 'g log_scanner \<Rightarrow> 'g log_scanner option" where
  "Scanner_Next C S sc = do {
     ((more_data, rec), r) \<leftarrow> ReadRecord C S False (sc_record sc) (sc_reader sc);
     Some (sc\<lparr>sc_status := first_report (sc_status sc) (reports r), sc_record := rec, sc_reader := r, sc_eof := \<not> more_data\<rparr>)}"

definition new_Scanner :: "cpu \<Rightarrow> 'g SequentialFile \<Rightarrow> 'g \<Rightarrow> bool \<Rightarrow> u64 \<Rightarrow> 'g log_scanner option" where
  "new_Scanner C S file checksum initial =
     Scanner_Next C S \<lparr>sc_status = Okay, sc_record = [], sc_reader = new_Reader file True checksum initial, sc_eof = False\<rparr>"

definition Scanner_Valid :: "'g log_scanner \<Rightarrow> bool" where
  "Scanner_Valid sc \<longleftrightarrow> ok (sc_status sc) \<and> \<not> sc_eof sc"

section \<open>What the bytes of a log mean\<close>

text \<open>
  At offset \<open>o\<close> of a block the next fragment comes after \<open>pad\<close> zeros and starts at offset \<open>start\<close>. \<open>pieces\<close> are the
  fragments of a record: the zeros before it, its type and its data.
\<close>

definition pad :: "nat \<Rightarrow> nat" where
  "pad off = (if kBlockSize - off < kHeaderSize then kBlockSize - off else 0)"

definition start :: "nat \<Rightarrow> nat" where
  "start off = (if kBlockSize - off < kHeaderSize then 0 else off)"

definition room :: "nat \<Rightarrow> nat" where
  "room off = kBlockSize - start off - kHeaderSize"

function pieces :: "nat \<Rightarrow> bool \<Rightarrow> slice \<Rightarrow> (nat \<times> RecordType \<times> slice) list" where
  "pieces off begins d =
     (pad off, fragment_type begins (length d \<le> room off), take (room off) d) #
     (if length d \<le> room off then [] else pieces kBlockSize False (drop (room off) d))"
  by pat_completeness auto
termination
proof (relation "measure (\<lambda>(off, begins, d). 2 * length d + (if off = kBlockSize then 0 else 1))", goal_cases)
  case (2 off begins d)
  have "off = kBlockSize \<Longrightarrow> 0 < room off" by (simp add: room_def start_def kBlockSize_def kHeaderSize_def)
  then show ?case using 2 by auto
qed simp

declare pieces.simps [simp del]

lemma pieces_step:
  "pieces off begins d = (pad off, fragment_type begins (length d \<le> room off), take (room off) d) #
     (if length d \<le> room off then [] else pieces kBlockSize False (drop (room off) d))"
  by (rule pieces.simps)

definition phys :: "RecordType \<Rightarrow> slice \<Rightarrow> slice" where
  "phys t d = log_header (Mask (crc32c 0 (word_of_nat (type_value t) # d))) t (length d) @ d"

definition piece_bytes :: "nat \<times> RecordType \<times> slice \<Rightarrow> slice" where
  "piece_bytes p = (case p of (n, t, d) \<Rightarrow> replicate n 0 @ phys t d)"

definition piece_end :: "nat \<Rightarrow> nat \<times> RecordType \<times> slice \<Rightarrow> nat" where
  "piece_end off p = start off + kHeaderSize + length (snd (snd p))"

definition pieces_bytes :: "(nat \<times> RecordType \<times> slice) list \<Rightarrow> slice" where
  "pieces_bytes ps = concat (map piece_bytes ps)"

definition cpu_ok :: "cpu \<Rightarrow> bool" where
  "cpu_ok C \<longleftrightarrow> (CanAccelerateCrc32c C \<longrightarrow> sse42 (crc32b C) (crc32q C))"

lemma Extend_crc32c: "cpu_ok C \<Longrightarrow> Extend C addr crc buf = crc32c crc buf"
  using ExtendSW_crc32c ExtendHW_crc32c by (simp add: Extend_def cpu_ok_def)

lemma InitTypeCrc_nth: "cpu_ok C \<Longrightarrow> InitTypeCrc C ! type_value t = crc32c 0 [word_of_nat (type_value t)]"
  by (cases t) (simp_all add: InitTypeCrc_def kMaxRecordType_def Crc_Value_def Extend_crc32c nth_append del: upt_Suc)

lemma block_simps [simp]: "start off \<le> kBlockSize - kHeaderSize" "start kBlockSize = 0" "pad kBlockSize = 0" "start 0 = 0" "pad 0 = 0"
  by (auto simp: start_def pad_def kBlockSize_def kHeaderSize_def)

lemma room_fits: "start off + kHeaderSize + room off = kBlockSize"
  by (auto simp: room_def start_def kBlockSize_def kHeaderSize_def)

lemma length_log_header [simp]: "length (log_header c t n) = kHeaderSize"
  by (simp add: log_header_def kHeaderSize_def EncodeFixed32_def)

lemma length_phys [simp]: "length (phys t d) = kHeaderSize + length d"
  by (simp add: phys_def)

section \<open>The writer appends the pieces\<close>

context writable_file
begin

lemma switch_block_ok:
  assumes "switch_block F w f = Some (Okay, w', f')"
  shows "contents f' = contents f @ replicate (pad (block_offset w)) 0" and "block_offset w' = start (block_offset w)" and "type_crc w' = type_crc w"
  using assms by (auto simp: switch_block_def Let_def pad_def start_def split: if_splits bind_split_asm dest!: Append)

lemma EmitPhysicalRecord_ok:
  assumes C: "cpu_ok C" and w: "type_crc w = InitTypeCrc C" and e: "EmitPhysicalRecord C F t d w f = Some (Okay, w', f')"
  shows "contents f' = contents f @ phys t d" and "block_offset w' = block_offset w + kHeaderSize + length d" and "type_crc w' = type_crc w"
proof -
  have c: "Extend C 0 (type_crc w ! type_value t) d = crc32c 0 (word_of_nat (type_value t) # d)"
    using crc32c_append [of 0 "[word_of_nat (type_value t)]" d] by (simp add: Extend_crc32c [OF C] w InitTypeCrc_nth [OF C])
  show "contents f' = contents f @ phys t d" "block_offset w' = block_offset w + kHeaderSize + length d" "type_crc w' = type_crc w"
    using e by (auto simp: EmitPhysicalRecord_def Let_def c phys_def ok_iff split: if_splits bind_split_asm dest!: Append Flush)
qed

lemma add_loop_turn:
  assumes "switch_block F w f = Some (Okay, w1, f1)" and "block_offset w1 = start off"
  shows "add_loop C F begins d w f =
    (case EmitPhysicalRecord C F (fragment_type begins (length d \<le> room off)) (take (room off) d) w1 f1 of
       None \<Rightarrow> None
     | Some (st, w, f) \<Rightarrow> if ok st \<and> \<not> length d \<le> room off then add_loop C F False (drop (room off) d) w f else Some (st, w, f))"
proof -
  let ?off = off
  have r: "kBlockSize - block_offset w1 - kHeaderSize = room ?off" "\<not> kBlockSize < block_offset w1 + kHeaderSize"
    using room_fits [of ?off] by (simp_all add: assms(2) room_def)
  have n: "take (if length d < room ?off then length d else room ?off) d = take (room ?off) d"
    "drop (if length d < room ?off then length d else room ?off) d = drop (room ?off) d"
    "(length d = (if length d < room ?off then length d else room ?off)) = (length d \<le> room ?off)"
    "(drop (room ?off) d \<noteq> []) = (\<not> length d \<le> room ?off)"
    by auto
  show ?thesis
    unfolding add_loop.simps [of C F begins d w f] assms(1) option.case prod.case Let_def r(1) n using r(2) by simp
qed

lemma add_loop_ok:
  "add_loop C F begins d w f = Some (Okay, w', f') \<Longrightarrow> off = block_offset w \<Longrightarrow> cpu_ok C \<Longrightarrow> type_crc w = InitTypeCrc C \<Longrightarrow>
    contents f' = contents f @ pieces_bytes (pieces off begins d) \<and> type_crc w' = InitTypeCrc C \<and>
    block_offset w' = foldl piece_end off (pieces off begins d)"
proof (induction off begins d arbitrary: w f w' f' rule: pieces.induct)
  case (1 off begins d)
  note C = 1(4) and crc = 1(5) and off = 1(3)
  obtain st w1 f1 where s: "switch_block F w f = Some (st, w1, f1)"
    using 1(2) by (auto simp: add_loop.simps [of C F begins d w f] split: option.splits)
  have "st = Okay" using 1(2) s by (auto simp: add_loop.simps [of C F begins d w f] ok_iff split: if_splits)
  note s = s [unfolded this]
  note S = switch_block_ok [OF s, folded off]
  let ?t = "fragment_type begins (length d \<le> room off)" let ?d = "take (room off) d"
  have b: "(case EmitPhysicalRecord C F ?t ?d w1 f1 of None \<Rightarrow> None
      | Some (st, w, f) \<Rightarrow> if ok st \<and> \<not> length d \<le> room off then add_loop C F False (drop (room off) d) w f else Some (st, w, f)) =
      Some (Okay, w', f')"
    using 1(2) add_loop_turn [OF s S(2), of C begins d] by (simp only:)
  then obtain st2 w2 f2 where e: "EmitPhysicalRecord C F ?t ?d w1 f1 = Some (st2, w2, f2)" by (auto split: option.splits)
  have ok2: "st2 = Okay" using b e by (auto simp: ok_iff split: if_splits)
  have "type_crc w1 = InitTypeCrc C" using S crc by simp
  note E = EmitPhysicalRecord_ok [OF C this e [unfolded ok2]]
  show ?case
  proof (cases "length d \<le> room off")
    case True
    then have "w' = w2" "f' = f2" using b e by (auto simp: ok2)
    then show ?thesis
      using True E S crc by (simp add: pieces_step [of off] pieces_bytes_def piece_bytes_def piece_end_def)
  next
    case False
    then have l: "add_loop C F False (drop (room off) d) w2 f2 = Some (Okay, w', f')" using b e by (simp add: ok2)
    have "kBlockSize = block_offset w2" using E(2) S(2) False room_fits [of off] by simp
    moreover have "type_crc w2 = InitTypeCrc C" using E S crc by simp
    moreover have "piece_end off (pad off, ?t, ?d) = kBlockSize" using False room_fits [of off] by (simp add: piece_end_def)
    ultimately show ?thesis
      using 1(1) [OF False l _ C] False E S by (simp add: pieces_step [of off] pieces_bytes_def piece_bytes_def)
  qed
qed

end

section \<open>One fragment is read\<close>

definition reads_ok :: "'g SequentialFile \<Rightarrow> bool" where
  "reads_ok S \<longleftrightarrow> (\<forall>n g. \<exists>d g'. sf_Read S n g = Some (Okay, d, g'))"

lemma scast_type: "(scast (word_of_nat (type_value t) :: byte) :: u32) = word_of_nat (type_value t)"
  by (cases t) simp_all

lemma header_length:
  assumes "n < 65536"
  shows "unat ((ucast (word_of_nat (n mod 256) :: byte) :: u32) OR push_bit 8 (ucast (word_of_nat (n div 256) :: byte))) = n"
proof -
  have n: "n mod 256 = take_bit 8 n" "n div 256 = drop_bit 8 n" "n = take_bit 16 n"
    using assms by (simp_all add: take_bit_eq_mod drop_bit_eq_div)
  have "(ucast (word_of_nat (take_bit 8 n) :: byte) :: u32) OR push_bit 8 (ucast (word_of_nat (drop_bit 8 n) :: byte)) = word_of_nat n"
  proof (rule bit_word_eqI)
    fix i assume "i < LENGTH(32)"
    moreover have "bit n i \<longleftrightarrow> i < 16 \<and> bit n i" by (subst (1) n(3)) (simp add: bit_take_bit_iff)
    ultimately show "bit ((ucast (word_of_nat (take_bit 8 n) :: byte) :: u32) OR push_bit 8 (ucast (word_of_nat (drop_bit 8 n) :: byte))) i =
        bit (word_of_nat n :: u32) i"
      by (cases "i < 8") (auto simp: bit_simps)
  qed
  then show ?thesis using assms by (simp only: n(1,2)) (simp add: unsigned_of_nat take_bit_eq_mod)
qed

text \<open>The reader is at offset \<open>off\<close> of a block and \<open>xs\<close> is what follows.\<close>

definition rd_at :: "('g \<Rightarrow> slice) \<Rightarrow> nat \<Rightarrow> slice \<Rightarrow> 'g log_reader \<Rightarrow> bool" where
  "rd_at rest off xs r \<longleftrightarrow>
     off \<le> kBlockSize \<and> lr_buffer r = take (kBlockSize - off) xs \<and> rest (lr_file r) = drop (kBlockSize - off) xs \<and>
     (lr_eof r \<longleftrightarrow> length xs < kBlockSize - off) \<and> initial_offset r = 0 \<and> \<not> resyncing r"

lemma phys_header:
  assumes "length d < 65536"
  shows "phys t d ! 4 = word_of_nat (length d mod 256)" and "phys t d ! 5 = word_of_nat (length d div 256)"
    and "phys t d ! 6 = word_of_nat (type_value t)" and "drop 6 (phys t d) = word_of_nat (type_value t) # d"
    and "drop kHeaderSize (phys t d) = d" and "DecodeFixed32 (phys t d @ zs) = Mask (crc32c 0 (word_of_nat (type_value t) # d))"
proof -
  have l: "length (EncodeFixed32 x) = 4" for x by (simp add: EncodeFixed32_def)
  show "phys t d ! 4 = word_of_nat (length d mod 256)" "phys t d ! 5 = word_of_nat (length d div 256)"
    "phys t d ! 6 = word_of_nat (type_value t)" "drop 6 (phys t d) = word_of_nat (type_value t) # d" "drop kHeaderSize (phys t d) = d"
    by (simp_all add: phys_def log_header_def nth_append l kHeaderSize_def)
  show "DecodeFixed32 (phys t d @ zs) = Mask (crc32c 0 (word_of_nat (type_value t) # d))"
    by (simp add: phys_def log_header_def DecodeFixed32_EncodeFixed32)
qed

lemma parse_complete:
  assumes C: "cpu_ok C" and at: "rd_at rest off (phys t d @ zs) r" and fits: "off + kHeaderSize + length d \<le> kBlockSize" and t: "t \<noteq> kZeroType"
  shows "\<exists>r'. parse_physical C result r = ((word_of_nat (type_value t), d), r') \<and> rd_at rest (off + kHeaderSize + length d) zs r' \<and>
    reports r' = reports r"
proof -
  have b: "lr_buffer r = phys t d @ take (kBlockSize - off - kHeaderSize - length d) zs"
    using at fits by (simp add: rd_at_def add.assoc)
  have len: "length d < 65536" using fits by (simp add: kBlockSize_def kHeaderSize_def)
  note H = phys_header [OF len]
  have i: "4 < length (phys t d)" "5 < length (phys t d)" "6 < length (phys t d)" by (simp_all add: kHeaderSize_def)
  have n: "unat ((ucast (lr_buffer r ! 4) :: u32) OR push_bit 8 (ucast (lr_buffer r ! 5))) = length d"
    using i by (simp only: b nth_append if_True H header_length [OF len])
  have ty: "(scast (lr_buffer r ! 6) :: u32) = word_of_nat (type_value t)" using i by (simp only: b nth_append if_True H scast_type)
  have t0: "word_of_nat (type_value t) \<noteq> (0 :: u32)" using t by (cases t) simp_all
  have crc: "Crc_Value C 0 (take (1 + length d) (drop 6 (lr_buffer r))) = Unmask (DecodeFixed32 (lr_buffer r))"
    using i by (simp add: b H Crc_Value_def Extend_crc32c [OF C])
  have le: "\<not> length (lr_buffer r) < kHeaderSize + length d" by (simp add: b)
  have init: "initial_offset r = 0" using at by (simp add: rd_at_def)
  let ?r = "r\<lparr>lr_buffer := drop (kHeaderSize + length d) (lr_buffer r)\<rparr>"
  have "parse_physical C result r = ((word_of_nat (type_value t), take (length d) (drop kHeaderSize (lr_buffer r))), ?r)"
    unfolding parse_physical_def Let_def n ty crc using t0 le init by simp
  moreover have "rd_at rest (off + kHeaderSize + length d) zs ?r"
    using at fits by (auto simp: rd_at_def b add.assoc)
  ultimately show ?thesis by (simp add: b H)
qed

text \<open>A fragment that is cut off is the end of the file.\<close>

lemma parse_cut:
  assumes at: "rd_at rest off (take k (phys t d)) r" and fits: "off + kHeaderSize + length d \<le> kBlockSize"
    and k: "kHeaderSize \<le> k" "k < kHeaderSize + length d"
  shows "\<exists>r'. parse_physical C result r = ((kEof, result), r') \<and> reports r' = reports r \<and> initial_offset r' = 0 \<and> \<not> resyncing r'"
proof -
  have l: "length (take k (phys t d)) = k" using k by simp
  then have eof: "lr_eof r" using at fits k by (simp add: rd_at_def)
  have b: "lr_buffer r = take k (phys t d)" using at fits k l by (simp add: rd_at_def)
  have lb: "length (lr_buffer r) = k" by (simp only: b l)
  have init: "initial_offset r = 0" "\<not> resyncing r" using at by (simp_all add: rd_at_def)
  have len: "length d < 65536" using fits by (simp add: kBlockSize_def kHeaderSize_def)
  have i: "4 < k" "5 < k" using k by (simp_all add: kHeaderSize_def)
  have n: "unat ((ucast (lr_buffer r ! 4) :: u32) OR push_bit 8 (ucast (lr_buffer r ! 5))) = length d"
    using i by (simp only: b nth_take phys_header [OF len] header_length [OF len])
  show ?thesis
    unfolding parse_physical_def Let_def n using k(2) eof init lb by simp
qed

lemma refill:
  assumes S: "sequential_file S rest" "reads_ok S" and at: "rd_at rest off xs r" and no_room: "kBlockSize - off < kHeaderSize" and xs: "kBlockSize - off \<le> length xs"
  shows "\<exists>r'. ReadPhysicalRecord C S result r = ReadPhysicalRecord C S result r' \<and> rd_at rest 0 (drop (kBlockSize - off) xs) r' \<and> reports r' = reports r"
proof -
  let ?ys = "drop (kBlockSize - off) xs"
  obtain d f where rd: "sf_Read S kBlockSize (lr_file r) = Some (Okay, d, f)" using S(2) unfolding reads_ok_def by blast
  then have d: "d = take kBlockSize ?ys" "rest f = drop kBlockSize ?ys"
    using sequential_file.Read [OF S(1) rd] at by (simp_all add: rd_at_def)
  let ?r = "r\<lparr>lr_file := f, lr_buffer := d, end_of_buffer_offset := end_of_buffer_offset r + word_of_nat (length d)\<rparr>"
  let ?r' = "if length d < kBlockSize then ?r\<lparr>lr_eof := True\<rparr> else ?r"
  have eof: "\<not> lr_eof r" "length (lr_buffer r) < kHeaderSize" using at xs no_room by (auto simp: rd_at_def)
  have "ReadPhysicalRecord C S result r = ReadPhysicalRecord C S result ?r'"
    by (subst ReadPhysicalRecord.simps) (simp add: eof rd Let_def)
  moreover have "rd_at rest 0 ?ys ?r'" using d eof at by (auto simp: rd_at_def)
  ultimately show ?thesis by (intro exI [of _ ?r']) simp
qed

lemma read_complete:
  assumes S: "sequential_file S rest" "reads_ok S" and C: "cpu_ok C" and at: "rd_at rest off (replicate (pad off) 0 @ phys t d @ zs) r"
    and fits: "start off + kHeaderSize + length d \<le> kBlockSize" and t: "t \<noteq> kZeroType"
  shows "\<exists>r'. ReadPhysicalRecord C S result r = Some ((word_of_nat (type_value t), d), r') \<and>
    rd_at rest (start off + kHeaderSize + length d) zs r' \<and> reports r' = reports r"
proof -
  have now: "\<exists>r'. ReadPhysicalRecord C S result q = Some ((word_of_nat (type_value t), d), r') \<and>
      rd_at rest (off' + kHeaderSize + length d) zs r' \<and> reports r' = reports q"
    if q: "rd_at rest off' (phys t d @ zs) q" and f: "off' + kHeaderSize + length d \<le> kBlockSize" for q off'
  proof -
    have "\<not> length (lr_buffer q) < kHeaderSize" using q f by (simp add: rd_at_def)
    then have "ReadPhysicalRecord C S result q = Some (parse_physical C result q)" by (subst ReadPhysicalRecord.simps) simp
    then show ?thesis using parse_complete [OF C q f t, of result] by auto
  qed
  show ?thesis
  proof (cases "kBlockSize - off < kHeaderSize")
    case False
    then show ?thesis using now [of off r] at fits by (simp add: pad_def start_def)
  next
    case True
    then have p: "pad off = kBlockSize - off" "start off = 0" by (simp_all add: pad_def start_def)
    obtain r' where r: "ReadPhysicalRecord C S result r = ReadPhysicalRecord C S result r'" "rd_at rest 0 (phys t d @ zs) r'" "reports r' = reports r"
      using refill [OF S at True, of C result] by (auto simp: p)
    then show ?thesis using now [OF r(2)] fits by (simp add: p)
  qed
qed

lemma read_cut:
  assumes S: "sequential_file S rest" "reads_ok S" and at: "rd_at rest off (take k (replicate (pad off) 0 @ phys t d)) r"
    and fits: "start off + kHeaderSize + length d \<le> kBlockSize" and k: "k < pad off + kHeaderSize + length d"
  shows "\<exists>r'. ReadPhysicalRecord C S result r = Some ((kEof, result), r') \<and> reports r' = reports r \<and> initial_offset r' = 0 \<and> \<not> resyncing r'"
proof -
  have now: "\<exists>r'. ReadPhysicalRecord C S result q = Some ((kEof, result), r') \<and> reports r' = reports q \<and> initial_offset r' = 0 \<and> \<not> resyncing r'"
    if q: "rd_at rest off' (take j (phys t d)) q" and f: "off' + kHeaderSize + length d \<le> kBlockSize" and j: "j < kHeaderSize + length d" for q off' j
  proof (cases "j < kHeaderSize")
    case True
    then have "length (lr_buffer q) < kHeaderSize" "lr_eof q" using q f by (auto simp: rd_at_def)
    moreover have "initial_offset q = 0" "\<not> resyncing q" using q by (simp_all add: rd_at_def)
    ultimately show ?thesis by (subst ReadPhysicalRecord.simps) simp
  next
    case False
    then have "\<not> length (lr_buffer q) < kHeaderSize" using q f j by (simp add: rd_at_def)
    then have "ReadPhysicalRecord C S result q = Some (parse_physical C result q)" by (subst ReadPhysicalRecord.simps) simp
    then show ?thesis using parse_cut [OF q f _ j, of C result] False by auto
  qed
  show ?thesis
  proof (cases "kBlockSize - off < kHeaderSize")
    case False
    then show ?thesis using now [of off k r] at fits k by (simp add: pad_def start_def)
  next
    case True
    then have p: "pad off = kBlockSize - off" "start off = 0" by (simp_all add: pad_def start_def)
    show ?thesis
    proof (cases "k < pad off")
      case small: True
      then have "length (lr_buffer r) < kHeaderSize" "lr_eof r" using at True by (auto simp: rd_at_def p)
      moreover have "initial_offset r = 0" "\<not> resyncing r" using at by (simp_all add: rd_at_def)
      ultimately show ?thesis by (subst ReadPhysicalRecord.simps) simp
    next
      case False
      then have xs: "kBlockSize - off \<le> length (take k (replicate (pad off) 0 @ phys t d))" by (simp add: p)
      have "drop (kBlockSize - off) (take k (replicate (pad off) 0 @ phys t d)) = take (k - pad off) (phys t d)"
        using False by (simp add: p drop_take)
      then obtain r' where "ReadPhysicalRecord C S result r = ReadPhysicalRecord C S result r'" "rd_at rest 0 (take (k - pad off) (phys t d)) r'" "reports r' = reports r"
        using refill [OF S at True xs, of C result] by auto
      then show ?thesis using now [of 0 "k - pad off" r'] fits k False by (auto simp: p)
    qed
  qed
qed

section \<open>Records are read\<close>

lemma pieces_bytes_simps [simp]: "pieces_bytes [] = []" "pieces_bytes (p # ps) = piece_bytes p @ pieces_bytes ps"
  by (simp_all add: pieces_bytes_def)

lemma fragment_type_simps [simp]: "fragment_type True True = kFullType" "fragment_type True False = kFirstType"
  "fragment_type False True = kLastType" "fragment_type False False = kMiddleType"
  by (simp_all add: fragment_type_def)

text \<open>The turn of the loop for a fragment of the right type.\<close>

lemma turn_of_piece:
  assumes r: "\<not> resyncing r" and v: "v = (\<not> begins, sc, prosp, frag)" "begins \<longrightarrow> sc = []"
  shows "\<exists>x r'. record_turn (word_of_nat (type_value (fragment_type begins ends))) (\<not> begins) sc prosp d r = (x, r') \<and>
    lr_file r' = lr_file r \<and> lr_buffer r' = lr_buffer r \<and> lr_eof r' = lr_eof r \<and> initial_offset r' = initial_offset r \<and>
    reports r' = reports r \<and> \<not> resyncing r' \<and>
    (if ends then x = Inr (True, sc @ d) else (\<exists>p. x = Inl (True, sc @ d, p, d)))"
  using r v(2) by (cases begins; cases ends) (simp_all add: record_turn_def Let_def)

lemma rd_at_same:
  assumes "rd_at rest off xs r" and "lr_file r' = lr_file r" "lr_buffer r' = lr_buffer r" "lr_eof r' = lr_eof r" "initial_offset r' = initial_offset r" "\<not> resyncing r'"
  shows "rd_at rest off xs r'"
  using assms by (simp add: rd_at_def)

lemma fragment_not_zero: "fragment_type begins ends \<noteq> kZeroType"
  by (simp add: fragment_type_def)

lemma piece_fits: "start off + kHeaderSize + length (take (room off) d) \<le> kBlockSize"
  using room_fits [of off] by simp

lemma record_read:
  assumes S: "sequential_file S rest" "reads_ok S" and C: "cpu_ok C"
  shows "rd_at rest off (pieces_bytes (pieces off begins d) @ zs) r \<Longrightarrow> begins \<longrightarrow> sc = [] \<Longrightarrow>
    \<exists>r'. record_loop C S (\<not> begins, sc, prosp, frag) r = Some ((True, sc @ d), r') \<and>
      rd_at rest (foldl piece_end off (pieces off begins d)) zs r' \<and> reports r' = reports r"
proof (induction off begins d arbitrary: r sc prosp frag rule: pieces.induct)
  case (1 off begins d)
  let ?ends = "length d \<le> room off" let ?d = "take (room off) d" let ?t = "fragment_type begins ?ends"
  let ?rest = "if ?ends then [] else pieces kBlockSize False (drop (room off) d)"
  have at: "rd_at rest off (replicate (pad off) 0 @ phys ?t ?d @ pieces_bytes ?rest @ zs) r"
    using 1(2) by (simp add: pieces_step [of off begins d] piece_bytes_def del: length_take)
  obtain r1 where r1: "ReadPhysicalRecord C S frag r = Some ((word_of_nat (type_value ?t), ?d), r1)"
    "rd_at rest (start off + kHeaderSize + length ?d) (pieces_bytes ?rest @ zs) r1" "reports r1 = reports r"
    using read_complete [OF S C at piece_fits fragment_not_zero, of frag] by auto
  have "\<not> resyncing r1" using r1(2) by (simp add: rd_at_def)
  then obtain x r2 where r2: "record_turn (word_of_nat (type_value ?t)) (\<not> begins) sc prosp ?d r1 = (x, r2)"
    "lr_file r2 = lr_file r1" "lr_buffer r2 = lr_buffer r1" "lr_eof r2 = lr_eof r1" "initial_offset r2 = initial_offset r1" "reports r2 = reports r1"
    "\<not> resyncing r2" "if ?ends then x = Inr (True, sc @ ?d) else (\<exists>p. x = Inl (True, sc @ ?d, p, ?d))"
    using turn_of_piece [of r1 "(\<not> begins, sc, prosp, frag)" begins sc prosp frag ?ends ?d] 1(3) by blast
  have at2: "rd_at rest (start off + kHeaderSize + length ?d) (pieces_bytes ?rest @ zs) r2"
    by (rule rd_at_same [OF r1(2) r2(2,3,4,5,7)])
  have l: "record_loop C S (\<not> begins, sc, prosp, frag) r = (case x of Inr result \<Rightarrow> Some (result, r2) | Inl v \<Rightarrow> record_loop C S v r2)"
    by (subst record_loop.simps) (simp add: r1(1) r2(1) split: sum.split)
  show ?case
  proof (cases ?ends)
    case True
    then show ?thesis using l r2 r1 at2 by (simp add: pieces_step [of off begins d] piece_end_def)
  next
    case False
    then obtain p where x: "x = Inl (True, sc @ ?d, p, ?d)" using r2(8) by auto
    have off: "start off + kHeaderSize + length ?d = kBlockSize" using False room_fits [of off] by simp
    have at3: "rd_at rest kBlockSize (pieces_bytes (pieces kBlockSize False (drop (room off) d)) @ zs) r2"
      using at2 False by (simp only: off if_False)
    from 1(1) [OF False, of r2 "sc @ ?d" p ?d] obtain r' where
      "record_loop C S (True, sc @ ?d, p, ?d) r2 = Some ((True, (sc @ ?d) @ drop (room off) d), r')"
      "rd_at rest (foldl piece_end kBlockSize (pieces kBlockSize False (drop (room off) d))) zs r'" "reports r' = reports r2"
      using at3 by auto
    moreover have "piece_end off (pad off, ?t, ?d) = kBlockSize" using off by (simp add: piece_end_def)
    ultimately show ?thesis using l x False r1 r2 by (simp add: pieces_step [of off begins d])
  qed
qed

lemma record_cut:
  assumes S: "sequential_file S rest" "reads_ok S" and C: "cpu_ok C"
  shows "rd_at rest off (take k (pieces_bytes (pieces off begins d))) r \<Longrightarrow> k < length (pieces_bytes (pieces off begins d)) \<Longrightarrow> begins \<longrightarrow> sc = [] \<Longrightarrow>
    \<exists>r'. record_loop C S (\<not> begins, sc, prosp, frag) r = Some ((False, []), r') \<and> reports r' = reports r"
proof (induction off begins d arbitrary: k r sc prosp frag rule: pieces.induct)
  case (1 off begins d)
  let ?ends = "length d \<le> room off" let ?d = "take (room off) d" let ?t = "fragment_type begins ?ends"
  let ?rest = "if ?ends then [] else pieces kBlockSize False (drop (room off) d)"
  let ?n = "pad off + kHeaderSize + length ?d"
  have b: "pieces_bytes (pieces off begins d) = (replicate (pad off) 0 @ phys ?t ?d) @ pieces_bytes ?rest"
    by (simp add: pieces_step [of off begins d] piece_bytes_def del: length_take)
  have n: "length (replicate (pad off) 0 @ phys ?t ?d) = ?n" by simp
  show ?case
  proof (cases "k < ?n")
    case True
    then have at: "rd_at rest off (take k (replicate (pad off) 0 @ phys ?t ?d)) r" using 1(2) n by (simp add: b)
    obtain r1 where r1: "ReadPhysicalRecord C S frag r = Some ((kEof, frag), r1)" "reports r1 = reports r" "\<not> resyncing r1"
      using read_cut [OF S at piece_fits True, of C frag] by auto
    have "record_turn kEof (\<not> begins) sc prosp frag r1 = (Inr (False, []), r1\<lparr>resyncing := False\<rparr>)"
      using r1(3) by (simp add: record_turn_def Let_def kEof_def kMaxRecordType_def)
    then show ?thesis by (subst record_loop.simps) (simp add: r1)
  next
    case False
    then have at: "rd_at rest off (replicate (pad off) 0 @ phys ?t ?d @ take (k - ?n) (pieces_bytes ?rest)) r"
      using 1(2) n by (simp only: b take_append n) simp
    have ends: "\<not> ?ends" using False 1(3) n by (auto simp: b)
    obtain r1 where r1: "ReadPhysicalRecord C S frag r = Some ((word_of_nat (type_value ?t), ?d), r1)"
      "rd_at rest (start off + kHeaderSize + length ?d) (take (k - ?n) (pieces_bytes ?rest)) r1" "reports r1 = reports r"
      using read_complete [OF S C at piece_fits fragment_not_zero, of frag] by auto
    have "\<not> resyncing r1" using r1(2) by (simp add: rd_at_def)
    then obtain x r2 where r2: "record_turn (word_of_nat (type_value ?t)) (\<not> begins) sc prosp ?d r1 = (x, r2)"
      "lr_file r2 = lr_file r1" "lr_buffer r2 = lr_buffer r1" "lr_eof r2 = lr_eof r1" "initial_offset r2 = initial_offset r1" "reports r2 = reports r1"
      "\<not> resyncing r2" "if ?ends then x = Inr (True, sc @ ?d) else (\<exists>p. x = Inl (True, sc @ ?d, p, ?d))"
      using turn_of_piece [of r1 "(\<not> begins, sc, prosp, frag)" begins sc prosp frag ?ends ?d] 1(4) by blast
    obtain p where x: "x = Inl (True, sc @ ?d, p, ?d)" using r2(8) ends by auto
    have off: "start off + kHeaderSize + length ?d = kBlockSize" using ends room_fits [of off] by simp
    have at2: "rd_at rest kBlockSize (take (k - ?n) (pieces_bytes (pieces kBlockSize False (drop (room off) d)))) r2"
      using rd_at_same [OF r1(2) r2(2,3,4,5,7)] ends by (simp only: off if_False)
    have "k - ?n < length (pieces_bytes (pieces kBlockSize False (drop (room off) d)))" using 1(3) False ends n by (simp add: b)
    from 1(1) [OF ends at2 this, of "sc @ ?d" p ?d] obtain r' where
      "record_loop C S (True, sc @ ?d, p, ?d) r2 = Some ((False, []), r')" "reports r' = reports r2" by auto
    moreover have "record_loop C S (\<not> begins, sc, prosp, frag) r = record_loop C S (True, sc @ ?d, p, ?d) r2"
      by (subst record_loop.simps) (simp add: r1(1) r2(1) x)
    ultimately show ?thesis using r1 r2 by simp
  qed
qed

section \<open>Logs\<close>

fun log_bytes :: "nat \<Rightarrow> slice list \<Rightarrow> slice" where
  "log_bytes off [] = []"
| "log_bytes off (d # ds) = pieces_bytes (pieces off True d) @ log_bytes (foldl piece_end off (pieces off True d)) ds"

fun log_end :: "nat \<Rightarrow> slice list \<Rightarrow> nat" where
  "log_end off [] = off"
| "log_end off (d # ds) = log_end (foldl piece_end off (pieces off True d)) ds"

lemma log_append: "log_bytes off (ds @ es) = log_bytes off ds @ log_bytes (log_end off ds) es"
  by (induction ds arbitrary: off) simp_all

lemma log_end_append: "log_end off (ds @ es) = log_end (log_end off ds) es"
  by (induction ds arbitrary: off) simp_all

text \<open>Add the records one after the other, as long as that works.\<close>

fun AddRecords :: "cpu \<Rightarrow> 'f WritableFile \<Rightarrow> slice list \<Rightarrow> log_writer \<Rightarrow> 'f \<Rightarrow> (status \<times> log_writer \<times> 'f) option" where
  "AddRecords C F [] w f = Some (Okay, w, f)"
| "AddRecords C F (d # ds) w f =
     (case AddRecord C F d w f of
        None \<Rightarrow> None
      | Some (st, w, f) \<Rightarrow> if ok st then AddRecords C F ds w f else Some (st, w, f))"

text \<open>Read a log with a scanner until it is no longer valid; the result is the records and the status.\<close>

fun scan_log :: "cpu \<Rightarrow> 'g SequentialFile \<Rightarrow> nat \<Rightarrow> 'g log_scanner \<Rightarrow> (slice list \<times> status) option" where
  "scan_log C S 0 sc = None"
| "scan_log C S (Suc n) sc =
     (if Scanner_Valid sc
      then (case Scanner_Next C S sc of
              None \<Rightarrow> None
            | Some sc' \<Rightarrow> map_option (\<lambda>(ds, st). (sc_record sc # ds, st)) (scan_log C S n sc'))
      else Some ([], sc_status sc))"

lemma ReadRecord_at: "rd_at rest off xs r \<Longrightarrow> ReadRecord C S False record r = record_loop C S (False, [], 0, []) r"
  by (simp add: ReadRecord_def rd_at_def)

lemma Next_complete:
  assumes S: "sequential_file S rest" "reads_ok S" and C: "cpu_ok C" and at: "rd_at rest off (pieces_bytes (pieces off True d) @ zs) (sc_reader sc)"
    and st: "sc_status sc = Okay" "reports (sc_reader sc) = Some []"
  shows "\<exists>r'. Scanner_Next C S sc = Some (sc\<lparr>sc_status := Okay, sc_record := d, sc_reader := r', sc_eof := False\<rparr>) \<and>
    rd_at rest (foldl piece_end off (pieces off True d)) zs r' \<and> reports r' = Some []"
  using record_read [OF S C at, of "[]" 0 "[]"] st by (auto simp: Scanner_Next_def ReadRecord_at [OF at] first_report_def)

lemma Next_cut:
  assumes S: "sequential_file S rest" "reads_ok S" and C: "cpu_ok C" and at: "rd_at rest off (take k (pieces_bytes (pieces off True d))) (sc_reader sc)"
    and k: "k < length (pieces_bytes (pieces off True d))" and st: "sc_status sc = Okay" "reports (sc_reader sc) = Some []"
  shows "\<exists>r'. Scanner_Next C S sc = Some (sc\<lparr>sc_status := Okay, sc_record := [], sc_reader := r', sc_eof := True\<rparr>)"
  using record_cut [OF S C at k, of "[]" 0 "[]"] st by (auto simp: Scanner_Next_def ReadRecord_at [OF at] first_report_def)

lemma scan_ok:
  assumes S: "sequential_file S rest" "reads_ok S" and C: "cpu_ok C" and k: "k < length (pieces_bytes (pieces (log_end off ds) True d))"
  shows "rd_at rest off (log_bytes off ds @ take k (pieces_bytes (pieces (log_end off ds) True d))) (sc_reader sc) \<Longrightarrow> sc_status sc = Okay \<Longrightarrow>
    reports (sc_reader sc) = Some [] \<Longrightarrow> \<exists>sc'. Scanner_Next C S sc = Some sc' \<and> scan_log C S (Suc (length ds)) sc' = Some (ds, Okay)"
  using k
proof (induction ds arbitrary: off sc)
  case Nil
  then show ?case using Next_cut [OF S C, of off k d sc] by (auto simp: Scanner_Valid_def)
next
  case (Cons e ds)
  let ?off = "foldl piece_end off (pieces off True e)"
  let ?zs = "log_bytes ?off ds @ take k (pieces_bytes (pieces (log_end ?off ds) True d))"
  have at: "rd_at rest off (pieces_bytes (pieces off True e) @ ?zs) (sc_reader sc)" using Cons(2) by simp
  obtain r' where n: "Scanner_Next C S sc = Some (sc\<lparr>sc_status := Okay, sc_record := e, sc_reader := r', sc_eof := False\<rparr>)" (is "_ = Some ?sc")
    and r': "rd_at rest ?off ?zs r'" "reports r' = Some []"
    using Next_complete [OF S C at Cons(3,4)] by blast
  have "k < length (pieces_bytes (pieces (log_end ?off ds) True d))" using Cons(5) by simp
  then obtain sc' where "Scanner_Next C S ?sc = Some sc'" "scan_log C S (Suc (length ds)) sc' = Some (ds, Okay)"
    using Cons(1) [of ?off ?sc] r' Cons(3) by auto
  then have "scan_log C S (Suc (length (e # ds))) ?sc = Some (e # ds, Okay)"
    using Cons(3) by (simp add: Scanner_Valid_def)
  then show ?case using n by blast
qed

lemma scan_log_more: "scan_log C S n sc = Some x \<Longrightarrow> scan_log C S (n + m) sc = Some x"
proof (induction n arbitrary: sc x)
  case (Suc n)
  then show ?case
    by (cases "Scanner_Next C S sc"; cases "scan_log C S n (the (Scanner_Next C S sc))")
      (auto split: if_splits)
qed simp

lemma pieces_new_block: "pieces kBlockSize begins d = pieces 0 begins d"
  by (simp add: pieces_step [of kBlockSize begins d] pieces_step [of 0 begins d] room_def)

lemma piece_end_new_block: "piece_end kBlockSize p = piece_end 0 p"
  by (simp add: piece_end_def)

lemma log_bytes_new_block: "log_bytes kBlockSize ds = log_bytes 0 ds"
proof (cases ds)
  case (Cons d es)
  obtain p ps where "pieces 0 True d = p # ps" by (metis pieces_step)
  then show ?thesis by (simp add: Cons pieces_new_block piece_end_new_block)
qed simp

lemma log_end_new_block: "pieces (log_end kBlockSize ds) True d = pieces (log_end 0 ds) True d"
proof (cases ds)
  case Nil
  then show ?thesis by (simp add: pieces_new_block)
next
  case (Cons e es)
  obtain p ps where "pieces 0 True e = p # ps" by (metis pieces_step)
  then show ?thesis by (simp add: Cons pieces_new_block piece_end_new_block)
qed

text \<open>A file whose writes all work.\<close>

definition writes_ok :: "'f WritableFile \<Rightarrow> bool" where
  "writes_ok F \<longleftrightarrow> (\<forall>d f. \<exists>f'. wf_Append F d f = Some (Okay, f')) \<and> (\<forall>f. \<exists>f'. wf_Flush F f = Some (Okay, f'))"

lemma switch_block_total: "writes_ok F \<Longrightarrow> block_offset w \<le> kBlockSize \<Longrightarrow> \<exists>w' f'. switch_block F w f = Some (Okay, w', f')"
proof -
  assume a: "writes_ok F" "block_offset w \<le> kBlockSize"
  then obtain f' where "wf_Append F (replicate (kBlockSize - block_offset w) 0) f = Some (Okay, f')" unfolding writes_ok_def by blast
  then show ?thesis using a(2) by (simp add: switch_block_def Let_def)
qed

lemma EmitPhysicalRecord_total:
  assumes "writes_ok F" and "block_offset w + kHeaderSize + length d \<le> kBlockSize"
  shows "\<exists>w' f'. EmitPhysicalRecord C F t d w f = Some (Okay, w', f')"
proof -
  let ?h = "log_header (Mask (Extend C 0 (type_crc w ! type_value t) d)) t (length d)"
  obtain f1 where f1: "wf_Append F ?h f = Some (Okay, f1)" using assms(1) unfolding writes_ok_def by blast
  obtain f2 where f2: "wf_Append F d f1 = Some (Okay, f2)" using assms(1) unfolding writes_ok_def by blast
  obtain f3 where f3: "wf_Flush F f2 = Some (Okay, f3)" using assms(1) unfolding writes_ok_def by blast
  have "length d \<le> 0xffff" using assms(2) by (simp add: kBlockSize_def)
  then show ?thesis using assms(2) by (simp add: EmitPhysicalRecord_def Let_def f1 f2 f3)
qed

context writable_file
begin

lemma add_loop_total:
  "writes_ok F \<Longrightarrow> off = block_offset w \<Longrightarrow> off \<le> kBlockSize \<Longrightarrow> \<exists>w' f'. add_loop C F begins d w f = Some (Okay, w', f') \<and> block_offset w' \<le> kBlockSize"
proof (induction off begins d arbitrary: w f rule: pieces.induct)
  case (1 off begins d)
  obtain w1 f1 where s: "switch_block F w f = Some (Okay, w1, f1)"
    using switch_block_total [OF 1(2), of w f] 1(3,4) by auto
  note S = switch_block_ok [OF s, folded 1(3)]
  let ?t = "fragment_type begins (length d \<le> room off)" let ?d = "take (room off) d"
  have "block_offset w1 + kHeaderSize + length ?d \<le> kBlockSize" using piece_fits [of off d] S(2) by simp
  then obtain w2 f2 where e: "EmitPhysicalRecord C F ?t ?d w1 f1 = Some (Okay, w2, f2)"
    using EmitPhysicalRecord_total [OF 1(2)] by blast
  note E = EmitPhysicalRecord_offset [OF e]
  show ?case
  proof (cases "length d \<le> room off")
    case True
    then show ?thesis using add_loop_turn [OF s S(2), of C begins d] e E by simp
  next
    case False
    then have "kBlockSize = block_offset w2" using E S(2) room_fits [of off] by simp
    then show ?thesis using 1(1) [OF False 1(2), of w2 f2] add_loop_turn [OF s S(2), of C begins d] e False by simp
  qed
qed

lemma AddRecords_total:
  "writes_ok F \<Longrightarrow> cpu_ok C \<Longrightarrow> block_offset w \<le> kBlockSize \<Longrightarrow> type_crc w = InitTypeCrc C \<Longrightarrow>
    \<exists>w' f'. AddRecords C F ds w f = Some (Okay, w', f') \<and> contents f' = contents f @ log_bytes (block_offset w) ds \<and>
      type_crc w' = InitTypeCrc C \<and> block_offset w' = log_end (block_offset w) ds \<and> block_offset w' \<le> kBlockSize"
proof (induction ds arbitrary: w f)
  case (Cons d ds)
  obtain w1 f1 where a: "AddRecord C F d w f = Some (Okay, w1, f1)" "block_offset w1 \<le> kBlockSize"
    using add_loop_total [OF Cons(2) refl Cons(4), of C True d f] by (auto simp: AddRecord_def)
  note A = add_loop_ok [OF a(1) [unfolded AddRecord_def] refl Cons(3,5)]
  then obtain w' f' where "AddRecords C F ds w1 f1 = Some (Okay, w', f')" "contents f' = contents f1 @ log_bytes (block_offset w1) ds"
      "type_crc w' = InitTypeCrc C" "block_offset w' = log_end (block_offset w1) ds" "block_offset w' \<le> kBlockSize"
    using Cons(1) [OF Cons(2,3) a(2), of f1] by auto
  then show ?case using a A by simp
qed simp

end

lemma rd_at_new_Reader: "rd_at rest kBlockSize (rest g) (new_Reader g True True 0)" "reports (new_Reader g True True 0) = Some []"
  by (simp_all add: rd_at_def new_Reader_def)

lemma scan_cut_log:
  assumes S: "sequential_file S rest" "reads_ok S" and C: "cpu_ok C" and k: "k < length (pieces_bytes (pieces (log_end 0 ds) True d))"
    and g: "rest g = log_bytes 0 ds @ take k (pieces_bytes (pieces (log_end 0 ds) True d))"
  shows "\<exists>sc. new_Scanner C S g True 0 = Some sc \<and> scan_log C S (length ds + 1) sc = Some (ds, Okay)"
proof -
  let ?sc = "\<lparr>sc_status = Okay, sc_record = [], sc_reader = new_Reader g True True 0, sc_eof = False\<rparr>"
  have at: "rd_at rest kBlockSize (log_bytes kBlockSize ds @ take k (pieces_bytes (pieces (log_end kBlockSize ds) True d))) (sc_reader ?sc)"
    using rd_at_new_Reader(1) [of rest g] by (simp add: g log_bytes_new_block log_end_new_block)
  show ?thesis
    using scan_ok [OF S C _ at] k rd_at_new_Reader(2) [of g] by (simp add: new_Scanner_def log_end_new_block)
qed

lemma pieces_bytes_positive: "0 < length (pieces_bytes (pieces off begins d))"
  by (simp add: pieces_step [of off begins d] piece_bytes_def kHeaderSize_def)

text \<open>
  C20. A log outlives a crash. Let a writer add records to an empty file whose writes work, and then one more: no assertion
  fails and every addition succeeds. If the file that is read later holds all of the first records and any part of the last
  one, cut at any byte, a scanner with a reporter gives the first records in order, and the last one exactly when it is
  complete; it reports no corruption, and it ends. Records may have any length, the empty one included, and so span
  blocks. The hypotheses are that the processor's instruction, where there is one, is the one that SSE 4.2 documents, and
  the contracts of the two files.
\<close>

theorem log_recovery:
  assumes C: "cpu_ok C" and F: "writable_file F c" "writes_ok F" "c f0 = []" and S: "sequential_file S rest" "reads_ok S"
  shows "\<exists>w f w' f'. AddRecords C F rs (new_Writer C u) f0 = Some (Okay, w, f) \<and> AddRecord C F r w f = Some (Okay, w', f') \<and>
    (\<forall>k g. length (c f) \<le> k \<longrightarrow> k \<le> length (c f') \<longrightarrow> rest g = take k (c f') \<longrightarrow>
      (\<exists>sc. new_Scanner C S g True 0 = Some sc \<and>
        scan_log C S (length rs + 2) sc = Some (if k = length (c f') then rs @ [r] else rs, Okay)))"
proof -
  obtain w f where a: "AddRecords C F rs (new_Writer C u) f0 = Some (Okay, w, f)" "c f = log_bytes 0 rs"
      "type_crc w = InitTypeCrc C" "block_offset w = log_end 0 rs" "block_offset w \<le> kBlockSize"
    using writable_file.AddRecords_total [OF F(1,2) C, of "new_Writer C u" rs f0] F(3) by (auto simp: new_Writer_def)
  obtain w' f' where b: "AddRecord C F r w f = Some (Okay, w', f')"
    using writable_file.add_loop_total [OF F(1,2) refl a(5), of C True r f] by (auto simp: AddRecord_def)
  let ?p = "pieces_bytes (pieces (log_end 0 rs) True r)"
  have f': "c f' = log_bytes 0 rs @ ?p"
    using writable_file.add_loop_ok [OF F(1) b [unfolded AddRecord_def] a(4) [symmetric] C a(3)] a(2) by simp
  have "\<exists>sc. new_Scanner C S g True 0 = Some sc \<and> scan_log C S (length rs + 2) sc = Some (if k = length (c f') then rs @ [r] else rs, Okay)"
    if k: "length (c f) \<le> k" "k \<le> length (c f')" and g: "rest g = take k (c f')" for k g
  proof (cases "k = length (c f')")
    case True
    have "rest g = log_bytes 0 (rs @ [r]) @ take 0 (pieces_bytes (pieces (log_end 0 (rs @ [r])) True []))"
      using g by (simp add: True f' log_append)
    then obtain sc where "new_Scanner C S g True 0 = Some sc" "scan_log C S (length (rs @ [r]) + 1) sc = Some (rs @ [r], Okay)"
      using scan_cut_log [OF S C pieces_bytes_positive] by blast
    then show ?thesis using True by simp
  next
    case False
    define j where "j = k - length (log_bytes 0 rs)"
    have j: "rest g = log_bytes 0 rs @ take j ?p" "j < length ?p"
      using k g False a(2) by (auto simp: j_def f')
    from scan_cut_log [OF S C j(2,1)] obtain sc where "new_Scanner C S g True 0 = Some sc" "scan_log C S (length rs + 1) sc = Some (rs, Okay)"
      by blast
    then show ?thesis using scan_log_more [of C S "length rs + 1" sc _ 1] False by (auto simp: add.assoc)
  qed
  then show ?thesis using a(1) b by blast
qed

lemma sample_files: "cpu_ok sample_cpu" "writable_file mem_file (\<lambda>f. f)" "writes_ok mem_file" "sequential_file mem_seq_file (\<lambda>g. g)" "reads_ok mem_seq_file"
proof -
  show "cpu_ok sample_cpu" by (simp add: cpu_ok_def sample_cpu_def sse42_def)
  show "writes_ok mem_file" "reads_ok mem_seq_file" by (simp_all add: writes_ok_def reads_ok_def mem_file_def mem_seq_file_def)
qed (rule mem.writable_file_axioms mem_seq.sequential_file_axioms)+

lemma log_recovery_witness:
  "\<exists>w f w' f'. AddRecords sample_cpu mem_file [[1, 2], [], [3]] (new_Writer sample_cpu 0) [] = Some (Okay, w, f) \<and>
    AddRecord sample_cpu mem_file [4, 5] w f = Some (Okay, w', f') \<and> length f' = length f + 9 \<and>
    (\<exists>sc. new_Scanner sample_cpu mem_seq_file (take (length f + 8) f') True 0 = Some sc \<and>
      scan_log sample_cpu mem_seq_file 5 sc = Some ([[1, 2], [], [3]], Okay)) \<and>
    (\<exists>sc. new_Scanner sample_cpu mem_seq_file f' True 0 = Some sc \<and>
      scan_log sample_cpu mem_seq_file 5 sc = Some ([[1, 2], [], [3], [4, 5]], Okay))"
proof -
  let ?rs = "[[1, 2], [], [3 :: byte]]"
  obtain w f w' f' where a: "AddRecords sample_cpu mem_file ?rs (new_Writer sample_cpu 0) [] = Some (Okay, w, f)"
      "AddRecord sample_cpu mem_file [4, 5] w f = Some (Okay, w', f')"
    and scan: "\<forall>k g. length f \<le> k \<longrightarrow> k \<le> length f' \<longrightarrow> g = take k f' \<longrightarrow>
      (\<exists>sc. new_Scanner sample_cpu mem_seq_file g True 0 = Some sc \<and>
        scan_log sample_cpu mem_seq_file (length ?rs + 2) sc = Some (if k = length f' then ?rs @ [[4, 5]] else ?rs, Okay))"
    using log_recovery [OF sample_files(1-3) refl sample_files(4,5), of ?rs 0 "[4, 5]"] by blast
  have w: "type_crc w = InitTypeCrc sample_cpu" "block_offset w = log_end 0 ?rs"
    using mem.AddRecords_total [OF sample_files(3,1), of "new_Writer sample_cpu 0" ?rs "[]"] a(1) by (auto simp: new_Writer_def)
  have "pieces_bytes (pieces (block_offset w) True [4, 5]) = phys kFullType [4, 5]"
    by (simp add: w(2) pieces_step piece_bytes_def room_def start_def pad_def piece_end_def kBlockSize_def kHeaderSize_def)
  then have l: "length f' = length f + 9"
    using mem.add_loop_ok [OF a(2) [unfolded AddRecord_def] refl sample_files(1) w(1)] by (simp add: kHeaderSize_def)
  then show ?thesis
    using a scan [rule_format, of "length f + 8" "take (length f + 8) f'"] scan [rule_format, of "length f'" f'] by (auto simp: eval_nat_numeral)
qed

end
