(* ===== verification/Spec2Isabelle.thy ===== *)
theory Spec2Isabelle
  imports Fs_Alone Fs_Handlers Fs_Close Block_Pool Fscli_Paths Fscli_Batches Log_File
begin

text \<open>
  A verification development for DeltaFS-proto: a distributed file system metadata service (\<^verbatim>\<open>src/src/libdeltafs\<close>) over
  the library \<^verbatim>\<open>src/external/pdlfs-common\<close> with its LevelDB. Directories are split over servers by hashing (GIGA+);
  each server keeps the entries of its share in an LSM store; clients resolve path names one component at a time and send
  every operation to the server the name belongs to.

  \<^bold>\<open>Conventions.\<close> A class is a record with the fields of the class, a method a function of that record that returns it
  updated. \<open>None\<close> is a failed assertion, a null or dangling pointer, an index outside of an array or a wait that nobody
  ends; a result that the code reports is a \<open>status\<close>. Machine integers are words of their width where they wrap around,
  naturals and integers where the code cannot reach the limit. A slice is the list of its bytes. Objects that are shared
  or freed live in a heap, a map from addresses. Loops are recursive functions with termination proofs; a loop that may not
  end is a partial function to \<open>option\<close> and its end is proved. Code outside of \<^verbatim>\<open>src\<close> (the operating system, the
  network, the processor's CRC instruction, table files below \<^verbatim>\<open>VersionSet\<close>) is an argument, its documented behaviour a
  hypothesis with an instance in the witness.

  \<^bold>\<open>Foundations.\<close>

  \<^item> \<open>Prelude\<close>: types, word lemmas, the interfaces \<open>prefix_codec\<close> and \<open>slice_reader\<close> of the wire formats.
  \<^item> \<open>Slice\<close>, \<open>Coding\<close>, \<open>Status\<close>, \<open>Hashing\<close>, \<open>Prng\<close> (\<^verbatim>\<open>slice.cc, coding.cc, status.cc, hash.cc, xxhash, random.h\<close>): fixed
  and variable length integers with round trips and bounds on what a decoder consumes.
  \<^item> \<open>Crc32c\<close> (\<^verbatim>\<open>crc32c/\<close>): the table-driven and the SSE 4.2 checksum, both equal to the division of polynomials bit by bit.
  \<^item> \<open>Env_Files\<close> (\<^verbatim>\<open>env_files.h\<close>): the interfaces \<open>writable_file\<close> and \<open>sequential_file\<close>, the buffered and counted files.
  \<^item> \<open>Log_File\<close> (\<^verbatim>\<open>log_writer.cc, log_reader.cc, log_scanner.h\<close>): logs of records in blocks of 32768 bytes; a log that is
  cut anywhere in its last record gives back all others.
  \<^item> \<open>Hashmap\<close>, \<open>Lru\<close> (\<^verbatim>\<open>hashmap.h, lru.h\<close>): the chained hash table is a map; the reference-counted LRU cache keeps its
  invariant, calls every deleter once, and never frees what is referenced. \<open>Block_Pool\<close>: objects kept in both at once.

  \<^bold>\<open>The store.\<close>

  \<^item> \<open>Skiplist\<close>, \<open>Memtable\<close>, \<open>Write_Batch\<close>, \<open>Comparator\<close> (\<^verbatim>\<open>skiplist.h, memtable.cc, write_batch.cc,
  internal_types.cc\<close>): the skip list as nodes with towers of pointers, sorted at every level; internal keys; what a batch
  means and that replaying it into a memtable is seen by later readers only.
  \<^item> \<open>Db_Iter\<close>, \<open>Merger\<close> (\<^verbatim>\<open>db_iter.cc, merger.cc\<close>): the interface \<open>iterator\<close>, and that the merging iterator and \<^verbatim>\<open>DBIter\<close>
  implement it, in both directions.
  \<^item> \<open>Db\<close> (\<^verbatim>\<open>db_impl.cc\<close>): reads, the write queue with group commit, room for writes, snapshots. The files below are an argument.
  \<^item> \<open>Kvstore\<close>, \<open>Mxdb\<close>, \<open>Fsdbbase\<close>, \<open>Fsdb\<close> (\<^verbatim>\<open>fsdb0.h, fsdbbase.cc, fsdb.cc\<close>): the laws of a key-value store as the
  locale \<open>kv_store\<close>; directory entries over it; transactions; listings. \<open>Fsdb\<close> interprets the locale with \<open>Db\<close>, and proves
  \<open>fs_store\<close>, the laws the server relies on.
  \<^item> \<open>Fstypes\<close> (\<^verbatim>\<open>fstypes.cc\<close>): the records for inodes and lookups.

  \<^bold>\<open>The index.\<close>

  \<^item> \<open>Gigaplus\<close>, \<open>Giga_Index\<close> (\<^verbatim>\<open>gigaplus.cc\<close>): the bitmap of partitions; placement of names, splitting, merging,
  encoding.

  \<^bold>\<open>The server.\<close>

  \<^item> \<open>Fs\<close> (\<^verbatim>\<open>fs.cc\<close>): the state of \<^verbatim>\<open>Filesystem\<close> and its handlers as functions.
  \<^item> \<open>Fs_Steps\<close>: the same handlers as threads that interleave at the critical sections of the mutexes; a thread waits for a
  way (one of the locks of a directory). \<open>Fs_Blocks\<close>: control blocks of directories. \<open>Fs_Safety\<close>: names and inode numbers.
  \<open>Fs_Progress\<close>: no assertion fails, nothing waits for ever. \<open>Fs_Alone\<close>: both models agree. \<open>Fs_Handlers\<close>: what each
  handler returns and changes. \<open>Fs_Close\<close>: opening and closing.
  \<^item> \<open>Fscom\<close> (\<^verbatim>\<open>fscom.cc, fssvr.cc, fsis.cc, fsapi.cc\<close>): messages, stubs and dispatch; a remote call is the local call.

  \<^bold>\<open>The client.\<close>

  \<^item> \<open>Fscli\<close> (\<^verbatim>\<open>fscli.cc\<close>): leases, partitions, directories, batched creates and bulk insertion, each call as
  it runs alone. \<open>Fscli_Paths\<close>: path names. \<open>Fscli_Batches\<close>: the names of a batch reach their servers; an expired bulk insertion
  cannot be closed.

  \<^bold>\<open>Bounds.\<close> Sequence numbers stay below \<open>2 ^ 56\<close>, and keys hold 56 bits of the inode number of a directory. The store keeps its promises for
  names below \<open>2 ^ 29\<close> bytes. The theorems on threads count the steps: \<open>n\<close> steps with \<open>n < 2 ^ 32\<close>, since one step
  hands out up to \<open>2 ^ 32\<close> inode numbers of \<open>2 ^ 64\<close>; \<open>total_left\<close> bounds the steps of the calls that are under way. Virtual servers are a power of two up to 8192, as \<^verbatim>\<open>SetAll\<close> demands. A request must fit a buffer of 200 bytes: names
  of up to 146 bytes, 142 where a mode is sent too. \<open>scan_log\<close> takes two turns more than there are records, which is
  what it takes to see the end.

  \<^bold>\<open>Not modelled.\<close> Table files, versions, recovery and compaction (the reads of \<open>Db\<close> take them as an argument that answers
  for the older entries); memory barriers of concurrent readers of the skip list; the operating system, sockets, MPI and
  object stores; options and programs that only set them; hash functions that nothing here calls. The table of bulk
  insertions (\<^verbatim>\<open>fsbuk.cc\<close>) is an argument of the client.
\<close>

end
